(* ===== verification/Prelude.thy ===== *)
theory Prelude
  imports Main "HOL-Library.Word"
begin

text \<open>
  The shared ground of the development: the C types the sources use (fixed-width
  integers written as plain \<^typ>\<open>int\<close> or \<^typ>\<open>nat\<close> with the truncation spelled out,
  pointers as numbers with 0 for NULL), the return codes of read.h, the allocator
  as a parameter, byte memory as a \<^typ>\<open>char list\<close>, the character tests of
  \<^verbatim>\<open><ctype.h>\<close> in the C locale, and the generic lemmas on lists and widths that the
  component theories share.
\<close>

unbundle bit_operations_syntax

named_theorems width_simps \<open>a truncation that does not truncate\<close>
named_theorems mem_simps \<open>reading back what was written to a block of memory\<close>

section \<open>Machine integers\<close>

text \<open>
  \<open>s32\<close> and \<open>s64\<close> read an integer modulo two to the width as a two's complement
  \<^verbatim>\<open>int\<close> or \<^verbatim>\<open>long\<close>/\<^verbatim>\<open>long long\<close>; \<open>u8\<close> to \<open>u64\<close> store a natural number in an
  unsigned field of that width (\<^verbatim>\<open>size_t\<close> and \<^verbatim>\<open>unsigned long\<close> are 64 bits wide).
\<close>

abbreviation s32 :: "int \<Rightarrow> int" where
  "s32 x \<equiv> signed_take_bit 31 x"

abbreviation s64 :: "int \<Rightarrow> int" where
  "s64 x \<equiv> signed_take_bit 63 x"

abbreviation u8 :: "nat \<Rightarrow> nat" where
  "u8 n \<equiv> take_bit 8 n"

abbreviation u16 :: "nat \<Rightarrow> nat" where
  "u16 n \<equiv> take_bit 16 n"

abbreviation u32 :: "nat \<Rightarrow> nat" where
  "u32 n \<equiv> take_bit 32 n"

abbreviation u64 :: "nat \<Rightarrow> nat" where
  "u64 n \<equiv> take_bit 64 n"

text \<open>An \<^verbatim>\<open>int\<close> or \<^verbatim>\<open>long\<close> stored in an unsigned 64-bit variable.\<close>

abbreviation to_size :: "int \<Rightarrow> nat" where
  "to_size x \<equiv> nat (take_bit 64 x)"

lemma s32_id [width_simps]: "- (2 ^ 31) \<le> x \<Longrightarrow> x < 2 ^ 31 \<Longrightarrow> s32 x = x"
  by (rule signed_take_bit_int_eq_self)

lemma s64_id [width_simps]: "- (2 ^ 63) \<le> x \<Longrightarrow> x < 2 ^ 63 \<Longrightarrow> s64 x = x"
  by (rule signed_take_bit_int_eq_self)

lemma s32_of_nat [width_simps]: "n < 2 ^ 31 \<Longrightarrow> s32 (int n) = int n"
  by (rule s32_id) (simp_all)

lemma s32_pred_of_nat [width_simps]: "n < 2 ^ 31 \<Longrightarrow> s32 (int n - 1) = int n - 1"
  by (rule s32_id) (simp_all)

lemma u8_id [width_simps]: "n < 2 ^ 8 \<Longrightarrow> u8 n = n"
  by (rule take_bit_nat_eq_self)

lemma u16_id [width_simps]: "n < 2 ^ 16 \<Longrightarrow> u16 n = n"
  by (rule take_bit_nat_eq_self)

lemma u32_id [width_simps]: "n < 2 ^ 32 \<Longrightarrow> u32 n = n"
  by (rule take_bit_nat_eq_self)

lemma u64_id [width_simps]: "n < 2 ^ 64 \<Longrightarrow> u64 n = n"
  by (rule take_bit_nat_eq_self)

lemma to_size_id [width_simps]: "0 \<le> x \<Longrightarrow> x < 2 ^ 64 \<Longrightarrow> to_size x = nat x"
  by (simp add: take_bit_int_eq_self)

lemma u64_less [simp]: "u64 n < 2 ^ 64"
  by (rule take_bit_nat_less_exp)

lemma to_size_s64: "to_size (a + s64 b) = to_size (a + b)"
proof -
  have "take_bit 64 (s64 b) = take_bit 64 b" by (rule take_bit_signed_take_bit) simp
  then show ?thesis by (metis take_bit_add)
qed

section \<open>Pointers, return codes, allocation\<close>

type_synonym ptr = nat

abbreviation (input) NULL :: ptr where
  "NULL \<equiv> 0"

definition REDIS_OK :: int where "REDIS_OK = 0"
definition REDIS_ERR :: int where "REDIS_ERR = - 1"

definition REDIS_ERR_IO :: int where "REDIS_ERR_IO = 1"
definition REDIS_ERR_OTHER :: int where "REDIS_ERR_OTHER = 2"
definition REDIS_ERR_EOF :: int where "REDIS_ERR_EOF = 3"
definition REDIS_ERR_PROTOCOL :: int where "REDIS_ERR_PROTOCOL = 4"
definition REDIS_ERR_OOM :: int where "REDIS_ERR_OOM = 5"

lemmas redis_codes =
  REDIS_OK_def REDIS_ERR_def REDIS_ERR_IO_def REDIS_ERR_OTHER_def REDIS_ERR_EOF_def
  REDIS_ERR_PROTOCOL_def REDIS_ERR_OOM_def

text \<open>
  The C allocator: which request sizes it serves, and the arbitrary byte it leaves at
  each offset of a fresh block. Every theorem holds for every allocator, so nothing
  depends on the contents of uninitialised memory.
\<close>

record allocator =
  serves :: "nat \<Rightarrow> bool"
  garbage :: "nat \<Rightarrow> char"

definition malloc :: "allocator \<Rightarrow> nat \<Rightarrow> char list option" where
  "malloc A n = (if serves A n then Some (map (garbage A) [0..<n]) else None)"

definition realloc :: "allocator \<Rightarrow> char list \<Rightarrow> nat \<Rightarrow> char list option" where
  "realloc A b n =
     (if serves A n then Some (take n b @ map (garbage A) [length b..<n]) else None)"

lemma length_malloc: "malloc A n = Some m \<Longrightarrow> length m = n"
  by (auto simp: malloc_def split: if_splits)

lemma length_realloc: "realloc A b n = Some m \<Longrightarrow> length m = n"
  by (auto simp: realloc_def split: if_splits)

lemma take_realloc: "realloc A b n = Some m \<Longrightarrow> k \<le> n \<Longrightarrow> k \<le> length b \<Longrightarrow> take k m = take k b"
  by (auto simp: realloc_def min_def split: if_splits)

lemma realloc_behind:
  assumes "realloc A (h @ b) (length h + n + 1) = Some m" "k < length b" "k \<le> n"
  shows "length (drop (length h) m) = n + 1"
    and "take (Suc k) (drop (length h) m) = take (Suc k) b"
proof -
  show "length (drop (length h) m) = n + 1" using length_realloc [OF assms(1)] by simp
  have "take (length h + Suc k) m = h @ take (Suc k) b"
    using take_realloc [OF assms(1), of "length h + Suc k"] assms(2,3) by simp
  then have "drop (length h) (take (length h + Suc k) m) = take (Suc k) b" by simp
  then show "take (Suc k) (drop (length h) m) = take (Suc k) b"
    by (simp add: drop_take)
qed

lemma take_Suc_eqD:
  assumes "take (Suc k) xs = take (Suc k) ys" "k < length ys"
  shows "take k xs = take k ys" "xs ! k = ys ! k"
proof -
  show "take k xs = take k ys"
    using arg_cong [OF assms(1), of "take k"] by (simp add: min_def)
  show "xs ! k = ys ! k"
    using arg_cong [OF assms(1), of "\<lambda>zs. zs ! k"] by simp
qed

text \<open>A concrete allocator, for evaluating the model: it refuses requests of a terabyte or more.\<close>

definition heap0 :: allocator where
  "heap0 = \<lparr>serves = (\<lambda>n. n < 2 ^ 40), garbage = (\<lambda>_. CHR ''z'')\<rparr>"

section \<open>Blocks of bytes\<close>

text \<open>
  \<^verbatim>\<open>memcpy(b + i, src, n)\<close> with \<open>src\<close> the \<open>n\<close> bytes copied. A write that runs past the
  end of the block makes the list longer, so a theorem that an operation keeps the
  length of its block says that it writes inside it.
\<close>

definition mem_write :: "nat \<Rightarrow> char list \<Rightarrow> char list \<Rightarrow> char list" where
  "mem_write i src b = take i b @ src @ drop (i + length src) b"

definition NUL :: char where
  "NUL = CHR 0x00"

abbreviation mem_set1 :: "nat \<Rightarrow> char \<Rightarrow> char list \<Rightarrow> char list" where
  "mem_set1 i c b \<equiv> mem_write i [c] b"

text \<open>\<^verbatim>\<open>strlen\<close>, and the C string that starts at a block's first byte.\<close>

definition cstring :: "char list \<Rightarrow> char list" where
  "cstring b = takeWhile (\<lambda>c. c \<noteq> NUL) b"

definition strlen :: "char list \<Rightarrow> nat" where
  "strlen b = length (cstring b)"

text \<open>The byte at an offset of a C string or block; past its end, the terminator.\<close>

definition byte_at :: "char list \<Rightarrow> nat \<Rightarrow> char" where
  "byte_at b i = (if i < length b then b ! i else NUL)"

lemma length_mem_write [mem_simps]:
  "i + length src \<le> length b \<Longrightarrow> length (mem_write i src b) = length b"
  by (simp add: mem_write_def)

lemma take_mem_write_le [mem_simps]:
  "k \<le> i \<Longrightarrow> i \<le> length b \<Longrightarrow> take k (mem_write i src b) = take k b"
  by (simp add: mem_write_def min_def)

lemma take_mem_write_end [mem_simps]:
  "i \<le> length b \<Longrightarrow> n = i + length src \<Longrightarrow> take n (mem_write i src b) = take i b @ src"
  by (simp add: mem_write_def)

lemma nth_mem_write_new [mem_simps]:
  "i \<le> length b \<Longrightarrow> mem_write i (c # src) b ! i = c"
  by (simp add: mem_write_def nth_append)

lemma nth_mem_write_before [mem_simps]:
  "k < i \<Longrightarrow> i \<le> length b \<Longrightarrow> mem_write i src b ! k = b ! k"
  by (simp add: mem_write_def nth_append)

lemma nth_mem_write_after [mem_simps]:
  "i + length src \<le> k \<Longrightarrow> k < length b \<Longrightarrow> mem_write i src b ! k = b ! k"
  by (auto simp: mem_write_def nth_append)

lemma mem_write_snoc:
  "i + length src < length b \<Longrightarrow>
    mem_write i (src @ [c]) b = mem_set1 (i + length src) c (mem_write i src b)"
  by (simp add: mem_write_def)

lemma cstring_no_NUL [simp]: "NUL \<notin> set (cstring b)"
  unfolding cstring_def by (metis (mono_tags) set_takeWhileD)

lemma cstring_append_NUL [simp]: "NUL \<notin> set s \<Longrightarrow> cstring (s @ NUL # b) = s"
  unfolding cstring_def by (induction s) auto

lemma strlen_le: "strlen b \<le> length b"
  by (simp add: strlen_def cstring_def length_takeWhile_le)

lemma cstring_take_strlen: "cstring b = take (strlen b) b"
  unfolding strlen_def cstring_def by (rule takeWhile_eq_take)

lemma rev_dropWhile_rev:
  "rev (dropWhile P (rev zs)) = take (length zs - length (takeWhile P (rev zs))) zs"
  by (simp add: dropWhile_eq_drop rev_drop)

lemma takeWhile_snoc_stop: "\<not> P y \<Longrightarrow> takeWhile P (ys @ [y]) = takeWhile P ys"
  by (induction ys) auto

section \<open>Characters\<close>

abbreviation chr_val :: "char \<Rightarrow> int" where
  "chr_val c \<equiv> of_char c"

definition isdigit :: "char \<Rightarrow> bool" where
  "isdigit c = (48 \<le> chr_val c \<and> chr_val c \<le> 57)"

definition isprint :: "char \<Rightarrow> bool" where
  "isprint c = (32 \<le> chr_val c \<and> chr_val c \<le> 126)"

definition isspace :: "char \<Rightarrow> bool" where
  "isspace c = (chr_val c = 32 \<or> (9 \<le> chr_val c \<and> chr_val c \<le> 13))"

definition tolower :: "char \<Rightarrow> char" where
  "tolower c = (if 65 \<le> chr_val c \<and> chr_val c \<le> 90 then char_of (chr_val c + 32) else c)"

definition toupper :: "char \<Rightarrow> char" where
  "toupper c = (if 97 \<le> chr_val c \<and> chr_val c \<le> 122 then char_of (chr_val c - 32) else c)"

definition CR :: char where "CR = CHR 0x0D"
definition LF :: char where "LF = CHR 0x0A"

abbreviation CRLF :: string where
  "CRLF \<equiv> [CR, LF]"

lemma CR_neq_LF [simp]: "CR \<noteq> LF" "LF \<noteq> CR"
  by (simp_all add: CR_def LF_def)

section \<open>Decimal numerals\<close>

text \<open>What \<^verbatim>\<open>printf\<close> writes for \<^verbatim>\<open>%zu\<close>, \<^verbatim>\<open>%u\<close> and \<^verbatim>\<open>%d\<close>.\<close>

definition digit_char :: "nat \<Rightarrow> char" where
  "digit_char d = char_of (48 + int d)"

fun decimal :: "nat \<Rightarrow> string" where
  "decimal n = (if n < 10 then [digit_char n] else decimal (n div 10) @ [digit_char (n mod 10)])"

declare decimal.simps [simp del]

definition decimal_int :: "int \<Rightarrow> string" where
  "decimal_int i = (if i < 0 then CHR ''-'' # decimal (nat (- i)) else decimal (nat i))"

lemma chr_val_digit [simp]: "d < 10 \<Longrightarrow> chr_val (digit_char d) = 48 + int d"
  by (simp add: digit_char_def take_bit_int_eq_self)

lemma decimal_nonempty [simp]: "decimal n \<noteq> []"
  by (subst decimal.simps) simp

lemma digit_neq [simp]:
  assumes "d < 10"
  shows "digit_char d \<noteq> CR" "digit_char d \<noteq> LF" "digit_char d \<noteq> CHR ''-''" "digit_char d \<noteq> CHR ''+''"
    "digit_char d \<noteq> NUL"
proof -
  have "chr_val (digit_char d) \<ge> 48" using assms by simp
  moreover have "chr_val CR < 48" "chr_val LF < 48" "chr_val (CHR ''-'') < 48"
    "chr_val (CHR ''+'') < 48" "chr_val NUL < 48"
    by (simp_all add: CR_def LF_def NUL_def)
  ultimately show "digit_char d \<noteq> CR" "digit_char d \<noteq> LF" "digit_char d \<noteq> CHR ''-''"
    "digit_char d \<noteq> CHR ''+''" "digit_char d \<noteq> NUL" by force+
qed

lemma set_decimal: "c \<in> set (decimal n) \<Longrightarrow> \<exists>d < 10. c = digit_char d"
proof (induction n rule: decimal.induct)
  case (1 n)
  have "\<exists>d < 10. digit_char (n mod 10) = digit_char d" by (rule exI [of _ "n mod 10"]) simp
  then show ?case using 1 by (subst (asm) (2) decimal.simps) (auto split: if_splits)
qed

lemma not_in_decimal [simp]:
  "CR \<notin> set (decimal n)" "LF \<notin> set (decimal n)" "NUL \<notin> set (decimal n)"
  "CHR ''-'' \<notin> set (decimal n)" "CHR ''+'' \<notin> set (decimal n)"
  by (auto dest!: set_decimal intro: digit_neq dest: digit_neq [THEN notE] sym)

end
