(* ===== verification/Sds.thy ===== *)
theory Sds
  imports Prelude
begin

text \<open>
  The dynamic strings of sds.h and sds.c. An \<open>sds\<close> is what the code reaches from the
  pointer \<^verbatim>\<open>s\<close>: the flags byte \<^verbatim>\<open>s[-1]\<close>, the \<^verbatim>\<open>len\<close> and \<^verbatim>\<open>alloc\<close> fields of the
  header before it (absent for type 5, which keeps its length in the flags), and the
  allocated bytes from \<^verbatim>\<open>s\<close> on. The operations are the source's, header types and field
  widths included; \<open>sds_ok\<close> is the well-formedness every operation keeps and
  \<open>sdsstr\<close> the byte string an sds stands for. The lemmas refine each operation to
  the list operation it means, and a write outside the allocated block would break
  \<open>sds_ok\<close>, which fixes the block's length.
\<close>

section \<open>Header access (sds.h)\<close>

record sds =
  flags :: "8 word"
  hlen :: nat
  halloc :: nat
  buf :: "char list"

definition SDS_TYPE_5 :: "8 word" where "SDS_TYPE_5 = 0"
definition SDS_TYPE_8 :: "8 word" where "SDS_TYPE_8 = 1"
definition SDS_TYPE_16 :: "8 word" where "SDS_TYPE_16 = 2"
definition SDS_TYPE_32 :: "8 word" where "SDS_TYPE_32 = 3"
definition SDS_TYPE_64 :: "8 word" where "SDS_TYPE_64 = 4"
definition SDS_TYPE_MASK :: "8 word" where "SDS_TYPE_MASK = 7"
definition SDS_TYPE_BITS :: nat where "SDS_TYPE_BITS = 3"

definition SDS_MAX_PREALLOC :: nat where "SDS_MAX_PREALLOC = 1024 * 1024"

lemmas sds_consts =
  SDS_TYPE_5_def SDS_TYPE_8_def SDS_TYPE_16_def SDS_TYPE_32_def SDS_TYPE_64_def
  SDS_TYPE_MASK_def SDS_TYPE_BITS_def

abbreviation sds_type :: "sds \<Rightarrow> 8 word" where
  "sds_type s \<equiv> flags s AND SDS_TYPE_MASK"

definition SDS_TYPE_5_LEN :: "8 word \<Rightarrow> nat" where
  "SDS_TYPE_5_LEN f = unat (drop_bit SDS_TYPE_BITS f)"

definition sdslen :: "sds \<Rightarrow> nat" where
  "sdslen s =
     (if sds_type s = SDS_TYPE_5 then SDS_TYPE_5_LEN (flags s)
      else if sds_type s = SDS_TYPE_8 then hlen s
      else if sds_type s = SDS_TYPE_16 then hlen s
      else if sds_type s = SDS_TYPE_32 then hlen s
      else if sds_type s = SDS_TYPE_64 then hlen s
      else 0)"

text \<open>
  The difference of two 8- or 16-bit fields is an \<^verbatim>\<open>int\<close> returned as a \<^verbatim>\<open>size_t\<close>; that of
  two 32-bit fields is taken modulo two to the 32, that of 64-bit fields modulo
  two to the 64.
\<close>

definition sdsavail :: "sds \<Rightarrow> nat" where
  "sdsavail s =
     (if sds_type s = SDS_TYPE_5 then 0
      else if sds_type s = SDS_TYPE_8 then to_size (int (halloc s) - int (hlen s))
      else if sds_type s = SDS_TYPE_16 then to_size (int (halloc s) - int (hlen s))
      else if sds_type s = SDS_TYPE_32 then nat (take_bit 32 (int (halloc s) - int (hlen s)))
      else if sds_type s = SDS_TYPE_64 then to_size (int (halloc s) - int (hlen s))
      else 0)"

definition sdssetlen :: "sds \<Rightarrow> nat \<Rightarrow> sds" where
  "sdssetlen s newlen =
     (if sds_type s = SDS_TYPE_5
      then s\<lparr>flags := SDS_TYPE_5 OR push_bit SDS_TYPE_BITS (word_of_nat newlen)\<rparr>
      else if sds_type s = SDS_TYPE_8 then s\<lparr>hlen := u8 newlen\<rparr>
      else if sds_type s = SDS_TYPE_16 then s\<lparr>hlen := u16 newlen\<rparr>
      else if sds_type s = SDS_TYPE_32 then s\<lparr>hlen := u32 newlen\<rparr>
      else if sds_type s = SDS_TYPE_64 then s\<lparr>hlen := u64 newlen\<rparr>
      else s)"

definition sdsinclen :: "sds \<Rightarrow> nat \<Rightarrow> sds" where
  "sdsinclen s inc =
     (if sds_type s = SDS_TYPE_5
      then s\<lparr>flags := SDS_TYPE_5 OR
               push_bit SDS_TYPE_BITS (word_of_nat (SDS_TYPE_5_LEN (flags s) + inc))\<rparr>
      else if sds_type s = SDS_TYPE_8 then s\<lparr>hlen := u8 (hlen s + inc)\<rparr>
      else if sds_type s = SDS_TYPE_16 then s\<lparr>hlen := u16 (hlen s + inc)\<rparr>
      else if sds_type s = SDS_TYPE_32 then s\<lparr>hlen := u32 (hlen s + inc)\<rparr>
      else if sds_type s = SDS_TYPE_64 then s\<lparr>hlen := u64 (hlen s + inc)\<rparr>
      else s)"

definition sdsalloc :: "sds \<Rightarrow> nat" where
  "sdsalloc s =
     (if sds_type s = SDS_TYPE_5 then SDS_TYPE_5_LEN (flags s)
      else if sds_type s = SDS_TYPE_8 then halloc s
      else if sds_type s = SDS_TYPE_16 then halloc s
      else if sds_type s = SDS_TYPE_32 then halloc s
      else if sds_type s = SDS_TYPE_64 then halloc s
      else 0)"

definition sdssetalloc :: "sds \<Rightarrow> nat \<Rightarrow> sds" where
  "sdssetalloc s newlen =
     (if sds_type s = SDS_TYPE_5 then s
      else if sds_type s = SDS_TYPE_8 then s\<lparr>halloc := u8 newlen\<rparr>
      else if sds_type s = SDS_TYPE_16 then s\<lparr>halloc := u16 newlen\<rparr>
      else if sds_type s = SDS_TYPE_32 then s\<lparr>halloc := u32 newlen\<rparr>
      else if sds_type s = SDS_TYPE_64 then s\<lparr>halloc := u64 newlen\<rparr>
      else s)"

section \<open>Creation and growth (sds.c)\<close>

definition sdsHdrSize :: "8 word \<Rightarrow> nat" where
  "sdsHdrSize t =
     (if t AND SDS_TYPE_MASK = SDS_TYPE_5 then 1
      else if t AND SDS_TYPE_MASK = SDS_TYPE_8 then 3
      else if t AND SDS_TYPE_MASK = SDS_TYPE_16 then 5
      else if t AND SDS_TYPE_MASK = SDS_TYPE_32 then 9
      else if t AND SDS_TYPE_MASK = SDS_TYPE_64 then 17
      else 0)"

definition sdsReqType :: "nat \<Rightarrow> 8 word" where
  "sdsReqType string_size =
     (if string_size < 32 then SDS_TYPE_5
      else if string_size < 0xff then SDS_TYPE_8
      else if string_size < 0xffff then SDS_TYPE_16
      else if string_size < 0xffffffff then SDS_TYPE_32
      else SDS_TYPE_64)"

text \<open>
  The header a fresh allocation gets: type 5 packs the length into the flags, the others
  set \<^verbatim>\<open>len\<close> and \<^verbatim>\<open>alloc\<close> at their width. The block is the allocation without the header.
\<close>

definition sds_init_header :: "8 word \<Rightarrow> nat \<Rightarrow> char list \<Rightarrow> sds" where
  "sds_init_header t n block =
     (if t = SDS_TYPE_5
      then \<lparr>flags = t OR push_bit SDS_TYPE_BITS (word_of_nat n), hlen = 0, halloc = 0,
             buf = block\<rparr>
      else sdssetalloc (sdssetlen \<lparr>flags = t, hlen = 0, halloc = 0, buf = block\<rparr> n) n)"

text \<open>\<open>init\<close> is None for NULL; otherwise the memory it points to.\<close>

definition sdsnewlen :: "allocator \<Rightarrow> char list option \<Rightarrow> nat \<Rightarrow> sds option" where
  "sdsnewlen A init initlen =
     (let type0 = sdsReqType initlen;
          type = (if type0 = SDS_TYPE_5 \<and> initlen = 0 then SDS_TYPE_8 else type0);
          hdrlen = sdsHdrSize type
      in case malloc A (u64 (hdrlen + initlen + 1)) of
           None \<Rightarrow> None
         | Some sh \<Rightarrow>
             (let sh = (if init = None then replicate (length sh) NUL else sh);
                  s = sds_init_header type initlen (drop hdrlen sh);
                  s = (case init of
                         Some src \<Rightarrow>
                           if initlen \<noteq> 0 then s\<lparr>buf := mem_write 0 (take initlen src) (buf s)\<rparr>
                           else s
                       | None \<Rightarrow> s)
              in Some (s\<lparr>buf := mem_set1 initlen NUL (buf s)\<rparr>)))"

definition sdsempty :: "allocator \<Rightarrow> sds option" where
  "sdsempty A = sdsnewlen A (Some [NUL]) 0"

definition sdsnew :: "allocator \<Rightarrow> char list option \<Rightarrow> sds option" where
  "sdsnew A init =
     sdsnewlen A init (case init of None \<Rightarrow> 0 | Some m \<Rightarrow> strlen m)"

definition sdsdup :: "allocator \<Rightarrow> sds \<Rightarrow> sds option" where
  "sdsdup A s = sdsnewlen A (Some (buf s)) (sdslen s)"

definition sdsupdatelen :: "sds \<Rightarrow> sds" where
  "sdsupdatelen s =
     (let reallen = s32 (int (strlen (buf s)))
      in sdssetlen s (to_size reallen))"

definition sdsclear :: "sds \<Rightarrow> sds" where
  "sdsclear s = (let s = sdssetlen s 0 in s\<lparr>buf := mem_set1 0 NUL (buf s)\<rparr>)"

definition sdsMakeRoomFor :: "allocator \<Rightarrow> sds \<Rightarrow> nat \<Rightarrow> sds option" where
  "sdsMakeRoomFor A s addlen =
     (let avail = sdsavail s; oldtype = sds_type s
      in if avail \<ge> addlen then Some s
         else
           (let len = sdslen s;
                newlen0 = u64 (len + addlen);
                newlen = (if newlen0 < SDS_MAX_PREALLOC then u64 (newlen0 * 2)
                          else u64 (newlen0 + SDS_MAX_PREALLOC));
                type0 = sdsReqType newlen;
                type = (if type0 = SDS_TYPE_5 then SDS_TYPE_8 else type0);
                hdrlen = sdsHdrSize type
            in if oldtype = type
               then (case realloc A (replicate hdrlen NUL @ buf s) (u64 (hdrlen + newlen + 1)) of
                       None \<Rightarrow> None
                     | Some newsh \<Rightarrow>
                         Some (sdssetalloc (s\<lparr>buf := drop hdrlen newsh\<rparr>) newlen))
               else (case malloc A (u64 (hdrlen + newlen + 1)) of
                       None \<Rightarrow> None
                     | Some newsh \<Rightarrow>
                         (let s' = \<lparr>flags = type, hlen = 0, halloc = 0,
                                    buf = mem_write 0 (take (len + 1) (buf s)) (drop hdrlen newsh)\<rparr>;
                              s' = sdssetlen s' len
                          in Some (sdssetalloc s' newlen)))))"

definition sdsRemoveFreeSpace :: "allocator \<Rightarrow> sds \<Rightarrow> sds option" where
  "sdsRemoveFreeSpace A s =
     (let oldtype = sds_type s; len = sdslen s; type = sdsReqType len;
          hdrlen = sdsHdrSize type
      in if oldtype = type
         then (case realloc A (replicate hdrlen NUL @ buf s) (u64 (hdrlen + len + 1)) of
                 None \<Rightarrow> None
               | Some newsh \<Rightarrow> Some (sdssetalloc (s\<lparr>buf := drop hdrlen newsh\<rparr>) len))
         else (case malloc A (u64 (hdrlen + len + 1)) of
                 None \<Rightarrow> None
               | Some newsh \<Rightarrow>
                   (let s' = \<lparr>flags = type, hlen = 0, halloc = 0,
                              buf = mem_write 0 (take (len + 1) (buf s)) (drop hdrlen newsh)\<rparr>;
                        s' = sdssetlen s' len
                    in Some (sdssetalloc s' len))))"

definition sdsAllocSize :: "sds \<Rightarrow> nat" where
  "sdsAllocSize s = u64 (sdsHdrSize (flags s) + sdsalloc s + 1)"

definition sdsgrowzero :: "allocator \<Rightarrow> sds \<Rightarrow> nat \<Rightarrow> sds option" where
  "sdsgrowzero A s len =
     (let curlen = sdslen s
      in if len \<le> curlen then Some s
         else case sdsMakeRoomFor A s (len - curlen) of
                None \<Rightarrow> None
              | Some s \<Rightarrow>
                  Some (sdssetlen
                    (s\<lparr>buf := mem_write curlen (replicate (len - curlen + 1) NUL) (buf s)\<rparr>) len))"

definition sdscatlen :: "allocator \<Rightarrow> sds \<Rightarrow> char list \<Rightarrow> nat \<Rightarrow> sds option" where
  "sdscatlen A s t len =
     (let curlen = sdslen s
      in case sdsMakeRoomFor A s len of
           None \<Rightarrow> None
         | Some s \<Rightarrow>
             (let s = s\<lparr>buf := mem_write curlen (take len t) (buf s)\<rparr>;
                  s = sdssetlen s (u64 (curlen + len))
              in Some (s\<lparr>buf := mem_set1 (u64 (curlen + len)) NUL (buf s)\<rparr>)))"

definition sdscat :: "allocator \<Rightarrow> sds \<Rightarrow> char list \<Rightarrow> sds option" where
  "sdscat A s t = sdscatlen A s t (strlen t)"

definition sdscatsds :: "allocator \<Rightarrow> sds \<Rightarrow> sds \<Rightarrow> sds option" where
  "sdscatsds A s t = sdscatlen A s (buf t) (sdslen t)"

definition sdscpylen :: "allocator \<Rightarrow> sds \<Rightarrow> char list \<Rightarrow> nat \<Rightarrow> sds option" where
  "sdscpylen A s t len =
     (case (if sdsalloc s < len then sdsMakeRoomFor A s (len - sdslen s) else Some s) of
        None \<Rightarrow> None
      | Some s \<Rightarrow>
          (let s = s\<lparr>buf := mem_write 0 (take len t) (buf s)\<rparr>;
               s = s\<lparr>buf := mem_set1 len NUL (buf s)\<rparr>
           in Some (sdssetlen s len)))"

definition sdscpy :: "allocator \<Rightarrow> sds \<Rightarrow> char list \<Rightarrow> sds option" where
  "sdscpy A s t = sdscpylen A s t (strlen t)"

section \<open>Cutting, comparing, case\<close>

text \<open>
  \<^verbatim>\<open>sdsIncrLen\<close> fails its assertion (None) when the increment does not fit; the type 5
  branch refuses an increment of zero.
\<close>

definition sdsIncrLen :: "sds \<Rightarrow> int \<Rightarrow> sds option" where
  "sdsIncrLen s incr =
     (let set = (\<lambda>w. let n = take_bit w (nat (int (hlen s) + incr))
                     in Some (s\<lparr>hlen := n, buf := mem_set1 n NUL (buf s)\<rparr>));
          fits = ((incr \<ge> 0 \<and> int (halloc s) - int (hlen s) \<ge> incr) \<or>
                  (incr < 0 \<and> int (hlen s) \<ge> - incr))
      in if sds_type s = SDS_TYPE_5
         then (let oldlen = int (SDS_TYPE_5_LEN (flags s)) in
               if (incr > 0 \<and> oldlen + incr < 32) \<or> (incr < 0 \<and> oldlen \<ge> - incr)
               then (let n = nat (oldlen + incr)
                     in Some (s\<lparr>flags := SDS_TYPE_5 OR push_bit SDS_TYPE_BITS (word_of_nat n),
                                buf := mem_set1 n NUL (buf s)\<rparr>))
               else None)
         else if sds_type s = SDS_TYPE_8 then (if fits then set 8 else None)
         else if sds_type s = SDS_TYPE_16 then (if fits then set 16 else None)
         else if sds_type s = SDS_TYPE_32 then (if fits then set 32 else None)
         else if sds_type s = SDS_TYPE_64 then (if fits then set 64 else None)
         else Some (s\<lparr>buf := mem_set1 0 NUL (buf s)\<rparr>))"

text \<open>\<^verbatim>\<open>strchr(cset, c) != NULL\<close>: the terminator of \<open>cset\<close> counts as found.\<close>

definition strchr_found :: "char list \<Rightarrow> char \<Rightarrow> bool" where
  "strchr_found cset c = (c \<in> set (cstring cset) \<or> c = NUL)"

text \<open>The two scans of \<^verbatim>\<open>sdstrim\<close>; positions are offsets from \<^verbatim>\<open>s\<close>, \<open>end\<close> may be -1.\<close>

function trim_left :: "char list \<Rightarrow> char list \<Rightarrow> int \<Rightarrow> int \<Rightarrow> int" where
  "trim_left cset b end sp =
     (if sp \<le> end \<and> strchr_found cset (b ! nat sp) then trim_left cset b end (sp + 1) else sp)"
  by pat_completeness auto
termination
  by (relation "measure (\<lambda>(cset, b, end, sp). nat (end + 1 - sp))") auto

function trim_right :: "char list \<Rightarrow> char list \<Rightarrow> int \<Rightarrow> int \<Rightarrow> int" where
  "trim_right cset b sp ep =
     (if ep > sp \<and> strchr_found cset (b ! nat ep) then trim_right cset b sp (ep - 1) else ep)"
  by pat_completeness auto
termination
  by (relation "measure (\<lambda>(cset, b, sp, ep). nat (ep - sp))") auto

declare trim_left.simps [simp del] trim_right.simps [simp del]

definition sdstrim :: "sds \<Rightarrow> char list \<Rightarrow> sds" where
  "sdstrim s cset =
     (let end = int (sdslen s) - 1;
          sp = trim_left cset (buf s) end 0;
          ep = trim_right cset (buf s) sp end;
          len = (if sp > ep then 0 else nat (ep - sp + 1));
          s = (if sp \<noteq> 0 then s\<lparr>buf := mem_write 0 (take len (drop (nat sp) (buf s))) (buf s)\<rparr> else s);
          s = s\<lparr>buf := mem_set1 len NUL (buf s)\<rparr>
      in sdssetlen s len)"

text \<open>
  The index arithmetic of \<^verbatim>\<open>sdsrange\<close>, on \<^verbatim>\<open>int\<close> variables: a negative index counts from the
  end; \<^verbatim>\<open>newlen\<close> is a \<^verbatim>\<open>size_t\<close>; \<open>range_clip\<close> gives the final start and length.
\<close>

definition range_index :: "nat \<Rightarrow> int \<Rightarrow> int" where
  "range_index len i =
     (if i < 0 then (let i' = s32 (int len + i) in if i' < 0 then 0 else i') else i)"

definition range_newlen :: "int \<Rightarrow> int \<Rightarrow> nat" where
  "range_newlen start end = to_size (if start > end then 0 else s32 (end - start + 1))"

definition range_clip :: "nat \<Rightarrow> int \<Rightarrow> int \<Rightarrow> int \<times> nat" where
  "range_clip len start end =
     (let newlen = range_newlen start end in
      if newlen \<noteq> 0
      then (if start \<ge> s32 (int len) then (start, 0)
            else if end \<ge> s32 (int len) then (start, range_newlen start (s32 (int len - 1)))
            else (start, newlen))
      else (0, newlen))"

definition sdsrange :: "sds \<Rightarrow> int \<Rightarrow> int \<Rightarrow> sds" where
  "sdsrange s start end =
     (let len = sdslen s in
      if len = 0 then s
      else
        (let (start, newlen) = range_clip len (range_index len start) (range_index len end);
             s = (if start \<noteq> 0 \<and> newlen \<noteq> 0
                  then s\<lparr>buf := mem_write 0 (take newlen (drop (nat start) (buf s))) (buf s)\<rparr>
                  else s);
             s = s\<lparr>buf := mem_set1 newlen NUL (buf s)\<rparr>
         in sdssetlen s newlen))"

definition sdstolower :: "sds \<Rightarrow> sds" where
  "sdstolower s =
     (let len = s32 (int (sdslen s))
      in s\<lparr>buf := map tolower (take (nat len) (buf s)) @ drop (nat len) (buf s)\<rparr>)"

definition sdstoupper :: "sds \<Rightarrow> sds" where
  "sdstoupper s =
     (let len = s32 (int (sdslen s))
      in s\<lparr>buf := map toupper (take (nat len) (buf s)) @ drop (nat len) (buf s)\<rparr>)"

text \<open>\<^verbatim>\<open>memcmp\<close> over the first \<open>n\<close> bytes: the difference of the first bytes that differ.\<close>

fun memcmp :: "char list \<Rightarrow> char list \<Rightarrow> nat \<Rightarrow> int" where
  "memcmp (x # xs) (y # ys) (Suc n) =
     (if x = y then memcmp xs ys n else chr_val x - chr_val y)"
| "memcmp _ _ _ = 0"

definition sdscmp :: "sds \<Rightarrow> sds \<Rightarrow> int" where
  "sdscmp s1 s2 =
     (let l1 = sdslen s1; l2 = sdslen s2;
          minlen = (if l1 < l2 then l1 else l2);
          cmp = memcmp (buf s1) (buf s2) minlen
      in if cmp = 0 then s32 (int l1 - int l2) else cmp)"

section \<open>Well-formedness and meaning\<close>

definition sds_width :: "8 word \<Rightarrow> nat" where
  "sds_width t =
     (if t = SDS_TYPE_5 then 5 else if t = SDS_TYPE_8 then 8 else if t = SDS_TYPE_16 then 16
      else if t = SDS_TYPE_32 then 32 else if t = SDS_TYPE_64 then 64 else 0)"

definition sds_types :: "8 word set" where
  "sds_types = {SDS_TYPE_5, SDS_TYPE_8, SDS_TYPE_16, SDS_TYPE_32, SDS_TYPE_64}"

definition sds_ok :: "sds \<Rightarrow> bool" where
  "sds_ok s \<longleftrightarrow>
     sds_type s \<in> sds_types \<and> sdslen s \<le> sdsalloc s \<and>
     sdsalloc s < 2 ^ sds_width (sds_type s) \<and>
     sdsalloc s < length (buf s) \<and>
     (sds_type s \<noteq> SDS_TYPE_5 \<longrightarrow> length (buf s) = sdsalloc s + 1) \<and>
     buf s ! sdslen s = NUL"

text \<open>Without the terminator: what the header and the block of a string being written satisfy.\<close>

definition sds_fit :: "sds \<Rightarrow> bool" where
  "sds_fit s \<longleftrightarrow>
     sds_type s \<in> sds_types \<and> sdslen s \<le> sdsalloc s \<and>
     sdsalloc s < 2 ^ sds_width (sds_type s) \<and>
     sdsalloc s < length (buf s) \<and>
     (sds_type s \<noteq> SDS_TYPE_5 \<longrightarrow> length (buf s) = sdsalloc s + 1)"

lemma sds_ok_fit: "sds_ok s \<longleftrightarrow> sds_fit s \<and> buf s ! sdslen s = NUL"
  by (auto simp: sds_ok_def sds_fit_def)

text \<open>
  A type 5 header does not record the capacity of its block, so a type 5 string that was
  cut in place owns more bytes than \<^verbatim>\<open>sdsalloc\<close> says; for the other types the block is
  exactly the recorded capacity and the terminator.
\<close>

definition sdsstr :: "sds \<Rightarrow> char list" where
  "sdsstr s = take (sdslen s) (buf s)"

text \<open>Type 5 packs a length below 32 into the five upper bits of the flags.\<close>

lemma and_type_mask: "w AND SDS_TYPE_MASK = take_bit 3 w"
  by (simp add: sds_consts take_bit_eq_mask mask_eq_exp_minus_1)

lemma type5_type [simp]: "(SDS_TYPE_5 OR push_bit SDS_TYPE_BITS w) AND SDS_TYPE_MASK = SDS_TYPE_5"
  unfolding and_type_mask by (simp add: sds_consts take_bit_push_bit)

lemma type5_len [simp]:
  assumes "n < 32"
  shows "SDS_TYPE_5_LEN (SDS_TYPE_5 OR push_bit SDS_TYPE_BITS (word_of_nat n)) = n"
proof -
  have "unat (push_bit 3 (word_of_nat n :: 8 word)) = n * 8"
    using assms by (simp add: unat_of_nat push_bit_eq_mult unat_word_ariths)
  then show ?thesis
    by (simp add: SDS_TYPE_5_LEN_def sds_consts unat_drop_bit_eq drop_bit_nat_def)
qed

lemma type_simps [simp]:
  "SDS_TYPE_8 AND SDS_TYPE_MASK = SDS_TYPE_8" "SDS_TYPE_16 AND SDS_TYPE_MASK = SDS_TYPE_16"
  "SDS_TYPE_32 AND SDS_TYPE_MASK = SDS_TYPE_32" "SDS_TYPE_64 AND SDS_TYPE_MASK = SDS_TYPE_64"
  "SDS_TYPE_5 AND SDS_TYPE_MASK = SDS_TYPE_5"
  by (simp_all add: sds_consts)

lemma type_neqs [simp]:
  "SDS_TYPE_8 \<noteq> SDS_TYPE_5" "SDS_TYPE_16 \<noteq> SDS_TYPE_5" "SDS_TYPE_32 \<noteq> SDS_TYPE_5"
  "SDS_TYPE_64 \<noteq> SDS_TYPE_5" "SDS_TYPE_16 \<noteq> SDS_TYPE_8" "SDS_TYPE_32 \<noteq> SDS_TYPE_8"
  "SDS_TYPE_64 \<noteq> SDS_TYPE_8" "SDS_TYPE_32 \<noteq> SDS_TYPE_16" "SDS_TYPE_64 \<noteq> SDS_TYPE_16"
  "SDS_TYPE_64 \<noteq> SDS_TYPE_32"
  "SDS_TYPE_5 \<noteq> SDS_TYPE_8" "SDS_TYPE_5 \<noteq> SDS_TYPE_16" "SDS_TYPE_5 \<noteq> SDS_TYPE_32"
  "SDS_TYPE_5 \<noteq> SDS_TYPE_64"
  by (simp_all add: sds_consts)

lemma SDS_TYPE_5_LEN_less: "SDS_TYPE_5_LEN f < 32"
proof -
  have "unat f < 256" using unsigned_less [of f] by simp
  then show ?thesis
    by (simp add: SDS_TYPE_5_LEN_def sds_consts unat_drop_bit_eq drop_bit_nat_def)
qed

lemma sds_typesE:
  assumes "t \<in> sds_types"
  obtains "t = SDS_TYPE_5" | "t = SDS_TYPE_8" | "t = SDS_TYPE_16" | "t = SDS_TYPE_32"
    | "t = SDS_TYPE_64"
  using assms by (auto simp: sds_types_def)

text \<open>What the header accessors do, given that the value fits the header's width.\<close>

lemma buf_setlen [simp]: "buf (sdssetlen s n) = buf s" "buf (sdssetalloc s n) = buf s"
  by (simp_all add: sdssetlen_def sdssetalloc_def)

lemma type_setlen [simp]: "sds_type (sdssetlen s n) = sds_type s"
  "sds_type (sdssetalloc s n) = sds_type s"
  by (simp_all add: sdssetlen_def sdssetalloc_def)

lemma type_buf [simp]: "sdslen (s\<lparr>buf := b\<rparr>) = sdslen s" "sdsalloc (s\<lparr>buf := b\<rparr>) = sdsalloc s"
  "sdssetlen (s\<lparr>buf := b\<rparr>) n = (sdssetlen s n)\<lparr>buf := b\<rparr>"
  "sdsavail (s\<lparr>buf := b\<rparr>) = sdsavail s"
  by (simp_all add: sdslen_def sdsalloc_def sdssetlen_def sdsavail_def)

lemma sdslen_setlen:
  assumes "sds_type s \<in> sds_types" "n < 2 ^ sds_width (sds_type s)"
  shows "sdslen (sdssetlen s n) = n"
  using assms by (cases rule: sds_typesE [OF assms(1)])
    (simp_all add: sdslen_def sdssetlen_def sds_width_def width_simps)

lemma sdsalloc_setlen:
  assumes "sds_type s \<in> sds_types" "sds_type s \<noteq> SDS_TYPE_5"
  shows "sdsalloc (sdssetlen s n) = sdsalloc s"
  using assms by (cases rule: sds_typesE [OF assms(1)]) (simp_all add: sdsalloc_def sdssetlen_def)

lemma sdsalloc_type5: "sds_type s = SDS_TYPE_5 \<Longrightarrow> sdsalloc s = sdslen s"
  by (simp add: sdsalloc_def sdslen_def)

lemma sdsalloc_setalloc:
  assumes "sds_type s \<in> sds_types" "sds_type s \<noteq> SDS_TYPE_5" "n < 2 ^ sds_width (sds_type s)"
  shows "sdsalloc (sdssetalloc s n) = n"
  using assms by (cases rule: sds_typesE [OF assms(1)])
    (simp_all add: sdsalloc_def sdssetalloc_def sds_width_def width_simps)

lemma sdslen_setalloc [simp]: "sdslen (sdssetalloc s n) = sdslen s"
  by (simp add: sdslen_def sdssetalloc_def)

lemma sdsavail_eq:
  assumes "sds_ok s"
  shows "sdsavail s = (if sds_type s = SDS_TYPE_5 then 0 else sdsalloc s - sdslen s)"
  using assms unfolding sds_ok_def
  by (elim conjE sds_typesE)
    (simp_all add: sdsavail_def sdsalloc_def sdslen_def sds_width_def take_bit_int_eq_self nat_diff_distrib)

lemma sdsReqType_types: "sdsReqType n \<in> sds_types"
  by (simp add: sdsReqType_def sds_types_def)

lemma sdsReqType_fits: "n < 2 ^ 64 \<Longrightarrow> n < 2 ^ sds_width (sdsReqType n)"
  by (simp add: sdsReqType_def sds_width_def)

lemma sds_ok_type5_alloc: "sds_type s = SDS_TYPE_5 \<Longrightarrow> sdslen s < 32"
  by (simp add: sdslen_def SDS_TYPE_5_LEN_less)

text \<open>
  A header of one of the types 8 to 64 over a block: the shape \<^verbatim>\<open>sdsnewlen\<close>,
  \<^verbatim>\<open>sdsMakeRoomFor\<close> and \<^verbatim>\<open>sdsRemoveFreeSpace\<close> build.
\<close>

lemma sds_block_fit:
  fixes h a :: nat
  assumes "t \<in> sds_types" "t \<noteq> SDS_TYPE_5" "len \<le> n" "n < 2 ^ sds_width t" "length b = n + 1"
  defines "s \<equiv> sdssetalloc (sdssetlen \<lparr>flags = t, hlen = h, halloc = a, buf = b\<rparr> len) n"
  shows "sds_fit s" "sdslen s = len" "sdsalloc s = n" "buf s = b" "sds_type s = t"
proof -
  have t: "t AND SDS_TYPE_MASK = t" using assms(1) by (auto simp: sds_types_def)
  let ?s0 = "\<lparr>flags = t, hlen = h, halloc = a, buf = b\<rparr>"
  have s0: "sds_type ?s0 = t" using t by simp
  show len: "sdslen s = len" using assms s0 by (simp add: s_def sdslen_setlen)
  show alloc: "sdsalloc s = n" using assms s0 by (simp add: s_def sdsalloc_setalloc)
  show b: "buf s = b" and ty: "sds_type s = t" using s0 by (simp_all add: s_def)
  show "sds_fit s" unfolding sds_fit_def len alloc b ty using assms by simp
qed

lemma sds_block:
  fixes h a :: nat
  assumes "t \<in> sds_types" "t \<noteq> SDS_TYPE_5" "len \<le> n" "n < 2 ^ sds_width t"
    and "length b = n + 1" "b ! len = NUL"
  defines "s \<equiv> sdssetalloc (sdssetlen \<lparr>flags = t, hlen = h, halloc = a, buf = b\<rparr> len) n"
  shows "sds_ok s" "sdslen s = len" "sdsalloc s = n" "buf s = b" "sds_type s = t"
  unfolding s_def using sds_block_fit [OF assms(1-5)] assms(6) by (simp_all add: sds_ok_fit)

lemma sds_block5:
  fixes h a :: nat
  assumes "n < 32" "length b = n + 1" "b ! n = NUL"
  defines "s \<equiv> \<lparr>flags = SDS_TYPE_5 OR push_bit SDS_TYPE_BITS (word_of_nat n),
                hlen = h, halloc = a, buf = b\<rparr>"
  shows "sds_ok s" "sdslen s = n" "sdsalloc s = n" "buf s = b"
  using assms by (simp_all add: sds_ok_def sdslen_def sdsalloc_def sds_types_def sds_width_def)

lemma sds_okD:
  assumes "sds_ok s"
  shows "sdslen s \<le> sdsalloc s" "sdsalloc s < length (buf s)" "buf s ! sdslen s = NUL"
    "sds_type s \<in> sds_types" "sdsalloc s < 2 ^ sds_width (sds_type s)"
  using assms by (auto simp: sds_ok_def)

lemma length_sdsstr [simp]: "sds_ok s \<Longrightarrow> length (sdsstr s) = sdslen s"
  by (simp add: sdsstr_def sds_ok_def)

lemma sds_width_le: "2 ^ sds_width t \<le> (2 ^ 64 :: nat)"
  by (rule power_increasing) (simp_all add: sds_width_def)

lemma sdsalloc_less: "sds_ok s \<Longrightarrow> sdsalloc s < 2 ^ 64"
  using sds_okD(5) [of s] sds_width_le [of "sds_type s"] by linarith

lemma sdsHdrSize_le: "sdsHdrSize t \<le> 17"
  by (simp add: sdsHdrSize_def)

lemma sdsnewlen_NULL: "(sdsnewlen A init n = None) \<longleftrightarrow>
    \<not> serves A (u64 (sdsHdrSize (if n = 0 then SDS_TYPE_8 else sdsReqType n) + n + 1))"
  by (auto simp: sdsnewlen_def Let_def malloc_def sdsReqType_def)

lemma take_append_NUL: "k < length m \<Longrightarrow> m ! k = NUL \<Longrightarrow> take (Suc k) m = take k m @ [NUL]"
  by (simp add: take_Suc_conv_app_nth)

lemma sds_init_header_ok:
  fixes block :: "char list"
  assumes "t \<in> sds_types" "n < 2 ^ sds_width t" "length b = n + 1" "b ! n = NUL"
  defines "s \<equiv> (sds_init_header t n block)\<lparr>buf := b\<rparr>"
  shows "sds_ok s \<and> sdslen s = n \<and> buf s = b"
proof (cases "t = SDS_TYPE_5")
  case True
  then show ?thesis
    using sds_block5 [of n b] assms by (simp add: sds_init_header_def sds_width_def)
next
  case False
  have "s = sdssetalloc (sdssetlen \<lparr>flags = t, hlen = 0, halloc = 0, buf = b\<rparr> n) n"
    using False by (simp add: s_def sds_init_header_def sdssetalloc_def sdssetlen_def)
  then show ?thesis
    using sds_block [OF assms(1) False order_refl assms(2-4)] by simp
qed

text \<open>
  Creation: the string holds the first \<open>n\<close> bytes of its source, zero bytes for a NULL
  source.
\<close>

lemma sdsnewlen_ok:
  assumes new: "sdsnewlen A init n = Some s" and n: "n < 2 ^ 63"
    and src: "\<And>m. init = Some m \<Longrightarrow> n \<le> length m"
  shows "sds_ok s \<and> sdsstr s = (case init of Some m \<Rightarrow> take n m | None \<Rightarrow> replicate n NUL)"
proof -
  define t where "t = (if n = 0 then SDS_TYPE_8 else sdsReqType n)"
  define hd where "hd = sdsHdrSize t"
  have t: "(if sdsReqType n = SDS_TYPE_5 \<and> n = 0 then SDS_TYPE_8 else sdsReqType n) = t"
    by (simp add: t_def sdsReqType_def)
  have u: "u64 (Suc (hd + n)) = Suc (hd + n)"
    using n sdsHdrSize_le [of t] by (intro u64_id) (simp add: hd_def)
  obtain sh where m: "malloc A (Suc (hd + n)) = Some sh"
    using new by (auto simp: sdsnewlen_def Let_def t u hd_def [symmetric] split: option.splits)
  define block where "block = drop hd (if init = None then replicate (length sh) NUL else sh)"
  have len: "length block = n + 1" using length_malloc [OF m] by (simp add: block_def)
  define str where "str = (case init of Some m \<Rightarrow> take n m | None \<Rightarrow> replicate n NUL)"
  have lstr: "length str = n" using src by (auto simp: str_def split: option.splits)
  have s: "s = (sds_init_header t n block)\<lparr>buf := str @ [NUL]\<rparr>"
    using new len lstr
    by (auto simp: sdsnewlen_def Let_def t u m hd_def [symmetric] block_def str_def mem_write_def
        sds_init_header_def length_malloc [OF m] simp del: replicate_Suc split: option.splits)
  have "n < 2 ^ sds_width t" using sdsReqType_fits [of n] n by (cases "n = 0") (simp_all add: t_def)
  moreover have "t \<in> sds_types" by (simp add: t_def sdsReqType_types) (simp add: sds_types_def)
  ultimately have "sds_ok s \<and> sdslen s = n \<and> buf s = str @ [NUL]"
    unfolding s using lstr by (intro sds_init_header_ok) (simp_all add: nth_append)
  then show ?thesis using lstr by (simp add: sdsstr_def str_def)
qed

text \<open>
  Growth. \<open>sds_newlen\<close> is the capacity \<^verbatim>\<open>sdsMakeRoomFor\<close> asks for: it doubles below one
  megabyte and adds one megabyte above. The block keeps the string, and there is room
  for \<open>addlen\<close> more bytes and the terminator.
\<close>

definition sds_newlen :: "nat \<Rightarrow> nat" where
  "sds_newlen n = (if n < SDS_MAX_PREALLOC then n * 2 else n + SDS_MAX_PREALLOC)"

lemma sds_newlen_bounds: "n \<le> sds_newlen n" "n < 2 ^ 63 \<Longrightarrow> sds_newlen n < 2 ^ 63 + 2 ^ 21"
  by (simp_all add: sds_newlen_def SDS_MAX_PREALLOC_def)

definition sds_growtype :: "nat \<Rightarrow> 8 word" where
  "sds_growtype n = (if n < 32 then SDS_TYPE_8 else sdsReqType n)"

lemma sds_growtype: "n < 2 ^ 64 \<Longrightarrow> n < 2 ^ sds_width (sds_growtype n)"
  "sds_growtype n \<in> sds_types" "sds_growtype n \<noteq> SDS_TYPE_5"
  by (auto simp: sds_growtype_def sds_width_def sds_types_def sdsReqType_def)

lemma sdsMakeRoomFor_eq:
  assumes "sdslen s + addlen < 2 ^ 63" "sdsavail s < addlen"
  defines "n \<equiv> sds_newlen (sdslen s + addlen)" and "t \<equiv> sds_growtype (sds_newlen (sdslen s + addlen))"
  shows "sdsMakeRoomFor A s addlen =
    (if sds_type s = t
     then map_option (\<lambda>m. sdssetalloc (s\<lparr>buf := drop (sdsHdrSize t) m\<rparr>) n)
            (realloc A (replicate (sdsHdrSize t) NUL @ buf s) (sdsHdrSize t + n + 1))
     else map_option (\<lambda>m. sdssetalloc (sdssetlen \<lparr>flags = t, hlen = 0, halloc = 0,
              buf = mem_write 0 (take (sdslen s + 1) (buf s)) (drop (sdsHdrSize t) m)\<rparr> (sdslen s)) n)
            (malloc A (sdsHdrSize t + n + 1)))"
proof -
  let ?k = "sdslen s + addlen"
  have n: "n < 2 ^ 63 + 2 ^ 21" using sds_newlen_bounds(2) [OF assms(1)] by (simp add: n_def)
  have k: "u64 ?k = ?k" using assms(1) by (intro u64_id) simp
  have "u64 (?k * 2) = ?k * 2" if "?k < SDS_MAX_PREALLOC"
    using that by (intro u64_id) (simp add: SDS_MAX_PREALLOC_def)
  moreover have "u64 (?k + SDS_MAX_PREALLOC) = ?k + SDS_MAX_PREALLOC"
    using assms(1) by (intro u64_id) (simp add: SDS_MAX_PREALLOC_def)
  ultimately have nn:
    "(if ?k < SDS_MAX_PREALLOC then u64 (?k * 2) else u64 (?k + SDS_MAX_PREALLOC)) = n"
    by (simp add: n_def sds_newlen_def)
  have t: "(if sdsReqType n = SDS_TYPE_5 then SDS_TYPE_8 else sdsReqType n) = t"
    by (simp add: t_def n_def [symmetric] sds_growtype_def sdsReqType_def)
  have h: "u64 (sdsHdrSize t + n + 1) = sdsHdrSize t + n + 1"
    using n sdsHdrSize_le [of t] by (intro u64_id) simp
  have no: "\<not> addlen \<le> sdsavail s" using assms(2) by simp
  show ?thesis
    unfolding sdsMakeRoomFor_def Let_def map_option_case k nn t h
    by (simp only: no if_False)
qed

lemma sds_fitD:
  assumes "sds_fit s"
  shows "sdslen s \<le> sdsalloc s" "sdsalloc s < length (buf s)"
    "sds_type s \<in> sds_types" "sdsalloc s < 2 ^ sds_width (sds_type s)"
  using assms by (auto simp: sds_fit_def)

lemma sdsavail_fit:
  assumes "sds_fit s"
  shows "sdsavail s = (if sds_type s = SDS_TYPE_5 then 0 else sdsalloc s - sdslen s)"
  using assms unfolding sds_fit_def
  by (elim conjE sds_typesE)
    (simp_all add: sdsavail_def sdsalloc_def sdslen_def sds_width_def take_bit_int_eq_self nat_diff_distrib)

text \<open>A grown string: same contents and terminator byte, capacity \<open>n\<close>.\<close>

definition sds_grown :: "sds \<Rightarrow> nat \<Rightarrow> 8 word \<Rightarrow> sds \<Rightarrow> bool" where
  "sds_grown s n t s' \<longleftrightarrow> sds_fit s' \<and> sdslen s' = sdslen s \<and> sdsalloc s' = n \<and> sds_type s' = t \<and>
     take (Suc (sdslen s)) (buf s') = take (Suc (sdslen s)) (buf s)"

lemma sds_realloc_ok:
  assumes "sds_fit s" "sds_type s \<noteq> SDS_TYPE_5" "sdslen s \<le> n" "n < 2 ^ sds_width (sds_type s)"
    and m: "realloc A (replicate hz NUL @ buf s) (hz + n + 1) = Some m"
  shows "sds_grown s n (sds_type s) (sdssetalloc (s\<lparr>buf := drop hz m\<rparr>) n)"
proof -
  note D = sds_fitD [OF assms(1)]
  have "realloc A (replicate hz NUL @ buf s) (length (replicate hz NUL) + n + 1) = Some m"
    using m by simp
  note R = realloc_behind [OF this, of "sdslen s"]
  have R: "length (drop hz m) = n + 1" "take (Suc (sdslen s)) (drop hz m) = take (Suc (sdslen s)) (buf s)"
    using R D assms(3) by simp_all
  then show ?thesis
    using assms D by (simp add: sds_grown_def sds_fit_def sdsalloc_setalloc)
qed

lemma sds_move_ok:
  assumes "sds_fit s" "t \<in> sds_types" "t \<noteq> SDS_TYPE_5" "sdslen s \<le> n" "n < 2 ^ sds_width t"
    and m: "malloc A (hz + n + 1) = Some m"
  shows "sds_grown s n t (sdssetalloc (sdssetlen \<lparr>flags = t, hlen = 0, halloc = 0,
              buf = mem_write 0 (take (sdslen s + 1) (buf s)) (drop hz m)\<rparr> (sdslen s)) n)"
proof -
  note D = sds_fitD [OF assms(1)]
  let ?b = "mem_write 0 (take (sdslen s + 1) (buf s)) (drop hz m)"
  have "length ?b = n + 1" using length_malloc [OF m] D assms(4) by (simp add: mem_write_def)
  moreover have "take (Suc (sdslen s)) ?b = take (Suc (sdslen s)) (buf s)"
    using D by (simp add: mem_write_def min_def)
  ultimately show ?thesis
    unfolding sds_grown_def using sds_block_fit [OF assms(2-5), of ?b] by simp
qed

lemma sds_grown_ok:
  assumes "sds_grown s n t s'" "sds_ok s"
  shows "sds_ok s'" "sdslen s' = sdslen s" "sdsalloc s' = n" "sdsstr s' = sdsstr s"
proof -
  have fit: "sds_fit s" using assms(2) by (simp add: sds_ok_fit)
  have "sdslen s < length (buf s)" using sds_fitD [OF fit] by simp
  moreover have "take (Suc (sdslen s)) (buf s') = take (Suc (sdslen s)) (buf s)"
    using assms(1) by (simp add: sds_grown_def)
  ultimately have "take (sdslen s) (buf s') = take (sdslen s) (buf s)" "buf s' ! sdslen s = buf s ! sdslen s"
    using take_Suc_eqD by blast+
  then show "sds_ok s'" "sdslen s' = sdslen s" "sdsalloc s' = n" "sdsstr s' = sdsstr s"
    using assms by (simp_all add: sds_grown_def sds_ok_fit sdsstr_def)
qed

lemma sdsMakeRoomFor_fit:
  assumes room: "sdsMakeRoomFor A s addlen = Some s'" and ok: "sds_fit s"
    and small: "sdslen s + addlen < 2 ^ 63"
  shows "sds_fit s' \<and> sdslen s' = sdslen s \<and> take (Suc (sdslen s)) (buf s') = take (Suc (sdslen s)) (buf s) \<and>
    sdslen s + addlen \<le> sdsalloc s' \<and> (0 < addlen \<longrightarrow> sds_type s' \<noteq> SDS_TYPE_5)"
proof (cases "addlen \<le> sdsavail s")
  case True
  then have "s' = s" using room by (simp add: sdsMakeRoomFor_def)
  then show ?thesis using True ok sds_fitD [OF ok] by (auto simp: sdsavail_fit split: if_splits)
next
  case False
  define n where "n = sds_newlen (sdslen s + addlen)"
  define t where "t = sds_growtype n"
  have n: "sdslen s + addlen \<le> n" "n < 2 ^ 64"
    using sds_newlen_bounds [of "sdslen s + addlen"] small by (simp_all add: n_def)
  note t = sds_growtype [of n, folded t_def]
  note eq = sdsMakeRoomFor_eq [OF small, of A, folded n_def, folded t_def]
  have "sds_grown s n t s'"
  proof (cases "sds_type s = t")
    case True
    then show ?thesis
      using room eq False sds_realloc_ok [OF ok, of n A "sdsHdrSize t"] t n by auto
  next
    case diff: False
    then show ?thesis
      using room eq False sds_move_ok [OF ok t(2,3), of n A "sdsHdrSize t"] t n by auto
  qed
  then show ?thesis using n t by (simp add: sds_grown_def)
qed

lemma sdsMakeRoomFor_ok:
  assumes room: "sdsMakeRoomFor A s addlen = Some s'" and ok: "sds_ok s"
    and small: "sdslen s + addlen < 2 ^ 63"
  shows "sds_ok s' \<and> sdslen s' = sdslen s \<and> sdsstr s' = sdsstr s \<and> sdslen s + addlen \<le> sdsalloc s'
    \<and> (0 < addlen \<longrightarrow> sds_type s' \<noteq> SDS_TYPE_5)"
proof -
  have fit: "sds_fit s" using ok by (simp add: sds_ok_fit)
  note R = sdsMakeRoomFor_fit [OF room fit small]
  have "sdslen s < length (buf s)" using sds_fitD [OF fit] by simp
  note T = take_Suc_eqD [OF R [THEN conjunct2, THEN conjunct2, THEN conjunct1] this]
  show ?thesis using R T ok by (simp add: sds_ok_fit sdsstr_def)
qed

text \<open>Writing the length and the terminator after the contents were put in place.\<close>

lemma sds_setlen_ok:
  assumes "sds_ok s" "n \<le> sdsalloc s" "length b = length (buf s)" "b ! n = NUL"
  defines "s' \<equiv> (sdssetlen s n)\<lparr>buf := b\<rparr>"
  shows "sds_ok s'" "sdslen s' = n" "sdsstr s' = take n b"
proof -
  note D = sds_okD [OF assms(1)]
  have n: "n < 2 ^ sds_width (sds_type s)" using D(5) assms(2) by linarith
  show len: "sdslen s' = n" using sdslen_setlen [OF D(4) n] by (simp add: s'_def)
  then show "sdsstr s' = take n b" by (simp add: sdsstr_def s'_def)
  have ty: "sds_type s' = sds_type s" by (simp add: s'_def)
  have "sdsalloc s' = (if sds_type s = SDS_TYPE_5 then n else sdsalloc s)"
    using sdsalloc_setlen [OF D(4)] sdsalloc_type5 [of s'] ty len by (simp add: s'_def)
  then show "sds_ok s'"
    unfolding sds_ok_def len ty using assms n D by (auto simp: s'_def sds_ok_def)
qed

section \<open>The operations refine list operations\<close>

lemma sdscatlen_ok:
  assumes cat: "sdscatlen A s t len = Some s'" and ok: "sds_ok s" and t: "len \<le> length t"
    and small: "sdslen s + len < 2 ^ 63"
  shows "sds_ok s' \<and> sdsstr s' = sdsstr s @ take len t"
proof -
  obtain r where r: "sdsMakeRoomFor A s len = Some r"
    using cat by (auto simp: sdscatlen_def Let_def split: option.splits)
  note R = sdsMakeRoomFor_ok [OF r ok small]
  have ok: "sds_ok r" and str: "sdsstr r = sdsstr s" and len: "sdslen r = sdslen s"
    and room: "sdslen s + len \<le> sdsalloc r" using R by auto
  note D = sds_okD [OF ok]
  have u: "u64 (sdslen s + len) = sdslen s + len" using small by (intro u64_id) simp
  let ?b = "mem_set1 (sdslen s + len) NUL (mem_write (sdslen s) (take len t) (buf r))"
  have "s' = (sdssetlen r (sdslen s + len))\<lparr>buf := ?b\<rparr>"
    using cat by (simp add: sdscatlen_def Let_def r u)
  moreover have "length ?b = length (buf r)" "?b ! (sdslen s + len) = NUL"
    "take (sdslen s + len) ?b = sdsstr s @ take len t"
    using D room t str len by (simp_all add: mem_simps sdsstr_def)
  ultimately show ?thesis using sds_setlen_ok [OF ok room, of ?b] by simp
qed

lemma sdscpylen_ok:
  assumes cpy: "sdscpylen A s t len = Some s'" and ok: "sds_ok s" and t: "len \<le> length t"
    and small: "len < 2 ^ 63"
  shows "sds_ok s' \<and> sdsstr s' = take len t"
proof -
  obtain r where r: "(if sdsalloc s < len then sdsMakeRoomFor A s (len - sdslen s) else Some s) = Some r"
    using cpy unfolding sdscpylen_def by (auto split: option.split_asm)
  have "sds_ok r \<and> len \<le> sdsalloc r"
  proof (cases "sdsalloc s < len")
    case True
    then show ?thesis
      using r sdsMakeRoomFor_ok [of A s "len - sdslen s" r] ok sds_okD(1) [OF ok] small by simp
  next
    case False
    then show ?thesis using r ok by simp
  qed
  then have ok: "sds_ok r" and room: "len \<le> sdsalloc r" by auto
  note D = sds_okD [OF ok]
  let ?b = "mem_set1 len NUL (mem_write 0 (take len t) (buf r))"
  have "s' = (sdssetlen r len)\<lparr>buf := ?b\<rparr>"
    using cpy unfolding sdscpylen_def r Let_def by simp
  moreover have "length ?b = length (buf r)" "?b ! len = NUL" "take len ?b = take len t"
    using D room t by (simp_all add: mem_simps)
  ultimately show ?thesis using sds_setlen_ok [OF ok room, of ?b] by simp
qed

lemma sdsgrowzero_ok:
  assumes grow: "sdsgrowzero A s len = Some s'" and ok: "sds_ok s" and small: "len < 2 ^ 63"
  shows "sds_ok s' \<and> sdsstr s' = sdsstr s @ replicate (len - sdslen s) NUL"
proof (cases "len \<le> sdslen s")
  case True
  then show ?thesis using grow ok by (simp add: sdsgrowzero_def)
next
  case False
  obtain r where r: "sdsMakeRoomFor A s (len - sdslen s) = Some r"
    using grow False by (auto simp: sdsgrowzero_def Let_def split: option.splits)
  have R: "sds_ok r" "sdsstr r = sdsstr s" "sdslen r = sdslen s" "len \<le> sdsalloc r"
    using sdsMakeRoomFor_ok [OF r ok] small False by auto
  note D = sds_okD [OF R(1)]
  let ?b = "mem_write (sdslen s) (replicate (len - sdslen s + 1) NUL) (buf r)"
  have "s' = (sdssetlen r len)\<lparr>buf := ?b\<rparr>"
    using grow False by (simp add: sdsgrowzero_def Let_def r)
  moreover have "?b = mem_set1 len NUL (mem_write (sdslen s) (replicate (len - sdslen s) NUL) (buf r))"
    using mem_write_snoc [of "sdslen s" "replicate (len - sdslen s) NUL" "buf r" NUL] D R False
    by (simp add: replicate_append_same)
  then have "length ?b = length (buf r) \<and> ?b ! len = NUL \<and>
      take len ?b = sdsstr s @ replicate (len - sdslen s) NUL"
    using D R False by (simp add: mem_simps sdsstr_def)
  ultimately show ?thesis using sds_setlen_ok [OF R(1,4), of ?b] by simp
qed

text \<open>
  \<^verbatim>\<open>sdsrange\<close> and \<^verbatim>\<open>sdstrim\<close> both move a slice to the front, terminate it and set the length;
  nothing outside the block is written and the block keeps its size.
\<close>

definition sds_cut :: "sds \<Rightarrow> nat \<Rightarrow> nat \<Rightarrow> sds" where
  "sds_cut s k n =
     sdssetlen (s\<lparr>buf := mem_set1 n NUL (mem_write 0 (take n (drop k (buf s))) (buf s))\<rparr>) n"

lemma mem_write_prefix: "n \<le> length b \<Longrightarrow> mem_write 0 (take n b) b = b"
  by (simp add: mem_write_def min_def)

lemma mem_write_Nil [simp]: "mem_write i [] b = b"
  by (simp add: mem_write_def)

lemma sds_cut_ok:
  assumes ok: "sds_ok s" and "k + n \<le> sdslen s"
  shows "sds_ok (sds_cut s k n) \<and> sdsstr (sds_cut s k n) = take n (drop k (sdsstr s)) \<and>
    length (buf (sds_cut s k n)) = length (buf s)"
proof -
  note D = sds_okD [OF ok]
  have n: "n \<le> sdsalloc s" using assms(2) D by linarith
  let ?b = "mem_set1 n NUL (mem_write 0 (take n (drop k (buf s))) (buf s))"
  have "take n (drop k (sdsstr s)) = take n (drop k (buf s))"
    using assms(2) by (simp add: sdsstr_def drop_take min_def)
  moreover have "length ?b = length (buf s)" "?b ! n = NUL" "take n ?b = take n (drop k (buf s))"
    using D assms(2) by (simp_all add: mem_simps)
  ultimately show ?thesis
    using sds_setlen_ok [OF ok n, of ?b] by (simp add: sds_cut_def)
qed

definition sds_index :: "nat \<Rightarrow> int \<Rightarrow> nat" where
  "sds_index len i = nat (if i < 0 then int len + i else i)"

lemma range_index_eq:
  "len < 2 ^ 31 \<Longrightarrow> - (2 ^ 31) \<le> i \<Longrightarrow> i < 2 ^ 31 \<Longrightarrow> range_index len i = int (sds_index len i)"
  by (auto simp: range_index_def sds_index_def Let_def s32_id)

lemma sds_index_less: "len < 2 ^ 31 \<Longrightarrow> i < 2 ^ 31 \<Longrightarrow> sds_index len i < 2 ^ 31"
  by (auto simp: sds_index_def)

lemma range_newlen_eq:
  assumes "j < 2 ^ 31 - 1"
  shows "range_newlen (int i) (int j) = Suc j - i"
proof (cases "i \<le> j")
  case True
  then have "s32 (int j - int i + 1) = int (Suc j - i)" using assms by (simp add: s32_id)
  moreover have "to_size (int (Suc j - i)) = Suc j - i" using assms by (subst to_size_id) simp_all
  ultimately show ?thesis using True by (simp add: range_newlen_def)
qed (simp add: range_newlen_def)

lemma range_newlen_zero:
  assumes "j < 2 ^ 31"
  shows "range_newlen (int i) (int j) = 0 \<longleftrightarrow> j < i"
proof (cases "j = 2 ^ 31 - 1")
  case True
  have "s32 (int j - int i + 1) = (if i = 0 then - (2 ^ 31) else 2 ^ 31 - int i)" if "i \<le> j"
    using that unfolding True by (auto simp: s32_id)
  then show ?thesis using True by (auto simp: range_newlen_def take_bit_int_eq_self)
next
  case False
  then show ?thesis using range_newlen_eq [of j i] assms by (simp add: Suc_le_eq)
qed

lemma range_clip_eq:
  assumes "0 < len" "len < 2 ^ 31" "j < 2 ^ 31"
  shows "range_clip len (int i) (int j) =
    (if i \<le> j then int i else 0, min (Suc j) len - i)"
proof -
  have len: "s32 (int len) = int len" "s32 (int len - 1) = int (len - 1)"
    using assms by (simp_all add: s32_id of_nat_diff)
  show ?thesis
    unfolding range_clip_def len
    using assms range_newlen_zero [OF assms(3), of i] range_newlen_eq [of "len - 1" i] range_newlen_eq [of j i]
    by (auto simp: min_def Let_def)
qed

text \<open>
  \<^verbatim>\<open>sdsrange(s, a, b)\<close> keeps the bytes from index \<open>a\<close> to index \<open>b\<close>, both included, with
  negative indices counted from the end; an index before the start counts as 0.
\<close>

lemma sdsrange_ok:
  assumes ok: "sds_ok s" and len: "sdslen s < 2 ^ 31"
    and a: "- (2 ^ 31) \<le> a" "a < 2 ^ 31" and b: "- (2 ^ 31) \<le> b" "b < 2 ^ 31"
  shows "sds_ok (sdsrange s a b) \<and> length (buf (sdsrange s a b)) = length (buf s) \<and>
    sdsstr (sdsrange s a b) =
      drop (sds_index (sdslen s) a) (take (Suc (sds_index (sdslen s) b)) (sdsstr s))"
proof (cases "sdslen s = 0")
  case True
  then show ?thesis using ok by (simp add: sdsrange_def sdsstr_def)
next
  case False
  define i where "i = sds_index (sdslen s) a"
  define j where "j = sds_index (sdslen s) b"
  define n where "n = min (Suc j) (sdslen s) - i"
  note D = sds_okD [OF ok]
  have "range_clip (sdslen s) (range_index (sdslen s) a) (range_index (sdslen s) b) =
      (if i \<le> j then int i else 0, n)"
    unfolding range_index_eq [OF len a] range_index_eq [OF len b] n_def i_def j_def
    using False len sds_index_less [OF len b(2)] by (intro range_clip_eq) simp_all
  then have eq: "sdsrange s a b = sds_cut s (if n = 0 then 0 else i) n"
    using False mem_write_prefix [of n "buf s"] D
    by (auto simp: sdsrange_def sds_cut_def n_def Let_def)
  have "drop i (take (Suc j) (sdsstr s)) = take n (drop i (sdsstr s))"
    using ok by (simp add: n_def drop_take min_def)
  then show ?thesis
    using sds_cut_ok [OF ok, of "if n = 0 then 0 else i" n] ok
    unfolding eq i_def [symmetric] j_def [symmetric] by (auto simp: n_def)
qed

lemmas sdsrange_suffix = sdsrange_ok [of _ _ "- 1"]

lemma trim_left_eq:
  "k \<le> n \<Longrightarrow> n \<le> length b \<Longrightarrow> trim_left cset b (int n - 1) (int k) =
    int (k + length (takeWhile (strchr_found cset) (drop k (take n b))))"
proof (induction "n - k" arbitrary: k)
  case 0
  then show ?case by (simp add: trim_left.simps [of _ _ _ "int k"])
next
  case (Suc d)
  then have k: "k < n" by simp
  then have "drop k (take n b) = b ! k # drop (Suc k) (take n b)"
    using Suc.prems by (simp add: Cons_nth_drop_Suc [symmetric])
  moreover have "trim_left cset b (int n - 1) (int k + 1) =
      int (Suc k + length (takeWhile (strchr_found cset) (drop (Suc k) (take n b))))"
    using Suc.hyps(1) [of "Suc k"] Suc.hyps(2) Suc.prems k by (simp add: algebra_simps)
  ultimately show ?case
    using k by (simp add: trim_left.simps [of _ _ _ "int k"])
qed

lemma trim_right_eq:
  "i \<le> e \<Longrightarrow> e < length b \<Longrightarrow> trim_right cset b (int i) (int e) =
    int (e - length (takeWhile (strchr_found cset) (rev (drop (Suc i) (take (Suc e) b)))))"
proof (induction "e - i" arbitrary: e)
  case 0
  then show ?case by (simp add: trim_right.simps [of _ _ "int i" "int i"])
next
  case (Suc d)
  then obtain e' where e: "e = Suc e'" "i \<le> e'" by (cases e) auto
  have "rev (drop (Suc i) (take (Suc e) b)) = b ! e # rev (drop (Suc i) (take (Suc e') b))"
    using Suc.prems e take_Suc_conv_app_nth [of e b] by simp
  moreover have "trim_right cset b (int i) (int e - 1) =
      int (e' - length (takeWhile (strchr_found cset) (rev (drop (Suc i) (take (Suc e') b)))))"
    using Suc.hyps(1) [of e'] Suc.hyps(2) Suc.prems e by simp
  ultimately show ?case
    unfolding trim_right.simps [of cset b "int i" "int e"] nat_int using e by simp
qed

lemma sdstrim_cut:
  assumes "trim_left cset (buf s) (int (sdslen s) - 1) 0 = int i"
    and "trim_right cset (buf s) (int i) (int (sdslen s) - 1) = ep"
    and "ep < int (length (buf s))"
  shows "sdstrim s cset = sds_cut s i (if int i > ep then 0 else nat (ep - int i + 1))"
proof (cases "i = 0")
  case True
  then show ?thesis
    using assms mem_write_prefix [of "nat (ep + 1)" "buf s"]
    by (simp add: sdstrim_def sds_cut_def Let_def)
next
  case False
  then show ?thesis using assms by (simp add: sdstrim_def sds_cut_def Let_def)
qed

text \<open>
  \<^verbatim>\<open>sdstrim\<close> drops the bytes of \<open>cset\<close>, and zero bytes, from both ends.
\<close>

lemma sdstrim_ok:
  fixes cset :: "char list"
  assumes ok: "sds_ok s"
  defines "P \<equiv> strchr_found cset"
  shows "sds_ok (sdstrim s cset) \<and> length (buf (sdstrim s cset)) = length (buf s) \<and>
    sdsstr (sdstrim s cset) = rev (dropWhile P (rev (dropWhile P (sdsstr s))))"
proof -
  note D = sds_okD [OF ok]
  define n where "n = sdslen s"
  define i where "i = length (takeWhile P (sdsstr s))"
  have n: "length (sdsstr s) = n" "n < length (buf s)" using ok D by (simp_all add: n_def)
  have i: "i \<le> n" using n length_takeWhile_le [of P "sdsstr s"] by (simp add: i_def)
  have drop_i: "dropWhile P (sdsstr s) = drop i (sdsstr s)" by (simp add: i_def dropWhile_eq_drop)
  have sp: "trim_left cset (buf s) (int n - 1) 0 = int i"
    using trim_left_eq [of 0 n "buf s" cset] n by (simp add: i_def sdsstr_def n_def P_def)
  have "\<exists>k. sdstrim s cset = sds_cut s i k \<and> i + k \<le> n \<and>
      take k (drop i (sdsstr s)) = rev (dropWhile P (rev (drop i (sdsstr s))))"
  proof (cases "i = n")
    case True
    have "trim_right cset (buf s) (int i) (int n - 1) = int n - 1"
      using True by (simp add: trim_right.simps [of _ _ _ "int n - 1"])
    then have "sdstrim s cset = sds_cut s i 0"
      using sdstrim_cut [of cset s i "int n - 1"] sp True n by (simp add: n_def)
    then show ?thesis using True n by (intro exI [of _ 0]) simp
  next
    case False
    define ys where "ys = drop (Suc i) (sdsstr s)"
    define t where "t = length (takeWhile P (rev ys))"
    have y: "drop i (sdsstr s) = sdsstr s ! i # ys" "\<not> P (sdsstr s ! i)"
      using False i n nth_length_takeWhile [of P "sdsstr s"]
      by (simp_all add: ys_def Cons_nth_drop_Suc i_def)
    have t: "t \<le> n - Suc i" using length_takeWhile_le [of P "rev ys"] n by (simp add: t_def ys_def)
    have "trim_right cset (buf s) (int i) (int n - 1) = int (n - 1 - t)"
      using trim_right_eq [of i "n - 1" "buf s" cset] False i n t
      by (simp add: t_def ys_def sdsstr_def n_def P_def of_nat_diff Suc_diff_1)
    moreover have len: "nat (int (n - 1 - t) - int i + 1) = n - i - t" "\<not> int i > int (n - 1 - t)"
      using t False i by linarith+
    ultimately have "sdstrim s cset = sds_cut s i (n - i - t)"
      using sdstrim_cut [of cset s i "int (n - 1 - t)"] sp n len by (simp add: n_def)
    moreover have "rev (dropWhile P (rev (drop i (sdsstr s)))) = take (n - i - t) (drop i (sdsstr s))"
      unfolding rev_dropWhile_rev using y n False i t
      by (simp add: takeWhile_snoc_stop t_def ys_def)
    ultimately show ?thesis using i by (intro exI [of _ "n - i - t"]) simp
  qed
  then show ?thesis using sds_cut_ok [OF ok, of i] drop_i n_def by auto
qed

lemma sdsRemoveFreeSpace_ok:
  assumes rm: "sdsRemoveFreeSpace A s = Some s'" and ok: "sds_ok s" and "sdslen s < 2 ^ 63"
    and t5: "sdsReqType (sdslen s) \<noteq> SDS_TYPE_5"
  shows "sds_ok s' \<and> sdsstr s' = sdsstr s \<and> sdsavail s' = 0"
proof -
  let ?t = "sdsReqType (sdslen s)"
  have "u64 (sdsHdrSize ?t + sdslen s + 1) = sdsHdrSize ?t + sdslen s + 1"
    using assms(3) sdsHdrSize_le [of ?t] by (intro u64_id) simp
  note rm = rm [unfolded sdsRemoveFreeSpace_def Let_def this]
  have fits: "sdslen s < 2 ^ sds_width ?t" using assms(3) by (intro sdsReqType_fits) simp
  have fit: "sds_fit s" using ok by (simp add: sds_ok_fit)
  have "sds_grown s (sdslen s) ?t s'"
  proof (cases "sds_type s = ?t")
    case True
    then show ?thesis
      using rm sds_realloc_ok [OF fit, of "sdslen s" A "sdsHdrSize ?t"] t5 fits
      by (auto split: option.split_asm)
  next
    case False
    then show ?thesis
      using rm sds_move_ok [OF fit sdsReqType_types t5 order_refl fits]
      by (auto split: option.split_asm)
  qed
  note G = sds_grown_ok [OF this ok]
  then show ?thesis using sdsavail_eq [of s'] by simp
qed

lemma sdsclear_ok:
  assumes ok: "sds_ok s"
  shows "sds_ok (sdsclear s) \<and> sdsstr (sdsclear s) = [] \<and> length (buf (sdsclear s)) = length (buf s)"
proof -
  have "sdsclear s = sds_cut s 0 0" by (simp add: sdsclear_def sds_cut_def)
  then show ?thesis using sds_cut_ok [OF ok, of 0 0] by simp
qed

lemma sdsdup_ok:
  assumes "sdsdup A s = Some s'" "sds_ok s" "sdslen s < 2 ^ 63"
  shows "sds_ok s' \<and> sdsstr s' = sdsstr s"
  using sdsnewlen_ok [of A "Some (buf s)" "sdslen s" s'] assms sds_okD [OF assms(2)]
  by (simp add: sdsdup_def sdsstr_def)

subsection \<open>Comparison\<close>

definition byte_less :: "(char \<times> char) set" where
  "byte_less = {(x, y). chr_val x < chr_val y}"

lemma memcmp_cases:
  assumes "n \<le> length xs" "n \<le> length ys"
  shows "(memcmp xs ys n = 0 \<and> take n xs = take n ys) \<or>
    (\<exists>k < n. take k xs = take k ys \<and> xs ! k \<noteq> ys ! k \<and>
      memcmp xs ys n = chr_val (xs ! k) - chr_val (ys ! k))"
  using assms
proof (induction xs ys n rule: memcmp.induct)
  case (1 x xs y ys n)
  show ?case
  proof (cases "x = y")
    case True
    then show ?thesis using "1.IH" "1.prems"
      by (auto intro: exI [of _ "Suc _"])
  next
    case False
    then show ?thesis by (auto intro!: exI [of _ 0])
  qed
qed auto

lemma of_char_inj [simp]: "chr_val x = chr_val y \<longleftrightarrow> x = y"
  by (metis of_char_eq_iff)

lemma lexord_first_diff:
  assumes "k < length xs" "k < length ys" "take k xs = take k ys" "xs ! k \<noteq> ys ! k"
  shows "(xs, ys) \<in> lexord byte_less \<longleftrightarrow> chr_val (xs ! k) < chr_val (ys ! k)"
proof -
  have x: "xs = take k xs @ xs ! k # drop (Suc k) xs" by (rule id_take_nth_drop [OF assms(1)])
  have y: "ys = take k xs @ ys ! k # drop (Suc k) ys"
    unfolding assms(3) by (rule id_take_nth_drop [OF assms(2)])
  have irr: "irrefl byte_less" by (auto simp: irrefl_def byte_less_def)
  have "(take k xs @ xs ! k # drop (Suc k) xs, take k xs @ ys ! k # drop (Suc k) ys)
      \<in> lexord byte_less \<longleftrightarrow> chr_val (xs ! k) < chr_val (ys ! k)"
    using assms(4) irr by (simp add: lexord_same_pref_iff irrefl_def) (simp add: byte_less_def)
  then show ?thesis using x y by simp
qed

lemma lexord_prefix:
  assumes "take (length xs) ys = xs"
  shows "(xs, ys) \<in> lexord byte_less \<longleftrightarrow> length xs < length ys"
    and "(ys, xs) \<notin> lexord byte_less"
proof -
  obtain zs where ys: "ys = xs @ zs" using assms by (metis append_take_drop_id)
  show "(xs, ys) \<in> lexord byte_less \<longleftrightarrow> length xs < length ys"
    unfolding ys by (cases zs) (auto simp: lexord_append_rightI lexord_irreflexive byte_less_def)
  show "(ys, xs) \<notin> lexord byte_less"
    unfolding ys using lexord_same_pref_iff [of xs zs "[]" byte_less] by (auto simp: byte_less_def)
qed

lemma sdscmp_ok:
  assumes ok: "sds_ok s" "sds_ok t" and len: "sdslen s < 2 ^ 31" "sdslen t < 2 ^ 31"
  shows "sdscmp s t = 0 \<longleftrightarrow> sdsstr s = sdsstr t"
    and "sdscmp s t < 0 \<longleftrightarrow> (sdsstr s, sdsstr t) \<in> lexord byte_less"
proof -
  define n where "n = min (sdslen s) (sdslen t)"
  have n: "n \<le> length (buf s)" "n \<le> length (buf t)"
    using sds_okD [OF ok(1)] sds_okD [OF ok(2)] by (simp_all add: n_def)
  have L: "length (sdsstr s) = sdslen s" "length (sdsstr t) = sdslen t" using ok by simp_all
  have d: "s32 (int (sdslen s) - int (sdslen t)) = int (sdslen s) - int (sdslen t)"
    using len by (intro s32_id) simp_all
  have cmp: "sdscmp s t = (let c = memcmp (buf s) (buf t) n in
      if c = 0 then int (sdslen s) - int (sdslen t) else c)"
    by (simp add: sdscmp_def Let_def n_def min_def d)
  have "(sdscmp s t = 0 \<longleftrightarrow> sdsstr s = sdsstr t) \<and>
      (sdscmp s t < 0 \<longleftrightarrow> (sdsstr s, sdsstr t) \<in> lexord byte_less)"
    using memcmp_cases [OF n]
  proof (elim disjE exE conjE)
    assume "memcmp (buf s) (buf t) n = 0" and "take n (buf s) = take n (buf t)"
    moreover from this(2) have "take n (sdsstr s) = take n (sdsstr t)"
      by (simp add: sdsstr_def n_def)
    ultimately show ?thesis
      using lexord_prefix [of "sdsstr s" "sdsstr t"] lexord_prefix [of "sdsstr t" "sdsstr s"] L
      by (cases "sdslen s \<le> sdslen t") (auto simp: cmp n_def min_def)
  next
    fix k assume k: "k < n" "take k (buf s) = take k (buf t)" "buf s ! k \<noteq> buf t ! k"
      "memcmp (buf s) (buf t) n = chr_val (buf s ! k) - chr_val (buf t ! k)"
    have kl: "k < sdslen s" "k < sdslen t" using k(1) by (simp_all add: n_def)
    then have "sdsstr s ! k = buf s ! k" "sdsstr t ! k = buf t ! k"
      "take k (sdsstr s) = take k (sdsstr t)"
      using k(2) by (simp_all add: sdsstr_def min_absorb1 less_imp_le)
    moreover have "chr_val (buf s ! k) - chr_val (buf t ! k) \<noteq> 0" using k(3) by simp
    ultimately show ?thesis
      using k kl lexord_first_diff [of k "sdsstr s" "sdsstr t"] L by (auto simp: cmp)
  qed
  then show "sdscmp s t = 0 \<longleftrightarrow> sdsstr s = sdsstr t"
    and "sdscmp s t < 0 \<longleftrightarrow> (sdsstr s, sdsstr t) \<in> lexord byte_less" by simp_all
qed

section \<open>The interface the buffers of the other components use\<close>

text \<open>
  What read.c, hiredis.c and async.c rely on: a growable byte string with an append that
  may run out of memory and a cut that drops a consumed prefix.
\<close>

locale byte_string =
  fixes invar :: "'s \<Rightarrow> bool"
    and str :: "'s \<Rightarrow> char list"
    and len :: "'s \<Rightarrow> nat"
    and empty :: "'s option"
    and cat :: "'s \<Rightarrow> char list \<Rightarrow> nat \<Rightarrow> 's option"
    and cut :: "'s \<Rightarrow> int \<Rightarrow> int \<Rightarrow> 's"
  assumes len_str: "invar s \<Longrightarrow> len s = length (str s)"
    and empty_ok: "empty = Some s \<Longrightarrow> invar s \<and> str s = []"
    and cat_ok: "cat s t n = Some s' \<Longrightarrow> invar s \<Longrightarrow> n \<le> length t \<Longrightarrow> len s + n < 2 ^ 63 \<Longrightarrow>
      invar s' \<and> str s' = str s @ take n t"
    and cut_ok: "invar s \<Longrightarrow> len s < 2 ^ 31 \<Longrightarrow> k \<le> len s \<Longrightarrow>
      invar (cut s (int k) (- 1)) \<and> str (cut s (int k) (- 1)) = drop k (str s)"
begin

text \<open>Appending whole blocks, the empty string first.\<close>

lemma cat_empty:
  assumes "empty = Some e" "cat e t (length t) = Some s" "length t < 2 ^ 63"
  shows "invar s" "str s = t"
proof -
  have "invar e" "str e = []" using empty_ok [OF assms(1)] by simp_all
  then show "invar s" "str s = t"
    using cat_ok [OF assms(2)] assms(3) len_str [of e] by simp_all
qed

lemma cat_cat:
  assumes "cat s t (length t) = Some s'" "cat s' u (length u) = Some s''" "invar s"
    and "len s + length t + length u < 2 ^ 63"
  shows "invar s''" "str s'' = str s @ t @ u"
proof -
  have s': "invar s'" "str s' = str s @ t"
    using cat_ok [OF assms(1,3)] assms(4) by simp_all
  then have "len s' = len s + length t" using len_str [of s'] len_str [OF assms(3)] by simp
  then show "invar s''" "str s'' = str s @ t @ u"
    using cat_ok [OF assms(2) s'(1)] s' assms(4) by simp_all
qed

text \<open>
  A buffer that is filled at the back and consumed at the front is a queue of bytes:
  appending and then dropping a consumed prefix leaves the rest and the new bytes.
\<close>

lemma cat_cut:
  assumes "cat s t (length t) = Some s'" "invar s" "k \<le> len s" "len s + length t < 2 ^ 31"
  shows "invar (cut s' (int k) (- 1))" "str (cut s' (int k) (- 1)) = drop k (str s) @ t"
proof -
  have s': "invar s'" "str s' = str s @ t"
    using cat_ok [OF assms(1,2)] assms(4) by simp_all
  have l: "len s = length (str s)" "len s' = length (str s @ t)"
    using len_str [OF assms(2)] len_str [OF s'(1)] s'(2) by simp_all
  show "invar (cut s' (int k) (- 1))" "str (cut s' (int k) (- 1)) = drop k (str s) @ t"
    using cut_ok [OF s'(1), of k] s'(2) l assms(3,4) by simp_all
qed

end

lemma sdsrange_drop:
  assumes "sds_ok s" "sdslen s < 2 ^ 31" "k \<le> sdslen s"
  shows "sds_ok (sdsrange s (int k) (- 1)) \<and> sdsstr (sdsrange s (int k) (- 1)) = drop k (sdsstr s)"
proof (cases "sdslen s = 0")
  case True
  then show ?thesis using assms by (simp add: sdsrange_def sdsstr_def)
next
  case False
  then show ?thesis
    using sdsrange_ok [OF assms(1,2), of "int k" "- 1"] assms by (simp add: sds_index_def)
qed

lemma sdsempty_ok: "sdsempty A = Some s \<Longrightarrow> sds_ok s \<and> sdsstr s = []"
  using sdsnewlen_ok [of A "Some [NUL]" 0 s] by (simp add: sdsempty_def)

text \<open>Growth fails only when the allocator refuses; one that serves eight gigabytes is enough below two.\<close>

definition roomy :: "allocator \<Rightarrow> bool" where
  "roomy A \<longleftrightarrow> (\<forall>n < 2 ^ 33. serves A n)"

lemma roomy_heap0: "roomy heap0"
  by (simp add: roomy_def heap0_def)

lemma sdsMakeRoomFor_total:
  assumes "roomy A" "sdslen s + n < 2 ^ 31"
  shows "\<exists>s'. sdsMakeRoomFor A s n = Some s'"
proof -
  define m where "m = sdslen s + n"
  have m: "u64 m = m" "u64 (m * 2) = m * 2" "u64 (m + SDS_MAX_PREALLOC) = m + SDS_MAX_PREALLOC"
    using assms(2) by (simp_all add: u64_id m_def SDS_MAX_PREALLOC_def)
  have served: "serves A (u64 (sdsHdrSize t + k + 1))" if "k < 2 ^ 32" for t k
    using assms(1) that sdsHdrSize_le [of t] by (subst u64_id) (auto simp: roomy_def)
  have "m * 2 < 2 ^ 32" "m + SDS_MAX_PREALLOC < 2 ^ 32"
    using assms(2) by (simp_all add: m_def SDS_MAX_PREALLOC_def)
  note served [OF this(1)] served [OF this(2)]
  then show ?thesis
    by (simp add: sdsMakeRoomFor_def Let_def realloc_def malloc_def m flip: m_def)
qed

lemma sdscatlen_total:
  assumes "roomy A" "sdslen s + n < 2 ^ 31"
  shows "\<exists>s'. sdscatlen A s t n = Some s'"
  using sdsMakeRoomFor_total [OF assms] by (auto simp: sdscatlen_def Let_def)

lemma sdsempty_total: "roomy A \<Longrightarrow> \<exists>s. sdsempty A = Some s"
  unfolding sdsempty_def using sdsnewlen_NULL [of A "Some [NUL]" 0] sdsHdrSize_le [of SDS_TYPE_8]
  by (auto simp: roomy_def u64_id)

interpretation sdsb: byte_string sds_ok sdsstr sdslen "sdsempty A" "sdscatlen A" sdsrange for A
  by unfold_locales (simp_all add: sdsempty_ok sdscatlen_ok sdsrange_drop)

section \<open>Properties\<close>

text \<open>A type 8 string of length 2 and capacity 4, and the definitions that evaluate on it.\<close>

definition sds_ab :: sds where
  "sds_ab = \<lparr>flags = SDS_TYPE_8, hlen = 2, halloc = 4, buf = ''ab'' @ [NUL, CHR ''x'', CHR ''y'']\<rparr>"

lemmas sds_eval =
  sds_ab_def heap0_def malloc_def realloc_def mem_write_def NUL_def upt_rec Let_def
  sds_consts SDS_TYPE_5_LEN_def SDS_MAX_PREALLOC_def sdsHdrSize_def sdsReqType_def
  sdslen_def sdsalloc_def sdsavail_def sdssetlen_def sdssetalloc_def sds_init_header_def
  sds_ok_def sds_types_def sds_width_def sdsstr_def sdsMakeRoomFor_def

lemma sds_ab_ok: "sds_ok sds_ab" "sdslen sds_ab = 2" "sdsstr sds_ab = ''ab''"
  by (simp_all add: sds_eval)

text \<open>
  C10. Appending (sdscatlen) never writes outside the string's block, keeps it well-formed whatever
  header type it has or grows into, and appends exactly the given bytes, for every
  allocator and whatever it leaves in fresh memory.
\<close>

theorem sdscatlen_appends:
  assumes "sdscatlen A s t len = Some s'" "sds_ok s" "len \<le> length t" "sdslen s + len < 2 ^ 63"
  shows "sds_ok s' \<and> sdsstr s' = sdsstr s @ take len t"
  using assms by (rule sdscatlen_ok)

theorem sdscatlen_appends_witness:
  "\<exists>s'. sdscatlen heap0 sds_ab ''cdef'' 3 = Some s' \<and> sds_ok s' \<and> sdsstr s' = ''abcde''"
proof -
  obtain s' where "sdscatlen heap0 sds_ab ''cdef'' 3 = Some s'"
    by (simp add: sdscatlen_def sds_eval)
  then show ?thesis
    using sdscatlen_appends [of heap0 sds_ab "''cdef''" 3 s'] by (simp add: sds_ab_ok)
qed

text \<open>
  C11. The greedy growth of sdsMakeRoomFor keeps the contents and the invariant and
  provides the room that was asked for, changing to a wider header type when the new
  capacity needs it; it never returns a type 5 string when room was asked for.
\<close>

theorem sdsMakeRoomFor_provides:
  assumes "sdsMakeRoomFor A s addlen = Some s'" "sds_ok s" "sdslen s + addlen < 2 ^ 63"
  shows "sds_ok s' \<and> sdsstr s' = sdsstr s \<and> sdslen s' = sdslen s \<and> addlen \<le> sdsavail s'"
proof -
  note R = sdsMakeRoomFor_ok [OF assms]
  then have "addlen \<le> sdsavail s'"
    by (cases "addlen = 0") (auto simp: sdsavail_eq)
  then show ?thesis using R by simp
qed

theorem sdsMakeRoomFor_provides_witness:
  "\<exists>s'. sdsMakeRoomFor heap0 sds_ab 300 = Some s' \<and> sdsstr s' = ''ab'' \<and> 300 \<le> sdsavail s'"
proof -
  have "\<exists>s'. sdsMakeRoomFor heap0 sds_ab 300 = Some s'"
    by (simp add: sds_eval del: upt_rec)
  then show ?thesis
    using sdsMakeRoomFor_provides [of heap0 sds_ab 300] by (auto simp: sds_ab_ok)
qed

text \<open>
  sdsrange keeps the slice between two indices, negative ones counted from the end and
  both clipped to the string, in place and without touching memory outside its block.
\<close>

theorem sdsrange_slice:
  assumes "sds_ok s" "sdslen s < 2 ^ 31" "- (2 ^ 31) \<le> a" "a < 2 ^ 31" "- (2 ^ 31) \<le> b" "b < 2 ^ 31"
  shows "sds_ok (sdsrange s a b) \<and> length (buf (sdsrange s a b)) = length (buf s) \<and>
    sdsstr (sdsrange s a b) =
      drop (sds_index (sdslen s) a) (take (Suc (sds_index (sdslen s) b)) (sdsstr s))"
  using assms by (rule sdsrange_ok)

theorem sdsrange_slice_witness: "sdsstr (sdsrange sds_ab (- 1) 7) = ''b''"
  using sdsrange_slice [of sds_ab "- 1" 7] by (simp add: sds_ab_ok sds_index_def)

text \<open>
  sdstrim removes from both ends every byte of the C string \<open>cset\<close> and every NUL byte
  (strchr finds the terminator of \<open>cset\<close> too), and nothing in between.
\<close>

theorem sdstrim_trims:
  assumes "sds_ok s"
  shows "sds_ok (sdstrim s cset) \<and> length (buf (sdstrim s cset)) = length (buf s) \<and>
    sdsstr (sdstrim s cset) =
      rev (dropWhile (strchr_found cset) (rev (dropWhile (strchr_found cset) (sdsstr s))))"
  using assms by (rule sdstrim_ok)

theorem sdstrim_trims_witness: "sdsstr (sdstrim sds_ab ''xb'') = ''a''"
  using sdstrim_trims [of sds_ab "''xb''"]
  by (simp add: sds_ab_ok strchr_found_def cstring_def NUL_def)

text \<open>
  sdscmp is zero exactly on equal byte strings and negative exactly when the first is
  lexicographically smaller as unsigned bytes, a proper prefix being smaller, as long as the
  lengths fit an int.
\<close>

theorem sdscmp_order:
  assumes "sds_ok s" "sds_ok t" "sdslen s < 2 ^ 31" "sdslen t < 2 ^ 31"
  shows "(sdscmp s t = 0 \<longleftrightarrow> sdsstr s = sdsstr t) \<and>
    (sdscmp s t < 0 \<longleftrightarrow> (sdsstr s, sdsstr t) \<in> lexord byte_less)"
  using sdscmp_ok [OF assms] by blast

theorem sdscmp_order_witness: "sdscmp sds_ab sds_ab = 0"
  using sdscmp_order [of sds_ab sds_ab] by (simp add: sds_ab_ok)

end
