(* ===== verification/ReadTask.thy ===== *)
theory ReadTask
  imports Sds "HOL-Library.Monad_Syntax"
begin

text \<open>
  The interface between the protocol reader and whoever builds reply objects (read.h):
  read tasks, the table of reply object functions, and the contract \<open>reply_builder\<close> the
  reader relies on. A function of the table gets a pointer to a task inside the reader's
  stack, here the stack and an index, so that it can follow \<^verbatim>\<open>task->parent->obj\<close>; it
  returns \<open>None\<close> when it fails an assertion or leaves its memory, and otherwise the
  pointer it returns (0 for NULL) and the heap of type \<open>'h\<close> it works on.
\<close>

section \<open>Types of read.h\<close>

definition REDIS_REPLY_STRING :: int where "REDIS_REPLY_STRING = 1"
definition REDIS_REPLY_ARRAY :: int where "REDIS_REPLY_ARRAY = 2"
definition REDIS_REPLY_INTEGER :: int where "REDIS_REPLY_INTEGER = 3"
definition REDIS_REPLY_NIL :: int where "REDIS_REPLY_NIL = 4"
definition REDIS_REPLY_STATUS :: int where "REDIS_REPLY_STATUS = 5"
definition REDIS_REPLY_ERROR :: int where "REDIS_REPLY_ERROR = 6"

lemmas reply_types =
  REDIS_REPLY_STRING_def REDIS_REPLY_ARRAY_def REDIS_REPLY_INTEGER_def REDIS_REPLY_NIL_def
  REDIS_REPLY_STATUS_def REDIS_REPLY_ERROR_def

text \<open>\<open>t_parent\<close> is the index of the parent task in the stack, \<open>None\<close> for NULL.\<close>

record redisReadTask =
  t_type :: int
  t_elements :: int
  t_idx :: int
  t_obj :: ptr
  t_parent :: "nat option"
  t_privdata :: ptr

type_synonym rstack = "redisReadTask list"

text \<open>
  \<^verbatim>\<open>createString(task, str, len)\<close> gets the memory \<open>str\<close> points to. A component that is
  \<open>None\<close> is a NULL function pointer.
\<close>

record 'h redisReplyObjectFunctions =
  createString :: "(rstack \<Rightarrow> nat \<Rightarrow> char list \<Rightarrow> nat \<Rightarrow> 'h \<Rightarrow> (ptr \<times> 'h) option) option"
  createArray :: "(rstack \<Rightarrow> nat \<Rightarrow> int \<Rightarrow> 'h \<Rightarrow> (ptr \<times> 'h) option) option"
  createInteger :: "(rstack \<Rightarrow> nat \<Rightarrow> int \<Rightarrow> 'h \<Rightarrow> (ptr \<times> 'h) option) option"
  createNil :: "(rstack \<Rightarrow> nat \<Rightarrow> 'h \<Rightarrow> (ptr \<times> 'h) option) option"
  freeObject :: "(ptr \<Rightarrow> 'h \<Rightarrow> 'h option) option"

section \<open>Reply values and replies under construction\<close>

text \<open>
  What a reply says. \<open>RBadArray n\<close> is the array object the code makes for a multi bulk
  count below -1 whose conversion to \<^verbatim>\<open>int\<close> is \<open>n\<close>: no elements are read for it; when
  \<open>n\<close> is negative it has no element vector and \<open>n\<close> converted to \<^verbatim>\<open>size_t\<close> as its
  count, when \<open>n\<close> is positive a vector of NULL pointers.
\<close>

datatype rval =
    RString string
  | RStatus string
  | RError string
  | RInteger int
  | RNil
  | RArray "rval list"
  | RBadArray int

definition str_val :: "int \<Rightarrow> string \<Rightarrow> rval" where
  "str_val t s = (if t = REDIS_REPLY_STRING then RString s
                  else if t = REDIS_REPLY_STATUS then RStatus s else RError s)"

definition is_str_type :: "int \<Rightarrow> bool" where
  "is_str_type t = (t = REDIS_REPLY_STRING \<or> t = REDIS_REPLY_STATUS \<or> t = REDIS_REPLY_ERROR)"

text \<open>
  Arrays under construction, innermost first: the number of elements announced and the
  elements complete so far. \<open>add_item\<close> puts a finished value into the innermost one;
  \<open>complete\<close> also closes every array that has become full.
\<close>

type_synonym frames = "(nat \<times> rval list) list"

datatype build = Open frames | Done rval

fun add_item :: "rval \<Rightarrow> frames \<Rightarrow> build" where
  "add_item v [] = Done v"
| "add_item v ((n, vs) # fs) = Open ((n, vs @ [v]) # fs)"

fun complete :: "rval \<Rightarrow> frames \<Rightarrow> build" where
  "complete v [] = Done v"
| "complete v ((n, vs) # fs) =
     (if Suc (length vs) = n then complete (RArray (vs @ [v])) fs
      else Open ((n, vs @ [v]) # fs))"

text \<open>
  The stack matches the open arrays: their objects are at \<open>ps\<close>, and each task above
  the bottom one is the next element of the array of the task below it.
\<close>

fun tasks_ok :: "rstack \<Rightarrow> frames \<Rightarrow> ptr list \<Rightarrow> bool" where
  "tasks_ok st [] [] = (t_parent (st ! 0) = None)"
| "tasks_ok st ((n, vs) # fs) (p # ps) =
     (let i = length fs in
      t_type (st ! i) = REDIS_REPLY_ARRAY \<and> t_obj (st ! i) = p \<and> t_elements (st ! i) = int n \<and>
      length vs < n \<and> n < 2 ^ 31 \<and> t_idx (st ! Suc i) = int (length vs) \<and>
      t_parent (st ! Suc i) = Some i \<and> tasks_ok st fs ps)"
| "tasks_ok st _ _ = False"

section \<open>The contract of a table of reply object functions\<close>

text \<open>
  \<open>inv b h ps x\<close>: on top of the foreign part \<open>b\<close> of the heap, \<open>h\<close> holds exactly the reply
  \<open>x\<close>, whose open arrays (innermost first), or whose finished root, are at \<open>ps\<close>.
  \<open>yields\<close> is what a create function promises: NULL and the reply as it was, or a new
  object at \<open>p\<close>; and never NULL when there is memory.
\<close>

definition yields ::
    "('h \<Rightarrow> ptr list \<Rightarrow> build \<Rightarrow> bool) \<Rightarrow> ('h \<Rightarrow> bool) \<Rightarrow> 'h \<Rightarrow> ptr list \<Rightarrow> frames \<Rightarrow>
     (ptr \<Rightarrow> ptr list) \<Rightarrow> build \<Rightarrow> (ptr \<times> 'h) option \<Rightarrow> bool" where
  "yields I mem h ps fs qs x res \<longleftrightarrow>
     (\<exists>p h'. res = Some (p, h') \<and> (mem h \<longrightarrow> mem h' \<and> p \<noteq> NULL) \<and>
        (if p = NULL then I h' ps (Open fs) else I h' (qs p) x))"

text \<open>The addresses after a leaf was added: a leaf at the bottom of the stack is the root.\<close>

definition leaf_at :: "ptr list \<Rightarrow> ptr \<Rightarrow> ptr list" where
  "leaf_at ps p = (if ps = [] then [p] else ps)"

locale reply_builder =
  fixes cs :: "rstack \<Rightarrow> nat \<Rightarrow> char list \<Rightarrow> nat \<Rightarrow> 'h \<Rightarrow> (ptr \<times> 'h) option"
    and ca :: "rstack \<Rightarrow> nat \<Rightarrow> int \<Rightarrow> 'h \<Rightarrow> (ptr \<times> 'h) option"
    and ci :: "rstack \<Rightarrow> nat \<Rightarrow> int \<Rightarrow> 'h \<Rightarrow> (ptr \<times> 'h) option"
    and cn :: "rstack \<Rightarrow> nat \<Rightarrow> 'h \<Rightarrow> (ptr \<times> 'h) option"
    and fr :: "ptr \<Rightarrow> 'h \<Rightarrow> 'h option"
    and inv :: "'b \<Rightarrow> 'h \<Rightarrow> ptr list \<Rightarrow> build \<Rightarrow> bool"
    and mem :: "'h \<Rightarrow> bool"
  assumes string_ok: "inv b h ps (Open fs) \<Longrightarrow> tasks_ok st fs ps \<Longrightarrow> i = length fs \<Longrightarrow>
      is_str_type (t_type (st ! i)) \<Longrightarrow> n \<le> length s \<Longrightarrow> n < 2 ^ 63 \<Longrightarrow>
      yields (inv b) mem h ps fs (leaf_at ps) (add_item (str_val (t_type (st ! i)) (take n s)) fs)
        (cs st i s n h)"
    and integer_ok: "inv b h ps (Open fs) \<Longrightarrow> tasks_ok st fs ps \<Longrightarrow> i = length fs \<Longrightarrow>
      yields (inv b) mem h ps fs (leaf_at ps) (add_item (RInteger v) fs) (ci st i v h)"
    and nil_ok: "inv b h ps (Open fs) \<Longrightarrow> tasks_ok st fs ps \<Longrightarrow> i = length fs \<Longrightarrow>
      yields (inv b) mem h ps fs (leaf_at ps) (add_item RNil fs) (cn st i h)"
    and array_leaf_ok: "inv b h ps (Open fs) \<Longrightarrow> tasks_ok st fs ps \<Longrightarrow> i = length fs \<Longrightarrow>
      - (2 ^ 31) \<le> k \<Longrightarrow> k < 2 ^ 31 \<Longrightarrow>
      yields (inv b) mem h ps fs (leaf_at ps)
        (add_item (if k = 0 then RArray [] else RBadArray k) fs) (ca st i k h)"
    and array_ok: "inv b h ps (Open fs) \<Longrightarrow> tasks_ok st fs ps \<Longrightarrow> i = length fs \<Longrightarrow> 0 < n \<Longrightarrow>
      n < 2 ^ 31 \<Longrightarrow>
      yields (inv b) mem h ps fs (\<lambda>p. p # ps) (Open ((n, []) # fs)) (ca st i (int n) h)"
    and close_ok: "inv b h (p # ps) (Open ((n, vs) # fs)) \<Longrightarrow> length vs = n \<Longrightarrow>
      inv b h (leaf_at ps p) (add_item (RArray vs) fs)"
    and free_ok: "inv b h ps x \<Longrightarrow> ps \<noteq> [] \<Longrightarrow>
      \<exists>h'. fr (last ps) h = Some h' \<and> inv b h' [] (Open []) \<and> (mem h \<longrightarrow> mem h')"
    and roots_ok: "inv b h ps x \<Longrightarrow> NULL \<notin> set ps \<and> (ps = [] \<longleftrightarrow> x = Open [])"

end
