(* ===== verification/Reader.thy ===== *)
theory Reader
  imports ReadTask
begin

text \<open>
  The protocol reader of read.c: a buffer of unread bytes, a stack of at most nine read
  tasks and a table of reply object functions. Every function returns \<open>None\<close> where the C
  code fails an assertion or reads outside its buffer, so that a result \<open>Some\<close> says it
  does not. The pointers \<^verbatim>\<open>p\<close> and \<^verbatim>\<open>s\<close> into the buffer are offsets. Signed overflow in
  \<^verbatim>\<open>readLongLong\<close>, undefined in C, wraps here as it does on the supported targets.
\<close>

section \<open>The reader and its helpers\<close>

definition REDIS_READER_MAX_BUF :: nat where "REDIS_READER_MAX_BUF = 1024 * 16"

record 'h redisReader =
  r_err :: int
  r_errstr :: "char list"
  r_buf :: "sds option"
  r_pos :: nat
  r_len :: nat
  r_maxbuf :: nat
  r_rstack :: rstack
  r_ridx :: int
  r_reply :: ptr
  r_fn :: "'h redisReplyObjectFunctions option"
  r_privdata :: ptr

text \<open>The memory \<^verbatim>\<open>r->buf\<close> points to.\<close>

definition r_mem :: "'h redisReader \<Rightarrow> char list" where
  "r_mem r = (case r_buf r of None \<Rightarrow> [] | Some s \<Rightarrow> buf s)"

text \<open>\<^verbatim>\<open>r->fn && r->fn->f\<close>.\<close>

definition r_func :: "'h redisReader \<Rightarrow> ('h redisReplyObjectFunctions \<Rightarrow> 'f option) \<Rightarrow> 'f option" where
  "r_func r f = Option.bind (r_fn r) f"

definition redisReaderSetError ::
    "'h redisReader \<Rightarrow> 'h \<Rightarrow> int \<Rightarrow> string \<Rightarrow> ('h redisReader \<times> 'h) option" where
  "redisReaderSetError r h type str =
     do {
       (r, h) \<leftarrow> (case r_func r freeObject of
                    Some free \<Rightarrow>
                      if r_reply r \<noteq> NULL
                      then do { h \<leftarrow> free (r_reply r) h; Some (r\<lparr>r_reply := NULL\<rparr>, h) }
                      else Some (r, h)
                  | None \<Rightarrow> Some (r, h));
       let r = (if r_buf r \<noteq> None then r\<lparr>r_buf := None, r_pos := 0, r_len := 0\<rparr> else r);
       let r = r\<lparr>r_ridx := - 1, r_err := type\<rparr>;
       let len = (if length str < 127 then length str else 127);
       let errstr = mem_set1 len NUL (mem_write 0 (take len str) (r_errstr r));
       Some (r\<lparr>r_errstr := errstr\<rparr>, h)
     }"

definition hex_digit :: "nat \<Rightarrow> char" where
  "hex_digit d = (if d < 10 then char_of (48 + d) else char_of (87 + d))"

text \<open>\<^verbatim>\<open>"%02x"\<close> of an unsigned char.\<close>

definition hex02 :: "char \<Rightarrow> string" where
  "hex02 c = [hex_digit (of_char c div 16), hex_digit (of_char c mod 16)]"

definition chrtos :: "nat \<Rightarrow> char \<Rightarrow> string" where
  "chrtos sz byte =
     (let s = (if byte = CHR 0x5C \<or> byte = CHR 0x22 then [CHR 0x22, CHR 0x5C, byte, CHR 0x22]
               else if byte = LF then [CHR 0x22, CHR 0x5C, CHR ''n'', CHR 0x22]
               else if byte = CR then [CHR 0x22, CHR 0x5C, CHR ''r'', CHR 0x22]
               else if byte = CHR 0x09 then [CHR 0x22, CHR 0x5C, CHR ''t'', CHR 0x22]
               else if byte = CHR 0x07 then [CHR 0x22, CHR 0x5C, CHR ''a'', CHR 0x22]
               else if byte = CHR 0x08 then [CHR 0x22, CHR 0x5C, CHR ''b'', CHR 0x22]
               else if isprint byte then [CHR 0x22, byte, CHR 0x22]
               else [CHR 0x22, CHR 0x5C, CHR ''x''] @ hex02 byte @ [CHR 0x22])
      in take (sz - 1) s)"

definition redisReaderSetErrorProtocolByte ::
    "'h redisReader \<Rightarrow> 'h \<Rightarrow> char \<Rightarrow> ('h redisReader \<times> 'h) option" where
  "redisReaderSetErrorProtocolByte r h byte =
     (let cbuf = chrtos 8 byte;
          sbuf = take 127 (''Protocol error, got '' @ cbuf @ '' as reply type byte'')
      in redisReaderSetError r h REDIS_ERR_PROTOCOL sbuf)"

definition redisReaderSetErrorOOM ::
    "'h redisReader \<Rightarrow> 'h \<Rightarrow> ('h redisReader \<times> 'h) option" where
  "redisReaderSetErrorOOM r h = redisReaderSetError r h REDIS_ERR_OOM ''Out of memory''"

text \<open>\<^verbatim>\<open>r->len - r->pos\<close>, a \<^verbatim>\<open>size_t\<close>.\<close>

definition r_left :: "'h redisReader \<Rightarrow> nat" where
  "r_left r = to_size (int (r_len r) - int (r_pos r))"

definition readBytes :: "'h redisReader \<Rightarrow> nat \<Rightarrow> nat option \<times> 'h redisReader" where
  "readBytes r bytes =
     (if r_left r \<ge> bytes then (Some (r_pos r), r\<lparr>r_pos := u64 (r_pos r + bytes)\<rparr>) else (None, r))"

text \<open>
  \<^verbatim>\<open>seekNewline\<close>: the inner loop moves to the next CR, the outer one tests the byte after
  it. \<open>n\<close> is the \<^verbatim>\<open>int\<close> variable \<^verbatim>\<open>_len\<close>, 0 when that is negative.
\<close>

function seek_cr :: "char list \<Rightarrow> nat \<Rightarrow> nat \<Rightarrow> nat" where
  "seek_cr s n pos = (if pos < n \<and> s ! pos \<noteq> CR then seek_cr s n (Suc pos) else pos)"
  by pat_completeness auto
termination
  by (relation "measure (\<lambda>(s, n, pos). n - pos)") auto

declare seek_cr.simps [simp del]

lemma seek_cr_ge: "pos \<le> seek_cr s n pos"
  by (induction s n pos rule: seek_cr.induct) (subst seek_cr.simps, auto)

function seek_crlf :: "char list \<Rightarrow> nat \<Rightarrow> nat \<Rightarrow> nat option" where
  "seek_crlf s n pos =
     (if pos < n
      then (let pos = seek_cr s n pos
            in if pos = n then None
               else if s ! (pos + 1) = LF then Some pos
               else seek_crlf s n (pos + 1))
      else None)"
  by pat_completeness auto
termination
proof (relation "measure (\<lambda>(s, n, pos). n - pos)")
  fix s n pos x
  assume "pos < n" "x = seek_cr s n pos"
  then show "((s, n, x + 1), s, n, pos) \<in> measure (\<lambda>(s, n, pos). n - pos)"
    using seek_cr_ge [of pos s n] by simp
qed simp

declare seek_crlf.simps [simp del]

definition seekNewline :: "char list \<Rightarrow> nat \<Rightarrow> nat option" where
  "seekNewline s len = (let len' = s32 (int len - 1) in seek_crlf s (nat len') 0)"

text \<open>\<^verbatim>\<open>readLongLong\<close>; it reads to the next CR and faults if there is none.\<close>

fun read_digits :: "char list \<Rightarrow> int \<Rightarrow> int \<Rightarrow> int option" where
  "read_digits [] mult v = None"
| "read_digits (c # s) mult v =
     (if c = CR then Some (s64 (mult * v))
      else (let dec = chr_val c - 48 in
            if dec \<ge> 0 \<and> dec < 10 then read_digits s mult (s64 (s64 (v * 10) + dec))
            else Some (- 1)))"

definition readLongLong :: "char list \<Rightarrow> int option" where
  "readLongLong s =
     (case s of
        [] \<Rightarrow> None
      | c # s' \<Rightarrow>
          if c = CHR ''-'' then read_digits s' (- 1) 0
          else if c = CHR ''+'' then read_digits s' 1 0
          else read_digits s 1 0)"

definition readLine :: "'h redisReader \<Rightarrow> (nat \<times> int) option \<times> 'h redisReader" where
  "readLine r =
     (let p = r_pos r in
      case seekNewline (drop p (r_mem r)) (r_left r) of
        Some s \<Rightarrow>
          (let len = s32 (int s)
           in (Some (p, len), r\<lparr>r_pos := to_size (int (r_pos r) + len + 2)\<rparr>))
      | None \<Rightarrow> (None, r))"

section \<open>Items\<close>

function moveToNextTask :: "'h redisReader \<Rightarrow> 'h redisReader option" where
  "moveToNextTask r =
     (if r_ridx r \<ge> 0
      then if r_ridx r = 0 then Some (r\<lparr>r_ridx := r_ridx r - 1\<rparr>)
      else
        (let cur = r_rstack r ! nat (r_ridx r);
             prv = r_rstack r ! nat (r_ridx r - 1)
         in if t_type prv \<noteq> REDIS_REPLY_ARRAY then None
            else if t_idx cur = s32 (t_elements prv - 1)
            then moveToNextTask (r\<lparr>r_ridx := r_ridx r - 1\<rparr>)
            else if \<not> t_idx cur < t_elements prv then None
            else
              (let cur = cur\<lparr>t_type := - 1, t_elements := - 1, t_idx := s32 (t_idx cur + 1)\<rparr>
               in Some (r\<lparr>r_rstack := (r_rstack r)[nat (r_ridx r) := cur]\<rparr>)))
      else Some r)"
  by pat_completeness auto
termination
  by (relation "measure (\<lambda>r. nat (r_ridx r + 1))") auto

declare moveToNextTask.simps [simp del]

definition processLineItem :: "'h redisReader \<Rightarrow> 'h \<Rightarrow> (int \<times> 'h redisReader \<times> 'h) option" where
  "processLineItem r h =
     (let i = nat (r_ridx r); cur = r_rstack r ! i in
      case readLine r of
        (Some (p, len), r) \<Rightarrow>
          do {
            (obj, h) \<leftarrow>
              (if t_type cur = REDIS_REPLY_INTEGER
               then (case r_func r createInteger of
                       Some create \<Rightarrow>
                         do { v \<leftarrow> readLongLong (drop p (r_mem r)); create (r_rstack r) i v h }
                     | None \<Rightarrow> Some (nat REDIS_REPLY_INTEGER, h))
               else (case r_func r createString of
                       Some create \<Rightarrow>
                         create (r_rstack r) i (drop p (r_mem r)) (to_size len) h
                     | None \<Rightarrow> Some (to_size (t_type cur), h)));
            if obj = NULL
            then do { (r, h) \<leftarrow> redisReaderSetErrorOOM r h; Some (REDIS_ERR, r, h) }
            else do {
              let r = (if r_ridx r = 0 then r\<lparr>r_reply := obj\<rparr> else r);
              r \<leftarrow> moveToNextTask r;
              Some (REDIS_OK, r, h)
            }
          }
      | (None, r) \<Rightarrow> Some (REDIS_ERR, r, h))"

definition processBulkItem :: "'h redisReader \<Rightarrow> 'h \<Rightarrow> (int \<times> 'h redisReader \<times> 'h) option" where
  "processBulkItem r h =
     (let i = nat (r_ridx r); cur = r_rstack r ! i; p = r_pos r in
      case seekNewline (drop p (r_mem r)) (r_left r) of
        Some s \<Rightarrow>
          do {
            let bytelen = u64 (s + 2);
            len \<leftarrow> readLongLong (drop p (r_mem r));
            (success, obj, bytelen, h) \<leftarrow>
              (if len < 0
               then (case r_func r createNil of
                       Some create \<Rightarrow>
                         do { (obj, h) \<leftarrow> create (r_rstack r) i h; Some (True, obj, bytelen, h) }
                     | None \<Rightarrow> Some (True, nat REDIS_REPLY_NIL, bytelen, h))
               else do {
                 let bytelen = to_size (int bytelen + s64 (len + 2));
                 if u64 (r_pos r + bytelen) \<le> r_len r
                 then (case r_func r createString of
                         Some create \<Rightarrow>
                           do { (obj, h) \<leftarrow>
                                  create (r_rstack r) i (drop (p + s + 2) (r_mem r)) (nat len) h;
                                Some (True, obj, bytelen, h) }
                       | None \<Rightarrow> Some (True, nat REDIS_REPLY_STRING, bytelen, h))
                 else Some (False, NULL, bytelen, h)
               });
            if success
            then if obj = NULL
                 then do { (r, h) \<leftarrow> redisReaderSetErrorOOM r h; Some (REDIS_ERR, r, h) }
                 else do {
                   let r = r\<lparr>r_pos := u64 (r_pos r + bytelen)\<rparr>;
                   let r = (if r_ridx r = 0 then r\<lparr>r_reply := obj\<rparr> else r);
                   r \<leftarrow> moveToNextTask r;
                   Some (REDIS_OK, r, h)
                 }
            else Some (REDIS_ERR, r, h)
          }
      | None \<Rightarrow> Some (REDIS_ERR, r, h))"

definition push_task :: "'h redisReader \<Rightarrow> int \<Rightarrow> ptr \<Rightarrow> 'h redisReader" where
  "push_task r elements obj =
     (let i = nat (r_ridx r);
          cur = (r_rstack r ! i)\<lparr>t_elements := s32 elements, t_obj := obj\<rparr>;
          new = (r_rstack r ! Suc i)\<lparr>t_type := - 1, t_elements := - 1, t_idx := 0, t_obj := NULL,
                   t_parent := Some i, t_privdata := r_privdata r\<rparr>
      in r\<lparr>r_rstack := (r_rstack r)[i := cur, Suc i := new], r_ridx := r_ridx r + 1\<rparr>)"

definition processMultiBulkItem ::
    "'h redisReader \<Rightarrow> 'h \<Rightarrow> (int \<times> 'h redisReader \<times> 'h) option" where
  "processMultiBulkItem r h =
     (let i = nat (r_ridx r) in
      if r_ridx r = 8
      then do { (r, h) \<leftarrow> redisReaderSetError r h REDIS_ERR_PROTOCOL
                  ''No support for nested multi bulk replies with depth > 7'';
                Some (REDIS_ERR, r, h) }
      else
        (case readLine r of
           (Some (p, _), r) \<Rightarrow>
             do {
               elements \<leftarrow> readLongLong (drop p (r_mem r));
               let root = (r_ridx r = 0);
               if elements = - 1
               then do {
                 (obj, h) \<leftarrow> (case r_func r createNil of
                                Some create \<Rightarrow> create (r_rstack r) i h
                              | None \<Rightarrow> Some (nat REDIS_REPLY_NIL, h));
                 if obj = NULL
                 then do { (r, h) \<leftarrow> redisReaderSetErrorOOM r h; Some (REDIS_ERR, r, h) }
                 else do {
                   r \<leftarrow> moveToNextTask r;
                   Some (REDIS_OK, if root then r\<lparr>r_reply := obj\<rparr> else r, h)
                 }
               }
               else do {
                 (obj, h) \<leftarrow> (case r_func r createArray of
                                Some create \<Rightarrow> create (r_rstack r) i (s32 elements) h
                              | None \<Rightarrow> Some (nat REDIS_REPLY_ARRAY, h));
                 if obj = NULL
                 then do { (r, h) \<leftarrow> redisReaderSetErrorOOM r h; Some (REDIS_ERR, r, h) }
                 else do {
                   r \<leftarrow> (if elements > 0 then Some (push_task r elements obj)
                         else moveToNextTask r);
                   Some (REDIS_OK, if root then r\<lparr>r_reply := obj\<rparr> else r, h)
                 }
               }
             }
         | (None, r) \<Rightarrow> Some (REDIS_ERR, r, h)))"

definition item_type :: "char \<Rightarrow> int option" where
  "item_type c =
     (if c = CHR ''-'' then Some REDIS_REPLY_ERROR
      else if c = CHR ''+'' then Some REDIS_REPLY_STATUS
      else if c = CHR '':'' then Some REDIS_REPLY_INTEGER
      else if c = CHR ''$'' then Some REDIS_REPLY_STRING
      else if c = CHR ''*'' then Some REDIS_REPLY_ARRAY
      else None)"

definition set_type :: "'h redisReader \<Rightarrow> int \<Rightarrow> 'h redisReader" where
  "set_type r t =
     (let i = nat (r_ridx r)
      in r\<lparr>r_rstack := (r_rstack r)[i := (r_rstack r ! i)\<lparr>t_type := t\<rparr>]\<rparr>)"

text \<open>The switch on \<^verbatim>\<open>cur->type\<close> at the end of \<^verbatim>\<open>processItem\<close>.\<close>

definition processTyped :: "'h redisReader \<Rightarrow> 'h \<Rightarrow> (int \<times> 'h redisReader \<times> 'h) option" where
  "processTyped r h =
     (let t = t_type (r_rstack r ! nat (r_ridx r)) in
      if t = REDIS_REPLY_ERROR \<or> t = REDIS_REPLY_STATUS \<or> t = REDIS_REPLY_INTEGER
      then processLineItem r h
      else if t = REDIS_REPLY_STRING then processBulkItem r h
      else if t = REDIS_REPLY_ARRAY then processMultiBulkItem r h
      else None)"

definition processItem :: "'h redisReader \<Rightarrow> 'h \<Rightarrow> (int \<times> 'h redisReader \<times> 'h) option" where
  "processItem r h =
     (if t_type (r_rstack r ! nat (r_ridx r)) < 0
      then (case readBytes r 1 of
              (Some p, r) \<Rightarrow>
                (case item_type (r_mem r ! p) of
                   Some t \<Rightarrow> processTyped (set_type r t) h
                 | None \<Rightarrow>
                     do { (r, h) \<leftarrow> redisReaderSetErrorProtocolByte r h (r_mem r ! p);
                          Some (REDIS_ERR, r, h) })
            | (None, r) \<Rightarrow> Some (REDIS_ERR, r, h))
      else processTyped r h)"

section \<open>The public functions\<close>

text \<open>\<^verbatim>\<open>sizeof(redisReader)\<close> on a 64-bit target.\<close>

definition sizeof_redisReader :: nat where "sizeof_redisReader = 560"

definition zero_task :: redisReadTask where
  "zero_task = \<lparr>t_type = 0, t_elements = 0, t_idx = 0, t_obj = NULL, t_parent = None,
                t_privdata = NULL\<rparr>"

definition redisReaderCreateWithFunctions ::
    "allocator \<Rightarrow> 'h redisReplyObjectFunctions option \<Rightarrow> 'h redisReader option" where
  "redisReaderCreateWithFunctions A fn =
     do {
       _ \<leftarrow> malloc A sizeof_redisReader;
       b \<leftarrow> sdsempty A;
       Some \<lparr>r_err = 0, r_errstr = replicate 128 NUL, r_buf = Some b, r_pos = 0, r_len = 0,
             r_maxbuf = REDIS_READER_MAX_BUF, r_rstack = replicate 9 zero_task, r_ridx = - 1,
             r_reply = NULL, r_fn = fn, r_privdata = NULL\<rparr>
     }"

definition redisReaderFree :: "'h redisReader \<Rightarrow> 'h \<Rightarrow> 'h option" where
  "redisReaderFree r h =
     (case r_func r freeObject of
        Some free \<Rightarrow> if r_reply r \<noteq> NULL then free (r_reply r) h else Some h
      | None \<Rightarrow> Some h)"

text \<open>\<open>data\<close> is \<open>None\<close> for a NULL pointer.\<close>

definition redisReaderFeed ::
    "allocator \<Rightarrow> 'h redisReader \<Rightarrow> 'h \<Rightarrow> char list option \<Rightarrow> nat \<Rightarrow>
     (int \<times> 'h redisReader \<times> 'h) option" where
  "redisReaderFeed A r h data len =
     (if r_err r \<noteq> 0 then Some (REDIS_ERR, r, h)
      else
        (case data of
           Some d \<Rightarrow>
             if len \<ge> 1
             then do {
               b \<leftarrow> r_buf r;
               (r, b) \<leftarrow> (if r_len r = 0 \<and> r_maxbuf r \<noteq> 0 \<and> sdsavail b > r_maxbuf r
                         then do { b \<leftarrow> sdsempty A; Some (r\<lparr>r_buf := Some b, r_pos := 0\<rparr>, b) }
                         else Some (r, b));
               (case sdscatlen A b d len of
                  None \<Rightarrow>
                    do { (r, h) \<leftarrow> redisReaderSetErrorOOM r h; Some (REDIS_ERR, r, h) }
                | Some newbuf \<Rightarrow>
                    Some (REDIS_OK, r\<lparr>r_buf := Some newbuf, r_len := sdslen newbuf\<rparr>, h))
             }
             else Some (REDIS_OK, r, h)
         | None \<Rightarrow> Some (REDIS_OK, r, h)))"

partial_function (option) process_items ::
    "'h redisReader \<Rightarrow> 'h \<Rightarrow> ('h redisReader \<times> 'h) option" where
  "process_items r h =
     (if r_ridx r \<ge> 0
      then do {
        (status, r, h) \<leftarrow> processItem r h;
        if status = REDIS_OK then process_items r h else Some (r, h)
      }
      else Some (r, h))"

definition start_task :: "'h redisReader \<Rightarrow> 'h redisReader" where
  "start_task r =
     r\<lparr>r_rstack := (r_rstack r)[0 := (r_rstack r ! 0)\<lparr>t_type := - 1, t_elements := - 1,
         t_idx := - 1, t_obj := NULL, t_parent := None, t_privdata := r_privdata r\<rparr>],
       r_ridx := 0\<rparr>"

definition discard_read :: "'h redisReader \<Rightarrow> 'h redisReader option" where
  "discard_read r =
     (if r_pos r \<ge> 1024
      then do { b \<leftarrow> r_buf r;
                let b = sdsrange b (s32 (int (r_pos r))) (- 1);
                Some (r\<lparr>r_buf := Some b, r_pos := 0, r_len := sdslen b\<rparr>) }
      else Some r)"

text \<open>The result is the return code, the reply stored through the argument, and the state.\<close>

definition redisReaderGetReply ::
    "'h redisReader \<Rightarrow> 'h \<Rightarrow> (int \<times> ptr \<times> 'h redisReader \<times> 'h) option" where
  "redisReaderGetReply r h =
     (if r_err r \<noteq> 0 then Some (REDIS_ERR, NULL, r, h)
      else if r_len r = 0 then Some (REDIS_OK, NULL, r, h)
      else do {
        let r = (if r_ridx r = - 1 then start_task r else r);
        (r, h) \<leftarrow> process_items r h;
        if r_err r \<noteq> 0 then Some (REDIS_ERR, NULL, r, h)
        else do {
          r \<leftarrow> discard_read r;
          if r_ridx r = - 1 then Some (REDIS_OK, r_reply r, r\<lparr>r_reply := NULL\<rparr>, h)
          else Some (REDIS_OK, NULL, r, h)
        }
      })"

end
