(* ===== verification/ReaderSpec.thy ===== *)
theory ReaderSpec
  imports Reader
begin

text \<open>
  A reference parser for the reply protocol and the lemmas on the scanning helpers of
  read.c. The reference works on the list of unread bytes, the arrays under
  construction and the type of the current item (-1 until its first byte is read):
  \<open>lex_item\<close> takes one item off the input, \<open>spec_item\<close> is one call of \<^verbatim>\<open>processItem\<close>,
  \<open>spec_run\<close> the loop. \<open>Crashed\<close> marks the one input the C code does not survive: a
  multi bulk count whose conversion to \<^verbatim>\<open>int\<close> is not positive although it is.
\<close>

section \<open>Scanning\<close>

fun find_crlf :: "char list \<Rightarrow> nat option" where
  "find_crlf (x # y # s) =
     (if x = CR \<and> y = LF then Some 0 else map_option Suc (find_crlf (y # s)))"
| "find_crlf _ = None"

lemma find_crlf_append: "find_crlf xs = Some i \<Longrightarrow> find_crlf (xs @ ys) = Some i"
  by (induction xs arbitrary: i rule: find_crlf.induct) auto

lemma find_crlf_SomeD: "find_crlf xs = Some i \<Longrightarrow> i + 2 \<le> length xs \<and> xs ! i = CR"
  by (induction xs arbitrary: i rule: find_crlf.induct) (fastforce split: if_splits)+

lemma find_crlf_line: "CR \<notin> set s \<Longrightarrow> find_crlf (s @ CRLF @ ys) = Some (length s)"
proof (induction s)
  case (Cons x s)
  then show ?case by (cases s) auto
qed simp

lemma seek_crlf_step:
  "seek_crlf s n pos =
     (if pos < n then if s ! pos = CR \<and> s ! Suc pos = LF then Some pos else seek_crlf s n (Suc pos)
      else None)"
proof (cases "pos < n \<and> s ! pos \<noteq> CR")
  case True
  then have "seek_cr s n pos = seek_cr s n (Suc pos)" by (subst seek_cr.simps) simp
  moreover have "\<not> Suc pos < n \<Longrightarrow> seek_cr s n (Suc pos) = n"
    using True by (subst seek_cr.simps) simp
  ultimately show ?thesis
    using True seek_crlf.simps [of s n pos] seek_crlf.simps [of s n "Suc pos"] by (auto simp: Let_def)
next
  case False
  then have "pos < n \<Longrightarrow> seek_cr s n pos = pos" by (subst seek_cr.simps) simp
  then show ?thesis using False by (subst seek_crlf.simps) (auto simp: Let_def)
qed

lemma seek_crlf_find:
  "n < length s \<Longrightarrow> pos \<le> n \<Longrightarrow>
    seek_crlf s n pos = map_option (\<lambda>i. pos + i) (find_crlf (drop pos (take (Suc n) s)))"
proof (induction "n - pos" arbitrary: pos)
  case 0
  then have "drop pos (take (Suc n) s) = [s ! n]"
    by (simp add: take_Suc_conv_app_nth)
  then show ?case using 0 by (subst seek_crlf_step) simp
next
  case (Suc d)
  then have p: "pos < n" by simp
  let ?t = "take (Suc n) s"
  have "drop pos ?t = s ! pos # drop (Suc pos) ?t"
    using p Suc.prems Cons_nth_drop_Suc [of pos ?t] by simp
  moreover have "drop (Suc pos) ?t = s ! Suc pos # drop (Suc (Suc pos)) ?t"
    using p Suc.prems Cons_nth_drop_Suc [of "Suc pos" ?t] by simp
  moreover have "seek_crlf s n (Suc pos) = map_option (\<lambda>i. Suc pos + i) (find_crlf (drop (Suc pos) ?t))"
    by (rule Suc.hyps(1)) (use Suc.hyps(2) Suc.prems p in simp_all)
  moreover have "map_option (\<lambda>i. Suc pos + i) x = map_option (\<lambda>i. pos + i) (map_option Suc x)" for x
    by (cases x) simp_all
  ultimately show ?case
    using p by (subst seek_crlf_step) (auto simp del: option.map_comp)
qed

lemma seekNewline_find:
  assumes "n \<le> length s" "n < 2 ^ 31"
  shows "seekNewline s n = find_crlf (take n s)"
proof (cases n)
  case 0
  then show ?thesis by (simp add: seekNewline_def seek_crlf.simps)
next
  case (Suc m)
  then have "s32 (int n - 1) = int m" using assms s32_pred_of_nat [of n] by simp
  then show ?thesis
    using Suc assms seek_crlf_find [of m s 0] by (simp add: seekNewline_def option.map_ident)
qed

lemma read_digits_append: "CR \<in> set xs \<Longrightarrow> read_digits (xs @ ys) m v = read_digits xs m v"
  by (induction xs arbitrary: v) (auto simp: Let_def)

lemma read_digits_total: "CR \<in> set xs \<Longrightarrow> \<exists>n. read_digits xs m v = Some n"
  by (induction xs arbitrary: v) (auto simp: Let_def)

lemma CR_signs [simp]: "CR \<noteq> CHR ''-''" "CR \<noteq> CHR ''+''"
  by (simp_all add: CR_def)

lemma readLongLong_Cons:
  "readLongLong (c # s) = read_digits (if c = CHR ''-'' \<or> c = CHR ''+'' then s else c # s)
     (if c = CHR ''-'' then - 1 else 1) 0"
  by (simp add: readLongLong_def del: read_digits.simps)

lemma readLongLong_append: "CR \<in> set xs \<Longrightarrow> readLongLong (xs @ ys) = readLongLong xs"
proof (cases xs)
  case (Cons c s)
  assume "CR \<in> set xs"
  then show ?thesis
    using Cons read_digits_append [of s ys] read_digits_append [of "c # s" ys]
    by (auto simp: readLongLong_Cons simp del: read_digits.simps)
qed simp

lemma readLongLong_total: "CR \<in> set xs \<Longrightarrow> \<exists>n. readLongLong xs = Some n"
  by (cases xs) (auto simp: readLongLong_Cons simp del: read_digits.simps intro!: read_digits_total)

lemma s64_range: "- (2 ^ 63) \<le> s64 x" "s64 x < 2 ^ 63"
  using signed_take_bit_int_greater_eq_minus_exp [of 63 x] signed_take_bit_int_less_exp [of 63 x]
  by simp_all

lemma read_digits_range: "read_digits xs m v = Some n \<Longrightarrow> - (2 ^ 63) \<le> n \<and> n < 2 ^ 63"
proof (induction xs arbitrary: v)
  case (Cons c xs)
  then show ?case using s64_range [of "m * v"] by (auto simp: Let_def split: if_splits)
qed simp

lemma readLongLong_range: "readLongLong xs = Some n \<Longrightarrow> - (2 ^ 63) \<le> n \<and> n < 2 ^ 63"
  by (cases xs) (simp add: readLongLong_def, simp only: readLongLong_Cons, rule read_digits_range)

section \<open>The reference parser\<close>

definition number :: "char list \<Rightarrow> int" where
  "number xs = (case readLongLong xs of Some n \<Rightarrow> n | None \<Rightarrow> - 1)"

datatype item = Leaf rval nat | Begin nat nat | More | Overflow

text \<open>
  The item of type \<open>ty\<close> at the start of the input, with the number of bytes it takes;
  \<open>Begin n\<close> is the header of an array of \<open>n > 0\<close> elements.
\<close>

definition lex_item :: "int \<Rightarrow> char list \<Rightarrow> item" where
  "lex_item ty xs =
     (case find_crlf xs of
        None \<Rightarrow> More
      | Some i \<Rightarrow>
          let n = number xs in
          if ty = REDIS_REPLY_INTEGER then Leaf (RInteger n) (i + 2)
          else if ty = REDIS_REPLY_STRING
          then if n < 0 then Leaf RNil (i + 2)
               else if i + 2 + nat n + 2 \<le> length xs
               then Leaf (RString (take (nat n) (drop (i + 2) xs))) (i + 2 + nat n + 2)
               else More
          else if ty = REDIS_REPLY_ARRAY
          then if n = - 1 then Leaf RNil (i + 2)
               else if n > 0
               then if s32 n > 0 then Begin (nat (s32 n)) (i + 2) else Overflow
               else Leaf (if s32 n = 0 then RArray [] else RBadArray (s32 n)) (i + 2)
          else Leaf (str_val ty (take i xs)) (i + 2))"

text \<open>
  The outcome of one item or of the whole loop: go on, wait for more input, a reply and
  the bytes after it, an error code, or a crash.
\<close>

datatype progress =
    Next frames "char list"
  | Wait frames int "char list"
  | Finished rval "char list"
  | Failed int
  | Crashed

definition spec_typed :: "frames \<Rightarrow> int \<Rightarrow> char list \<Rightarrow> progress" where
  "spec_typed fs ty xs =
     (if ty = REDIS_REPLY_ARRAY \<and> length fs = 8 then Failed REDIS_ERR_PROTOCOL
      else case lex_item ty xs of
             More \<Rightarrow> Wait fs ty xs
           | Overflow \<Rightarrow> Crashed
           | Begin n k \<Rightarrow> Next ((n, []) # fs) (drop k xs)
           | Leaf v k \<Rightarrow>
               (case complete v fs of
                  Done w \<Rightarrow> Finished w (drop k xs)
                | Open fs' \<Rightarrow> Next fs' (drop k xs)))"

definition spec_item :: "frames \<Rightarrow> int \<Rightarrow> char list \<Rightarrow> progress" where
  "spec_item fs ty xs =
     (if ty < 0
      then (case xs of
              [] \<Rightarrow> Wait fs ty xs
            | c # xs' \<Rightarrow>
                (case item_type c of
                   Some t \<Rightarrow> spec_typed fs t xs'
                 | None \<Rightarrow> Failed REDIS_ERR_PROTOCOL))
      else spec_typed fs ty xs)"

lemma lex_consumes:
  "lex_item ty xs = Leaf v k \<Longrightarrow> 2 \<le> k \<and> k \<le> length xs"
  "lex_item ty xs = Begin n k \<Longrightarrow> 2 \<le> k \<and> k \<le> length xs"
  by (auto simp: lex_item_def Let_def split: option.splits if_splits dest!: find_crlf_SomeD)

lemma spec_typed_consumes: "spec_typed fs ty xs = Next fs' xs' \<Longrightarrow> length xs' < length xs"
  by (auto simp: spec_typed_def split: if_splits item.splits build.splits dest!: lex_consumes)

lemma spec_item_consumes: "spec_item fs ty xs = Next fs' xs' \<Longrightarrow> length xs' < length xs"
  by (auto simp: spec_item_def split: if_splits list.splits option.splits dest!: spec_typed_consumes)

function spec_run :: "frames \<Rightarrow> int \<Rightarrow> char list \<Rightarrow> progress" where
  "spec_run fs ty xs =
     (case spec_item fs ty xs of Next fs' xs' \<Rightarrow> spec_run fs' (- 1) xs' | p \<Rightarrow> p)"
  by pat_completeness auto
termination
  by (relation "measure (\<lambda>(fs, ty, xs). length xs)") (auto dest: spec_item_consumes)

declare spec_run.simps [simp del]

section \<open>Input in pieces\<close>

lemma CR_in_set: "find_crlf xs = Some i \<Longrightarrow> CR \<in> set xs"
  using find_crlf_SomeD [of xs i] by (metis Suc_leD add_2_eq_Suc' less_eq_Suc_le nth_mem)

lemma number_append: "find_crlf xs = Some i \<Longrightarrow> number (xs @ ys) = number xs"
  by (simp add: number_def readLongLong_append CR_in_set)

lemma lex_append: "lex_item ty xs \<noteq> More \<Longrightarrow> lex_item ty (xs @ ys) = lex_item ty xs"
proof (cases "find_crlf xs")
  case (Some i)
  assume "lex_item ty xs \<noteq> More"
  moreover have "i + 2 \<le> length xs" using find_crlf_SomeD [OF Some] by simp
  ultimately show ?thesis
    using Some find_crlf_append [OF Some] number_append [OF Some]
    by (auto simp: lex_item_def Let_def split: if_splits)
qed (simp add: lex_item_def)

text \<open>What input that arrives later does to an outcome: it only matters to one that waits.\<close>

fun more_input :: "char list \<Rightarrow> progress \<Rightarrow> (frames \<Rightarrow> int \<Rightarrow> char list \<Rightarrow> progress) \<Rightarrow> progress" where
  "more_input ys (Next fs xs) f = Next fs (xs @ ys)"
| "more_input ys (Wait fs ty xs) f = f fs ty (xs @ ys)"
| "more_input ys (Finished v xs) f = Finished v (xs @ ys)"
| "more_input ys (Failed e) f = Failed e"
| "more_input ys Crashed f = Crashed"

lemma spec_typed_append:
  "spec_typed fs ty (xs @ ys) = more_input ys (spec_typed fs ty xs) spec_typed"
proof (cases "lex_item ty xs")
  case (Leaf v k)
  then show ?thesis using lex_append [of ty xs ys] lex_consumes(1) [OF Leaf]
    by (auto simp: spec_typed_def split: build.splits)
next
  case (Begin n k)
  then show ?thesis using lex_append [of ty xs ys] lex_consumes(2) [OF Begin]
    by (auto simp: spec_typed_def)
next
  case More
  then show ?thesis by (simp add: spec_typed_def)
next
  case Overflow
  then show ?thesis using lex_append [of ty xs ys] by (simp add: spec_typed_def)
qed

lemma item_type_nonneg: "item_type c = Some t \<Longrightarrow> 0 \<le> t"
  by (auto simp: item_type_def reply_types split: if_splits)

lemma spec_typed_Wait: "spec_typed fs ty xs = Wait fs' ty' xs' \<Longrightarrow> fs' = fs \<and> ty' = ty \<and> xs' = xs"
  by (auto simp: spec_typed_def split: if_splits item.splits build.splits)

lemma spec_item_append:
  "spec_item fs ty (xs @ ys) = more_input ys (spec_item fs ty xs) spec_item"
proof (cases "0 \<le> ty")
  case True
  then show ?thesis
    by (cases "spec_typed fs ty xs")
      (auto simp: spec_item_def spec_typed_append dest: spec_typed_Wait)
next
  case False
  show ?thesis
  proof (cases xs)
    case (Cons c xs')
    show ?thesis
    proof (cases "item_type c")
      case (Some t)
      then show ?thesis using False Cons item_type_nonneg [OF Some]
        by (cases "spec_typed fs t xs'")
          (auto simp: spec_item_def spec_typed_append dest: spec_typed_Wait)
    qed (use False Cons in \<open>simp add: spec_item_def\<close>)
  qed (use False in \<open>simp add: spec_item_def\<close>)
qed

lemma spec_run_append:
  "spec_run fs ty (xs @ ys) = more_input ys (spec_run fs ty xs) spec_run"
proof (induction fs ty xs rule: spec_run.induct)
  case (1 fs ty xs)
  show ?case
  proof (cases "spec_item fs ty xs")
    case (Next fs' xs')
    then show ?thesis
      using 1 [OF Next] by (simp add: spec_run.simps [of fs ty] spec_item_append)
  next
    case (Wait fs' ty' xs')
    then show ?thesis
      by (simp add: spec_run.simps [of fs ty] spec_item_append) (simp add: spec_run.simps spec_item_append)
  qed (simp_all add: spec_run.simps [of fs ty] spec_item_append)
qed

lemma spec_run_not_Next: "spec_run fs ty xs \<noteq> Next fs' xs'"
proof (induction fs ty xs rule: spec_run.induct)
  case (1 fs ty xs)
  then show ?case by (cases "spec_item fs ty xs") (simp_all add: spec_run.simps [of fs ty])
qed

section \<open>Reading back an encoded reply\<close>

lemma read_digits_decimal:
  "n < 2 ^ 63 \<Longrightarrow> read_digits (decimal n @ s) m 0 = read_digits s m (int n)"
proof (induction n arbitrary: s rule: decimal.induct)
  case (1 n)
  show ?case
  proof (cases "n < 10")
    case True
    then show ?thesis using "1.prems" by (simp add: decimal.simps [of n] s64_id)
  next
    case False
    have "int (n div 10) * 10 + int (n mod 10) = int n"
      by (metis div_mult_mod_eq of_nat_add of_nat_mult of_nat_numeral)
    moreover have "n div 10 < 2 ^ 63" "int n < 2 ^ 63" using "1.prems" by simp_all
    ultimately have v: "s64 (s64 (int (n div 10) * 10) + int (n mod 10)) = int n"
      by (simp add: s64_id)
    have "read_digits (decimal n @ s) m 0 =
        read_digits (decimal (n div 10) @ digit_char (n mod 10) # s) m 0"
      using False by (subst decimal.simps) simp
    also have "\<dots> = read_digits (digit_char (n mod 10) # s) m (int (n div 10))"
      using "1.IH" [OF False] \<open>n div 10 < 2 ^ 63\<close> by blast
    also have "\<dots> = read_digits s m (int n)"
      using v by (simp add: Let_def)
    finally show ?thesis .
  qed
qed

lemma decimal_Cons: "\<exists>d ds. decimal n = d # ds \<and> d \<noteq> CHR ''-'' \<and> d \<noteq> CHR ''+''"
  using not_in_decimal(4,5) [of n] decimal_nonempty [of n] by (cases "decimal n") auto

lemma number_decimal: "n < 2 ^ 63 \<Longrightarrow> number (decimal n @ CR # s) = int n"
  using decimal_Cons [of n] read_digits_decimal [of n "CR # s" 1]
  by (auto simp: number_def readLongLong_Cons s64_id simp del: read_digits.simps(2))
    (simp add: s64_id)

lemma number_decimal_int: "\<bar>i\<bar> < 2 ^ 63 \<Longrightarrow> number (decimal_int i @ CR # s) = i"
  using number_decimal [of "nat i" s] read_digits_decimal [of "nat (- i)" "CR # s" "- 1"]
  by (auto simp: decimal_int_def number_def readLongLong_Cons s64_id)

fun encode :: "rval \<Rightarrow> string" where
  "encode (RString s) = ''$'' @ decimal (length s) @ CRLF @ s @ CRLF"
| "encode (RStatus s) = ''+'' @ s @ CRLF"
| "encode (RError s) = ''-'' @ s @ CRLF"
| "encode (RInteger i) = '':'' @ decimal_int i @ CRLF"
| "encode RNil = ''$-1'' @ CRLF"
| "encode (RArray vs) = ''*'' @ decimal (length vs) @ CRLF @ concat (map encode vs)"
| "encode (RBadArray n) = ''*'' @ decimal_int n @ CRLF"

text \<open>The replies the protocol can carry inside \<open>8 - d\<close> arrays.\<close>

fun wf_reply :: "nat \<Rightarrow> rval \<Rightarrow> bool" where
  "wf_reply d (RString s) = (length s < 2 ^ 63)"
| "wf_reply d (RStatus s) = (CR \<notin> set s)"
| "wf_reply d (RError s) = (CR \<notin> set s)"
| "wf_reply d (RInteger i) = (\<bar>i\<bar> < 2 ^ 63)"
| "wf_reply d RNil = True"
| "wf_reply d (RArray vs) = (0 < d \<and> length vs < 2 ^ 31 \<and> (\<forall>v \<in> set vs. wf_reply (d - 1) v))"
| "wf_reply d (RBadArray n) = False"

fun resume :: "build \<Rightarrow> char list \<Rightarrow> progress" where
  "resume (Done v) xs = Finished v xs"
| "resume (Open fs) xs = spec_run fs (- 1) xs"

lemma spec_run_leaf:
  assumes "item_type c = Some ty" "lex_item ty xs = Leaf v k" "\<not> (ty = REDIS_REPLY_ARRAY \<and> length fs = 8)"
  shows "spec_run fs (- 1) (c # xs) = resume (complete v fs) (drop k xs)"
  using assms by (subst spec_run.simps)
    (auto simp: spec_item_def spec_typed_def split: build.splits)

lemma item_types [simp]:
  "item_type (CHR ''$'') = Some REDIS_REPLY_STRING" "item_type (CHR ''+'') = Some REDIS_REPLY_STATUS"
  "item_type (CHR ''-'') = Some REDIS_REPLY_ERROR" "item_type (CHR '':'') = Some REDIS_REPLY_INTEGER"
  "item_type (CHR ''*'') = Some REDIS_REPLY_ARRAY"
  by (simp_all add: item_type_def)

text \<open>The items of the leaves, as \<open>encode\<close> writes them.\<close>

lemma lex_line:
  assumes "CR \<notin> set s" "ty = REDIS_REPLY_STATUS \<or> ty = REDIS_REPLY_ERROR"
  shows "lex_item ty (s @ CRLF @ xs) = Leaf (str_val ty s) (length s + 2)"
  using find_crlf_line [OF assms(1), of xs] assms(2) by (auto simp: lex_item_def reply_types)

lemma CR_decimal_int [simp]: "CR \<notin> set (decimal_int i)"
  by (simp add: decimal_int_def)

lemma lex_integer:
  assumes "\<bar>i\<bar> < 2 ^ 63"
  shows "lex_item REDIS_REPLY_INTEGER (decimal_int i @ CRLF @ xs) = Leaf (RInteger i) (length (decimal_int i) + 2)"
  using find_crlf_line [of "decimal_int i" xs] number_decimal_int [OF assms, of "LF # xs"]
  by (simp add: lex_item_def)

lemma lex_bulk:
  assumes "length s < 2 ^ 63"
  shows "lex_item REDIS_REPLY_STRING (decimal (length s) @ CRLF @ s @ CRLF @ xs) =
    Leaf (RString s) (length (decimal (length s)) + 2 + length s + 2)"
  using find_crlf_line [of "decimal (length s)" "s @ CRLF @ xs"]
    number_decimal [OF assms, of "LF # s @ CRLF @ xs"]
  by (simp add: lex_item_def reply_types)

lemma lex_nil: "lex_item REDIS_REPLY_STRING (''-1'' @ CRLF @ xs) = Leaf RNil 4"
  by (simp add: lex_item_def reply_types number_def readLongLong_def CR_def LF_def)

lemma lex_array:
  assumes "n < 2 ^ 31"
  shows "lex_item REDIS_REPLY_ARRAY (decimal n @ CRLF @ xs) =
    (if n = 0 then Leaf (RArray []) else Begin n) (length (decimal n) + 2)"
proof -
  have "number (decimal n @ CR # LF # xs) = int n" using assms by (intro number_decimal) simp
  then show ?thesis
    using find_crlf_line [of "decimal n" xs] s32_of_nat [OF assms]
    by (auto simp: lex_item_def reply_types)
qed

text \<open>The elements of an array are read one after the other into its frame.\<close>

lemma spec_run_elements:
  assumes "\<And>v rest ds. v \<in> set vs \<Longrightarrow>
      spec_run ((n, ds) # fs) (- 1) (encode v @ rest) = resume (complete v ((n, ds) # fs)) rest"
    and "vs \<noteq> []" "length ds + length vs = n"
  shows "spec_run ((n, ds) # fs) (- 1) (concat (map encode vs) @ rest) =
    resume (complete (RArray (ds @ vs)) fs) rest"
  using assms
proof (induction vs arbitrary: ds)
  case (Cons v vs)
  have step: "spec_run ((n, ds) # fs) (- 1) (encode v @ concat (map encode vs) @ rest) =
      resume (complete v ((n, ds) # fs)) (concat (map encode vs) @ rest)"
    by (rule Cons.prems(1)) simp
  show ?case
  proof (cases "vs = []")
    case True
    then show ?thesis using step Cons.prems(3) by simp
  next
    case False
    then have "Suc (length ds) \<noteq> n" using Cons.prems(3) by (cases vs) auto
    then show ?thesis
      using step Cons.IH [of "ds @ [v]"] Cons.prems False by simp
  qed
qed simp

lemma spec_run_encode:
  "wf_reply (8 - length fs) v \<Longrightarrow> length fs \<le> 8 \<Longrightarrow>
    spec_run fs (- 1) (encode v @ rest) = resume (complete v fs) rest"
proof (induction v arbitrary: fs rest)
  case (RString s)
  then show ?case
    using spec_run_leaf [OF item_types(1) lex_bulk [of s rest], of fs]
    by (simp add: reply_types drop_Cons')
next
  case (RStatus s)
  then show ?case
    using spec_run_leaf [OF item_types(2) lex_line [of s _ rest], of fs]
    by (simp add: reply_types str_val_def)
next
  case (RError s)
  then show ?case
    using spec_run_leaf [OF item_types(3) lex_line [of s _ rest], of fs]
    by (simp add: reply_types str_val_def)
next
  case (RInteger i)
  then show ?case
    using spec_run_leaf [OF item_types(4) lex_integer [of i rest], of fs]
    by (simp add: reply_types)
next
  case RNil
  then show ?case
    using spec_run_leaf [OF item_types(1) lex_nil [of rest], of fs] by (simp add: reply_types)
next
  case (RArray vs)
  let ?xs = "concat (map encode vs) @ rest"
  let ?n = "length vs"
  have d: "length fs < 8" "?n < 2 ^ 31" using RArray.prems by auto
  show ?case
  proof (cases "vs = []")
    case True
    then show ?thesis
      using spec_run_leaf [OF item_types(5), of "decimal 0 @ CRLF @ rest" "RArray []" _ fs]
        lex_array [of 0 rest] d by simp
  next
    case False
    have "spec_run fs (- 1) (CHR ''*'' # decimal ?n @ CRLF @ ?xs) = spec_run ((?n, []) # fs) (- 1) ?xs"
      using lex_array [OF d(2), of ?xs] False d(1)
      by (subst spec_run.simps) (simp add: spec_item_def spec_typed_def)
    also have "\<dots> = resume (complete (RArray ([] @ vs)) fs) rest"
    proof (rule spec_run_elements)
      show "spec_run ((?n, ds) # fs) (- 1) (encode v @ rest') = resume (complete v ((?n, ds) # fs)) rest'"
        if "v \<in> set vs" for v rest' ds
        using RArray.IH [OF that, of "(?n, ds) # fs"] RArray.prems d that by (simp add: Suc_diff_Suc)
    qed (use False in simp_all)
    finally show ?thesis by simp
  qed
qed simp

end
