(* ===== verification/ReaderRefine.thy ===== *)
theory ReaderRefine
  imports ReaderSpec
begin

text \<open>
  The reader of read.c refines the reference parser, for every table of reply object
  functions that keeps the contract \<open>reply_builder\<close>: the functions never fault, leave the
  reader well-formed, build exactly the reply the reference parser finds, and free
  everything built so far when they fail.
\<close>

section \<open>Well-formed readers\<close>

definition r_input :: "'h redisReader \<Rightarrow> char list" where
  "r_input r = drop (r_pos r) (take (r_len r) (r_mem r))"

definition buffer_ok :: "'h redisReader \<Rightarrow> bool" where
  "buffer_ok r \<longleftrightarrow>
     (case r_buf r of None \<Rightarrow> False
      | Some s \<Rightarrow> sds_ok s \<and> sdslen s = r_len r \<and> r_len r < 2 ^ 31 \<and> r_pos r \<le> r_len r)"

definition root_of :: "ptr list \<Rightarrow> ptr" where
  "root_of ps = (if ps = [] then NULL else last ps)"

text \<open>In the middle of a reply; done with one; failed. \<open>I\<close> is the builder's invariant.\<close>

definition reader_at ::
    "'h redisReplyObjectFunctions \<Rightarrow> ('h \<Rightarrow> ptr list \<Rightarrow> build \<Rightarrow> bool) \<Rightarrow> 'h redisReader \<Rightarrow> 'h \<Rightarrow>
     frames \<Rightarrow> ptr list \<Rightarrow> int \<Rightarrow> char list \<Rightarrow> bool" where
  "reader_at f I r h fs ps ty xs \<longleftrightarrow>
     r_err r = 0 \<and> r_fn r = Some f \<and> buffer_ok r \<and> r_input r = xs \<and> length (r_rstack r) = 9 \<and>
     length fs \<le> 8 \<and> r_ridx r = int (length fs) \<and> tasks_ok (r_rstack r) fs ps \<and>
     t_type (r_rstack r ! length fs) = ty \<and> I h ps (Open fs) \<and> r_reply r = root_of ps"

definition reader_done ::
    "'h redisReplyObjectFunctions \<Rightarrow> ('h \<Rightarrow> ptr list \<Rightarrow> build \<Rightarrow> bool) \<Rightarrow> 'h redisReader \<Rightarrow> 'h \<Rightarrow>
     rval \<Rightarrow> char list \<Rightarrow> bool" where
  "reader_done f I r h v xs \<longleftrightarrow>
     r_err r = 0 \<and> r_fn r = Some f \<and> buffer_ok r \<and> r_input r = xs \<and> length (r_rstack r) = 9 \<and>
     r_ridx r = - 1 \<and> I h [r_reply r] (Done v)"

definition reader_failed ::
    "'h redisReplyObjectFunctions \<Rightarrow> ('h \<Rightarrow> ptr list \<Rightarrow> build \<Rightarrow> bool) \<Rightarrow> 'h redisReader \<Rightarrow> 'h \<Rightarrow>
     int \<Rightarrow> bool" where
  "reader_failed f I r h e \<longleftrightarrow>
     r_err r = e \<and> r_fn r = Some f \<and> r_buf r = None \<and> r_pos r = 0 \<and> r_len r = 0 \<and>
     r_ridx r = - 1 \<and> r_reply r = NULL \<and> I h [] (Open [])"

definition refines ::
    "'h redisReplyObjectFunctions \<Rightarrow> ('h \<Rightarrow> ptr list \<Rightarrow> build \<Rightarrow> bool) \<Rightarrow> ('h \<Rightarrow> bool) \<Rightarrow> 'h \<Rightarrow>
     (int \<times> 'h redisReader \<times> 'h) option \<Rightarrow> progress \<Rightarrow> bool" where
  "refines f I mem h out x \<longleftrightarrow>
     (\<exists>status r' h'. out = Some (status, r', h') \<and>
        (\<not> mem h \<and> status = REDIS_ERR \<and> reader_failed f I r' h' REDIS_ERR_OOM \<or>
         (mem h \<longrightarrow> mem h') \<and>
         (case x of
            Next fs xs \<Rightarrow> status = REDIS_OK \<and> (\<exists>ps. reader_at f I r' h' fs ps (- 1) xs)
          | Wait fs ty xs \<Rightarrow> status = REDIS_ERR \<and> (\<exists>ps. reader_at f I r' h' fs ps ty xs)
          | Finished v xs \<Rightarrow> status = REDIS_OK \<and> reader_done f I r' h' v xs
          | Failed e \<Rightarrow> status = REDIS_ERR \<and> reader_failed f I r' h' e
          | Crashed \<Rightarrow> True)))"

section \<open>The buffer\<close>

lemma buffer_okD:
  assumes "buffer_ok r"
  shows "r_len r < length (r_mem r)" "r_pos r \<le> r_len r" "r_len r < 2 ^ 31"
    "r_left r = length (r_input r)" "length (r_input r) = r_len r - r_pos r"
    "drop (r_pos r) (r_mem r) = r_input r @ drop (r_len r) (r_mem r)"
proof -
  obtain s where s: "r_buf r = Some s" "sds_ok s" "sdslen s = r_len r" "r_len r < 2 ^ 31" "r_pos r \<le> r_len r"
    using assms by (auto simp: buffer_ok_def split: option.splits)
  show l: "r_len r < length (r_mem r)" and "r_pos r \<le> r_len r" and "r_len r < 2 ^ 31"
    using s sds_okD [OF s(2)] by (simp_all add: r_mem_def)
  show n: "length (r_input r) = r_len r - r_pos r" using l by (simp add: r_input_def)
  show "r_left r = length (r_input r)"
    unfolding n r_left_def using s(4,5) by (subst to_size_id) (simp_all add: nat_diff_distrib)
  show "drop (r_pos r) (r_mem r) = r_input r @ drop (r_len r) (r_mem r)"
    unfolding r_input_def using l s(5)
    by (metis append_take_drop_id drop_append diff_is_0_eq drop0 length_take min.absorb2 less_imp_le)
qed

definition advance :: "'h redisReader \<Rightarrow> nat \<Rightarrow> 'h redisReader" where
  "advance r k = r\<lparr>r_pos := r_pos r + k\<rparr>"

lemma advance_simps [simp]:
  "r_err (advance r k) = r_err r" "r_fn (advance r k) = r_fn r" "r_rstack (advance r k) = r_rstack r"
  "r_ridx (advance r k) = r_ridx r" "r_reply (advance r k) = r_reply r" "r_mem (advance r k) = r_mem r"
  "r_func (advance r k) = r_func r" "r_buf (advance r k) = r_buf r" "r_len (advance r k) = r_len r"
  by (simp_all add: advance_def r_mem_def r_func_def fun_eq_iff)

lemma advance_ok:
  assumes "buffer_ok r" "k \<le> length (r_input r)"
  shows "buffer_ok (advance r k)" "r_input (advance r k) = drop k (r_input r)"
proof -
  show "buffer_ok (advance r k)"
    using assms buffer_okD [OF assms(1)] by (auto simp: buffer_ok_def advance_def split: option.splits)
  show "r_input (advance r k) = drop k (r_input r)"
    by (simp add: r_input_def advance_def r_mem_def add.commute)
qed

lemma seek_input:
  assumes "buffer_ok r"
  shows "seekNewline (drop (r_pos r) (r_mem r)) (r_left r) = find_crlf (r_input r)"
  using buffer_okD [OF assms] by (simp add: seekNewline_find)

lemma readLine_input:
  assumes "buffer_ok r"
  shows "readLine r = (case find_crlf (r_input r) of
      None \<Rightarrow> (None, r) | Some i \<Rightarrow> (Some (r_pos r, int i), advance r (i + 2)))"
proof (cases "find_crlf (r_input r)")
  case (Some i)
  have i: "i + 2 \<le> r_len r - r_pos r"
    using find_crlf_SomeD [OF Some] buffer_okD(5) [OF assms] by simp
  then have "s32 (int i) = int i" using buffer_okD(3) [OF assms] by (intro s32_of_nat) simp
  moreover have "to_size (int (r_pos r) + int i + 2) = r_pos r + (i + 2)"
    using i buffer_okD(3) [OF assms] by (subst to_size_id) auto
  ultimately show ?thesis
    using Some by (simp add: readLine_def seek_input [OF assms] Let_def advance_def)
qed (simp add: readLine_def seek_input [OF assms])

lemma number_input:
  assumes "buffer_ok r" "find_crlf (r_input r) = Some i"
  shows "readLongLong (drop (r_pos r) (r_mem r)) = Some (number (r_input r))"
  using readLongLong_total [OF CR_in_set [OF assms(2)]]
  by (auto simp: buffer_okD(6) [OF assms(1)] readLongLong_append CR_in_set [OF assms(2)] number_def)

lemma readBytes_input:
  assumes "buffer_ok r"
  shows "readBytes r 1 = (case r_input r of [] \<Rightarrow> (None, r) | c # xs \<Rightarrow> (Some (r_pos r), advance r 1))"
proof -
  have "u64 (r_pos r + 1) = r_pos r + 1"
    using buffer_okD(2,3) [OF assms] by (intro u64_id) simp
  then show ?thesis
    using buffer_okD(4) [OF assms] by (auto simp: readBytes_def advance_def split: list.splits)
qed

lemma input_hd:
  assumes "buffer_ok r" "r_input r = c # xs"
  shows "r_mem r ! r_pos r = c"
  using buffer_okD(6) [OF assms(1)] assms(2)
  by (metis append_Cons drop_eq_Nil hd_drop_conv_nth list.distinct(1) list.sel(1) not_le)

section \<open>The task stack\<close>

lemma tasks_ok_length: "tasks_ok st fs ps \<Longrightarrow> length ps = length fs"
  by (induction st fs ps rule: tasks_ok.induct) (auto simp: Let_def)

lemma tasks_ok_update:
  "tasks_ok st fs ps \<Longrightarrow> length fs < i \<Longrightarrow> tasks_ok (st[i := t]) fs ps"
  by (induction st fs ps rule: tasks_ok.induct) (auto simp: Let_def)

text \<open>Changes to the current task that keep its index and parent.\<close>

lemma tasks_ok_current:
  assumes "tasks_ok st fs ps" "length fs < length st"
    and "t_idx t = t_idx (st ! length fs)" "t_parent t = t_parent (st ! length fs)"
  shows "tasks_ok (st[length fs := t]) fs ps"
proof (cases fs)
  case Nil
  then show ?thesis using assms by (cases ps) auto
next
  case (Cons g fs')
  obtain n vs where g: "g = (n, vs)" by (cases g)
  obtain p ps' where ps: "ps = p # ps'" using assms(1) Cons g by (cases ps) auto
  show ?thesis
    using assms tasks_ok_update [of st fs' ps' "Suc (length fs')" t] by (simp add: Cons g ps Let_def)
qed

text \<open>A completed item: closed arrays are popped, the first array with room gets its next task.\<close>

definition next_task :: "redisReadTask \<Rightarrow> redisReadTask" where
  "next_task t = t\<lparr>t_type := - 1, t_elements := - 1, t_idx := t_idx t + 1\<rparr>"

lemma moveToNextTask_complete:
  assumes "tasks_ok (r_rstack r) fs ps" "length (r_rstack r) = 9" "length fs \<le> 8"
    and "r_ridx r = int (length fs)"
  shows "moveToNextTask r = Some (case complete v fs of
      Done w \<Rightarrow> r\<lparr>r_ridx := - 1\<rparr>
    | Open fs' \<Rightarrow> r\<lparr>r_rstack := (r_rstack r)[length fs' := next_task (r_rstack r ! length fs')],
                    r_ridx := int (length fs')\<rparr>)"
  using assms
proof (induction fs arbitrary: v ps r)
  case Nil
  then show ?case by (simp add: moveToNextTask.simps)
next
  case (Cons g fs)
  obtain n vs where g: "g = (n, vs)" by (cases g)
  obtain p ps' where ps: "ps = p # ps'" using Cons.prems(1) g by (cases ps) auto
  let ?i = "length fs"
  note t = Cons.prems(1) [unfolded g ps tasks_ok.simps Let_def]
  have el: "s32 (int n - 1) = int n - 1" "s32 (int (length vs) + 1) = int (length vs) + 1"
    using t by (simp_all add: s32_id)
  have idx: "nat (r_ridx r) = Suc ?i" "nat (r_ridx r - 1) = ?i" "r_ridx r \<noteq> 0" "0 \<le> r_ridx r"
    using Cons.prems(4) by (simp_all add: g)
  show ?case
  proof (cases "Suc (length vs) = n")
    case True
    then have "moveToNextTask r = moveToNextTask (r\<lparr>r_ridx := int ?i\<rparr>)"
      using t el idx Cons.prems(4) by (subst moveToNextTask.simps) (auto simp: Let_def g)
    also have "\<dots> = Some (case complete (RArray (vs @ [v])) fs of
        Done w \<Rightarrow> r\<lparr>r_ridx := - 1\<rparr>
      | Open fs' \<Rightarrow> r\<lparr>r_rstack := (r_rstack r)[length fs' := next_task (r_rstack r ! length fs')],
                      r_ridx := int (length fs')\<rparr>)"
      using Cons.IH [of "r\<lparr>r_ridx := int ?i\<rparr>" ps' "RArray (vs @ [v])"] t Cons.prems
      by (simp split: build.splits)
    finally show ?thesis using True by (simp add: g)
  next
    case False
    then have "int (length vs) \<noteq> int n - 1" by auto
    then show ?thesis
      using False t el idx Cons.prems(4)
      by (subst moveToNextTask.simps) (simp add: Let_def g next_task_def)
  qed
qed

lemma complete_tasks_ok:
  assumes "complete v fs = Open fs'" "tasks_ok st fs ps" "length st = 9" "length fs \<le> 8"
  shows "\<exists>ps'. tasks_ok (st[length fs' := next_task (st ! length fs')]) fs' ps' \<and>
    length fs' \<le> length fs \<and> fs' \<noteq> [] \<and> (\<exists>qs. ps = qs @ ps')"
  using assms
proof (induction fs arbitrary: v ps)
  case (Cons g fs)
  obtain n vs where g: "g = (n, vs)" by (cases g)
  obtain p ps' where ps: "ps = p # ps'" using Cons.prems(2) g by (cases ps) auto
  note t = Cons.prems(2) [unfolded g ps tasks_ok.simps Let_def]
  show ?case
  proof (cases "Suc (length vs) = n")
    case True
    then obtain ps'' qs where "tasks_ok (st[length fs' := next_task (st ! length fs')]) fs' ps''"
      "length fs' \<le> length fs" "fs' \<noteq> []" "ps' = qs @ ps''"
      using Cons.IH [of "RArray (vs @ [v])" ps'] Cons.prems t by (auto simp: g)
    moreover have "ps = (p # qs) @ ps''" using ps calculation by simp
    ultimately show ?thesis by (metis le_SucI length_Cons)
  next
    case False
    then have fs': "fs' = (n, vs @ [v]) # fs" using Cons.prems(1) by (simp add: g)
    have "tasks_ok (st[Suc (length fs) := next_task (st ! Suc (length fs))]) fs ps'"
      using t by (intro tasks_ok_update) auto
    then have "tasks_ok (st[length fs' := next_task (st ! length fs')]) fs' ps"
      using t False Cons.prems(3,4) by (auto simp: fs' ps Let_def next_task_def g)
    then show ?thesis by (auto simp: fs' g)
  qed
qed simp

section \<open>One item\<close>

text \<open>The end of \<^verbatim>\<open>processLineItem\<close> and \<^verbatim>\<open>processBulkItem\<close>, once the object is created.\<close>

definition finish_leaf :: "'h redisReader \<Rightarrow> ptr \<Rightarrow> 'h \<Rightarrow> (int \<times> 'h redisReader \<times> 'h) option" where
  "finish_leaf r obj h =
     (if obj = NULL
      then do { (r, h) \<leftarrow> redisReaderSetErrorOOM r h; Some (REDIS_ERR, r, h) }
      else do {
        let r = (if r_ridx r = 0 then r\<lparr>r_reply := obj\<rparr> else r);
        r \<leftarrow> moveToNextTask r;
        Some (REDIS_OK, r, h)
      })"

definition fn_table where
  "fn_table cs ca ci cn fr =
     \<lparr>createString = Some cs, createArray = Some ca, createInteger = Some ci, createNil = Some cn,
      freeObject = Some fr\<rparr>"

lemma r_func_table [simp]:
  assumes "r_fn r = Some (fn_table cs ca ci cn fr)"
  shows "r_func r createString = Some cs" "r_func r createArray = Some ca"
    "r_func r createInteger = Some ci" "r_func r createNil = Some cn" "r_func r freeObject = Some fr"
  using assms by (simp_all add: r_func_def fn_table_def)

definition leaf_progress :: "rval \<Rightarrow> frames \<Rightarrow> char list \<Rightarrow> progress" where
  "leaf_progress v fs xs = (case complete v fs of Done w \<Rightarrow> Finished w xs | Open fs' \<Rightarrow> Next fs' xs)"

lemma reader_atD:
  assumes "reader_at f I r h fs ps ty xs"
  shows "r_err r = 0" "r_fn r = Some f" "buffer_ok r" "r_input r = xs" "length (r_rstack r) = 9"
    "length fs \<le> 8" "r_ridx r = int (length fs)" "nat (r_ridx r) = length fs"
    "tasks_ok (r_rstack r) fs ps"
    "t_type (r_rstack r ! length fs) = ty" "I h ps (Open fs)" "r_reply r = root_of ps"
  using assms by (simp_all add: reader_at_def)

lemma reader_at_advance:
  assumes "reader_at f I r h fs ps ty xs" "k \<le> length xs"
  shows "reader_at f I (advance r k) h fs ps ty (drop k xs)"
  using assms advance_ok [of r k] by (simp add: reader_at_def)

lemma buffer_input_cong:
  "r_buf r' = r_buf r \<Longrightarrow> r_pos r' = r_pos r \<Longrightarrow> r_len r' = r_len r \<Longrightarrow>
    buffer_ok r' = buffer_ok r \<and> r_input r' = r_input r"
  by (simp add: buffer_ok_def r_input_def r_mem_def split: option.split)

lemma SetError_advance:
  assumes "buffer_ok r"
  shows "redisReaderSetErrorOOM (advance r k) h = redisReaderSetErrorOOM r h"
proof -
  obtain s where "r_buf r = Some s" using assms by (auto simp: buffer_ok_def split: option.splits)
  then show ?thesis
    by (cases "r_func r freeObject")
      (simp_all add: redisReaderSetErrorOOM_def redisReaderSetError_def Let_def advance_def r_func_def)
qed

lemma suffix_unique: "qs @ ps = qs' @ ps' \<Longrightarrow> length ps = length ps' \<Longrightarrow> ps = ps'"
  by (simp add: append_eq_append_conv)

definition item_typed :: "int \<Rightarrow> bool" where
  "item_typed t \<longleftrightarrow> t \<in> {REDIS_REPLY_STRING, REDIS_REPLY_ARRAY, REDIS_REPLY_INTEGER,
     REDIS_REPLY_STATUS, REDIS_REPLY_ERROR}"

definition type_ok :: "int \<Rightarrow> bool" where
  "type_ok t \<longleftrightarrow> t = - 1 \<or> item_typed t"

context reply_builder
begin

lemma complete_inv:
  assumes "inv b h (leaf_at ps p) (add_item v fs)" "length ps = length fs" "p \<noteq> NULL"
  shows "case complete v fs of
      Done w \<Rightarrow> inv b h [root_of (leaf_at ps p)] (Done w)
    | Open fs' \<Rightarrow> (\<exists>qs ps'. ps = qs @ ps' \<and> length ps' = length fs' \<and> inv b h ps' (Open fs') \<and> ps' \<noteq> [])"
  using assms
proof (induction fs arbitrary: v ps p)
  case (Cons g fs)
  obtain n vs where g: "g = (n, vs)" by (cases g)
  obtain q ps' where ps: "ps = q # ps'" using Cons.prems(2) by (cases ps) auto
  have i: "inv b h (q # ps') (Open ((n, vs @ [v]) # fs))"
    using Cons.prems(1) by (simp add: g ps leaf_at_def)
  show ?case
  proof (cases "Suc (length vs) = n")
    case True
    have "q \<noteq> NULL" using roots_ok [OF i] by simp
    moreover have "inv b h (leaf_at ps' q) (add_item (RArray (vs @ [v])) fs)"
      using close_ok [OF i] True by simp
    moreover have "root_of (leaf_at ps' q) = root_of ps"
      by (simp add: root_of_def leaf_at_def ps)
    ultimately show ?thesis
      using Cons.IH [of ps' q "RArray (vs @ [v])"] Cons.prems(2) True
      by (auto simp: g ps leaf_at_def split: build.splits) (metis append_Cons)
  next
    case False
    then show ?thesis
      using i Cons.prems(2) by (simp add: g ps, intro exI [of _ "[]"] exI [of _ "q # ps'"]) simp
  qed
qed (simp add: leaf_at_def root_of_def)

lemma SetError_ok:
  assumes "inv b h ps x" "r_reply r = root_of ps" "r_fn r = Some (fn_table cs ca ci cn fr)"
    and "buffer_ok r"
  shows "\<exists>r' h'. redisReaderSetError r h e s = Some (r', h') \<and> (mem h \<longrightarrow> mem h') \<and>
    reader_failed (fn_table cs ca ci cn fr) (inv b) r' h' e"
proof (cases "ps = []")
  case True
  then have "r_reply r = NULL" "inv b h [] (Open [])"
    using assms roots_ok [OF assms(1)] by (auto simp: root_of_def)
  then show ?thesis
    using assms(3,4) by (auto simp: redisReaderSetError_def reader_failed_def buffer_ok_def
        split: option.splits)
next
  case False
  then obtain h' where "fr (r_reply r) h = Some h'" "inv b h' [] (Open [])" "mem h \<longrightarrow> mem h'"
    using free_ok [OF assms(1)] assms(2) by (auto simp: root_of_def)
  moreover have "r_reply r \<noteq> NULL"
    using roots_ok [OF assms(1)] False assms(2) last_in_set [OF False] by (metis root_of_def)
  ultimately show ?thesis
    using assms(3,4) by (auto simp: redisReaderSetError_def reader_failed_def buffer_ok_def
        split: option.splits)
qed

lemma failed_ok:
  assumes "reader_at (fn_table cs ca ci cn fr) (inv b) r h fs ps ty xs" "inv b h' ps x"
    and "mem h \<longrightarrow> mem h'"
  shows "refines (fn_table cs ca ci cn fr) (inv b) mem h
    (do { (r, h) \<leftarrow> redisReaderSetError r h' e s; Some (REDIS_ERR, r, h) }) (Failed e)"
proof -
  obtain r' h'' where "redisReaderSetError r h' e s = Some (r', h'')" "mem h' \<longrightarrow> mem h''"
    "reader_failed (fn_table cs ca ci cn fr) (inv b) r' h'' e"
    using SetError_ok [OF assms(2)] reader_atD [OF assms(1)] by metis
  then show ?thesis using assms(3) by (auto simp: refines_def)
qed

lemma finish_leaf_ok:
  assumes at: "reader_at (fn_table cs ca ci cn fr) (inv b) r h fs ps ty xs"
    and y: "yields (inv b) mem h ps fs (leaf_at ps) (add_item v fs) (Some (obj, h'))"
  shows "refines (fn_table cs ca ci cn fr) (inv b) mem h (finish_leaf r obj h') (leaf_progress v fs xs)"
proof (cases "obj = NULL")
  case True
  then have i: "inv b h' ps (Open fs)" "\<not> mem h" using y by (auto simp: yields_def)
  obtain r' h'' where "redisReaderSetErrorOOM r h' = Some (r', h'')"
    "reader_failed (fn_table cs ca ci cn fr) (inv b) r' h'' REDIS_ERR_OOM"
    using SetError_ok [OF i(1)] reader_atD [OF at] unfolding redisReaderSetErrorOOM_def by metis
  then show ?thesis using True i(2) by (auto simp: refines_def finish_leaf_def)
next
  case False
  note D = reader_atD [OF at]
  have i: "inv b h' (leaf_at ps obj) (add_item v fs)" "mem h \<longrightarrow> mem h'"
    using y False by (auto simp: yields_def)
  have len: "length ps = length fs" using tasks_ok_length D(9) by simp
  let ?r = "if r_ridx r = 0 then r\<lparr>r_reply := obj\<rparr> else r"
  have root: "r_reply ?r = root_of (leaf_at ps obj)"
    using D(7,12) len by (auto simp: root_of_def leaf_at_def)
  have r: "r_rstack ?r = r_rstack r" "r_ridx ?r = r_ridx r" "r_err ?r = 0" "r_fn ?r = r_fn r"
    "buffer_ok ?r = buffer_ok r" "r_input ?r = r_input r"
    using D(1) buffer_input_cong [of ?r r] by auto
  note m = moveToNextTask_complete [of ?r fs ps v, unfolded r, OF D(9,5,6,7)]
  show ?thesis
  proof (cases "complete v fs")
    case (Done w)
    let ?r' = "?r\<lparr>r_ridx := - 1\<rparr>"
    have "buffer_ok ?r' = buffer_ok ?r \<and> r_input ?r' = r_input ?r" by (rule buffer_input_cong) simp_all
    then have "reader_done (fn_table cs ca ci cn fr) (inv b) ?r' h' w xs"
      using complete_inv [OF i(1) len False] Done D(2,3,4,5) r root by (simp add: reader_done_def)
    then show ?thesis
      using False m Done i(2) by (auto simp: refines_def finish_leaf_def leaf_progress_def Let_def)
  next
    case (Open fs')
    let ?r' = "?r\<lparr>r_rstack := (r_rstack r)[length fs' := next_task (r_rstack r ! length fs')],
      r_ridx := int (length fs')\<rparr>"
    obtain qs ps' where ps': "ps = qs @ ps'" "length ps' = length fs'" "inv b h' ps' (Open fs')" "ps' \<noteq> []"
      using complete_inv [OF i(1) len False] Open by auto
    obtain ps'' qs' where ps'': "tasks_ok (r_rstack ?r') fs' ps''" "length fs' \<le> length fs" "ps = qs' @ ps''"
      using complete_tasks_ok [OF Open D(9,5,6)] by auto
    have "ps'' = ps'"
      using suffix_unique [of qs' ps'' qs ps'] ps' ps'' tasks_ok_length [OF ps''(1)] by simp
    moreover have "root_of ps = root_of ps'" "leaf_at ps obj = ps" using ps' by (simp_all add: root_of_def leaf_at_def)
    moreover have "buffer_ok ?r' = buffer_ok ?r \<and> r_input ?r' = r_input ?r" by (rule buffer_input_cong) simp_all
    moreover have "r_reply ?r' = r_reply ?r" "r_err ?r' = r_err ?r" "r_fn ?r' = r_fn ?r" by simp_all
    moreover have "t_type (r_rstack ?r' ! length fs') = - 1" "length fs' \<le> 8"
      using ps''(2) D(5,6) by (simp_all add: next_task_def)
    ultimately have "reader_at (fn_table cs ca ci cn fr) (inv b) ?r' h' fs' ps' (- 1) xs"
      unfolding reader_at_def using ps'' ps' D r root by simp
    then show ?thesis
      using False m Open i(2) by (auto simp: refines_def finish_leaf_def leaf_progress_def Let_def)
  qed
qed

lemma leaf_item_ok:
  assumes at: "reader_at (fn_table cs ca ci cn fr) (inv b) r h fs ps ty xs" and k: "k \<le> length xs"
    and y: "yields (inv b) mem h ps fs (leaf_at ps) (add_item v fs) res"
  shows "refines (fn_table cs ca ci cn fr) (inv b) mem h
    (do { (obj, h') \<leftarrow> res; finish_leaf (advance r k) obj h' }) (leaf_progress v fs (drop k xs))"
proof -
  obtain obj h' where res: "res = Some (obj, h')" using y by (auto simp: yields_def)
  show ?thesis
    using finish_leaf_ok [OF reader_at_advance [OF at k]] y by (simp add: res)
qed

lemma more_item_ok:
  assumes "reader_at f (inv b) r h fs ps ty xs"
  shows "refines f (inv b) mem h (Some (REDIS_ERR, r, h)) (Wait fs ty xs)"
  using assms by (auto simp: refines_def)

lemma processLineItem_ok:
  assumes at: "reader_at (fn_table cs ca ci cn fr) (inv b) r h fs ps ty xs"
    and ty: "ty = REDIS_REPLY_INTEGER \<or> ty = REDIS_REPLY_STATUS \<or> ty = REDIS_REPLY_ERROR"
  shows "refines (fn_table cs ca ci cn fr) (inv b) mem h (processLineItem r h) (spec_typed fs ty xs)"
proof (cases "find_crlf xs")
  case None
  note D = reader_atD [OF at]
  have "processLineItem r h = Some (REDIS_ERR, r, h)"
    using None D(4) by (simp add: processLineItem_def readLine_input [OF D(3)])
  moreover have "spec_typed fs ty xs = Wait fs ty xs"
    using None ty by (auto simp: spec_typed_def lex_item_def reply_types)
  ultimately show ?thesis using more_item_ok [OF at] by simp
next
  case (Some i)
  note D = reader_atD [OF at]
  have k: "i + 2 \<le> length xs" using find_crlf_SomeD [OF Some] by simp
  have line: "readLine r = (Some (r_pos r, int i), advance r (i + 2))"
    using Some D(4) by (simp add: readLine_input [OF D(3)])
  note num = number_input [OF D(3), unfolded D(4), OF Some]
  show ?thesis
  proof (cases "ty = REDIS_REPLY_INTEGER")
    case True
    have "processLineItem r h =
        do { (obj, h') \<leftarrow> ci (r_rstack r) (length fs) (number xs) h; finish_leaf (advance r (i + 2)) obj h' }"
      using D True num by (simp add: processLineItem_def line finish_leaf_def Let_def)
    moreover have "spec_typed fs ty xs = leaf_progress (RInteger (number xs)) fs (drop (i + 2) xs)"
      using True Some by (simp add: spec_typed_def lex_item_def leaf_progress_def reply_types)
    ultimately show ?thesis
      using leaf_item_ok [OF at k integer_ok [OF D(11,9)]] by simp
  next
    case False
    have s: "to_size (int i) = i" "i < 2 ^ 63"
      using k D(4) buffer_okD(3,5) [OF D(3)] by (auto simp: to_size_id)
    have "processLineItem r h =
        do { (obj, h') \<leftarrow> cs (r_rstack r) (length fs) (drop (r_pos r) (r_mem r)) i h;
             finish_leaf (advance r (i + 2)) obj h' }"
      using D False s by (simp add: processLineItem_def line finish_leaf_def Let_def)
    moreover have "take i (drop (r_pos r) (r_mem r)) = take i xs"
      using buffer_okD(6) [OF D(3)] D(4) k by simp
    moreover have "spec_typed fs ty xs = leaf_progress (str_val ty (take i xs)) fs (drop (i + 2) xs)"
      using ty False Some by (auto simp: spec_typed_def lex_item_def leaf_progress_def reply_types)
    moreover have "i \<le> length (drop (r_pos r) (r_mem r))"
      using buffer_okD(6) [OF D(3)] D(4) k by simp
    moreover have "is_str_type (t_type (r_rstack r ! length fs))"
      using ty False D(10) by (auto simp: is_str_type_def)
    ultimately show ?thesis
      using leaf_item_ok [OF at k string_ok [OF D(11,9) refl, of i "drop (r_pos r) (r_mem r)"]] s(2) D(10)
      by simp
  qed
qed

lemma processBulkItem_ok:
  assumes at: "reader_at (fn_table cs ca ci cn fr) (inv b) r h fs ps ty xs"
    and ty: "ty = REDIS_REPLY_STRING"
  shows "refines (fn_table cs ca ci cn fr) (inv b) mem h (processBulkItem r h) (spec_typed fs ty xs)"
proof (cases "find_crlf xs")
  case None
  note D = reader_atD [OF at]
  have "processBulkItem r h = Some (REDIS_ERR, r, h)"
    using None D(4) by (simp add: processBulkItem_def seek_input [OF D(3)])
  moreover have "spec_typed fs ty xs = Wait fs ty xs"
    using None ty by (auto simp: spec_typed_def lex_item_def reply_types)
  ultimately show ?thesis using more_item_ok [OF at] by simp
next
  case (Some i)
  note D = reader_atD [OF at]
  note B = buffer_okD [OF D(3), unfolded D(4)]
  have k: "i + 2 \<le> length xs" using find_crlf_SomeD [OF Some] by simp
  have seek: "seekNewline (drop (r_pos r) (r_mem r)) (r_left r) = Some i"
    using Some D(4) by (simp add: seek_input [OF D(3)])
  note num = number_input [OF D(3), unfolded D(4), OF Some]
  have small: "r_pos r + length xs < 2 ^ 31" using B by simp
  have u: "u64 (i + 2) = i + 2" using k small by (intro u64_id) simp
  have adv: "j \<le> length xs \<Longrightarrow> r\<lparr>r_pos := u64 (r_pos r + j)\<rparr> = advance r j" for j
    using small by (simp add: advance_def u64_id)
  show ?thesis
  proof (cases "number xs < 0")
    case True
    have "processBulkItem r h =
        do { (obj, h') \<leftarrow> cn (r_rstack r) (length fs) h; finish_leaf (advance r (i + 2)) obj h' }"
      using D True num seek u adv [OF k] SetError_advance [OF D(3)]
      by (cases "cn (r_rstack r) (length fs) h") (auto simp: processBulkItem_def finish_leaf_def Let_def)
    moreover have "spec_typed fs ty xs = leaf_progress RNil fs (drop (i + 2) xs)"
      using True Some ty by (simp add: spec_typed_def lex_item_def leaf_progress_def reply_types)
    ultimately show ?thesis
      using leaf_item_ok [OF at k nil_ok [OF D(11,9)]] by simp
  next
    case False
    define n where "n = nat (number xs)"
    have n: "number xs = int n" "n < 2 ^ 63"
      using False readLongLong_range [OF num] by (auto simp: n_def)
    define j where "j = i + 2 + n + 2"
    have j: "r_pos r + j < 2 ^ 64" using k small n(2) by (simp add: j_def)
    have "to_size (int (i + 2) + s64 (int n + 2)) = to_size (int j)"
      unfolding to_size_s64 j_def by (simp add: add.assoc)
    then have bl: "to_size (int (i + 2) + s64 (int n + 2)) = j" using j by (simp add: to_size_id)
    show ?thesis
    proof (cases "j \<le> length xs")
      case True
      then have fits: "u64 (r_pos r + j) \<le> r_len r" using B j by (simp add: u64_id)
      let ?s = "drop (r_pos r + i + 2) (r_mem r)"
      have "?s = drop (i + 2) (drop (r_pos r) (r_mem r))" by (simp add: add.commute)
      then have s: "?s = drop (i + 2) xs @ drop (r_len r) (r_mem r)" using B(6) k by simp
      have "processBulkItem r h =
          do { (obj, h') \<leftarrow> cs (r_rstack r) (length fs) ?s n h; finish_leaf (advance r j) obj h' }"
        using D False num seek u n bl fits adv [OF True] SetError_advance [OF D(3)]
        by (cases "cs (r_rstack r) (length fs) ?s n h") (auto simp: processBulkItem_def finish_leaf_def Let_def)
      moreover have "spec_typed fs ty xs = leaf_progress (RString (take n (drop (i + 2) xs))) fs (drop j xs)"
        using True Some ty n by (simp add: spec_typed_def lex_item_def leaf_progress_def reply_types j_def)
      moreover have "n \<le> length ?s" "take n ?s = take n (drop (i + 2) xs)"
        using True unfolding s by (simp_all add: j_def)
      moreover have "is_str_type (t_type (r_rstack r ! length fs))"
        "str_val (t_type (r_rstack r ! length fs)) = RString"
        using ty D(10) by (auto simp: is_str_type_def str_val_def)
      ultimately show ?thesis
        using leaf_item_ok [OF at True string_ok [OF D(11,9) refl, of n ?s]] n(2) D(10) by simp
    next
      case False
      then have "\<not> u64 (r_pos r + j) \<le> r_len r" using B j by (simp add: u64_id)
      then have "processBulkItem r h = Some (REDIS_ERR, r, h)"
        using D \<open>\<not> number xs < 0\<close> num seek u n bl by (simp add: processBulkItem_def Let_def)
      moreover have "spec_typed fs ty xs = Wait fs ty xs"
        using False Some ty n by (simp add: spec_typed_def lex_item_def reply_types j_def)
      ultimately show ?thesis using more_item_ok [OF at] by simp
    qed
  qed
qed

lemma push_task_ok:
  assumes at: "reader_at f (inv b) r h fs ps REDIS_REPLY_ARRAY xs" and n: "0 < n" "n < 2 ^ 31"
    and i: "inv b h' (p # ps) (Open ((n, []) # fs))" and e: "s32 e = int n" and d: "length fs < 8"
  shows "reader_at f (inv b) (if length fs = 0 then (push_task r e p)\<lparr>r_reply := p\<rparr> else push_task r e p)
    h' ((n, []) # fs) (p # ps) (- 1) xs"
proof -
  note D = reader_atD [OF at]
  let ?k = "length fs"
  let ?st = "r_rstack (push_task r e p)"
  have st: "?st = ((r_rstack r)[?k := (r_rstack r ! ?k)\<lparr>t_elements := int n, t_obj := p\<rparr>])
      [Suc ?k := (r_rstack r ! Suc ?k)\<lparr>t_type := - 1, t_elements := - 1, t_idx := 0, t_obj := NULL,
         t_parent := Some ?k, t_privdata := r_privdata r\<rparr>]"
    using D(8) e by (simp add: push_task_def Let_def)
  have "tasks_ok ?st fs ps"
    unfolding st using D(5) d by (intro tasks_ok_update tasks_ok_current [OF D(9)]) simp_all
  then have t: "tasks_ok ?st ((n, []) # fs) (p # ps)" "t_type (?st ! Suc ?k) = - 1" "length ?st = 9"
    using D(5,10) n d by (simp_all add: Let_def st)
  have r: "r_ridx (push_task r e p) = int (Suc ?k)" "r_err (push_task r e p) = 0"
    "r_fn (push_task r e p) = Some f" "r_reply (push_task r e p) = r_reply r"
    "r_buf (push_task r e p) = r_buf r" "r_pos (push_task r e p) = r_pos r" "r_len (push_task r e p) = r_len r"
    using D by (simp_all add: push_task_def Let_def)
  let ?r = "if length fs = 0 then (push_task r e p)\<lparr>r_reply := p\<rparr> else push_task r e p"
  have "buffer_ok ?r = buffer_ok r \<and> r_input ?r = r_input r"
    using r by (intro buffer_input_cong) simp_all
  moreover have "r_reply ?r = root_of (p # ps)"
    using r(4) D(12) tasks_ok_length [OF D(9)] by (auto simp: root_of_def)
  ultimately show ?thesis
    using t r D(3,4) d i by (auto simp: reader_at_def)
qed

lemma finish_leaf_array:
  assumes "r_ridx r = int k"
  shows "finish_leaf r obj h =
      (if obj = NULL then do { (r, h) \<leftarrow> redisReaderSetErrorOOM r h; Some (REDIS_ERR, r, h) }
       else do { r' \<leftarrow> moveToNextTask r;
                 Some (REDIS_OK, if k = 0 then r'\<lparr>r_reply := obj\<rparr> else r', h) })"
  using assms by (simp add: finish_leaf_def moveToNextTask.simps)

text \<open>A multi bulk header after its line was read, in the three cases of its count.\<close>

lemma multi_leaf_ok:
  assumes at: "reader_at (fn_table cs ca ci cn fr) (inv b) r h fs ps ty xs" and ty: "ty = REDIS_REPLY_ARRAY"
    and len: "length fs < 8" and line: "find_crlf xs = Some i" and e: "number xs \<le> 0"
  shows "refines (fn_table cs ca ci cn fr) (inv b) mem h (processMultiBulkItem r h) (spec_typed fs ty xs)"
proof -
  note D = reader_atD [OF at]
  let ?e = "number xs"
  let ?r = "advance r (i + 2)"
  let ?v = "if ?e = - 1 then RNil else if s32 ?e = 0 then RArray [] else RBadArray (s32 ?e)"
  have k: "i + 2 \<le> length xs" using find_crlf_SomeD [OF line] by simp
  have s: "- (2 ^ 31) \<le> s32 ?e" "s32 ?e < 2 ^ 31"
    using signed_take_bit_int_greater_eq_minus_exp [of 31 ?e] signed_take_bit_int_less_exp [of 31 ?e]
    by simp_all
  let ?c = "if ?e = - 1 then cn (r_rstack r) (length fs) h else ca (r_rstack r) (length fs) (s32 ?e) h"
  have y: "yields (inv b) mem h ps fs (leaf_at ps) (add_item ?v fs) ?c"
    using nil_ok [OF D(11,9) refl] array_leaf_ok [OF D(11,9) refl s] by simp
  then obtain obj h' where c: "?c = Some (obj, h')" by (auto simp: yields_def)
  have "readLine r = (Some (r_pos r, int i), ?r)" "r_ridx r \<noteq> 8"
    using line len D(4,7) by (simp_all add: readLine_input [OF D(3)])
  then have "processMultiBulkItem r h = finish_leaf ?r obj h'"
    using finish_leaf_array [of ?r "length fs" obj h'] D e c
      number_input [OF D(3), unfolded D(4), OF line]
    by (cases "?e = - 1") (simp_all add: processMultiBulkItem_def Let_def)
  moreover have "spec_typed fs ty xs = leaf_progress ?v fs (drop (i + 2) xs)"
    using e line ty len by (simp add: spec_typed_def lex_item_def leaf_progress_def reply_types)
  ultimately show ?thesis using finish_leaf_ok [OF reader_at_advance [OF at k]] y c by simp
qed

lemma multi_begin_ok:
  assumes at: "reader_at (fn_table cs ca ci cn fr) (inv b) r h fs ps ty xs" and ty: "ty = REDIS_REPLY_ARRAY"
    and len: "length fs < 8" and line: "find_crlf xs = Some i" and e: "0 < number xs" "0 < s32 (number xs)"
  shows "refines (fn_table cs ca ci cn fr) (inv b) mem h (processMultiBulkItem r h) (spec_typed fs ty xs)"
proof -
  note D = reader_atD [OF at]
  let ?e = "number xs"
  let ?r = "advance r (i + 2)"
  have k: "i + 2 \<le> length xs" using find_crlf_SomeD [OF line] by simp
  note at' = reader_at_advance [OF at k]
  define n where "n = nat (s32 ?e)"
  have "int n = s32 ?e" unfolding n_def using e(2) by (intro nat_0_le) (rule less_imp_le)
  moreover have "s32 ?e < int (2 ^ 31)" using signed_take_bit_int_less_exp [of 31 ?e] by simp
  ultimately have n: "s32 ?e = int n" "0 < n" "n < 2 ^ 31" using e(2) by linarith+
  note y = array_ok [OF D(11,9) refl n(2,3)]
  then obtain obj h' where c: "ca (r_rstack r) (length fs) (int n) h = Some (obj, h')"
    by (auto simp: yields_def)
  have "readLine r = (Some (r_pos r, int i), ?r)" "r_ridx r \<noteq> 8" "?e \<noteq> - 1"
    using line len D(4,7) e by (simp_all add: readLine_input [OF D(3)])
  then have p: "processMultiBulkItem r h =
      (if obj = NULL then do { (r, h) \<leftarrow> redisReaderSetErrorOOM ?r h'; Some (REDIS_ERR, r, h) }
       else Some (REDIS_OK, if length fs = 0 then (push_task ?r ?e obj)\<lparr>r_reply := obj\<rparr>
                            else push_task ?r ?e obj, h'))"
    using D e c n number_input [OF D(3), unfolded D(4), OF line]
    by (simp add: processMultiBulkItem_def Let_def)
  have sp: "spec_typed fs ty xs = Next ((n, []) # fs) (drop (i + 2) xs)"
    using e line ty len by (simp add: spec_typed_def lex_item_def reply_types n_def)
  show ?thesis
  proof (cases "obj = NULL")
    case True
    then have i: "inv b h' ps (Open fs)" "\<not> mem h" using y c by (auto simp: yields_def)
    obtain r' h'' where "redisReaderSetErrorOOM ?r h' = Some (r', h'')"
      "reader_failed (fn_table cs ca ci cn fr) (inv b) r' h'' REDIS_ERR_OOM"
      using SetError_ok [OF i(1)] reader_atD [OF at'] unfolding redisReaderSetErrorOOM_def by metis
    then show ?thesis using True i(2) p by (auto simp: refines_def)
  next
    case False
    then have i: "inv b h' (obj # ps) (Open ((n, []) # fs))" "mem h \<longrightarrow> mem h'"
      using y c by (auto simp: yields_def)
    show ?thesis
      using push_task_ok [OF at' [unfolded ty] n(2,3) i(1) n(1) len] i(2) sp p False
      unfolding refines_def by auto
  qed
qed

lemma processMultiBulkItem_ok:
  assumes at: "reader_at (fn_table cs ca ci cn fr) (inv b) r h fs ps ty xs"
    and ty: "ty = REDIS_REPLY_ARRAY" and nc: "spec_typed fs ty xs \<noteq> Crashed"
  shows "refines (fn_table cs ca ci cn fr) (inv b) mem h (processMultiBulkItem r h) (spec_typed fs ty xs)"
proof (cases "length fs = 8")
  case True
  note D = reader_atD [OF at]
  show ?thesis
    using failed_ok [OF at D(11), of REDIS_ERR_PROTOCOL] True D(7) ty
    by (simp add: processMultiBulkItem_def spec_typed_def)
next
  case False
  note D = reader_atD [OF at]
  then have len: "length fs < 8" using False by simp
  show ?thesis
  proof (cases "find_crlf xs")
    case None
    have "processMultiBulkItem r h = Some (REDIS_ERR, r, h)"
      using None D(4,7) len by (simp add: processMultiBulkItem_def readLine_input [OF D(3)])
    moreover have "spec_typed fs ty xs = Wait fs ty xs"
      using None ty False by (auto simp: spec_typed_def lex_item_def)
    ultimately show ?thesis using more_item_ok [OF at] by simp
  next
    case (Some i)
    have "0 < number xs \<Longrightarrow> 0 < s32 (number xs)"
      using nc Some ty len by (auto simp: spec_typed_def lex_item_def reply_types Let_def split: if_splits)
    then show ?thesis
      using multi_leaf_ok [OF at ty len Some] multi_begin_ok [OF at ty len Some] by fastforce
  qed
qed

lemma processTyped_ok:
  assumes at: "reader_at (fn_table cs ca ci cn fr) (inv b) r h fs ps ty xs"
    and ty: "item_typed ty" and nc: "spec_typed fs ty xs \<noteq> Crashed"
  shows "refines (fn_table cs ca ci cn fr) (inv b) mem h (processTyped r h) (spec_typed fs ty xs)"
proof -
  note D = reader_atD [OF at]
  have "processTyped r h =
      (if ty = REDIS_REPLY_STRING then processBulkItem r h
       else if ty = REDIS_REPLY_ARRAY then processMultiBulkItem r h else processLineItem r h)"
    using ty D(8,10) by (auto simp: processTyped_def item_typed_def reply_types)
  then show ?thesis
    using ty processBulkItem_ok [OF at] processLineItem_ok [OF at] processMultiBulkItem_ok [OF at _ nc]
    by (auto simp: item_typed_def reply_types)
qed

lemma processItem_ok:
  assumes at: "reader_at (fn_table cs ca ci cn fr) (inv b) r h fs ps ty xs"
    and ty: "type_ok ty" and nc: "spec_item fs ty xs \<noteq> Crashed"
  shows "refines (fn_table cs ca ci cn fr) (inv b) mem h (processItem r h) (spec_item fs ty xs)"
proof (cases "ty = - 1")
  case False
  then have "item_typed ty" "0 \<le> ty" using ty by (auto simp: type_ok_def item_typed_def reply_types)
  then show ?thesis
    using processTyped_ok [OF at] nc reader_atD(8,10) [OF at] by (simp add: processItem_def spec_item_def)
next
  case True
  note D = reader_atD [OF at]
  show ?thesis
  proof (cases xs)
    case Nil
    then have "processItem r h = Some (REDIS_ERR, r, h)"
      using True D(4,8,10) by (simp add: processItem_def readBytes_input [OF D(3)] del: One_nat_def)
    then show ?thesis using more_item_ok [OF at] True Nil by (simp add: spec_item_def)
  next
    case (Cons c xs')
    have rb: "readBytes r 1 = (Some (r_pos r), advance r 1)" "r_mem r ! r_pos r = c"
      using Cons D(4) input_hd [OF D(3)] by (simp_all add: readBytes_input [OF D(3)] del: One_nat_def)
    have at1: "reader_at (fn_table cs ca ci cn fr) (inv b) (advance r 1) h fs ps ty xs'"
      using reader_at_advance [OF at, of 1] Cons by simp
    note D1 = reader_atD [OF at1]
    show ?thesis
    proof (cases "item_type c")
      case None
      have "processItem r h =
          do { (r, h) \<leftarrow> redisReaderSetErrorProtocolByte (advance r 1) h c; Some (REDIS_ERR, r, h) }"
        using True None D(8,10) rb by (simp add: processItem_def del: One_nat_def)
      then show ?thesis
        using failed_ok [OF at1 D1(11)] True Cons None
        by (simp add: spec_item_def redisReaderSetErrorProtocolByte_def Let_def)
    next
      case (Some t)
      let ?r = "set_type (advance r 1) t"
      have "r_rstack ?r = (r_rstack r)[length fs := (r_rstack r ! length fs)\<lparr>t_type := t\<rparr>]"
        using D(8) by (simp add: set_type_def Let_def)
      moreover have "buffer_ok ?r = buffer_ok (advance r 1) \<and> r_input ?r = r_input (advance r 1)"
        by (intro buffer_input_cong) (simp_all add: set_type_def Let_def)
      moreover have "r_err ?r = r_err r" "r_fn ?r = r_fn r" "r_ridx ?r = r_ridx r" "r_reply ?r = r_reply r"
        by (simp_all add: set_type_def Let_def)
      ultimately have "reader_at (fn_table cs ca ci cn fr) (inv b) ?r h fs ps t xs'"
        using D D1(3,4) tasks_ok_current [OF D(9)] by (simp add: reader_at_def)
      moreover have "item_typed t" using Some by (auto simp: item_type_def item_typed_def split: if_splits)
      moreover have "spec_item fs ty xs = spec_typed fs t xs'"
        using True Cons Some by (simp add: spec_item_def)
      moreover have "processItem r h = processTyped ?r h"
        using True Some D(8,10) rb by (simp add: processItem_def del: One_nat_def)
      ultimately show ?thesis using processTyped_ok nc by simp
    qed
  qed
qed

end

section \<open>Whole calls\<close>

text \<open>
  Between calls the reader is idle or in the middle of a reply; \<open>reader_in\<close> covers both.
  \<open>refines_loop\<close> is the outcome of the loop over items.
\<close>

definition reader_idle ::
    "'h redisReplyObjectFunctions \<Rightarrow> ('h \<Rightarrow> ptr list \<Rightarrow> build \<Rightarrow> bool) \<Rightarrow> 'h redisReader \<Rightarrow> 'h \<Rightarrow>
     char list \<Rightarrow> bool" where
  "reader_idle f I r h xs \<longleftrightarrow>
     r_err r = 0 \<and> r_fn r = Some f \<and> buffer_ok r \<and> r_input r = xs \<and> length (r_rstack r) = 9 \<and>
     r_ridx r = - 1 \<and> r_reply r = NULL \<and> I h [] (Open [])"

definition reader_in ::
    "'h redisReplyObjectFunctions \<Rightarrow> ('h \<Rightarrow> ptr list \<Rightarrow> build \<Rightarrow> bool) \<Rightarrow> 'h redisReader \<Rightarrow> 'h \<Rightarrow>
     frames \<Rightarrow> int \<Rightarrow> char list \<Rightarrow> bool" where
  "reader_in f I r h fs ty xs \<longleftrightarrow>
     (\<exists>ps. reader_at f I r h fs ps ty xs) \<and> type_ok ty \<and> \<not> (ty = REDIS_REPLY_ARRAY \<and> length fs = 8) \<or>
     fs = [] \<and> ty = - 1 \<and> reader_idle f I r h xs"

definition refines_loop ::
    "'h redisReplyObjectFunctions \<Rightarrow> ('h \<Rightarrow> ptr list \<Rightarrow> build \<Rightarrow> bool) \<Rightarrow> ('h \<Rightarrow> bool) \<Rightarrow> 'h \<Rightarrow>
     ('h redisReader \<times> 'h) option \<Rightarrow> progress \<Rightarrow> bool" where
  "refines_loop f I mem h out x \<longleftrightarrow>
     (\<exists>r' h'. out = Some (r', h') \<and>
        (\<not> mem h \<and> reader_failed f I r' h' REDIS_ERR_OOM \<or>
         (mem h \<longrightarrow> mem h') \<and>
         (case x of
            Next fs xs \<Rightarrow> False
          | Wait fs ty xs \<Rightarrow> (\<exists>ps. reader_at f I r' h' fs ps ty xs)
          | Finished v xs \<Rightarrow> reader_done f I r' h' v xs
          | Failed e \<Rightarrow> reader_failed f I r' h' e
          | Crashed \<Rightarrow> True)))"

lemma type_ok_minus1 [simp]: "type_ok (- 1)"
  by (simp add: type_ok_def)

lemma spec_item_Wait:
  assumes "spec_item fs ty xs = Wait fs' ty' xs'" "type_ok ty"
  shows "fs' = fs" "type_ok ty'" "\<not> (ty' = REDIS_REPLY_ARRAY \<and> length fs' = 8)"
proof -
  have t: "type_ok t" if "item_type c = Some t" for c t
    using that by (auto simp: item_type_def type_ok_def item_typed_def split: if_splits)
  have w: "\<not> (ty' = REDIS_REPLY_ARRAY \<and> length fs' = 8)" if "spec_typed fs t ys = Wait fs' ty' xs'" for t ys
    using that spec_typed_Wait [OF that] by (auto simp: spec_typed_def)
  show "fs' = fs" "type_ok ty'" "\<not> (ty' = REDIS_REPLY_ARRAY \<and> length fs' = 8)"
    using assms t w
    by (auto simp: spec_item_def split: if_splits list.splits option.splits dest: spec_typed_Wait)
      (auto simp: type_ok_def item_typed_def reply_types)
qed

lemma spec_run_Wait:
  "spec_run fs ty xs = Wait fs' ty' xs' \<Longrightarrow> type_ok ty \<Longrightarrow>
    type_ok ty' \<and> \<not> (ty' = REDIS_REPLY_ARRAY \<and> length fs' = 8)"
proof (induction fs ty xs rule: spec_run.induct)
  case (1 fs ty xs)
  show ?case
  proof (cases "spec_item fs ty xs")
    case (Next gs ys)
    then show ?thesis using 1 by (simp add: spec_run.simps [of fs ty])
  next
    case (Wait gs t ys)
    then show ?thesis using spec_item_Wait [OF Wait "1.prems"(2)] "1.prems"(1)
      by (auto simp: spec_run.simps [of fs ty])
  qed (use "1.prems" in \<open>simp_all add: spec_run.simps [of fs ty]\<close>)
qed

lemma spec_run_Failed: "spec_run fs ty xs = Failed e \<Longrightarrow> e = REDIS_ERR_PROTOCOL"
proof (induction fs ty xs rule: spec_run.induct)
  case (1 fs ty xs)
  have "spec_typed fs t ys = Failed e \<Longrightarrow> e = REDIS_ERR_PROTOCOL" for t ys
    by (auto simp: spec_typed_def split: if_splits item.splits build.splits)
  then have "spec_item fs ty xs = Failed e \<Longrightarrow> e = REDIS_ERR_PROTOCOL"
    by (auto simp: spec_item_def split: if_splits list.splits option.splits)
  then show ?case
    using 1 by (cases "spec_item fs ty xs") (auto simp: spec_run.simps [of fs ty])
qed

lemma discard_read_ok:
  assumes "buffer_ok r"
  obtains r' where "discard_read r = Some r'" "buffer_ok r'" "r_input r' = r_input r"
    "r_err r' = r_err r" "r_fn r' = r_fn r" "r_rstack r' = r_rstack r" "r_ridx r' = r_ridx r"
    "r_reply r' = r_reply r"
proof (cases "r_pos r \<ge> 1024")
  case False
  then show ?thesis using that [of r] assms by (simp add: discard_read_def)
next
  case True
  obtain s where s: "r_buf r = Some s" "sds_ok s" "sdslen s = r_len r" "r_len r < 2 ^ 31" "r_pos r \<le> r_len r"
    using assms by (auto simp: buffer_ok_def split: option.splits)
  let ?s = "sdsrange s (int (r_pos r)) (- 1)"
  have c: "sds_ok ?s" "sdsstr ?s = drop (r_pos r) (sdsstr s)"
    using sdsb.cut_ok [OF s(2), of "r_pos r"] s(3,4,5) by simp_all
  then have "sdslen ?s = r_len r - r_pos r" using sdsb.len_str [OF c(1)] s(2,3) by simp
  moreover have "s32 (int (r_pos r)) = int (r_pos r)" using s(4,5) by (intro s32_of_nat) simp
  moreover have "r_input r = sdsstr ?s"
    using c(2) s(1,3) by (simp add: r_input_def r_mem_def sdsstr_def)
  ultimately show ?thesis
    using that [of "r\<lparr>r_buf := Some ?s, r_pos := 0, r_len := sdslen ?s\<rparr>"] True s c
    by (simp add: discard_read_def buffer_ok_def r_input_def r_mem_def sdsstr_def)
qed

context reply_builder
begin

lemma process_items_ok:
  assumes "reader_at (fn_table cs ca ci cn fr) (inv b) r h fs ps ty xs" "type_ok ty"
    and "spec_run fs ty xs \<noteq> Crashed"
  shows "refines_loop (fn_table cs ca ci cn fr) (inv b) mem h (process_items r h) (spec_run fs ty xs)"
  using assms
proof (induction fs ty xs arbitrary: r h ps rule: spec_run.induct)
  case (1 fs ty xs)
  let ?f = "fn_table cs ca ci cn fr"
  have "spec_item fs ty xs \<noteq> Crashed" using "1.prems"(3) by (auto simp: spec_run.simps [of fs ty])
  note step = processItem_ok [OF "1.prems"(1,2) this]
  then obtain status r' h' where p: "processItem r h = Some (status, r', h')" by (auto simp: refines_def)
  have loop: "process_items r h = (if status = REDIS_OK then process_items r' h' else Some (r', h'))"
    using reader_atD(7) [OF "1.prems"(1)] p by (subst process_items.simps) simp
  have fin: "process_items r' h' = Some (r', h')" if "r_ridx r' = - 1"
    using that by (subst process_items.simps) simp
  show ?case
  proof (cases "\<not> mem h \<and> status = REDIS_ERR \<and> reader_failed ?f (inv b) r' h' REDIS_ERR_OOM")
    case True
    then show ?thesis using loop by (auto simp: refines_loop_def redis_codes)
  next
    case ok: False
    show ?thesis
    proof (cases "spec_item fs ty xs")
      case (Next fs' xs')
      then obtain ps' where at: "status = REDIS_OK" "reader_at ?f (inv b) r' h' fs' ps' (- 1) xs'" "mem h \<longrightarrow> mem h'"
        using step ok p by (auto simp: refines_def)
      have run: "spec_run fs ty xs = spec_run fs' (- 1) xs'" using Next by (simp add: spec_run.simps [of fs ty])
      have "refines_loop ?f (inv b) mem h' (process_items r' h') (spec_run fs' (- 1) xs')"
        using "1.IH" [OF Next at(2)] "1.prems"(3) run by simp
      then show ?thesis using at(1,3) loop run by (auto simp: refines_loop_def)
    next
      case (Wait gs t ys)
      then show ?thesis using step ok p loop
        by (auto simp: refines_def refines_loop_def spec_run.simps [of fs ty] redis_codes)
    next
      case (Finished v ys)
      then have "reader_done ?f (inv b) r' h' v ys" "status = REDIS_OK" "mem h \<longrightarrow> mem h'"
        using step ok p by (auto simp: refines_def)
      then show ?thesis using Finished loop fin
        by (auto simp: refines_loop_def spec_run.simps [of fs ty] reader_done_def)
    next
      case (Failed e)
      then show ?thesis using step ok p loop
        by (auto simp: refines_def refines_loop_def spec_run.simps [of fs ty] redis_codes)
    next
      case Crashed
      then show ?thesis using "1.prems"(3) by (simp add: spec_run.simps [of fs ty])
    qed
  qed
qed

end

definition refines_reply ::
    "'h redisReplyObjectFunctions \<Rightarrow> ('h \<Rightarrow> ptr list \<Rightarrow> build \<Rightarrow> bool) \<Rightarrow> ('h \<Rightarrow> bool) \<Rightarrow> 'h \<Rightarrow>
     (int \<times> ptr \<times> 'h redisReader \<times> 'h) option \<Rightarrow> progress \<Rightarrow> bool" where
  "refines_reply f I mem h out x \<longleftrightarrow>
     (\<exists>rc p r' h'. out = Some (rc, p, r', h') \<and>
        (\<not> mem h \<and> rc = REDIS_ERR \<and> p = NULL \<and> reader_failed f I r' h' REDIS_ERR_OOM \<or>
         (mem h \<longrightarrow> mem h') \<and>
         (case x of
            Next fs xs \<Rightarrow> False
          | Wait fs ty xs \<Rightarrow> rc = REDIS_OK \<and> p = NULL \<and> reader_in f I r' h' fs ty xs
          | Finished v xs \<Rightarrow>
              rc = REDIS_OK \<and> p \<noteq> NULL \<and> I h' [p] (Done v) \<and> reader_idle f (\<lambda>_ _ _. True) r' h' xs
          | Failed e \<Rightarrow> rc = REDIS_ERR \<and> p = NULL \<and> reader_failed f I r' h' e
          | Crashed \<Rightarrow> True)))"

lemma start_task_ok:
  assumes "reader_idle f I r h xs"
  shows "reader_at f I (start_task r) h [] [] (- 1) xs"
proof -
  have "buffer_ok (start_task r) = buffer_ok r \<and> r_input (start_task r) = r_input r"
    by (rule buffer_input_cong) (simp_all add: start_task_def)
  then show ?thesis
    using assms by (simp add: reader_idle_def reader_at_def start_task_def root_of_def)
qed

lemma reader_in_at:
  assumes "reader_in f I r h fs ty xs"
  shows "\<exists>ps. reader_at f I (if r_ridx r = - 1 then start_task r else r) h fs ps ty xs"
proof (cases "r_ridx r = - 1")
  case True
  then have "reader_idle f I r h xs" "fs = []" "ty = - 1"
    using assms by (auto simp: reader_in_def reader_at_def)
  then show ?thesis using True start_task_ok [of f I r h xs] by auto
next
  case False
  then show ?thesis using assms by (auto simp: reader_in_def reader_idle_def)
qed

lemma input_empty:
  assumes "buffer_ok r" "r_len r = 0"
  shows "r_input r = []"
  using assms by (simp add: r_input_def)

lemma spec_run_empty:
  assumes "type_ok ty" "\<not> (ty = REDIS_REPLY_ARRAY \<and> length fs = 8)"
  shows "spec_run fs ty [] = Wait fs ty []"
  using assms by (auto simp: spec_run.simps spec_item_def spec_typed_def lex_item_def)

text \<open>Feeding changes the buffer only.\<close>

lemma reader_in_buffer:
  assumes "reader_in f I r h fs ty xs" "buffer_ok r'" "r_input r' = ys"
    and "r' = r\<lparr>r_buf := r_buf r', r_pos := r_pos r', r_len := r_len r'\<rparr>"
  shows "reader_in f I r' h fs ty ys"
proof -
  have "r_err r' = r_err r" "r_fn r' = r_fn r" "r_rstack r' = r_rstack r" "r_ridx r' = r_ridx r"
    "r_reply r' = r_reply r"
    by (subst assms(4), simp)+
  then show ?thesis using assms(1,2,3) unfolding reader_in_def reader_at_def reader_idle_def by simp blast
qed

lemma reader_in_buffer_ok: "reader_in f I r h fs ty xs \<Longrightarrow> buffer_ok r \<and> r_input r = xs \<and> r_err r = 0 \<and> r_fn r = Some f"
  by (auto simp: reader_in_def reader_at_def reader_idle_def)

lemma feed_shrink:
  assumes "buffer_ok r" "r_buf r = Some b0" "sdsempty A \<noteq> None"
  obtains r1 b where
    "(if r_len r = 0 \<and> r_maxbuf r \<noteq> 0 \<and> sdsavail b0 > r_maxbuf r
      then do { b \<leftarrow> sdsempty A; Some (r\<lparr>r_buf := Some b, r_pos := 0\<rparr>, b) } else Some (r, b0)) = Some (r1, b)"
    "buffer_ok r1" "r_input r1 = r_input r" "r_buf r1 = Some b" "r_len r1 = r_len r"
    "r1 = r\<lparr>r_buf := r_buf r1, r_pos := r_pos r1, r_len := r_len r1\<rparr>"
proof (cases "r_len r = 0 \<and> r_maxbuf r \<noteq> 0 \<and> sdsavail b0 > r_maxbuf r")
  case True
  obtain e where e: "sdsempty A = Some e" using assms(3) by blast
  note E = sdsb.empty_ok [OF e]
  let ?r = "r\<lparr>r_buf := Some e, r_pos := 0\<rparr>"
  have "buffer_ok ?r" "r_input ?r = []" "r_input r = []"
    using True E sdsb.len_str [of e] input_empty [OF assms(1)]
    by (simp_all add: buffer_ok_def r_input_def)
  then show ?thesis using that [of ?r e] True e by simp
next
  case False
  then show ?thesis using that [of r b0] assms by auto
qed

lemma feed_append:
  assumes "buffer_ok r" "r_buf r = Some b" "sdscatlen A b d n = Some b'" "n \<le> length d" "r_len r + n < 2 ^ 31"
  shows "buffer_ok (r\<lparr>r_buf := Some b', r_len := sdslen b'\<rparr>)" "sdslen b' = r_len r + n"
    "r_input (r\<lparr>r_buf := Some b', r_len := sdslen b'\<rparr>) = r_input r @ take n d"
proof -
  have b: "sds_ok b" "sdslen b = r_len r" "r_pos r \<le> r_len r" using assms(1,2) by (auto simp: buffer_ok_def)
  have b': "sds_ok b'" "sdsstr b' = sdsstr b @ take n d"
    using sdsb.cat_ok [OF assms(3) b(1)] assms(4,5) b(2) by simp_all
  show l: "sdslen b' = r_len r + n"
    using sdsb.len_str [OF b'(1)] sdsb.len_str [OF b(1)] b' b(2) assms(4) by simp
  show "buffer_ok (r\<lparr>r_buf := Some b', r_len := sdslen b'\<rparr>)"
    using b' l b(3) assms(5) by (simp add: buffer_ok_def)
  have "r_input (r\<lparr>r_buf := Some b', r_len := sdslen b'\<rparr>) = drop (r_pos r) (sdsstr b')"
    "r_input r = drop (r_pos r) (sdsstr b)"
    using assms(2) b(2) by (simp_all add: r_input_def r_mem_def sdsstr_def)
  then show "r_input (r\<lparr>r_buf := Some b', r_len := sdslen b'\<rparr>) = r_input r @ take n d"
    using b' b(2,3) sdsb.len_str [OF b(1)] by simp
qed

text \<open>The end of \<^verbatim>\<open>redisReaderGetReply\<close>, after the loop.\<close>

definition emit_reply :: "'h redisReader \<Rightarrow> 'h \<Rightarrow> (int \<times> ptr \<times> 'h redisReader \<times> 'h) option" where
  "emit_reply r h =
     (if r_err r \<noteq> 0 then Some (REDIS_ERR, NULL, r, h)
      else do {
        r \<leftarrow> discard_read r;
        if r_ridx r = - 1 then Some (REDIS_OK, r_reply r, r\<lparr>r_reply := NULL\<rparr>, h)
        else Some (REDIS_OK, NULL, r, h)
      })"

lemma GetReply_emit:
  assumes "r_err r = 0" "r_len r \<noteq> 0"
  shows "redisReaderGetReply r h =
    do { (r, h) \<leftarrow> process_items (if r_ridx r = - 1 then start_task r else r) h; emit_reply r h }"
  using assms by (simp add: redisReaderGetReply_def emit_reply_def Let_def)

lemma emit_failed: "reader_failed f I r h e \<Longrightarrow> e \<noteq> 0 \<Longrightarrow> emit_reply r h = Some (REDIS_ERR, NULL, r, h)"
  by (simp add: emit_reply_def reader_failed_def)

lemma emit_wait:
  assumes "reader_at f I r h fs ps ty xs"
  shows "\<exists>r'. emit_reply r h = Some (REDIS_OK, NULL, r', h) \<and> reader_at f I r' h fs ps ty xs"
proof -
  note D = reader_atD [OF assms]
  obtain r' where d: "discard_read r = Some r'" "buffer_ok r'" "r_input r' = r_input r"
    "r_err r' = r_err r" "r_fn r' = r_fn r" "r_rstack r' = r_rstack r" "r_ridx r' = r_ridx r"
    "r_reply r' = r_reply r"
    using discard_read_ok [OF D(3)] by blast
  have "reader_at f I r' h fs ps ty xs" using d D by (simp add: reader_at_def)
  then show ?thesis using d D(1,7) by (simp add: emit_reply_def)
qed

lemma emit_done:
  assumes "reader_done f I r h v xs"
  shows "\<exists>r'. emit_reply r h = Some (REDIS_OK, r_reply r, r', h) \<and> reader_idle f (\<lambda>_ _ _. True) r' h xs"
proof -
  have D: "r_err r = 0" "buffer_ok r" "r_ridx r = - 1" "r_fn r = Some f" "r_input r = xs"
    "length (r_rstack r) = 9"
    using assms by (simp_all add: reader_done_def)
  obtain r' where d: "discard_read r = Some r'" "buffer_ok r'" "r_input r' = r_input r"
    "r_err r' = r_err r" "r_fn r' = r_fn r" "r_rstack r' = r_rstack r" "r_ridx r' = r_ridx r"
    "r_reply r' = r_reply r"
    using discard_read_ok [OF D(2)] by blast
  have "buffer_ok (r'\<lparr>r_reply := NULL\<rparr>) = buffer_ok r' \<and> r_input (r'\<lparr>r_reply := NULL\<rparr>) = r_input r'"
    by (rule buffer_input_cong) simp_all
  then show ?thesis using d D by (simp add: emit_reply_def reader_idle_def)
qed

context reply_builder
begin

lemma emit_ok:
  assumes loop: "refines_loop (fn_table cs ca ci cn fr) (inv b) mem h (Some (r, h')) (spec_run fs ty xs)"
    and ty: "type_ok ty" and nc: "spec_run fs ty xs \<noteq> Crashed"
  shows "refines_reply (fn_table cs ca ci cn fr) (inv b) mem h (emit_reply r h') (spec_run fs ty xs)"
    (is "refines_reply ?f _ _ _ _ _")
proof (cases "\<not> mem h \<and> reader_failed ?f (inv b) r h' REDIS_ERR_OOM")
  case True
  then have "emit_reply r h' = Some (REDIS_ERR, NULL, r, h')"
    by (intro emit_failed) (auto simp: redis_codes)
  then show ?thesis using True unfolding refines_reply_def by blast
next
  case False
  then have ok: "mem h \<longrightarrow> mem h'" and out: "case spec_run fs ty xs of
      Next fs xs \<Rightarrow> False | Wait fs ty xs \<Rightarrow> \<exists>ps. reader_at ?f (inv b) r h' fs ps ty xs
    | Finished v xs \<Rightarrow> reader_done ?f (inv b) r h' v xs | Failed e \<Rightarrow> reader_failed ?f (inv b) r h' e
    | Crashed \<Rightarrow> True"
    using loop by (auto simp: refines_loop_def)
  show ?thesis
  proof (cases "spec_run fs ty xs")
    case (Wait fs' ty' xs')
    then obtain ps where at: "reader_at ?f (inv b) r h' fs' ps ty' xs'" using out by auto
    obtain r' where "emit_reply r h' = Some (REDIS_OK, NULL, r', h')"
      "reader_at ?f (inv b) r' h' fs' ps ty' xs'"
      using emit_wait [OF at] by blast
    then have "emit_reply r h' = Some (REDIS_OK, NULL, r', h')" "reader_in ?f (inv b) r' h' fs' ty' xs'"
      using spec_run_Wait [OF Wait ty] by (auto simp: reader_in_def)
    then show ?thesis using ok Wait by (simp add: refines_reply_def)
  next
    case (Finished v xs')
    then obtain r' where "emit_reply r h' = Some (REDIS_OK, r_reply r, r', h')"
      "reader_idle ?f (\<lambda>_ _ _. True) r' h' xs'" "inv b h' [r_reply r] (Done v)"
      using out emit_done [of ?f "inv b" r h' v xs'] by (auto simp: reader_done_def)
    moreover from this(3) have "r_reply r \<noteq> NULL" using roots_ok by fastforce
    ultimately show ?thesis using ok Finished by (simp add: refines_reply_def)
  next
    case (Failed e)
    then have "emit_reply r h' = Some (REDIS_ERR, NULL, r, h')"
      using out spec_run_Failed [OF Failed] emit_failed [of ?f "inv b" r h' e] by (simp add: redis_codes)
    then show ?thesis using ok out Failed by (simp add: refines_reply_def)
  qed (use out nc in simp_all)
qed

lemma GetReply_ok:
  assumes r_in: "reader_in (fn_table cs ca ci cn fr) (inv b) r h fs ty xs" and nc: "spec_run fs ty xs \<noteq> Crashed"
  shows "refines_reply (fn_table cs ca ci cn fr) (inv b) mem h (redisReaderGetReply r h) (spec_run fs ty xs)"
    (is "refines_reply ?f _ _ _ _ _")
proof -
  have r: "r_err r = 0" "buffer_ok r" "r_input r = xs" "type_ok ty" "\<not> (ty = REDIS_REPLY_ARRAY \<and> length fs = 8)"
    using r_in by (auto simp: reader_in_def reader_at_def reader_idle_def reply_types)
  show ?thesis
  proof (cases "r_len r = 0")
    case True
    then have "xs = []" using r(3) input_empty [OF r(2)] by simp
    then have "spec_run fs ty xs = Wait fs ty xs" using spec_run_empty r(4,5) by simp
    then show ?thesis using True r(1) r_in by (simp add: redisReaderGetReply_def refines_reply_def)
  next
    case False
    let ?r = "if r_ridx r = - 1 then start_task r else r"
    obtain ps where at: "reader_at ?f (inv b) ?r h fs ps ty xs" using reader_in_at [OF r_in] by blast
    note loop = process_items_ok [OF at r(4) nc]
    then obtain r' h' where p: "process_items ?r h = Some (r', h')" by (auto simp: refines_loop_def)
    show ?thesis
      using emit_ok [OF loop [unfolded p] r(4) nc] by (simp add: GetReply_emit [OF r(1) False] p)
  qed
qed

lemma Feed_ok:
  assumes r_in: "reader_in (fn_table cs ca ci cn fr) (inv b) r h fs ty xs" and A: "sdsempty A \<noteq> None"
    and d: "n \<le> length d" "r_len r + n < 2 ^ 31"
  shows "\<exists>rc r' h'. redisReaderFeed A r h (Some d) n = Some (rc, r', h') \<and>
    (rc = REDIS_OK \<and> h' = h \<and> r_len r' \<le> r_len r + n \<and>
       reader_in (fn_table cs ca ci cn fr) (inv b) r' h fs ty (xs @ take n d) \<or>
     \<not> roomy A \<and> rc = REDIS_ERR \<and> reader_failed (fn_table cs ca ci cn fr) (inv b) r' h' REDIS_ERR_OOM)"
    (is "\<exists>rc r' h'. _ = _ \<and> (_ \<and> _ \<and> _ \<and> reader_in ?f _ _ _ _ _ _ \<or> _)")
proof (cases "1 \<le> n")
  case False
  then have "n = 0" by simp
  then show ?thesis using r_in reader_in_buffer_ok [OF r_in] by (simp add: redisReaderFeed_def)
next
  case True
  have r: "buffer_ok r" "r_input r = xs" "r_err r = 0" using reader_in_buffer_ok [OF r_in] by auto
  obtain b0 where b0: "r_buf r = Some b0" using r(1) by (auto simp: buffer_ok_def split: option.splits)
  obtain r1 b1 where r1: "(if r_len r = 0 \<and> r_maxbuf r \<noteq> 0 \<and> sdsavail b0 > r_maxbuf r
      then do { b \<leftarrow> sdsempty A; Some (r\<lparr>r_buf := Some b, r_pos := 0\<rparr>, b) } else Some (r, b0)) = Some (r1, b1)"
    "buffer_ok r1" "r_input r1 = r_input r" "r_buf r1 = Some b1" "r_len r1 = r_len r"
    "r1 = r\<lparr>r_buf := r_buf r1, r_pos := r_pos r1, r_len := r_len r1\<rparr>"
    using feed_shrink [OF r(1) b0 A] by blast
  have in1: "reader_in ?f (inv b) r1 h fs ty xs" using reader_in_buffer [OF r_in r1(2) _ r1(6)] r1(3) r(2) by simp
  have feed: "redisReaderFeed A r h (Some d) n = (case sdscatlen A b1 d n of
        None \<Rightarrow> do { (r, h) \<leftarrow> redisReaderSetErrorOOM r1 h; Some (REDIS_ERR, r, h) }
      | Some b' \<Rightarrow> Some (REDIS_OK, r1\<lparr>r_buf := Some b', r_len := sdslen b'\<rparr>, h))"
    using r(3) b0 True r1(1) by (simp add: redisReaderFeed_def)
  show ?thesis
  proof (cases "sdscatlen A b1 d n")
    case (Some b')
    note f = feed_append [OF r1(2,4) Some d(1) d(2) [folded r1(5)]]
    then have "reader_in ?f (inv b) (r1\<lparr>r_buf := Some b', r_len := sdslen b'\<rparr>) h fs ty (xs @ take n d)"
      using reader_in_buffer [OF in1 f(1)] r1(3) r(2) by simp
    then show ?thesis using feed Some f(2) r1(5) by simp
  next
    case None
    have "sdslen b1 + n < 2 ^ 31" using r1(2,4,5) d(2) by (simp add: buffer_ok_def)
    then have "\<not> roomy A" using sdscatlen_total [of A b1 n d] None by auto
    moreover obtain ps x where "inv b h ps x" "r_reply r1 = root_of ps" "r_fn r1 = Some ?f"
      using in1 by (auto simp: reader_in_def reader_at_def reader_idle_def root_of_def)
    then obtain r' h' where "redisReaderSetErrorOOM r1 h = Some (r', h')"
      "reader_failed ?f (inv b) r' h' REDIS_ERR_OOM"
      using SetError_ok r1(2) unfolding redisReaderSetErrorOOM_def by metis
    ultimately show ?thesis using feed None by simp
  qed
qed

lemma Free_ok:
  assumes "reader_in (fn_table cs ca ci cn fr) (inv b) r h fs ty xs"
  shows "\<exists>h'. redisReaderFree r h = Some h' \<and> inv b h' [] (Open [])"
proof -
  obtain ps x where i: "inv b h ps x" "r_reply r = root_of ps" "r_fn r = Some (fn_table cs ca ci cn fr)"
    using assms by (auto simp: reader_in_def reader_at_def reader_idle_def root_of_def)
  show ?thesis
  proof (cases "ps = []")
    case True
    then show ?thesis using i roots_ok [OF i(1)] by (auto simp: redisReaderFree_def root_of_def)
  next
    case False
    then have "r_reply r \<noteq> NULL" using i roots_ok [OF i(1)] last_in_set [OF False] by (metis root_of_def)
    then show ?thesis using False i free_ok [OF i(1) False] by (auto simp: redisReaderFree_def root_of_def)
  qed
qed

lemma Create_ok:
  assumes "redisReaderCreateWithFunctions A (Some (fn_table cs ca ci cn fr)) = Some r" "inv b h [] (Open [])"
  shows "reader_in (fn_table cs ca ci cn fr) (inv b) r h [] (- 1) []" "r_len r = 0"
proof -
  obtain e where e: "sdsempty A = Some e" "r_buf r = Some e" "r_pos r = 0" "r_len r = 0" "r_err r = 0"
    "r_fn r = Some (fn_table cs ca ci cn fr)" "length (r_rstack r) = 9" "r_ridx r = - 1" "r_reply r = NULL"
    using assms(1) by (auto simp: redisReaderCreateWithFunctions_def split: bind_splits)
  then have "reader_idle (fn_table cs ca ci cn fr) (inv b) r h []"
    using sdsb.empty_ok [OF e(1)] sdsb.len_str [of e] assms(2)
    by (simp add: reader_idle_def buffer_ok_def r_input_def)
  then show "reader_in (fn_table cs ca ci cn fr) (inv b) r h [] (- 1) []" "r_len r = 0"
    using e(4) by (simp_all add: reader_in_def)
qed

end

end
