(* ===== verification/Reply.thy ===== *)
theory Reply
  imports ReaderRefine
begin

text \<open>
  The default reply objects of hiredis.c: \<^verbatim>\<open>redisReply\<close> structs in an explicit heap, the
  functions that create them and hook them into their parent array, and
  \<^verbatim>\<open>freeReplyObject\<close>. They are proved to keep the contract \<open>reply_builder\<close>, so that the
  refinement of the reader holds for them. The string and the element vector of a reply
  are separate allocations that only the reply points to; they are part of its object
  here, and freed with it.
\<close>

section \<open>Objects and heap\<close>

record redisReply =
  ry_type :: int
  ry_integer :: int
  ry_len :: nat
  ry_str :: "char list option"
  ry_elements :: nat
  ry_element :: "ptr list option"

text \<open>
  The heap of replies: the live objects, the next fresh address, and the answer of the
  allocator to its \<open>k\<close>-th request, which the theorems leave open.
\<close>

record rheap =
  objs :: "ptr \<Rightarrow> redisReply option"
  next_ptr :: ptr
  requests :: nat
  grants :: "nat \<Rightarrow> bool"

definition request :: "rheap \<Rightarrow> bool \<times> rheap" where
  "request h = (grants h (requests h), h\<lparr>requests := Suc (requests h)\<rparr>)"

definition zero_reply :: redisReply where
  "zero_reply = \<lparr>ry_type = 0, ry_integer = 0, ry_len = 0, ry_str = None, ry_elements = 0,
                 ry_element = None\<rparr>"

definition createReplyObject :: "int \<Rightarrow> rheap \<Rightarrow> ptr \<times> rheap" where
  "createReplyObject type h =
     (let (ok, h) = request h; r = next_ptr h
      in if \<not> ok then (NULL, h)
         else (r, h\<lparr>objs := (objs h)(r \<mapsto> zero_reply\<lparr>ry_type := type\<rparr>), next_ptr := Suc r\<rparr>))"

text \<open>
  The elements that freeing a reply visits; \<open>None\<close> when the loop would read past the
  element vector.
\<close>

definition reply_children :: "redisReply \<Rightarrow> ptr list option" where
  "reply_children r =
     (if ry_type r = REDIS_REPLY_ARRAY
      then (case ry_element r of
              None \<Rightarrow> Some []
            | Some es \<Rightarrow> if ry_elements r \<le> length es then Some (take (ry_elements r) es) else None)
      else Some [])"

text \<open>
  \<^verbatim>\<open>freeReplyObject\<close> on each pointer of a list, the loop over \<^verbatim>\<open>r->element\<close>; \<open>None\<close> for
  a pointer that is not live, or when the recursion does not end.
\<close>

partial_function (option) free_replies :: "ptr list \<Rightarrow> rheap \<Rightarrow> rheap option" where
  "free_replies ps h =
     (case ps of
        [] \<Rightarrow> Some h
      | p # ps \<Rightarrow>
          if p = NULL then free_replies ps h
          else do {
            r \<leftarrow> objs h p;
            cs \<leftarrow> reply_children r;
            h \<leftarrow> free_replies cs h;
            _ \<leftarrow> objs h p;
            free_replies ps (h\<lparr>objs := (objs h)(p := None)\<rparr>)
          })"

definition freeReplyObject :: "ptr \<Rightarrow> rheap \<Rightarrow> rheap option" where
  "freeReplyObject reply h = free_replies [reply] h"

text \<open>\<^verbatim>\<open>parent->element[task->idx] = r\<close>, when the task has a parent.\<close>

definition link_parent :: "rstack \<Rightarrow> nat \<Rightarrow> ptr \<Rightarrow> rheap \<Rightarrow> rheap option" where
  "link_parent st i r h =
     (case t_parent (st ! i) of
        None \<Rightarrow> Some h
      | Some k \<Rightarrow>
          do {
            let parent = t_obj (st ! k);
            po \<leftarrow> objs h parent;
            if ry_type po \<noteq> REDIS_REPLY_ARRAY then None
            else do {
              es \<leftarrow> ry_element po;
              let idx = t_idx (st ! i);
              if 0 \<le> idx \<and> nat idx < length es
              then Some (h\<lparr>objs := (objs h)(parent \<mapsto> po\<lparr>ry_element := Some (es[nat idx := r])\<rparr>)\<rparr>)
              else None
            }
          })"

definition set_reply :: "ptr \<Rightarrow> (redisReply \<Rightarrow> redisReply) \<Rightarrow> rheap \<Rightarrow> rheap option" where
  "set_reply r f h = do { x \<leftarrow> objs h r; Some (h\<lparr>objs := (objs h)(r \<mapsto> f x)\<rparr>) }"

definition createStringObject ::
    "rstack \<Rightarrow> nat \<Rightarrow> char list \<Rightarrow> nat \<Rightarrow> rheap \<Rightarrow> (ptr \<times> rheap) option" where
  "createStringObject st i str len h =
     (let type = t_type (st ! i); (r, h) = createReplyObject type h in
      if r = NULL then Some (NULL, h)
      else (let (ok, h) = request h in
            if \<not> ok then do { h \<leftarrow> freeReplyObject r h; Some (NULL, h) }
            else if \<not> (type = REDIS_REPLY_ERROR \<or> type = REDIS_REPLY_STATUS \<or>
                       type = REDIS_REPLY_STRING) then None
            else if length str < len then None
            else do {
              h \<leftarrow> set_reply r (\<lambda>x. x\<lparr>ry_str := Some (take len str @ [NUL]), ry_len := len\<rparr>) h;
              h \<leftarrow> link_parent st i r h;
              Some (r, h)
            }))"

definition createArrayObject :: "rstack \<Rightarrow> nat \<Rightarrow> int \<Rightarrow> rheap \<Rightarrow> (ptr \<times> rheap) option" where
  "createArrayObject st i elements h =
     (let (r, h) = createReplyObject REDIS_REPLY_ARRAY h in
      if r = NULL then Some (NULL, h)
      else do {
        (ok, h) \<leftarrow>
          (if elements > 0
           then (let (ok, h) = request h in
                 if \<not> ok then do { h \<leftarrow> freeReplyObject r h; Some (False, h) }
                 else do { h \<leftarrow> set_reply r (\<lambda>x. x\<lparr>ry_element := Some (replicate (nat elements) NULL)\<rparr>) h;
                           Some (True, h) })
           else Some (True, h));
        if \<not> ok then Some (NULL, h)
        else do {
          h \<leftarrow> set_reply r (\<lambda>x. x\<lparr>ry_elements := to_size elements\<rparr>) h;
          h \<leftarrow> link_parent st i r h;
          Some (r, h)
        }
      })"

definition createIntegerObject :: "rstack \<Rightarrow> nat \<Rightarrow> int \<Rightarrow> rheap \<Rightarrow> (ptr \<times> rheap) option" where
  "createIntegerObject st i value h =
     (let (r, h) = createReplyObject REDIS_REPLY_INTEGER h in
      if r = NULL then Some (NULL, h)
      else do {
        h \<leftarrow> set_reply r (\<lambda>x. x\<lparr>ry_integer := value\<rparr>) h;
        h \<leftarrow> link_parent st i r h;
        Some (r, h)
      })"

definition createNilObject :: "rstack \<Rightarrow> nat \<Rightarrow> rheap \<Rightarrow> (ptr \<times> rheap) option" where
  "createNilObject st i h =
     (let (r, h) = createReplyObject REDIS_REPLY_NIL h in
      if r = NULL then Some (NULL, h)
      else do { h \<leftarrow> link_parent st i r h; Some (r, h) })"

definition defaultFunctions :: "rheap redisReplyObjectFunctions" where
  "defaultFunctions =
     \<lparr>createString = Some createStringObject, createArray = Some createArrayObject,
      createInteger = Some createIntegerObject, createNil = Some createNilObject,
      freeObject = Some freeReplyObject\<rparr>"

definition redisReaderCreate :: "allocator \<Rightarrow> rheap redisReader option" where
  "redisReaderCreate A = redisReaderCreateWithFunctions A (Some defaultFunctions)"

section \<open>Replies as trees\<close>

text \<open>
  A reply tree with its addresses: NULL, an object without elements, or an array object
  with its elements. \<open>cells\<close> lists the objects it occupies.
\<close>

datatype atree = ANull | ALeaf ptr redisReply | AArr ptr "atree list"

fun aroot :: "atree \<Rightarrow> ptr" where
  "aroot ANull = NULL"
| "aroot (ALeaf p x) = p"
| "aroot (AArr p ts) = p"

definition arr_obj :: "ptr list \<Rightarrow> redisReply" where
  "arr_obj es = zero_reply\<lparr>ry_type := REDIS_REPLY_ARRAY, ry_elements := length es, ry_element := Some es\<rparr>"

fun cells :: "atree \<Rightarrow> (ptr \<times> redisReply) list" where
  "cells ANull = []"
| "cells (ALeaf p x) = [(p, x)]"
| "cells (AArr p ts) = (p, arr_obj (map aroot ts)) # concat (map cells ts)"

fun leaves_ok :: "atree \<Rightarrow> bool" where
  "leaves_ok ANull = True"
| "leaves_ok (ALeaf p x) = (reply_children x = Some [])"
| "leaves_ok (AArr p ts) = (\<forall>t \<in> set ts. leaves_ok t)"

definition str_obj :: "int \<Rightarrow> string \<Rightarrow> redisReply" where
  "str_obj t s = zero_reply\<lparr>ry_type := t, ry_len := length s, ry_str := Some (s @ [NUL])\<rparr>"

definition empty_arr :: "int \<Rightarrow> redisReply" where
  "empty_arr k = zero_reply\<lparr>ry_type := REDIS_REPLY_ARRAY, ry_elements := to_size k\<rparr>"

text \<open>The tree that stands for a reply value.\<close>

fun represents :: "rval \<Rightarrow> atree \<Rightarrow> bool" where
  "represents (RString s) (ALeaf p x) = (x = str_obj REDIS_REPLY_STRING s)"
| "represents (RStatus s) (ALeaf p x) = (x = str_obj REDIS_REPLY_STATUS s)"
| "represents (RError s) (ALeaf p x) = (x = str_obj REDIS_REPLY_ERROR s)"
| "represents (RInteger i) (ALeaf p x) = (x = zero_reply\<lparr>ry_type := REDIS_REPLY_INTEGER, ry_integer := i\<rparr>)"
| "represents RNil (ALeaf p x) = (x = zero_reply\<lparr>ry_type := REDIS_REPLY_NIL\<rparr>)"
| "represents (RArray vs) (ALeaf p x) = (vs = [] \<and> x = empty_arr 0)"
| "represents (RArray vs) (AArr p ts) = (vs \<noteq> [] \<and> list_all2 represents vs ts)"
| "represents (RBadArray k) (ALeaf p x) = (k < 0 \<and> x = empty_arr k)"
| "represents (RBadArray k) (AArr p ts) = (0 < k \<and> ts = replicate (nat k) ANull)"
| "represents _ _ = False"

definition heap_is :: "(ptr \<Rightarrow> redisReply option) \<Rightarrow> rheap \<Rightarrow> atree \<Rightarrow> bool" where
  "heap_is b h t \<longleftrightarrow>
     objs h = b ++ map_of (cells t) \<and> distinct (map fst (cells t)) \<and>
     dom b \<inter> set (map fst (cells t)) = {} \<and> leaves_ok t \<and>
     0 < next_ptr h \<and> (\<forall>a \<in> dom b \<union> set (map fst (cells t)). 0 < a \<and> a < next_ptr h)"

section \<open>Freeing\<close>

abbreviation drop_cells :: "(ptr \<Rightarrow> redisReply option) \<Rightarrow> atree list \<Rightarrow> ptr \<Rightarrow> redisReply option" where
  "drop_cells m ts \<equiv> m |` (- set (map fst (concat (map cells ts))))"

definition live :: "(ptr \<Rightarrow> redisReply option) \<Rightarrow> atree list \<Rightarrow> bool" where
  "live m ts \<longleftrightarrow>
     (\<forall>(a, x) \<in> set (concat (map cells ts)). m a = Some x \<and> a \<noteq> NULL) \<and>
     distinct (map fst (concat (map cells ts))) \<and> (\<forall>t \<in> set ts. leaves_ok t)"

lemma live_Cons:
  "live m (t # ts) \<longleftrightarrow>
     live m [t] \<and> live m ts \<and> set (map fst (cells t)) \<inter> set (map fst (concat (map cells ts))) = {}"
  by (auto simp: live_def)

lemma live_restrict:
  assumes "live m ts" "A \<inter> set (map fst (concat (map cells ts))) = {}"
  shows "live (m |` (- A)) ts"
proof -
  have "(m |` (- A)) a = m a" if "(a, x) \<in> set (concat (map cells ts))" for a x
  proof -
    have "a \<in> set (map fst (concat (map cells ts)))" using that by (metis fst_conv image_eqI list.set_map)
    then show ?thesis using assms(2) by (auto simp: restrict_map_def)
  qed
  moreover have "m a = Some x \<and> a \<noteq> NULL" if "(a, x) \<in> set (concat (map cells ts))" for a x
    using assms(1) that unfolding live_def by blast
  ultimately have "\<forall>(a, x) \<in> set (concat (map cells ts)). (m |` (- A)) a = Some x \<and> a \<noteq> NULL"
    by (intro ballI, clarify) metis
  then show ?thesis using assms(1) unfolding live_def by blast
qed

lemma free_live:
  "live (objs h) ts \<Longrightarrow>
    free_replies (map aroot ts @ ps) h = free_replies ps (h\<lparr>objs := drop_cells (objs h) ts\<rparr>)"
proof (induction ts arbitrary: h ps rule: measure_induct_rule [of "size_list size"])
  case (less ts)
  show ?case
  proof (cases ts)
    case Nil
    then show ?thesis by simp
  next
    case (Cons t us)
    have us: "live (objs h) us" "set (map fst (cells t)) \<inter> set (map fst (concat (map cells us))) = {}"
      using less.prems unfolding Cons live_Cons [of _ t us] by blast+
    have IH: "free_replies (map aroot us @ ps) (h\<lparr>objs := objs h |` (- set (map fst (cells t)))\<rparr>) =
        free_replies ps (h\<lparr>objs := drop_cells (objs h) ts\<rparr>)"
      using less.IH [of us "h\<lparr>objs := objs h |` (- set (map fst (cells t)))\<rparr>" ps] live_restrict [OF us]
      by (simp add: Cons Int_commute)
    show ?thesis
    proof (cases t)
      case ANull
      moreover have "objs h |` UNIV = objs h" by (simp add: restrict_map_def)
      ultimately show ?thesis using IH by (subst free_replies.simps) (simp add: Cons)
    next
      case (ALeaf p x)
      have "objs h p = Some x" "p \<noteq> NULL" "reply_children x = Some []"
        using less.prems by (auto simp: Cons ALeaf live_def)
      moreover have "(objs h)(p := None) = objs h |` (- set (map fst (cells t)))"
        by (auto simp: ALeaf restrict_map_def)
      ultimately show ?thesis using IH
        by (subst free_replies.simps) (simp add: Cons ALeaf free_replies.simps [of "[]"])
    next
      case (AArr p cs)
      let ?x = "arr_obj (map aroot cs)"
      have p: "objs h p = Some ?x" "p \<noteq> NULL" "p \<notin> set (map fst (concat (map cells cs)))" "live (objs h) cs"
        using less.prems by (auto simp: Cons AArr live_def)
      have "reply_children ?x = Some (map aroot cs)"
        by (simp add: reply_children_def arr_obj_def)
      moreover have "free_replies (map aroot cs) h = Some (h\<lparr>objs := drop_cells (objs h) cs\<rparr>)"
        using less.IH [of cs h "[]"] p(4) by (simp add: Cons AArr free_replies.simps [of "[]"])
      moreover have "(drop_cells (objs h) cs)(p := None) = objs h |` (- set (map fst (cells t)))"
        by (auto simp: AArr restrict_map_def)
      moreover have "drop_cells (objs h) cs p = Some ?x" using p(1,3) by (simp add: restrict_map_def)
      ultimately show ?thesis using IH p(1,2)
        by (subst free_replies.simps) (simp add: Cons AArr)
    qed
  qed
qed

lemma heap_is_live:
  assumes "heap_is b h t"
  shows "live (objs h) [t]" "drop_cells (objs h) [t] = b"
proof -
  note H = assms [unfolded heap_is_def]
  have mem: "map_of (cells t) a = Some x" if "(a, x) \<in> set (cells t)" for a x
    using H that by (simp add: map_of_is_SomeI)
  have "objs h a = Some x" if "(a, x) \<in> set (cells t)" for a x
    using H mem [OF that] by (simp add: map_add_Some_iff)
  moreover have "a \<noteq> NULL" if "(a, x) \<in> set (cells t)" for a x
  proof -
    have "a \<in> set (map fst (cells t))" using that by (metis fst_conv image_eqI list.set_map)
    then show ?thesis using H by blast
  qed
  ultimately show "live (objs h) [t]" using H by (simp add: live_def case_prod_beta)
  show "drop_cells (objs h) [t] = b"
  proof
    fix a
    show "drop_cells (objs h) [t] a = b a"
    proof (cases "a \<in> set (map fst (cells t))")
      case True
      then have "b a = None" using H by (metis disjoint_iff domIff)
      then show ?thesis using True by (simp add: restrict_map_def)
    next
      case False
      then have "map_of (cells t) a = None" by (simp add: map_of_eq_None_iff)
      then show ?thesis using False H by (simp add: restrict_map_def map_add_def)
    qed
  qed
qed

lemma freeReplyObject_tree:
  assumes "heap_is b h t"
  shows "freeReplyObject (aroot t) h = Some (h\<lparr>objs := b\<rparr>)"
  using free_live [OF heap_is_live(1) [OF assms], of "[]"] heap_is_live(2) [OF assms]
  by (simp add: freeReplyObject_def free_replies.simps [of "[]"])

section \<open>Replies under construction\<close>

text \<open>
  \<open>builds fs ps c t\<close>: \<open>t\<close> is the tree of the open arrays \<open>fs\<close> at the addresses \<open>ps\<close> with
  \<open>c\<close> as the next element of the innermost one; \<open>build_tree\<close> is the tree of a whole state.
\<close>

fun builds :: "frames \<Rightarrow> ptr list \<Rightarrow> atree \<Rightarrow> atree \<Rightarrow> bool" where
  "builds [] [] c t = (t = c)"
| "builds ((n, vs) # fs) (p # ps) c t =
     (\<exists>ts. list_all2 represents vs ts \<and> length vs < n \<and>
        builds fs ps (AArr p (ts @ c # replicate (n - length vs - 1) ANull)) t)"
| "builds _ _ c t = False"

fun build_tree :: "build \<Rightarrow> ptr list \<Rightarrow> atree \<Rightarrow> bool" where
  "build_tree (Open []) [] t = (t = ANull)"
| "build_tree (Open ((n, vs) # fs)) (p # ps) t =
     (\<exists>ts. list_all2 represents vs ts \<and> length vs \<le> n \<and> 0 < n \<and>
        builds fs ps (AArr p (ts @ replicate (n - length vs) ANull)) t)"
| "build_tree (Done v) [p] t = (represents v t \<and> aroot t = p)"
| "build_tree _ _ t = False"

definition builder_inv :: "(ptr \<Rightarrow> redisReply option) \<Rightarrow> rheap \<Rightarrow> ptr list \<Rightarrow> build \<Rightarrow> bool" where
  "builder_inv b h ps x \<longleftrightarrow> (\<exists>t. build_tree x ps t \<and> heap_is b h t)"

definition has_memory :: "rheap \<Rightarrow> bool" where
  "has_memory h \<longleftrightarrow> (\<forall>k \<ge> requests h. grants h k)"

lemma builds_aroot: "builds fs ps c t \<Longrightarrow> aroot t = (if ps = [] then aroot c else last ps)"
  by (induction fs ps c t rule: builds.induct) auto

text \<open>Replacing the tree in the hole by one with the same root changes only its cells.\<close>

lemma builds_replace:
  assumes "builds fs ps c t" "aroot c' = aroot c" "leaves_ok c' = leaves_ok c"
  shows "\<exists>t' xs ys. builds fs ps c' t' \<and> cells t = xs @ cells c @ ys \<and> cells t' = xs @ cells c' @ ys \<and>
    leaves_ok t' = leaves_ok t"
  using assms
proof (induction fs ps c t arbitrary: c' rule: builds.induct)
  case (1 c t)
  then show ?case by (auto intro!: exI [of _ "[]"])
next
  case (2 n vs fs p ps c t)
  then obtain ts where ts: "list_all2 represents vs ts" "length vs < n"
    "builds fs ps (AArr p (ts @ c # replicate (n - length vs - 1) ANull)) t" by auto
  let ?c = "\<lambda>c. AArr p (ts @ c # replicate (n - length vs - 1) ANull)"
  obtain t' xs ys where t': "builds fs ps (?c c') t'" "cells t = xs @ cells (?c c) @ ys"
    "cells t' = xs @ cells (?c c') @ ys" "leaves_ok t' = leaves_ok t"
    using "2.IH" [OF ts(3), of "?c c'"] "2.prems"(2,3) by auto
  let ?a = "(p, arr_obj (map aroot (ts @ c # replicate (n - length vs - 1) ANull))) # concat (map cells ts)"
  have "cells (?c d) = ?a @ cells d" if "aroot d = aroot c" for d using that by simp
  then have "cells t = (xs @ ?a) @ cells c @ ys" "cells t' = (xs @ ?a) @ cells c' @ ys"
    using t'(2,3) "2.prems"(2) by simp_all
  moreover have "builds ((n, vs) # fs) (p # ps) c' t'" using ts t'(1) by auto
  ultimately show ?case using t'(4) by blast
qed auto

text \<open>A new object \<open>p\<close> hooked into the array object \<open>q\<close>.\<close>

lemma map_of_grow:
  assumes "distinct (map fst (xs @ (q, x) # ys @ zs))" "p \<notin> set (map fst (xs @ (q, x) # ys @ zs))"
  shows "map_of (xs @ (q, x') # ys @ (p, w) # zs) = (map_of (xs @ (q, x) # ys @ zs))(p \<mapsto> w, q \<mapsto> x')"
proof
  fix a
  have q: "map_of xs q = None" and p: "map_of xs p = None" "map_of ys p = None" "p \<noteq> q"
    using assms by (auto simp: map_of_eq_None_iff)
  consider "a = q" | "a = p" | "a \<noteq> q" "a \<noteq> p" by blast
  then show "map_of (xs @ (q, x') # ys @ (p, w) # zs) a =
      ((map_of (xs @ (q, x) # ys @ zs))(p \<mapsto> w, q \<mapsto> x')) a"
    by cases (use q p in \<open>simp_all add: map_add_def split: option.split\<close>)
qed

lemma heap_is_grow:
  assumes h: "heap_is b h t" and t: "cells t = xs @ (q, x) # ys @ zs"
    and t': "cells t' = xs @ (q, x') # ys @ (p, w) # zs" "leaves_ok t'"
    and h': "objs h' = (objs h)(p \<mapsto> w, q \<mapsto> x')" "p = next_ptr h" "next_ptr h' = Suc p"
  shows "heap_is b h' t'"
proof -
  note H = h [unfolded heap_is_def]
  have p: "p \<notin> dom b \<union> set (map fst (cells t))" using H h'(2) by blast
  have d: "distinct (map fst (xs @ (q, x) # ys @ zs))" using H t by simp
  have keys: "set (map fst (cells t')) = insert p (set (map fst (cells t)))" using t t' by auto
  have "q \<in> set (map fst (cells t))" using t by simp
  then have "b q = None" using H by (metis disjoint_iff domIff)
  have "p \<notin> set (map fst (xs @ (q, x) # ys @ zs))" using p t by simp
  then have "objs h' = b ++ map_of (cells t')"
    unfolding t' h'(1) using map_of_grow [OF d, of p x' w] H t by simp
  moreover have "distinct (map fst (cells t'))" using d p t t' by auto
  moreover have "dom b \<inter> set (map fst (cells t')) = {}" unfolding keys using H p by blast
  moreover have "\<forall>a \<in> dom b \<union> set (map fst (cells t')). 0 < a \<and> a < next_ptr h'"
    unfolding keys h'(3) using H h'(2) by (metis UnE UnI1 UnI2 insertE less_Suc_eq)
  ultimately show ?thesis using t'(2) h'(3) by (simp add: heap_is_def)
qed

lemma heap_is_root:
  assumes "heap_is b h ANull" "cells t = [(p, w)]" "leaves_ok t"
    and "objs h' = (objs h)(p \<mapsto> w)" "p = next_ptr h" "next_ptr h' = Suc p"
  shows "heap_is b h' t"
proof -
  note H = assms(1) [unfolded heap_is_def]
  have "p \<notin> dom b" using H assms(5) by blast
  moreover have "\<forall>a \<in> insert p (dom b). 0 < a \<and> a < next_ptr h'"
    unfolding assms(6) using H assms(5) by (metis UnI1 insertE less_Suc_eq)
  ultimately show ?thesis using H assms by (simp add: heap_is_def)
qed

text \<open>What hooking a new tree \<open>c\<close> with one object into the innermost open array does.\<close>

lemma builds_grow:
  assumes b: "builds fs ps (AArr q (ts @ replicate (Suc k) ANull)) t" and h: "heap_is b h t"
    and c: "cells c = [(p, w)]" "aroot c = p" "leaves_ok c"
    and h': "objs h' = (objs h)(p \<mapsto> w, q \<mapsto> arr_obj (map aroot (ts @ c # replicate k ANull)))"
      "p = next_ptr h" "next_ptr h' = Suc p"
  shows "\<exists>t'. builds fs ps (AArr q (ts @ c # replicate k ANull)) t' \<and> heap_is b h' t'"
proof -
  let ?c = "AArr q (ts @ replicate (Suc k) ANull)" and ?c' = "AArr q (ts @ c # replicate k ANull)"
  have lo: "leaves_ok ?c' = leaves_ok ?c" using c(3) by simp
  obtain t' xs ys where t': "builds fs ps ?c' t'" "cells t = xs @ cells ?c @ ys" "cells t' = xs @ cells ?c' @ ys"
    "leaves_ok t' = leaves_ok t"
    using builds_replace [OF b, of ?c'] lo by auto
  have "concat (map cells (replicate n ANull)) = []" for n by (induction n) auto
  then have "cells t = xs @ (q, arr_obj (map aroot (ts @ replicate (Suc k) ANull))) # concat (map cells ts) @ ys"
    "cells t' = xs @ (q, arr_obj (map aroot (ts @ c # replicate k ANull))) # concat (map cells ts) @ (p, w) # ys"
    using t'(2,3) c(1) by simp_all
  moreover have "leaves_ok t'" using t'(4) h by (simp add: heap_is_def)
  ultimately show ?thesis using t'(1) heap_is_grow [OF h _ _ _ h'] by blast
qed

lemma builds_cell:
  assumes "builds fs ps (AArr q ts) t" "heap_is b h t"
  shows "objs h q = Some (arr_obj (map aroot ts))" "q < next_ptr h"
proof -
  obtain xs ys where "cells t = xs @ cells (AArr q ts) @ ys"
    using builds_replace [OF assms(1) refl refl] by blast
  then have i: "(q, arr_obj (map aroot ts)) \<in> set (cells t)" by simp
  then have "map_of (cells t) q = Some (arr_obj (map aroot ts))"
    using assms(2) by (simp add: heap_is_def map_of_is_SomeI)
  then show "objs h q = Some (arr_obj (map aroot ts))"
    using assms(2) by (simp add: heap_is_def map_add_Some_iff)
  have "q \<in> set (map fst (cells t))" using i by (metis fst_conv image_eqI list.set_map)
  then show "q < next_ptr h" using assms(2) unfolding heap_is_def by blast
qed

text \<open>
  A fresh object \<open>p\<close>, complete but not hooked in yet, and what \<^verbatim>\<open>link_parent\<close> makes of it: a
  finished element, or the next open array.
\<close>

definition fresh_obj :: "rheap \<Rightarrow> rheap \<Rightarrow> ptr \<Rightarrow> redisReply \<Rightarrow> bool" where
  "fresh_obj h h1 p w \<longleftrightarrow> p = next_ptr h \<and> next_ptr h1 = Suc p \<and> objs h1 = (objs h)(p \<mapsto> w)"

lemma link_parent_ok:
  assumes inv: "builder_inv b h ps (Open fs)" and st: "tasks_ok st fs ps" "i = length fs"
    and f: "fresh_obj h h1 p w" and c: "cells c = [(p, w)]" "aroot c = p" "leaves_ok c"
  shows "\<exists>h2. link_parent st i p h1 = Some h2 \<and> requests h2 = requests h1 \<and> grants h2 = grants h1 \<and>
    (represents v c \<longrightarrow> builder_inv b h2 (leaf_at ps p) (add_item v fs)) \<and>
    (c = AArr p (replicate m ANull) \<longrightarrow> 0 < m \<longrightarrow> builder_inv b h2 (p # ps) (Open ((m, []) # fs)))"
proof -
  obtain t where t: "build_tree (Open fs) ps t" "heap_is b h t" using inv by (auto simp: builder_inv_def)
  note F = f [unfolded fresh_obj_def]
  show ?thesis
  proof (cases fs)
    case Nil
    then have "ps = []" "t = ANull" using t(1) by (cases ps; simp)+
    moreover have "heap_is b h1 c" using heap_is_root [of b h c p w h1] t(2) calculation c F by simp
    moreover have "link_parent st i p h1 = Some h1"
      using st Nil calculation(1) by (simp add: link_parent_def)
    ultimately show ?thesis using c(2) by (auto simp: Nil builder_inv_def leaf_at_def)
  next
    case (Cons g fs')
    obtain n vs where g: "g = (n, vs)" by (cases g)
    obtain q ps' where ps: "ps = q # ps'" using t(1) Cons g by (cases ps) auto
    note T = st(1) [unfolded Cons g ps tasks_ok.simps Let_def]
    define k where "k = n - length vs - 1"
    have k: "n - length vs = Suc k" unfolding k_def using T by linarith
    obtain ts where ts: "list_all2 represents vs ts"
      "builds fs' ps' (AArr q (ts @ replicate (Suc k) ANull)) t"
      using t(1) by (auto simp: Cons g ps k)
    have len: "length ts = length vs" "n - Suc (length vs) = k"
      using list_all2_lengthD [OF ts(1)] by (simp_all add: k_def)
    let ?es = "map aroot (ts @ c # replicate k ANull)"
    let ?h2 = "h1\<lparr>objs := (objs h1)(q \<mapsto> arr_obj ?es)\<rparr>"
    have q: "objs h1 q = Some (arr_obj (map aroot (ts @ replicate (Suc k) ANull)))"
      using builds_cell [OF ts(2) t(2)] F by simp
    have "link_parent st i p h1 = Some ?h2"
      using T st(2) q len(1) c(2)
      by (simp add: link_parent_def Cons g arr_obj_def list_update_append del: replicate_Suc)
        (simp add: zero_reply_def)
    moreover obtain t' where t': "builds fs' ps' (AArr q (ts @ c # replicate k ANull)) t'" "heap_is b ?h2 t'"
      using builds_grow [OF ts(2) t(2) c, of ?h2] F by auto
    have "builder_inv b ?h2 ps (Open ((n, vs @ [v]) # fs'))" if "represents v c"
      using t' that ts(1) T k len(2) by (auto simp: builder_inv_def ps intro!: exI [of _ t'] exI [of _ "ts @ [c]"]
          list_all2_appendI)
    moreover have "builder_inv b ?h2 (p # ps) (Open ((m, []) # fs))" if "c = AArr p (replicate m ANull)" "0 < m"
      using t' that ts(1) T k len by (auto simp: builder_inv_def ps Cons g intro!: exI [of _ t'] exI [of _ ts])
    ultimately show ?thesis by (auto simp: leaf_at_def ps Cons g)
  qed
qed

section \<open>The create functions keep the contract\<close>

text \<open>Requests that were refused leave the reply as it was.\<close>

lemma builder_inv_same:
  assumes "builder_inv b h ps x" "objs h' = objs h" "next_ptr h \<le> next_ptr h'"
  shows "builder_inv b h' ps x"
  using assms unfolding builder_inv_def heap_is_def by (metis less_le_trans)

lemma createReplyObject_cases:
  assumes "builder_inv b h ps x"
  obtains h' where "createReplyObject t h = (NULL, h')" "\<not> has_memory h" "builder_inv b h' ps x"
  | h' where "createReplyObject t h = (next_ptr h, h')" "fresh_obj h h' (next_ptr h) (zero_reply\<lparr>ry_type := t\<rparr>)"
      "has_memory h \<longrightarrow> has_memory h'" "0 < next_ptr h"
proof (cases "grants h (requests h)")
  case True
  have "0 < next_ptr h" using assms by (auto simp: builder_inv_def heap_is_def)
  then show ?thesis
    using that(2) True by (simp add: createReplyObject_def request_def fresh_obj_def has_memory_def Let_def)
next
  case False
  then show ?thesis
    using that(1) builder_inv_same [OF assms, of "h\<lparr>requests := Suc (requests h)\<rparr>"]
    by (auto simp: createReplyObject_def request_def has_memory_def)
qed

lemma yieldsI:
  assumes "res = Some (p, h')" "has_memory h \<longrightarrow> has_memory h' \<and> p \<noteq> NULL"
    and "if p = NULL then builder_inv b h' ps (Open fs) else builder_inv b h' (qs p) x"
  shows "yields (builder_inv b) has_memory h ps fs qs x res"
  using assms by (auto simp: yields_def)

lemma leaf_yields:
  assumes inv: "builder_inv b h ps (Open fs)" and st: "tasks_ok st fs ps" "i = length fs"
    and f: "fresh_obj h h1 p w" and p: "0 < p" and w: "represents v (ALeaf p w)" "reply_children w = Some []"
    and m: "has_memory h \<longrightarrow> has_memory h1"
  shows "yields (builder_inv b) has_memory h ps fs (leaf_at ps) (add_item v fs)
    (do { h2 \<leftarrow> link_parent st i p h1; Some (p, h2) })"
proof -
  obtain h2 where "link_parent st i p h1 = Some h2" "requests h2 = requests h1" "grants h2 = grants h1"
    "builder_inv b h2 (leaf_at ps p) (add_item v fs)"
    using link_parent_ok [OF inv st f, of "ALeaf p w" v] w by auto
  then show ?thesis using p m by (intro yieldsI [of _ p h2]) (auto simp: has_memory_def)
qed

lemma fresh_set_reply:
  assumes "fresh_obj h h1 p w"
  shows "set_reply p f h1 = Some (h1\<lparr>objs := (objs h1)(p \<mapsto> f w)\<rparr>)"
    "fresh_obj h (h1\<lparr>objs := (objs h1)(p \<mapsto> f w)\<rparr>) p (f w)"
    "fresh_obj h (h1\<lparr>requests := k\<rparr>) p w"
  using assms by (auto simp: fresh_obj_def set_reply_def)

lemma free_fresh:
  assumes inv: "builder_inv b h ps x" and f: "fresh_obj h h1 p w" and w: "reply_children w = Some []" and "0 < p"
  shows "\<exists>h2. freeReplyObject p h1 = Some h2 \<and> builder_inv b h2 ps x \<and> requests h2 = requests h1 \<and> grants h2 = grants h1"
proof -
  have "objs h p = None" using inv f unfolding builder_inv_def heap_is_def fresh_obj_def
    by (metis Un_iff domIff dom_map_of_conv_image_fst dom_map_add less_irrefl list.set_map)
  then have "freeReplyObject p h1 = Some (h1\<lparr>objs := objs h\<rparr>)"
    using f w assms(4) unfolding freeReplyObject_def
    by (subst free_replies.simps) (simp add: free_replies.simps [of "[]"] fresh_obj_def fun_upd_idem)
  moreover have "builder_inv b (h1\<lparr>objs := objs h\<rparr>) ps x"
    using builder_inv_same [OF inv] f by (simp add: fresh_obj_def)
  ultimately show ?thesis by simp
qed

lemma createIntegerObject_ok:
  assumes inv: "builder_inv b h ps (Open fs)" and st: "tasks_ok st fs ps" "i = length fs"
  shows "yields (builder_inv b) has_memory h ps fs (leaf_at ps) (add_item (RInteger v) fs)
    (createIntegerObject st i v h)"
proof (cases rule: createReplyObject_cases [OF inv, of REDIS_REPLY_INTEGER])
  case (1 h')
  then show ?thesis by (intro yieldsI) (auto simp: createIntegerObject_def)
next
  case (2 h')
  note f = fresh_set_reply(1,2) [OF 2(2), of "\<lambda>x. x\<lparr>ry_integer := v\<rparr>"]
  show ?thesis
    using leaf_yields [OF inv st f(2) 2(4), of "RInteger v"] 2 f(1)
    by (simp add: createIntegerObject_def reply_children_def reply_types has_memory_def)
qed

lemma createNilObject_ok:
  assumes inv: "builder_inv b h ps (Open fs)" and st: "tasks_ok st fs ps" "i = length fs"
  shows "yields (builder_inv b) has_memory h ps fs (leaf_at ps) (add_item RNil fs) (createNilObject st i h)"
proof (cases rule: createReplyObject_cases [OF inv, of REDIS_REPLY_NIL])
  case (1 h')
  then show ?thesis by (intro yieldsI) (auto simp: createNilObject_def)
next
  case (2 h')
  show ?thesis
    using leaf_yields [OF inv st 2(2,4), of RNil] 2
    by (simp add: createNilObject_def reply_children_def reply_types)
qed

lemma createStringObject_ok:
  assumes inv: "builder_inv b h ps (Open fs)" and st: "tasks_ok st fs ps" "i = length fs"
    and t: "is_str_type (t_type (st ! i))" and n: "n \<le> length s"
  shows "yields (builder_inv b) has_memory h ps fs (leaf_at ps)
    (add_item (str_val (t_type (st ! i)) (take n s)) fs) (createStringObject st i s n h)"
proof (cases rule: createReplyObject_cases [OF inv, of "t_type (st ! i)"])
  case (1 h')
  then show ?thesis by (intro yieldsI) (auto simp: createStringObject_def)
next
  case (2 h')
  let ?h1 = "h'\<lparr>requests := Suc (requests h')\<rparr>"
  note f1 = fresh_set_reply(3) [OF 2(2), of "Suc (requests h')"]
  have ty: "t_type (st ! i) \<noteq> REDIS_REPLY_ARRAY" using t by (auto simp: is_str_type_def reply_types)
  show ?thesis
  proof (cases "grants h' (requests h')")
    case True
    let ?f = "\<lambda>x. x\<lparr>ry_str := Some (take n s @ [NUL]), ry_len := n\<rparr>"
    note f = fresh_set_reply(1,2) [OF f1, of ?f]
    have "represents (str_val (t_type (st ! i)) (take n s))
        (ALeaf (next_ptr h) (?f (zero_reply\<lparr>ry_type := t_type (st ! i)\<rparr>)))"
      using t n by (auto simp: is_str_type_def str_val_def str_obj_def reply_types zero_reply_def)
    then show ?thesis
      using leaf_yields [OF inv st f(2) 2(4), of "str_val (t_type (st ! i)) (take n s)"] 2 f(1) True t n ty
      by (auto simp: createStringObject_def request_def reply_children_def has_memory_def is_str_type_def)
  next
    case False
    then have "\<not> has_memory h" using 2(3) by (auto simp: has_memory_def)
    moreover obtain h2 where "freeReplyObject (next_ptr h) ?h1 = Some h2" "builder_inv b h2 ps (Open fs)"
      using free_fresh [OF inv f1] 2(4) ty by (auto simp: reply_children_def)
    ultimately show ?thesis
      using 2 False by (intro yieldsI [of _ NULL h2]) (auto simp: createStringObject_def request_def)
  qed
qed

lemma nat_to_size: "0 < k \<Longrightarrow> k < 2 ^ 31 \<Longrightarrow> to_size k = nat k"
  by (simp add: to_size_id)

text \<open>An array object of \<open>k\<close> elements after all its fields are set, and its two readings.\<close>

definition new_arr :: "int \<Rightarrow> redisReply" where
  "new_arr k = (if 0 < k then arr_obj (replicate (nat k) NULL) else empty_arr k)"

definition new_tree :: "ptr \<Rightarrow> int \<Rightarrow> atree" where
  "new_tree p k = (if 0 < k then AArr p (replicate (nat k) ANull) else ALeaf p (new_arr k))"

lemma new_tree_ok: "cells (new_tree p k) = [(p, new_arr k)]" "aroot (new_tree p k) = p" "leaves_ok (new_tree p k)"
  "represents (if k = 0 then RArray [] else RBadArray k) (new_tree p k)"
proof -
  have "concat (map cells (replicate n ANull)) = []" for n by (induction n) auto
  then show "cells (new_tree p k) = [(p, new_arr k)]" by (simp add: new_tree_def new_arr_def)
  show "aroot (new_tree p k) = p" "leaves_ok (new_tree p k)"
    by (simp_all add: new_tree_def new_arr_def empty_arr_def reply_children_def zero_reply_def)
  show "represents (if k = 0 then RArray [] else RBadArray k) (new_tree p k)"
    by (simp add: new_tree_def new_arr_def)
qed

lemma createArrayObject_new:
  assumes inv: "builder_inv b h ps (Open fs)" and k: "- (2 ^ 31) \<le> k" "k < 2 ^ 31"
  obtains h' where "createArrayObject st i k h = Some (NULL, h')" "\<not> has_memory h" "builder_inv b h' ps (Open fs)"
  | h1 where "fresh_obj h h1 (next_ptr h) (new_arr k)" "has_memory h \<longrightarrow> has_memory h1" "0 < next_ptr h"
      "createArrayObject st i k h = do { h2 \<leftarrow> link_parent st i (next_ptr h) h1; Some (next_ptr h, h2) }"
proof (cases rule: createReplyObject_cases [OF inv, of REDIS_REPLY_ARRAY])
  case (1 h')
  then show ?thesis using that(1) by (simp add: createArrayObject_def)
next
  case (2 h')
  let ?p = "next_ptr h"
  let ?z = "zero_reply\<lparr>ry_type := REDIS_REPLY_ARRAY\<rparr>"
  let ?e = "\<lambda>x. x\<lparr>ry_elements := to_size k\<rparr>" and ?v = "\<lambda>x. x\<lparr>ry_element := Some (replicate (nat k) NULL)\<rparr>"
  show ?thesis
  proof (cases "0 < k")
    case False
    note f = fresh_set_reply(1,2) [OF 2(2), of ?e]
    have "?e ?z = new_arr k" using False by (simp add: new_arr_def empty_arr_def)
    then show ?thesis
      using that(2) f 2 False by (simp add: createArrayObject_def has_memory_def)
  next
    case True
    note f1 = fresh_set_reply(3) [OF 2(2), of "Suc (requests h')"]
    show ?thesis
    proof (cases "grants h' (requests h')")
      case gr: True
      note f2 = fresh_set_reply(1,2) [OF f1, of ?v]
      note f3 = fresh_set_reply(1,2) [OF f2(2), of ?e]
      have "?e (?v ?z) = new_arr k"
        using True k(2) by (simp add: new_arr_def arr_obj_def nat_to_size zero_reply_def)
      then show ?thesis
        using that(2) f3(2) f2(1) f3(1) 2 True gr
        by (simp add: createArrayObject_def request_def has_memory_def)
    next
      case False
      then have "\<not> has_memory h" using 2(3) by (auto simp: has_memory_def)
      moreover obtain h2 where "freeReplyObject ?p (h'\<lparr>requests := Suc (requests h')\<rparr>) = Some h2"
        "builder_inv b h2 ps (Open fs)"
        using free_fresh [OF inv f1] 2(4) by (auto simp: reply_children_def zero_reply_def)
      ultimately show ?thesis
        using that(1) 2 False True by (simp add: createArrayObject_def request_def)
    qed
  qed
qed

lemma createArrayObject_ok:
  assumes inv: "builder_inv b h ps (Open fs)" and st: "tasks_ok st fs ps" "i = length fs"
    and k: "- (2 ^ 31) \<le> k" "k < 2 ^ 31"
  shows "yields (builder_inv b) has_memory h ps fs (leaf_at ps)
      (add_item (if k = 0 then RArray [] else RBadArray k) fs) (createArrayObject st i k h)"
    and "0 < k \<Longrightarrow> yields (builder_inv b) has_memory h ps fs (\<lambda>p. p # ps)
      (Open ((nat k, []) # fs)) (createArrayObject st i k h)"
proof -
  let ?v = "if k = 0 then RArray [] else RBadArray k"
  consider (oom) h' where "createArrayObject st i k h = Some (NULL, h')" "\<not> has_memory h" "builder_inv b h' ps (Open fs)"
    | (new) p h2 where "createArrayObject st i k h = Some (p, h2)" "has_memory h \<longrightarrow> has_memory h2" "p \<noteq> NULL"
        "builder_inv b h2 (leaf_at ps p) (add_item ?v fs)"
        "0 < k \<longrightarrow> builder_inv b h2 (p # ps) (Open ((nat k, []) # fs))"
  proof (cases rule: createArrayObject_new [OF inv k, of st i])
    case (2 h1)
    let ?p = "next_ptr h"
    obtain h2 where h2: "link_parent st i ?p h1 = Some h2" "requests h2 = requests h1" "grants h2 = grants h1"
      "builder_inv b h2 (leaf_at ps ?p) (add_item ?v fs)"
      "new_tree ?p k = AArr ?p (replicate (nat k) ANull) \<longrightarrow> 0 < nat k \<longrightarrow> builder_inv b h2 (?p # ps) (Open ((nat k, []) # fs))"
      using link_parent_ok [OF inv st 2(1) new_tree_ok(1,2,3), of ?v "nat k"] new_tree_ok(4) by auto
    show ?thesis
    proof (rule that(2))
      show "createArrayObject st i k h = Some (?p, h2)" using 2(4) h2(1) by simp
      show "has_memory h \<longrightarrow> has_memory h2" using 2(2) h2(2,3) by (simp add: has_memory_def)
      show "0 < k \<longrightarrow> builder_inv b h2 (?p # ps) (Open ((nat k, []) # fs))"
        using h2(5) by (simp add: new_tree_def)
    qed (use 2(3) h2(4) in simp_all)
  qed (rule that(1))
  note c = this
  show "yields (builder_inv b) has_memory h ps fs (leaf_at ps) (add_item ?v fs) (createArrayObject st i k h)"
    using c by cases (simp_all add: yields_def)
  show "0 < k \<Longrightarrow> yields (builder_inv b) has_memory h ps fs (\<lambda>p. p # ps)
      (Open ((nat k, []) # fs)) (createArrayObject st i k h)"
    using c by cases (simp_all add: yields_def)
qed

section \<open>The contract holds\<close>

lemma build_tree_root:
  assumes "build_tree x ps t" "heap_is b h t"
  shows "ps \<noteq> [] \<longrightarrow> aroot t = last ps" "NULL \<notin> set ps" "ps = [] \<longleftrightarrow> x = Open []"
proof -
  have pos: "a \<noteq> NULL" if "a \<in> set (map fst (cells t))" for a
    using assms(2) that by (auto simp: heap_is_def)
  have open_ps: "set ps \<subseteq> set (map fst (cells t))" if "builds fs ps c t" for fs ps c
    using that
  proof (induction fs ps c t rule: builds.induct)
    case (2 n vs fs p ps c t)
    then obtain ts where ts: "builds fs ps (AArr p (ts @ c # replicate (n - length vs - 1) ANull)) t" by auto
    obtain xs ys where "cells t = xs @ cells (AArr p (ts @ c # replicate (n - length vs - 1) ANull)) @ ys"
      using builds_replace [OF ts refl refl] by blast
    then show ?case using "2.IH" [OF ts] by auto
  qed auto
  show "ps \<noteq> [] \<longrightarrow> aroot t = last ps"
    using assms(1) by (cases "(x, ps, t)" rule: build_tree.cases) (auto dest: builds_aroot)
  show "ps = [] \<longleftrightarrow> x = Open []"
    using assms(1) by (cases "(x, ps, t)" rule: build_tree.cases) auto
  show "NULL \<notin> set ps"
  proof (cases "(x, ps, t)" rule: build_tree.cases)
    case (2 n vs fs p ps' t')
    then obtain ts where ts: "builds fs ps' (AArr p ts) t" using assms(1) by auto
    obtain xs ys where "cells t = xs @ cells (AArr p ts) @ ys" using builds_replace [OF ts refl refl] by blast
    then have "p \<noteq> NULL" using pos [of p] by simp
    then show ?thesis using 2 open_ps [OF ts] pos by auto
  next
    case (3 v p t')
    then have "represents v t" "aroot t = p" using assms(1) by auto
    then have "p \<in> set (map fst (cells t))" by (cases "(v, t)" rule: represents.cases) auto
    then show ?thesis using 3 pos by auto
  qed (use assms(1) in auto)
qed

lemma builder_close:
  assumes "builder_inv b h (p # ps) (Open ((n, vs) # fs))" "length vs = n"
  shows "builder_inv b h (leaf_at ps p) (add_item (RArray vs) fs)"
proof -
  obtain t ts where t: "list_all2 represents vs ts" "0 < n" "builds fs ps (AArr p ts) t" "heap_is b h t"
    using assms by (auto simp: builder_inv_def)
  have r: "represents (RArray vs) (AArr p ts)" using t(1,2) assms(2) by auto
  show ?thesis
  proof (cases fs)
    case Nil
    then have "ps = []" "t = AArr p ts" using t(3) by (cases ps; simp)+
    then show ?thesis
      using Nil t(4) r by (auto simp: builder_inv_def leaf_at_def simp del: represents.simps
          intro!: exI [of _ "AArr p ts"])
  next
    case (Cons g fs')
    obtain m ws where g: "g = (m, ws)" by (cases g)
    obtain q qs where ps: "ps = q # qs" using t(3) Cons g by (cases ps) auto
    obtain us where us: "list_all2 represents ws us" "length ws < m"
      "builds fs' qs (AArr q (us @ AArr p ts # replicate (m - length ws - 1) ANull)) t"
      using t(3) by (auto simp: Cons g ps)
    have "list_all2 represents (ws @ [RArray vs]) (us @ [AArr p ts])"
      using us(1) r by (intro list_all2_appendI) simp_all
    then have "build_tree (Open ((m, ws @ [RArray vs]) # fs')) (q # qs) t"
      using us by (auto intro!: exI [of _ "us @ [AArr p ts]"])
    then show ?thesis using t(4) by (auto simp: Cons g ps builder_inv_def leaf_at_def)
  qed
qed

interpretation dflt: reply_builder createStringObject createArrayObject createIntegerObject createNilObject
  freeReplyObject builder_inv has_memory
proof
  fix b h ps fs st i and n :: nat
  assume a: "builder_inv b h ps (Open fs)" "tasks_ok st fs ps" "i = length fs" "0 < n" "n < 2 ^ 31"
  show "yields (builder_inv b) has_memory h ps fs (\<lambda>p. p # ps) (Open ((n, []) # fs)) (createArrayObject st i (int n) h)"
    using createArrayObject_ok(2) [OF a(1,2,3), of "int n"] a(4,5) by simp
next
  fix b h ps x
  assume a: "builder_inv b h ps x" "ps \<noteq> []"
  then obtain t where t: "build_tree x ps t" "heap_is b h t" by (auto simp: builder_inv_def)
  have "heap_is b (h\<lparr>objs := b\<rparr>) ANull" using t(2) by (auto simp: heap_is_def)
  then have "builder_inv b (h\<lparr>objs := b\<rparr>) [] (Open [])" by (auto simp: builder_inv_def)
  then show "\<exists>h'. freeReplyObject (last ps) h = Some h' \<and> builder_inv b h' [] (Open []) \<and>
      (has_memory h \<longrightarrow> has_memory h')"
    using freeReplyObject_tree [OF t(2)] build_tree_root(1) [OF t] a(2) by (simp add: has_memory_def)
next
  fix b h ps x
  assume "builder_inv b h ps x"
  then show "NULL \<notin> set ps \<and> (ps = [] \<longleftrightarrow> x = Open [])"
    unfolding builder_inv_def using build_tree_root by blast
qed (simp_all add: createStringObject_ok createIntegerObject_ok createNilObject_ok
      createArrayObject_ok(1) builder_close)

lemma defaultFunctions_table:
  "defaultFunctions = fn_table createStringObject createArrayObject createIntegerObject createNilObject freeReplyObject"
  by (simp add: defaultFunctions_def fn_table_def)

section \<open>Properties of the reader with the default functions\<close>

text \<open>A heap whose live objects have valid addresses; a reader in the middle of a reply over it.\<close>

definition heap_ok :: "rheap \<Rightarrow> bool" where
  "heap_ok h \<longleftrightarrow> 0 < next_ptr h \<and> (\<forall>a \<in> dom (objs h). 0 < a \<and> a < next_ptr h)"

definition empty_heap :: rheap where
  "empty_heap = \<lparr>objs = Map.empty, next_ptr = 1, requests = 0, grants = (\<lambda>_. True)\<rparr>"

abbreviation reading where
  "reading b r h fs ty xs \<equiv> reader_in defaultFunctions (builder_inv b) r h fs ty xs"

abbreviation reads_as where
  "reads_as b h out x \<equiv> refines_reply defaultFunctions (builder_inv b) has_memory h out x"

lemma builder_inv_idle: "builder_inv b h [] (Open []) \<longleftrightarrow> heap_ok h \<and> objs h = b"
  by (auto simp: builder_inv_def heap_is_def heap_ok_def)

lemma builder_inv_done: "builder_inv b h [p] (Done v) \<longleftrightarrow> (\<exists>t. represents v t \<and> aroot t = p \<and> heap_is b h t)"
  by (auto simp: builder_inv_def)

lemma empty_heap_ok: "heap_ok empty_heap" "has_memory empty_heap" "objs empty_heap = Map.empty"
  by (simp_all add: heap_ok_def empty_heap_def has_memory_def)

lemma redisReaderCreate_total: "roomy A \<Longrightarrow> \<exists>r. redisReaderCreate A = Some r"
  using sdsempty_total [of A]
  by (auto simp: redisReaderCreate_def redisReaderCreateWithFunctions_def malloc_def roomy_def sizeof_redisReader_def)

lemmas reader_create = dflt.Create_ok [folded defaultFunctions_table redisReaderCreate_def]
lemmas reader_feed = dflt.Feed_ok [folded defaultFunctions_table]
lemmas reader_get = dflt.GetReply_ok [folded defaultFunctions_table]

lemma reader_feed_roomy:
  assumes "reading b r h fs ty xs" "roomy A" "r_len r + length d < 2 ^ 31"
  shows "\<exists>r'. redisReaderFeed A r h (Some d) (length d) = Some (REDIS_OK, r', h) \<and>
    reading b r' h fs ty (xs @ d) \<and> r_len r' \<le> r_len r + length d"
  using reader_feed [OF assms(1), of A "length d" d] sdsempty_total [OF assms(2)] assms(2,3) by auto

lemma reading_input:
  assumes "length d < 2 ^ 31"
  shows "\<exists>r. reading Map.empty r empty_heap [] (- 1) d \<and> r_len r \<le> length d"
proof -
  obtain r0 where "redisReaderCreate heap0 = Some r0" using redisReaderCreate_total [OF roomy_heap0] by blast
  note c = reader_create [OF this, of Map.empty empty_heap] 
  have "reading Map.empty r0 empty_heap [] (- 1) []" "r_len r0 = 0"
    using c builder_inv_idle empty_heap_ok by simp_all
  then show ?thesis using reader_feed_roomy [OF _ roomy_heap0, of Map.empty r0 empty_heap "[]" "- 1" "[]" d] assms
    by auto
qed

lemma spec_run_whole: "wf_reply 8 v \<Longrightarrow> spec_run [] (- 1) (encode v @ rest) = Finished v rest"
  using spec_run_encode [of "[]" v rest] by simp

text \<open>
  C4. The reader with the default reply objects refines the reference parser: in every state it
  can be in between two calls, for every unread input and every pattern of allocation
  failures, redisReaderGetReply returns (no assertion fails, no read or write leaves its
  memory, the loop ends) and gives the reply, the wait for more input or the protocol
  error of the reference parser, or an out-of-memory error if memory ran out. The one
  exception is input that makes the reference parser crash.
\<close>

theorem GetReply_refines:
  assumes "reading b r h fs ty xs" "spec_run fs ty xs \<noteq> Crashed"
  shows "reads_as b h (redisReaderGetReply r h) (spec_run fs ty xs)"
  using assms by (rule reader_get)

theorem GetReply_refines_witness:
  "\<exists>r p r' h'. redisReaderGetReply r empty_heap = Some (REDIS_OK, p, r', h') \<and> p \<noteq> NULL \<and>
     reading Map.empty r empty_heap [] (- 1) (encode (RInteger 42))"
proof -
  obtain r where r: "reading Map.empty r empty_heap [] (- 1) (encode (RInteger 42))"
    using reading_input [of "encode (RInteger 42)"] by (auto simp: decimal_int_def decimal.simps)
  moreover have "spec_run [] (- 1) (encode (RInteger 42)) = Finished (RInteger 42) []"
    using spec_run_whole [of "RInteger 42" "[]"] by simp
  ultimately show ?thesis
    using GetReply_refines [OF r] empty_heap_ok(2) by (auto simp: refines_reply_def simp del: encode.simps)
qed

lemma reader_roundtrip:
  assumes "redisReaderCreate A = Some r" "roomy A" "heap_ok h" "has_memory h"
    and "wf_reply 8 v" "length (encode v @ rest) < 2 ^ 31"
  shows "\<exists>r1 p r2 h2 t. redisReaderFeed A r h (Some (encode v @ rest)) (length (encode v @ rest)) = Some (REDIS_OK, r1, h) \<and>
    redisReaderGetReply r1 h = Some (REDIS_OK, p, r2, h2) \<and> p \<noteq> NULL \<and>
    represents v t \<and> aroot t = p \<and> heap_is (objs h) h2 t \<and> r_input r2 = rest"
proof -
  have "reading (objs h) r h [] (- 1) []" "r_len r = 0"
    using reader_create [OF assms(1), of "objs h" h] assms(3) builder_inv_idle by simp_all
  then obtain r1 where f: "redisReaderFeed A r h (Some (encode v @ rest)) (length (encode v @ rest)) = Some (REDIS_OK, r1, h)"
    "reading (objs h) r1 h [] (- 1) (encode v @ rest)"
    using reader_feed_roomy [of "objs h" r h "[]" "- 1" "[]" A "encode v @ rest"] assms(2,6) by auto
  have "reads_as (objs h) h (redisReaderGetReply r1 h) (Finished v rest)"
    using reader_get [OF f(2)] spec_run_whole [OF assms(5)] by simp
  then show ?thesis
    using f(1) assms(4) by (auto simp: refines_reply_def builder_inv_done reader_idle_def)
qed

text \<open>
  C5. Round trip: a reply in the wire format, fed to a fresh reader, is read back as a tree of
  reply objects with exactly that value, and the bytes after it stay in the buffer. This
  covers strings with any bytes in them and arrays nested up to the reader's limit.
\<close>

theorem reader_reads_back:
  assumes "redisReaderCreate A = Some r" "roomy A" "heap_ok h" "has_memory h"
    and "wf_reply 8 v" "length (encode v @ rest) < 2 ^ 31"
  shows "\<exists>r1 p r2 h2 t. redisReaderFeed A r h (Some (encode v @ rest)) (length (encode v @ rest)) = Some (REDIS_OK, r1, h) \<and>
    redisReaderGetReply r1 h = Some (REDIS_OK, p, r2, h2) \<and> p \<noteq> NULL \<and>
    represents v t \<and> aroot t = p \<and> heap_is (objs h) h2 t \<and> r_input r2 = rest"
  using assms by (rule reader_roundtrip)

theorem reader_reads_back_witness:
  "\<exists>r r1 p r2 h2 t. redisReaderFeed heap0 r empty_heap (Some (encode (RArray [RInteger 7, RString ''ab'', RArray []])))
       (length (encode (RArray [RInteger 7, RString ''ab'', RArray []]))) = Some (REDIS_OK, r1, empty_heap) \<and>
     redisReaderGetReply r1 empty_heap = Some (REDIS_OK, p, r2, h2) \<and> p \<noteq> NULL \<and>
     represents (RArray [RInteger 7, RString ''ab'', RArray []]) t \<and> aroot t = p \<and> r_input r2 = []"
proof -
  let ?v = "RArray [RInteger 7, RString ''ab'', RArray []]"
  obtain r where "redisReaderCreate heap0 = Some r" using redisReaderCreate_total [OF roomy_heap0] by blast
  moreover have "length (encode ?v @ []) < 2 ^ 31" by (simp add: decimal_int_def decimal.simps)
  moreover have "wf_reply 8 ?v" by simp
  ultimately show ?thesis
    using reader_reads_back [of heap0 r empty_heap ?v "[]"] roomy_heap0 empty_heap_ok(1,2)
    by (simp del: encode.simps represents.simps) blast
qed

text \<open>
  C6. The reply does not depend on how the input is cut into pieces: after a call that found the
  input incomplete, feeding the rest and asking again gives the outcome of the reference
  parser on the whole input.
\<close>

theorem reader_resumes:
  assumes "reading b r h fs ty xs" "has_memory h" "roomy A"
    and "redisReaderGetReply r h = Some (REDIS_OK, NULL, r1, h1)" "r_len r1 + length ys < 2 ^ 31"
    and "spec_run fs ty (xs @ ys) \<noteq> Crashed"
  shows "\<exists>r2. redisReaderFeed A r1 h1 (Some ys) (length ys) = Some (REDIS_OK, r2, h1) \<and>
    reads_as b h1 (redisReaderGetReply r2 h1) (spec_run fs ty (xs @ ys))"
proof -
  have run: "spec_run fs ty (xs @ ys) = more_input ys (spec_run fs ty xs) spec_run" by (rule spec_run_append)
  then have nc: "spec_run fs ty xs \<noteq> Crashed" using assms(6) by auto
  note g = reader_get [OF assms(1) nc]
  obtain fs' ty' xs' where w: "spec_run fs ty xs = Wait fs' ty' xs'" "reading b r1 h1 fs' ty' xs'"
    using g nc assms(2,4) spec_run_Failed [of fs ty xs]
    by (cases "spec_run fs ty xs") (auto simp: refines_reply_def redis_codes)
  obtain r2 where r2: "redisReaderFeed A r1 h1 (Some ys) (length ys) = Some (REDIS_OK, r2, h1)"
    "reading b r2 h1 fs' ty' (xs' @ ys)"
    using reader_feed_roomy [OF w(2) assms(3,5)] by blast
  then show ?thesis using reader_get [OF r2(2)] assms(6) run w(1) by auto
qed

theorem reader_resumes_witness:
  "\<exists>r r2 p r3 h3. redisReaderGetReply r empty_heap = Some (REDIS_OK, NULL, r, empty_heap) \<and>
     redisReaderFeed heap0 r empty_heap (Some (encode (RInteger 42))) (length (encode (RInteger 42))) =
       Some (REDIS_OK, r2, empty_heap) \<and>
     redisReaderGetReply r2 empty_heap = Some (REDIS_OK, p, r3, h3) \<and> p \<noteq> NULL"
proof -
  let ?d = "encode (RInteger 42)"
  obtain r where r: "reading Map.empty r empty_heap [] (- 1) []" "r_len r = 0" using reading_input [of "[]"] by auto
  then have g: "redisReaderGetReply r empty_heap = Some (REDIS_OK, NULL, r, empty_heap)"
    using reader_in_buffer_ok [OF r(1)] by (simp add: redisReaderGetReply_def)
  have s: "spec_run [] (- 1) ([] @ ?d) = Finished (RInteger 42) []"
    using spec_run_whole [of "RInteger 42" "[]"] by simp
  have "r_len r + length ?d < 2 ^ 31" using r(2) by (simp add: decimal_int_def decimal.simps)
  then show ?thesis
    using reader_resumes [OF r(1) empty_heap_ok(2) roomy_heap0 g, of ?d] g s empty_heap_ok(2)
    by (auto simp: refines_reply_def simp del: encode.simps)
qed

text \<open>
  C7. No leak on errors: when redisReaderGetReply reports an error, every reply object built so
  far has been freed and the rest of the heap is untouched, the caller gets NULL, the
  reader has dropped its buffer and its stack, and the error is a protocol error or,
  only if memory ran out, an out-of-memory error.
\<close>

theorem GetReply_error_frees:
  assumes "reading b r h fs ty xs" "spec_run fs ty xs \<noteq> Crashed"
    and "redisReaderGetReply r h = Some (REDIS_ERR, p, r', h')"
  shows "p = NULL \<and> objs h' = b \<and> r_buf r' = None \<and> r_ridx r' = - 1 \<and> r_reply r' = NULL \<and>
    (r_err r' = REDIS_ERR_PROTOCOL \<or> r_err r' = REDIS_ERR_OOM \<and> \<not> has_memory h)"
  using reader_get [OF assms(1,2)] assms(2,3) spec_run_Failed [of fs ty xs]
  by (cases "spec_run fs ty xs") (auto simp: refines_reply_def reader_failed_def builder_inv_idle redis_codes)

theorem GetReply_error_frees_witness:
  "\<exists>r r' h'. redisReaderGetReply r empty_heap = Some (REDIS_ERR, NULL, r', h') \<and> objs h' = Map.empty \<and>
     r_err r' = REDIS_ERR_PROTOCOL"
proof -
  obtain r where r: "reading Map.empty r empty_heap [] (- 1) ''?x''" using reading_input [of "''?x''"] by auto
  have s: "spec_run [] (- 1) ''?x'' = Failed REDIS_ERR_PROTOCOL"
    by (simp add: spec_run.simps spec_item_def item_type_def)
  then obtain p r' h' where g: "redisReaderGetReply r empty_heap = Some (REDIS_ERR, p, r', h')"
    using reader_get [OF r] by (auto simp: refines_reply_def)
  then show ?thesis using GetReply_error_frees [OF r _ g] s empty_heap_ok(2) by auto
qed

text \<open>
  C8. freeReplyObject on the root of a reply, complete or still under construction, touches only
  live objects, ends, and frees exactly the objects of that reply.
\<close>

theorem freeReplyObject_exact:
  assumes "heap_is b h t"
  shows "freeReplyObject (aroot t) h = Some (h\<lparr>objs := b\<rparr>)"
  using assms by (rule freeReplyObject_tree)

theorem freeReplyObject_exact_witness:
  "freeReplyObject 1 (empty_heap\<lparr>objs := [1 \<mapsto> arr_obj [2, NULL], 2 \<mapsto> zero_reply\<lparr>ry_type := REDIS_REPLY_NIL\<rparr>], next_ptr := 3\<rparr>) =
     Some (empty_heap\<lparr>next_ptr := 3\<rparr>)"
proof -
  let ?x = "zero_reply\<lparr>ry_type := REDIS_REPLY_NIL\<rparr>"
  let ?t = "AArr 1 [ALeaf 2 ?x, ANull]"
  let ?h = "empty_heap\<lparr>objs := [1 \<mapsto> arr_obj [2, NULL], 2 \<mapsto> ?x], next_ptr := 3\<rparr>"
  have "heap_is Map.empty ?h ?t"
    by (auto simp: heap_is_def reply_children_def reply_types empty_heap_def fun_eq_iff)
  then show ?thesis using freeReplyObject_exact [of Map.empty ?h ?t] by (simp add: empty_heap_def)
qed

end
