(* ===== verification/Context.thy ===== *)
theory Context
  imports Reply "HOL-Library.Monad_Syntax"
begin

text \<open>
  The connection context of hiredis.h, the error reporting of hiredis.c, and the operating
  system as a parameter: a record of the system calls the sources make, on a state \<open>'s\<close>
  of the system that nothing else is known about. A failing call gives \<open>Inl errno\<close>.
\<close>

section \<open>The operating system\<close>

record timeval =
  tv_sec :: int
  tv_usec :: int

datatype sockopt =
    SO_REUSEADDR | SO_KEEPALIVE | TCP_KEEPIDLE int | TCP_KEEPINTVL int | TCP_KEEPCNT int | TCP_NODELAY
  | SO_RCVTIMEO timeval | SO_SNDTIMEO timeval

datatype sockaddr = Inet string | Local string

record addrinfo =
  ai_family :: int
  ai_addr :: sockaddr

record 's sys =
  sys_read :: "int \<Rightarrow> nat \<Rightarrow> 's \<Rightarrow> (int + char list) \<times> 's"
  sys_write :: "int \<Rightarrow> char list \<Rightarrow> 's \<Rightarrow> (int + nat) \<times> 's"
  sys_close :: "int \<Rightarrow> 's \<Rightarrow> 's"
  sys_socket :: "int \<Rightarrow> 's \<Rightarrow> (int + int) \<times> 's"
  sys_setsockopt :: "int \<Rightarrow> sockopt \<Rightarrow> 's \<Rightarrow> (int + unit) \<times> 's"
  sys_so_error :: "int \<Rightarrow> 's \<Rightarrow> (int + int) \<times> 's"
  sys_getfl :: "int \<Rightarrow> 's \<Rightarrow> (int + 32 word) \<times> 's"
  sys_setfl :: "int \<Rightarrow> 32 word \<Rightarrow> 's \<Rightarrow> (int + unit) \<times> 's"
  sys_getaddrinfo :: "string option \<Rightarrow> string option \<Rightarrow> int \<Rightarrow> 's \<Rightarrow> (int + addrinfo list) \<times> 's"
  sys_bind :: "int \<Rightarrow> sockaddr \<Rightarrow> 's \<Rightarrow> (int + unit) \<times> 's"
  sys_connect :: "int \<Rightarrow> sockaddr \<Rightarrow> 's \<Rightarrow> (int + unit) \<times> 's"
  sys_poll :: "int \<Rightarrow> int \<Rightarrow> 's \<Rightarrow> (int + nat) \<times> 's"
  sys_strerror :: "int \<Rightarrow> string"
  sys_gai_strerror :: "int \<Rightarrow> string"

text \<open>The error numbers the code tells apart, with their values on Linux.\<close>

definition EINTR :: int where "EINTR = 4"
definition EAGAIN :: int where "EAGAIN = 11"
definition EADDRNOTAVAIL :: int where "EADDRNOTAVAIL = 99"
definition ETIMEDOUT :: int where "ETIMEDOUT = 110"
definition EHOSTUNREACH :: int where "EHOSTUNREACH = 113"
definition EINPROGRESS :: int where "EINPROGRESS = 115"

definition AF_LOCAL :: int where "AF_LOCAL = 1"
definition AF_INET :: int where "AF_INET = 2"
definition AF_INET6 :: int where "AF_INET6 = 10"

section \<open>Flags\<close>

definition REDIS_BLOCK :: "32 word" where "REDIS_BLOCK = 0x1"
definition REDIS_CONNECTED :: "32 word" where "REDIS_CONNECTED = 0x2"
definition REDIS_DISCONNECTING :: "32 word" where "REDIS_DISCONNECTING = 0x4"
definition REDIS_FREEING :: "32 word" where "REDIS_FREEING = 0x8"
definition REDIS_IN_CALLBACK :: "32 word" where "REDIS_IN_CALLBACK = 0x10"
definition REDIS_SUBSCRIBED :: "32 word" where "REDIS_SUBSCRIBED = 0x20"
definition REDIS_MONITORING :: "32 word" where "REDIS_MONITORING = 0x40"
definition REDIS_REUSEADDR :: "32 word" where "REDIS_REUSEADDR = 0x80"

text \<open>\<^verbatim>\<open>flags & F\<close> as a condition, \<^verbatim>\<open>flags |= F\<close> and \<^verbatim>\<open>flags &= ~F\<close>.\<close>

definition has_flag :: "32 word \<Rightarrow> 32 word \<Rightarrow> bool" where
  "has_flag w f = (w AND f \<noteq> 0)"

definition set_flag :: "32 word \<Rightarrow> 32 word \<Rightarrow> 32 word" where
  "set_flag w f = w OR f"

definition clear_flag :: "32 word \<Rightarrow> 32 word \<Rightarrow> 32 word" where
  "clear_flag w f = w AND NOT f"

section \<open>The context\<close>

datatype redisConnectionType = REDIS_CONN_TCP | REDIS_CONN_UNIX

record redisContext =
  c_err :: int
  c_errstr :: "char list"
  c_fd :: int
  c_flags :: "32 word"
  c_obuf :: "sds option"
  c_reader :: "rheap redisReader option"
  c_connection_type :: redisConnectionType
  c_timeout :: "timeval option"
  c_host :: "string option"
  c_source_addr :: "string option"
  c_port :: int
  c_path :: "string option"

definition ERRSTR_SIZE :: nat where "ERRSTR_SIZE = 128"

text \<open>\<^verbatim>\<open>__redis_strerror_r(e, buf, n)\<close>: the message, cut to fit with its terminator.\<close>

definition strerror_into :: "'s sys \<Rightarrow> int \<Rightarrow> nat \<Rightarrow> char list \<Rightarrow> char list" where
  "strerror_into S e n b = mem_write 0 (take (n - 1) (sys_strerror S e) @ [NUL]) b"

text \<open>
  \<^verbatim>\<open>__redisSetError\<close>; \<open>str\<close> is a C string, or \<open>None\<close> for NULL, when the message is the one
  of \<^verbatim>\<open>errno\<close>. The assertion on the type is a fault.
\<close>

definition redisSetError :: "'s sys \<Rightarrow> int \<Rightarrow> redisContext \<Rightarrow> int \<Rightarrow> char list option \<Rightarrow> redisContext option" where
  "redisSetError S errno c ty str =
     (let c = c\<lparr>c_err := ty\<rparr>
      in case str of
           Some str \<Rightarrow>
             (let len = strlen str;
                  len = (if len < ERRSTR_SIZE - 1 then len else ERRSTR_SIZE - 1)
              in Some (c\<lparr>c_errstr := mem_set1 len NUL (mem_write 0 (take len str) (c_errstr c))\<rparr>))
         | None \<Rightarrow>
             if ty \<noteq> REDIS_ERR_IO then None
             else Some (c\<lparr>c_errstr := strerror_into S errno ERRSTR_SIZE (c_errstr c)\<rparr>))"

definition sizeof_redisContext :: nat where "sizeof_redisContext = 240"

text \<open>
  \<^verbatim>\<open>redisContextInit\<close>. When the buffer or the reader cannot be made, the rest is freed by
  \<^verbatim>\<open>redisFree\<close>; the descriptor is still 0, so nothing is closed.
\<close>

definition redisContextInit :: "allocator \<Rightarrow> redisContext option" where
  "redisContextInit A =
     (case malloc A sizeof_redisContext of
        None \<Rightarrow> None
      | Some _ \<Rightarrow>
          (let c = \<lparr>c_err = 0, c_errstr = replicate ERRSTR_SIZE NUL, c_fd = 0, c_flags = 0,
                    c_obuf = sdsempty A, c_reader = redisReaderCreate A,
                    c_connection_type = REDIS_CONN_TCP, c_timeout = None, c_host = None,
                    c_source_addr = None, c_port = 0, c_path = None\<rparr>
           in if c_obuf c = None \<or> c_reader c = None then None else Some c))"

text \<open>
  \<^verbatim>\<open>redisFree\<close>: what is left is the heap of replies and the state of the system; the
  blocks of the context itself are gone. \<open>None\<close> is NULL, which is allowed.
\<close>

definition redisFree :: "'s sys \<Rightarrow> redisContext option \<Rightarrow> rheap \<Rightarrow> 's \<Rightarrow> (rheap \<times> 's) option" where
  "redisFree S c h s =
     (case c of
        None \<Rightarrow> Some (h, s)
      | Some c \<Rightarrow>
          do {
            let s = (if c_fd c > 0 then sys_close S (c_fd c) s else s);
            h \<leftarrow> (case c_reader c of Some r \<Rightarrow> redisReaderFree r h | None \<Rightarrow> Some h);
            Some (h, s)
          })"

definition redisFreeKeepFd :: "'s sys \<Rightarrow> redisContext \<Rightarrow> rheap \<Rightarrow> 's \<Rightarrow> (int \<times> rheap \<times> 's) option" where
  "redisFreeKeepFd S c h s =
     do { let fd = c_fd c; (h, s) \<leftarrow> redisFree S (Some (c\<lparr>c_fd := - 1\<rparr>)) h s; Some (fd, h, s) }"

section \<open>Facts about flags and messages\<close>

lemma flag_bits:
  "has_flag f REDIS_BLOCK \<longleftrightarrow> bit f 0" "has_flag f REDIS_CONNECTED \<longleftrightarrow> bit f 1"
  "has_flag f REDIS_DISCONNECTING \<longleftrightarrow> bit f 2" "has_flag f REDIS_FREEING \<longleftrightarrow> bit f 3"
  "has_flag f REDIS_IN_CALLBACK \<longleftrightarrow> bit f 4" "has_flag f REDIS_SUBSCRIBED \<longleftrightarrow> bit f 5"
  "has_flag f REDIS_MONITORING \<longleftrightarrow> bit f 6" "has_flag f REDIS_REUSEADDR \<longleftrightarrow> bit f 7"
proof -
  have *: "has_flag f (2 ^ n) \<longleftrightarrow> bit f n" for n
    unfolding has_flag_def by (simp add: and_exp_eq_0_iff_not_bit)
  show "has_flag f REDIS_BLOCK \<longleftrightarrow> bit f 0" "has_flag f REDIS_CONNECTED \<longleftrightarrow> bit f 1"
    "has_flag f REDIS_DISCONNECTING \<longleftrightarrow> bit f 2" "has_flag f REDIS_FREEING \<longleftrightarrow> bit f 3"
    "has_flag f REDIS_IN_CALLBACK \<longleftrightarrow> bit f 4" "has_flag f REDIS_SUBSCRIBED \<longleftrightarrow> bit f 5"
    "has_flag f REDIS_MONITORING \<longleftrightarrow> bit f 6" "has_flag f REDIS_REUSEADDR \<longleftrightarrow> bit f 7"
    using * [of 0] * [of 1] * [of 2] * [of 3] * [of 4] * [of 5] * [of 6] * [of 7]
    by (simp_all add: REDIS_BLOCK_def REDIS_CONNECTED_def REDIS_DISCONNECTING_def REDIS_FREEING_def
        REDIS_IN_CALLBACK_def REDIS_SUBSCRIBED_def REDIS_MONITORING_def REDIS_REUSEADDR_def)
qed

text \<open>A flag is a single bit; setting or clearing one leaves the others.\<close>

lemma flag_exp:
  "REDIS_BLOCK = 2 ^ 0" "REDIS_CONNECTED = 2 ^ 1" "REDIS_DISCONNECTING = 2 ^ 2" "REDIS_FREEING = 2 ^ 3"
  "REDIS_IN_CALLBACK = 2 ^ 4" "REDIS_SUBSCRIBED = 2 ^ 5" "REDIS_MONITORING = 2 ^ 6" "REDIS_REUSEADDR = 2 ^ 7"
  by (simp_all add: REDIS_BLOCK_def REDIS_CONNECTED_def REDIS_DISCONNECTING_def REDIS_FREEING_def
      REDIS_IN_CALLBACK_def REDIS_SUBSCRIBED_def REDIS_MONITORING_def REDIS_REUSEADDR_def)

lemma bit_set_flag: "n < 32 \<Longrightarrow> bit (set_flag f (2 ^ n)) m \<longleftrightarrow> bit f m \<or> m = n"
  by (auto simp: set_flag_def bit_simps)

lemma bit_clear_flag: "n < 32 \<Longrightarrow> bit (clear_flag f (2 ^ n)) m \<longleftrightarrow> bit f m \<and> m \<noteq> n"
  by (auto simp: clear_flag_def bit_simps dest: bit_imp_le_length)

lemma flag_changes [simp]:
  "bit (set_flag f REDIS_BLOCK) m \<longleftrightarrow> bit f m \<or> m = 0" "bit (set_flag f REDIS_CONNECTED) m \<longleftrightarrow> bit f m \<or> m = 1"
  "bit (set_flag f REDIS_DISCONNECTING) m \<longleftrightarrow> bit f m \<or> m = 2" "bit (set_flag f REDIS_FREEING) m \<longleftrightarrow> bit f m \<or> m = 3"
  "bit (set_flag f REDIS_IN_CALLBACK) m \<longleftrightarrow> bit f m \<or> m = 4" "bit (set_flag f REDIS_SUBSCRIBED) m \<longleftrightarrow> bit f m \<or> m = 5"
  "bit (set_flag f REDIS_MONITORING) m \<longleftrightarrow> bit f m \<or> m = 6" "bit (set_flag f REDIS_REUSEADDR) m \<longleftrightarrow> bit f m \<or> m = 7"
  "bit (clear_flag f REDIS_BLOCK) m \<longleftrightarrow> bit f m \<and> m \<noteq> 0" "bit (clear_flag f REDIS_CONNECTED) m \<longleftrightarrow> bit f m \<and> m \<noteq> 1"
  "bit (clear_flag f REDIS_DISCONNECTING) m \<longleftrightarrow> bit f m \<and> m \<noteq> 2" "bit (clear_flag f REDIS_FREEING) m \<longleftrightarrow> bit f m \<and> m \<noteq> 3"
  "bit (clear_flag f REDIS_IN_CALLBACK) m \<longleftrightarrow> bit f m \<and> m \<noteq> 4" "bit (clear_flag f REDIS_SUBSCRIBED) m \<longleftrightarrow> bit f m \<and> m \<noteq> 5"
  "bit (clear_flag f REDIS_MONITORING) m \<longleftrightarrow> bit f m \<and> m \<noteq> 6" "bit (clear_flag f REDIS_REUSEADDR) m \<longleftrightarrow> bit f m \<and> m \<noteq> 7"
  unfolding flag_exp by (rule bit_set_flag bit_clear_flag; simp)+

text \<open>A message is a C string of at most 127 bytes inside the 128 of the array.\<close>

lemma terminated_write:
  assumes "length xs < length b"
  shows "length (mem_write 0 (xs @ [NUL]) b) = length b" "NUL \<in> set (mem_write 0 (xs @ [NUL]) b)"
  using assms by (auto simp: mem_write_def)

lemma redisSetError_ok:
  assumes "redisSetError S e c ty str = Some c'" "length (c_errstr c) = ERRSTR_SIZE"
  shows "length (c_errstr c') = ERRSTR_SIZE \<and> NUL \<in> set (c_errstr c') \<and> c_err c' = ty \<and>
    c_obuf c' = c_obuf c \<and> c_reader c' = c_reader c \<and> c_fd c' = c_fd c \<and> c_flags c' = c_flags c"
proof (cases str)
  case None
  have "length (take (ERRSTR_SIZE - 1) (sys_strerror S e)) < length (c_errstr c)"
    using assms(2) by (simp add: ERRSTR_SIZE_def)
  from terminated_write [OF this] show ?thesis
    using assms None by (auto simp: redisSetError_def strerror_into_def Let_def split: if_splits)
next
  case (Some x)
  define n where "n = (if strlen x < ERRSTR_SIZE - 1 then strlen x else ERRSTR_SIZE - 1)"
  have n: "length (take n x) = n" "n < length (c_errstr c)"
    using assms(2) strlen_le [of x] by (auto simp: n_def ERRSTR_SIZE_def)
  have "mem_set1 n NUL (mem_write 0 (take n x) (c_errstr c)) = mem_write 0 (take n x @ [NUL]) (c_errstr c)"
    using mem_write_snoc [of 0 "take n x" "c_errstr c" NUL] n by simp
  then have "c' = c\<lparr>c_err := ty, c_errstr := mem_write 0 (take n x @ [NUL]) (c_errstr c)\<rparr>"
    using assms(1) unfolding Some redisSetError_def option.case Let_def n_def [symmetric] by simp
  then show ?thesis using terminated_write [of "take n x" "c_errstr c"] n assms(2) by simp
qed

lemma redisSetError_total: "str \<noteq> None \<or> ty = REDIS_ERR_IO \<Longrightarrow> \<exists>c'. redisSetError S e c ty str = Some c'"
  by (auto simp: redisSetError_def Let_def split: option.splits)

end
