(* ===== verification/SdsText.thy ===== *)
theory SdsText
  imports Sds "HOL-Library.Monad_Syntax"
begin

text \<open>
  The text functions of sds.c: numbers to decimal strings by in-place reversal, the
  small printf of \<^verbatim>\<open>sdscatfmt\<close>.
  A variable argument list is a list of tagged values; \<open>None\<close> is a fault: an argument of
  the wrong type, a write through a NULL string, or reading past the format.
\<close>

section \<open>Numbers to strings\<close>

text \<open>The \<^verbatim>\<open>do\<close> loop that stores the digits backwards from offset \<open>p\<close>.\<close>

fun put_digits :: "nat \<Rightarrow> nat \<Rightarrow> char list \<Rightarrow> nat \<times> char list" where
  "put_digits v p s =
     (let s = mem_set1 p (digit_char (v mod 10)) s
      in if v div 10 \<noteq> 0 then put_digits (v div 10) (p + 1) s else (p + 1, s))"

declare put_digits.simps [simp del]

text \<open>The loop that swaps the bytes at \<open>i\<close> and \<open>p\<close> until they meet; \<open>p\<close> may be -1.\<close>

function reverse_loop :: "int \<Rightarrow> int \<Rightarrow> char list \<Rightarrow> char list" where
  "reverse_loop i p s =
     (if i < p
      then (let aux = s ! nat i;
                s = mem_set1 (nat i) (s ! nat p) s;
                s = mem_set1 (nat p) aux s
            in reverse_loop (i + 1) (p - 1) s)
      else s)"
  by pat_completeness auto
termination
  by (relation "measure (\<lambda>(i, p, s). nat (p - i))") auto

declare reverse_loop.simps [simp del]

definition SDS_LLSTR_SIZE :: nat where "SDS_LLSTR_SIZE = 21"

definition sdsll2str :: "char list \<Rightarrow> int \<Rightarrow> nat \<times> char list" where
  "sdsll2str s value =
     (let v = to_size (if value < 0 then s64 (- value) else value);
          (p, s) = put_digits v 0 s;
          (p, s) = (if value < 0 then (p + 1, mem_set1 p (CHR ''-'') s) else (p, s));
          l = p;
          s = mem_set1 p NUL s
      in (l, reverse_loop 0 (int p - 1) s))"

definition sdsull2str :: "char list \<Rightarrow> nat \<Rightarrow> nat \<times> char list" where
  "sdsull2str s v =
     (let (p, s) = put_digits v 0 s;
          l = p;
          s = mem_set1 p NUL s
      in (l, reverse_loop 0 (int p - 1) s))"

text \<open>The uninitialised local array \<^verbatim>\<open>char buf[SDS_LLSTR_SIZE]\<close>.\<close>

definition local_buf :: "allocator \<Rightarrow> char list" where
  "local_buf A = map (garbage A) [0..<SDS_LLSTR_SIZE]"

definition sdsfromlonglong :: "allocator \<Rightarrow> int \<Rightarrow> sds option" where
  "sdsfromlonglong A value =
     (let (len, b) = sdsll2str (local_buf A) value in sdsnewlen A (Some b) len)"

section \<open>sdscatfmt\<close>

datatype 'd varg =
    VStr "char list"
  | VSds sds
  | VInt int
  | VLong int
  | VLongLong int
  | VUInt nat
  | VULongLong nat
  | VSize nat
  | VDouble 'd

text \<open>
  \<^verbatim>\<open>memcpy(s+i, str, l); sdsinclen(s, l); i += l\<close> after making room; the result of
  \<^verbatim>\<open>sdsMakeRoomFor\<close> is not checked, so a refusal is a fault.
\<close>

definition fmt_put :: "allocator \<Rightarrow> sds \<Rightarrow> int \<Rightarrow> char list \<Rightarrow> nat \<Rightarrow> (sds \<times> int) option" where
  "fmt_put A s i str l =
     do {
       s \<leftarrow> (if sdsavail s < l then sdsMakeRoomFor A s l else Some s);
       let s = s\<lparr>buf := mem_write (nat i) (take l str) (buf s)\<rparr>;
       Some (sdsinclen s l, s32 (i + int l))
     }"

definition fmt_char :: "sds \<Rightarrow> int \<Rightarrow> char \<Rightarrow> sds \<times> int" where
  "fmt_char s i c = (sdsinclen (s\<lparr>buf := mem_set1 (nat i) c (buf s)\<rparr>) 1, s32 (i + 1))"

text \<open>
  One conversion \<^verbatim>\<open>%next\<close>, with the rest of the arguments. An argument is fetched with
  the type the conversion names: \<^verbatim>\<open>%u\<close> takes the low 32 bits of a \<^verbatim>\<open>size_t\<close>.
\<close>

definition fmt_conv ::
    "allocator \<Rightarrow> sds \<Rightarrow> int \<Rightarrow> char \<Rightarrow> 'd varg list \<Rightarrow> (sds \<times> int \<times> 'd varg list) option" where
  "fmt_conv A s i next ap =
     (if next = CHR ''s'' then
        (case ap of VStr str # ap \<Rightarrow>
           do { (s, i) \<leftarrow> fmt_put A s i str (strlen str); Some (s, i, ap) } | _ \<Rightarrow> None)
      else if next = CHR ''S'' then
        (case ap of VSds t # ap \<Rightarrow>
           do { (s, i) \<leftarrow> fmt_put A s i (buf t) (sdslen t); Some (s, i, ap) } | _ \<Rightarrow> None)
      else if next = CHR ''i'' \<or> next = CHR ''I'' then
        do {
          (num, ap) \<leftarrow> (case ap of
                           VInt n # ap \<Rightarrow> if next = CHR ''i'' then Some (n, ap) else None
                         | VLongLong n # ap \<Rightarrow> if next = CHR ''I'' then Some (n, ap) else None
                         | _ \<Rightarrow> None);
          let (l, b) = sdsll2str (local_buf A) num;
          (s, i) \<leftarrow> fmt_put A s i b l;
          Some (s, i, ap)
        }
      else if next = CHR ''u'' \<or> next = CHR ''U'' then
        do {
          (unum, ap) \<leftarrow> (case ap of
                            VUInt n # ap \<Rightarrow> if next = CHR ''u'' then Some (n, ap) else None
                          | VSize n # ap \<Rightarrow> Some (if next = CHR ''u'' then u32 n else n, ap)
                          | VULongLong n # ap \<Rightarrow> if next = CHR ''U'' then Some (n, ap) else None
                          | _ \<Rightarrow> None);
          let (l, b) = sdsull2str (local_buf A) unum;
          (s, i) \<leftarrow> fmt_put A s i b l;
          Some (s, i, ap)
        }
      else (let (s, i) = fmt_char s i next in Some (s, i, ap)))"

fun sdscatfmt_loop ::
    "allocator \<Rightarrow> sds \<Rightarrow> int \<Rightarrow> char list \<Rightarrow> 'd varg list \<Rightarrow> (sds \<times> int) option" where
  "sdscatfmt_loop A s i [] ap = Some (s, i)"
| "sdscatfmt_loop A s i (c # f) ap =
     do {
       s \<leftarrow> (if sdsavail s = 0 then sdsMakeRoomFor A s 1 else Some s);
       if c = CHR ''%''
       then (case f of
               [] \<Rightarrow> None
             | next # f \<Rightarrow>
                 do { (s, i, ap) \<leftarrow> fmt_conv A s i next ap; sdscatfmt_loop A s i f ap })
       else (let (s, i) = fmt_char s i c in sdscatfmt_loop A s i f ap)
     }"

text \<open>\<open>fmt\<close> is the format without its terminator.\<close>

definition sdscatfmt :: "allocator \<Rightarrow> sds \<Rightarrow> string \<Rightarrow> 'd varg list \<Rightarrow> sds option" where
  "sdscatfmt A s fmt ap =
     do {
       let i = s32 (int (sdslen s));
       (s, i) \<leftarrow> sdscatfmt_loop A s i fmt ap;
       Some (s\<lparr>buf := mem_set1 (nat i) NUL (buf s)\<rparr>)
     }"

section \<open>Numbers are written in decimal\<close>

lemma mem_write_Cons:
  "p < length s \<Longrightarrow> mem_write (Suc p) xs (mem_set1 p x s) = mem_write p (x # xs) s"
  by (simp add: mem_write_def add.commute)

lemma put_digits_eq:
  "p + length (decimal v) \<le> length s \<Longrightarrow>
    put_digits v p s = (p + length (decimal v), mem_write p (rev (decimal v)) s)"
proof (induction v arbitrary: p s rule: decimal.induct)
  case (1 v)
  show ?case
  proof (cases "v < 10")
    case True
    then show ?thesis by (simp add: put_digits.simps [of v] decimal.simps [of v])
  next
    case False
    then have d: "decimal v = decimal (v div 10) @ [digit_char (v mod 10)]" by (subst decimal.simps) simp
    let ?s = "mem_set1 p (digit_char (v mod 10)) s"
    have p: "p < length s" "Suc p + length (decimal (v div 10)) \<le> length ?s"
      using "1.prems" by (simp_all add: d mem_write_def)
    have "put_digits v p s = put_digits (v div 10) (Suc p) ?s"
      using False by (subst put_digits.simps) (simp add: Let_def div_greater_zero_iff)
    then show ?thesis
      using "1.IH" [OF False p(2)] p(1) by (simp add: d mem_write_Cons)
  qed
qed

lemma reverse_loop_eq:
  "reverse_loop (int (length a)) (int (length a + length xs) - 1) (a @ xs @ b) = a @ rev xs @ b"
proof (induction xs arbitrary: a b rule: measure_induct_rule [of length])
  case (less xs)
  show ?case
  proof (cases "length xs \<le> 1")
    case True
    then have "rev xs = xs" by (cases xs) auto
    then show ?thesis using True by (subst reverse_loop.simps) simp
  next
    case False
    then obtain x ys y where xs: "xs = x # ys @ [y]"
      by (metis One_nat_def append_butlast_last_id le_SucI length_Cons list.exhaust list.size(3) not_less_eq_eq zero_le)
    let ?s = "a @ xs @ b"
    have i: "?s ! length a = x" "?s ! (length a + Suc (length ys)) = y"
      by (simp_all add: xs nth_append)
    have "mem_set1 (length a) y ?s = a @ y # ys @ y # b" by (simp add: mem_write_def xs)
    moreover have "mem_set1 (length a + Suc (length ys)) x (a @ y # ys @ y # b) = (a @ [y]) @ ys @ x # b"
      by (simp add: mem_write_def)
    moreover have "nat (int (length a + length xs) - 1) = length a + Suc (length ys)" by (simp add: xs)
    ultimately have "reverse_loop (int (length a)) (int (length a + length xs) - 1) ?s =
        reverse_loop (int (length a) + 1) (int (length a + length xs) - 1 - 1) ((a @ [y]) @ ys @ x # b)"
      using i by (subst reverse_loop.simps) (simp add: Let_def xs)
    also have "\<dots> = reverse_loop (int (length (a @ [y]))) (int (length (a @ [y]) + length ys) - 1) ((a @ [y]) @ ys @ x # b)"
      by (simp add: xs add.commute)
    also have "\<dots> = (a @ [y]) @ rev ys @ x # b" by (rule less.IH) (simp add: xs)
    finally show ?thesis by (simp add: xs)
  qed
qed

lemma length_decimal: "n < 10 ^ k \<Longrightarrow> 0 < k \<Longrightarrow> length (decimal n) \<le> k"
proof (induction n arbitrary: k rule: decimal.induct)
  case (1 n)
  show ?case
  proof (cases "n < 10")
    case False
    obtain j where k: "k = Suc j" using "1.prems"(2) by (cases k) auto
    then have "0 < j" using "1.prems"(1) False by (cases j) auto
    have "n div 10 < 10 ^ j" using k "1.prems"(1) by (simp add: less_mult_imp_div_less mult.commute)
    then show ?thesis using "1.IH" [OF False _ \<open>0 < j\<close>] False k by (subst decimal.simps) simp
  qed (use "1.prems"(2) in \<open>simp add: decimal.simps [of n]\<close>)
qed

lemma length_decimal_64: "n < 2 ^ 64 \<Longrightarrow> length (decimal n) \<le> 20"
  by (rule length_decimal) simp_all

text \<open>The two conversions: the text, its terminator, and the rest of the array untouched.\<close>

lemma reverse_all: "reverse_loop 0 (int (length xs) - 1) (xs @ b) = rev xs @ b"
  using reverse_loop_eq [of "[]" xs b] by simp

lemma write_text:
  assumes "length xs < length s"
  shows "mem_set1 (length xs) NUL (mem_write 0 xs s) = xs @ NUL # drop (Suc (length xs)) s"
  using assms by (simp add: mem_write_def)

lemma sdsull2str_eq:
  assumes "v < 2 ^ 64" "SDS_LLSTR_SIZE \<le> length s"
  shows "sdsull2str s v = (length (decimal v), decimal v @ NUL # drop (Suc (length (decimal v))) s)"
proof -
  have "length (decimal v) < length s"
    using length_decimal_64 [OF assms(1)] assms(2) by (simp add: SDS_LLSTR_SIZE_def)
  then show ?thesis
    using put_digits_eq [of 0 v s] write_text [of "rev (decimal v)" s]
      reverse_all [of "rev (decimal v)" "NUL # drop (Suc (length (decimal v))) s"]
    by (simp add: sdsull2str_def)
qed

lemma sdsll2str_eq:
  assumes "- (2 ^ 63) \<le> v" "v < 2 ^ 63" "SDS_LLSTR_SIZE \<le> length s"
  shows "sdsll2str s v = (length (decimal_int v), decimal_int v @ NUL # drop (Suc (length (decimal_int v))) s)"
proof (cases "v < 0")
  case False
  then have "to_size v = nat v" "nat v < 2 ^ 64" using assms(2) by (simp_all add: to_size_id nat_less_iff)
  then show ?thesis
    using False sdsull2str_eq [of "nat v" s] assms(3)
    by (simp add: sdsll2str_def sdsull2str_def decimal_int_def)
next
  case True
  define d where "d = decimal (nat (- v))"
  have n: "to_size (s64 (- v)) = nat (- v)"
  proof -
    have "to_size (0 + s64 (- v)) = to_size (0 + - v)" by (rule to_size_s64)
    then show ?thesis using True assms(1) by (simp add: to_size_id)
  qed
  have "nat (- v) < 10 ^ 19" using assms(1) by (simp add: nat_less_iff)
  then have len: "length d \<le> 19" unfolding d_def by (rule length_decimal) simp
  then have p: "put_digits (nat (- v)) 0 s = (length d, mem_write 0 (rev d) s)"
    using put_digits_eq [of 0 "nat (- v)" s] assms(3) by (simp add: d_def SDS_LLSTR_SIZE_def)
  let ?r = "rev d @ ''-''"
  have "mem_set1 (length d) (CHR ''-'') (mem_write 0 (rev d) s) = mem_write 0 ?r s"
    using mem_write_snoc [of 0 "rev d" s "CHR ''-''"] len assms(3) by (simp add: SDS_LLSTR_SIZE_def)
  then have "sdsll2str s v = (Suc (length d), reverse_loop 0 (int (length ?r) - 1)
      (mem_set1 (length ?r) NUL (mem_write 0 ?r s)))"
    using True p n by (simp add: sdsll2str_def)
  also have "\<dots> = (Suc (length d), rev ?r @ NUL # drop (Suc (length ?r)) s)"
    using write_text [of ?r s] reverse_all [of ?r "NUL # drop (Suc (length ?r)) s"] len assms(3)
    by (simp add: SDS_LLSTR_SIZE_def)
  finally show ?thesis using True by (simp add: decimal_int_def d_def)
qed

section \<open>sdscatfmt appends the formatted text\<close>

text \<open>The text a format and its arguments stand for.\<close>

fun fmt_arg :: "char \<Rightarrow> 'd varg \<Rightarrow> string option" where
  "fmt_arg c (VStr str) = (if c = CHR ''s'' then Some (cstring str) else None)"
| "fmt_arg c (VSds t) = (if c = CHR ''S'' then Some (sdsstr t) else None)"
| "fmt_arg c (VInt n) = (if c = CHR ''i'' then Some (decimal_int n) else None)"
| "fmt_arg c (VLongLong n) = (if c = CHR ''I'' then Some (decimal_int n) else None)"
| "fmt_arg c (VUInt n) = (if c = CHR ''u'' then Some (decimal n) else None)"
| "fmt_arg c (VULongLong n) = (if c = CHR ''U'' then Some (decimal n) else None)"
| "fmt_arg c (VSize n) = (if c = CHR ''u'' then Some (decimal (u32 n))
                           else if c = CHR ''U'' then Some (decimal n) else None)"
| "fmt_arg c _ = None"

definition takes_arg :: "char \<Rightarrow> bool" where
  "takes_arg c \<longleftrightarrow> c \<in> set ''sSiIuU''"

fun fmt_text :: "string \<Rightarrow> 'd varg list \<Rightarrow> string option" where
  "fmt_text [] ap = Some []"
| "fmt_text (c # f) ap =
     (if c = CHR ''%''
      then (case f of
              [] \<Rightarrow> None
            | next # f \<Rightarrow>
                if takes_arg next
                then (case ap of
                        [] \<Rightarrow> None
                      | a # ap \<Rightarrow> do { t \<leftarrow> fmt_arg next a; r \<leftarrow> fmt_text f ap; Some (t @ r) })
                else do { r \<leftarrow> fmt_text f ap; Some (next # r) })
      else do { r \<leftarrow> fmt_text f ap; Some (c # r) })"

text \<open>Arguments of the widths C gives them.\<close>

fun varg_ok :: "'d varg \<Rightarrow> bool" where
  "varg_ok (VStr str) = True"
| "varg_ok (VSds t) = sds_ok t"
| "varg_ok (VInt n) = (- (2 ^ 31) \<le> n \<and> n < 2 ^ 31)"
| "varg_ok (VLong n) = (- (2 ^ 63) \<le> n \<and> n < 2 ^ 63)"
| "varg_ok (VLongLong n) = (- (2 ^ 63) \<le> n \<and> n < 2 ^ 63)"
| "varg_ok (VUInt n) = (n < 2 ^ 32)"
| "varg_ok (VULongLong n) = (n < 2 ^ 64)"
| "varg_ok (VSize n) = (n < 2 ^ 64)"
| "varg_ok (VDouble x) = True"

text \<open>The state of the loop: a string without terminator that holds \<open>t\<close>, and its length.\<close>

definition fmt_state :: "sds \<Rightarrow> int \<Rightarrow> string \<Rightarrow> bool" where
  "fmt_state s i t \<longleftrightarrow> sds_fit s \<and> i = int (sdslen s) \<and> sdsstr s = t \<and> sdslen s < 2 ^ 31"

lemma sdslen_inclen:
  assumes "sds_fit s" "sdslen s + n \<le> sdsalloc s" "sds_type s \<noteq> SDS_TYPE_5"
  shows "sdslen (sdsinclen s n) = sdslen s + n" "sdsalloc (sdsinclen s n) = sdsalloc s"
    "sds_type (sdsinclen s n) = sds_type s" "buf (sdsinclen s n) = buf s"
proof -
  have w: "sdslen s + n < 2 ^ sds_width (sds_type s)" using sds_fitD [OF assms(1)] assms(2) by linarith
  have t: "sds_type s \<in> sds_types" using sds_fitD [OF assms(1)] by simp
  show "sdslen (sdsinclen s n) = sdslen s + n" "sdsalloc (sdsinclen s n) = sdsalloc s"
    "sds_type (sdsinclen s n) = sds_type s" "buf (sdsinclen s n) = buf s"
    using t w assms(3) by (cases rule: sds_typesE [OF t],
      simp_all add: sdsinclen_def sdslen_def sdsalloc_def sds_width_def width_simps)+
qed

lemma sds_append_fit:
  assumes "sds_fit s" "sds_type s \<noteq> SDS_TYPE_5" "sdslen s + length x \<le> sdsalloc s"
  defines "s' \<equiv> sdsinclen (s\<lparr>buf := mem_write (sdslen s) x (buf s)\<rparr>) (length x)"
  shows "sds_fit s'" "sdslen s' = sdslen s + length x" "sdsstr s' = sdsstr s @ x" "sds_type s' \<noteq> SDS_TYPE_5"
proof -
  let ?s = "s\<lparr>buf := mem_write (sdslen s) x (buf s)\<rparr>"
  note D = sds_fitD [OF assms(1)]
  have l: "length (mem_write (sdslen s) x (buf s)) = length (buf s)" using D assms(3) by (simp add: mem_simps)
  then have fit: "sds_fit ?s" using assms(1) by (simp add: sds_fit_def)
  note I = sdslen_inclen [OF fit, of "length x", simplified, OF assms(3,2)]
  show "sds_fit s'" unfolding s'_def using fit assms(3) I by (simp add: sds_fit_def)
  show "sdslen s' = sdslen s + length x" "sds_type s' \<noteq> SDS_TYPE_5" using I assms(2) by (simp_all add: s'_def)
  show "sdsstr s' = sdsstr s @ x"
    using I D assms(3) by (simp add: s'_def sdsstr_def mem_simps)
qed

lemma fmt_put_ok:
  assumes st: "fmt_state s i t" "sds_type s \<noteq> SDS_TYPE_5" and A: "roomy A"
    and str: "take l str = x" "length x = l" and small: "sdslen s + l < 2 ^ 31"
  shows "\<exists>s'. fmt_put A s i str l = Some (s', i + int l) \<and> fmt_state s' (i + int l) (t @ x) \<and>
    sdslen s' = sdslen s + l"
proof -
  have S: "sds_fit s" "i = int (sdslen s)" "sdsstr s = t" using st by (simp_all add: fmt_state_def)
  obtain r where r: "(if sdsavail s < l then sdsMakeRoomFor A s l else Some s) = Some r"
    using sdsMakeRoomFor_total [OF A small] by (cases "sdsavail s < l") auto
  have "sds_fit r \<and> sdslen r = sdslen s \<and> sdsstr r = t \<and> sdslen s + l \<le> sdsalloc r \<and> sds_type r \<noteq> SDS_TYPE_5"
  proof (cases "sdsavail s < l")
    case True
    then have m: "sdsMakeRoomFor A s l = Some r" using r by simp
    have "sdslen s < length (buf s)" using sds_fitD [OF S(1)] by simp
    then show ?thesis
      using sdsMakeRoomFor_fit [OF m S(1)] small True S(3)
        take_Suc_eqD(1) [of "sdslen s" "buf r" "buf s"] by (auto simp: sdsstr_def)
  next
    case False
    then show ?thesis
      using r S st(2) sdsavail_fit [OF S(1)] sds_fitD [OF S(1)] by auto
  qed
  then have R: "sds_fit r" "sdslen r = sdslen s" "sdsstr r = t" "sdslen s + l \<le> sdsalloc r" "sds_type r \<noteq> SDS_TYPE_5"
    by simp_all
  note P = sds_append_fit [OF R(1,5), of x]
  let ?s = "sdsinclen (r\<lparr>buf := mem_write (sdslen r) x (buf r)\<rparr>) (length x)"
  have "s32 (i + int l) = i + int l" using S(2) small by (simp add: s32_id)
  then have "fmt_put A s i str l = Some (?s, i + int l)"
    using r str S(2) R(2) by (simp add: fmt_put_def)
  then show ?thesis using P R(2,3,4) str(2) S(2) small by (simp add: fmt_state_def)
qed

lemma fmt_char_ok:
  assumes st: "fmt_state s i t" "0 < sdsavail s" and small: "sdslen s + 1 < 2 ^ 31"
  shows "fmt_state (fst (fmt_char s i c)) (snd (fmt_char s i c)) (t @ [c])"
    "sdslen (fst (fmt_char s i c)) = sdslen s + 1"
proof -
  have S: "sds_fit s" "i = int (sdslen s)" "sdsstr s = t" using st by (simp_all add: fmt_state_def)
  have a: "sds_type s \<noteq> SDS_TYPE_5" "sdslen s + length [c] \<le> sdsalloc s"
    using st(2) sdsavail_fit [OF S(1)] by (auto split: if_splits)
  have "s32 (i + 1) = i + 1" using S(2) small by (simp add: s32_id)
  then show "fmt_state (fst (fmt_char s i c)) (snd (fmt_char s i c)) (t @ [c])"
    "sdslen (fst (fmt_char s i c)) = sdslen s + 1"
    using sds_append_fit [OF S(1) a] S small by (simp_all add: fmt_char_def fmt_state_def)
qed

lemma length_local_buf [simp]: "length (local_buf A) = SDS_LLSTR_SIZE"
  by (simp add: local_buf_def)

lemma fmt_num_ok:
  assumes st: "fmt_state s i t" "sds_type s \<noteq> SDS_TYPE_5" and A: "roomy A"
    and small: "sdslen s + length x < 2 ^ 31"
  shows "\<exists>s'. fmt_put A s i (x @ y) (length x) = Some (s', i + int (length x)) \<and>
    fmt_state s' (i + int (length x)) (t @ x) \<and> sdslen s' = sdslen s + length x"
  using fmt_put_ok [OF st A, of "length x" "x @ y" x] small by simp

text \<open>The conversions, once the number is converted.\<close>

lemma fmt_conv_str:
  "fmt_conv A s i (CHR ''s'') (VStr str # ap) = do { (s, i) \<leftarrow> fmt_put A s i str (strlen str); Some (s, i, ap) }"
  "fmt_conv A s i (CHR ''S'') (VSds t # ap) = do { (s, i) \<leftarrow> fmt_put A s i (buf t) (sdslen t); Some (s, i, ap) }"
  by (simp_all add: fmt_conv_def)

lemma fmt_conv_signed:
  assumes "sdsll2str (local_buf A) n = (l, b)"
  shows "fmt_conv A s i (CHR ''i'') (VInt n # ap) = do { (s, i) \<leftarrow> fmt_put A s i b l; Some (s, i, ap) }"
    "fmt_conv A s i (CHR ''I'') (VLongLong n # ap) = do { (s, i) \<leftarrow> fmt_put A s i b l; Some (s, i, ap) }"
  using assms by (simp_all add: fmt_conv_def)

lemma fmt_conv_unsigned:
  assumes "sdsull2str (local_buf A) n = (l, b)"
  shows "fmt_conv A s i (CHR ''u'') (VUInt n # ap) = do { (s, i) \<leftarrow> fmt_put A s i b l; Some (s, i, ap) }"
    "fmt_conv A s i (CHR ''U'') (VULongLong n # ap) = do { (s, i) \<leftarrow> fmt_put A s i b l; Some (s, i, ap) }"
    "fmt_conv A s i (CHR ''U'') (VSize n # ap) = do { (s, i) \<leftarrow> fmt_put A s i b l; Some (s, i, ap) }"
    "n = u32 m \<Longrightarrow>
      fmt_conv A s i (CHR ''u'') (VSize m # ap) = do { (s, i) \<leftarrow> fmt_put A s i b l; Some (s, i, ap) }"
  using assms by (simp_all add: fmt_conv_def)

lemma fmt_arg_put:
  assumes a: "fmt_arg c a = Some x" "varg_ok a"
  shows "\<exists>str l. take l str = x \<and> length x = l \<and>
    fmt_conv A s i c (a # ap) = do { (s, i) \<leftarrow> fmt_put A s i str l; Some (s, i, ap) }"
proof -
  let ?b = "local_buf A"
  have s: "take (length (decimal_int n)) (snd (sdsll2str ?b n)) = decimal_int n"
    "sdsll2str ?b n = (length (decimal_int n), snd (sdsll2str ?b n))"
    if "- (2 ^ 63) \<le> n" "n < 2 ^ 63" for n
    using sdsll2str_eq [OF that, of ?b] by simp_all
  have u: "take (length (decimal n)) (snd (sdsull2str ?b n)) = decimal n"
    "sdsull2str ?b n = (length (decimal n), snd (sdsull2str ?b n))" if "n < 2 ^ 64" for n
    using sdsull2str_eq [OF that, of ?b] by simp_all
  show ?thesis
  proof (cases a)
    case (VStr str)
    then have "x = cstring str" "c = CHR ''s''" using a by (auto split: if_splits)
    then show ?thesis using fmt_conv_str(1) VStr by (metis cstring_take_strlen strlen_def)
  next
    case (VSds t)
    then have "x = sdsstr t" "c = CHR ''S''" "sds_ok t" using a by (auto split: if_splits)
    then show ?thesis using fmt_conv_str(2) VSds by (metis length_sdsstr sdsstr_def)
  next
    case (VInt n)
    then have x: "x = decimal_int n" "c = CHR ''i''" "- (2 ^ 63) \<le> n" "n < 2 ^ 63" using a by (auto split: if_splits)
    show ?thesis unfolding VInt x(1,2) using s [OF x(3,4)] fmt_conv_signed(1) by metis
  next
    case (VLongLong n)
    then have x: "x = decimal_int n" "c = CHR ''I''" "- (2 ^ 63) \<le> n" "n < 2 ^ 63" using a by (auto split: if_splits)
    show ?thesis unfolding VLongLong x(1,2) using s [OF x(3,4)] fmt_conv_signed(2) by metis
  next
    case (VUInt n)
    then have x: "x = decimal n" "c = CHR ''u''" "n < 2 ^ 64" using a by (auto split: if_splits)
    show ?thesis unfolding VUInt x(1,2) using u [OF x(3)] fmt_conv_unsigned(1) by metis
  next
    case (VULongLong n)
    then have x: "x = decimal n" "c = CHR ''U''" "n < 2 ^ 64" using a by (auto split: if_splits)
    show ?thesis unfolding VULongLong x(1,2) using u [OF x(3)] fmt_conv_unsigned(2) by metis
  next
    case (VSize n)
    have n: "u32 n < 2 ^ 64" "n < 2 ^ 64" using take_bit_nat_less_exp [of 32 n] a VSize by simp_all
    from VSize a consider "x = decimal (u32 n)" "c = CHR ''u''" | "x = decimal n" "c = CHR ''U''"
      by (auto split: if_splits)
    then show ?thesis
    proof cases
      case 1
      show ?thesis unfolding VSize 1 using u [OF n(1)] fmt_conv_unsigned(4) by metis
    next
      case 2
      show ?thesis unfolding VSize 2 using u [OF n(2)] fmt_conv_unsigned(3) by metis
    qed
  qed (use a in auto)
qed

lemma fmt_conv_ok:
  assumes st: "fmt_state s i t" "sds_type s \<noteq> SDS_TYPE_5" and A: "roomy A"
    and a: "fmt_arg c a = Some x" "varg_ok a" and small: "sdslen s + length x < 2 ^ 31"
  shows "\<exists>s'. fmt_conv A s i c (a # ap) = Some (s', i + int (length x), ap) \<and>
    fmt_state s' (i + int (length x)) (t @ x) \<and> sdslen s' = sdslen s + length x"
proof -
  obtain str l where p: "take l str = x" "length x = l"
    "fmt_conv A s i c (a # ap) = do { (s, i) \<leftarrow> fmt_put A s i str l; Some (s, i, ap) }"
    using fmt_arg_put [OF a, of A s i ap] by blast
  then show ?thesis using fmt_put_ok [OF st A p(1,2)] small by auto
qed

lemma fmt_room:
  assumes st: "fmt_state s i t" and A: "roomy A" and small: "sdslen s + 1 < 2 ^ 31"
  obtains r where "(if sdsavail s = 0 then sdsMakeRoomFor A s 1 else Some s) = Some r"
    "fmt_state r i t" "0 < sdsavail r" "sds_type r \<noteq> SDS_TYPE_5" "sdslen r = sdslen s"
proof -
  have S: "sds_fit s" "i = int (sdslen s)" "sdsstr s = t" using st by (simp_all add: fmt_state_def)
  obtain r where r: "(if sdsavail s = 0 then sdsMakeRoomFor A s 1 else Some s) = Some r"
    using sdsMakeRoomFor_total [OF A small] by (cases "sdsavail s = 0") auto
  have "fmt_state r i t \<and> 0 < sdsavail r \<and> sds_type r \<noteq> SDS_TYPE_5 \<and> sdslen r = sdslen s"
  proof (cases "sdsavail s = 0")
    case True
    then have m: "sdsMakeRoomFor A s 1 = Some r" using r by simp
    have l: "sdslen s < length (buf s)" using sds_fitD [OF S(1)] by simp
    have M: "sds_fit r" "sdslen r = sdslen s" "take (Suc (sdslen s)) (buf r) = take (Suc (sdslen s)) (buf s)"
      "sdslen s + 1 \<le> sdsalloc r" "sds_type r \<noteq> SDS_TYPE_5"
      using sdsMakeRoomFor_fit [OF m S(1)] small by auto
    then show ?thesis
      using S small take_Suc_eqD(1) [OF M(3) l] sdsavail_fit [OF M(1)] by (simp add: fmt_state_def sdsstr_def)
  next
    case False
    then show ?thesis using r st sdsavail_fit [OF S(1)] by auto
  qed
  then show ?thesis using that r by blast
qed

lemma sdscatfmt_loop_ok:
  assumes "fmt_state s i t" "roomy A" "\<forall>a \<in> set ap. varg_ok a" "fmt_text f ap = Some x"
    and "sdslen s + length x + 1 < 2 ^ 31"
  shows "\<exists>s' i'. sdscatfmt_loop A s i f ap = Some (s', i') \<and> fmt_state s' i' (t @ x) \<and>
    sdslen s' = sdslen s + length x"
  using assms
proof (induction f arbitrary: s i t x ap rule: measure_induct_rule [of length])
  case (less f)
  show ?case
  proof (cases f)
    case Nil
    then show ?thesis using less.prems by simp
  next
    case (Cons c g)
    obtain r where r: "(if sdsavail s = 0 then sdsMakeRoomFor A s 1 else Some s) = Some r"
      "fmt_state r i t" "0 < sdsavail r" "sds_type r \<noteq> SDS_TYPE_5" "sdslen r = sdslen s"
      using fmt_room [OF less.prems(1,2)] less.prems(5) by auto
    have plain: "\<exists>s' i'. (let (s, i) = fmt_char r i d in sdscatfmt_loop A s i h ap) = Some (s', i') \<and>
        fmt_state s' i' (t @ x) \<and> sdslen s' = sdslen s + length x"
      if "x = d # y" "fmt_text h ap = Some y" "length h < length f" for d h y
    proof -
      note C = fmt_char_ok [OF r(2,3), of d]
      obtain s1 i1 where e: "fmt_char r i d = (s1, i1)" by (cases "fmt_char r i d")
      then have C: "fmt_state s1 i1 (t @ [d])" "sdslen s1 = sdslen s + 1"
        using fmt_char_ok [OF r(2,3), of d] r(5) less.prems(5) by auto
      show ?thesis
        using less.IH [OF that(3) C(1) less.prems(2,3) that(2)] C(2) less.prems(5) that(1) e by simp
    qed
    show ?thesis
    proof (cases "c = CHR ''%''")
      case False
      then obtain y where y: "x = c # y" "fmt_text g ap = Some y"
        using less.prems(4) by (auto simp: Cons split: bind_splits)
      then show ?thesis using plain [OF y] False r(1) by (simp add: Cons)
    next
      case True
      then obtain nx h where g: "g = nx # h" using less.prems(4) by (cases g) (auto simp: Cons)
      show ?thesis
      proof (cases "takes_arg nx")
        case False
        then obtain y where y: "x = nx # y" "fmt_text h ap = Some y"
          using less.prems(4) True by (auto simp: Cons g split: bind_splits)
        have "fmt_conv A r i nx ap = (let (s, i) = fmt_char r i nx in Some (s, i, ap))"
          using False by (simp add: fmt_conv_def takes_arg_def)
        then show ?thesis using plain [OF y] True r(1) by (simp add: Cons g split: prod.splits)
      next
        case arg: True
        then obtain a ap' x1 y where y: "ap = a # ap'" "fmt_arg nx a = Some x1" "fmt_text h ap' = Some y" "x = x1 @ y"
          using less.prems(4) True by (auto simp: Cons g split: bind_splits list.splits)
        obtain s1 where s1: "fmt_conv A r i nx (a # ap') = Some (s1, i + int (length x1), ap')"
          "fmt_state s1 (i + int (length x1)) (t @ x1)" "sdslen s1 = sdslen s + length x1"
          using fmt_conv_ok [OF r(2,4) less.prems(2) y(2), of ap'] less.prems(3,5) y r(5) by auto
        then show ?thesis
          using less.IH [OF _ s1(2) less.prems(2) _ y(3)] less.prems(3,5) y True r(1)
          by (simp add: Cons g add.assoc)
      qed
    qed
  qed
qed

lemma sdscatfmt_ok:
  assumes ok: "sds_ok s" and A: "roomy A" and ap: "\<forall>a \<in> set ap. varg_ok a" and x: "fmt_text f ap = Some x"
    and small: "sdslen s + length x + 1 < 2 ^ 31"
  shows "\<exists>s'. sdscatfmt A s f ap = Some s' \<and> sds_ok s' \<and> sdsstr s' = sdsstr s @ x \<and>
    sdslen s' = sdslen s + length x"
proof -
  have "s32 (int (sdslen s)) = int (sdslen s)" using small by (intro s32_of_nat) simp
  moreover have "fmt_state s (int (sdslen s)) (sdsstr s)" using ok small by (simp add: fmt_state_def sds_ok_fit)
  note sdscatfmt_loop_ok [OF this A ap x small]
  ultimately obtain s1 i1 where s1: "sdscatfmt_loop A s (s32 (int (sdslen s))) f ap = Some (s1, i1)"
    "fmt_state s1 i1 (sdsstr s @ x)" "sdslen s1 = sdslen s + length x"
    by auto
  have S: "sds_fit s1" "i1 = int (sdslen s1)" "sdsstr s1 = sdsstr s @ x" using s1(2) by (simp_all add: fmt_state_def)
  note D = sds_fitD [OF S(1)]
  let ?s = "s1\<lparr>buf := mem_set1 (sdslen s1) NUL (buf s1)\<rparr>"
  have "length (buf ?s) = length (buf s1)" using D by (simp add: mem_simps)
  then have "sds_ok ?s" using S(1) D by (simp add: sds_ok_fit sds_fit_def mem_simps)
  moreover have "sdsstr ?s = sdsstr s1" using D by (simp add: sdsstr_def mem_simps)
  ultimately show ?thesis using s1 S by (simp add: sdscatfmt_def nat_int_add)
qed

section \<open>Properties\<close>

text \<open>
  C29. Every 64-bit integer, the most negative one included, is written as its decimal numeral
  followed by the terminator, inside the 21 bytes of the buffer and without touching what
  follows; the result is the length of the text.
\<close>

theorem sdsll2str_decimal:
  assumes "- (2 ^ 63) \<le> v" "v < 2 ^ 63" "SDS_LLSTR_SIZE \<le> length s"
  shows "sdsll2str s v = (length (decimal_int v), decimal_int v @ NUL # drop (Suc (length (decimal_int v))) s) \<and>
    Suc (length (decimal_int v)) \<le> SDS_LLSTR_SIZE"
proof
  have "length (decimal (nat (- v))) \<le> 19" if "v < 0"
    using assms(1) that by (intro length_decimal) (simp_all add: nat_less_iff)
  moreover have "length (decimal (nat v)) \<le> 19" if "\<not> v < 0"
    using assms(2) that by (intro length_decimal) (simp_all add: nat_less_iff)
  ultimately show "Suc (length (decimal_int v)) \<le> SDS_LLSTR_SIZE"
    by (cases "v < 0") (simp_all add: decimal_int_def SDS_LLSTR_SIZE_def)
qed (rule sdsll2str_eq [OF assms])

theorem sdsll2str_decimal_witness:
  "sdsll2str (replicate 21 (CHR ''z'')) (- 42) = (3, ''-42'' @ NUL # replicate 17 (CHR ''z''))"
  using sdsll2str_decimal [of "- 42" "replicate 21 (CHR ''z'')"]
  by (simp add: SDS_LLSTR_SIZE_def decimal_int_def decimal.simps digit_char_def take_bit_int_eq_self char_of_def)

text \<open>
  C28. sdscatfmt appends exactly the text its format and arguments stand for and keeps the
  string well-formed, growing it as often as needed, for every mix of conversions.
\<close>

theorem sdscatfmt_appends:
  assumes "sds_ok s" "roomy A" "\<forall>a \<in> set ap. varg_ok a" "fmt_text f ap = Some x" "sdslen s + length x + 1 < 2 ^ 31"
  shows "\<exists>s'. sdscatfmt A s f ap = Some s' \<and> sds_ok s' \<and> sdsstr s' = sdsstr s @ x"
  using sdscatfmt_ok [OF assms] by blast

theorem sdscatfmt_appends_witness:
  "\<exists>s'. sdscatfmt heap0 sds_ab ''%s=%i%%'' [VStr (''k'' @ [NUL]), VInt (- 7) :: unit varg] = Some s' \<and> sds_ok s' \<and>
    sdsstr s' = ''ab'' @ ''k=-7%''"
proof -
  have "fmt_text ''%s=%i%%'' [VStr (''k'' @ [NUL]), VInt (- 7) :: unit varg] = Some ''k=-7%''"
    by (simp add: takes_arg_def decimal_int_def decimal.simps digit_char_def take_bit_int_eq_self cstring_def NUL_def char_of_def)
  from sdscatfmt_appends [OF sds_ab_ok(1) _ _ this, of heap0] show ?thesis
    using sds_ab_ok roomy_heap0 by simp
qed

end
