(* ===== verification/ReaderLimits.thy ===== *)
theory ReaderLimits
  imports Reply
begin

text \<open>
  The limits of the reader: arrays nested deeper than its task stack are refused with a
  protocol error, and a multi bulk count beyond the range of \<^verbatim>\<open>int\<close>, which the code
  truncates, makes it dereference a NULL element vector.
\<close>

section \<open>Counts that do not fit an int\<close>

lemma number_4294967296: "number (''4294967296'' @ CRLF @ xs) = 4294967296"
  by (simp add: number_def readLongLong_def s64_id CR_def)

lemma number_1: "number (''1'' @ CRLF @ xs) = 1"
  by (simp add: number_def readLongLong_def s64_id CR_def)

lemma find_crlf_counts: "find_crlf (''4294967296'' @ CRLF @ xs) = Some 10" "find_crlf (''1'' @ CRLF @ xs) = Some 1"
  using find_crlf_line [of "''4294967296''" xs] find_crlf_line [of "''1''" xs] by (simp_all add: CR_def)

text \<open>The first byte of an item is read and its type stored.\<close>

lemma processItem_type:
  assumes "buffer_ok r" "r_input r = c # xs" "t_type (r_rstack r ! nat (r_ridx r)) = - 1" "item_type c = Some t"
  shows "processItem r h = processTyped (set_type (advance r 1) t) h"
    "buffer_ok (set_type (advance r 1) t)" "r_input (set_type (advance r 1) t) = xs"
proof -
  have "buffer_ok (set_type (advance r 1) t) = buffer_ok (advance r 1) \<and>
      r_input (set_type (advance r 1) t) = r_input (advance r 1)"
    by (rule buffer_input_cong) (simp_all add: set_type_def Let_def)
  then show "buffer_ok (set_type (advance r 1) t)" "r_input (set_type (advance r 1) t) = xs"
    using advance_ok [OF assms(1), of 1] assms(2) by simp_all
  show "processItem r h = processTyped (set_type (advance r 1) t) h"
    using assms input_hd [OF assms(1,2)]
    by (simp add: processItem_def readBytes_input [OF assms(1)] del: One_nat_def)
qed

lemma set_type_simps [simp]:
  "r_ridx (set_type r t) = r_ridx r" "r_fn (set_type r t) = r_fn r" "r_reply (set_type r t) = r_reply r"
  "r_rstack (set_type r t) = (r_rstack r)[nat (r_ridx r) := (r_rstack r ! nat (r_ridx r))\<lparr>t_type := t\<rparr>]"
  by (simp_all add: set_type_def Let_def)

lemma crash_step1:
  assumes "reader_at defaultFunctions (builder_inv b) r h [] [] (- 1) (''*4294967296'' @ CRLF @ xs)" "has_memory h"
  shows "\<exists>r' h' p. processItem r h = Some (REDIS_OK, r', h') \<and> buffer_ok r' \<and> r_input r' = xs \<and> r_ridx r' = 1 \<and>
    r_fn r' = Some defaultFunctions \<and> t_type (r_rstack r' ! 1) = - 1 \<and> length (r_rstack r') = 9 \<and>
    t_parent (r_rstack r' ! 1) = Some 0 \<and> t_obj (r_rstack r' ! 0) = p \<and> objs h' p = Some (empty_arr 0) \<and> p < next_ptr h' \<and>
    has_memory h'"
proof -
  let ?xs = "''4294967296'' @ CRLF @ xs"
  define r1 where "r1 = set_type (advance r 1) REDIS_REPLY_ARRAY"
  note D = reader_atD [OF assms(1)]
  have in0: "r_input r = CHR ''*'' # ?xs" using D(4) by simp
  have t0: "t_type (r_rstack r ! nat (r_ridx r)) = - 1" using D(8,10) by simp
  note p = processItem_type [OF D(3) in0 t0 item_types(5), folded r1_def]
  have r1: "r_ridx r1 = 0" "r_fn r1 = Some defaultFunctions" "t_type (r_rstack r1 ! 0) = REDIS_REPLY_ARRAY"
    "t_parent (r_rstack r1 ! 0) = None" "length (r_rstack r1) = 9"
    using D(2,5,7,8,9) by (simp_all add: r1_def)
  have line: "readLine r1 = (Some (r_pos r1, 10), advance r1 12)"
    using p(3) find_crlf_counts(1) [of xs] by (simp only: readLine_input [OF p(2)]) simp
  note num = number_input [OF p(2), unfolded p(3), OF find_crlf_counts(1), unfolded number_4294967296]
  let ?r2 = "advance r1 12"
  have r2: "buffer_ok ?r2" "r_input ?r2 = xs"
    using advance_ok [OF p(2), of 12] p(3) by simp_all
  obtain h1 where h1: "fresh_obj h h1 (next_ptr h) (new_arr 0)" "has_memory h \<longrightarrow> has_memory h1"
      "createArrayObject (r_rstack r1) 0 0 h = do { h2 \<leftarrow> link_parent (r_rstack r1) 0 (next_ptr h) h1; Some (next_ptr h, h2) }"
      "0 < next_ptr h"
    using createArrayObject_new [OF D(11), of 0 "r_rstack r1" 0 thesis] assms(2) by force
  have c: "createArrayObject (r_rstack r1) 0 0 h = Some (next_ptr h, h1)"
    using h1(3) r1(4) by (simp add: link_parent_def)
  let ?r3 = "(push_task ?r2 4294967296 (next_ptr h))\<lparr>r_reply := next_ptr h\<rparr>"
  have "processTyped r1 h = processMultiBulkItem r1 h" using r1(1,3) by (simp add: processTyped_def reply_types)
  also have "\<dots> = Some (REDIS_OK, ?r3, h1)"
    using r1(1,2) c h1(4) num
    by (simp add: processMultiBulkItem_def line Let_def defaultFunctions_def r_func_def)
  finally have "processItem r h = Some (REDIS_OK, ?r3, h1)" using p(1) by simp
  moreover have "buffer_ok ?r3 = buffer_ok ?r2 \<and> r_input ?r3 = r_input ?r2"
    by (rule buffer_input_cong) (simp_all add: push_task_def Let_def)
  ultimately show ?thesis
    using r1 r2 h1 assms(2)
    by (simp add: push_task_def Let_def fresh_obj_def new_arr_def)
qed

lemma crash_step2:
  assumes "buffer_ok r" "r_input r = '':1'' @ CRLF @ xs" "r_ridx r = 1" "r_fn r = Some defaultFunctions"
    and "t_type (r_rstack r ! 1) = - 1" "length (r_rstack r) = 9" "t_parent (r_rstack r ! 1) = Some 0"
    and "objs h (t_obj (r_rstack r ! 0)) = Some (empty_arr 0)" "t_obj (r_rstack r ! 0) < next_ptr h" "has_memory h"
  shows "processItem r h = None"
proof -
  define r1 where "r1 = set_type (advance r 1) REDIS_REPLY_INTEGER"
  have in0: "r_input r = CHR '':'' # ''1'' @ CRLF @ xs" using assms(2) by simp
  have t0: "t_type (r_rstack r ! nat (r_ridx r)) = - 1" using assms(3,5) by simp
  note p = processItem_type [OF assms(1) in0 t0 item_types(4), folded r1_def]
  have r1: "r_ridx r1 = 1" "r_fn r1 = Some defaultFunctions" "t_type (r_rstack r1 ! 1) = REDIS_REPLY_INTEGER"
    "t_parent (r_rstack r1 ! 1) = Some 0" "t_obj (r_rstack r1 ! 0) = t_obj (r_rstack r ! 0)"
    using assms by (simp_all add: r1_def)
  have line: "readLine r1 = (Some (r_pos r1, 1), advance r1 3)"
    using p(3) find_crlf_counts(2) [of xs] by (simp only: readLine_input [OF p(2)]) (simp add: numeral_3_eq_3)
  note num = number_input [OF p(2), unfolded p(3), OF find_crlf_counts(2), unfolded number_1]
  have g: "grants h (requests h)" using assms(10) by (simp add: has_memory_def)
  have "createIntegerObject (r_rstack r1) 1 1 h = None"
    using g assms(8,9) r1(4,5)
    by (simp add: createIntegerObject_def createReplyObject_def request_def set_reply_def link_parent_def
        empty_arr_def zero_reply_def Let_def)
  moreover have "processTyped r1 h = processLineItem r1 h"
    using r1(1,3) by (simp add: processTyped_def)
  ultimately show ?thesis
    using r1 num unfolding p(1)
    by (simp add: processLineItem_def line Let_def defaultFunctions_def r_func_def)
qed

text \<open>
  C9. A multi bulk header that announces two to the 32 elements makes the reader leave its
  memory: the count is truncated to the int 0 when the array object is created, so
  that it has no element vector, but the untruncated count makes the reader expect
  elements, and the first one is stored through the NULL vector.
\<close>

theorem huge_count_crashes:
  assumes "reading b r h [] (- 1) (''*4294967296'' @ CRLF @ '':1'' @ CRLF @ xs)" "has_memory h"
  shows "redisReaderGetReply r h = None"
proof -
  let ?xs = "''*4294967296'' @ CRLF @ '':1'' @ CRLF @ xs"
  let ?r = "if r_ridx r = - 1 then start_task r else r"
  have r: "r_err r = 0" "buffer_ok r" "r_input r = ?xs" using reader_in_buffer_ok [OF assms(1)] by auto
  then have "r_len r \<noteq> 0" using input_empty [OF r(2)] by auto
  note g = GetReply_emit [OF r(1) this]
  obtain ps where at: "reader_at defaultFunctions (builder_inv b) ?r h [] ps (- 1) ?xs"
    using reader_in_at [OF assms(1)] by blast
  then have "ps = []" using tasks_ok_length [OF reader_atD(9) [OF at]] by simp
  then obtain r' h' where s: "processItem ?r h = Some (REDIS_OK, r', h')" "processItem r' h' = None" "r_ridx r' = 1"
    using crash_step1 [of b ?r h "'':1'' @ CRLF @ xs"] at assms(2) crash_step2 by blast
  then have "process_items ?r h = None"
    using reader_atD(7) [OF at] by (simp add: process_items.simps [of ?r] process_items.simps [of r'])
  then show ?thesis using g by simp
qed

theorem huge_count_crashes_witness:
  "\<exists>r. reading Map.empty r empty_heap [] (- 1) (''*4294967296'' @ CRLF @ '':1'' @ CRLF) \<and>
     redisReaderGetReply r empty_heap = None"
proof -
  obtain r where r: "reading Map.empty r empty_heap [] (- 1) (''*4294967296'' @ CRLF @ '':1'' @ CRLF)"
    using reading_input [of "''*4294967296'' @ CRLF @ '':1'' @ CRLF"] by auto
  then show ?thesis using huge_count_crashes [of Map.empty r empty_heap "[]"] empty_heap_ok(2) by auto
qed

section \<open>Nesting\<close>

lemma spec_run_nest:
  "k + length fs \<le> 8 \<Longrightarrow> spec_run fs (- 1) (concat (replicate k (''*1'' @ CRLF)) @ xs) =
    spec_run (replicate k (1, []) @ fs) (- 1) xs"
proof (induction k arbitrary: fs)
  case (Suc k)
  have "lex_item REDIS_REPLY_ARRAY (decimal 1 @ CRLF @ ys) = Begin 1 3" for ys
    using lex_array [of 1 ys] by (simp add: decimal.simps)
  moreover have "decimal 1 = ''1''" by (simp add: decimal.simps digit_char_def char_of_def)
  ultimately have "spec_run fs (- 1) (''*1'' @ CRLF @ ys) = spec_run ((1, []) # fs) (- 1) ys" for ys
    using Suc.prems by (subst spec_run.simps) (simp add: spec_item_def spec_typed_def)
  then have "spec_run fs (- 1) (concat (replicate (Suc k) (''*1'' @ CRLF)) @ xs) =
      spec_run ((1, []) # fs) (- 1) (concat (replicate k (''*1'' @ CRLF)) @ xs)" by simp
  also have "\<dots> = spec_run (replicate k (1, []) @ (1, []) # fs) (- 1) xs"
    using Suc.IH [of "(1, []) # fs"] Suc.prems by simp
  also have "replicate k (1, []) @ (1, []) # fs = replicate (Suc k) (1, []) @ fs"
    by (simp add: replicate_app_Cons_same)
  finally show ?case .
qed simp

text \<open>
  A ninth array level is refused: after eight nested array headers the next array header is a
  protocol error, whatever follows, and the eight array objects built so far are freed.
\<close>

theorem nested_too_deep:
  assumes "reading b r h [] (- 1) (concat (replicate 8 (''*1'' @ CRLF)) @ ''*'' @ xs)" "has_memory h"
  shows "\<exists>r' h'. redisReaderGetReply r h = Some (REDIS_ERR, NULL, r', h') \<and>
    r_err r' = REDIS_ERR_PROTOCOL \<and> objs h' = b"
proof -
  let ?fs = "replicate 8 (1, []) :: frames"
  have "spec_run [] (- 1) (concat (replicate 8 (''*1'' @ CRLF)) @ ''*'' @ xs) = spec_run ?fs (- 1) (''*'' @ xs)"
    using spec_run_nest [of 8 "[]" "''*'' @ xs"] by simp
  also have "\<dots> = Failed REDIS_ERR_PROTOCOL"
    by (subst spec_run.simps) (simp add: spec_item_def spec_typed_def)
  finally have s: "spec_run [] (- 1) (concat (replicate 8 (''*1'' @ CRLF)) @ ''*'' @ xs) = Failed REDIS_ERR_PROTOCOL" .
  then show ?thesis
    using reader_get [OF assms(1)] assms(2) by (auto simp: refines_reply_def reader_failed_def builder_inv_idle)
qed

theorem nested_too_deep_witness:
  "\<exists>r r' h'. redisReaderGetReply r empty_heap = Some (REDIS_ERR, NULL, r', h') \<and> r_err r' = REDIS_ERR_PROTOCOL"
proof -
  let ?d = "concat (replicate 8 (''*1'' @ CRLF)) @ ''*'' @ ''1''"
  have "length ?d < 2 ^ 31" by (simp add: length_concat sum_list_replicate)
  then obtain r where "reading Map.empty r empty_heap [] (- 1) ?d" using reading_input by blast
  then show ?thesis using nested_too_deep [of Map.empty r empty_heap "''1''"] empty_heap_ok(2) by blast
qed

end
