(* ===== verification/Format.thy ===== *)
theory Format
  imports SdsText ReaderLimits
begin

text \<open>
  Commands to protocol text, from hiredis.c: \<^verbatim>\<open>redisvFormatCommand\<close> with its printf-like
  formats, \<^verbatim>\<open>redisFormatCommandArgv\<close> and its sds variant. A format is the C string without its
  terminator; a pointer into it is the rest of the string, \<open>[]\<close> at the terminator.
  The outer \<open>None\<close> is a fault: a failed assertion, an access outside a block or past the
  terminator, or a variable argument of another type than the code fetches. Negative
  results are the error codes the functions return. The text of floating point
  conversions, which the C library makes, is the parameter \<open>fd\<close>.
\<close>

section \<open>Sizes\<close>

function countDigits_loop :: "nat \<Rightarrow> nat \<Rightarrow> nat" where
  "countDigits_loop v result =
     (if v < 10 then result
      else if v < 100 then result + 1
      else if v < 1000 then result + 2
      else if v < 10000 then result + 3
      else countDigits_loop (v div 10000) (result + 4))"
  by pat_completeness auto
termination
  by (relation "measure fst") auto

declare countDigits_loop.simps [simp del]

definition countDigits :: "nat \<Rightarrow> nat" where
  "countDigits v = countDigits_loop v 1"

definition bulklen :: "nat \<Rightarrow> nat" where
  "bulklen len = u64 (1 + countDigits len + 2 + len + 2)"

section \<open>Writing a command into a block\<close>

text \<open>A write that leaves the block is a fault.\<close>

definition blk_write :: "int \<Rightarrow> char list \<Rightarrow> char list \<Rightarrow> char list option" where
  "blk_write pos src b =
     (if 0 \<le> pos \<and> nat pos + length src \<le> length b then Some (mem_write (nat pos) src b) else None)"

text \<open>\<^verbatim>\<open>sprintf(cmd+pos, ...)\<close> of the text \<open>t\<close>: the text and its terminator; \<^verbatim>\<open>pos\<close> moves behind the text.\<close>

definition sprintf_at :: "int \<Rightarrow> string \<Rightarrow> char list \<Rightarrow> (int \<times> char list) option" where
  "sprintf_at pos t b = do { b \<leftarrow> blk_write pos (t @ [NUL]) b; Some (s32 (pos + int (length t)), b) }"

text \<open>The body of the loop that writes one argument: header, bytes, CR and LF.\<close>

definition put_bulk :: "int \<Rightarrow> char list \<Rightarrow> nat \<Rightarrow> char list \<Rightarrow> (int \<times> char list) option" where
  "put_bulk pos arg len b =
     do {
       (pos, b) \<leftarrow> sprintf_at pos (''$'' @ decimal len @ CRLF) b;
       (if length arg < len then None else Some ());
       b \<leftarrow> blk_write pos (take len arg) b;
       let pos = s32 (pos + int len);
       b \<leftarrow> blk_write pos [CR] b;
       let pos = s32 (pos + 1);
       b \<leftarrow> blk_write pos [LF] b;
       Some (s32 (pos + 1), b)
     }"

section \<open>redisFormatCommandArgv\<close>

text \<open>\<^verbatim>\<open>argvlen ? argvlen[j] : strlen(argv[j])\<close>.\<close>

definition arg_len :: "char list list \<Rightarrow> nat list option \<Rightarrow> nat \<Rightarrow> nat option" where
  "arg_len argv argvlen j =
     (if j < length argv
      then (case argvlen of
              Some ls \<Rightarrow> if j < length ls then Some (ls ! j) else None
            | None \<Rightarrow> Some (strlen (argv ! j)))
      else None)"

text \<open>The loops \<^verbatim>\<open>for (j = 0; j < argc; j++)\<close>, with \<open>n\<close> iterations left.\<close>

fun argv_totlen :: "char list list \<Rightarrow> nat list option \<Rightarrow> nat \<Rightarrow> nat \<Rightarrow> int \<Rightarrow> int option" where
  "argv_totlen argv argvlen j 0 totlen = Some totlen"
| "argv_totlen argv argvlen j (Suc n) totlen =
     do { len \<leftarrow> arg_len argv argvlen j;
          argv_totlen argv argvlen (Suc j) n (s32 (totlen + int (bulklen len))) }"

fun put_argv :: "char list list \<Rightarrow> nat list option \<Rightarrow> nat \<Rightarrow> nat \<Rightarrow> int \<Rightarrow> char list \<Rightarrow> (int \<times> char list) option" where
  "put_argv argv argvlen j 0 pos b = Some (pos, b)"
| "put_argv argv argvlen j (Suc n) pos b =
     do { len \<leftarrow> arg_len argv argvlen j;
          (pos, b) \<leftarrow> put_bulk pos (argv ! j) len b;
          put_argv argv argvlen (Suc j) n pos b }"

text \<open>The result is the return value and what is stored through \<^verbatim>\<open>target\<close>, if anything.\<close>

definition redisFormatCommandArgv ::
    "allocator \<Rightarrow> bool \<Rightarrow> int \<Rightarrow> char list list \<Rightarrow> nat list option \<Rightarrow> (int \<times> char list option) option" where
  "redisFormatCommandArgv A target argc argv argvlen =
     (if \<not> target then Some (- 1, None)
      else do {
        totlen \<leftarrow> argv_totlen argv argvlen 0 (nat argc) (int (1 + countDigits (to_size argc) + 2));
        (case malloc A (to_size (s32 (totlen + 1))) of
           None \<Rightarrow> Some (- 1, None)
         | Some cmd \<Rightarrow>
             do {
               (pos, cmd) \<leftarrow> sprintf_at 0 (''*'' @ decimal_int argc @ CRLF) cmd;
               (pos, cmd) \<leftarrow> put_argv argv argvlen 0 (nat argc) pos cmd;
               if pos \<noteq> totlen then None
               else do { cmd \<leftarrow> blk_write pos [NUL] cmd; Some (totlen, Some cmd) }
             })
      })"

section \<open>redisFormatSdsCommandArgv\<close>

fun sds_totlen :: "char list list \<Rightarrow> nat list option \<Rightarrow> nat \<Rightarrow> nat \<Rightarrow> nat \<Rightarrow> nat option" where
  "sds_totlen argv argvlen j 0 totlen = Some totlen"
| "sds_totlen argv argvlen j (Suc n) totlen =
     do { len \<leftarrow> arg_len argv argvlen j;
          sds_totlen argv argvlen (Suc j) n (u64 (totlen + bulklen len)) }"

text \<open>The results of the appends are not checked for NULL, so a refusal is a fault.\<close>

fun sds_put_argv :: "allocator \<Rightarrow> char list list \<Rightarrow> nat list option \<Rightarrow> nat \<Rightarrow> nat \<Rightarrow> sds \<Rightarrow> sds option" where
  "sds_put_argv A argv argvlen j 0 cmd = Some cmd"
| "sds_put_argv A argv argvlen j (Suc n) cmd =
     do { len \<leftarrow> arg_len argv argvlen j;
          cmd \<leftarrow> sdscatfmt A cmd (''$%u'' @ CRLF) [VSize len :: unit varg];
          (if length (argv ! j) < len then None else Some ());
          cmd \<leftarrow> sdscatlen A cmd (argv ! j) len;
          cmd \<leftarrow> sdscatlen A cmd CRLF 2;
          sds_put_argv A argv argvlen (Suc j) n cmd }"

definition redisFormatSdsCommandArgv ::
    "allocator \<Rightarrow> bool \<Rightarrow> int \<Rightarrow> char list list \<Rightarrow> nat list option \<Rightarrow> (int \<times> sds option) option" where
  "redisFormatSdsCommandArgv A target argc argv argvlen =
     (if \<not> target then Some (- 1, None)
      else do {
        totlen \<leftarrow> sds_totlen argv argvlen 0 (nat argc) (1 + countDigits (to_size argc) + 2);
        (case Option.bind (sdsempty A) (\<lambda>cmd. sdsMakeRoomFor A cmd totlen) of
           None \<Rightarrow> Some (- 1, None)
         | Some cmd \<Rightarrow>
             do {
               cmd \<leftarrow> sdscatfmt A cmd (''*%i'' @ CRLF) [VInt argc :: unit varg];
               cmd \<leftarrow> sds_put_argv A argv argvlen 0 (nat argc) cmd;
               if sdslen cmd \<noteq> totlen then None else Some (s32 (int totlen), Some cmd)
             })
      })"

section \<open>countDigits counts digits\<close>

lemma length_decimal_div:
  "10 \<le> v \<Longrightarrow> length (decimal v) = Suc (length (decimal (v div 10)))"
  by (subst decimal.simps) simp

lemma length_decimal_less:
  "v < 10 \<Longrightarrow> length (decimal v) = 1"
  "10 \<le> v \<Longrightarrow> v < 100 \<Longrightarrow> length (decimal v) = 2"
  "100 \<le> v \<Longrightarrow> v < 1000 \<Longrightarrow> length (decimal v) = 3"
  "1000 \<le> v \<Longrightarrow> v < 10000 \<Longrightarrow> length (decimal v) = 4"
proof -
  have 1: "length (decimal v) = 1" if "v < 10" for v using that by (subst decimal.simps) simp
  have 2: "length (decimal v) = 2" if "10 \<le> v" "v < 100" for v
    using that length_decimal_div [of v] 1 [of "v div 10"] by simp
  have 3: "length (decimal v) = 3" if "100 \<le> v" "v < 1000" for v
    using that length_decimal_div [of v] 2 [of "v div 10"] by simp
  have 4: "length (decimal v) = 4" if "1000 \<le> v" "v < 10000" for v
    using that length_decimal_div [of v] 3 [of "v div 10"] by simp
  show "v < 10 \<Longrightarrow> length (decimal v) = 1" "10 \<le> v \<Longrightarrow> v < 100 \<Longrightarrow> length (decimal v) = 2"
    "100 \<le> v \<Longrightarrow> v < 1000 \<Longrightarrow> length (decimal v) = 3"
    "1000 \<le> v \<Longrightarrow> v < 10000 \<Longrightarrow> length (decimal v) = 4" by (fact 1 2 3 4)+
qed

lemma length_decimal_10000:
  assumes "10000 \<le> v"
  shows "length (decimal v) = 4 + length (decimal (v div 10000))"
proof -
  have "length (decimal v) = 4 + length (decimal (v div 10 div 10 div 10 div 10))"
    using assms length_decimal_div [of v] length_decimal_div [of "v div 10"]
      length_decimal_div [of "v div 10 div 10"] length_decimal_div [of "v div 10 div 10 div 10"]
    by (simp add: div_mult2_eq [symmetric])
  then show ?thesis by (simp add: div_mult2_eq [symmetric])
qed

lemma countDigits_loop_eq: "countDigits_loop v k + 1 = k + length (decimal v)"
proof (induction v k rule: countDigits_loop.induct)
  case (1 v k)
  consider "v < 10" | "10 \<le> v" "v < 100" | "100 \<le> v" "v < 1000" | "1000 \<le> v" "v < 10000" | "10000 \<le> v"
    by linarith
  then show ?case
  proof cases
    case 5
    then show ?thesis using 1 by (simp add: countDigits_loop.simps [of v] length_decimal_10000)
  qed (simp_all add: countDigits_loop.simps [of v] length_decimal_less)
qed

lemma countDigits_eq: "countDigits v = length (decimal v)"
  using countDigits_loop_eq [of v 1] by (simp add: countDigits_def)

section \<open>The wire format\<close>

text \<open>The text of a command: the arguments as an array of bulk strings.\<close>

definition bulk :: "string \<Rightarrow> string" where
  "bulk s = encode (RString s)"

definition wire :: "string list \<Rightarrow> string" where
  "wire args = encode (RArray (map RString args))"

lemma wire_eq: "wire args = ''*'' @ decimal (length args) @ CRLF @ concat (map bulk args)"
  by (simp add: wire_def bulk_def [abs_def] comp_def)

lemma bulk_eq: "bulk s = (''$'' @ decimal (length s) @ CRLF) @ s @ CRLF"
  by (simp add: bulk_def)

lemma bulklen_eq: "length s < 2 ^ 63 \<Longrightarrow> bulklen (length s) = length (bulk s)"
  using length_decimal_64 [of "length s"]
  by (simp add: bulklen_def countDigits_eq bulk_eq u64_id)

text \<open>Writing forward through a block: after a write the text so far has grown by what was written.\<close>

definition filled :: "nat \<Rightarrow> char list \<Rightarrow> int \<Rightarrow> string \<Rightarrow> bool" where
  "filled N b pos x \<longleftrightarrow> length b = N \<and> N \<le> 2 ^ 31 \<and> pos = int (length x) \<and> length x \<le> N \<and> take (length x) b = x"

lemma blk_write_filled:
  assumes "filled N b pos x" "length x + length src \<le> N"
  shows "\<exists>b'. blk_write pos src b = Some b' \<and> length b' = N \<and> take (length x + length src) b' = x @ src"
  using assms by (auto simp: blk_write_def filled_def mem_simps)

lemma blk_write_step:
  assumes "filled N b pos x" "length x + length src \<le> N" "length x + length src < 2 ^ 31"
  shows "\<exists>b'. blk_write pos src b = Some b' \<and> filled N b' (s32 (pos + int (length src))) (x @ src)"
proof -
  have "s32 (pos + int (length src)) = pos + int (length src)"
    using assms by (intro s32_id) (auto simp: filled_def)
  then show ?thesis using blk_write_filled [OF assms(1,2)] assms by (auto simp: filled_def)
qed

lemma sprintf_at_filled:
  assumes "filled N b pos x" "length x + length t < N"
  shows "\<exists>b'. sprintf_at pos t b = Some (s32 (pos + int (length t)), b') \<and>
    filled N b' (s32 (pos + int (length t))) (x @ t)"
proof -
  obtain b' where b': "blk_write pos (t @ [NUL]) b = Some b'" "length b' = N"
    "take (length x + length (t @ [NUL])) b' = x @ t @ [NUL]"
    using blk_write_filled [OF assms(1), of "t @ [NUL]"] assms(2) by auto
  have "take (length x + length t) b' = take (length x + length t) (take (length x + length (t @ [NUL])) b')"
    by (simp add: min_def)
  then have "take (length x + length t) b' = x @ t" unfolding b'(3) by simp
  moreover have "s32 (pos + int (length t)) = pos + int (length t)"
    using assms by (intro s32_id) (auto simp: filled_def)
  ultimately show ?thesis using b' assms by (auto simp: sprintf_at_def filled_def)
qed

lemma put_bulk_filled:
  assumes f: "filled N b pos x" and s: "take n arg = s" "length s = n" "n \<le> length arg"
    and room: "length x + length (bulk s) < N"
  shows "\<exists>pos' b'. put_bulk pos arg n b = Some (pos', b') \<and> filled N b' pos' (x @ bulk s)"
proof -
  let ?h = "''$'' @ decimal n @ CRLF"
  have N: "N \<le> 2 ^ 31" using f by (simp add: filled_def)
  have l: "length (bulk s) = length ?h + n + 2" using s by (simp add: bulk_eq)
  obtain b1 where 1: "sprintf_at pos ?h b = Some (s32 (pos + int (length ?h)), b1)"
    "filled N b1 (s32 (pos + int (length ?h))) (x @ ?h)"
    using sprintf_at_filled [OF f, of ?h] room l by auto
  let ?p1 = "s32 (pos + int (length ?h))"
  obtain b2 where 2: "blk_write ?p1 s b1 = Some b2" "filled N b2 (s32 (?p1 + int n)) ((x @ ?h) @ s)"
    using blk_write_step [OF 1(2), of s] room l N s(2) by auto
  let ?p2 = "s32 (?p1 + int n)"
  obtain b3 where 3: "blk_write ?p2 [CR] b2 = Some b3" "filled N b3 (s32 (?p2 + 1)) (((x @ ?h) @ s) @ [CR])"
    using blk_write_step [OF 2(2), of "[CR]"] room l N s(2) by auto
  let ?p3 = "s32 (?p2 + 1)"
  obtain b4 where 4: "blk_write ?p3 [LF] b3 = Some b4" "filled N b4 (s32 (?p3 + 1)) ((((x @ ?h) @ s) @ [CR]) @ [LF])"
    using blk_write_step [OF 3(2), of "[LF]"] room l N s(2) by auto
  have "put_bulk pos arg n b = Some (s32 (?p3 + 1), b4)"
    unfolding put_bulk_def 1(1) using s 2(1) 3(1) 4(1) by (simp del: of_nat_add length_append)
  moreover have "(((x @ ?h) @ s) @ [CR]) @ [LF] = x @ bulk s" using s(2) by (simp add: bulk_eq)
  ultimately show ?thesis using 4(2) by metis
qed

text \<open>The arguments the caller's arrays stand for.\<close>

definition args_are :: "char list list \<Rightarrow> nat list option \<Rightarrow> string list \<Rightarrow> bool" where
  "args_are argv argvlen args \<longleftrightarrow> length args = length argv \<and>
     (\<forall>j < length args. arg_len argv argvlen j = Some (length (args ! j)) \<and>
        length (args ! j) \<le> length (argv ! j) \<and> take (length (args ! j)) (argv ! j) = args ! j)"

lemma put_argv_filled:
  assumes a: "args_are argv argvlen args" and f: "filled N b pos x" and j: "j + n = length args"
    and room: "length x + length (concat (map bulk (drop j args))) < N"
  shows "\<exists>pos' b'. put_argv argv argvlen j n pos b = Some (pos', b') \<and>
    filled N b' pos' (x @ concat (map bulk (drop j args)))"
  using f j room
proof (induction n arbitrary: j pos b x)
  case (Suc n)
  then have "j < length args" by simp
  then have d: "drop j args = args ! j # drop (Suc j) args" and aj: "arg_len argv argvlen j = Some (length (args ! j))"
    "length (args ! j) \<le> length (argv ! j)" "take (length (args ! j)) (argv ! j) = args ! j"
    using a by (simp_all add: Cons_nth_drop_Suc args_are_def)
  obtain p' b' where b': "put_bulk pos (argv ! j) (length (args ! j)) b = Some (p', b')"
    "filled N b' p' (x @ bulk (args ! j))"
    using put_bulk_filled [OF Suc.prems(1) aj(3) refl aj(2)] Suc.prems(3) by (auto simp: d)
  then show ?case
    using Suc.IH [OF b'(2), of "Suc j"] Suc.prems(2,3) by (auto simp: d aj(1))
qed simp

lemma argv_totlen_eq:
  assumes a: "args_are argv argvlen args" and j: "j + n = length args" "0 \<le> t"
    and small: "t + int (length (concat (map bulk (drop j args)))) < 2 ^ 31"
  shows "argv_totlen argv argvlen j n t = Some (t + int (length (concat (map bulk (drop j args)))))"
  using j small
proof (induction n arbitrary: j t)
  case (Suc n)
  then have "j < length args" by simp
  then have d: "drop j args = args ! j # drop (Suc j) args" and aj: "arg_len argv argvlen j = Some (length (args ! j))"
    using a by (simp_all add: Cons_nth_drop_Suc args_are_def)
  have l: "t + int (length (bulk (args ! j))) < 2 ^ 31" using Suc.prems(3) by (simp add: d)
  then have "length (args ! j) < 2 ^ 63" using Suc.prems(2) by (simp add: bulk_eq)
  then have "s32 (t + int (bulklen (length (args ! j)))) = t + int (length (bulk (args ! j)))"
    using l Suc.prems(2) by (simp add: bulklen_eq s32_id)
  then show ?case
    using Suc.IH [of "Suc j" "t + int (length (bulk (args ! j)))"] Suc.prems by (simp add: d aj)
qed simp

lemma redisFormatCommandArgv_ok:
  assumes a: "args_are argv argvlen args" and argc: "argc = int (length args)"
    and small: "length (wire args) + 1 < 2 ^ 31" and A: "serves A (length (wire args) + 1)"
  shows "redisFormatCommandArgv A True argc argv argvlen = Some (int (length (wire args)), Some (wire args @ [NUL]))"
proof -
  let ?h = "''*'' @ decimal (length args) @ CRLF"
  let ?L = "length (wire args)"
  have w: "wire args = ?h @ concat (map bulk args)" by (simp add: wire_eq)
  have n: "length args < 2 ^ 31"
  proof -
    have "length args \<le> length (concat (map bulk args))"
      by (induction args) (simp_all add: bulk_eq)
    then show ?thesis using small w by simp
  qed
  have "to_size argc = length args" using argc n by (simp add: to_size_id)
  then have t0: "1 + countDigits (to_size argc) + 2 = length ?h" by (simp add: countDigits_eq)
  have t: "argv_totlen argv argvlen 0 (nat argc) (int (1 + countDigits (to_size argc) + 2)) = Some (int ?L)"
    using argv_totlen_eq [OF a, of 0 "length args" "int (length ?h)"] small argc unfolding t0 w by simp
  have sz: "to_size (s32 (int ?L + 1)) = ?L + 1" using small by (simp add: s32_id to_size_id)
  obtain cmd where cmd: "malloc A (?L + 1) = Some cmd" "length cmd = ?L + 1"
    using A by (simp add: malloc_def)
  then have f0: "filled (?L + 1) cmd 0 []" using small by (simp add: filled_def)
  have di: "decimal_int argc = decimal (length args)" using argc by (simp add: decimal_int_def)
  obtain b1 where b1: "sprintf_at 0 ?h cmd = Some (s32 (0 + int (length ?h)), b1)"
    "filled (?L + 1) b1 (s32 (0 + int (length ?h))) ?h"
    using sprintf_at_filled [OF f0, of ?h] w by auto
  obtain p2 b2 where b2: "put_argv argv argvlen 0 (nat argc) (s32 (0 + int (length ?h))) b1 = Some (p2, b2)"
    "filled (?L + 1) b2 p2 (wire args)"
    using put_argv_filled [OF a b1(2), of 0 "length args"] argc w by auto
  obtain b3 where b3: "blk_write p2 [NUL] b2 = Some b3" "length b3 = ?L + 1" "take (?L + 1) b3 = wire args @ [NUL]"
    using blk_write_filled [OF b2(2), of "[NUL]"] by auto
  have "p2 = int ?L" using b2(2) by (simp add: filled_def)
  then show ?thesis
    unfolding redisFormatCommandArgv_def t di using sz cmd b1(1) b2(1) b3 by simp
qed

section \<open>The sds variant\<close>

lemma sds_totlen_eq:
  assumes a: "args_are argv argvlen args" and j: "j + n = length args"
    and small: "t + length (concat (map bulk (drop j args))) < 2 ^ 31"
  shows "sds_totlen argv argvlen j n t = Some (t + length (concat (map bulk (drop j args))))"
  using j small
proof (induction n arbitrary: j t)
  case (Suc n)
  then have "j < length args" by simp
  then have d: "drop j args = args ! j # drop (Suc j) args" and aj: "arg_len argv argvlen j = Some (length (args ! j))"
    using a by (simp_all add: Cons_nth_drop_Suc args_are_def)
  have l: "t + length (bulk (args ! j)) < 2 ^ 31" using Suc.prems(2) by (simp add: d)
  then have "length (args ! j) < 2 ^ 63" by (simp add: bulk_eq)
  then have "u64 (t + bulklen (length (args ! j))) = t + length (bulk (args ! j))"
    using l by (simp add: bulklen_eq u64_id)
  then show ?case
    using Suc.IH [of "Suc j" "t + length (bulk (args ! j))"] Suc.prems by (simp add: d aj)
qed simp

lemma fmt_text_headers:
  "fmt_text (''$%u'' @ CRLF) [VSize n :: unit varg] = Some (''$'' @ decimal (u32 n) @ CRLF)"
  "fmt_text (''*%i'' @ CRLF) [VInt i :: unit varg] = Some (''*'' @ decimal_int i @ CRLF)"
  by (simp_all add: takes_arg_def CR_def LF_def)

lemma sdscatlen_grows:
  assumes "sds_ok s" "roomy A" "n \<le> length t" "sdslen s + n < 2 ^ 31"
  shows "\<exists>s'. sdscatlen A s t n = Some s' \<and> sds_ok s' \<and> sdsstr s' = sdsstr s @ take n t \<and> sdslen s' = sdslen s + n"
proof -
  obtain s' where s': "sdscatlen A s t n = Some s'" using sdscatlen_total [OF assms(2,4)] by blast
  have C: "sds_ok s'" "sdsstr s' = sdsstr s @ take n t"
    using sdsb.cat_ok [OF s' assms(1,3)] assms(4) by simp_all
  then have "sdslen s' = sdslen s + n"
    using sdsb.len_str [OF C(1)] sdsb.len_str [OF assms(1)] assms(3) by simp
  then show ?thesis using s' C by simp
qed

lemma sds_put_argv_ok:
  assumes a: "args_are argv argvlen args" and A: "roomy A" and j: "j + n = length args" and ok: "sds_ok s"
    and small: "sdslen s + length (concat (map bulk (drop j args))) + 1 < 2 ^ 31"
  shows "\<exists>s'. sds_put_argv A argv argvlen j n s = Some s' \<and> sds_ok s' \<and>
    sdsstr s' = sdsstr s @ concat (map bulk (drop j args))"
  using j ok small
proof (induction n arbitrary: j s)
  case (Suc n)
  then have "j < length args" by simp
  then have d: "drop j args = args ! j # drop (Suc j) args" and aj: "arg_len argv argvlen j = Some (length (args ! j))"
    "length (args ! j) \<le> length (argv ! j)" "take (length (args ! j)) (argv ! j) = args ! j"
    using a by (simp_all add: Cons_nth_drop_Suc args_are_def)
  let ?s = "args ! j"
  let ?h = "''$'' @ decimal (length ?s) @ CRLF"
  have l: "length (bulk ?s) = length ?h + length ?s + 2" by (simp add: bulk_eq)
  have room: "sdslen s + length (bulk ?s) + 1 < 2 ^ 31" using Suc.prems(3) by (simp add: d)
  have u: "u32 (length ?s) = length ?s" using room l by (intro u32_id) simp
  obtain s1 where s1: "sdscatfmt A s (''$%u'' @ CRLF) [VSize (length ?s) :: unit varg] = Some s1" "sds_ok s1"
    "sdsstr s1 = sdsstr s @ ?h" "sdslen s1 = sdslen s + length ?h"
    using sdscatfmt_ok [OF Suc.prems(2) A _ fmt_text_headers(1) [of "length ?s"]] room l u by auto
  obtain s2 where s2: "sdscatlen A s1 (argv ! j) (length ?s) = Some s2" "sds_ok s2" "sdsstr s2 = sdsstr s1 @ ?s"
    "sdslen s2 = sdslen s1 + length ?s"
    using sdscatlen_grows [OF s1(2) A aj(2)] aj(3) s1(4) room l by auto
  obtain s3 where s3: "sdscatlen A s2 CRLF 2 = Some s3" "sds_ok s3" "sdsstr s3 = sdsstr s2 @ CRLF"
    "sdslen s3 = sdslen s2 + 2"
    using sdscatlen_grows [OF s2(2) A, of 2 CRLF] s2(4) s1(4) room l by auto
  have "sdsstr s3 = sdsstr s @ bulk ?s" using s1(3) s2(3) s3(3) by (simp add: bulk_eq)
  moreover have "sdslen s3 = sdslen s + length (bulk ?s)" using s1(4) s2(4) s3(4) l by simp
  ultimately show ?case
    using Suc.IH [OF _ s3(2), of "Suc j"] Suc.prems(1,3) s1(1) s2(1) s3(1) aj by (auto simp: d)
qed simp

lemma redisFormatSdsCommandArgv_ok:
  assumes a: "args_are argv argvlen args" and argc: "argc = int (length args)"
    and small: "length (wire args) + 1 < 2 ^ 31" and A: "roomy A"
  shows "\<exists>cmd. redisFormatSdsCommandArgv A True argc argv argvlen = Some (int (length (wire args)), Some cmd) \<and>
    sds_ok cmd \<and> sdsstr cmd = wire args"
proof -
  let ?h = "''*'' @ decimal (length args) @ CRLF"
  let ?L = "length (wire args)"
  have w: "wire args = ?h @ concat (map bulk args)" by (simp add: wire_eq)
  have n: "length args < 2 ^ 31"
  proof -
    have "length args \<le> length (concat (map bulk args))"
      by (induction args) (simp_all add: bulk_eq)
    then show ?thesis using small w by simp
  qed
  have "to_size argc = length args" using argc n by (simp add: to_size_id)
  then have t0: "1 + countDigits (to_size argc) + 2 = length ?h" by (simp add: countDigits_eq)
  have t: "sds_totlen argv argvlen 0 (nat argc) (1 + countDigits (to_size argc) + 2) = Some ?L"
    using sds_totlen_eq [OF a, of 0 "length args" "length ?h"] small argc unfolding t0 w by simp
  obtain e where e: "sdsempty A = Some e" using sdsempty_total [OF A] by blast
  have E: "sds_ok e" "sdsstr e = []" "sdslen e = 0" using sdsb.empty_ok [OF e] sdsb.len_str [of e] by auto
  obtain c where c: "sdsMakeRoomFor A e ?L = Some c" using sdsMakeRoomFor_total [OF A, of e ?L] E(3) small by auto
  have C: "sds_ok c" "sdsstr c = []" "sdslen c = 0" using sdsMakeRoomFor_ok [OF c E(1)] E small by auto
  have di: "decimal_int argc = decimal (length args)" using argc by (simp add: decimal_int_def)
  obtain c1 where c1: "sdscatfmt A c (''*%i'' @ CRLF) [VInt argc :: unit varg] = Some c1" "sds_ok c1" "sdsstr c1 = ?h"
    "sdslen c1 = length ?h"
    using sdscatfmt_ok [OF C(1) A _ fmt_text_headers(2) [of argc]] C(2,3) argc n small w di by auto
  obtain c2 where c2: "sds_put_argv A argv argvlen 0 (nat argc) c1 = Some c2" "sds_ok c2" "sdsstr c2 = wire args"
    using sds_put_argv_ok [OF a A _ c1(2), of 0 "length args"] c1(3,4) argc w small by auto
  have "sdslen c2 = ?L" using sdsb.len_str [OF c2(2)] c2(3) by simp
  moreover have "s32 (int ?L) = int ?L" using small by (intro s32_of_nat) simp
  ultimately show ?thesis
    using t e c c1(1) c2 by (simp add: redisFormatSdsCommandArgv_def)
qed

section \<open>Properties\<close>

text \<open>The caller's arrays for the witnesses: two arguments, the second with a NUL byte in it.\<close>

definition argv_ab :: "char list list" where
  "argv_ab = [''GET'' @ [NUL], [CHR ''k'', NUL, CHR ''x'', NUL]]"

definition args_ab :: "string list" where
  "args_ab = [''GET'', [CHR ''k'', NUL, CHR ''x'']]"

lemma args_ab_are: "args_are argv_ab (Some [3, 3]) args_ab"
  by (auto simp: args_are_def arg_len_def argv_ab_def args_ab_def less_Suc_eq)

lemma wire_ab: "length (wire args_ab) = 22"
  by (simp add: wire_eq args_ab_def bulk_eq decimal.simps)

text \<open>countDigits is the number of decimal digits, for every number.\<close>

theorem countDigits_decimal: "countDigits v = length (decimal v)"
  by (rule countDigits_eq)

text \<open>
  C13. redisFormatCommandArgv writes the arguments in the wire format, whatever bytes they
  contain, into a block of exactly the size it computed beforehand; it never writes outside
  the block and its final assertion holds, for commands shorter than two gigabytes.
\<close>

theorem redisFormatCommandArgv_wire:
  assumes "args_are argv argvlen args" "argc = int (length args)" "length (wire args) + 1 < 2 ^ 31"
    "serves A (length (wire args) + 1)"
  shows "redisFormatCommandArgv A True argc argv argvlen = Some (int (length (wire args)), Some (wire args @ [NUL]))"
  using assms by (rule redisFormatCommandArgv_ok)

theorem redisFormatCommandArgv_wire_witness:
  "redisFormatCommandArgv heap0 True 2 argv_ab (Some [3, 3]) = Some (22, Some (wire args_ab @ [NUL]))"
  using redisFormatCommandArgv_wire [OF args_ab_are, of 2 heap0] wire_ab
  by (simp add: args_ab_def heap0_def)

text \<open>The sds variant formats the same bytes as redisFormatCommandArgv, with the same result.\<close>

theorem format_variants_agree:
  assumes "args_are argv argvlen args" "argc = int (length args)" "length (wire args) + 1 < 2 ^ 31" "roomy A"
  shows "\<exists>n cmd s. redisFormatCommandArgv A True argc argv argvlen = Some (n, Some cmd) \<and>
    redisFormatSdsCommandArgv A True argc argv argvlen = Some (n, Some s) \<and> sds_ok s \<and> cmd = sdsstr s @ [NUL]"
proof -
  have "serves A (length (wire args) + 1)" using assms(3,4) by (simp add: roomy_def)
  from redisFormatCommandArgv_ok [OF assms(1-3) this] redisFormatSdsCommandArgv_ok [OF assms] show ?thesis by auto
qed

theorem format_variants_agree_witness:
  "\<exists>n cmd s. redisFormatCommandArgv heap0 True 2 argv_ab (Some [3, 3]) = Some (n, Some cmd) \<and>
    redisFormatSdsCommandArgv heap0 True 2 argv_ab (Some [3, 3]) = Some (n, Some s) \<and> sds_ok s \<and> cmd = sdsstr s @ [NUL]"
  using format_variants_agree [OF args_ab_are, of 2 heap0] wire_ab roomy_heap0 by (simp add: args_ab_def)

end
