(* ===== verification/Printf.thy ===== *)
theory Printf
  imports SdsText
begin

text \<open>
  The printf conversions that the formatter and \<^verbatim>\<open>sdscatrepr\<close> pass on to the C library, and \<^verbatim>\<open>sdscatvprintf\<close>. An
  integer conversion is modelled with its flags, width, precision and size; the text of a
  floating point conversion is the parameter \<open>fd\<close>, a function of the conversion and the
  number. \<open>None\<close> is undefined behaviour: a conversion without its argument, or with one of
  another type.
\<close>

section \<open>Integer conversions\<close>

definition hex_char :: "bool \<Rightarrow> nat \<Rightarrow> char" where
  "hex_char up d = (if d < 10 then digit_char d else char_of ((if up then 65 else 97) + int d - 10))"

fun radix :: "nat \<Rightarrow> bool \<Rightarrow> nat \<Rightarrow> string" where
  "radix b up n =
     (if b < 2 \<or> n < b then [hex_char up n] else radix b up (n div b) @ [hex_char up (n mod b)])"

declare radix.simps [simp del]

fun numeral_of :: "string \<Rightarrow> nat" where
  "numeral_of ds = foldl (\<lambda>n c. 10 * n + nat (chr_val c - 48)) 0 ds"

definition pad_left :: "char \<Rightarrow> nat \<Rightarrow> string \<Rightarrow> string" where
  "pad_left c n s = replicate (n - length s) c @ s"

text \<open>The digits, with the precision as their least number.\<close>

definition int_digits :: "char \<Rightarrow> nat option \<Rightarrow> nat \<Rightarrow> string" where
  "int_digits conv prec n =
     (let ds = (if conv = CHR ''o'' then radix 8 False n
                else if conv = CHR ''x'' then radix 16 False n
                else if conv = CHR ''X'' then radix 16 True n
                else decimal n);
          ds = (if prec = Some 0 \<and> n = 0 then [] else ds)
      in pad_left (CHR ''0'') (case prec of Some p \<Rightarrow> p | None \<Rightarrow> 0) ds)"

text \<open>Sign or base prefix, by the flags.\<close>

definition int_prefix :: "char \<Rightarrow> string \<Rightarrow> int \<Rightarrow> string" where
  "int_prefix conv fl v =
     (if conv = CHR ''d'' \<or> conv = CHR ''i''
      then (if v < 0 then ''-'' else if CHR ''+'' \<in> set fl then ''+'' else if CHR '' '' \<in> set fl then '' '' else '''')
      else if CHR ''#'' \<in> set fl \<and> v \<noteq> 0 \<and> conv = CHR ''x'' then ''0x''
      else if CHR ''#'' \<in> set fl \<and> v \<noteq> 0 \<and> conv = CHR ''X'' then ''0X''
      else '''')"

definition int_text :: "string \<Rightarrow> nat \<Rightarrow> nat option \<Rightarrow> char \<Rightarrow> int \<Rightarrow> string" where
  "int_text fl width prec conv v =
     (let ds = int_digits conv prec (nat \<bar>v\<bar>);
          ds = (if CHR ''#'' \<in> set fl \<and> conv = CHR ''o'' \<and> (ds = [] \<or> hd ds \<noteq> CHR ''0'') then CHR ''0'' # ds else ds);
          pre = int_prefix conv fl v
      in if CHR ''-'' \<in> set fl then (pre @ ds) @ replicate (width - length (pre @ ds)) (CHR '' '')
         else if CHR ''0'' \<in> set fl \<and> prec = None then pre @ pad_left (CHR ''0'') (width - length pre) ds
         else pad_left (CHR '' '') width (pre @ ds))"

text \<open>The size modifiers: how many bits of the argument count.\<close>

datatype isize = MChar | MShort | MInt | MLong | MLongLong

definition fetch_int :: "isize \<Rightarrow> 'd varg list \<Rightarrow> (int \<times> 'd varg list) option" where
  "fetch_int sz ap =
     (case ap of
        VInt n # ap \<Rightarrow> if sz = MChar \<or> sz = MShort \<or> sz = MInt then Some (n, ap) else None
      | VUInt n # ap \<Rightarrow> if sz = MChar \<or> sz = MShort \<or> sz = MInt then Some (int n, ap) else None
      | VLong n # ap \<Rightarrow> if sz = MLong then Some (n, ap) else None
      | VSize n # ap \<Rightarrow> if sz = MLong then Some (int n, ap) else None
      | VLongLong n # ap \<Rightarrow> if sz = MLongLong then Some (n, ap) else None
      | VULongLong n # ap \<Rightarrow> if sz = MLongLong then Some (int n, ap) else None
      | _ \<Rightarrow> None)"

definition isize_bits :: "isize \<Rightarrow> nat" where
  "isize_bits sz = (case sz of MChar \<Rightarrow> 8 | MShort \<Rightarrow> 16 | MInt \<Rightarrow> 32 | MLong \<Rightarrow> 64 | MLongLong \<Rightarrow> 64)"

definition int_value :: "isize \<Rightarrow> char \<Rightarrow> int \<Rightarrow> int" where
  "int_value sz conv v =
     (if conv = CHR ''d'' \<or> conv = CHR ''i'' then signed_take_bit (isize_bits sz - 1) v else take_bit (isize_bits sz) v)"

definition isflag :: "char \<Rightarrow> bool" where
  "isflag c = (c \<in> set ''#0-+ '')"

definition isintfmt :: "char \<Rightarrow> bool" where
  "isintfmt c = (c \<in> set ''diouxX'')"

definition isdoublefmt :: "char \<Rightarrow> bool" where
  "isdoublefmt c = (c \<in> set ''eEfFgGaA'')"

definition size_mod :: "string \<Rightarrow> isize \<times> string" where
  "size_mod r =
     (if take 2 r = ''hh'' then (MChar, drop 2 r)
      else if take 1 r = ''h'' then (MShort, drop 1 r)
      else if take 2 r = ''ll'' then (MLongLong, drop 2 r)
      else if take 1 r = ''l'' then (MLong, drop 1 r)
      else (MInt, r))"

text \<open>\<^verbatim>\<open>vsnprintf\<close> of a single conversion \<open>%f\<close>: its text.\<close>

definition printf_one :: "(string \<Rightarrow> 'd \<Rightarrow> string) \<Rightarrow> string \<Rightarrow> 'd varg list \<Rightarrow> string option" where
  "printf_one fd f ap =
     (let fl = takeWhile isflag f; r = dropWhile isflag f;
          width = numeral_of (takeWhile isdigit r); r = dropWhile isdigit r;
          (prec, r) = (case r of
                         c # r' \<Rightarrow> if c = CHR ''.'' then (Some (numeral_of (takeWhile isdigit r')), dropWhile isdigit r') else (None, r)
                       | [] \<Rightarrow> (None, r));
          (sz, r) = size_mod r
      in if length r = 1 \<and> isintfmt (hd r)
         then do { (v, ap) \<leftarrow> fetch_int sz ap; Some (int_text fl width prec (hd r) (int_value sz (hd r) v)) }
         else if length r = 1 \<and> isdoublefmt (hd r)
         then (case ap of VDouble x # ap \<Rightarrow> Some (fd f x) | _ \<Rightarrow> None)
         else if f = ''c'' then (case ap of VInt v # ap \<Rightarrow> Some [char_of v] | _ \<Rightarrow> None)
         else None)"

text \<open>A format of literal bytes and at most one conversion, at its end.\<close>

definition vsnprintf_text :: "(string \<Rightarrow> 'd \<Rightarrow> string) \<Rightarrow> string \<Rightarrow> 'd varg list \<Rightarrow> string option" where
  "vsnprintf_text fd f ap =
     (case dropWhile (\<lambda>c. c \<noteq> CHR ''%'') f of
        [] \<Rightarrow> Some f
      | c # r \<Rightarrow> map_option ((@) (takeWhile (\<lambda>c. c \<noteq> CHR ''%'') f)) (printf_one fd r ap))"

section \<open>sdscatvprintf\<close>

text \<open>
  \<^verbatim>\<open>vsnprintf(buf, buflen, ...)\<close> of the text \<open>t\<close>, and the loop that doubles the buffer
  until the byte before the last is still 0. The first \<open>None\<close> is a fault, the second a
  NULL result.
\<close>

definition vsnprintf_into :: "nat \<Rightarrow> string \<Rightarrow> char list \<Rightarrow> char list" where
  "vsnprintf_into n t b = mem_write 0 (take (n - 1) t @ [NUL]) b"

partial_function (option) vprintf_loop :: "allocator \<Rightarrow> string \<Rightarrow> nat \<Rightarrow> char list \<Rightarrow> char list option option" where
  "vprintf_loop A t buflen b =
     (let b = vsnprintf_into buflen t (mem_set1 (buflen - 2) NUL b)
      in if byte_at b (buflen - 2) \<noteq> NUL
         then (let buflen = u64 (buflen * 2)
               in case malloc A buflen of None \<Rightarrow> Some None | Some b \<Rightarrow> vprintf_loop A t buflen b)
         else Some (Some b))"

definition sdscatvprintf ::
    "allocator \<Rightarrow> (string \<Rightarrow> 'd \<Rightarrow> string) \<Rightarrow> sds \<Rightarrow> string \<Rightarrow> 'd varg list \<Rightarrow> sds option option" where
  "sdscatvprintf A fd s fmt ap =
     do {
       t \<leftarrow> vsnprintf_text fd fmt ap;
       let buflen = u64 (length fmt * 2);
       let (b, buflen) = (if buflen > 1024 then (malloc A buflen, buflen) else (Some (map (garbage A) [0..<1024]), 1024));
       case b of
         None \<Rightarrow> Some None
       | Some b \<Rightarrow>
           do {
             b \<leftarrow> vprintf_loop A t buflen b;
             case b of None \<Rightarrow> Some None | Some b \<Rightarrow> Some (sdscat A s b)
           }
     }"

definition sdscatprintf ::
    "allocator \<Rightarrow> (string \<Rightarrow> 'd \<Rightarrow> string) \<Rightarrow> sds \<Rightarrow> string \<Rightarrow> 'd varg list \<Rightarrow> sds option option" where
  "sdscatprintf A fd s fmt ap = sdscatvprintf A fd s fmt ap"

section \<open>The buffer is always large enough in the end\<close>

lemma vsnprintf_into_long:
  assumes "n \<le> Suc (length t)" "2 \<le> n" "length b = n"
  shows "byte_at (vsnprintf_into n t b) (n - 2) = t ! (n - 2)"
  using assms by (auto simp: vsnprintf_into_def byte_at_def mem_write_def nth_append min_def)

lemma vsnprintf_into_short:
  assumes "Suc (length t) < n" "length b = n" "b ! (n - 2) = NUL"
  shows "byte_at (vsnprintf_into n t b) (n - 2) = NUL" "cstring (vsnprintf_into n t b) = cstring t"
proof -
  have w: "vsnprintf_into n t b = t @ NUL # drop (Suc (length t)) b"
    using assms by (simp add: vsnprintf_into_def mem_write_def)
  have "vsnprintf_into n t b ! (n - 2) = NUL"
  proof (cases "n - 2 = length t")
    case False
    then have "n - 2 = length t + Suc (n - 3 - length t)" "Suc (length t) + (n - 3 - length t) = n - 2" using assms(1) by auto
    moreover have "Suc (length t) \<le> length b" using assms(1,2) by simp
    ultimately show ?thesis using assms(3) by (simp add: w nth_append)
  qed (simp add: w)
  then show "byte_at (vsnprintf_into n t b) (n - 2) = NUL" by (simp add: byte_at_def)
  show "cstring (vsnprintf_into n t b) = cstring t"
    by (cases "\<forall>x \<in> set t. x \<noteq> NUL") (auto simp: w cstring_def takeWhile_append takeWhile_eq_all_conv [THEN iffD2])
qed

lemma vprintf_loop_ok:
  assumes "roomy A" "NUL \<notin> set t" "length t < 2 ^ 31" "2 \<le> n" "n \<le> 2 ^ 32" "length b = n"
  shows "\<exists>b'. vprintf_loop A t n b = Some (Some b') \<and> cstring b' = t"
  using assms(4-6)
proof (induction "2 ^ 32 - n" arbitrary: n b rule: less_induct)
  case less
  let ?b = "mem_set1 (n - 2) NUL b"
  have l: "length ?b = n" "?b ! (n - 2) = NUL" using less.prems by (simp_all add: mem_simps)
  show ?case
  proof (cases "Suc (length t) < n")
    case True
    have "cstring t = t" using assms(2) by (simp add: cstring_def takeWhile_eq_all_conv) metis
    then show ?thesis using vsnprintf_into_short [OF True l] by (subst vprintf_loop.simps) (simp add: Let_def)
  next
    case False
    then have "t ! (n - 2) \<in> set t" using less.prems(1) by (intro nth_mem) auto
    then have "t ! (n - 2) \<noteq> NUL" using assms(2) by auto
    then have ne: "byte_at (vsnprintf_into n t ?b) (n - 2) \<noteq> NUL"
      using vsnprintf_into_long [of n t ?b] False less.prems(1) l(1) by simp
    have n2: "n * 2 < 2 ^ 33" using False assms(3) by auto
    then have u: "u64 (n * 2) = n * 2" by (intro u64_id) simp
    obtain b1 where b1: "malloc A (n * 2) = Some b1" "length b1 = n * 2"
      using assms(1) n2 by (auto simp: malloc_def roomy_def)
    have "n * 2 \<le> 2 ^ 32" using False assms(3) by simp
    moreover from this have "(2 :: nat) ^ 32 - n * 2 < 2 ^ 32 - n" using less.prems(1) by linarith
    ultimately obtain b' where "vprintf_loop A t (n * 2) b1 = Some (Some b')" "cstring b' = t"
      using less.hyps [of "n * 2" b1] less.prems b1(2) by auto
    then show ?thesis using ne u b1(1) by (subst vprintf_loop.simps) (simp add: Let_def)
  qed
qed

lemma sdscatvprintf_ok:
  assumes "roomy A" "sds_ok s" "vsnprintf_text fd fmt ap = Some t" "NUL \<notin> set t" "length fmt < 2 ^ 30"
    "sdslen s + length t < 2 ^ 31"
  shows "\<exists>s'. sdscatvprintf A fd s fmt ap = Some (Some s') \<and> sds_ok s' \<and> sdsstr s' = sdsstr s @ t"
proof -
  have u: "u64 (length fmt * 2) = length fmt * 2" using assms(5) by (intro u64_id) simp
  have cat: "\<exists>s'. sdscat A s b = Some s' \<and> sds_ok s' \<and> sdsstr s' = sdsstr s @ t" if "cstring b = t" for b
  proof -
    have sl: "strlen b = length t" using that by (simp add: strlen_def)
    obtain s' where s': "sdscatlen A s b (length t) = Some s'"
      using sdscatlen_total [OF assms(1), of s "length t" b] assms(6) by auto
    moreover have "take (length t) b = t" using that cstring_take_strlen [of b] sl by simp
    ultimately show ?thesis
      using sdsb.cat_ok [OF s' assms(2)] strlen_le [of b] sl assms(6) by (simp add: sdscat_def)
  qed
  have t: "length t < 2 ^ 31" using assms(6) by simp
  show ?thesis
  proof (cases "length fmt * 2 > 1024")
    case True
    obtain b where b: "malloc A (length fmt * 2) = Some b" "length b = length fmt * 2"
      using assms(1,5) by (auto simp: malloc_def roomy_def)
    obtain b' where "vprintf_loop A t (length fmt * 2) b = Some (Some b')" "cstring b' = t"
      using vprintf_loop_ok [OF assms(1,4) t, of "length fmt * 2" b] True b(2) assms(5) by auto
    then show ?thesis using True u b(1) assms(3) cat [of b'] by (simp add: sdscatvprintf_def)
  next
    case False
    let ?b = "map (garbage A) [0..<1024]"
    obtain b' where "vprintf_loop A t 1024 ?b = Some (Some b')" "cstring b' = t"
      using vprintf_loop_ok [OF assms(1,4) t, of 1024 ?b] by auto
    then show ?thesis using False u assms(3) cat [of b'] by (simp add: sdscatvprintf_def)
  qed
qed

end
