(* ===== verification/VFormat.thy ===== *)
theory VFormat
  imports Format Printf
begin

text \<open>
  \<^verbatim>\<open>redisvFormatCommand\<close> and \<^verbatim>\<open>redisFormatCommand\<close> of hiredis.c. A pointer into the format is the
  rest of the string, \<open>[]\<close> at the terminator; reading past it is a fault. The variable
  arguments are a list of tagged values; fetching one of another type is a fault. Inside,
  \<open>Inl\<close> is the error code of the \<^verbatim>\<open>goto memory_err\<close> and \<^verbatim>\<open>goto format_err\<close> exits, which free
  everything collected so far.
\<close>

section \<open>One conversion\<close>

text \<open>How the current argument grows: not at all, by \<open>n\<close> bytes of a block, by a literal, by printf.\<close>

datatype 'd growth =
    Keep
  | CatLen "char list" nat
  | CatStr string
  | CatPrintf string "'d varg list"

text \<open>
  The scan over flags, field width and precision. The code looks for the conversion
  character with \<^verbatim>\<open>strchr\<close>, which also finds the terminator: the loop goes on past the end
  of a format that ends inside a conversion, a fault, unless the conversion is too long.
\<close>

definition skip_spec :: "char list \<Rightarrow> char list" where
  "skip_spec p =
     (let p = dropWhile isflag p;
          p = dropWhile isdigit p
      in if take 1 p = ''.'' then dropWhile isdigit (tl p) else p)"

text \<open>
  A valid conversion that ends with the first character of \<open>p\<close>, from \<open>c\<close> on: it is copied
  to a local array of 16 bytes when it fits. The results are the growth, how far \<open>c\<close>
  moves, and the rest of the arguments.
\<close>

definition fmt_valid ::
    "char list \<Rightarrow> char list \<Rightarrow> 'd varg list \<Rightarrow> 'd varg list \<Rightarrow> (int + 'd growth \<times> nat \<times> 'd varg list) option" where
  "fmt_valid c p cpy ap =
     (let l = length c - length p + 1
      in if l < 14 then Some (Inr (CatPrintf (take l c) cpy, l, ap)) else Some (Inr (Keep, 2, ap)))"

definition fmt_sized ::
    "char list \<Rightarrow> char list \<Rightarrow> isize \<Rightarrow> 'd varg list \<Rightarrow> (int + 'd growth \<times> nat \<times> 'd varg list) option" where
  "fmt_sized c p sz ap =
     (case p of
        x # _ \<Rightarrow> if isintfmt x then do { (v, ap') \<leftarrow> fetch_int sz ap; fmt_valid c p ap ap' } else Some (Inl (- 2))
      | [] \<Rightarrow> Some (Inl (- 2)))"

definition fmt_default :: "char list \<Rightarrow> 'd varg list \<Rightarrow> (int + 'd growth \<times> nat \<times> 'd varg list) option" where
  "fmt_default c ap =
     (let p = skip_spec (tl c)
      in case p of
           [] \<Rightarrow>
             if length c + 1 < 14 then None
             else do { (v, ap') \<leftarrow> fetch_int MInt ap; fmt_valid c p ap ap' }
         | x # _ \<Rightarrow>
             if isintfmt x then do { (v, ap') \<leftarrow> fetch_int MInt ap; fmt_valid c p ap ap' }
             else if isdoublefmt x
             then (case ap of VDouble d # ap' \<Rightarrow> fmt_valid c p ap ap' | _ \<Rightarrow> None)
             else if take 2 p = ''hh'' then fmt_sized c (drop 2 p) MChar ap
             else if take 1 p = ''h'' then fmt_sized c (drop 1 p) MShort ap
             else if take 2 p = ''ll'' then fmt_sized c (drop 2 p) MLongLong ap
             else if take 1 p = ''l'' then fmt_sized c (drop 1 p) MLong ap
             else Some (Inl (- 2)))"

text \<open>The switch on \<^verbatim>\<open>c[1]\<close>.\<close>

definition fmt_switch :: "char list \<Rightarrow> 'd varg list \<Rightarrow> (int + 'd growth \<times> nat \<times> 'd varg list) option" where
  "fmt_switch c ap =
     (let k = c ! 1
      in if k = CHR ''s'' then
           (case ap of
              VStr arg # ap \<Rightarrow>
                Some (Inr (if strlen arg > 0 then CatLen arg (strlen arg) else Keep, 2, ap))
            | _ \<Rightarrow> None)
         else if k = CHR ''b'' then
           (case ap of
              VStr arg # VSize n # ap \<Rightarrow> Some (Inr (if n > 0 then CatLen arg n else Keep, 2, ap))
            | _ \<Rightarrow> None)
         else if k = CHR ''%'' then Some (Inr (CatStr ''%'', 2, ap))
         else fmt_default c ap)"

text \<open>\<open>newarg\<close>, with \<open>None\<close> inside for NULL.\<close>

definition grow :: "allocator \<Rightarrow> (string \<Rightarrow> 'd \<Rightarrow> string) \<Rightarrow> sds \<Rightarrow> 'd growth \<Rightarrow> sds option option" where
  "grow A fd curarg g =
     (case g of
        Keep \<Rightarrow> Some (Some curarg)
      | CatLen arg n \<Rightarrow> if length arg < n then None else Some (sdscatlen A curarg arg n)
      | CatStr t \<Rightarrow> Some (sdscat A curarg (t @ [NUL]))
      | CatPrintf f ap \<Rightarrow> sdscatvprintf A fd curarg f ap)"

section \<open>The loop over the format\<close>

record fmt_st =
  f_curarg :: sds
  f_touched :: bool
  f_argv :: "sds list"
  f_totlen :: int

text \<open>
  Putting the current argument into the vector; the vector's block is grown by \<^verbatim>\<open>realloc\<close>
  to one more pointer, which may be refused.
\<close>

definition push_arg :: "allocator \<Rightarrow> fmt_st \<Rightarrow> fmt_st option" where
  "push_arg A st =
     (if serves A (8 * (length (f_argv st) + 1))
      then Some (st\<lparr>f_argv := f_argv st @ [f_curarg st], f_totlen := s32 (f_totlen st + int (bulklen (sdslen (f_curarg st))))\<rparr>)
      else None)"

text \<open>One round at \<open>c\<close>: the new state and how far \<open>c\<close> moves.\<close>

definition fmt_round ::
    "allocator \<Rightarrow> (string \<Rightarrow> 'd \<Rightarrow> string) \<Rightarrow> char list \<Rightarrow> 'd varg list \<Rightarrow> fmt_st \<Rightarrow>
     (int + fmt_st \<times> nat \<times> 'd varg list) option" where
  "fmt_round A fd c ap st =
     (if hd c \<noteq> CHR ''%'' \<or> length c = 1
      then (if hd c = CHR '' ''
            then (if f_touched st
                  then (case push_arg A st of
                          None \<Rightarrow> Some (Inl (- 1))
                        | Some st \<Rightarrow>
                            (case sdsempty A of
                               None \<Rightarrow> Some (Inl (- 1))
                             | Some e \<Rightarrow> Some (Inr (st\<lparr>f_curarg := e, f_touched := False\<rparr>, 1, ap))))
                  else Some (Inr (st, 1, ap)))
            else (case sdscatlen A (f_curarg st) c 1 of
                    None \<Rightarrow> Some (Inl (- 1))
                  | Some newarg \<Rightarrow> Some (Inr (st\<lparr>f_curarg := newarg, f_touched := True\<rparr>, 1, ap))))
      else do {
        r \<leftarrow> fmt_switch c ap;
        case r of
          Inl e \<Rightarrow> Some (Inl e)
        | Inr (g, k, ap) \<Rightarrow>
            do {
              newarg \<leftarrow> grow A fd (f_curarg st) g;
              case newarg of
                None \<Rightarrow> Some (Inl (- 1))
              | Some newarg \<Rightarrow> Some (Inr (st\<lparr>f_curarg := newarg, f_touched := True\<rparr>, k, ap))
            }
      })"

partial_function (option) fmt_loop ::
    "allocator \<Rightarrow> (string \<Rightarrow> 'd \<Rightarrow> string) \<Rightarrow> char list \<Rightarrow> 'd varg list \<Rightarrow> fmt_st \<Rightarrow> (int + fmt_st) option" where
  "fmt_loop A fd c ap st =
     (if c = [] then Some (Inr st)
      else do {
        r \<leftarrow> fmt_round A fd c ap st;
        case r of Inl e \<Rightarrow> Some (Inl e) | Inr (st, k, ap) \<Rightarrow> fmt_loop A fd (drop k c) ap st
      })"

section \<open>Building the command\<close>

definition build_cmd :: "allocator \<Rightarrow> fmt_st \<Rightarrow> (int \<times> char list option) option" where
  "build_cmd A st =
     do {
       let argc = length (f_argv st);
       let totlen = s32 (f_totlen st + int (1 + countDigits argc + 2));
       case malloc A (to_size (s32 (totlen + 1))) of
         None \<Rightarrow> Some (- 1, None)
       | Some cmd \<Rightarrow>
           do {
             (pos, cmd) \<leftarrow> sprintf_at 0 (''*'' @ decimal argc @ CRLF) cmd;
             (pos, cmd) \<leftarrow> put_argv (map buf (f_argv st)) (Some (map sdslen (f_argv st))) 0 argc pos cmd;
             if pos \<noteq> totlen then None
             else do { cmd \<leftarrow> blk_write pos [NUL] cmd; Some (totlen, Some cmd) }
           }
     }"

definition redisvFormatCommand ::
    "allocator \<Rightarrow> (string \<Rightarrow> 'd \<Rightarrow> string) \<Rightarrow> bool \<Rightarrow> string \<Rightarrow> 'd varg list \<Rightarrow> (int \<times> char list option) option" where
  "redisvFormatCommand A fd target format ap =
     (if \<not> target then Some (- 1, None)
      else case sdsempty A of
             None \<Rightarrow> Some (- 1, None)
           | Some e \<Rightarrow>
               do {
                 r \<leftarrow> fmt_loop A fd format ap \<lparr>f_curarg = e, f_touched = False, f_argv = [], f_totlen = 0\<rparr>;
                 case r of
                   Inl err \<Rightarrow> Some (err, None)
                 | Inr st \<Rightarrow>
                     (case (if f_touched st then push_arg A st else Some st) of
                        None \<Rightarrow> Some (- 1, None)
                      | Some st \<Rightarrow> build_cmd A st)
               })"

definition redisFormatCommand ::
    "allocator \<Rightarrow> (string \<Rightarrow> 'd \<Rightarrow> string) \<Rightarrow> bool \<Rightarrow> string \<Rightarrow> 'd varg list \<Rightarrow> (int \<times> char list option) option" where
  "redisFormatCommand A fd target format ap =
     do {
       (len, cmd) \<leftarrow> redisvFormatCommand A fd target format ap;
       Some (if len < 0 then - 1 else len, cmd)
     }"

section \<open>What a format means\<close>

text \<open>
  The arguments a format and its variable arguments stand for: words separated by spaces;
  \<open>cur\<close> is the word so far and \<open>touched\<close> whether there is one. A word can be empty when it
  comes from a conversion.
\<close>

inductive fmt_spec :: "(string \<Rightarrow> 'd \<Rightarrow> string) \<Rightarrow> string \<Rightarrow> 'd varg list \<Rightarrow> string \<Rightarrow> bool \<Rightarrow> string list \<Rightarrow> bool"
  for fd where
  fin_none: "fmt_spec fd [] ap [] False []"
| fin_word: "fmt_spec fd [] ap cur True [cur]"
| space_word: "fmt_spec fd c ap [] False args \<Longrightarrow> fmt_spec fd (CHR '' '' # c) ap cur True (cur # args)"
| space_none: "fmt_spec fd c ap [] False args \<Longrightarrow> fmt_spec fd (CHR '' '' # c) ap [] False args"
| literal: "x \<noteq> CHR '' '' \<Longrightarrow> x \<noteq> CHR ''%'' \<or> c = [] \<Longrightarrow> fmt_spec fd c ap (cur @ [x]) True args \<Longrightarrow>
    fmt_spec fd (x # c) ap cur touched args"
| percent: "fmt_spec fd c ap (cur @ ''%'') True args \<Longrightarrow>
    fmt_spec fd (CHR ''%'' # CHR ''%'' # c) ap cur touched args"
| cstr: "fmt_spec fd c ap (cur @ cstring arg) True args \<Longrightarrow>
    fmt_spec fd (CHR ''%'' # CHR ''s'' # c) (VStr arg # ap) cur touched args"
| binary: "n \<le> length arg \<Longrightarrow> fmt_spec fd c ap (cur @ take n arg) True args \<Longrightarrow>
    fmt_spec fd (CHR ''%'' # CHR ''b'' # c) (VStr arg # VSize n # ap) cur touched args"
| printf: "x \<notin> set ''sb%'' \<Longrightarrow> fmt_default (CHR ''%'' # x # c) ap = Some (Inr (CatPrintf f cpy, k, ap')) \<Longrightarrow>
    vsnprintf_text fd f cpy = Some t \<Longrightarrow> NUL \<notin> set t \<Longrightarrow>
    fmt_spec fd (drop k (CHR ''%'' # x # c)) ap' (cur @ t) True args \<Longrightarrow>
    fmt_spec fd (CHR ''%'' # x # c) ap cur touched args"

lemma fmt_spec_cur: "fmt_spec fd c ap cur touched args \<Longrightarrow> touched \<or> cur = [] \<Longrightarrow> length cur \<le> length (concat args)"
  by (induction rule: fmt_spec.induct) auto

text \<open>A format without conversions is split into its words.\<close>

fun words :: "string \<Rightarrow> string \<Rightarrow> string list" where
  "words cur [] = (if cur = [] then [] else [cur])"
| "words cur (x # xs) =
     (if x = CHR '' '' then (if cur = [] then words [] xs else cur # words [] xs) else words (cur @ [x]) xs)"

lemma fmt_spec_words:
  assumes "CHR ''%'' \<notin> set f"
  shows "fmt_spec fd f ap cur (cur \<noteq> []) (words cur f)"
  using assms
proof (induction f arbitrary: cur)
  case Nil
  then show ?case by (cases "cur = []") (auto intro: fmt_spec.intros)
next
  case (Cons x f)
  show ?case
  proof (cases "x = CHR '' ''")
    case True
    then show ?thesis using Cons.IH [of "[]"] Cons.prems by (cases "cur = []") (auto intro: fmt_spec.intros)
  next
    case False
    then show ?thesis using Cons.IH [of "cur @ [x]"] Cons.prems by (auto intro: fmt_spec.intros)
  qed
qed

section \<open>The formatter follows the meaning\<close>

definition growth_text :: "(string \<Rightarrow> 'd \<Rightarrow> string) \<Rightarrow> 'd growth \<Rightarrow> string \<Rightarrow> bool" where
  "growth_text fd g t \<longleftrightarrow>
     (case g of
        Keep \<Rightarrow> t = []
      | CatLen arg n \<Rightarrow> n \<le> length arg \<and> t = take n arg
      | CatStr u \<Rightarrow> NUL \<notin> set u \<and> t = u
      | CatPrintf f ap \<Rightarrow> length f < 14 \<and> NUL \<notin> set t \<and> vsnprintf_text fd f ap = Some t)"

lemma grow_ok:
  assumes "roomy A" "sds_ok s" "growth_text fd g t" "sdslen s + length t < 2 ^ 31"
  shows "\<exists>s'. grow A fd s g = Some (Some s') \<and> sds_ok s' \<and> sdsstr s' = sdsstr s @ t"
proof (cases g)
  case (CatLen arg n)
  then have n: "n \<le> length arg" "length t = n" "t = take n arg" using assms(3) by (auto simp: growth_text_def)
  show ?thesis using sdscatlen_grows [OF assms(2,1) n(1)] n assms(4) CatLen by (auto simp: grow_def)
next
  case (CatStr u)
  then have u: "NUL \<notin> set u" "t = u" using assms(3) by (simp_all add: growth_text_def)
  then have "strlen (u @ [NUL]) = length u" by (simp add: strlen_def)
  then show ?thesis
    using sdscatlen_grows [OF assms(2,1), of "length u" "u @ [NUL]"] u assms(4) CatStr by (auto simp: grow_def sdscat_def)
next
  case (CatPrintf f ap)
  then show ?thesis using sdscatvprintf_ok [OF assms(1,2), of fd f ap t] assms(3,4) by (auto simp: grow_def growth_text_def)
qed (use assms in \<open>auto simp: grow_def growth_text_def\<close>)

lemma fmt_default_short:
  "fmt_default c ap = Some (Inr (CatPrintf f cpy, k, ap')) \<Longrightarrow> length f < 14"
  by (auto simp: fmt_default_def fmt_valid_def fmt_sized_def Let_def
      split: list.splits if_splits Option.bind_splits varg.splits)

definition fmt_ok :: "fmt_st \<Rightarrow> string \<Rightarrow> bool \<Rightarrow> string list \<Rightarrow> bool" where
  "fmt_ok st cur touched prev \<longleftrightarrow> sds_ok (f_curarg st) \<and> sdsstr (f_curarg st) = cur \<and> f_touched st = touched \<and>
     (\<forall>a \<in> set (f_argv st). sds_ok a) \<and> map sdsstr (f_argv st) = prev \<and>
     f_totlen st = int (length (concat (map bulk prev)))"

lemma args_bound: "6 * length args + length (concat args) \<le> length (concat (map bulk args))"
proof (induction args)
  case (Cons a args)
  have "1 \<le> length (decimal (length a))" by (simp add: Suc_le_eq)
  then show ?case using Cons by (simp add: bulk_eq)
qed simp

lemma push_arg_ok:
  assumes "fmt_ok st cur touched prev" "roomy A" "length (concat (map bulk (prev @ [cur]))) < 2 ^ 31"
  shows "\<exists>st'. push_arg A st = Some st' \<and> fmt_ok st' cur touched (prev @ [cur]) \<and> f_curarg st' = f_curarg st"
proof -
  have o: "sds_ok (f_curarg st)" "sdsstr (f_curarg st) = cur" "map sdsstr (f_argv st) = prev"
    "f_totlen st = int (length (concat (map bulk prev)))" using assms(1) by (simp_all add: fmt_ok_def)
  have len: "sdslen (f_curarg st) = length cur" using sdsb.len_str [OF o(1)] o(2) by simp
  have n: "length (f_argv st) = length prev" using o(3) by (metis length_map)
  have "6 * length (prev @ [cur]) + length (concat (prev @ [cur])) < 2 ^ 31"
    using args_bound [of "prev @ [cur]"] assms(3) by linarith
  then have c: "8 * (length prev + 1) < 2 ^ 33" "length cur < 2 ^ 31" by simp_all
  then have "bulklen (length cur) = length (bulk cur)" by (intro bulklen_eq) simp
  then have "s32 (f_totlen st + int (bulklen (sdslen (f_curarg st)))) = int (length (concat (map bulk (prev @ [cur]))))"
    using o(4) assms(3) by (simp add: len s32_id)
  then show ?thesis
    using assms(1,2) c(1) n o by (auto simp: push_arg_def fmt_ok_def roomy_def)
qed

lemma fmt_round_conv:
  assumes "fmt_switch (CHR ''%'' # x # c) ap = Some (Inr (g, k, ap'))" "growth_text fd g t"
    "fmt_ok st cur touched prev" "roomy A" "length cur + length t < 2 ^ 31"
  shows "\<exists>st'. fmt_round A fd (CHR ''%'' # x # c) ap st = Some (Inr (st', k, ap')) \<and> fmt_ok st' (cur @ t) True prev"
proof -
  have o: "sds_ok (f_curarg st)" "sdsstr (f_curarg st) = cur" using assms(3) by (simp_all add: fmt_ok_def)
  have "sdslen (f_curarg st) = length cur" using sdsb.len_str [OF o(1)] o(2) by simp
  then obtain s' where "grow A fd (f_curarg st) g = Some (Some s')" "sds_ok s'" "sdsstr s' = cur @ t"
    using grow_ok [OF assms(4) o(1) assms(2)] o(2) assms(5) by auto
  then show ?thesis using assms(1,3) by (auto simp: fmt_round_def fmt_ok_def)
qed

text \<open>After the loop and the last argument, the vector holds the arguments.\<close>

definition fmt_result :: "allocator \<Rightarrow> (int + fmt_st) option \<Rightarrow> string list \<Rightarrow> bool" where
  "fmt_result A r args \<longleftrightarrow> (\<exists>st st' cur touched. r = Some (Inr st) \<and>
     (if f_touched st then push_arg A st else Some st) = Some st' \<and> fmt_ok st' cur touched args)"

lemma fmt_loop_step:
  assumes "fmt_round A fd c ap st = Some (Inr (st', k, ap'))" "c \<noteq> []"
  shows "fmt_loop A fd c ap st = fmt_loop A fd (drop k c) ap' st'"
  using assms by (subst fmt_loop.simps) simp

lemma fmt_loop_ok:
  assumes "fmt_spec fd c ap cur touched args" "fmt_ok st cur touched prev" "roomy A" "touched \<or> cur = []"
    "length (concat (map bulk (prev @ args))) < 2 ^ 31"
  shows "fmt_result A (fmt_loop A fd c ap st) (prev @ args)"
  using assms
proof (induction arbitrary: st prev rule: fmt_spec.induct)
  case (fin_none ap)
  then show ?case by (subst fmt_loop.simps) (auto simp: fmt_result_def fmt_ok_def)
next
  case (fin_word ap cur)
  then show ?case
    using push_arg_ok [OF fin_word(1,2)] by (subst fmt_loop.simps) (auto simp: fmt_result_def fmt_ok_def)
next
  case (space_word c ap args cur)
  have "length (concat (map bulk (prev @ [cur]))) < 2 ^ 31" using space_word.prems(4) by simp
  then obtain st1 where st1: "push_arg A st = Some st1" "fmt_ok st1 cur True (prev @ [cur])"
    using push_arg_ok [OF space_word.prems(1,2)] by blast
  obtain e where e: "sdsempty A = Some e" "sds_ok e" "sdsstr e = []"
    using sdsempty_total [OF space_word.prems(2)] sdsb.empty_ok by blast
  let ?st = "st1\<lparr>f_curarg := e, f_touched := False\<rparr>"
  have "fmt_round A fd (CHR '' '' # c) ap st = Some (Inr (?st, 1, ap))"
    using st1(1) e(1) space_word.prems(1) by (simp add: fmt_round_def fmt_ok_def)
  from fmt_loop_step [OF this] show ?case
    using space_word.IH [of ?st "prev @ [cur]"] space_word.prems(2,4) st1(2) e by (simp add: fmt_ok_def)
next
  case (space_none c ap args)
  have "fmt_round A fd (CHR '' '' # c) ap st = Some (Inr (st, 1, ap))"
    using space_none.prems(1) by (simp add: fmt_round_def fmt_ok_def)
  from fmt_loop_step [OF this] show ?case
    using space_none.IH [of st prev] space_none.prems by simp
next
  case (literal x c ap cur args touched)
  have b: "length (cur @ [x]) < 2 ^ 31"
    using fmt_spec_cur [OF literal(3)] args_bound [of "prev @ args"] literal.prems(4) by simp
  have o: "sds_ok (f_curarg st)" "sdsstr (f_curarg st) = cur" using literal.prems(1) by (simp_all add: fmt_ok_def)
  have "sdslen (f_curarg st) = length cur" using sdsb.len_str [OF o(1)] o(2) by simp
  then obtain s' where s': "sdscatlen A (f_curarg st) (x # c) 1 = Some s'" "sds_ok s'" "sdsstr s' = cur @ [x]"
    using sdscatlen_grows [OF o(1) literal.prems(2), of 1 "x # c"] o(2) b by auto
  let ?st = "st\<lparr>f_curarg := s', f_touched := True\<rparr>"
  have "fmt_round A fd (x # c) ap st = Some (Inr (?st, 1, ap))"
    using s'(1) literal(1,2) by (simp add: fmt_round_def)
  from fmt_loop_step [OF this] show ?case
    using literal.IH [of ?st prev] literal.prems s' by (simp add: fmt_ok_def)
next
  case (percent c ap cur args touched)
  have b: "length cur + length ''%'' < 2 ^ 31"
    using fmt_spec_cur [OF percent(1)] args_bound [of "prev @ args"] percent.prems(4) by simp
  have "growth_text fd (CatStr ''%'') ''%''" by (simp add: growth_text_def NUL_def)
  moreover have "fmt_switch (CHR ''%'' # CHR ''%'' # c) ap = Some (Inr (CatStr ''%'', 2, ap))" by (simp add: fmt_switch_def)
  ultimately obtain st' where st': "fmt_round A fd (CHR ''%'' # CHR ''%'' # c) ap st = Some (Inr (st', 2, ap))"
    "fmt_ok st' (cur @ ''%'') True prev" using fmt_round_conv [OF _ _ percent.prems(1,2) b] by blast
  from fmt_loop_step [OF st'(1)] show ?case using percent.IH [OF st'(2)] percent.prems by simp
next
  case (cstr c ap cur arg args touched)
  have b: "length cur + length (cstring arg) < 2 ^ 31"
    using fmt_spec_cur [OF cstr(1)] args_bound [of "prev @ args"] cstr.prems(4) by simp
  let ?g = "if strlen arg > 0 then CatLen arg (strlen arg) else Keep"
  have "growth_text fd ?g (cstring arg)"
    using strlen_le [of arg] by (auto simp: growth_text_def cstring_take_strlen)
  moreover have "fmt_switch (CHR ''%'' # CHR ''s'' # c) (VStr arg # ap) = Some (Inr (?g, 2, ap))" by (simp add: fmt_switch_def)
  ultimately obtain st' where st': "fmt_round A fd (CHR ''%'' # CHR ''s'' # c) (VStr arg # ap) st = Some (Inr (st', 2, ap))"
    "fmt_ok st' (cur @ cstring arg) True prev" using fmt_round_conv [OF _ _ cstr.prems(1,2) b] by blast
  from fmt_loop_step [OF st'(1)] show ?case using cstr.IH [OF st'(2)] cstr.prems by simp
next
  case (binary n arg c ap cur args touched)
  have b: "length cur + length (take n arg) < 2 ^ 31"
    using fmt_spec_cur [OF binary(2)] args_bound [of "prev @ args"] binary.prems(4) by simp
  let ?g = "if n > 0 then CatLen arg n else Keep"
  have "growth_text fd ?g (take n arg)" using binary(1) by (simp add: growth_text_def)
  moreover have "fmt_switch (CHR ''%'' # CHR ''b'' # c) (VStr arg # VSize n # ap) = Some (Inr (?g, 2, ap))"
    by (simp add: fmt_switch_def)
  ultimately obtain st' where st': "fmt_round A fd (CHR ''%'' # CHR ''b'' # c) (VStr arg # VSize n # ap) st = Some (Inr (st', 2, ap))"
    "fmt_ok st' (cur @ take n arg) True prev" using fmt_round_conv [OF _ _ binary.prems(1,2) b] by blast
  from fmt_loop_step [OF st'(1)] show ?case using binary.IH [OF st'(2)] binary.prems by simp
next
  case (printf x c ap f cpy k ap' t cur args touched)
  have b: "length cur + length t < 2 ^ 31"
    using fmt_spec_cur [OF printf(5)] args_bound [of "prev @ args"] printf.prems(4) by simp
  have "growth_text fd (CatPrintf f cpy) t"
    using fmt_default_short [OF printf(2)] printf(3,4) by (simp add: growth_text_def)
  moreover have "fmt_switch (CHR ''%'' # x # c) ap = Some (Inr (CatPrintf f cpy, k, ap'))"
    using printf(1,2) by (simp add: fmt_switch_def)
  ultimately obtain st' where st': "fmt_round A fd (CHR ''%'' # x # c) ap st = Some (Inr (st', k, ap'))"
    "fmt_ok st' (cur @ t) True prev" using fmt_round_conv [OF _ _ printf.prems(1,2) b] by blast
  from fmt_loop_step [OF st'(1)] show ?case using printf.IH [OF st'(2)] printf.prems by simp
qed

lemma sds_args_are:
  assumes "\<And>a. a \<in> set ss \<Longrightarrow> sds_ok a" "map sdsstr ss = args"
  shows "args_are (map buf ss) (Some (map sdslen ss)) args"
proof -
  have "sdslen s < length (buf s)" "length (sdsstr s) = sdslen s" if "s \<in> set ss" for s
    using assms(1) [OF that] sdsb.len_str [of s] unfolding sds_ok_def by simp_all
  then have "sdslen (ss ! j) < length (buf (ss ! j))" "length (sdsstr (ss ! j)) = sdslen (ss ! j)" if "j < length ss" for j
    using that by simp_all
  then show ?thesis
    unfolding args_are_def assms(2) [symmetric] by (simp add: arg_len_def) (simp add: sdsstr_def less_imp_le)
qed

lemma build_cmd_ok:
  assumes "fmt_ok st cur touched args" "length (wire args) + 1 < 2 ^ 31" "roomy A"
  shows "build_cmd A st = Some (int (length (wire args)), Some (wire args @ [NUL]))"
proof -
  let ?h = "''*'' @ decimal (length args) @ CRLF"
  let ?L = "length (wire args)"
  let ?argv = "map buf (f_argv st)" and ?lens = "Some (map sdslen (f_argv st))"
  have o: "\<And>a. a \<in> set (f_argv st) \<Longrightarrow> sds_ok a" "map sdsstr (f_argv st) = args"
    "f_totlen st = int (length (concat (map bulk args)))" using assms(1) by (simp_all add: fmt_ok_def)
  have n: "length (f_argv st) = length args" using o(2) by (metis length_map)
  have w: "wire args = ?h @ concat (map bulk args)" by (simp add: wire_eq)
  have a: "args_are ?argv ?lens args"
    using o by (intro sds_args_are) 
  have t: "s32 (f_totlen st + int (1 + countDigits (length args) + 2)) = int ?L"
    using o(3) assms(2) w by (simp add: countDigits_eq s32_id)
  have sz: "to_size (s32 (int ?L + 1)) = ?L + 1" using assms(2) by (simp add: s32_id to_size_id)
  obtain cmd where cmd: "malloc A (?L + 1) = Some cmd" "length cmd = ?L + 1"
    using assms(2,3) by (simp add: malloc_def roomy_def)
  then have f0: "filled (?L + 1) cmd 0 []" using assms(2) by (simp add: filled_def)
  obtain b1 where b1: "sprintf_at 0 ?h cmd = Some (s32 (0 + int (length ?h)), b1)"
    "filled (?L + 1) b1 (s32 (0 + int (length ?h))) ?h"
    using sprintf_at_filled [OF f0, of ?h] w by auto
  obtain p2 b2 where b2: "put_argv ?argv ?lens 0 (length args) (s32 (0 + int (length ?h))) b1 = Some (p2, b2)"
    "filled (?L + 1) b2 p2 (wire args)"
    using put_argv_filled [OF a b1(2), of 0 "length args"] w by auto
  obtain b3 where b3: "blk_write p2 [NUL] b2 = Some b3" "length b3 = ?L + 1" "take (?L + 1) b3 = wire args @ [NUL]"
    using blk_write_filled [OF b2(2), of "[NUL]"] by auto
  have "p2 = int ?L" using b2(2) by (simp add: filled_def)
  then show ?thesis
    unfolding build_cmd_def n t Let_def using sz cmd b1(1) b2(1) b3 by simp
qed

lemma redisvFormatCommand_ok:
  assumes "fmt_spec fd format ap [] False args" "length (wire args) + 1 < 2 ^ 31" "roomy A"
  shows "redisvFormatCommand A fd True format ap = Some (int (length (wire args)), Some (wire args @ [NUL]))"
proof -
  obtain e where e: "sdsempty A = Some e" "sds_ok e" "sdsstr e = []"
    using sdsempty_total [OF assms(3)] sdsb.empty_ok by blast
  let ?st = "\<lparr>f_curarg = e, f_touched = False, f_argv = [], f_totlen = 0\<rparr>"
  have "fmt_ok ?st [] False []" using e by (simp add: fmt_ok_def)
  moreover have "length (concat (map bulk args)) < 2 ^ 31" using assms(2) by (simp add: wire_eq)
  ultimately have "fmt_result A (fmt_loop A fd format ap ?st) args"
    using fmt_loop_ok [OF assms(1) _ assms(3), of ?st "[]"] by simp
  then obtain st st' cur touched where "fmt_loop A fd format ap ?st = Some (Inr st)"
    "(if f_touched st then push_arg A st else Some st) = Some st'" "fmt_ok st' cur touched args"
    unfolding fmt_result_def by blast
  then show ?thesis
    using e(1) build_cmd_ok [OF _ assms(2,3)] unfolding redisvFormatCommand_def by simp
qed

section \<open>Properties\<close>



text \<open>
  A format without conversions is split at its spaces into the words of the command,
  runs of spaces counting as one.
\<close>

theorem redisFormatCommand_words:
  assumes "CHR ''%'' \<notin> set format" "length (wire (words [] format)) + 1 < 2 ^ 31" "roomy A"
  shows "redisFormatCommand A fd True format ap =
    Some (int (length (wire (words [] format))), Some (wire (words [] format) @ [NUL]))"
  using redisvFormatCommand_ok [OF _ assms(2,3), of fd format ap] fmt_spec_words [OF assms(1), of fd ap "[]"]
  by (simp add: redisFormatCommand_def)

theorem redisFormatCommand_words_witness:
  "redisFormatCommand heap0 (\<lambda>f d::unit. []) True ''PING  a'' [] =
    Some (int (length (wire [''PING'', ''a''])), Some (wire [''PING'', ''a''] @ [NUL]))"
proof -
  have "length (wire (words [] ''PING  a'')) + 1 < 2 ^ 31" by (simp add: wire_eq bulk_eq decimal.simps)
  then show ?thesis using redisFormatCommand_words [of "''PING  a''" heap0] roomy_heap0 by simp
qed

text \<open>
  A format that ends inside a conversion (after its flags, width or precision) makes
  the formatter run past the end of the format.
\<close>

theorem format_cut_off_overruns:
  assumes "skip_spec c = []" "c \<noteq> []" "length c < 12" "hd c \<notin> set ''sb%''" "roomy A"
  shows "redisvFormatCommand A fd True (CHR ''%'' # c) ap = None"
proof -
  obtain e where "sdsempty A = Some e" using sdsempty_total [OF assms(5)] by blast
  then show ?thesis
    using assms unfolding redisvFormatCommand_def
    by (cases c) (auto simp: fmt_loop.simps fmt_round_def fmt_switch_def fmt_default_def Let_def)
qed

theorem format_cut_off_overruns_witness:
  "redisvFormatCommand heap0 (\<lambda>f d::unit. []) True ''%05'' [VInt 1] = None"
  using format_cut_off_overruns [of "''05''" heap0 "\<lambda>f d::unit. []" "[VInt 1]"] roomy_heap0
  by (simp add: skip_spec_def isflag_def isdigit_def)

end
