(* ===== verification/Sync.thy ===== *)
theory Sync
  imports Context VFormat
begin

text \<open>
  The blocking API of hiredis.c: moving bytes between the buffers of a context and its
  socket, fetching replies, appending commands, and the command functions that do both.
  Operations work on the context, the heap of replies \<open>h\<close> and the state \<open>s\<close> of the system.
  The two loops of \<^verbatim>\<open>redisGetReply\<close> may run forever, so they are partial functions: \<open>None\<close>
  is a fault or no result.
\<close>

section \<open>Reading and writing\<close>

definition READ_SIZE :: nat where "READ_SIZE = 1024 * 16"

text \<open>A context error with a literal message.\<close>

definition fail_with :: "'s sys \<Rightarrow> redisContext \<Rightarrow> int \<Rightarrow> string \<Rightarrow> redisContext option" where
  "fail_with S c ty msg = redisSetError S 0 c ty (Some (msg @ [NUL]))"

text \<open>An error that only means: try again later.\<close>

definition try_later :: "redisContext \<Rightarrow> int \<Rightarrow> bool" where
  "try_later c errno \<longleftrightarrow> (errno = EAGAIN \<and> \<not> has_flag (c_flags c) REDIS_BLOCK) \<or> errno = EINTR"

definition redisBufferRead ::
    "allocator \<Rightarrow> 's sys \<Rightarrow> redisContext \<Rightarrow> rheap \<Rightarrow> 's \<Rightarrow> (int \<times> redisContext \<times> rheap \<times> 's) option" where
  "redisBufferRead A S c h s =
     (if c_err c \<noteq> 0 then Some (REDIS_ERR, c, h, s)
      else
        (let (nread, s) = sys_read S (c_fd c) READ_SIZE s
         in case nread of
              Inl errno \<Rightarrow>
                if try_later c errno then Some (REDIS_OK, c, h, s)
                else do { c \<leftarrow> redisSetError S errno c REDIS_ERR_IO None; Some (REDIS_ERR, c, h, s) }
            | Inr d \<Rightarrow>
                if length d > READ_SIZE then None
                else if d = []
                then do { c \<leftarrow> fail_with S c REDIS_ERR_EOF ''Server closed the connection'';
                          Some (REDIS_ERR, c, h, s) }
                else do {
                  r \<leftarrow> c_reader c;
                  (rc, r, h) \<leftarrow> redisReaderFeed A r h (Some d) (length d);
                  let c = c\<lparr>c_reader := Some r\<rparr>;
                  if rc \<noteq> REDIS_OK
                  then do { c \<leftarrow> redisSetError S 0 c (r_err r) (Some (r_errstr r)); Some (REDIS_ERR, c, h, s) }
                  else Some (REDIS_OK, c, h, s)
                }))"

text \<open>
  \<^verbatim>\<open>redisBufferWrite\<close>; \<open>want\<close> says whether a place for the \<^verbatim>\<open>done\<close> flag was given, which is the
  second result.
\<close>

definition redisBufferWrite ::
    "allocator \<Rightarrow> 's sys \<Rightarrow> bool \<Rightarrow> redisContext \<Rightarrow> 's \<Rightarrow> (int \<times> bool \<times> redisContext \<times> 's) option" where
  "redisBufferWrite A S want c s =
     (if c_err c \<noteq> 0 then Some (REDIS_ERR, False, c, s)
      else do {
        b \<leftarrow> c_obuf c;
        (rc, c, s) \<leftarrow>
          (if sdslen b > 0
           then (let (r, s) = sys_write S (c_fd c) (sdsstr b) s;
                     nwritten = (case r of Inl _ \<Rightarrow> - 1 | Inr n \<Rightarrow> s32 (int n));
                     errno = (case r of Inl e \<Rightarrow> e | Inr _ \<Rightarrow> 0)
                 in if nwritten = - 1
                    then if try_later c errno then Some (REDIS_OK, c, s)
                         else do { c \<leftarrow> redisSetError S errno c REDIS_ERR_IO None; Some (REDIS_ERR, c, s) }
                    else if nwritten > 0
                    then if nwritten = s32 (int (sdslen b)) then Some (REDIS_OK, c\<lparr>c_obuf := sdsempty A\<rparr>, s)
                         else Some (REDIS_OK, c\<lparr>c_obuf := Some (sdsrange b nwritten (- 1))\<rparr>, s)
                    else Some (REDIS_OK, c, s))
           else Some (REDIS_OK, c, s));
        if rc = REDIS_ERR then Some (REDIS_ERR, False, c, s)
        else if want then do { b \<leftarrow> c_obuf c; Some (REDIS_OK, sdslen b = 0, c, s) }
        else Some (REDIS_OK, False, c, s)
      })"

section \<open>Fetching replies\<close>

definition redisGetReplyFromReader ::
    "'s sys \<Rightarrow> redisContext \<Rightarrow> rheap \<Rightarrow> (int \<times> ptr \<times> redisContext \<times> rheap) option" where
  "redisGetReplyFromReader S c h =
     do {
       r \<leftarrow> c_reader c;
       (rc, p, r, h) \<leftarrow> redisReaderGetReply r h;
       let c = c\<lparr>c_reader := Some r\<rparr>;
       if rc = REDIS_ERR
       then do { c \<leftarrow> redisSetError S 0 c (r_err r) (Some (r_errstr r)); Some (REDIS_ERR, NULL, c, h) }
       else Some (REDIS_OK, p, c, h)
     }"

partial_function (option) write_loop ::
    "allocator \<Rightarrow> 's sys \<Rightarrow> redisContext \<Rightarrow> 's \<Rightarrow> (int \<times> redisContext \<times> 's) option" where
  "write_loop A S c s =
     do {
       (rc, wdone, c, s) \<leftarrow> redisBufferWrite A S True c s;
       if rc = REDIS_ERR then Some (REDIS_ERR, c, s)
       else if \<not> wdone then write_loop A S c s
       else Some (REDIS_OK, c, s)
     }"

partial_function (option) read_loop ::
    "allocator \<Rightarrow> 's sys \<Rightarrow> redisContext \<Rightarrow> rheap \<Rightarrow> 's \<Rightarrow> (int \<times> ptr \<times> redisContext \<times> rheap \<times> 's) option" where
  "read_loop A S c h s =
     do {
       (rc, c, h, s) \<leftarrow> redisBufferRead A S c h s;
       if rc = REDIS_ERR then Some (REDIS_ERR, NULL, c, h, s)
       else do {
         (rc, aux, c, h) \<leftarrow> redisGetReplyFromReader S c h;
         if rc = REDIS_ERR then Some (REDIS_ERR, NULL, c, h, s)
         else if aux = NULL then read_loop A S c h s
         else Some (REDIS_OK, aux, c, h, s)
       }
     }"

definition redisGetReply ::
    "allocator \<Rightarrow> 's sys \<Rightarrow> redisContext \<Rightarrow> rheap \<Rightarrow> 's \<Rightarrow> (int \<times> ptr \<times> redisContext \<times> rheap \<times> 's) option" where
  "redisGetReply A S c h s =
     do {
       (rc, aux, c, h) \<leftarrow> redisGetReplyFromReader S c h;
       if rc = REDIS_ERR then Some (REDIS_ERR, NULL, c, h, s)
       else if aux = NULL \<and> has_flag (c_flags c) REDIS_BLOCK
       then do {
         (rc, c, s) \<leftarrow> write_loop A S c s;
         if rc = REDIS_ERR then Some (REDIS_ERR, NULL, c, h, s)
         else read_loop A S c h s
       }
       else Some (REDIS_OK, aux, c, h, s)
     }"

section \<open>Appending commands\<close>

definition appendCommand ::
    "allocator \<Rightarrow> 's sys \<Rightarrow> redisContext \<Rightarrow> char list \<Rightarrow> nat \<Rightarrow> (int \<times> redisContext) option" where
  "appendCommand A S c cmd len =
     do {
       b \<leftarrow> c_obuf c;
       if length cmd < len then None
       else case sdscatlen A b cmd len of
              None \<Rightarrow> do { c \<leftarrow> fail_with S c REDIS_ERR_OOM ''Out of memory''; Some (REDIS_ERR, c) }
            | Some newbuf \<Rightarrow> Some (REDIS_OK, c\<lparr>c_obuf := Some newbuf\<rparr>)
     }"

definition redisAppendFormattedCommand ::
    "allocator \<Rightarrow> 's sys \<Rightarrow> redisContext \<Rightarrow> char list \<Rightarrow> nat \<Rightarrow> (int \<times> redisContext) option" where
  "redisAppendFormattedCommand A S c cmd len =
     do { (rc, c) \<leftarrow> appendCommand A S c cmd len; Some (if rc \<noteq> REDIS_OK then REDIS_ERR else REDIS_OK, c) }"

definition redisvAppendCommand ::
    "allocator \<Rightarrow> 's sys \<Rightarrow> (string \<Rightarrow> 'd \<Rightarrow> string) \<Rightarrow> redisContext \<Rightarrow> string \<Rightarrow> 'd varg list \<Rightarrow> (int \<times> redisContext) option" where
  "redisvAppendCommand A S fd c format ap =
     do {
       (len, cmd) \<leftarrow> redisvFormatCommand A fd True format ap;
       if len = - 1
       then do { c \<leftarrow> fail_with S c REDIS_ERR_OOM ''Out of memory''; Some (REDIS_ERR, c) }
       else if len = - 2
       then do { c \<leftarrow> fail_with S c REDIS_ERR_OTHER ''Invalid format string''; Some (REDIS_ERR, c) }
       else do {
         cmd \<leftarrow> cmd;
         (rc, c) \<leftarrow> appendCommand A S c cmd (to_size len);
         Some (if rc \<noteq> REDIS_OK then REDIS_ERR else REDIS_OK, c)
       }
     }"

definition redisAppendCommand ::
    "allocator \<Rightarrow> 's sys \<Rightarrow> (string \<Rightarrow> 'd \<Rightarrow> string) \<Rightarrow> redisContext \<Rightarrow> string \<Rightarrow> 'd varg list \<Rightarrow> (int \<times> redisContext) option" where
  "redisAppendCommand A S fd c format ap = redisvAppendCommand A S fd c format ap"

definition redisAppendCommandArgv ::
    "allocator \<Rightarrow> 's sys \<Rightarrow> redisContext \<Rightarrow> int \<Rightarrow> char list list \<Rightarrow> nat list option \<Rightarrow> (int \<times> redisContext) option" where
  "redisAppendCommandArgv A S c argc argv argvlen =
     do {
       (len, cmd) \<leftarrow> redisFormatSdsCommandArgv A True argc argv argvlen;
       if len = - 1
       then do { c \<leftarrow> fail_with S c REDIS_ERR_OOM ''Out of memory''; Some (REDIS_ERR, c) }
       else do {
         cmd \<leftarrow> cmd;
         (rc, c) \<leftarrow> appendCommand A S c (buf cmd) (to_size len);
         Some (if rc \<noteq> REDIS_OK then REDIS_ERR else REDIS_OK, c)
       }
     }"

section \<open>Commands\<close>

definition redisBlockForReply ::
    "allocator \<Rightarrow> 's sys \<Rightarrow> redisContext \<Rightarrow> rheap \<Rightarrow> 's \<Rightarrow> (ptr \<times> redisContext \<times> rheap \<times> 's) option" where
  "redisBlockForReply A S c h s =
     (if has_flag (c_flags c) REDIS_BLOCK
      then do {
        (rc, reply, c, h, s) \<leftarrow> redisGetReply A S c h s;
        Some (if rc \<noteq> REDIS_OK then NULL else reply, c, h, s)
      }
      else Some (NULL, c, h, s))"

definition redisvCommand ::
    "allocator \<Rightarrow> 's sys \<Rightarrow> (string \<Rightarrow> 'd \<Rightarrow> string) \<Rightarrow> redisContext \<Rightarrow> string \<Rightarrow> 'd varg list \<Rightarrow> rheap \<Rightarrow> 's \<Rightarrow>
     (ptr \<times> redisContext \<times> rheap \<times> 's) option" where
  "redisvCommand A S fd c format ap h s =
     do {
       (rc, c) \<leftarrow> redisvAppendCommand A S fd c format ap;
       if rc \<noteq> REDIS_OK then Some (NULL, c, h, s) else redisBlockForReply A S c h s
     }"

definition redisCommand ::
    "allocator \<Rightarrow> 's sys \<Rightarrow> (string \<Rightarrow> 'd \<Rightarrow> string) \<Rightarrow> redisContext \<Rightarrow> string \<Rightarrow> 'd varg list \<Rightarrow> rheap \<Rightarrow> 's \<Rightarrow>
     (ptr \<times> redisContext \<times> rheap \<times> 's) option" where
  "redisCommand A S fd c format ap h s = redisvCommand A S fd c format ap h s"

definition redisCommandArgv ::
    "allocator \<Rightarrow> 's sys \<Rightarrow> redisContext \<Rightarrow> int \<Rightarrow> char list list \<Rightarrow> nat list option \<Rightarrow> rheap \<Rightarrow> 's \<Rightarrow>
     (ptr \<times> redisContext \<times> rheap \<times> 's) option" where
  "redisCommandArgv A S c argc argv argvlen h s =
     do {
       (rc, c) \<leftarrow> redisAppendCommandArgv A S c argc argv argvlen;
       if rc \<noteq> REDIS_OK then Some (NULL, c, h, s) else redisBlockForReply A S c h s
     }"

section \<open>What the system does\<close>

text \<open>
  The socket takes the bytes \<open>xs\<close>, in pieces of its own choice and with interruptions;
  the socket hands out the nonempty pieces \<open>ds\<close> one after the other.
\<close>

inductive accepts :: "'s sys \<Rightarrow> int \<Rightarrow> 's \<Rightarrow> char list \<Rightarrow> 's \<Rightarrow> bool" for S fd where
  acc_nil: "accepts S fd s [] s"
| acc_some: "xs \<noteq> [] \<Longrightarrow> sys_write S fd xs s = (Inr n, s') \<Longrightarrow> 0 < n \<Longrightarrow> n \<le> length xs \<Longrightarrow>
    accepts S fd s' (drop n xs) s'' \<Longrightarrow> accepts S fd s xs s''"
| acc_intr: "xs \<noteq> [] \<Longrightarrow> sys_write S fd xs s = (Inl EINTR, s') \<Longrightarrow> accepts S fd s' xs s'' \<Longrightarrow> accepts S fd s xs s''"

inductive delivers :: "'s sys \<Rightarrow> int \<Rightarrow> 's \<Rightarrow> char list list \<Rightarrow> 's \<Rightarrow> bool" for S fd where
  del_nil: "delivers S fd s [] s"
| del_some: "sys_read S fd READ_SIZE s = (Inr d, s') \<Longrightarrow> d \<noteq> [] \<Longrightarrow> length d \<le> READ_SIZE \<Longrightarrow>
    delivers S fd s' ds s'' \<Longrightarrow> delivers S fd s (d # ds) s''"
| del_intr: "sys_read S fd READ_SIZE s = (Inl EINTR, s') \<Longrightarrow> d \<noteq> [] \<Longrightarrow> delivers S fd s' (d # ds) s'' \<Longrightarrow> delivers S fd s (d # ds) s''"

lemma accepts_nil: "accepts S fd s [] s' \<Longrightarrow> s' = s"
  by (erule accepts.cases) simp_all

lemma delivers_nothing: "delivers S fd s ds s' \<Longrightarrow> concat ds = [] \<Longrightarrow> s' = s"
  by (induction rule: delivers.induct) simp_all

section \<open>The invariant of a blocking context\<close>

text \<open>
  A blocking context without error: \<open>out\<close> waits to be written, \<open>xs\<close> is the input not yet
  consumed of a reader in the middle of \<open>fs\<close> and \<open>ty\<close>, \<open>b\<close> the objects the caller owns.
\<close>

definition conn :: "(ptr \<Rightarrow> redisReply option) \<Rightarrow> redisContext \<Rightarrow> rheap \<Rightarrow> frames \<Rightarrow> int \<Rightarrow> char list \<Rightarrow> char list \<Rightarrow> bool" where
  "conn b c h fs ty xs out \<longleftrightarrow>
     c_err c = 0 \<and> has_flag (c_flags c) REDIS_BLOCK \<and> length (c_errstr c) = ERRSTR_SIZE \<and>
     (\<exists>w. c_obuf c = Some w \<and> sds_ok w \<and> sdsstr w = out) \<and>
     (\<exists>r. c_reader c = Some r \<and> reading b r h fs ty xs \<and> r_len r \<le> length xs + 1024)"

text \<open>The caller owns a reply object that represents \<open>v\<close>.\<close>

definition got :: "(ptr \<Rightarrow> redisReply option) \<Rightarrow> rval \<Rightarrow> ptr \<Rightarrow> rheap \<Rightarrow> bool" where
  "got b v p h \<longleftrightarrow> p \<noteq> NULL \<and> (\<exists>t. represents v t \<and> aroot t = p \<and> heap_is b h t)"

lemma heap_is_ok: "heap_is b h t \<Longrightarrow> heap_ok h"
  unfolding heap_is_def heap_ok_def by (simp add: dom_map_of_conv_image_fst Un_commute)

lemma GetReply_len:
  assumes "redisReaderGetReply r h = Some (REDIS_OK, p, r', h')" "buffer_ok r'"
  shows "r_len r' \<le> length (r_input r') + 1024"
proof -
  have "r_len r' = 0 \<or> r_pos r' < 1024"
    using assms(1) by (auto simp: redisReaderGetReply_def discard_read_def redis_codes Let_def
        split: if_splits Option.bind_splits prod.splits)
  then show ?thesis using buffer_okD(2,5) [OF assms(2)] by auto
qed

text \<open>Asking the reader of a context, whatever its flags are.\<close>

lemma reader_waits:
  assumes "c_reader c = Some r" "reading b r h fs ty xs" "has_memory h" "spec_run fs ty xs = Wait fs' ty' xs'"
  shows "\<exists>r' h'. redisGetReplyFromReader S c h = Some (REDIS_OK, NULL, c\<lparr>c_reader := Some r'\<rparr>, h') \<and>
    reading b r' h' fs' ty' xs' \<and> r_len r' \<le> length xs' + 1024 \<and> has_memory h'"
proof -
  obtain r' h' where g: "redisReaderGetReply r h = Some (REDIS_OK, NULL, r', h')" "reading b r' h' fs' ty' xs'" "has_memory h'"
    using reader_get [OF assms(2)] assms(3,4) by (auto simp: refines_reply_def)
  have "r_len r' \<le> length xs' + 1024"
    using GetReply_len [OF g(1)] reader_in_buffer_ok [OF g(2)] by auto
  then show ?thesis using g assms(1) by (intro exI [of _ r'] exI [of _ h']) (simp add: redisGetReplyFromReader_def redis_codes)
qed

lemma reader_finishes:
  assumes "c_reader c = Some r" "reading b r h fs ty xs" "has_memory h" "spec_run fs ty xs = Finished v rest"
  shows "\<exists>p r' h'. redisGetReplyFromReader S c h = Some (REDIS_OK, p, c\<lparr>c_reader := Some r'\<rparr>, h') \<and> got b v p h' \<and>
    (\<forall>g. heap_ok g \<longrightarrow> reading (objs g) r' g [] (- 1) rest) \<and> r_len r' \<le> length rest + 1024 \<and> has_memory h'"
proof -
  obtain p r' h' where g: "redisReaderGetReply r h = Some (REDIS_OK, p, r', h')" "p \<noteq> NULL"
      "builder_inv b h' [p] (Done v)" "reader_idle defaultFunctions (\<lambda>_ _ _. True) r' h' rest" "has_memory h'"
    using reader_get [OF assms(2)] assms(3,4) by (auto simp: refines_reply_def)
  obtain t where t: "represents v t" "aroot t = p" "heap_is b h' t" using g(3) by (auto simp: builder_inv_done)
  have i: "reading (objs g) r' g [] (- 1) rest" if "heap_ok g" for g
    using g(4) that by (simp add: reader_in_def reader_idle_def builder_inv_idle)
  have "r_len r' \<le> length rest + 1024"
    using GetReply_len [OF g(1)] reader_in_buffer_ok [OF i [OF heap_is_ok [OF t(3)]]] by auto
  then show ?thesis
    using g(1,2,5) i t assms(1) by (auto simp: redisGetReplyFromReader_def got_def redis_codes)
qed

lemma get_waits:
  assumes "conn b c h fs ty xs out" "has_memory h" "spec_run fs ty xs = Wait fs' ty' xs'"
  shows "\<exists>c' h'. redisGetReplyFromReader S c h = Some (REDIS_OK, NULL, c', h') \<and> conn b c' h' fs' ty' xs' out \<and>
    has_memory h' \<and> c_fd c' = c_fd c"
proof -
  obtain r where r: "c_reader c = Some r" "reading b r h fs ty xs" using assms(1) by (auto simp: conn_def)
  from reader_waits [OF this assms(2,3), of S] show ?thesis using assms(1) by (auto simp: conn_def)
qed

lemma get_finishes:
  assumes "conn b c h fs ty xs out" "has_memory h" "spec_run fs ty xs = Finished v rest"
  shows "\<exists>p c' h'. redisGetReplyFromReader S c h = Some (REDIS_OK, p, c', h') \<and> got b v p h' \<and>
    conn (objs h') c' h' [] (- 1) rest out \<and> has_memory h' \<and> c_fd c' = c_fd c"
proof -
  obtain r where r: "c_reader c = Some r" "reading b r h fs ty xs" using assms(1) by (auto simp: conn_def)
  from reader_finishes [OF this assms(2,3), of S] obtain p r' h' where
    "redisGetReplyFromReader S c h = Some (REDIS_OK, p, c\<lparr>c_reader := Some r'\<rparr>, h')" "got b v p h'"
    "\<forall>g. heap_ok g \<longrightarrow> reading (objs g) r' g [] (- 1) rest" "r_len r' \<le> length rest + 1024" "has_memory h'" by blast
  moreover from this(2) have "heap_ok h'" using heap_is_ok unfolding got_def by blast
  ultimately show ?thesis using assms(1)
    by (intro exI [of _ p] exI [of _ "c\<lparr>c_reader := Some r'\<rparr>"] exI [of _ h']) (auto simp: conn_def)
qed

section \<open>The loops\<close>

lemma write_some:
  assumes "conn b c h fs ty xs out" "out \<noteq> []" "length out < 2 ^ 31" "roomy A"
    and "sys_write S (c_fd c) out s = (Inr n, s')" "0 < n" "n \<le> length out"
  shows "\<exists>c'. redisBufferWrite A S True c s = Some (REDIS_OK, n = length out, c', s') \<and>
    conn b c' h fs ty xs (drop n out) \<and> c_fd c' = c_fd c"
proof -
  obtain w where w: "c_obuf c = Some w" "sds_ok w" "sdsstr w = out" using assms(1) by (auto simp: conn_def)
  have l: "sdslen w = length out" using sdsb.len_str [OF w(2)] w(3) by simp
  have n: "s32 (int n) = int n" "s32 (int (length out)) = int (length out)"
    using assms(3,7) by (simp_all add: s32_of_nat)
  obtain e where e: "sdsempty A = Some e" "sds_ok e" "sdsstr e = []"
    using sdsempty_total [OF assms(4)] sdsb.empty_ok by blast
  have c: "sds_ok (sdsrange w (int n) (- 1))" "sdsstr (sdsrange w (int n) (- 1)) = drop n out"
    using sdsb.cut_ok [OF w(2), of n] l assms(3,7) w(3) by simp_all
  show ?thesis
  proof (cases "n = length out")
    case True
    then show ?thesis
      using assms(1,2,5) w l n e sdsb.len_str [OF e(2)] by (auto simp: redisBufferWrite_def conn_def redis_codes)
  next
    case False
    then show ?thesis
      using assms(1,2,5,6,7) w l n c sdsb.len_str [OF c(1)] by (auto simp: redisBufferWrite_def conn_def redis_codes)
  qed
qed

lemma write_loop_ok:
  assumes "accepts S fd s out s'" "conn b c h fs ty xs out" "c_fd c = fd" "length out < 2 ^ 31" "roomy A"
  shows "\<exists>c'. write_loop A S c s = Some (REDIS_OK, c', s') \<and> conn b c' h fs ty xs [] \<and> c_fd c' = fd"
  using assms
proof (induction arbitrary: c rule: accepts.induct)
  case (acc_nil s)
  then obtain w where w: "c_obuf c = Some w" "sds_ok w" "sdsstr w = []" by (auto simp: conn_def)
  then have "sdslen w = 0" using sdsb.len_str [OF w(2)] by simp
  then show ?case
    using acc_nil.prems(1,2) w by (subst write_loop.simps) (simp add: redisBufferWrite_def conn_def redis_codes)
next
  case (acc_some out s n s' s'')
  obtain c' where c': "redisBufferWrite A S True c s = Some (REDIS_OK, n = length out, c', s')"
    "conn b c' h fs ty xs (drop n out)" "c_fd c' = c_fd c"
    using write_some [OF acc_some.prems(1) acc_some.hyps(1) acc_some.prems(3,4), of S s n s'] acc_some.hyps(2-4)
      acc_some.prems(2) by auto
  show ?case
  proof (cases "n = length out")
    case True
    then have "s'' = s'" using acc_some(5) accepts_nil by fastforce
    then show ?thesis using c' True acc_some.prems(2) by (subst write_loop.simps) (simp add: redis_codes)
  next
    case False
    then show ?thesis using c' acc_some.IH [of c'] acc_some.prems by (subst write_loop.simps) (simp add: redis_codes)
  qed
next
  case (acc_intr out s s' s'')
  then obtain w where w: "c_obuf c = Some w" "sds_ok w" "sdsstr w = out" by (auto simp: conn_def)
  then have "sdslen w = length out" using sdsb.len_str [OF w(2)] by simp
  then have "redisBufferWrite A S True c s = Some (REDIS_OK, False, c, s')"
    using acc_intr.hyps(1,2) acc_intr.prems(1,2) w by (simp add: redisBufferWrite_def conn_def redis_codes try_later_def)
  then show ?case using acc_intr.IH [OF acc_intr.prems] by (subst write_loop.simps) (simp add: redis_codes)
qed

text \<open>What is left after a reply: the connection, and a system that still delivers the rest.\<close>

definition served ::
    "'s sys \<Rightarrow> int \<Rightarrow> 's \<Rightarrow> (ptr \<Rightarrow> redisReply option) \<Rightarrow> rval \<Rightarrow> char list \<Rightarrow>
     (int \<times> ptr \<times> redisContext \<times> rheap \<times> 's) option \<Rightarrow> bool" where
  "served S fd s2 b v rest res \<longleftrightarrow>
     (\<exists>p c h s ds xs. res = Some (REDIS_OK, p, c, h, s) \<and> got b v p h \<and> conn (objs h) c h [] (- 1) xs [] \<and>
        c_fd c = fd \<and> has_memory h \<and> delivers S fd s ds s2 \<and> xs @ concat ds = rest)"

lemma buffer_read:
  assumes "conn b c h fs ty xs out" "sys_read S (c_fd c) READ_SIZE s = (Inr d, s')" "d \<noteq> []" "length d \<le> READ_SIZE"
    "roomy A" "length xs + 1024 + length d < 2 ^ 31"
  shows "\<exists>c'. redisBufferRead A S c h s = Some (REDIS_OK, c', h, s') \<and> conn b c' h fs ty (xs @ d) out \<and> c_fd c' = c_fd c"
proof -
  obtain r where r: "c_reader c = Some r" "reading b r h fs ty xs" "r_len r \<le> length xs + 1024"
    using assms(1) by (auto simp: conn_def)
  obtain r' where r': "redisReaderFeed A r h (Some d) (length d) = Some (REDIS_OK, r', h)" "reading b r' h fs ty (xs @ d)"
    "r_len r' \<le> r_len r + length d"
    using reader_feed_roomy [OF r(2) assms(5), of d] r(3) assms(6) by auto
  then have "r_len r' \<le> length (xs @ d) + 1024" using r(3) by simp
  then show ?thesis using r(1) r'(1,2) assms(1-4) by (simp add: redisBufferRead_def conn_def)
qed

lemma spec_run_Wait_idem: "spec_run fs ty xs = Wait fs' ty' xs' \<Longrightarrow> spec_run fs' ty' xs' = Wait fs' ty' xs'"
  using spec_run_append [of fs ty xs "[]"] by simp

lemma spec_item_Wait_length: "spec_item fs ty xs = Wait fs' ty' xs' \<Longrightarrow> length xs' \<le> length xs"
  by (auto simp: spec_item_def split: if_splits list.splits option.splits dest!: spec_typed_Wait)

lemma spec_run_Wait_length: "spec_run fs ty xs = Wait fs' ty' xs' \<Longrightarrow> length xs' \<le> length xs"
proof (induction fs ty xs rule: spec_run.induct)
  case (1 fs ty xs)
  then show ?case
    using spec_item_consumes [of fs ty xs] spec_item_Wait_length [of fs ty xs]
    by (cases "spec_item fs ty xs") (fastforce simp: spec_run.simps [of fs ty xs])+
qed

text \<open>A run that finishes later finishes with the same reply or waits now.\<close>

lemma spec_run_prefix:
  assumes "spec_run fs ty (xs @ ys) = Finished v rest"
  obtains rest' where "spec_run fs ty xs = Finished v rest'" "rest = rest' @ ys"
  | fs' ty' xs' where "spec_run fs ty xs = Wait fs' ty' xs'" "spec_run fs' ty' (xs' @ ys) = Finished v rest"
  using assms that spec_run_append [of fs ty xs ys] spec_run_not_Next [of fs ty xs]
  by (cases "spec_run fs ty xs") auto

lemma read_loop_ok:
  assumes "delivers S fd s ds s2" "conn b c h fs ty xs []" "c_fd c = fd" "spec_run fs ty xs = Wait fs ty xs"
    "spec_run fs ty (xs @ concat ds) = Finished v rest" "has_memory h" "roomy A"
    "length xs + length (concat ds) + 1024 < 2 ^ 31"
  shows "served S fd s2 b v rest (read_loop A S c h s)"
  using assms
proof (induction arbitrary: c h fs ty xs rule: delivers.induct)
  case (del_nil s)
  then show ?case by simp
next
  case (del_some s d s' ds s'')
  have "length xs + 1024 + length d < 2 ^ 31" using del_some.prems(7) by simp
  then obtain c1 where c1: "redisBufferRead A S c h s = Some (REDIS_OK, c1, h, s')" "conn b c1 h fs ty (xs @ d) []"
    "c_fd c1 = fd" using buffer_read [OF del_some.prems(1), of S s d s' A] del_some by auto
  have "spec_run fs ty ((xs @ d) @ concat ds) = Finished v rest" using del_some.prems(4) by simp
  then show ?case
  proof (cases rule: spec_run_prefix)
    case (1 rest')
    then obtain p c2 h2 where "redisGetReplyFromReader S c1 h = Some (REDIS_OK, p, c2, h2)" "got b v p h2"
      "conn (objs h2) c2 h2 [] (- 1) rest' []" "has_memory h2" "c_fd c2 = fd"
      using get_finishes [OF c1(2) del_some.prems(5)] c1(3) by metis
    then show ?thesis
      using c1(1) 1 del_some.hyps(4) by (subst read_loop.simps) (auto simp: served_def got_def redis_codes)
  next
    case (2 fs' ty' xs')
    obtain c2 h2 where c2: "redisGetReplyFromReader S c1 h = Some (REDIS_OK, NULL, c2, h2)"
      "conn b c2 h2 fs' ty' xs' []" "has_memory h2" "c_fd c2 = fd"
      using get_waits [OF c1(2) del_some.prems(5) 2(1)] c1(3) by metis
    have "served S fd s'' b v rest (read_loop A S c2 h2 s')"
      using del_some.IH [OF c2(2,4) spec_run_Wait_idem [OF 2(1)] 2(2) c2(3) del_some.prems(6)]
        spec_run_Wait_length [OF 2(1)] del_some.prems(7) by simp
    then show ?thesis using c1(1) c2(1) by (subst read_loop.simps) (simp add: redis_codes)
  qed
next
  case (del_intr s s' d ds s'')
  have "redisBufferRead A S c h s = Some (REDIS_OK, c, h, s')"
    using del_intr by (simp add: redisBufferRead_def conn_def try_later_def)
  moreover obtain c2 h2 where c2: "redisGetReplyFromReader S c h = Some (REDIS_OK, NULL, c2, h2)"
      "conn b c2 h2 fs ty xs []" "has_memory h2" "c_fd c2 = fd"
    using get_waits [OF del_intr.prems(1,5,3)] del_intr.prems(2) by metis
  moreover have "served S fd s'' b v rest (read_loop A S c2 h2 s')"
    using del_intr.IH [OF c2(2,4) del_intr.prems(3,4) c2(3) del_intr.prems(6,7)] .
  ultimately show ?case by (subst read_loop.simps) (simp add: redis_codes)
qed

section \<open>Replies and commands\<close>

lemma redisGetReply_ok:
  assumes "conn b c h [] (- 1) xs out" "xs = [] \<or> out = []" "accepts S (c_fd c) s out s1" "delivers S (c_fd c) s1 ds s2"
    "xs @ concat ds = encode v @ rest" "wf_reply 8 v" "has_memory h" "roomy A"
    "length out < 2 ^ 31" "length (xs @ concat ds) + 1024 < 2 ^ 31"
  shows "served S (c_fd c) s2 b v rest (redisGetReply A S c h s)"
proof -
  have "spec_run [] (- 1) (xs @ concat ds) = Finished v rest" using assms(5) spec_run_whole [OF assms(6)] by simp
  then show ?thesis
  proof (cases rule: spec_run_prefix)
    case (1 rest')
    then have "xs \<noteq> []" by (auto simp: spec_run.simps spec_item_def)
    then have "s1 = s" "out = []" using assms(2,3) accepts_nil by auto
    moreover obtain p c2 h2 where "redisGetReplyFromReader S c h = Some (REDIS_OK, p, c2, h2)" "got b v p h2"
      "conn (objs h2) c2 h2 [] (- 1) rest' out" "has_memory h2" "c_fd c2 = c_fd c"
      using get_finishes [OF assms(1,7) 1(1)] by blast
    ultimately show ?thesis using 1(2) assms(4) by (auto simp: redisGetReply_def served_def got_def redis_codes)
  next
    case (2 fs' ty' xs')
    obtain c2 h2 where c2: "redisGetReplyFromReader S c h = Some (REDIS_OK, NULL, c2, h2)"
      "conn b c2 h2 fs' ty' xs' out" "has_memory h2" "c_fd c2 = c_fd c"
      using get_waits [OF assms(1,7) 2(1)] by blast
    obtain c3 where c3: "write_loop A S c2 s = Some (REDIS_OK, c3, s1)" "conn b c3 h2 fs' ty' xs' []" "c_fd c3 = c_fd c"
      using write_loop_ok [OF assms(3) c2(2,4) assms(9,8)] by blast
    have "served S (c_fd c) s2 b v rest (read_loop A S c3 h2 s1)"
      using read_loop_ok [OF assms(4) c3(2,3) spec_run_Wait_idem [OF 2(1)] 2(2) c2(3) assms(8)]
        spec_run_Wait_length [OF 2(1)] assms(10) by simp
    moreover have "has_flag (c_flags c2) REDIS_BLOCK" using c2(2) by (simp add: conn_def)
    ultimately show ?thesis using c2(1) c3(1) by (simp add: redisGetReply_def redis_codes)
  qed
qed

lemma redisAppendCommandArgv_ok:
  assumes "conn b c h fs ty xs out" "args_are argv argvlen args" "length out + length (wire args) + 1 < 2 ^ 31" "roomy A"
  shows "\<exists>c'. redisAppendCommandArgv A S c (int (length args)) argv argvlen = Some (REDIS_OK, c') \<and>
    conn b c' h fs ty xs (out @ wire args) \<and> c_fd c' = c_fd c"
proof -
  obtain w where w: "c_obuf c = Some w" "sds_ok w" "sdsstr w = out" using assms(1) by (auto simp: conn_def)
  have l: "sdslen w = length out" using sdsb.len_str [OF w(2)] w(3) by simp
  obtain cmd where cmd: "redisFormatSdsCommandArgv A True (int (length args)) argv argvlen = Some (int (length (wire args)), Some cmd)"
    "sds_ok cmd" "sdsstr cmd = wire args"
    using redisFormatSdsCommandArgv_ok [OF assms(2) refl _ assms(4)] assms(3) by auto
  have n: "sdslen cmd = length (wire args)" using sdsb.len_str [OF cmd(2)] cmd(3) by simp
  have t: "length (wire args) \<le> length (buf cmd)" "take (length (wire args)) (buf cmd) = wire args"
    using cmd(2,3) n by (auto simp: sds_ok_def sdsstr_def)
  obtain w' where w': "sdscatlen A w (buf cmd) (length (wire args)) = Some w'" "sds_ok w'" "sdsstr w' = out @ wire args"
    using sdscatlen_grows [OF w(2) assms(4) t(1)] l w(3) t(2) assms(3) by auto
  have z: "to_size (int (length (wire args))) = length (wire args)" using assms(3) by (simp add: to_size_id)
  show ?thesis
    using assms(1) cmd(1) w w' t(1) z
    by (simp add: redisAppendCommandArgv_def appendCommand_def conn_def redis_codes)
qed

section \<open>Pipelines\<close>

text \<open>A client that appends commands, then fetches as many replies.\<close>

fun append_commands ::
    "allocator \<Rightarrow> 's sys \<Rightarrow> redisContext \<Rightarrow> (int \<times> char list list \<times> nat list option) list \<Rightarrow> (int \<times> redisContext) option" where
  "append_commands A S c [] = Some (REDIS_OK, c)"
| "append_commands A S c ((argc, argv, argvlen) # cmds) =
     do {
       (rc, c) \<leftarrow> redisAppendCommandArgv A S c argc argv argvlen;
       if rc \<noteq> REDIS_OK then Some (rc, c) else append_commands A S c cmds
     }"

fun get_replies ::
    "allocator \<Rightarrow> 's sys \<Rightarrow> nat \<Rightarrow> redisContext \<Rightarrow> rheap \<Rightarrow> 's \<Rightarrow> (int \<times> ptr list \<times> redisContext \<times> rheap \<times> 's) option" where
  "get_replies A S 0 c h s = Some (REDIS_OK, [], c, h, s)"
| "get_replies A S (Suc n) c h s =
     do {
       (rc, p, c, h, s) \<leftarrow> redisGetReply A S c h s;
       if rc \<noteq> REDIS_OK then Some (rc, [], c, h, s)
       else do { (rc, ps, c, h, s) \<leftarrow> get_replies A S n c h s; Some (rc, p # ps, c, h, s) }
     }"

text \<open>The caller owns the replies \<open>ts\<close> on top of the objects \<open>b\<close> it had, in the memory \<open>m\<close>.\<close>

definition owns :: "(ptr \<Rightarrow> redisReply option) \<Rightarrow> (ptr \<Rightarrow> redisReply option) \<Rightarrow> atree list \<Rightarrow> bool" where
  "owns b m ts \<longleftrightarrow> live m ts \<and> b \<subseteq>\<^sub>m m \<and> set (map fst (concat (map cells ts))) \<inter> dom b = {}"

lemma owns_Nil: "owns b b []"
  by (simp add: owns_def live_def)

lemma live_mono: "live m ts \<Longrightarrow> m \<subseteq>\<^sub>m m' \<Longrightarrow> live m' ts"
  by (fastforce simp: live_def map_le_def dom_def)

lemma owns_Cons:
  assumes "heap_is b h t" "owns (objs h) m ts"
  shows "owns b m (t # ts)"
proof -
  have t: "objs h = b ++ map_of (cells t)" "dom b \<inter> fst ` set (cells t) = {}"
    using assms(1) by (simp_all add: heap_is_def)
  then have d: "dom (objs h) = dom b \<union> fst ` set (cells t)" by (auto simp: dom_map_of_conv_image_fst)
  have "b \<subseteq>\<^sub>m objs h"
    using t map_add_comm [of b "map_of (cells t)"] by (simp add: dom_map_of_conv_image_fst map_le_map_add)
  then have "b \<subseteq>\<^sub>m m" using assms(2) map_le_trans by (auto simp: owns_def)
  moreover have "live m [t]" using heap_is_live(1) [OF assms(1)] assms(2) live_mono by (auto simp: owns_def)
  moreover have "set (map fst (concat (map cells ts))) \<inter> (dom b \<union> set (map fst (cells t))) = {}" "live m ts"
    using assms(2) d by (simp_all add: owns_def)
  ultimately show ?thesis
    using t(2) unfolding owns_def live_Cons [of _ t ts] by (simp add: Int_Un_distrib Int_Un_distrib2 Int_commute image_Un)
qed

lemma append_commands_ok:
  assumes "list_all2 (\<lambda>(argc, argv, argvlen) args. args_are argv argvlen args \<and> argc = int (length args)) cmds argss"
    "conn b c h fs ty xs out" "length out + length (concat (map wire argss)) + 1 < 2 ^ 31" "roomy A"
  shows "\<exists>c'. append_commands A S c cmds = Some (REDIS_OK, c') \<and>
    conn b c' h fs ty xs (out @ concat (map wire argss)) \<and> c_fd c' = c_fd c"
  using assms
proof (induction arbitrary: c out rule: list_all2_induct)
  case Nil
  then show ?case by simp
next
  case (Cons x cmds args argss)
  obtain argc argv argvlen where x: "x = (argc, argv, argvlen)" by (cases x)
  have a: "args_are argv argvlen args" "argc = int (length args)" using Cons.hyps(1) x by simp_all
  obtain c1 where c1: "redisAppendCommandArgv A S c argc argv argvlen = Some (REDIS_OK, c1)"
    "conn b c1 h fs ty xs (out @ wire args)" "c_fd c1 = c_fd c"
    using redisAppendCommandArgv_ok [OF Cons.prems(1) a(1) _ Cons.prems(3)] a(2) Cons.prems(2) by fastforce
  then show ?case using Cons.IH [OF c1(2)] Cons.prems(2,3) x by auto
qed

lemma get_replies_ok:
  assumes "conn (objs h) c h [] (- 1) xs out" "xs = [] \<or> out = []" "accepts S (c_fd c) s out s1" "delivers S (c_fd c) s1 ds s2"
    "xs @ concat ds = concat (map encode vs)" "\<forall>v \<in> set vs. wf_reply 8 v" "has_memory h" "roomy A"
    "length out < 2 ^ 31" "length (xs @ concat ds) + 1024 < 2 ^ 31" "vs = [] \<longrightarrow> out = []"
  shows "\<exists>ps c' h' ts. get_replies A S (length vs) c h s = Some (REDIS_OK, ps, c', h', s2) \<and>
    list_all2 represents vs ts \<and> map aroot ts = ps \<and> owns (objs h) (objs h') ts \<and> conn (objs h') c' h' [] (- 1) [] []"
  using assms
proof (induction vs arbitrary: h c xs out s s1 ds)
  case Nil
  have "xs = []" "concat ds = []" "out = []" using Nil.prems(5,11) by simp_all
  then have "s1 = s" "s2 = s1" using accepts_nil [of S "c_fd c" s s1] delivers_nothing [OF Nil.prems(4)] Nil.prems(3) by simp_all
  then show ?case using Nil.prems(1) \<open>xs = []\<close> \<open>out = []\<close> owns_Nil by (intro exI [of _ "[]"]) auto
next
  case (Cons v vs)
  have "served S (c_fd c) s2 (objs h) v (concat (map encode vs)) (redisGetReply A S c h s)"
    using redisGetReply_ok [OF Cons.prems(1-4) _ _ Cons.prems(7-10), of v] Cons.prems(5,6) by simp
  then obtain p c1 h1 s' ds' xs' where 1: "redisGetReply A S c h s = Some (REDIS_OK, p, c1, h1, s')" "got (objs h) v p h1"
    "conn (objs h1) c1 h1 [] (- 1) xs' []" "c_fd c1 = c_fd c" "has_memory h1" "delivers S (c_fd c1) s' ds' s2"
    "xs' @ concat ds' = concat (map encode vs)" unfolding served_def by auto
  have "length (xs' @ concat ds') + 1024 < 2 ^ 31" using 1(7) Cons.prems(5,10) by simp
  then obtain ps c' h' ts where 2: "get_replies A S (length vs) c1 h1 s' = Some (REDIS_OK, ps, c', h', s2)"
    "list_all2 represents vs ts" "map aroot ts = ps" "owns (objs h1) (objs h') ts" "conn (objs h') c' h' [] (- 1) [] []"
    using Cons.IH [OF 1(3) _ acc_nil 1(6,7) _ 1(5) Cons.prems(8)] Cons.prems(6) by auto
  obtain t where t: "represents v t" "aroot t = p" "heap_is (objs h) h1 t" using 1(2) unfolding got_def by blast
  have "get_replies A S (length (v # vs)) c h s = Some (REDIS_OK, p # ps, c', h', s2)"
    using 1(1) 2(1) by (simp add: redis_codes)
  moreover have "list_all2 represents (v # vs) (t # ts)" "map aroot (t # ts) = p # ps" using t 2(2,3) by simp_all
  ultimately show ?case
    using owns_Cons [OF t(3) 2(4)] 2(5)
    by (intro exI [of _ "p # ps"] exI [of _ c'] exI [of _ h'] exI [of _ "t # ts"] conjI)
qed

section \<open>A connection that ends\<close>

text \<open>Freeing the reader frees the part of a reply it holds, and nothing else.\<close>

lemma redisReaderFree_ok:
  assumes "reading b r h fs ty xs"
  shows "\<exists>h'. redisReaderFree r h = Some h' \<and> objs h' = b \<and> heap_ok h'"
  using dflt.Free_ok [folded defaultFunctions_table, OF assms] builder_inv_idle by auto

text \<open>Reading on until the server closes the connection in the middle of a reply.\<close>

lemma read_loop_closed:
  assumes "delivers S fd s ds s2" "conn b c h fs ty xs out" "c_fd c = fd" "spec_run fs ty xs = Wait fs ty xs"
    "spec_run fs ty (xs @ concat ds) = Wait fs' ty' xs'" "has_memory h" "roomy A"
    "length xs + length (concat ds) + 1024 < 2 ^ 31" "sys_read S fd READ_SIZE s2 = (Inr [], s3)"
  shows "\<exists>c1 c' h'. read_loop A S c h s = Some (REDIS_ERR, NULL, c', h', s3) \<and> conn b c1 h' fs' ty' xs' out \<and>
    fail_with S c1 REDIS_ERR_EOF ''Server closed the connection'' = Some c' \<and> c_fd c1 = fd"
  using assms
proof (induction arbitrary: c h fs ty xs rule: delivers.induct)
  case (del_nil s)
  then have "fs' = fs" "ty' = ty" "xs' = xs" by simp_all
  moreover obtain c' where "fail_with S c REDIS_ERR_EOF ''Server closed the connection'' = Some c'"
    using redisSetError_total unfolding fail_with_def by blast
  ultimately show ?case
    using del_nil.prems by (subst read_loop.simps) (auto simp: redisBufferRead_def conn_def redis_codes)
next
  case (del_some s d s' ds s'')
  have "length xs + 1024 + length d < 2 ^ 31" using del_some.prems(7) by simp
  then obtain c1 where c1: "redisBufferRead A S c h s = Some (REDIS_OK, c1, h, s')" "conn b c1 h fs ty (xs @ d) out"
    "c_fd c1 = fd" using buffer_read [OF del_some.prems(1), of S s d s' A] del_some by auto
  obtain fs1 ty1 xs1 where w: "spec_run fs ty (xs @ d) = Wait fs1 ty1 xs1" "spec_run fs1 ty1 (xs1 @ concat ds) = Wait fs' ty' xs'"
    using del_some.prems(4) spec_run_append [of fs ty "xs @ d" "concat ds"] spec_run_not_Next [of fs ty "xs @ d"]
    by (cases "spec_run fs ty (xs @ d)") auto
  obtain c2 h2 where c2: "redisGetReplyFromReader S c1 h = Some (REDIS_OK, NULL, c2, h2)"
    "conn b c2 h2 fs1 ty1 xs1 out" "has_memory h2" "c_fd c2 = fd"
    using get_waits [OF c1(2) del_some.prems(5) w(1)] c1(3) by metis
  have "length xs1 + length (concat ds) + 1024 < 2 ^ 31"
    using spec_run_Wait_length [OF w(1)] del_some.prems(7) by simp
  note IH = del_some.IH [OF c2(2,4) spec_run_Wait_idem [OF w(1)] w(2) c2(3) del_some.prems(6) this del_some.prems(8)]
  have "read_loop A S c h s = read_loop A S c2 h2 s'"
    using c1(1) c2(1) by (subst read_loop.simps) (simp add: redis_codes)
  then show ?case using IH by simp
next
  case (del_intr s s' d ds s'')
  have r: "redisBufferRead A S c h s = Some (REDIS_OK, c, h, s')"
    using del_intr by (simp add: redisBufferRead_def conn_def try_later_def)
  obtain c2 h2 where c2: "redisGetReplyFromReader S c h = Some (REDIS_OK, NULL, c2, h2)"
      "conn b c2 h2 fs ty xs out" "has_memory h2" "c_fd c2 = fd"
    using get_waits [OF del_intr.prems(1,5,3)] del_intr.prems(2) by metis
  note IH = del_intr.IH [OF c2(2,4) del_intr.prems(3,4) c2(3) del_intr.prems(6,7,8)]
  have "read_loop A S c h s = read_loop A S c2 h2 s'"
    using r c2(1) by (subst read_loop.simps) (simp add: redis_codes)
  then show ?case using IH by simp
qed

lemma redisFree_conn:
  assumes "conn b c h fs ty xs out" "c_fd c' = c_fd c" "c_reader c' = c_reader c" "0 < c_fd c"
  shows "\<exists>h'. redisFree S (Some c') h s = Some (h', sys_close S (c_fd c) s) \<and> objs h' = b"
  using assms redisReaderFree_ok by (fastforce simp: redisFree_def conn_def)

lemma conn_init:
  assumes "redisContextInit A = Some c" "heap_ok h" "has_flag f REDIS_BLOCK"
  shows "conn (objs h) (c\<lparr>c_flags := f, c_fd := fd\<rparr>) h [] (- 1) [] []"
proof -
  obtain e r where e: "sdsempty A = Some e" "redisReaderCreate A = Some r" "c_obuf c = Some e" "c_reader c = Some r"
    "c_err c = 0" "length (c_errstr c) = ERRSTR_SIZE"
    using assms(1) by (auto simp: redisContextInit_def Let_def split: option.splits if_splits)
  have "reading (objs h) r h [] (- 1) []" "r_len r = 0"
    using reader_create [OF e(2), of "objs h" h] assms(2) builder_inv_idle by simp_all
  then show ?thesis using e assms(3) sdsb.empty_ok [OF e(1)] by (simp add: conn_def)
qed

lemma redisContextInit_total: "roomy A \<Longrightarrow> \<exists>c. redisContextInit A = Some c"
  using sdsempty_total [of A] redisReaderCreate_total [of A]
  by (auto simp: redisContextInit_def malloc_def roomy_def sizeof_redisContext_def)

lemma fail_with_ok:
  assumes "fail_with S c ty msg = Some c'" "NUL \<notin> set msg" "length msg < ERRSTR_SIZE - 1" "length (c_errstr c) = ERRSTR_SIZE"
  shows "c_err c' = ty \<and> cstring (c_errstr c') = msg \<and> c_fd c' = c_fd c \<and> c_reader c' = c_reader c"
proof -
  have l: "strlen (msg @ [NUL]) = length msg" using assms(2) by (simp add: strlen_def)
  have w: "mem_set1 (length msg) NUL (mem_write 0 msg b) = msg @ NUL # drop (Suc (length msg)) b" if "length msg < length b" for b
    using mem_write_snoc [of 0 msg b NUL] that by (simp add: mem_write_def)
  show ?thesis
    using assms w [of "c_errstr c"] by (simp add: fail_with_def redisSetError_def l Let_def) (auto simp: ERRSTR_SIZE_def)
qed

section \<open>Properties\<close>

text \<open>A system for the witnesses: it takes whatever is written and delivers given pieces, then closes.\<close>

definition script :: "(char list \<times> char list list) sys" where
  "script =
     \<lparr>sys_read = \<lambda>fd n (w, ds). (case ds of [] \<Rightarrow> (Inr [], (w, [])) | d # ds \<Rightarrow> (Inr d, (w, ds))),
      sys_write = \<lambda>fd xs (w, ds). (Inr (length xs), (w @ xs, ds)), sys_close = \<lambda>fd s. s,
      sys_socket = \<lambda>f s. (Inr 3, s), sys_setsockopt = \<lambda>fd x s. (Inr (), s), sys_so_error = \<lambda>fd s. (Inr 0, s),
      sys_getfl = \<lambda>fd s. (Inr 0, s), sys_setfl = \<lambda>fd f s. (Inr (), s),
      sys_getaddrinfo = \<lambda>h p f s. (Inr [], s), sys_bind = \<lambda>fd a s. (Inr (), s),
      sys_connect = \<lambda>fd a s. (Inr (), s), sys_poll = \<lambda>fd t s. (Inr 1, s),
      sys_strerror = \<lambda>e. [], sys_gai_strerror = \<lambda>e. []\<rparr>"

lemma script_accepts: "accepts script fd (w, ds) xs (w @ xs, ds)"
proof (cases "xs = []")
  case False
  then show ?thesis by (intro acc_some [of xs script fd "(w, ds)" "length xs" "(w @ xs, ds)"]) (simp_all add: script_def acc_nil)
qed (simp add: acc_nil)

lemma script_delivers: "\<forall>d \<in> set ds. d \<noteq> [] \<and> length d \<le> READ_SIZE \<Longrightarrow> delivers script fd (w, ds) ds (w, [])"
proof (induction ds)
  case (Cons d ds)
  then show ?case by (intro del_some [of script fd "(w, d # ds)" d "(w, ds)"]) (simp_all add: script_def)
qed (simp add: del_nil)

text \<open>
  C15. Pipelining on a blocking connection: commands that were appended one after the other
  are written out completely, whatever pieces the socket takes, and as many calls of
  redisGetReply return the server's replies in the order of the commands, whatever pieces
  they arrive in; each is an object tree with exactly the reply's value, owned by the caller,
  and the connection is left clean.
\<close>

theorem pipeline_in_order:
  assumes "conn (objs h) c h [] (- 1) [] []" "has_memory h" "roomy A"
    and "list_all2 (\<lambda>(argc, argv, argvlen) args. args_are argv argvlen args \<and> argc = int (length args)) cmds argss"
    and "accepts S (c_fd c) s (concat (map wire argss)) s1" "delivers S (c_fd c) s1 ds s2"
    and "concat ds = concat (map encode vs)" "\<forall>v \<in> set vs. wf_reply 8 v" "length vs = length cmds"
    and "length (concat (map wire argss)) + 1 < 2 ^ 31" "length (concat ds) + 1024 < 2 ^ 31"
  shows "\<exists>c1 ps c' h' ts. append_commands A S c cmds = Some (REDIS_OK, c1) \<and>
    get_replies A S (length vs) c1 h s = Some (REDIS_OK, ps, c', h', s2) \<and>
    list_all2 represents vs ts \<and> map aroot ts = ps \<and> owns (objs h) (objs h') ts \<and> conn (objs h') c' h' [] (- 1) [] []"
proof -
  obtain c1 where c1: "append_commands A S c cmds = Some (REDIS_OK, c1)"
    "conn (objs h) c1 h [] (- 1) [] (concat (map wire argss))" "c_fd c1 = c_fd c"
    using append_commands_ok [OF assms(4,1) _ assms(3)] assms(10) by auto
  have "length argss = length cmds" using assms(4) by (simp add: list_all2_lengthD)
  then have "vs = [] \<longrightarrow> concat (map wire argss) = []" using assms(9) by auto
  then show ?thesis
    using get_replies_ok [OF c1(2) _ _ _ _ assms(8,2,3)] c1(1,3) assms(5-7,10,11) by simp
qed

lemma witness_conn:
  assumes "redisContextInit heap0 = Some c"
  shows "conn (objs empty_heap) (c\<lparr>c_flags := REDIS_BLOCK, c_fd := 3\<rparr>) empty_heap [] (- 1) [] []"
  using conn_init [OF assms empty_heap_ok(1), of REDIS_BLOCK 3] by (simp add: flag_bits) (simp add: REDIS_BLOCK_def)

lemma witness_context: "\<exists>c. redisContextInit heap0 = Some c"
  using redisContextInit_total [OF roomy_heap0] .

theorem pipeline_in_order_witness:
  "\<exists>c c1 ps c' h' ts. redisContextInit heap0 = Some c \<and>
    append_commands heap0 script (c\<lparr>c_flags := REDIS_BLOCK, c_fd := 3\<rparr>) [(2, argv_ab, Some [3, 3]), (2, argv_ab, Some [3, 3])] =
      Some (REDIS_OK, c1) \<and>
    get_replies heap0 script 2 c1 empty_heap ([], ['':1'' @ CRLF @ ''+O'', ''K'' @ CRLF]) =
      Some (REDIS_OK, ps, c', h', (wire args_ab @ wire args_ab, [])) \<and>
    list_all2 represents [RInteger 1, RStatus ''OK''] ts \<and> map aroot ts = ps"
proof -
  obtain c where c: "redisContextInit heap0 = Some c" using witness_context by blast
  let ?ds = "['':1'' @ CRLF @ ''+O'', ''K'' @ CRLF]"
  have d: "delivers script 3 (wire args_ab @ wire args_ab, ?ds) ?ds (wire args_ab @ wire args_ab, [])"
    by (rule script_delivers) (simp add: READ_SIZE_def)
  have d1: "digit_char (Suc 0) = CHR ''1''" by code_simp
  have e: "concat ?ds = concat (map encode [RInteger 1, RStatus ''OK''])" by (simp add: decimal_int_def decimal.simps d1)
  have w: "\<forall>v \<in> set [RInteger 1, RStatus ''OK'']. wf_reply 8 v" by (simp add: CR_def)
  have a: "list_all2 (\<lambda>(argc, argv, argvlen) args. args_are argv argvlen args \<and> argc = int (length args))
    [(2, argv_ab, Some [3, 3]), (2, argv_ab, Some [3, 3])] [args_ab, args_ab]"
    using args_ab_are by (simp add: args_ab_def)
  have x: "accepts script 3 ([], ?ds) (concat (map wire [args_ab, args_ab])) (wire args_ab @ wire args_ab, ?ds)"
    using script_accepts [of 3 "[]" ?ds "wire args_ab @ wire args_ab"] by simp
  have l: "length (concat (map wire [args_ab, args_ab])) + 1 < 2 ^ 31" "length (concat ?ds) + 1024 < 2 ^ 31"
    "length [RInteger 1, RStatus ''OK''] = length [(2 :: int, argv_ab, Some [3, 3 :: nat]), (2, argv_ab, Some [3, 3])]"
    using wire_ab by simp_all
  have f: "c_fd (c\<lparr>c_flags := REDIS_BLOCK, c_fd := 3\<rparr>) = 3" by simp
  have n: "length [RInteger 1, RStatus ''OK''] = 2" by simp
  show ?thesis
    using pipeline_in_order [OF witness_conn [OF c] empty_heap_ok(2) roomy_heap0 a, unfolded f, OF x d e w l(3,1,2)] c
    unfolding n by blast
qed

text \<open>
  C16. redisCommand on a blocking connection: for a format and arguments that spell out
  \<open>args\<close>, exactly the wire format of \<open>args\<close> is written and the result is an object tree with the
  value of the server's reply, owned by the caller.
\<close>

theorem redisCommand_exchange:
  assumes "conn (objs h) c h [] (- 1) [] []" "has_memory h" "roomy A" "fmt_spec fd format ap [] False args"
    and "accepts S (c_fd c) s (wire args) s1" "delivers S (c_fd c) s1 ds s2" "concat ds = encode v" "wf_reply 8 v"
    and "length (wire args) + 1 < 2 ^ 31" "length (encode v) + 1024 < 2 ^ 31"
  shows "\<exists>p c' h' t. redisCommand A S fd c format ap h s = Some (p, c', h', s2) \<and> p \<noteq> NULL \<and>
    represents v t \<and> aroot t = p \<and> heap_is (objs h) h' t \<and> conn (objs h') c' h' [] (- 1) [] []"
proof -
  let ?n = "length (wire args)"
  obtain w where w: "c_obuf c = Some w" "sds_ok w" "sdsstr w = []" using assms(1) by (auto simp: conn_def)
  have l: "sdslen w = 0" using sdsb.len_str [OF w(2)] w(3) by simp
  obtain w' where w': "sdscatlen A w (wire args @ [NUL]) ?n = Some w'" "sds_ok w'" "sdsstr w' = wire args"
    using sdscatlen_grows [OF w(2) assms(3), of ?n "wire args @ [NUL]"] l w(3) assms(9) by auto
  have z: "to_size (int ?n) = ?n" using assms(9) by (simp add: to_size_id)
  let ?c = "c\<lparr>c_obuf := Some w'\<rparr>"
  have a: "redisvAppendCommand A S fd c format ap = Some (REDIS_OK, ?c)"
    using redisvFormatCommand_ok [OF assms(4,9,3)] w(1) w'(1) z
    by (simp add: redisvAppendCommand_def appendCommand_def redis_codes)
  have c: "conn (objs h) ?c h [] (- 1) [] (wire args)" using assms(1) w' by (simp add: conn_def)
  have "served S (c_fd ?c) s2 (objs h) v [] (redisGetReply A S ?c h s)"
    using redisGetReply_ok [OF c _ _ _ _ assms(8,2,3), of S s s1 ds s2 "[]"] assms(5-7,9,10) by simp
  then obtain p c' h' s' where g: "redisGetReply A S ?c h s = Some (REDIS_OK, p, c', h', s')" "got (objs h) v p h'"
    "conn (objs h') c' h' [] (- 1) [] []" "s' = s2"
    by (auto simp: served_def dest: delivers_nothing)
  have "has_flag (c_flags ?c) REDIS_BLOCK" using c by (simp add: conn_def)
  then show ?thesis
    using a g by (auto simp: redisCommand_def redisvCommand_def redisBlockForReply_def got_def redis_codes)
qed

theorem redisCommand_exchange_witness:
  "\<exists>c p c' h' t. redisContextInit heap0 = Some c \<and>
    redisCommand heap0 script (\<lambda>f d::unit. []) (c\<lparr>c_flags := REDIS_BLOCK, c_fd := 3\<rparr>) ''PING'' [] empty_heap ([], [''+PONG'' @ CRLF]) =
      Some (p, c', h', (wire [''PING''], [])) \<and> p \<noteq> NULL \<and> represents (RStatus ''PONG'') t \<and> aroot t = p"
proof -
  obtain c where c: "redisContextInit heap0 = Some c" using witness_context by blast
  let ?ds = "[''+PONG'' @ CRLF]"
  have d: "delivers script 3 (wire [''PING''], ?ds) ?ds (wire [''PING''], [])"
    by (rule script_delivers) (simp add: READ_SIZE_def)
  have f: "fmt_spec (\<lambda>f d::unit. []) ''PING'' [] [] False [''PING'']"
    using fmt_spec_words [of "''PING''" _ "[]" "[]"] by simp
  have e: "concat ?ds = encode (RStatus ''PONG'')" "wf_reply 8 (RStatus ''PONG'')" by (simp_all add: CR_def)
  have "length (wire [''PING'']) + 1 < 2 ^ 31" by (simp add: wire_eq bulk_eq decimal.simps)
  then show ?thesis
    using redisCommand_exchange [OF witness_conn [OF c] empty_heap_ok(2) roomy_heap0 f _ _ e, of script "([], ?ds)"
        "(wire [''PING''], ?ds)" "(wire [''PING''], [])"] script_accepts [of 3 "[]" ?ds "wire [''PING'']"] d c
    by (simp del: represents.simps) blast
qed

text \<open>
  A server that closes the connection in the middle of a reply: redisGetReply returns
  an error with the code and the message for it and no reply, and freeing the context closes the
  socket and frees the part of the reply that was built, nothing else.
\<close>

theorem closed_in_reply:
  assumes "conn b c h [] (- 1) [] out" "has_memory h" "roomy A" "0 < c_fd c"
    and "accepts S (c_fd c) s out s1" "delivers S (c_fd c) s1 ds s2" "sys_read S (c_fd c) READ_SIZE s2 = (Inr [], s3)"
    and "spec_run [] (- 1) (concat ds) = Wait fs ty xs" "length out < 2 ^ 31" "length (concat ds) + 1024 < 2 ^ 31"
  shows "\<exists>c' h' h''. redisGetReply A S c h s = Some (REDIS_ERR, NULL, c', h', s3) \<and> c_err c' = REDIS_ERR_EOF \<and>
    cstring (c_errstr c') = ''Server closed the connection'' \<and>
    redisFree S (Some c') h' s3 = Some (h'', sys_close S (c_fd c) s3) \<and> objs h'' = b"
proof -
  have e: "spec_run [] (- 1) [] = Wait [] (- 1) []" by (simp add: spec_run.simps spec_item_def)
  obtain c1 h1 where c1: "redisGetReplyFromReader S c h = Some (REDIS_OK, NULL, c1, h1)" "conn b c1 h1 [] (- 1) [] out"
    "has_memory h1" "c_fd c1 = c_fd c" using get_waits [OF assms(1,2) e] by blast
  obtain c2 where c2: "write_loop A S c1 s = Some (REDIS_OK, c2, s1)" "conn b c2 h1 [] (- 1) [] []" "c_fd c2 = c_fd c"
    using write_loop_ok [OF assms(5) c1(2,4) assms(9,3)] by blast
  obtain c3 c' h' where c3: "read_loop A S c2 h1 s1 = Some (REDIS_ERR, NULL, c', h', s3)" "conn b c3 h' fs ty xs []"
    "fail_with S c3 REDIS_ERR_EOF ''Server closed the connection'' = Some c'" "c_fd c3 = c_fd c"
    using read_loop_closed [OF assms(6) c2(2,3) e, of fs ty xs A s3] assms(3,7,8,10) c1(3) by auto
  have f: "c_err c' = REDIS_ERR_EOF \<and> cstring (c_errstr c') = ''Server closed the connection'' \<and> c_fd c' = c_fd c3 \<and>
    c_reader c' = c_reader c3"
    using fail_with_ok [OF c3(3)] c3(2) by (simp add: conn_def NUL_def ERRSTR_SIZE_def)
  have "has_flag (c_flags c1) REDIS_BLOCK" using c1(2) by (simp add: conn_def)
  then have "redisGetReply A S c h s = Some (REDIS_ERR, NULL, c', h', s3)"
    using c1(1) c2(1) c3(1) by (simp add: redisGetReply_def redis_codes)
  moreover obtain h'' where "redisFree S (Some c') h' s3 = Some (h'', sys_close S (c_fd c) s3)" "objs h'' = b"
    using redisFree_conn [OF c3(2), of c' S s3] f c3(4) assms(4) by auto
  ultimately show ?thesis using f by blast
qed

theorem closed_in_reply_witness:
  "\<exists>c c' h' h''. redisContextInit heap0 = Some c \<and>
    redisGetReply heap0 script (c\<lparr>c_flags := REDIS_BLOCK, c_fd := 3\<rparr>) empty_heap ([], [''*2'' @ CRLF @ '':1'']) =
      Some (REDIS_ERR, NULL, c', h', ([], [])) \<and> c_err c' = REDIS_ERR_EOF \<and>
    redisFree script (Some c') h' ([], []) = Some (h'', ([], [])) \<and> objs h'' = Map.empty"
proof -
  obtain c where c: "redisContextInit heap0 = Some c" using witness_context by blast
  let ?c = "c\<lparr>c_flags := REDIS_BLOCK, c_fd := 3\<rparr>" and ?ds = "[''*2'' @ CRLF @ '':1'']"
  have d: "delivers script (c_fd ?c) ([], ?ds) ?ds ([], [])"
    by (rule script_delivers) (simp add: READ_SIZE_def)
  have w: "spec_run [] (- 1) (concat ?ds) = Wait [(2, [])] REDIS_REPLY_INTEGER ''1''" by code_simp
  have r: "sys_read script (c_fd ?c) READ_SIZE ([], []) = (Inr [], ([], []))" "sys_close script 3 ([], []) = ([], [])"
    by (simp_all add: script_def)
  show ?thesis
    using closed_in_reply [OF witness_conn [OF c] empty_heap_ok(2) roomy_heap0 _ _ d r(1) w, of "([], ?ds)"] c r(2) acc_nil [of script 3 "([], ?ds)"] empty_heap_ok(3) by simp blast
qed

end
