(* ===== verification/Net.thy ===== *)
theory Net
  imports Sync "HOL-Library.Signed_Division"
begin

text \<open>
  net.c: sockets, their options, timeouts and the connect functions; and the functions of
  hiredis.c that make a connected context. \<^verbatim>\<open>errno\<close> is part of the state: a failing call
  sets it, a successful one leaves it.
\<close>

section \<open>Calls and errno\<close>

type_synonym 's world = "int \<times> 's"

definition sys_call :: "('s \<Rightarrow> (int + 'a) \<times> 's) \<Rightarrow> 's world \<Rightarrow> 'a option \<times> 's world" where
  "sys_call f w =
     (case w of (e, s) \<Rightarrow> (case f s of (Inl e', s) \<Rightarrow> (None, (e', s)) | (Inr x, s) \<Rightarrow> (Some x, (e, s))))"

definition redisContextCloseFd :: "'s sys \<Rightarrow> redisContext \<Rightarrow> 's world \<Rightarrow> redisContext \<times> 's world" where
  "redisContextCloseFd S c w =
     (if c_fd c \<ge> 0 then (c\<lparr>c_fd := - 1\<rparr>, (fst w, sys_close S (c_fd c) (snd w))) else (c, w))"

text \<open>
  The message of \<^verbatim>\<open>errno\<close> behind an optional prefix, in a buffer of 128 bytes that is all
  zeros at first.
\<close>

definition redisSetErrorFromErrno :: "'s sys \<Rightarrow> redisContext \<Rightarrow> int \<Rightarrow> string option \<Rightarrow> int \<Rightarrow> redisContext option" where
  "redisSetErrorFromErrno S c ty pre errno =
     (let pre = (case pre of None \<Rightarrow> [] | Some p \<Rightarrow> p @ '': '');
          b = mem_write 0 (take 127 pre @ [NUL]) (replicate 128 NUL)
      in if length pre \<ge> 128 then None
         else redisSetError S errno c ty
                (Some (take (length pre) b @ strerror_into S errno (128 - length pre) (drop (length pre) b))))"

text \<open>The pattern of most errors here: report \<^verbatim>\<open>errno\<close>, and close the socket or not.\<close>

definition give_up ::
    "'s sys \<Rightarrow> bool \<Rightarrow> redisContext \<Rightarrow> string option \<Rightarrow> 's world \<Rightarrow> (int \<times> redisContext \<times> 's world) option" where
  "give_up S shut c pre w =
     do {
       c \<leftarrow> redisSetErrorFromErrno S c REDIS_ERR_IO pre (fst w);
       let (c, w) = (if shut then redisContextCloseFd S c w else (c, w));
       Some (REDIS_ERR, c, w)
     }"

definition redisSetReuseAddr :: "'s sys \<Rightarrow> redisContext \<Rightarrow> 's world \<Rightarrow> (int \<times> redisContext \<times> 's world) option" where
  "redisSetReuseAddr S c w =
     (case sys_call (sys_setsockopt S (c_fd c) SO_REUSEADDR) w of
        (None, w) \<Rightarrow> give_up S True c None w
      | (Some _, w) \<Rightarrow> Some (REDIS_OK, c, w))"

definition redisCreateSocket :: "'s sys \<Rightarrow> redisContext \<Rightarrow> int \<Rightarrow> 's world \<Rightarrow> (int \<times> redisContext \<times> 's world) option" where
  "redisCreateSocket S c ty w =
     (case sys_call (sys_socket S ty) w of
        (None, w) \<Rightarrow> give_up S False c None w
      | (Some s, w) \<Rightarrow>
          (let c = c\<lparr>c_fd := s\<rparr>
           in if ty = AF_INET then redisSetReuseAddr S c w else Some (REDIS_OK, c, w)))"

definition O_NONBLOCK :: "32 word" where "O_NONBLOCK = 0x800"

definition redisSetBlocking :: "'s sys \<Rightarrow> redisContext \<Rightarrow> bool \<Rightarrow> 's world \<Rightarrow> (int \<times> redisContext \<times> 's world) option" where
  "redisSetBlocking S c blocking w =
     (case sys_call (sys_getfl S (c_fd c)) w of
        (None, w) \<Rightarrow> give_up S True c (Some ''fcntl(F_GETFL)'') w
      | (Some fl, w) \<Rightarrow>
          (let fl = (if blocking then clear_flag fl O_NONBLOCK else set_flag fl O_NONBLOCK)
           in case sys_call (sys_setfl S (c_fd c) fl) w of
                (None, w) \<Rightarrow> give_up S True c (Some ''fcntl(F_SETFL)'') w
              | (Some _, w) \<Rightarrow> Some (REDIS_OK, c, w)))"

text \<open>\<^verbatim>\<open>__redisSetError(c, REDIS_ERR_OTHER, strerror(errno))\<close>.\<close>

definition strerror_fail :: "'s sys \<Rightarrow> redisContext \<Rightarrow> 's world \<Rightarrow> (int \<times> redisContext \<times> 's world) option" where
  "strerror_fail S c w =
     do { c \<leftarrow> redisSetError S (fst w) c REDIS_ERR_OTHER (Some (sys_strerror S (fst w) @ [NUL])); Some (REDIS_ERR, c, w) }"

text \<open>The branch for the GNU C library.\<close>

fun set_options :: "'s sys \<Rightarrow> redisContext \<Rightarrow> sockopt list \<Rightarrow> 's world \<Rightarrow> (int \<times> redisContext \<times> 's world) option" where
  "set_options S c [] w = Some (REDIS_OK, c, w)"
| "set_options S c (x # xs) w =
     (case sys_call (sys_setsockopt S (c_fd c) x) w of
        (None, w) \<Rightarrow> strerror_fail S c w
      | (Some _, w) \<Rightarrow> set_options S c xs w)"

definition redisKeepAlive :: "'s sys \<Rightarrow> redisContext \<Rightarrow> int \<Rightarrow> 's world \<Rightarrow> (int \<times> redisContext \<times> 's world) option" where
  "redisKeepAlive S c interval w =
     (let val = interval sdiv 3;
          val = (if val = 0 then 1 else val)
      in set_options S c [SO_KEEPALIVE, TCP_KEEPIDLE interval, TCP_KEEPINTVL val, TCP_KEEPCNT 3] w)"

definition redisSetTcpNoDelay :: "'s sys \<Rightarrow> redisContext \<Rightarrow> 's world \<Rightarrow> (int \<times> redisContext \<times> 's world) option" where
  "redisSetTcpNoDelay S c w =
     (case sys_call (sys_setsockopt S (c_fd c) TCP_NODELAY) w of
        (None, w) \<Rightarrow> give_up S True c (Some ''setsockopt(TCP_NODELAY)'') w
      | (Some _, w) \<Rightarrow> Some (REDIS_OK, c, w))"

section \<open>Timeouts\<close>

definition MAX_MSEC :: int where "MAX_MSEC = (2 ^ 63 - 1 - 999) div 1000"
definition INT_MAX :: int where "INT_MAX = 2 ^ 31 - 1"

text \<open>The return code and the milliseconds; signed overflow is a fault.\<close>

definition redisContextTimeoutMsec :: "redisContext \<Rightarrow> (int \<times> int) option" where
  "redisContextTimeoutMsec c =
     (case c_timeout c of
        None \<Rightarrow> Some (REDIS_OK, - 1)
      | Some t \<Rightarrow>
          if tv_usec t > 1000000 \<or> tv_sec t > MAX_MSEC then Some (REDIS_ERR, - 1)
          else (let msec = tv_sec t * 1000 + (tv_usec t + 999) sdiv 1000
                in if tv_sec t * 1000 < - (2 ^ 63) \<or> msec < - (2 ^ 63) then None
                   else Some (REDIS_OK, if msec < 0 \<or> msec > INT_MAX then INT_MAX else msec)))"

definition redisCheckSocketError :: "'s sys \<Rightarrow> redisContext \<Rightarrow> 's world \<Rightarrow> (int \<times> redisContext \<times> 's world) option" where
  "redisCheckSocketError S c w =
     (case sys_call (sys_so_error S (c_fd c)) w of
        (None, w) \<Rightarrow> give_up S False c (Some ''getsockopt(SO_ERROR)'') w
      | (Some err, w) \<Rightarrow>
          if err \<noteq> 0 then give_up S False c None (err, snd w) else Some (REDIS_OK, c, w))"

definition redisContextWaitReady :: "'s sys \<Rightarrow> redisContext \<Rightarrow> int \<Rightarrow> 's world \<Rightarrow> (int \<times> redisContext \<times> 's world) option" where
  "redisContextWaitReady S c msec w =
     (if fst w = EINPROGRESS
      then (case sys_call (sys_poll S (c_fd c) msec) w of
              (None, w) \<Rightarrow> give_up S True c (Some ''poll(2)'') w
            | (Some res, w) \<Rightarrow>
                if res = 0 then give_up S True c None (ETIMEDOUT, snd w)
                else do {
                  (rc, c, w) \<leftarrow> redisCheckSocketError S c w;
                  Some (if rc \<noteq> REDIS_OK then REDIS_ERR else REDIS_OK, c, w)
                })
      else give_up S True c None w)"

definition redisContextSetTimeout :: "'s sys \<Rightarrow> redisContext \<Rightarrow> timeval \<Rightarrow> 's world \<Rightarrow> (int \<times> redisContext \<times> 's world) option" where
  "redisContextSetTimeout S c tv w =
     (case sys_call (sys_setsockopt S (c_fd c) (SO_RCVTIMEO tv)) w of
        (None, w) \<Rightarrow> give_up S False c (Some ''setsockopt(SO_RCVTIMEO)'') w
      | (Some _, w) \<Rightarrow>
          (case sys_call (sys_setsockopt S (c_fd c) (SO_SNDTIMEO tv)) w of
             (None, w) \<Rightarrow> give_up S False c (Some ''setsockopt(SO_SNDTIMEO)'') w
           | (Some _, w) \<Rightarrow> Some (REDIS_OK, c, w)))"

section \<open>Connecting over TCP\<close>

text \<open>
  A pointer argument that is kept in the context: the context's own, as when reconnecting, or
  the caller's, of which a copy is made.
\<close>

datatype 'a arg = Own | Given 'a

definition strdup :: "allocator \<Rightarrow> string \<Rightarrow> string option" where
  "strdup A s = (if serves A (length s + 1) then Some s else None)"

text \<open>\<open>None\<close> outside for NULL; storing through a block that was refused is a fault.\<close>

definition keep_timeout :: "allocator \<Rightarrow> redisContext \<Rightarrow> timeval arg option \<Rightarrow> redisContext option" where
  "keep_timeout A c timeout =
     (case timeout of
        None \<Rightarrow> Some (c\<lparr>c_timeout := None\<rparr>)
      | Some Own \<Rightarrow> Some c
      | Some (Given t) \<Rightarrow>
          if c_timeout c = None \<and> \<not> serves A 16 then None else Some (c\<lparr>c_timeout := Some t\<rparr>))"

definition keep_source :: "allocator \<Rightarrow> redisContext \<Rightarrow> string arg option \<Rightarrow> redisContext" where
  "keep_source A c source_addr =
     (case source_addr of
        None \<Rightarrow> c\<lparr>c_source_addr := None\<rparr>
      | Some Own \<Rightarrow> c
      | Some (Given a) \<Rightarrow> c\<lparr>c_source_addr := strdup A a\<rparr>)"

text \<open>An error whose message is put together in a buffer of 128 bytes.\<close>

definition fail_buf :: "'s sys \<Rightarrow> redisContext \<Rightarrow> string \<Rightarrow> 's world \<Rightarrow> (int \<times> redisContext \<times> 's world) option" where
  "fail_buf S c msg w =
     do { c \<leftarrow> redisSetError S 0 c REDIS_ERR_OTHER (Some (take 127 msg @ [NUL])); Some (REDIS_ERR, c, w) }"

text \<open>Trying to bind to one address after the other.\<close>

fun bind_any :: "'s sys \<Rightarrow> int \<Rightarrow> addrinfo list \<Rightarrow> 's world \<Rightarrow> bool \<times> 's world" where
  "bind_any S fd [] w = (False, w)"
| "bind_any S fd (b # bs) w =
     (case sys_call (sys_bind S fd (ai_addr b)) w of
        (Some _, w) \<Rightarrow> (True, w)
      | (None, w) \<Rightarrow> bind_any S fd bs w)"

definition bind_source ::
    "'s sys \<Rightarrow> redisContext \<Rightarrow> int \<Rightarrow> 's world \<Rightarrow> (int \<times> redisContext \<times> 's world) option" where
  "bind_source S c family w =
     (case c_source_addr c of
        None \<Rightarrow> Some (REDIS_OK, c, w)
      | Some src \<Rightarrow>
          (case sys_getaddrinfo S (Some src) None family (snd w) of
             (Inl rv, s) \<Rightarrow> fail_buf S c (''Can't get addr: '' @ sys_gai_strerror S rv) (fst w, s)
           | (Inr bs, s) \<Rightarrow>
               (case (if has_flag (c_flags c) REDIS_REUSEADDR
                      then sys_call (sys_setsockopt S (c_fd c) SO_REUSEADDR) (fst w, s) else (Some (), (fst w, s))) of
                  (None, w) \<Rightarrow> Some (REDIS_ERR, c, w)
                | (Some _, w) \<Rightarrow>
                    (case bind_any S (c_fd c) bs w of
                       (True, w) \<Rightarrow> Some (REDIS_OK, c, w)
                     | (False, w) \<Rightarrow> fail_buf S c (''Can't bind socket: '' @ sys_strerror S (fst w)) w))))"

text \<open>
  What one address gives: a connection, the end with an error, the next address, or another
  try of the same one.
\<close>

datatype attempt = Connected | Fail | NextAddr | TryAgain

definition finish_connect :: "'s sys \<Rightarrow> redisContext \<Rightarrow> 's world \<Rightarrow> (attempt \<times> redisContext \<times> 's world) option" where
  "finish_connect S c w =
     do {
       (rc, c, w) \<leftarrow> (if has_flag (c_flags c) REDIS_BLOCK then redisSetBlocking S c True w else Some (REDIS_OK, c, w));
       if rc \<noteq> REDIS_OK then Some (Fail, c, w)
       else do {
         (rc, c, w) \<leftarrow> redisSetTcpNoDelay S c w;
         if rc \<noteq> REDIS_OK then Some (Fail, c, w)
         else Some (Connected, c\<lparr>c_flags := set_flag (c_flags c) REDIS_CONNECTED\<rparr>, w)
       }
     }"

definition connect_addr ::
    "'s sys \<Rightarrow> int \<Rightarrow> redisContext \<Rightarrow> addrinfo \<Rightarrow> 's world \<Rightarrow> (attempt \<times> redisContext \<times> 's world) option" where
  "connect_addr S timeout_msec c p w =
     (case sys_call (sys_connect S (c_fd c) (ai_addr p)) w of
        (Some _, w) \<Rightarrow> finish_connect S c w
      | (None, w) \<Rightarrow>
          if fst w = EHOSTUNREACH
          then (let (c, w) = redisContextCloseFd S c w in Some (NextAddr, c, w))
          else if fst w = EINPROGRESS \<and> \<not> has_flag (c_flags c) REDIS_BLOCK then finish_connect S c w
          else if fst w = EADDRNOTAVAIL \<and> has_flag (c_flags c) REDIS_REUSEADDR then Some (TryAgain, c, w)
          else do {
            (rc, c, w) \<leftarrow> redisContextWaitReady S c timeout_msec w;
            if rc \<noteq> REDIS_OK then Some (Fail, c, w) else finish_connect S c w
          })"

definition try_addr ::
    "'s sys \<Rightarrow> int \<Rightarrow> int \<Rightarrow> redisContext \<Rightarrow> addrinfo \<Rightarrow> 's world \<Rightarrow> (attempt \<times> redisContext \<times> 's world) option" where
  "try_addr S family timeout_msec c p w =
     (case sys_call (sys_socket S (ai_family p)) w of
        (None, w) \<Rightarrow> Some (NextAddr, c, w)
      | (Some s, w) \<Rightarrow>
          do {
            (rc, c, w) \<leftarrow> redisSetBlocking S (c\<lparr>c_fd := s\<rparr>) False w;
            if rc \<noteq> REDIS_OK then Some (Fail, c, w)
            else do {
              (rc, c, w) \<leftarrow> bind_source S c family w;
              if rc \<noteq> REDIS_OK then Some (Fail, c, w) else connect_addr S timeout_msec c p w
            }
          })"

definition REDIS_CONNECT_RETRIES :: nat where "REDIS_CONNECT_RETRIES = 10"

function connect_loop ::
    "'s sys \<Rightarrow> int \<Rightarrow> int \<Rightarrow> nat \<Rightarrow> redisContext \<Rightarrow> addrinfo list \<Rightarrow> 's world \<Rightarrow> (int \<times> redisContext \<times> 's world) option" where
  "connect_loop S family timeout_msec reuses c ps w =
     (case ps of
        [] \<Rightarrow> fail_buf S c (''Can't create socket: '' @ sys_strerror S (fst w)) w
      | p # rest \<Rightarrow>
          (case try_addr S family timeout_msec c p w of
             None \<Rightarrow> None
           | Some (a, c, w) \<Rightarrow>
               (case a of
                  Connected \<Rightarrow> Some (REDIS_OK, c, w)
                | Fail \<Rightarrow> Some (REDIS_ERR, c, w)
                | NextAddr \<Rightarrow> connect_loop S family timeout_msec reuses c rest w
                | TryAgain \<Rightarrow>
                    if Suc reuses \<ge> REDIS_CONNECT_RETRIES then Some (REDIS_ERR, c, w)
                    else connect_loop S family timeout_msec (Suc reuses) (fst (redisContextCloseFd S c w)) ps
                           (snd (redisContextCloseFd S c w)))))"
  by pat_completeness auto
termination
  by (relation "measures [\<lambda>(S, f, t, n, c, ps, w). length ps, \<lambda>(S, f, t, n, c, ps, w). REDIS_CONNECT_RETRIES - n]") auto

declare connect_loop.simps [simp del]

text \<open>The IPv4 addresses of the host, or else its IPv6 ones, with the family asked for last.\<close>

definition resolve ::
    "'s sys \<Rightarrow> string option \<Rightarrow> string option \<Rightarrow> string \<Rightarrow> 's \<Rightarrow> (int + int \<times> addrinfo list) \<times> 's" where
  "resolve S host addr port s =
     (case sys_getaddrinfo S host (Some port) AF_INET s of
        (Inr ps, s) \<Rightarrow> (Inr (AF_INET, ps), s)
      | (Inl _, s) \<Rightarrow>
          (case sys_getaddrinfo S addr (Some port) AF_INET6 s of
             (Inr ps, s) \<Rightarrow> (Inr (AF_INET6, ps), s)
           | (Inl rv, s) \<Rightarrow> (Inl rv, s)))"

definition redisContextConnectBindTcp ::
    "allocator \<Rightarrow> 's sys \<Rightarrow> redisContext \<Rightarrow> string arg \<Rightarrow> int \<Rightarrow> timeval arg option \<Rightarrow> string arg option \<Rightarrow> 's world \<Rightarrow>
     (int \<times> redisContext \<times> 's world) option" where
  "redisContextConnectBindTcp A S c addr port timeout source_addr w =
     do {
       let a = (case addr of Own \<Rightarrow> c_host c | Given x \<Rightarrow> Some x);
       let c = c\<lparr>c_connection_type := REDIS_CONN_TCP, c_port := port\<rparr>;
       let c = (case addr of Own \<Rightarrow> c | Given x \<Rightarrow> c\<lparr>c_host := strdup A x\<rparr>);
       c \<leftarrow> keep_timeout A c timeout;
       (rc, timeout_msec) \<leftarrow> redisContextTimeoutMsec c;
       if rc \<noteq> REDIS_OK
       then do { c \<leftarrow> redisSetError S 0 c REDIS_ERR_IO (Some (''Invalid timeout specified'' @ [NUL])); Some (REDIS_ERR, c, w) }
       else do {
         let c = keep_source A c source_addr;
         case resolve S (c_host c) a (take 5 (decimal_int port)) (snd w) of
           (Inl rv, s) \<Rightarrow>
             do { c \<leftarrow> redisSetError S 0 c REDIS_ERR_OTHER (Some (sys_gai_strerror S rv @ [NUL])); Some (REDIS_ERR, c, (fst w, s)) }
         | (Inr (family, ps), s) \<Rightarrow> connect_loop S family timeout_msec 0 c ps (fst w, s)
       }
     }"

definition redisContextConnectTcp ::
    "allocator \<Rightarrow> 's sys \<Rightarrow> redisContext \<Rightarrow> string arg \<Rightarrow> int \<Rightarrow> timeval arg option \<Rightarrow> 's world \<Rightarrow>
     (int \<times> redisContext \<times> 's world) option" where
  "redisContextConnectTcp A S c addr port timeout w = redisContextConnectBindTcp A S c addr port timeout None w"

section \<open>Connecting to a local socket\<close>

text \<open>From the connect call on.\<close>

definition connect_local ::
    "'s sys \<Rightarrow> redisContext \<Rightarrow> string \<Rightarrow> int \<Rightarrow> 's world \<Rightarrow> (int \<times> redisContext \<times> 's world) option" where
  "connect_local S c path timeout_msec w =
     do {
       (rc, c, w) \<leftarrow>
         (case sys_call (sys_connect S (c_fd c) (Local (take 107 path))) w of
            (Some _, w) \<Rightarrow> Some (REDIS_OK, c, w)
          | (None, w) \<Rightarrow>
              if fst w = EINPROGRESS \<and> \<not> has_flag (c_flags c) REDIS_BLOCK then Some (REDIS_OK, c, w)
              else redisContextWaitReady S c timeout_msec w);
       if rc \<noteq> REDIS_OK then Some (REDIS_ERR, c, w)
       else do {
         (rc, c, w) \<leftarrow>
           (if has_flag (c_flags c) REDIS_BLOCK then redisSetBlocking S c True w else Some (REDIS_OK, c, w));
         if rc \<noteq> REDIS_OK then Some (REDIS_ERR, c, w)
         else Some (REDIS_OK, c\<lparr>c_flags := set_flag (c_flags c) REDIS_CONNECTED\<rparr>, w)
       }
     }"

definition redisContextConnectUnix ::
    "allocator \<Rightarrow> 's sys \<Rightarrow> redisContext \<Rightarrow> string arg \<Rightarrow> timeval arg option \<Rightarrow> 's world \<Rightarrow> (int \<times> redisContext \<times> 's world) option" where
  "redisContextConnectUnix A S c path timeout w =
     do {
       (rc, c, w) \<leftarrow> redisCreateSocket S c AF_LOCAL w;
       if rc < 0 then Some (REDIS_ERR, c, w)
       else do {
         (rc, c, w) \<leftarrow> redisSetBlocking S c False w;
         if rc \<noteq> REDIS_OK then Some (REDIS_ERR, c, w)
         else do {
           let a = (case path of Own \<Rightarrow> c_path c | Given x \<Rightarrow> Some x);
           let c = c\<lparr>c_connection_type := REDIS_CONN_UNIX\<rparr>;
           let c = (case path of Own \<Rightarrow> c | Given x \<Rightarrow> c\<lparr>c_path := strdup A x\<rparr>);
           c \<leftarrow> keep_timeout A c timeout;
           (rc, timeout_msec) \<leftarrow> redisContextTimeoutMsec c;
           if rc \<noteq> REDIS_OK then Some (REDIS_ERR, c, w)
           else do { a \<leftarrow> a; connect_local S c a timeout_msec w }
         }
       }
     }"

section \<open>Connected contexts\<close>

text \<open>The functions of hiredis.c that make a context; \<open>None\<close> inside is NULL.\<close>

definition with_context ::
    "allocator \<Rightarrow> 's world \<Rightarrow> (redisContext \<Rightarrow> (int \<times> redisContext \<times> 's world) option) \<Rightarrow>
     (redisContext option \<times> 's world) option" where
  "with_context A w f =
     (case redisContextInit A of
        None \<Rightarrow> Some (None, w)
      | Some c \<Rightarrow> do { (_, c, w) \<leftarrow> f c; Some (Some c, w) })"

definition redisConnect ::
    "allocator \<Rightarrow> 's sys \<Rightarrow> string \<Rightarrow> int \<Rightarrow> 's world \<Rightarrow> (redisContext option \<times> 's world) option" where
  "redisConnect A S ip port w =
     with_context A w (\<lambda>c. redisContextConnectTcp A S (c\<lparr>c_flags := set_flag (c_flags c) REDIS_BLOCK\<rparr>) (Given ip) port None w)"

definition redisConnectWithTimeout ::
    "allocator \<Rightarrow> 's sys \<Rightarrow> string \<Rightarrow> int \<Rightarrow> timeval \<Rightarrow> 's world \<Rightarrow> (redisContext option \<times> 's world) option" where
  "redisConnectWithTimeout A S ip port tv w =
     with_context A w (\<lambda>c. redisContextConnectTcp A S (c\<lparr>c_flags := set_flag (c_flags c) REDIS_BLOCK\<rparr>) (Given ip) port
       (Some (Given tv)) w)"

definition redisConnectNonBlock ::
    "allocator \<Rightarrow> 's sys \<Rightarrow> string \<Rightarrow> int \<Rightarrow> 's world \<Rightarrow> (redisContext option \<times> 's world) option" where
  "redisConnectNonBlock A S ip port w =
     with_context A w (\<lambda>c. redisContextConnectTcp A S (c\<lparr>c_flags := clear_flag (c_flags c) REDIS_BLOCK\<rparr>) (Given ip) port None w)"

text \<open>These two do not look whether there is a context.\<close>

definition redisConnectBindNonBlock ::
    "allocator \<Rightarrow> 's sys \<Rightarrow> string \<Rightarrow> int \<Rightarrow> string \<Rightarrow> 's world \<Rightarrow> (redisContext option \<times> 's world) option" where
  "redisConnectBindNonBlock A S ip port source_addr w =
     do {
       c \<leftarrow> redisContextInit A;
       (_, c, w) \<leftarrow> redisContextConnectBindTcp A S (c\<lparr>c_flags := clear_flag (c_flags c) REDIS_BLOCK\<rparr>) (Given ip) port None
                     (Some (Given source_addr)) w;
       Some (Some c, w)
     }"

definition redisConnectBindNonBlockWithReuse ::
    "allocator \<Rightarrow> 's sys \<Rightarrow> string \<Rightarrow> int \<Rightarrow> string \<Rightarrow> 's world \<Rightarrow> (redisContext option \<times> 's world) option" where
  "redisConnectBindNonBlockWithReuse A S ip port source_addr w =
     do {
       c \<leftarrow> redisContextInit A;
       let c = c\<lparr>c_flags := clear_flag (c_flags c) REDIS_BLOCK\<rparr>;
       let c = c\<lparr>c_flags := set_flag (c_flags c) REDIS_REUSEADDR\<rparr>;
       (_, c, w) \<leftarrow> redisContextConnectBindTcp A S c (Given ip) port None (Some (Given source_addr)) w;
       Some (Some c, w)
     }"

definition redisConnectUnix ::
    "allocator \<Rightarrow> 's sys \<Rightarrow> string \<Rightarrow> 's world \<Rightarrow> (redisContext option \<times> 's world) option" where
  "redisConnectUnix A S path w =
     with_context A w (\<lambda>c. redisContextConnectUnix A S (c\<lparr>c_flags := set_flag (c_flags c) REDIS_BLOCK\<rparr>) (Given path) None w)"

definition redisConnectUnixWithTimeout ::
    "allocator \<Rightarrow> 's sys \<Rightarrow> string \<Rightarrow> timeval \<Rightarrow> 's world \<Rightarrow> (redisContext option \<times> 's world) option" where
  "redisConnectUnixWithTimeout A S path tv w =
     with_context A w (\<lambda>c. redisContextConnectUnix A S (c\<lparr>c_flags := set_flag (c_flags c) REDIS_BLOCK\<rparr>) (Given path)
       (Some (Given tv)) w)"

definition redisConnectUnixNonBlock ::
    "allocator \<Rightarrow> 's sys \<Rightarrow> string \<Rightarrow> 's world \<Rightarrow> (redisContext option \<times> 's world) option" where
  "redisConnectUnixNonBlock A S path w =
     with_context A w (\<lambda>c. redisContextConnectUnix A S (c\<lparr>c_flags := clear_flag (c_flags c) REDIS_BLOCK\<rparr>) (Given path) None w)"

definition redisConnectFd :: "allocator \<Rightarrow> int \<Rightarrow> redisContext option" where
  "redisConnectFd A fd =
     (case redisContextInit A of
        None \<Rightarrow> None
      | Some c \<Rightarrow> Some (c\<lparr>c_fd := fd, c_flags := set_flag (set_flag (c_flags c) REDIS_BLOCK) REDIS_CONNECTED\<rparr>))"

text \<open>The socket is closed but the context keeps its number.\<close>

definition redisReconnect ::
    "allocator \<Rightarrow> 's sys \<Rightarrow> redisContext \<Rightarrow> rheap \<Rightarrow> 's world \<Rightarrow> (int \<times> redisContext \<times> rheap \<times> 's world) option" where
  "redisReconnect A S c h w =
     do {
       let c = c\<lparr>c_err := 0, c_errstr := mem_write 0 (replicate (strlen (c_errstr c)) NUL) (c_errstr c)\<rparr>;
       let w = (if c_fd c > 0 then (fst w, sys_close S (c_fd c) (snd w)) else w);
       r \<leftarrow> c_reader c;
       h \<leftarrow> redisReaderFree r h;
       let c = c\<lparr>c_obuf := sdsempty A, c_reader := redisReaderCreate A\<rparr>;
       (rc, c, w) \<leftarrow>
         (case c_connection_type c of
            REDIS_CONN_TCP \<Rightarrow>
              redisContextConnectBindTcp A S c Own (c_port c) (map_option (\<lambda>_. Own) (c_timeout c))
                (map_option (\<lambda>_. Own) (c_source_addr c)) w
          | REDIS_CONN_UNIX \<Rightarrow> redisContextConnectUnix A S c Own (map_option (\<lambda>_. Own) (c_timeout c)) w);
       Some (rc, c, h, w)
     }"

definition REDIS_KEEPALIVE_INTERVAL :: int where "REDIS_KEEPALIVE_INTERVAL = 15"

definition redisSetTimeout :: "'s sys \<Rightarrow> redisContext \<Rightarrow> timeval \<Rightarrow> 's world \<Rightarrow> (int \<times> redisContext \<times> 's world) option" where
  "redisSetTimeout S c tv w =
     (if has_flag (c_flags c) REDIS_BLOCK then redisContextSetTimeout S c tv w else Some (REDIS_ERR, c, w))"

definition redisEnableKeepAlive :: "'s sys \<Rightarrow> redisContext \<Rightarrow> 's world \<Rightarrow> (int \<times> redisContext \<times> 's world) option" where
  "redisEnableKeepAlive S c w =
     do {
       (rc, c, w) \<leftarrow> redisKeepAlive S c REDIS_KEEPALIVE_INTERVAL w;
       Some (if rc \<noteq> REDIS_OK then REDIS_ERR else REDIS_OK, c, w)
     }"

section \<open>Who owns which descriptor\<close>

text \<open>
  What the descriptors of a system are: \<^verbatim>\<open>socket\<close> gives a new one, \<^verbatim>\<open>close\<close> takes it back,
  the other calls leave them.
\<close>

definition keeps :: "('s \<Rightarrow> int set) \<Rightarrow> ('s \<Rightarrow> 'a \<times> 's) \<Rightarrow> bool" where
  "keeps opn f \<longleftrightarrow> (\<forall>s. opn (snd (f s)) = opn s)"

definition tracks :: "'s sys \<Rightarrow> ('s \<Rightarrow> int set) \<Rightarrow> bool" where
  "tracks S opn \<longleftrightarrow>
     (\<forall>f s. (case sys_socket S f s of
               (Inl _, s') \<Rightarrow> opn s' = opn s
             | (Inr d, s') \<Rightarrow> 0 \<le> d \<and> d \<notin> opn s \<and> opn s' = insert d (opn s))) \<and>
     (\<forall>d s. opn (sys_close S d s) = opn s - {d}) \<and>
     (\<forall>d x. keeps opn (sys_setsockopt S d x)) \<and> (\<forall>d. keeps opn (sys_so_error S d)) \<and>
     (\<forall>d. keeps opn (sys_getfl S d)) \<and> (\<forall>d f. keeps opn (sys_setfl S d f)) \<and>
     (\<forall>h p f. keeps opn (sys_getaddrinfo S h p f)) \<and> (\<forall>d a. keeps opn (sys_bind S d a)) \<and>
     (\<forall>d a. keeps opn (sys_connect S d a)) \<and> (\<forall>d t. keeps opn (sys_poll S d t))"

text \<open>Besides \<open>base\<close>, exactly the socket of the context is open, if it has one.\<close>

definition owned :: "('s \<Rightarrow> int set) \<Rightarrow> int set \<Rightarrow> redisContext \<Rightarrow> 's world \<Rightarrow> bool" where
  "owned opn base c w \<longleftrightarrow>
     (if 0 \<le> c_fd c then opn (snd w) = insert (c_fd c) base \<and> c_fd c \<notin> base else opn (snd w) = base)"

text \<open>
  The contract of the helpers: success keeps the socket and the error field, failure sets the
  error field; no descriptor is lost.
\<close>

definition contract ::
    "('s \<Rightarrow> int set) \<Rightarrow> int set \<Rightarrow> redisContext \<Rightarrow> (int \<times> redisContext \<times> 's world) option \<Rightarrow> bool" where
  "contract opn base c out \<longleftrightarrow>
     (\<exists>rc c' w'. out = Some (rc, c', w') \<and> owned opn base c' w' \<and> c_flags c' = c_flags c \<and>
        (rc = REDIS_OK \<and> c_err c' = c_err c \<and> c_fd c' = c_fd c \<or> rc = REDIS_ERR \<and> c_err c' \<noteq> 0))"

lemma call_state: "snd (snd (sys_call f w)) = snd (f (snd w))"
  by (simp add: sys_call_def split: prod.split sum.split)

lemma call_keeps:
  assumes "sys_call f w = (r, w')" "keeps opn f"
  shows "opn (snd w') = opn (snd w)"
  using assms call_state [of f w] by (simp add: keeps_def)

lemma tracks_keeps:
  assumes "tracks S opn"
  shows "keeps opn (sys_setsockopt S d x)" "keeps opn (sys_so_error S d)" "keeps opn (sys_getfl S d)"
    "keeps opn (sys_setfl S d fl)" "keeps opn (sys_getaddrinfo S hn p fam)" "keeps opn (sys_bind S d a)"
    "keeps opn (sys_connect S d a)" "keeps opn (sys_poll S d t)"
  using assms unfolding tracks_def by blast+

lemmas call_owned = call_keeps [OF _ tracks_keeps(1)] call_keeps [OF _ tracks_keeps(2)] call_keeps [OF _ tracks_keeps(3)]
  call_keeps [OF _ tracks_keeps(4)] call_keeps [OF _ tracks_keeps(6)] call_keeps [OF _ tracks_keeps(7)]
  call_keeps [OF _ tracks_keeps(8)]

lemma owned_cong: "opn (snd w') = opn (snd w) \<Longrightarrow> c_fd c' = c_fd c \<Longrightarrow> owned opn base c' w' = owned opn base c w"
  by (simp add: owned_def)

lemma close_ok:
  assumes "tracks S opn" "owned opn base c w" "redisContextCloseFd S c w = (c', w')"
  shows "opn (snd w') = base \<and> c_fd c' < 0 \<and> c_err c' = c_err c \<and> c_flags c' = c_flags c"
  using assms by (auto simp: redisContextCloseFd_def owned_def tracks_def split: if_splits)

lemma redisSetError_keeps:
  "redisSetError S e c ty str = Some c' \<Longrightarrow> c_err c' = ty \<and> c_fd c' = c_fd c \<and> c_flags c' = c_flags c \<and>
    c_reader c' = c_reader c"
  by (auto simp: redisSetError_def Let_def split: option.splits if_splits)

lemma give_up_ok:
  assumes "tracks S opn" "owned opn base c w" "\<forall>p. pre = Some p \<longrightarrow> length p < 126"
  shows "contract opn base c0 (give_up S shut c pre w) \<longleftrightarrow> c_flags c0 = c_flags c"
proof -
  have l: "length (case pre of None \<Rightarrow> [] | Some p \<Rightarrow> p @ '': '') < 128" using assms(3) by (cases pre) auto
  obtain c1 where c1: "redisSetErrorFromErrno S c REDIS_ERR_IO pre (fst w) = Some c1"
    unfolding redisSetErrorFromErrno_def Let_def if_not_P [OF l [unfolded not_le [symmetric]]]
    using redisSetError_total by blast
  then have k: "c_err c1 = REDIS_ERR_IO \<and> c_fd c1 = c_fd c \<and> c_flags c1 = c_flags c \<and> c_reader c1 = c_reader c"
    unfolding redisSetErrorFromErrno_def Let_def if_not_P [OF l [unfolded not_le [symmetric]]]
    by (rule redisSetError_keeps)
  obtain c2 w2 where c2: "redisContextCloseFd S c1 w = (c2, w2)" by (metis surj_pair)
  have o1: "owned opn base c1 w" using assms(2) k by (simp add: owned_def)
  from close_ok [OF assms(1) this c2] have "owned opn base c2 w2 \<and> c_err c2 = REDIS_ERR_IO \<and> c_flags c2 = c_flags c"
    using k by (simp add: owned_def)
  then show ?thesis
    using c1 c2 k o1 by (cases shut) (auto simp: give_up_def contract_def redis_codes)
qed

lemma contract_OK: "owned opn base c w \<Longrightarrow> contract opn base c (Some (REDIS_OK, c, w))"
  by (simp add: contract_def)

lemma redisSetBlocking_ok:
  assumes "tracks S opn" "owned opn base c w"
  shows "contract opn base c (redisSetBlocking S c b w)"
proof -
  obtain r1 w1 where 1: "sys_call (sys_getfl S (c_fd c)) w = (r1, w1)" by (metis surj_pair)
  have o1: "owned opn base c w1" using call_owned(3) [OF 1 assms(1)] assms(2) owned_cong by blast
  show ?thesis
  proof (cases r1)
    case None
    then show ?thesis using 1 give_up_ok [OF assms(1) o1] by (simp add: redisSetBlocking_def)
  next
    case (Some fl)
    let ?fl = "if b then clear_flag fl O_NONBLOCK else set_flag fl O_NONBLOCK"
    obtain r2 w2 where 2: "sys_call (sys_setfl S (c_fd c) ?fl) w1 = (r2, w2)" by (metis surj_pair)
    have o2: "owned opn base c w2" using call_owned(4) [OF 2 assms(1)] o1 owned_cong by blast
    show ?thesis using 1 2 Some give_up_ok [OF assms(1) o2] contract_OK [OF o2]
      by (cases r2) (simp_all add: redisSetBlocking_def Let_def)
  qed
qed

lemma redisSetTcpNoDelay_ok:
  assumes "tracks S opn" "owned opn base c w"
  shows "contract opn base c (redisSetTcpNoDelay S c w)"
proof -
  obtain r w1 where 1: "sys_call (sys_setsockopt S (c_fd c) TCP_NODELAY) w = (r, w1)" by (metis surj_pair)
  have o1: "owned opn base c w1" using call_owned(1) [OF 1 assms(1)] assms(2) owned_cong by blast
  then show ?thesis using 1 give_up_ok [OF assms(1) o1] contract_OK by (cases r) (simp_all add: redisSetTcpNoDelay_def)
qed

lemma redisCheckSocketError_ok:
  assumes "tracks S opn" "owned opn base c w"
  shows "contract opn base c (redisCheckSocketError S c w)"
proof -
  obtain r w1 where 1: "sys_call (sys_so_error S (c_fd c)) w = (r, w1)" by (metis surj_pair)
  have o1: "owned opn base c w1" using call_owned(2) [OF 1 assms(1)] assms(2) owned_cong by blast
  then have o2: "owned opn base c (e, snd w1)" for e by (simp add: owned_def)
  show ?thesis using 1 give_up_ok [OF assms(1) o1] give_up_ok [OF assms(1) o2] contract_OK [OF o1]
    by (cases r) (auto simp: redisCheckSocketError_def)
qed

lemma redisContextWaitReady_ok:
  assumes "tracks S opn" "owned opn base c w"
  shows "contract opn base c (redisContextWaitReady S c msec w)"
proof (cases "fst w = EINPROGRESS")
  case True
  obtain r w1 where 1: "sys_call (sys_poll S (c_fd c) msec) w = (r, w1)" by (metis surj_pair)
  have o1: "owned opn base c w1" using call_owned(7) [OF 1 assms(1)] assms(2) owned_cong by blast
  then have o2: "owned opn base c (e, snd w1)" for e by (simp add: owned_def)
  have "contract opn base c (redisCheckSocketError S c w1)" by (rule redisCheckSocketError_ok [OF assms(1) o1])
  then show ?thesis
    using True 1 give_up_ok [OF assms(1) o1] give_up_ok [OF assms(1) o2]
    by (cases r) (auto simp: redisContextWaitReady_def contract_def redis_codes)
next
  case False
  then show ?thesis using give_up_ok [OF assms] by (simp add: redisContextWaitReady_def)
qed

lemma fail_buf_ok:
  assumes "owned opn base c w"
  shows "contract opn base c (fail_buf S c msg w)"
proof -
  obtain c' where "redisSetError S 0 c REDIS_ERR_OTHER (Some (take 127 msg @ [NUL])) = Some c'"
    using redisSetError_total by blast
  then show ?thesis
    using redisSetError_keeps assms by (fastforce simp: fail_buf_def contract_def redis_codes owned_def)
qed

lemma contract_chain:
  assumes "contract opn base c (Some (REDIS_OK, c', w'))"
  shows "owned opn base c' w'" "c_flags c' = c_flags c" "c_err c' = c_err c" "c_fd c' = c_fd c"
  using assms by (auto simp: contract_def redis_codes)

lemma contract_cases:
  assumes "contract opn base c out"
  obtains c' w' where "out = Some (REDIS_OK, c', w')" "owned opn base c' w'" "c_flags c' = c_flags c" "c_err c' = c_err c"
      "c_fd c' = c_fd c"
  | c' w' where "out = Some (REDIS_ERR, c', w')" "owned opn base c' w'" "c_flags c' = c_flags c" "c_err c' \<noteq> 0"
  using assms unfolding contract_def by blast

lemma bind_any_ok:
  assumes "tracks S opn" "bind_any S fd bs w = (r, w')"
  shows "opn (snd w') = opn (snd w)"
  using assms(2)
proof (induction bs arbitrary: w)
  case (Cons b bs)
  obtain q w1 where 1: "sys_call (sys_bind S fd (ai_addr b)) w = (q, w1)" by (metis surj_pair)
  have "opn (snd w1) = opn (snd w)" using call_owned(5) [OF 1 assms(1)] .
  then show ?case using Cons 1 by (cases q) auto
qed simp

text \<open>Binding fails without a message only when address reuse was asked for and refused.\<close>

definition weak_contract ::
    "('s \<Rightarrow> int set) \<Rightarrow> int set \<Rightarrow> redisContext \<Rightarrow> (int \<times> redisContext \<times> 's world) option \<Rightarrow> bool" where
  "weak_contract opn base c out \<longleftrightarrow>
     (\<exists>rc c' w'. out = Some (rc, c', w') \<and> owned opn base c' w' \<and> c_flags c' = c_flags c \<and>
        (rc = REDIS_OK \<and> c_err c' = c_err c \<and> c_fd c' = c_fd c \<or>
         rc = REDIS_ERR \<and> (c_err c' \<noteq> 0 \<or> has_flag (c_flags c) REDIS_REUSEADDR)))"

lemma contract_weak: "contract opn base c out \<Longrightarrow> weak_contract opn base c out"
  unfolding contract_def weak_contract_def by blast

lemma bind_source_ok:
  assumes "tracks S opn" "owned opn base c w"
  shows "weak_contract opn base c (bind_source S c family w)"
proof (cases "c_source_addr c")
  case None
  then show ?thesis using contract_weak [OF contract_OK [OF assms(2)]] by (simp add: bind_source_def)
next
  case (Some src)
  obtain r s where 1: "sys_getaddrinfo S (Some src) None family (snd w) = (r, s)" by (metis surj_pair)
  have "opn s = opn (snd w)"
    using tracks_keeps(5) [OF assms(1), of "Some src" None family] 1 unfolding keeps_def by (metis snd_conv)
  then have o1: "owned opn base c (fst w, s)" using assms(2) by (simp add: owned_def)
  show ?thesis
  proof (cases r)
    case (Inl rv)
    then show ?thesis using 1 Some contract_weak [OF fail_buf_ok [OF o1]] by (simp add: bind_source_def)
  next
    case (Inr bs)
    obtain q w2 where 2: "(if has_flag (c_flags c) REDIS_REUSEADDR then sys_call (sys_setsockopt S (c_fd c) SO_REUSEADDR) (fst w, s)
      else (Some (), (fst w, s))) = (q, w2)" by (metis surj_pair)
    have o2: "owned opn base c w2" "q = None \<longrightarrow> has_flag (c_flags c) REDIS_REUSEADDR"
      using 2 call_owned(1) [OF _ assms(1), of "c_fd c" SO_REUSEADDR "(fst w, s)" q w2] o1
      by (auto split: if_splits simp: owned_def)
    obtain b w3 where 3: "bind_any S (c_fd c) bs w2 = (b, w3)" by (metis surj_pair)
    have o3: "owned opn base c w3" using bind_any_ok [OF assms(1) 3] o2(1) owned_cong by blast
    show ?thesis
    proof (cases q)
      case None
      then show ?thesis using 1 2 Some Inr o2 by (simp add: bind_source_def weak_contract_def redis_codes)
    next
      case (Some u)
      then show ?thesis
        using 1 2 3 \<open>c_source_addr c = Some src\<close> Inr contract_weak [OF contract_OK [OF o3]]
          contract_weak [OF fail_buf_ok [OF o3]] by (cases b) (simp_all add: bind_source_def)
    qed
  qed
qed

text \<open>What an attempt leaves.\<close>

definition attempt_ok ::
    "('s \<Rightarrow> int set) \<Rightarrow> int set \<Rightarrow> redisContext \<Rightarrow> (attempt \<times> redisContext \<times> 's world) option \<Rightarrow> bool" where
  "attempt_ok opn base c out \<longleftrightarrow>
     (\<exists>a c' w'. out = Some (a, c', w') \<and> c_err c' = (if a = Fail then c_err c' else c_err c) \<and>
        c_flags c' = (if a = Connected then set_flag (c_flags c) REDIS_CONNECTED else c_flags c) \<and>
        (case a of
           Connected \<Rightarrow> owned opn base c' w' \<and> 0 \<le> c_fd c'
         | Fail \<Rightarrow> owned opn base c' w' \<and> (c_err c' \<noteq> 0 \<or> has_flag (c_flags c) REDIS_REUSEADDR)
         | NextAddr \<Rightarrow> opn (snd w') = base
         | TryAgain \<Rightarrow> owned opn base c' w' \<and> has_flag (c_flags c) REDIS_REUSEADDR))"

lemma attempt_ok_cong:
  "c_err c1 = c_err c \<Longrightarrow> c_flags c1 = c_flags c \<Longrightarrow> attempt_ok opn base c1 out = attempt_ok opn base c out"
  by (simp only: attempt_ok_def)

lemma attempt_okI:
  "owned opn base c' w' \<Longrightarrow> c_err c' \<noteq> 0 \<or> has_flag (c_flags c) REDIS_REUSEADDR \<Longrightarrow> c_flags c' = c_flags c \<Longrightarrow>
    attempt_ok opn base c (Some (Fail, c', w'))"
  "opn (snd w') = base \<Longrightarrow> c_err c' = c_err c \<Longrightarrow> c_flags c' = c_flags c \<Longrightarrow> attempt_ok opn base c (Some (NextAddr, c', w'))"
  by (simp_all add: attempt_ok_def)

lemma finish_connect_ok:
  assumes "tracks S opn" "owned opn base c w" "0 \<le> c_fd c"
  shows "attempt_ok opn base c (finish_connect S c w)"
proof -
  have "contract opn base c (if has_flag (c_flags c) REDIS_BLOCK then redisSetBlocking S c True w else Some (REDIS_OK, c, w))"
    using redisSetBlocking_ok [OF assms(1,2)] contract_OK [OF assms(2)] by simp
  then show ?thesis
  proof (cases rule: contract_cases)
    case (1 c1 w1)
    have "contract opn base c1 (redisSetTcpNoDelay S c1 w1)" by (rule redisSetTcpNoDelay_ok [OF assms(1) 1(2)])
    then show ?thesis
    proof (cases rule: contract_cases)
      case (1 c2 w2)
      have "owned opn base (c2\<lparr>c_flags := x\<rparr>) w2" for x using 1(2) by (simp add: owned_def)
      then show ?thesis
        using 1 \<open>(if has_flag (c_flags c) REDIS_BLOCK then redisSetBlocking S c True w else Some (REDIS_OK, c, w)) =
          Some (REDIS_OK, c1, w1)\<close> \<open>c_flags c1 = c_flags c\<close> \<open>c_err c1 = c_err c\<close> \<open>c_fd c1 = c_fd c\<close> assms(3)
        by (simp add: finish_connect_def attempt_ok_def)
    next
      case (2 c2 w2)
      then show ?thesis
        using \<open>(if has_flag (c_flags c) REDIS_BLOCK then redisSetBlocking S c True w else Some (REDIS_OK, c, w)) =
          Some (REDIS_OK, c1, w1)\<close> \<open>c_flags c1 = c_flags c\<close>
        by (simp add: finish_connect_def attempt_ok_def redis_codes)
    qed
  next
    case (2 c1 w1)
    then show ?thesis by (simp add: finish_connect_def attempt_ok_def redis_codes)
  qed
qed

lemma connect_addr_ok:
  assumes "tracks S opn" "owned opn base c w" "0 \<le> c_fd c"
  shows "attempt_ok opn base c (connect_addr S t c p w)"
proof -
  obtain r w1 where 1: "sys_call (sys_connect S (c_fd c) (ai_addr p)) w = (r, w1)" by (metis surj_pair)
  have o1: "owned opn base c w1" using call_owned(6) [OF 1 assms(1)] assms(2) owned_cong by blast
  have f: "attempt_ok opn base c (finish_connect S c w1)" by (rule finish_connect_ok [OF assms(1) o1 assms(3)])
  obtain c2 w2 where 2: "redisContextCloseFd S c w1 = (c2, w2)" by (metis surj_pair)
  have "contract opn base c (redisContextWaitReady S c t w1)" by (rule redisContextWaitReady_ok [OF assms(1) o1])
  then have w: "attempt_ok opn base c (do { (rc, c, w) \<leftarrow> redisContextWaitReady S c t w1;
      if rc \<noteq> REDIS_OK then Some (Fail, c, w) else finish_connect S c w })"
  proof (cases rule: contract_cases)
    case (1 c' w')
    have "0 \<le> c_fd c'" using 1(5) assms(3) by simp
    from finish_connect_ok [OF assms(1) 1(2) this] show ?thesis
      using 1 attempt_ok_cong [of c' c opn base] by (simp add: redis_codes)
  next
    case (2 c' w')
    then show ?thesis by (simp add: attempt_ok_def redis_codes)
  qed
  have n: "attempt_ok opn base c (Some (NextAddr, c2, w2))"
    using close_ok [OF assms(1) o1 2] attempt_okI(2) [of opn w2 base c2 c] by simp
  have a: "attempt_ok opn base c (Some (TryAgain, c, w1))" if "has_flag (c_flags c) REDIS_REUSEADDR"
    using o1 that by (simp add: attempt_ok_def)
  show ?thesis using 1 2 f w n a by (cases r) (simp_all add: connect_addr_def)
qed

lemma tracks_socket:
  assumes "tracks S opn" "sys_socket S f s = (r, s')"
  shows "case r of Inl _ \<Rightarrow> opn s' = opn s | Inr d \<Rightarrow> 0 \<le> d \<and> d \<notin> opn s \<and> opn s' = insert d (opn s)"
proof -
  have "case sys_socket S f s of (Inl _, s') \<Rightarrow> opn s' = opn s
    | (Inr d, s') \<Rightarrow> 0 \<le> d \<and> d \<notin> opn s \<and> opn s' = insert d (opn s)" using assms(1) by (simp add: tracks_def)
  then show ?thesis using assms(2) by (cases r) simp_all
qed

lemma try_addr_ok:
  assumes "tracks S opn" "opn (snd w) = base"
  shows "attempt_ok opn base c (try_addr S family t c p w)"
proof -
  obtain e s where w: "w = (e, s)" by (cases w)
  obtain r s1 where 1: "sys_socket S (ai_family p) s = (r, s1)" by (metis surj_pair)
  note t = tracks_socket [OF assms(1) 1]
  show ?thesis
  proof (cases r)
    case (Inl e')
    then have "try_addr S family t c p w = Some (NextAddr, c, (e', s1))" "opn s1 = base"
      using 1 t w assms(2) by (simp_all add: try_addr_def sys_call_def)
    then show ?thesis using attempt_okI(2) [of opn "(e', s1)" base c c] by simp
  next
    case (Inr d)
    let ?c = "c\<lparr>c_fd := d\<rparr>"
    have o1: "owned opn base ?c (e, s1)" "0 \<le> c_fd ?c" using t Inr assms(2) w by (simp_all add: owned_def)
    have "contract opn base ?c (redisSetBlocking S ?c False (e, s1))" by (rule redisSetBlocking_ok [OF assms(1) o1(1)])
    then show ?thesis
    proof (cases rule: contract_cases)
      case (1 c2 w2)
      have r: "try_addr S family t c p w = do { (rc, c, w) \<leftarrow> bind_source S c2 family w2;
          if rc \<noteq> REDIS_OK then Some (Fail, c, w) else connect_addr S t c p w }"
        using \<open>sys_socket S (ai_family p) s = (r, s1)\<close> w Inr 1(1) by (simp add: try_addr_def sys_call_def)
      have "weak_contract opn base c2 (bind_source S c2 family w2)" by (rule bind_source_ok [OF assms(1) 1(2)])
      then obtain rc c3 w3 where 3: "bind_source S c2 family w2 = Some (rc, c3, w3)" "owned opn base c3 w3"
        "c_flags c3 = c_flags c2" "rc = REDIS_OK \<and> c_err c3 = c_err c2 \<and> c_fd c3 = c_fd c2 \<or>
         rc = REDIS_ERR \<and> (c_err c3 \<noteq> 0 \<or> has_flag (c_flags c2) REDIS_REUSEADDR)" unfolding weak_contract_def by blast
      have fl: "c_flags c3 = c_flags c" using 3(3) 1(3) by simp
      show ?thesis
      proof (cases "rc = REDIS_OK")
        case True
        then have k: "c_err c3 = c_err c" "0 \<le> c_fd c3" using 3(4) 1(4,5) o1(2) by (auto simp: redis_codes)
        have "attempt_ok opn base c (connect_addr S t c3 p w3)"
          using connect_addr_ok [OF assms(1) 3(2) k(2), of t p] attempt_ok_cong [of c3 c opn base] k(1) fl by simp
        then show ?thesis using r 3(1) True by simp
      next
        case False
        then have "c_err c3 \<noteq> 0 \<or> has_flag (c_flags c) REDIS_REUSEADDR" using 3(3,4) fl by simp
        from attempt_okI(1) [OF 3(2) this fl] show ?thesis using r 3(1) False by simp
      qed
    next
      case (2 c2 w2)
      then have "try_addr S family t c p w = Some (Fail, c2, w2)"
        using \<open>sys_socket S (ai_family p) s = (r, s1)\<close> w Inr by (simp add: try_addr_def sys_call_def redis_codes)
      then show ?thesis using attempt_okI(1) [OF 2(2)] 2(3,4) by simp
    qed
  qed
qed

text \<open>
  The whole: success means a socket of its own, marked connected; failure sets the error
  field, unless addresses are reused; nothing else is left open.
\<close>

definition connected ::
    "('s \<Rightarrow> int set) \<Rightarrow> int set \<Rightarrow> redisContext \<Rightarrow> (int \<times> redisContext \<times> 's world) option \<Rightarrow> bool" where
  "connected opn base c out \<longleftrightarrow>
     (\<exists>rc c' w'. out = Some (rc, c', w') \<and> (opn (snd w') = base \<or> owned opn base c' w') \<and>
        (rc = REDIS_OK \<and> c_err c' = c_err c \<and> has_flag (c_flags c') REDIS_CONNECTED \<and> owned opn base c' w' \<and> 0 \<le> c_fd c' \<or>
         rc = REDIS_ERR \<and> (c_err c' \<noteq> 0 \<or> has_flag (c_flags c) REDIS_REUSEADDR)))"

lemma connected_flag: "has_flag (set_flag f REDIS_CONNECTED) REDIS_CONNECTED"
  by (simp add: flag_bits)

lemma fail_buf_error: "\<exists>c'. fail_buf S c msg w = Some (REDIS_ERR, c', w) \<and> c_err c' \<noteq> 0"
proof -
  obtain c' where c': "redisSetError S 0 c REDIS_ERR_OTHER (Some (take 127 msg @ [NUL])) = Some c'"
    using redisSetError_total by blast
  then show ?thesis using redisSetError_keeps [OF c'] by (simp add: fail_buf_def redis_codes)
qed

lemma connect_loop_ok:
  assumes "tracks S opn" "opn (snd w) = base"
  shows "connected opn base c (connect_loop S family t reuses c ps w)"
  using assms
proof (induction S family t reuses c ps w rule: connect_loop.induct)
  case (1 S family t reuses c ps w)
  show ?case
  proof (cases ps)
    case Nil
    obtain c' where "fail_buf S c (''Can't create socket: '' @ sys_strerror S (fst w)) w = Some (REDIS_ERR, c', w)"
      "c_err c' \<noteq> 0" using fail_buf_error by blast
    then show ?thesis using Nil 1(4) connect_loop.simps [of S family t reuses c ps w] by (simp add: connected_def)
  next
    case (Cons p rest)
    obtain a c1 w1 where a: "try_addr S family t c p w = Some (a, c1, w1)" "attempt_ok opn base c (Some (a, c1, w1))"
      using try_addr_ok [OF 1(3,4), of c family t p] unfolding attempt_ok_def by auto
    show ?thesis
    proof (cases a)
      case Connected
      then show ?thesis using a Cons connected_flag connect_loop.simps [of S family t reuses c ps w]
        by (auto simp: connected_def attempt_ok_def)
    next
      case Fail
      then show ?thesis using a Cons connect_loop.simps [of S family t reuses c ps w]
        by (auto simp: connected_def attempt_ok_def)
    next
      case NextAddr
      have k: "opn (snd w1) = base" "c_err c1 = c_err c" "c_flags c1 = c_flags c"
        using a(2) NextAddr by (simp_all add: attempt_ok_def)
      have "connected opn base c1 (connect_loop S family t reuses c1 rest w1)"
        using 1(1) [OF Cons a(1) refl refl NextAddr 1(3) k(1)] .
      then show ?thesis using a(1) Cons NextAddr k
        connect_loop.simps [of S family t reuses c ps w] by (simp add: connected_def)
    next
      case TryAgain
      have k: "owned opn base c1 w1" "has_flag (c_flags c) REDIS_REUSEADDR" "c_err c1 = c_err c" "c_flags c1 = c_flags c"
        using a(2) TryAgain by (simp_all add: attempt_ok_def)
      show ?thesis
      proof (cases "Suc reuses \<ge> REDIS_CONNECT_RETRIES")
        case True
        then show ?thesis using a(1) Cons TryAgain k
        connect_loop.simps [of S family t reuses c ps w] by (simp add: connected_def)
      next
        case False
        obtain c2 w2 where 2: "redisContextCloseFd S c1 w1 = (c2, w2)" by (metis surj_pair)
        have k2: "opn (snd w2) = base" "c_err c2 = c_err c" "c_flags c2 = c_flags c"
          using close_ok [OF 1(3) k(1) 2] k by simp_all
        have "connected opn base c2 (connect_loop S family t (Suc reuses) c2 ps w2)"
          using 1(2) [OF Cons a(1) refl refl TryAgain False 1(3)] k2(1) 2 by simp
        then show ?thesis using a(1) Cons TryAgain k2 2 False
        connect_loop.simps [of S family t reuses c ps w] by (simp add: connected_def)
      qed
    qed
  qed
qed

lemma connected_cong:
  "c_err c1 = c_err c \<Longrightarrow> c_flags c1 = c_flags c \<Longrightarrow> connected opn base c1 out = connected opn base c out"
  by (simp only: connected_def)

lemma connected_failed:
  assumes "redisSetError S e c ty str = Some c'" "ty \<noteq> 0" "opn (snd w') = base" "c_flags c = c_flags c0"
  shows "connected opn base c0 (Some (REDIS_ERR, c', w'))"
  using redisSetError_keeps [OF assms(1)] assms(2-4) by (auto simp: connected_def)

text \<open>The timeout that will be used, if any, is not negative.\<close>

definition timeout_ok :: "redisContext \<Rightarrow> timeval arg option \<Rightarrow> bool" where
  "timeout_ok c timeout \<longleftrightarrow>
     (\<forall>t. timeout = Some (Given t) \<or> timeout = Some Own \<and> c_timeout c = Some t \<longrightarrow> 0 \<le> tv_sec t \<and> 0 \<le> tv_usec t)"

lemma keep_timeout_ok:
  assumes "roomy A" "timeout_ok c timeout"
  obtains c' rc ms where "keep_timeout A c timeout = Some c'" "redisContextTimeoutMsec c' = Some (rc, ms)"
    "c_err c' = c_err c" "c_flags c' = c_flags c" "c_fd c' = c_fd c" "rc = REDIS_OK \<or> rc = REDIS_ERR" "c_path c' = c_path c"
proof -
  have s: "serves A 16" using assms(1) by (simp add: roomy_def)
  have nn: "0 \<le> tv_sec t * 1000 + (tv_usec t + 999) sdiv 1000" if "0 \<le> tv_sec t" "0 \<le> tv_usec t" for t
  proof -
    have "0 \<le> (tv_usec t + 999) sdiv 1000" using that(2) by (simp add: signed_divide_int_def sgn_if)
    then show ?thesis using that(1) by simp
  qed
  obtain c' where c': "keep_timeout A c timeout = Some c'" "c_err c' = c_err c" "c_flags c' = c_flags c" "c_fd c' = c_fd c"
    "c_path c' = c_path c" "\<forall>t. c_timeout c' = Some t \<longrightarrow> 0 \<le> tv_sec t \<and> 0 \<le> tv_usec t"
    using assms(2) s by (cases timeout; cases "the timeout") (auto simp: keep_timeout_def timeout_ok_def)
  have "\<exists>rc ms. redisContextTimeoutMsec c' = Some (rc, ms) \<and> (rc = REDIS_OK \<or> rc = REDIS_ERR)"
  proof (cases "c_timeout c'")
    case (Some t)
    then have "0 \<le> tv_sec t" "0 \<le> tv_usec t" using c'(6) by simp_all
    then show ?thesis using nn [of t] Some by (auto simp: redisContextTimeoutMsec_def Let_def)
  qed (simp add: redisContextTimeoutMsec_def)
  then show ?thesis using c' that by blast
qed

lemma resolve_keeps:
  assumes "tracks S opn" "resolve S hn a p s = (r, s')"
  shows "opn s' = opn s"
proof -
  have k: "opn (snd (sys_getaddrinfo S h p f x)) = opn x" for h p f x
    using tracks_keeps(5) [OF assms(1)] by (simp add: keeps_def)
  obtain r1 s1 where 1: "sys_getaddrinfo S hn (Some p) AF_INET s = (r1, s1)" by (metis surj_pair)
  obtain r2 s2 where 2: "sys_getaddrinfo S a (Some p) AF_INET6 s1 = (r2, s2)" by (metis surj_pair)
  show ?thesis
    using 1 2 k [of hn "Some p" AF_INET s] k [of a "Some p" AF_INET6 s1] assms(2)
    by (cases r1; cases r2) (auto simp: resolve_def)
qed

lemma keep_source_same: "c_err (keep_source A c x) = c_err c" "c_flags (keep_source A c x) = c_flags c"
  by (auto simp: keep_source_def split: option.splits arg.splits)

lemma redisContextConnectBindTcp_ok:
  assumes "tracks S opn" "opn (snd w) = base" "roomy A" "timeout_ok c timeout"
  shows "connected opn base c (redisContextConnectBindTcp A S c addr port timeout source_addr w)"
proof -
  let ?c1 = "c\<lparr>c_connection_type := REDIS_CONN_TCP, c_port := port\<rparr>"
  let ?c2 = "case addr of Own \<Rightarrow> ?c1 | Given x \<Rightarrow> ?c1\<lparr>c_host := strdup A x\<rparr>"
  have k2: "c_err ?c2 = c_err c" "c_flags ?c2 = c_flags c" "timeout_ok ?c2 timeout"
    using assms(4) by (cases addr; simp add: timeout_ok_def)+
  obtain c3 rc ms where 3: "keep_timeout A ?c2 timeout = Some c3" "redisContextTimeoutMsec c3 = Some (rc, ms)"
    "c_err c3 = c_err c" "c_flags c3 = c_flags c" using keep_timeout_ok [OF assms(3) k2(3)] k2(1,2) by metis
  let ?a = "case addr of Own \<Rightarrow> c_host c | Given x \<Rightarrow> Some x"
  let ?c4 = "keep_source A c3 source_addr"
  obtain r s where r: "resolve S (c_host ?c4) ?a (take 5 (decimal_int port)) (snd w) = (r, s)" by (metis surj_pair)
  have b: "opn s = base" using resolve_keeps [OF assms(1) r] assms(2) by simp
  obtain cT where T: "redisSetError S 0 c3 REDIS_ERR_IO (Some (''Invalid timeout specified'' @ [NUL])) = Some cT"
    using redisSetError_total by blast
  obtain cG where G: "redisSetError S 0 ?c4 REDIS_ERR_OTHER (Some (sys_gai_strerror S (projl r) @ [NUL])) = Some cG"
    using redisSetError_total by blast
  have bad: "connected opn base c (Some (REDIS_ERR, cT, w))"
    using connected_failed [OF T _ _ 3(4), of opn w base] assms(2) by (simp add: redis_codes)
  have gai: "connected opn base c (Some (REDIS_ERR, cG, (fst w, s)))"
    using connected_failed [OF G, of opn "(fst w, s)" base c] b 3(4) by (simp add: redis_codes keep_source_same)
  have good: "connected opn base c (connect_loop S f ms 0 ?c4 ps (fst w, s))" for f ps
    using connect_loop_ok [OF assms(1), of "(fst w, s)" base ?c4] b connected_cong [of ?c4 c opn base] 3(3,4)
    by (simp add: keep_source_same)
  show ?thesis
  proof (cases "rc = REDIS_OK")
    case False
    then show ?thesis using 3 T bad by (simp add: redisContextConnectBindTcp_def)
  next
    case True
    then show ?thesis using 3 r G gai good by (cases r) (auto simp: redisContextConnectBindTcp_def)
  qed
qed

section \<open>Properties\<close>

text \<open>
  C17. A TCP connect leaks no descriptor and reports its failures: it returns; afterwards at
  most one more descriptor is open than before, the one in the context; on success this
  descriptor is new and open, the context is marked connected and has no new error; on failure
  the error field is set, except when the reuse of addresses was asked for.
\<close>

theorem tcp_connect_owns:
  assumes "tracks S opn" "roomy A" "timeout_ok c timeout"
  shows "\<exists>rc c' e' s'. redisContextConnectBindTcp A S c addr port timeout source_addr (e, s) = Some (rc, c', (e', s')) \<and>
    opn s \<subseteq> opn s' \<and> opn s' \<subseteq> insert (c_fd c') (opn s) \<and> rc \<in> {REDIS_OK, REDIS_ERR} \<and>
    (rc = REDIS_OK \<longrightarrow> c_fd c' \<in> opn s' - opn s \<and> has_flag (c_flags c') REDIS_CONNECTED \<and> c_err c' = c_err c) \<and>
    (rc = REDIS_ERR \<longrightarrow> c_err c' \<noteq> 0 \<or> has_flag (c_flags c) REDIS_REUSEADDR)"
proof -
  have "connected opn (opn s) c (redisContextConnectBindTcp A S c addr port timeout source_addr (e, s))"
    using redisContextConnectBindTcp_ok [OF assms(1) _ assms(2,3), of "(e, s)"] by simp
  then obtain rc c' e' s' where c: "redisContextConnectBindTcp A S c addr port timeout source_addr (e, s) = Some (rc, c', (e', s'))"
    "opn s' = opn s \<or> owned opn (opn s) c' (e', s')"
    "rc = REDIS_OK \<and> c_err c' = c_err c \<and> has_flag (c_flags c') REDIS_CONNECTED \<and> owned opn (opn s) c' (e', s') \<and> 0 \<le> c_fd c' \<or>
     rc = REDIS_ERR \<and> (c_err c' \<noteq> 0 \<or> has_flag (c_flags c) REDIS_REUSEADDR)" unfolding connected_def by auto
  have "opn s \<subseteq> opn s' \<and> opn s' \<subseteq> insert (c_fd c') (opn s)" using c(2) by (auto simp: owned_def split: if_splits)
  moreover have "rc = REDIS_OK \<longrightarrow> c_fd c' \<in> opn s' - opn s" using c(3) by (auto simp: owned_def redis_codes)
  moreover have "REDIS_OK \<noteq> REDIS_ERR" by (simp add: redis_codes)
  ultimately show ?thesis
    using c(3) by (auto simp: c(1))
qed

text \<open>A network for the witnesses: the state is the list of open descriptors, every call succeeds.\<close>

definition net0 :: "int list sys" where
  "net0 =
     \<lparr>sys_read = \<lambda>fd n s. (Inr [], s), sys_write = \<lambda>fd xs s. (Inr (length xs), s),
      sys_close = \<lambda>fd s. removeAll fd s,
      sys_socket = \<lambda>f s. (let d = 1 + foldr max s 0 in (Inr d, d # s)),
      sys_setsockopt = \<lambda>fd x s. (Inr (), s), sys_so_error = \<lambda>fd s. (Inr 0, s),
      sys_getfl = \<lambda>fd s. (Inr 0, s), sys_setfl = \<lambda>fd f s. (Inr (), s),
      sys_getaddrinfo = \<lambda>h p f s. (Inr [\<lparr>ai_family = f, ai_addr = Inet ''a''\<rparr>], s), sys_bind = \<lambda>fd a s. (Inr (), s),
      sys_connect = \<lambda>fd a s. (Inr (), s), sys_poll = \<lambda>fd t s. (Inr 1, s),
      sys_strerror = \<lambda>e. [], sys_gai_strerror = \<lambda>e. []\<rparr>"

lemma foldr_max: "x \<in> set xs \<Longrightarrow> x \<le> foldr max xs (0 :: int)" "0 \<le> foldr max xs (0 :: int)"
  by (induction xs) (auto simp: le_max_iff_disj)

lemma net0_tracks: "tracks net0 set"
  using foldr_max by (fastforce simp: tracks_def net0_def keeps_def Let_def)

theorem tcp_connect_owns_witness:
  "\<exists>rc c' e' s'. redisContextConnectBindTcp heap0 net0
      \<lparr>c_err = 0, c_errstr = replicate 128 NUL, c_fd = 0, c_flags = REDIS_BLOCK, c_obuf = None, c_reader = None,
       c_connection_type = REDIS_CONN_TCP, c_timeout = None, c_host = None, c_source_addr = None, c_port = 0, c_path = None\<rparr>
      (Given ''h'') 6379 (Some (Given \<lparr>tv_sec = 1, tv_usec = 500\<rparr>)) None (0, [7]) = Some (rc, c', (e', s')) \<and>
    set s' \<subseteq> {7, c_fd c'} \<and> (rc = REDIS_ERR \<longrightarrow> c_err c' \<noteq> 0)"
proof -
  have r: "\<not> has_flag REDIS_BLOCK REDIS_REUSEADDR" by (simp add: flag_bits) (simp add: REDIS_BLOCK_def)
  show ?thesis
    using tcp_connect_owns [OF net0_tracks roomy_heap0, of "\<lparr>c_err = 0, c_errstr = replicate 128 NUL, c_fd = 0, c_flags = REDIS_BLOCK,
       c_obuf = None, c_reader = None, c_connection_type = REDIS_CONN_TCP, c_timeout = None, c_host = None, c_source_addr = None,
       c_port = 0, c_path = None\<rparr>" "Some (Given \<lparr>tv_sec = 1, tv_usec = 500\<rparr>)" "Given ''h''" 6379 None 0 "[7]"] r
    by (auto simp: timeout_ok_def)
qed

text \<open>
  A bad timeout for a local socket goes unreported: with more than a million microseconds
  redisConnectUnixWithTimeout gives a context whose error field says that all is well, although
  its socket was never connected.
\<close>

theorem unix_bad_timeout_silent:
  assumes "redisContextInit A = Some c" "roomy A" "tv_usec tv > 1000000" "sys_socket S AF_LOCAL s = (Inr d, s1)"
    "sys_getfl S d s1 = (Inr fl, s2)" "sys_setfl S d (set_flag fl O_NONBLOCK) s2 = (Inr (), s3)"
  shows "\<exists>c'. redisConnectUnixWithTimeout A S path tv (e, s) = Some (Some c', (e, s3)) \<and>
    c_err c' = 0 \<and> \<not> has_flag (c_flags c') REDIS_CONNECTED \<and> c_fd c' = d"
proof -
  have c: "c_err c = 0" "c_flags c = 0" "c_timeout c = None"
    using assms(1) by (auto simp: redisContextInit_def Let_def split: option.splits if_splits)
  have "serves A 16" using assms(2) by (simp add: roomy_def)
  then show ?thesis
    using assms(1,3-6) c
    by (simp add: redisConnectUnixWithTimeout_def with_context_def redisContextConnectUnix_def redisCreateSocket_def
        sys_call_def AF_LOCAL_def AF_INET_def redisSetBlocking_def keep_timeout_def redisContextTimeoutMsec_def redis_codes flag_bits)
qed

theorem unix_bad_timeout_silent_witness:
  "\<exists>c'. redisConnectUnixWithTimeout heap0 net0 ''/tmp/redis.sock'' \<lparr>tv_sec = 0, tv_usec = 1000001\<rparr> (0, []) = Some (Some c', (0, [1])) \<and>
    c_err c' = 0 \<and> \<not> has_flag (c_flags c') REDIS_CONNECTED"
proof -
  obtain c where "redisContextInit heap0 = Some c" using witness_context by blast
  from unix_bad_timeout_silent [OF this roomy_heap0, of "\<lparr>tv_sec = 0, tv_usec = 1000001\<rparr>" net0 "[]" 1 "[1]" 0 "[1]" "[1]"]
  show ?thesis by (simp add: net0_def) blast
qed

text \<open>
  C18. A failed reconnect leaves a stale descriptor: when the host does not resolve any more,
  redisReconnect has closed the socket but keeps its number, so redisFree closes that
  number a second time, whatever it stands for by then.
\<close>

theorem reconnect_closes_twice:
  assumes "conn b c h fs ty xs out" "0 < c_fd c" "c_connection_type c = REDIS_CONN_TCP" "c_timeout c = None"
    "\<And>hn p f s. \<exists>e. sys_getaddrinfo S hn p f s = (Inl e, s)" "roomy A"
  shows "\<exists>c' h'. redisReconnect A S c h (e, s) = Some (REDIS_ERR, c', h', (e, sys_close S (c_fd c) s)) \<and> c_fd c' = c_fd c \<and>
    (\<exists>h''. redisFree S (Some c') h' s' = Some (h'', sys_close S (c_fd c) s'))"
proof -
  obtain r where r: "c_reader c = Some r" "reading b r h fs ty xs" using assms(1) by (auto simp: conn_def)
  obtain h1 where h1: "redisReaderFree r h = Some h1" "objs h1 = b" "heap_ok h1" using redisReaderFree_ok [OF r(2)] by blast
  obtain r2 where r2: "redisReaderCreate A = Some r2" using redisReaderCreate_total [OF assms(6)] by blast
  have "reading (objs h1) r2 h1 [] (- 1) []" using reader_create(1) [OF r2] h1(3) builder_inv_idle by blast
  then obtain h2 where h2: "redisReaderFree r2 h1 = Some h2" using redisReaderFree_ok by blast
  define cR where "cR = c\<lparr>c_err := 0, c_errstr := mem_write 0 (replicate (strlen (c_errstr c)) NUL) (c_errstr c),
    c_obuf := sdsempty A, c_reader := Some r2\<rparr>"
  let ?src = "map_option (\<lambda>_. Own) (c_source_addr c) :: string arg option"
  let ?s = "sys_close S (c_fd c) s"
  define cK where "cK = keep_source A (cR\<lparr>c_connection_type := REDIS_CONN_TCP, c_port := c_port c, c_timeout := None\<rparr>) ?src"
  have K: "c_fd cK = c_fd c" "c_reader cK = Some r2"
    by (auto simp: cK_def cR_def keep_source_def split: option.splits)
  let ?port = "take 5 (decimal_int (c_port c))"
  obtain e1 rv where "sys_getaddrinfo S (c_host cK) (Some ?port) AF_INET ?s = (Inl e1, ?s)"
    "sys_getaddrinfo S (c_host c) (Some ?port) AF_INET6 ?s = (Inl rv, ?s)" using assms(5) by meson
  then have rv: "resolve S (c_host cK) (c_host c) ?port ?s = (Inl rv, ?s)" by (simp add: resolve_def)
  obtain c' where c': "redisSetError S 0 cK REDIS_ERR_OTHER (Some (sys_gai_strerror S rv @ [NUL])) = Some c'"
    using redisSetError_total by blast
  have "redisContextConnectBindTcp A S cR Own (c_port c) None ?src (e, ?s) = Some (REDIS_ERR, c', (e, ?s))"
    using rv c' by (simp add: redisContextConnectBindTcp_def keep_timeout_def redisContextTimeoutMsec_def cR_def cK_def)
  then have "redisReconnect A S c h (e, s) = Some (REDIS_ERR, c', h1, (e, ?s))"
    using r(1) h1(1) r2 assms(2-4) by (simp add: redisReconnect_def cR_def)
  moreover have "c_fd c' = c_fd c" "c_reader c' = Some r2" using redisSetError_keeps [OF c'] K by simp_all
  moreover from this have "redisFree S (Some c') h1 s' = Some (h2, sys_close S (c_fd c) s')"
    using h2 assms(2) by (simp add: redisFree_def)
  ultimately show ?thesis by blast
qed

theorem reconnect_closes_twice_witness:
  "\<exists>c c' h'. redisContextInit heap0 = Some c \<and>
    redisReconnect heap0 (script\<lparr>sys_getaddrinfo := \<lambda>h p f s. (Inl 2, s)\<rparr>) (c\<lparr>c_flags := REDIS_BLOCK, c_fd := 3\<rparr>) empty_heap (0, ([], [])) =
      Some (REDIS_ERR, c', h', (0, ([], []))) \<and> c_fd c' = 3"
proof -
  obtain c where c: "redisContextInit heap0 = Some c" using witness_context by blast
  then have "c_connection_type c = REDIS_CONN_TCP" "c_timeout c = None"
    by (auto simp: redisContextInit_def Let_def split: option.splits if_splits)
  moreover define S where "S = script\<lparr>sys_getaddrinfo := \<lambda>h p f s. (Inl 2, s)\<rparr>"
  moreover have "\<exists>e. sys_getaddrinfo S hn p f s = (Inl e, s)" "sys_close S 3 ([], []) = ([], [])" for hn p f s
    by (simp_all add: S_def script_def)
  ultimately show ?thesis
    using reconnect_closes_twice [OF witness_conn [OF c], of S heap0 0 "([], [])" "([], [])"] roomy_heap0 c by auto
qed

end
