(* ===== verification/Fifo.thy ===== *)
theory Fifo
  imports Prelude "HOL-Library.Monad_Syntax"
begin

text \<open>
  The contract of a first-in first-out queue, as the command lists of the multiplexed
  client and the callback lists of the asynchronous context rely on it: values are
  appended at the back, taken at the front, and an empty queue yields nothing. \<open>rep s xs\<close>
  says that the state \<open>s\<close> holds the values \<open>xs\<close>. The client lemma runs any sequence
  of the two operations.
\<close>

datatype 'v qop = Push 'v | Pop

text \<open>A sequence of operations on an implementation, and on a list of values.\<close>

fun run_queue :: "('v \<Rightarrow> 's \<Rightarrow> 's option) \<Rightarrow> ('s \<Rightarrow> ('v option \<times> 's) option) \<Rightarrow> 'v qop list \<Rightarrow> 's \<Rightarrow>
    ('v option list \<times> 's) option" where
  "run_queue push pop [] s = Some ([], s)"
| "run_queue push pop (Push v # ops) s = do { s \<leftarrow> push v s; run_queue push pop ops s }"
| "run_queue push pop (Pop # ops) s =
     do { (v, s) \<leftarrow> pop s; (vs, s) \<leftarrow> run_queue push pop ops s; Some (v # vs, s) }"

fun spec_queue :: "'v qop list \<Rightarrow> 'v list \<Rightarrow> 'v option list \<times> 'v list" where
  "spec_queue [] xs = ([], xs)"
| "spec_queue (Push v # ops) xs = spec_queue ops (xs @ [v])"
| "spec_queue (Pop # ops) [] = (let (vs, ys) = spec_queue ops [] in (None # vs, ys))"
| "spec_queue (Pop # ops) (x # xs) = (let (vs, ys) = spec_queue ops xs in (Some x # vs, ys))"

locale fifo_queue =
  fixes rep :: "'s \<Rightarrow> 'v list \<Rightarrow> bool"
    and push :: "'v \<Rightarrow> 's \<Rightarrow> 's option"
    and pop :: "'s \<Rightarrow> ('v option \<times> 's) option"
    and cap :: nat
  assumes push_ok: "rep s xs \<Longrightarrow> length xs < cap \<Longrightarrow> \<exists>s'. push v s = Some s' \<and> rep s' (xs @ [v])"
    and pop_ok: "rep s (x # xs) \<Longrightarrow> \<exists>s'. pop s = Some (Some x, s') \<and> rep s' xs"
    and pop_empty: "rep s [] \<Longrightarrow> \<exists>s'. pop s = Some (None, s') \<and> rep s' []"
begin

lemma pop_any:
  assumes "rep s xs"
  shows "\<exists>s'. pop s = Some (case xs of [] \<Rightarrow> None | x # _ \<Rightarrow> Some x, s') \<and> rep s' (tl xs)"
  using assms pop_ok pop_empty by (cases xs) auto

lemma run_fifo:
  assumes "rep s xs" "length xs + length ops \<le> cap"
  shows "\<exists>s'. run_queue push pop ops s = Some (fst (spec_queue ops xs), s') \<and> rep s' (snd (spec_queue ops xs))"
  using assms
proof (induction ops xs arbitrary: s rule: spec_queue.induct)
  case (2 v ops xs)
  obtain s1 where "push v s = Some s1" "rep s1 (xs @ [v])" using push_ok [OF 2(2)] 2(3) by auto
  then show ?case using "2.IH" [of s1] 2(3) by simp
next
  case (3 ops)
  obtain s1 where "pop s = Some (None, s1)" "rep s1 []" using pop_empty [OF 3(2)] by auto
  then show ?case using "3.IH" [of s1] 3(3) by (auto split: prod.splits)
next
  case (4 ops x xs)
  obtain s1 where "pop s = Some (Some x, s1)" "rep s1 xs" using pop_ok [OF 4(2)] by auto
  then show ?case using "4.IH" [of s1] 4(3) by (auto split: prod.splits)
qed simp

text \<open>Filling and then draining returns the values in the order they were put in.\<close>

lemma spec_push_all: "spec_queue (map Push vs @ ops) xs = spec_queue ops (xs @ vs)"
  by (induction vs arbitrary: xs) auto

lemma spec_pop_all: "spec_queue (replicate (length xs) Pop) xs = (map Some xs, [])"
  by (induction xs) auto

lemma fifo_order:
  assumes "rep s []" "2 * length vs \<le> cap"
  shows "\<exists>s'. run_queue push pop (map Push vs @ replicate (length vs) Pop) s = Some (map Some vs, s') \<and> rep s' []"
  using run_fifo [OF assms(1), of "map Push vs @ replicate (length vs) Pop"] assms(2)
  by (simp add: spec_push_all spec_pop_all)

end

end
