(* ===== verification/Adlist.thy ===== *)
theory Adlist
  imports Fifo
begin

text \<open>
  The doubly linked list of list.h and list.c. Nodes, list headers and iterators live in
  an explicit heap, addressed by pointers, so that two lists (and the two ends of one)
  can be updated through shared nodes. An allocation may be refused at any request: the
  field \<open>lh_grants\<close> says which. \<open>None\<close> is a fault: an access through NULL or to
  a freed object, a double free, or a traversal that never ends. The methods \<^verbatim>\<open>dup\<close>,
  \<^verbatim>\<open>free\<close> and \<^verbatim>\<open>match\<close> belong to the owner of the values; they work on the owner's
  state, the field \<open>lh_user\<close>, and do not touch the list.
\<close>

section \<open>Data\<close>

record listNode =
  ln_prev :: ptr
  ln_next :: ptr
  ln_value :: ptr

record listIter =
  li_next :: ptr
  li_direction :: int

record 'w adlist =
  al_head :: ptr
  al_tail :: ptr
  al_dup :: "(ptr \<Rightarrow> 'w \<Rightarrow> ptr \<times> 'w) option"
  al_free :: "(ptr \<Rightarrow> 'w \<Rightarrow> 'w) option"
  al_match :: "(ptr \<Rightarrow> ptr \<Rightarrow> 'w \<Rightarrow> int) option"
  al_len :: nat

definition AL_START_HEAD :: int where "AL_START_HEAD = 0"
definition AL_START_TAIL :: int where "AL_START_TAIL = 1"

record 'w lheap =
  lh_nodes :: "ptr \<rightharpoonup> listNode"
  lh_lists :: "ptr \<rightharpoonup> 'w adlist"
  lh_iters :: "ptr \<rightharpoonup> listIter"
  lh_fresh :: ptr
  lh_requests :: nat
  lh_grants :: "nat \<Rightarrow> bool"
  lh_user :: 'w

section \<open>Heap access\<close>

text \<open>
  \<^verbatim>\<open>malloc\<close>: a fresh address or NULL. What a fresh node holds before its fields are set
  is the first argument of \<open>new_node\<close>.
\<close>

definition lh_malloc :: "'w lheap \<Rightarrow> ptr \<times> 'w lheap" where
  "lh_malloc h =
     (if lh_grants h (lh_requests h)
      then (lh_fresh h, h\<lparr>lh_fresh := lh_fresh h + 1, lh_requests := lh_requests h + 1\<rparr>)
      else (NULL, h\<lparr>lh_requests := lh_requests h + 1\<rparr>))"

definition put_node :: "ptr \<Rightarrow> listNode \<Rightarrow> 'w lheap \<Rightarrow> 'w lheap" where
  "put_node p n h = h\<lparr>lh_nodes := (lh_nodes h)(p \<mapsto> n)\<rparr>"

definition node_upd :: "(listNode \<Rightarrow> listNode) \<Rightarrow> ptr \<Rightarrow> 'w lheap \<Rightarrow> 'w lheap option" where
  "node_upd f p h = (case lh_nodes h p of Some n \<Rightarrow> Some (put_node p (f n) h) | None \<Rightarrow> None)"

definition list_upd :: "('w adlist \<Rightarrow> 'w adlist) \<Rightarrow> ptr \<Rightarrow> 'w lheap \<Rightarrow> 'w lheap option" where
  "list_upd f l h =
     (case lh_lists h l of Some L \<Rightarrow> Some (h\<lparr>lh_lists := (lh_lists h)(l \<mapsto> f L)\<rparr>) | None \<Rightarrow> None)"

definition node_free :: "ptr \<Rightarrow> 'w lheap \<Rightarrow> 'w lheap option" where
  "node_free p h =
     (case lh_nodes h p of Some n \<Rightarrow> Some (h\<lparr>lh_nodes := (lh_nodes h)(p := None)\<rparr>) | None \<Rightarrow> None)"

text \<open>\<^verbatim>\<open>if (list->free) list->free(value)\<close>.\<close>

definition value_free :: "'w adlist \<Rightarrow> ptr \<Rightarrow> 'w lheap \<Rightarrow> 'w lheap" where
  "value_free L v h =
     (case al_free L of Some fr \<Rightarrow> h\<lparr>lh_user := fr v (lh_user h)\<rparr> | None \<Rightarrow> h)"

section \<open>Creating and releasing\<close>

definition listCreate :: "'w lheap \<Rightarrow> ptr \<times> 'w lheap" where
  "listCreate h =
     (let (l, h) = lh_malloc h
      in if l = NULL then (NULL, h)
         else (l, h\<lparr>lh_lists := (lh_lists h)(l \<mapsto>
                 \<lparr>al_head = NULL, al_tail = NULL, al_dup = None, al_free = None, al_match = None, al_len = 0\<rparr>)\<rparr>))"

fun empty_loop :: "'w adlist \<Rightarrow> nat \<Rightarrow> ptr \<Rightarrow> 'w lheap \<Rightarrow> 'w lheap option" where
  "empty_loop L 0 current h = Some h"
| "empty_loop L (Suc len) current h =
     do {
       n \<leftarrow> lh_nodes h current;
       let next = ln_next n;
       let h = value_free L (ln_value n) h;
       h \<leftarrow> node_free current h;
       empty_loop L len next h
     }"

definition listEmpty :: "ptr \<Rightarrow> 'w lheap \<Rightarrow> 'w lheap option" where
  "listEmpty l h =
     do {
       L \<leftarrow> lh_lists h l;
       h \<leftarrow> empty_loop L (al_len L) (al_head L) h;
       list_upd (\<lambda>L. L\<lparr>al_head := NULL, al_tail := NULL, al_len := 0\<rparr>) l h
     }"

definition listRelease :: "ptr \<Rightarrow> 'w lheap \<Rightarrow> 'w lheap option" where
  "listRelease l h =
     do { h \<leftarrow> listEmpty l h; Some (h\<lparr>lh_lists := (lh_lists h)(l := None)\<rparr>) }"

section \<open>Adding and removing nodes\<close>

text \<open>\<open>g\<close> is the uninitialised contents of the block.\<close>

definition new_node :: "listNode \<Rightarrow> 'w lheap \<Rightarrow> ptr \<times> 'w lheap" where
  "new_node g h = (let (p, h) = lh_malloc h in (p, if p = NULL then h else put_node p g h))"

definition list_inc :: "'w adlist \<Rightarrow> 'w adlist" where
  "list_inc L = L\<lparr>al_len := u64 (al_len L + 1)\<rparr>"

definition listAddNodeHead :: "listNode \<Rightarrow> ptr \<Rightarrow> ptr \<Rightarrow> 'w lheap \<Rightarrow> (ptr \<times> 'w lheap) option" where
  "listAddNodeHead g l value h =
     (let (node, h) = new_node g h
      in if node = NULL then Some (NULL, h)
         else do {
           h \<leftarrow> node_upd (\<lambda>n. n\<lparr>ln_value := value\<rparr>) node h;
           L \<leftarrow> lh_lists h l;
           h \<leftarrow> (if al_len L = 0
                 then do {
                   h \<leftarrow> list_upd (\<lambda>L. L\<lparr>al_head := node, al_tail := node\<rparr>) l h;
                   node_upd (\<lambda>n. n\<lparr>ln_prev := NULL, ln_next := NULL\<rparr>) node h
                 }
                 else do {
                   h \<leftarrow> node_upd (\<lambda>n. n\<lparr>ln_prev := NULL, ln_next := al_head L\<rparr>) node h;
                   h \<leftarrow> node_upd (\<lambda>n. n\<lparr>ln_prev := node\<rparr>) (al_head L) h;
                   list_upd (\<lambda>L. L\<lparr>al_head := node\<rparr>) l h
                 });
           h \<leftarrow> list_upd list_inc l h;
           Some (l, h)
         })"

definition listAddNodeTail :: "listNode \<Rightarrow> ptr \<Rightarrow> ptr \<Rightarrow> 'w lheap \<Rightarrow> (ptr \<times> 'w lheap) option" where
  "listAddNodeTail g l value h =
     (let (node, h) = new_node g h
      in if node = NULL then Some (NULL, h)
         else do {
           h \<leftarrow> node_upd (\<lambda>n. n\<lparr>ln_value := value\<rparr>) node h;
           L \<leftarrow> lh_lists h l;
           h \<leftarrow> (if al_len L = 0
                 then do {
                   h \<leftarrow> list_upd (\<lambda>L. L\<lparr>al_head := node, al_tail := node\<rparr>) l h;
                   node_upd (\<lambda>n. n\<lparr>ln_prev := NULL, ln_next := NULL\<rparr>) node h
                 }
                 else do {
                   h \<leftarrow> node_upd (\<lambda>n. n\<lparr>ln_prev := al_tail L, ln_next := NULL\<rparr>) node h;
                   h \<leftarrow> node_upd (\<lambda>n. n\<lparr>ln_next := node\<rparr>) (al_tail L) h;
                   list_upd (\<lambda>L. L\<lparr>al_tail := node\<rparr>) l h
                 });
           h \<leftarrow> list_upd list_inc l h;
           Some (l, h)
         })"

definition listInsertNode ::
    "listNode \<Rightarrow> ptr \<Rightarrow> ptr \<Rightarrow> ptr \<Rightarrow> bool \<Rightarrow> 'w lheap \<Rightarrow> (ptr \<times> 'w lheap) option" where
  "listInsertNode g l old_node value after h =
     (let (node, h) = new_node g h
      in if node = NULL then Some (NULL, h)
         else do {
           h \<leftarrow> node_upd (\<lambda>n. n\<lparr>ln_value := value\<rparr>) node h;
           old_n \<leftarrow> lh_nodes h old_node;
           L \<leftarrow> lh_lists h l;
           h \<leftarrow> (if after
                 then do {
                   h \<leftarrow> node_upd (\<lambda>n. n\<lparr>ln_prev := old_node, ln_next := ln_next old_n\<rparr>) node h;
                   if al_tail L = old_node then list_upd (\<lambda>L. L\<lparr>al_tail := node\<rparr>) l h else Some h
                 }
                 else do {
                   h \<leftarrow> node_upd (\<lambda>n. n\<lparr>ln_next := old_node, ln_prev := ln_prev old_n\<rparr>) node h;
                   if al_head L = old_node then list_upd (\<lambda>L. L\<lparr>al_head := node\<rparr>) l h else Some h
                 });
           n \<leftarrow> lh_nodes h node;
           h \<leftarrow> (if ln_prev n \<noteq> NULL then node_upd (\<lambda>n. n\<lparr>ln_next := node\<rparr>) (ln_prev n) h else Some h);
           h \<leftarrow> (if ln_next n \<noteq> NULL then node_upd (\<lambda>n. n\<lparr>ln_prev := node\<rparr>) (ln_next n) h else Some h);
           h \<leftarrow> list_upd list_inc l h;
           Some (l, h)
         })"

definition listDelNode :: "ptr \<Rightarrow> ptr \<Rightarrow> 'w lheap \<Rightarrow> 'w lheap option" where
  "listDelNode l node h =
     do {
       n \<leftarrow> lh_nodes h node;
       h \<leftarrow> (if ln_prev n \<noteq> NULL then node_upd (\<lambda>m. m\<lparr>ln_next := ln_next n\<rparr>) (ln_prev n) h
             else list_upd (\<lambda>L. L\<lparr>al_head := ln_next n\<rparr>) l h);
       h \<leftarrow> (if ln_next n \<noteq> NULL then node_upd (\<lambda>m. m\<lparr>ln_prev := ln_prev n\<rparr>) (ln_next n) h
             else list_upd (\<lambda>L. L\<lparr>al_tail := ln_prev n\<rparr>) l h);
       L \<leftarrow> lh_lists h l;
       let h = value_free L (ln_value n) h;
       h \<leftarrow> node_free node h;
       list_upd (\<lambda>L. L\<lparr>al_len := to_size (int (al_len L) - 1)\<rparr>) l h
     }"

section \<open>Iterators\<close>

definition listGetIterator :: "ptr \<Rightarrow> int \<Rightarrow> 'w lheap \<Rightarrow> (ptr \<times> 'w lheap) option" where
  "listGetIterator l direction h =
     (let (i, h) = lh_malloc h
      in if i = NULL then Some (NULL, h)
         else do {
           L \<leftarrow> lh_lists h l;
           let next = (if direction = AL_START_HEAD then al_head L else al_tail L);
           Some (i, h\<lparr>lh_iters := (lh_iters h)(i \<mapsto> \<lparr>li_next = next, li_direction = direction\<rparr>)\<rparr>)
         })"

definition listReleaseIterator :: "ptr \<Rightarrow> 'w lheap \<Rightarrow> 'w lheap option" where
  "listReleaseIterator i h =
     (if i = NULL then Some h
      else case lh_iters h i of
             Some it \<Rightarrow> Some (h\<lparr>lh_iters := (lh_iters h)(i := None)\<rparr>) | None \<Rightarrow> None)"

text \<open>\<^verbatim>\<open>listRewind\<close> and \<^verbatim>\<open>listNext\<close> work on an iterator the caller holds.\<close>

definition listRewind :: "ptr \<Rightarrow> 'w lheap \<Rightarrow> listIter option" where
  "listRewind l h =
     do { L \<leftarrow> lh_lists h l; Some \<lparr>li_next = al_head L, li_direction = AL_START_HEAD\<rparr> }"

definition listRewindTail :: "ptr \<Rightarrow> 'w lheap \<Rightarrow> listIter option" where
  "listRewindTail l h =
     do { L \<leftarrow> lh_lists h l; Some \<lparr>li_next = al_tail L, li_direction = AL_START_TAIL\<rparr> }"

definition listNext :: "'w lheap \<Rightarrow> listIter \<Rightarrow> (ptr \<times> listIter) option" where
  "listNext h iter =
     (let current = li_next iter
      in if current = NULL then Some (NULL, iter)
         else do {
           n \<leftarrow> lh_nodes h current;
           Some (current, iter\<lparr>li_next := if li_direction iter = AL_START_HEAD then ln_next n else ln_prev n\<rparr>)
         })"

section \<open>Duplicating, searching, indexing\<close>

partial_function (option) dup_loop ::
    "(ptr \<Rightarrow> listNode) \<Rightarrow> ptr \<Rightarrow> listIter \<Rightarrow> 'w lheap \<Rightarrow> (ptr \<times> 'w lheap) option" where
  "dup_loop g copy iter h =
     do {
       (node, iter) \<leftarrow> listNext h iter;
       if node = NULL then Some (copy, h)
       else do {
         n \<leftarrow> lh_nodes h node;
         C \<leftarrow> lh_lists h copy;
         let (value, h) =
           (case al_dup C of
              Some dp \<Rightarrow> (let (v, w) = dp (ln_value n) (lh_user h) in (Some v, h\<lparr>lh_user := w\<rparr>))
            | None \<Rightarrow> (None, h));
         if value = Some NULL then do { h \<leftarrow> listRelease copy h; Some (NULL, h) }
         else do {
           (r, h) \<leftarrow> listAddNodeTail (g node) copy (case value of Some v \<Rightarrow> v | None \<Rightarrow> ln_value n) h;
           if r = NULL then do { h \<leftarrow> listRelease copy h; Some (NULL, h) }
           else dup_loop g copy iter h
         }
       }
     }"

definition listDup :: "(ptr \<Rightarrow> listNode) \<Rightarrow> ptr \<Rightarrow> 'w lheap \<Rightarrow> (ptr \<times> 'w lheap) option" where
  "listDup g orig h =
     (let (copy, h) = listCreate h
      in if copy = NULL then Some (NULL, h)
         else do {
           L \<leftarrow> lh_lists h orig;
           h \<leftarrow> list_upd (\<lambda>C. C\<lparr>al_dup := al_dup L, al_free := al_free L, al_match := al_match L\<rparr>) copy h;
           iter \<leftarrow> listRewind orig h;
           dup_loop g copy iter h
         })"

partial_function (option) search_loop ::
    "'w adlist \<Rightarrow> ptr \<Rightarrow> listIter \<Rightarrow> 'w lheap \<Rightarrow> ptr option" where
  "search_loop L key iter h =
     do {
       (node, iter) \<leftarrow> listNext h iter;
       if node = NULL then Some NULL
       else do {
         n \<leftarrow> lh_nodes h node;
         if (case al_match L of
               Some m \<Rightarrow> m (ln_value n) key (lh_user h) \<noteq> 0
             | None \<Rightarrow> key = ln_value n)
         then Some node
         else search_loop L key iter h
       }
     }"

definition listSearchKey :: "ptr \<Rightarrow> ptr \<Rightarrow> 'w lheap \<Rightarrow> ptr option" where
  "listSearchKey l key h =
     do { L \<leftarrow> lh_lists h l; iter \<leftarrow> listRewind l h; search_loop L key iter h }"

text \<open>\<^verbatim>\<open>while(index-- && n) n = step(n)\<close>; the index is never negative there.\<close>

fun index_loop :: "(listNode \<Rightarrow> ptr) \<Rightarrow> nat \<Rightarrow> ptr \<Rightarrow> 'w lheap \<Rightarrow> ptr option" where
  "index_loop step 0 n h = Some n"
| "index_loop step (Suc k) n h =
     (if n = NULL then Some n else do { m \<leftarrow> lh_nodes h n; index_loop step k (step m) h })"

definition listIndex :: "ptr \<Rightarrow> int \<Rightarrow> 'w lheap \<Rightarrow> ptr option" where
  "listIndex l index h =
     do {
       L \<leftarrow> lh_lists h l;
       if index < 0 then index_loop ln_prev (nat (s64 (s64 (- index) - 1))) (al_tail L) h
       else index_loop ln_next (nat index) (al_head L) h
     }"

section \<open>Rotating and joining\<close>

definition listRotate :: "ptr \<Rightarrow> 'w lheap \<Rightarrow> 'w lheap option" where
  "listRotate l h =
     do {
       L \<leftarrow> lh_lists h l;
       let tail = al_tail L;
       if al_len L \<le> 1 then Some h
       else do {
         t \<leftarrow> lh_nodes h tail;
         h \<leftarrow> list_upd (\<lambda>L. L\<lparr>al_tail := ln_prev t\<rparr>) l h;
         h \<leftarrow> node_upd (\<lambda>n. n\<lparr>ln_next := NULL\<rparr>) (ln_prev t) h;
         h \<leftarrow> node_upd (\<lambda>n. n\<lparr>ln_prev := tail\<rparr>) (al_head L) h;
         h \<leftarrow> node_upd (\<lambda>n. n\<lparr>ln_prev := NULL, ln_next := al_head L\<rparr>) tail h;
         list_upd (\<lambda>L. L\<lparr>al_head := tail\<rparr>) l h
       }
     }"

definition listJoin :: "ptr \<Rightarrow> ptr \<Rightarrow> 'w lheap \<Rightarrow> 'w lheap option" where
  "listJoin l other h =
     do {
       L \<leftarrow> lh_lists h l;
       O1 \<leftarrow> lh_lists h other;
       h \<leftarrow> (if al_head O1 \<noteq> NULL then node_upd (\<lambda>n. n\<lparr>ln_prev := al_tail L\<rparr>) (al_head O1) h else Some h);
       h \<leftarrow> (if al_tail L \<noteq> NULL then node_upd (\<lambda>n. n\<lparr>ln_next := al_head O1\<rparr>) (al_tail L) h
             else list_upd (\<lambda>L. L\<lparr>al_head := al_head O1\<rparr>) l h);
       h \<leftarrow> list_upd (\<lambda>L. L\<lparr>al_tail := al_tail O1, al_len := u64 (al_len L + al_len O1)\<rparr>) l h;
       list_upd (\<lambda>X. X\<lparr>al_head := NULL, al_tail := NULL, al_len := 0\<rparr>) other h
     }"

section \<open>What a list in the heap stands for\<close>

text \<open>
  The nodes \<open>xs\<close>, as pairs of address and value, hang together from \<open>p\<close> (the node
  before the first) to \<open>q\<close> (the node behind the last).
\<close>

fun fstp :: "(ptr \<times> ptr) list \<Rightarrow> ptr \<Rightarrow> ptr" where
  "fstp [] q = q"
| "fstp ((x, v) # xs) q = x"

fun lastp :: "ptr \<Rightarrow> (ptr \<times> ptr) list \<Rightarrow> ptr" where
  "lastp p [] = p"
| "lastp p ((x, v) # xs) = lastp x xs"

fun dseg :: "(ptr \<rightharpoonup> listNode) \<Rightarrow> ptr \<Rightarrow> (ptr \<times> ptr) list \<Rightarrow> ptr \<Rightarrow> bool" where
  "dseg N p [] q \<longleftrightarrow> True"
| "dseg N p ((x, v) # xs) q \<longleftrightarrow>
     N x = Some \<lparr>ln_prev = p, ln_next = fstp xs q, ln_value = v\<rparr> \<and> dseg N x xs q"

abbreviation addrs :: "(ptr \<times> ptr) list \<Rightarrow> ptr set" where
  "addrs xs \<equiv> fst ` set xs"

definition hdr :: "'w adlist \<Rightarrow> (ptr \<times> ptr) list \<Rightarrow> 'w adlist" where
  "hdr L xs = L\<lparr>al_head := fstp xs NULL, al_tail := lastp NULL xs, al_len := length xs\<rparr>"

definition list_is :: "'w lheap \<Rightarrow> ptr \<Rightarrow> 'w adlist \<Rightarrow> (ptr \<times> ptr) list \<Rightarrow> bool" where
  "list_is h l L xs \<longleftrightarrow> lh_lists h l = Some (hdr L xs) \<and> dseg (lh_nodes h) NULL xs NULL \<and>
     distinct (map fst xs) \<and> NULL \<notin> addrs xs"

text \<open>Every allocated address is below the next fresh one.\<close>

definition lheap_ok :: "'w lheap \<Rightarrow> bool" where
  "lheap_ok h \<longleftrightarrow> 0 < lh_fresh h \<and>
     (\<forall>p \<in> dom (lh_nodes h) \<union> dom (lh_lists h) \<union> dom (lh_iters h). 0 < p \<and> p < lh_fresh h)"

text \<open>An operation on the list \<open>l\<close> with nodes \<open>P\<close> leaves every other list and node alone.\<close>

definition untouched :: "ptr \<Rightarrow> ptr set \<Rightarrow> 'w lheap \<Rightarrow> 'w lheap \<Rightarrow> bool" where
  "untouched l P h h' \<longleftrightarrow> (\<forall>p. p \<notin> P \<longrightarrow> p \<noteq> lh_fresh h \<longrightarrow> lh_nodes h' p = lh_nodes h p) \<and>
     (\<forall>k. k \<noteq> l \<longrightarrow> lh_lists h' k = lh_lists h k)"

named_theorems seg_simps \<open>segments of nodes\<close>

lemma fstp_append [seg_simps]: "fstp (xs @ ys) q = fstp xs (fstp ys q)"
  by (cases xs) auto

lemma lastp_append [seg_simps]: "lastp p (xs @ ys) = lastp (lastp p xs) ys"
  by (induction p xs rule: lastp.induct) auto

lemma dseg_append [seg_simps]:
  "dseg N p (xs @ ys) q \<longleftrightarrow> dseg N p xs (fstp ys q) \<and> dseg N (lastp p xs) ys q"
  by (induction xs arbitrary: p) (auto simp: seg_simps)

lemma dseg_upd [simp]: "x \<notin> addrs xs \<Longrightarrow> dseg (N(x := n)) p xs q = dseg N p xs q"
  by (induction xs arbitrary: p) auto

lemma dseg_cong: "(\<And>x. x \<in> addrs xs \<Longrightarrow> N' x = N x) \<Longrightarrow> dseg N' p xs q = dseg N p xs q"
  by (induction xs arbitrary: p) auto

lemma dseg_dom: "dseg N p xs q \<Longrightarrow> addrs xs \<subseteq> dom N"
  by (induction xs arbitrary: p) force+

lemma lastp_in: "xs \<noteq> [] \<Longrightarrow> lastp p xs \<in> addrs xs"
  by (induction xs arbitrary: p rule: list_nonempty_induct) (auto simp: neq_Nil_conv)

lemma fstp_in: "xs \<noteq> [] \<Longrightarrow> fstp xs q \<in> addrs xs"
  by (cases xs) auto

lemma hdr_sel [simp]:
  "al_head (hdr L xs) = fstp xs NULL" "al_tail (hdr L xs) = lastp NULL xs" "al_len (hdr L xs) = length xs"
  "al_dup (hdr L xs) = al_dup L" "al_free (hdr L xs) = al_free L" "al_match (hdr L xs) = al_match L"
  by (simp_all add: hdr_def)

lemma list_isD:
  assumes "list_is h l L xs"
  shows "lh_lists h l = Some (hdr L xs)" "dseg (lh_nodes h) NULL xs NULL" "distinct (map fst xs)"
    "NULL \<notin> addrs xs" "addrs xs \<subseteq> dom (lh_nodes h)"
  using assms dseg_dom [of "lh_nodes h" NULL xs NULL] by (simp_all add: list_is_def)

text \<open>A list survives what is done to others.\<close>

lemma list_is_untouched:
  assumes "lheap_ok h" "list_is h k K ys" "untouched l P h h'" "k \<noteq> l" "P \<inter> addrs ys = {}"
  shows "list_is h' k K ys"
proof -
  note K = list_isD [OF assms(2)]
  have f: "lh_fresh h \<notin> dom (lh_nodes h)" using assms(1) unfolding lheap_ok_def by blast
  have "lh_nodes h' p = lh_nodes h p" if "p \<in> addrs ys" for p
  proof -
    have "p \<notin> P" "p \<noteq> lh_fresh h" using that assms(5) K(5) f by blast+
    then show ?thesis using assms(3) by (simp add: untouched_def)
  qed
  then have "dseg (lh_nodes h') NULL ys NULL" using K(2) dseg_cong by metis
  moreover have "lh_lists h' k = lh_lists h k" using assms(3,4) by (simp add: untouched_def)
  ultimately show ?thesis using K by (simp add: list_is_def)
qed

lemma list_is_nil [simp]: "list_is h l L [] \<longleftrightarrow> lh_lists h l = Some (hdr L [])"
  by (simp add: list_is_def)

section \<open>Every operation does what it says to the sequence\<close>

lemmas heap_defs = node_upd_def put_node_def list_upd_def node_free_def

lemma lheap_okI:
  assumes "lheap_ok h" "lh_fresh h \<le> lh_fresh h'"
    "dom (lh_nodes h') \<subseteq> dom (lh_nodes h) \<union> {lh_fresh h..<lh_fresh h'}"
    "dom (lh_lists h') \<subseteq> dom (lh_lists h) \<union> {lh_fresh h..<lh_fresh h'}"
    "dom (lh_iters h') \<subseteq> dom (lh_iters h) \<union> {lh_fresh h..<lh_fresh h'}"
  shows "lheap_ok h'"
proof -
  define D where "D = dom (lh_nodes h) \<union> dom (lh_lists h) \<union> dom (lh_iters h)"
  define D' where "D' = dom (lh_nodes h') \<union> dom (lh_lists h') \<union> dom (lh_iters h')"
  have sub: "D' \<subseteq> D \<union> {lh_fresh h..<lh_fresh h'}" unfolding D_def D'_def using assms(3-5) by blast
  have f: "0 < lh_fresh h" and D: "\<And>p. p \<in> D \<Longrightarrow> 0 < p \<and> p < lh_fresh h"
    using assms(1) by (simp_all only: lheap_ok_def D_def)
  have "0 < p \<and> p < lh_fresh h'" if "p \<in> D'" for p
    using sub that D [of p] f assms(2) by auto
  moreover have "0 < lh_fresh h'" using f assms(2) by simp
  ultimately show ?thesis unfolding lheap_ok_def D'_def by blast
qed

lemma new_node_cases:
  assumes "lheap_ok h"
  obtains "new_node g h = (NULL, h\<lparr>lh_requests := lh_requests h + 1\<rparr>)" "\<not> lh_grants h (lh_requests h)"
  | "new_node g h = (lh_fresh h,
        h\<lparr>lh_nodes := (lh_nodes h)(lh_fresh h \<mapsto> g), lh_fresh := lh_fresh h + 1, lh_requests := lh_requests h + 1\<rparr>)"
      "lh_grants h (lh_requests h)" "lh_fresh h \<noteq> NULL" "lh_fresh h \<notin> dom (lh_nodes h)"
proof (cases "lh_grants h (lh_requests h)")
  case True
  have "lh_fresh h \<noteq> NULL" "lh_fresh h \<notin> dom (lh_nodes h)"
    using assms unfolding lheap_ok_def by blast+
  then show thesis using True by (intro that(2)) (auto simp: new_node_def lh_malloc_def put_node_def)
qed (intro that(1), auto simp: new_node_def lh_malloc_def)

text \<open>What an operation that adds the node \<open>lh_fresh h\<close> to a list establishes.\<close>

definition added :: "'w lheap \<Rightarrow> ptr \<Rightarrow> 'w adlist \<Rightarrow> (ptr \<times> ptr) list \<Rightarrow> (ptr \<times> ptr) list \<Rightarrow>
    (ptr \<times> 'w lheap) option \<Rightarrow> bool" where
  "added h l L xs ys r \<longleftrightarrow>
     (if lh_grants h (lh_requests h)
      then \<exists>h'. r = Some (l, h') \<and> lheap_ok h' \<and> list_is h' l L ys \<and> untouched l (addrs xs) h h' \<and>
        lh_grants h' = lh_grants h \<and> lh_requests h' = lh_requests h + 1 \<and> lh_user h' = lh_user h
      else r = Some (NULL, h\<lparr>lh_requests := lh_requests h + 1\<rparr>))"

lemma addedI:
  assumes "lheap_ok h" "list_is h l L xs" "lh_grants h (lh_requests h)"
    "\<exists>h'. r = Some (l, h') \<and> lh_nodes h' = N \<and> lh_fresh h' = lh_fresh h + 1 \<and> lh_iters h' = lh_iters h \<and>
       lh_lists h' = (lh_lists h)(l \<mapsto> hdr L ys) \<and> lh_grants h' = lh_grants h \<and>
       lh_requests h' = lh_requests h + 1 \<and> lh_user h' = lh_user h"
    "dseg N NULL ys NULL" "distinct (map fst ys)" "NULL \<notin> addrs ys"
    "\<And>p. p \<notin> addrs xs \<Longrightarrow> p \<noteq> lh_fresh h \<Longrightarrow> N p = lh_nodes h p"
  shows "added h l L xs ys r"
proof -
  obtain h' where h': "r = Some (l, h')" "lh_nodes h' = N" "lh_fresh h' = lh_fresh h + 1"
    "lh_iters h' = lh_iters h" "lh_lists h' = (lh_lists h)(l \<mapsto> hdr L ys)"
    "lh_grants h' = lh_grants h" "lh_requests h' = lh_requests h + 1" "lh_user h' = lh_user h" using assms(4) by blast
  note D = list_isD [OF assms(2)]
  have "dom N \<subseteq> dom (lh_nodes h) \<union> {lh_fresh h..<lh_fresh h'}"
  proof
    fix p assume "p \<in> dom N"
    then show "p \<in> dom (lh_nodes h) \<union> {lh_fresh h..<lh_fresh h'}"
      using assms(8) [of p] D(5) h'(3) by (cases "p \<in> addrs xs"; cases "p = lh_fresh h") auto
  qed
  moreover have "dom (lh_lists h') \<subseteq> dom (lh_lists h)" using D(1) h'(5) by auto
  ultimately have "lheap_ok h'" using h' by (intro lheap_okI [OF assms(1)]) auto
  moreover have "list_is h' l L ys" using assms h' by (simp add: list_is_def)
  moreover have "untouched l (addrs xs) h h'" using h' assms(8) by (simp add: untouched_def)
  ultimately show ?thesis using assms(3) h' by (simp add: added_def)
qed

lemma listAddNodeHead_ok:
  assumes h: "lheap_ok h" and l: "list_is h l L xs" and n: "length xs + 1 < 2 ^ 64"
  shows "added h l L xs ((lh_fresh h, v) # xs) (listAddNodeHead g l v h)"
  using h
proof (cases rule: new_node_cases [where g = g])
  case 2
  note L = list_isD [OF l]
  have p: "lh_fresh h \<notin> addrs xs" using L(5) 2(4) by blast
  have u: "u64 (Suc (length xs)) = Suc (length xs)" using n by (intro u64_id) simp
  let ?new = "\<lparr>ln_prev = NULL, ln_next = fstp xs NULL, ln_value = v\<rparr>"
  show ?thesis
  proof (cases xs)
    case Nil
    show ?thesis
      by (rule addedI [where N = "(lh_nodes h)(lh_fresh h \<mapsto> ?new)", OF h l 2(2)])
        (use 2 L u Nil in \<open>cases g; simp add: listAddNodeHead_def heap_defs hdr_def list_inc_def\<close>)+
  next
    case (Cons y ys)
    obtain x w where y: "y = (x, w)" by (cases y)
    show ?thesis
      by (rule addedI [where N = "(lh_nodes h)(lh_fresh h \<mapsto> ?new,
            x \<mapsto> \<lparr>ln_prev = lh_fresh h, ln_next = fstp ys NULL, ln_value = w\<rparr>)", OF h l 2(2)])
        (use 2 L u p Cons y in \<open>cases g; auto simp: listAddNodeHead_def heap_defs hdr_def list_inc_def\<close>)+
  qed
qed (simp add: listAddNodeHead_def added_def)

lemma listAddNodeTail_ok:
  assumes h: "lheap_ok h" and l: "list_is h l L xs" and n: "length xs + 1 < 2 ^ 64"
  shows "added h l L xs (xs @ [(lh_fresh h, v)]) (listAddNodeTail g l v h)"
  using h
proof (cases rule: new_node_cases [where g = g])
  case 2
  note L = list_isD [OF l]
  have p: "lh_fresh h \<notin> addrs xs" using L(5) 2(4) by blast
  have u: "u64 (Suc (length xs)) = Suc (length xs)" using n by (intro u64_id) simp
  let ?new = "\<lparr>ln_prev = lastp NULL xs, ln_next = NULL, ln_value = v\<rparr>"
  show ?thesis
  proof (cases xs rule: rev_cases)
    case Nil
    show ?thesis
      by (rule addedI [where N = "(lh_nodes h)(lh_fresh h \<mapsto> ?new)", OF h l 2(2)])
        (use 2 L u Nil in \<open>cases g; simp add: listAddNodeTail_def heap_defs hdr_def list_inc_def\<close>)+
  next
    case (snoc ys y)
    obtain x w where y: "y = (x, w)" by (cases y)
    show ?thesis
      by (rule addedI [where N = "(lh_nodes h)(lh_fresh h \<mapsto> ?new,
            x \<mapsto> \<lparr>ln_prev = lastp NULL ys, ln_next = lh_fresh h, ln_value = w\<rparr>)", OF h l 2(2)])
        (use 2 L u p snoc y in \<open>cases g; auto simp: listAddNodeTail_def heap_defs hdr_def list_inc_def seg_simps\<close>)+
  qed
qed (simp add: listAddNodeTail_def added_def)

lemma listInsertNode_after:
  assumes h: "lheap_ok h" and l: "list_is h l L (ys @ (old, w) # zs)"
    and n: "length (ys @ (old, w) # zs) + 1 < 2 ^ 64"
  shows "added h l L (ys @ (old, w) # zs) (ys @ (old, w) # (lh_fresh h, v) # zs) (listInsertNode g l old v True h)"
  using h
proof (cases rule: new_node_cases [where g = g])
  case 2
  note L = list_isD [OF l]
  have p: "lh_fresh h \<notin> addrs (ys @ (old, w) # zs)" using L(5) 2(4) by blast
  have u: "u64 (Suc (Suc (length ys + length zs))) = Suc (Suc (length ys + length zs))" using n by (intro u64_id) simp
  let ?N = "(lh_nodes h)(lh_fresh h \<mapsto> \<lparr>ln_prev = old, ln_next = fstp zs NULL, ln_value = v\<rparr>,
      old \<mapsto> \<lparr>ln_prev = lastp NULL ys, ln_next = lh_fresh h, ln_value = w\<rparr>)"
  show ?thesis
  proof (cases zs)
    case Nil
    show ?thesis
      by (rule addedI [where N = ?N, OF h l 2(2)])
        (use 2 L u p Nil in \<open>cases g; auto simp: listInsertNode_def heap_defs hdr_def list_inc_def seg_simps\<close>)+
  next
    case (Cons z zs')
    obtain x c where z: "z = (x, c)" by (cases z)
    have "old \<notin> addrs zs" using L(3) by simp
    then have "lastp old zs \<noteq> old" using lastp_in [of zs old] Cons by (metis list.distinct(1))
    then have ne: "lastp x zs' \<noteq> old" using Cons z by simp
    show ?thesis
    proof (rule addedI [where N = "?N(x \<mapsto> \<lparr>ln_prev = lh_fresh h, ln_next = fstp zs' NULL, ln_value = c\<rparr>)", OF h l 2(2)], goal_cases)
      case 1
      then show ?case
        using 2 L u p Cons z ne by (cases g; simp add: listInsertNode_def heap_defs hdr_def list_inc_def seg_simps)
    qed (use L p 2(3) Cons z in \<open>auto simp: seg_simps image_Un\<close>)
  qed
qed (simp add: listInsertNode_def added_def)

lemma listInsertNode_before:
  assumes h: "lheap_ok h" and l: "list_is h l L (ys @ (old, w) # zs)"
    and n: "length (ys @ (old, w) # zs) + 1 < 2 ^ 64"
  shows "added h l L (ys @ (old, w) # zs) (ys @ (lh_fresh h, v) # (old, w) # zs) (listInsertNode g l old v False h)"
  using h
proof (cases rule: new_node_cases [where g = g])
  case 2
  note L = list_isD [OF l]
  have p: "lh_fresh h \<notin> addrs (ys @ (old, w) # zs)" using L(5) 2(4) by blast
  have u: "u64 (Suc (Suc (length ys + length zs))) = Suc (Suc (length ys + length zs))" using n by (intro u64_id) simp
  let ?N = "(lh_nodes h)(lh_fresh h \<mapsto> \<lparr>ln_prev = lastp NULL ys, ln_next = old, ln_value = v\<rparr>,
      old \<mapsto> \<lparr>ln_prev = lh_fresh h, ln_next = fstp zs NULL, ln_value = w\<rparr>)"
  show ?thesis
  proof (cases ys rule: rev_cases)
    case Nil
    show ?thesis
      by (rule addedI [where N = ?N, OF h l 2(2)])
        (use 2 L u p Nil in \<open>cases g; auto simp: listInsertNode_def heap_defs hdr_def list_inc_def seg_simps\<close>)+
  next
    case (snoc ys' z)
    obtain x c where z: "z = (x, c)" by (cases z)
    have "old \<notin> addrs ys" using L(3) by simp
    then have "fstp ys old \<noteq> old" using fstp_in [of ys old] snoc by (metis append_is_Nil_conv not_Cons_self2)
    then have ne: "fstp ys' x \<noteq> old" using snoc z by (simp add: seg_simps)
    show ?thesis
    proof (rule addedI [where N = "?N(x \<mapsto> \<lparr>ln_prev = lastp NULL ys', ln_next = lh_fresh h, ln_value = c\<rparr>)", OF h l 2(2)], goal_cases)
      case 1
      then show ?case
        using 2 L u p snoc z ne by (cases g; simp add: listInsertNode_def heap_defs hdr_def list_inc_def seg_simps fun_upd_twist)
    qed (use L p 2(3) snoc z in \<open>auto simp: seg_simps image_Un\<close>)
  qed
qed (simp add: listInsertNode_def added_def)

text \<open>The owner's \<^verbatim>\<open>free\<close> method runs on the removed values.\<close>

definition free_user :: "'w adlist \<Rightarrow> (ptr \<times> ptr) list \<Rightarrow> 'w \<Rightarrow> 'w" where
  "free_user L xs w = (case al_free L of Some fr \<Rightarrow> fold fr (map snd xs) w | None \<Rightarrow> w)"

lemma free_user_simps [simp]:
  "free_user L [] w = w"
  "free_user (hdr L ys) = free_user L"
  "free_user (L\<lparr>al_len := n\<rparr>) = free_user L"
  "free_user (L\<lparr>al_head := p\<rparr>) = free_user L"
  "free_user (L\<lparr>al_tail := p\<rparr>) = free_user L"
  by (auto simp: free_user_def fun_eq_iff split: option.splits)

lemma free_user_Cons: "free_user L (x # xs) w = free_user L xs (free_user L [x] w)"
  by (simp add: free_user_def split: option.splits)

lemma value_free_eq: "value_free L v h = h\<lparr>lh_user := free_user L [(x, v)] (lh_user h)\<rparr>"
  by (simp add: value_free_def free_user_def split: option.splits)

definition removed :: "'w lheap \<Rightarrow> ptr \<Rightarrow> 'w adlist \<Rightarrow> (ptr \<times> ptr) list \<Rightarrow> ptr \<times> ptr \<Rightarrow> (ptr \<times> ptr) list \<Rightarrow>
    'w lheap option \<Rightarrow> bool" where
  "removed h l L ys x zs r \<longleftrightarrow>
     (\<exists>h'. r = Some h' \<and> lheap_ok h' \<and> list_is h' l L (ys @ zs) \<and> untouched l (addrs (ys @ x # zs)) h h' \<and>
       lh_nodes h' (fst x) = None \<and> lh_user h' = free_user L [x] (lh_user h) \<and>
       lh_grants h' = lh_grants h \<and> lh_requests h' = lh_requests h)"

lemma removedI:
  assumes "lheap_ok h" "list_is h l L (ys @ x # zs)"
    "\<exists>h'. r = Some h' \<and> lh_nodes h' = N \<and> lh_fresh h' = lh_fresh h \<and> lh_iters h' = lh_iters h \<and>
       lh_lists h' = (lh_lists h)(l \<mapsto> hdr L (ys @ zs)) \<and> lh_user h' = free_user L [x] (lh_user h) \<and>
       lh_grants h' = lh_grants h \<and> lh_requests h' = lh_requests h"
    "dseg N NULL (ys @ zs) NULL" "N (fst x) = None"
    "\<And>p. p \<notin> addrs (ys @ x # zs) \<Longrightarrow> N p = lh_nodes h p"
  shows "removed h l L ys x zs r"
proof -
  obtain h' where h': "r = Some h'" "lh_nodes h' = N" "lh_fresh h' = lh_fresh h"
    "lh_iters h' = lh_iters h" "lh_lists h' = (lh_lists h)(l \<mapsto> hdr L (ys @ zs))"
    "lh_user h' = free_user L [x] (lh_user h)" "lh_grants h' = lh_grants h" "lh_requests h' = lh_requests h"
    using assms(3) by blast
  note D = list_isD [OF assms(2)]
  have "dom N \<subseteq> dom (lh_nodes h)"
  proof
    fix p assume "p \<in> dom N"
    then show "p \<in> dom (lh_nodes h)"
      using assms(6) [of p] D(5) by (cases "p \<in> addrs (ys @ x # zs)") (blast, auto)
  qed
  moreover have "dom (lh_lists h') \<subseteq> dom (lh_lists h)" using D(1) h'(5) by auto
  ultimately have "lheap_ok h'" using h' by (intro lheap_okI [OF assms(1)]) auto
  moreover have "list_is h' l L (ys @ zs)" using D assms h' by (simp add: list_is_def)
  moreover have "untouched l (addrs (ys @ x # zs)) h h'"
    using h' assms(6) by (simp add: untouched_def)
  ultimately show ?thesis using h' assms(5) by (simp add: removed_def)
qed

lemma listDelNode_ok:
  assumes h: "lheap_ok h" and l: "list_is h l L (ys @ (x, v) # zs)" and n: "length (ys @ (x, v) # zs) < 2 ^ 64"
  shows "removed h l L ys (x, v) zs (listDelNode l x h)"
proof -
  note L = list_isD [OF l]
  have u: "to_size (int (length ys + length zs)) = length ys + length zs" using n by (simp add: to_size_id)
  note defs = listDelNode_def heap_defs seg_simps value_free_eq [where x = x] hdr_def
  show ?thesis
  proof (cases ys rule: rev_cases; cases zs)
    assume c: "ys = []" "zs = []"
    show ?thesis
      by (rule removedI [where N = "(lh_nodes h)(x := None)", OF h l]) (use L c in \<open>auto simp: defs\<close>)
  next
    fix z zs' assume c: "ys = []" "zs = z # zs'"
    obtain a b where z: "z = (a, b)" by (cases z)
    show ?thesis
      by (rule removedI [where N = "(lh_nodes h)(a \<mapsto> \<lparr>ln_prev = NULL, ln_next = fstp zs' NULL, ln_value = b\<rparr>, x := None)", OF h l])
        (use L u c z in \<open>auto simp: defs\<close>)
  next
    fix ys' y assume c: "ys = ys' @ [y]" "zs = []"
    obtain a b where y: "y = (a, b)" by (cases y)
    show ?thesis
      by (rule removedI [where N = "(lh_nodes h)(a \<mapsto> \<lparr>ln_prev = lastp NULL ys', ln_next = NULL, ln_value = b\<rparr>, x := None)", OF h l])
        (use L u c y in \<open>auto simp: defs\<close>)
  next
    fix ys' y z zs' assume c: "ys = ys' @ [y]" "zs = z # zs'"
    obtain a b a' b' where y: "y = (a, b)" "z = (a', b')" by (cases y; cases z)
    show ?thesis
      by (rule removedI [where N = "(lh_nodes h)(a \<mapsto> \<lparr>ln_prev = lastp NULL ys', ln_next = a', ln_value = b\<rparr>,
            a' \<mapsto> \<lparr>ln_prev = a, ln_next = fstp zs' NULL, ln_value = b'\<rparr>, x := None)", OF h l])
        (use L u c y in \<open>auto simp: defs\<close>)
  qed
qed

lemma listCreate_ok:
  assumes "lheap_ok h"
  shows "if lh_grants h (lh_requests h)
    then \<exists>h' L. listCreate h = (lh_fresh h, h') \<and> lheap_ok h' \<and> list_is h' (lh_fresh h) L [] \<and>
      untouched (lh_fresh h) {} h h' \<and> lh_nodes h' = lh_nodes h \<and> lh_lists h' = (lh_lists h)(lh_fresh h \<mapsto> hdr L [])
    else listCreate h = (NULL, h\<lparr>lh_requests := lh_requests h + 1\<rparr>)"
proof (cases "lh_grants h (lh_requests h)")
  case True
  have f: "lh_fresh h \<noteq> NULL" using assms by (simp add: lheap_ok_def)
  let ?L = "\<lparr>al_head = NULL, al_tail = NULL, al_dup = None, al_free = None, al_match = None, al_len = 0\<rparr>"
  define h' where "h' = h\<lparr>lh_fresh := lh_fresh h + 1, lh_requests := lh_requests h + 1,
    lh_lists := (lh_lists h)(lh_fresh h \<mapsto> hdr ?L [])\<rparr>"
  have "listCreate h = (lh_fresh h, h')" using True f by (simp add: listCreate_def lh_malloc_def h'_def hdr_def)
  moreover have "lheap_ok h'" by (rule lheap_okI [OF assms]) (auto simp: h'_def)
  ultimately show ?thesis using True by (auto simp: h'_def untouched_def intro!: exI [of _ ?L])
qed (simp add: listCreate_def lh_malloc_def)

lemma empty_loop_ok:
  assumes "dseg (lh_nodes h) p xs q" "distinct (map fst xs)"
  shows "empty_loop L (length xs) (fstp xs q) h =
    Some (h\<lparr>lh_nodes := lh_nodes h |` (- addrs xs), lh_user := free_user L xs (lh_user h)\<rparr>)"
  using assms
proof (induction xs arbitrary: p h)
  case (Cons x xs)
  obtain a v where x: "x = (a, v)" by (cases x)
  let ?h = "h\<lparr>lh_user := free_user L [(a, v)] (lh_user h), lh_nodes := (lh_nodes h)(a := None)\<rparr>"
  have a: "lh_nodes h a = Some \<lparr>ln_prev = p, ln_next = fstp xs q, ln_value = v\<rparr>" "a \<notin> addrs xs"
    using Cons.prems by (auto simp: x)
  have "empty_loop L (length (x # xs)) (fstp (x # xs) q) h = empty_loop L (length xs) (fstp xs q) ?h"
    using a by (simp add: x value_free_eq [where x = a] node_free_def)
  also have "\<dots> = Some (?h\<lparr>lh_nodes := lh_nodes ?h |` (- addrs xs), lh_user := free_user L xs (lh_user ?h)\<rparr>)"
  proof (rule Cons.IH [of ?h a])
    show "dseg (lh_nodes ?h) a xs q" "distinct (map fst xs)" using Cons.prems a(2) by (simp_all add: x)
  qed
  also have "\<dots> = Some (h\<lparr>lh_nodes := lh_nodes h |` (- addrs (x # xs)), lh_user := free_user L (x # xs) (lh_user h)\<rparr>)"
    by (auto simp: x free_user_Cons [of L "(a, v)" xs] restrict_map_def fun_eq_iff intro!: lheap.equality)
  finally show ?case .
qed (simp add: restrict_map_def)

lemma listEmpty_ok:
  assumes h: "lheap_ok h" and l: "list_is h l L xs"
  shows "\<exists>h'. listEmpty l h = Some h' \<and> lheap_ok h' \<and> list_is h' l L [] \<and> untouched l (addrs xs) h h' \<and>
    lh_nodes h' = lh_nodes h |` (- addrs xs) \<and> lh_lists h' = (lh_lists h)(l \<mapsto> hdr L []) \<and>
    lh_user h' = free_user L xs (lh_user h)"
proof -
  note D = list_isD [OF l]
  define h' where "h' = h\<lparr>lh_nodes := lh_nodes h |` (- addrs xs), lh_user := free_user L xs (lh_user h),
    lh_lists := (lh_lists h)(l \<mapsto> hdr L [])\<rparr>"
  have "listEmpty l h = Some h'"
    using D empty_loop_ok [OF D(2,3), of "hdr L xs"] by (simp add: listEmpty_def list_upd_def h'_def hdr_def)
  moreover have "lheap_ok h'" using D(1) by (intro lheap_okI [OF h]) (auto simp: h'_def)
  ultimately show ?thesis by (auto simp: h'_def untouched_def)
qed

lemma listRelease_ok:
  assumes h: "lheap_ok h" and l: "list_is h l L xs"
  shows "\<exists>h'. listRelease l h = Some h' \<and> lheap_ok h' \<and> untouched l (addrs xs) h h' \<and>
    lh_nodes h' = lh_nodes h |` (- addrs xs) \<and> lh_lists h' = (lh_lists h)(l := None) \<and>
    lh_user h' = free_user L xs (lh_user h)"
proof -
  obtain h1 where h1: "listEmpty l h = Some h1" "lheap_ok h1" "untouched l (addrs xs) h h1"
    "lh_nodes h1 = lh_nodes h |` (- addrs xs)" "lh_lists h1 = (lh_lists h)(l \<mapsto> hdr L [])"
    "lh_user h1 = free_user L xs (lh_user h)" using listEmpty_ok [OF assms] by blast
  have "lheap_ok (h1\<lparr>lh_lists := (lh_lists h1)(l := None)\<rparr>)" by (rule lheap_okI [OF h1(2)]) auto
  then show ?thesis using h1 by (auto simp: listRelease_def untouched_def)
qed

section \<open>Walking a list\<close>

text \<open>Iterating forward meets the nodes in order, iterating backward in reverse order.\<close>

lemma listNext_forward:
  assumes "dseg (lh_nodes h) p (x # xs) NULL" "fst x \<noteq> NULL"
  shows "listNext h \<lparr>li_next = fst x, li_direction = AL_START_HEAD\<rparr> =
    Some (fst x, \<lparr>li_next = fstp xs NULL, li_direction = AL_START_HEAD\<rparr>)"
  using assms by (cases x) (simp add: listNext_def)

lemma listNext_backward:
  assumes "dseg (lh_nodes h) p (xs @ [x]) q" "fst x \<noteq> NULL"
  shows "listNext h \<lparr>li_next = fst x, li_direction = AL_START_TAIL\<rparr> =
    Some (fst x, \<lparr>li_next = lastp p xs, li_direction = AL_START_TAIL\<rparr>)"
  using assms by (cases x) (simp add: listNext_def seg_simps AL_START_HEAD_def AL_START_TAIL_def)

lemma listNext_end: "listNext h \<lparr>li_next = NULL, li_direction = d\<rparr> = Some (NULL, \<lparr>li_next = NULL, li_direction = d\<rparr>)"
  by (simp add: listNext_def)

definition matches :: "'w adlist \<Rightarrow> ptr \<Rightarrow> 'w \<Rightarrow> ptr \<times> ptr \<Rightarrow> bool" where
  "matches L key w x = (case al_match L of Some m \<Rightarrow> m (snd x) key w \<noteq> 0 | None \<Rightarrow> key = snd x)"

definition node_of :: "(ptr \<times> ptr) option \<Rightarrow> ptr" where
  "node_of x = (case x of Some y \<Rightarrow> fst y | None \<Rightarrow> NULL)"

lemma search_loop_ok:
  assumes "dseg (lh_nodes h) p xs NULL" "NULL \<notin> addrs xs"
  shows "search_loop L key \<lparr>li_next = fstp xs NULL, li_direction = AL_START_HEAD\<rparr> h =
    Some (node_of (find (matches L key (lh_user h)) xs))"
  using assms
proof (induction xs arbitrary: p)
  case Nil
  then show ?case by (subst search_loop.simps) (simp add: listNext_end node_of_def)
next
  case (Cons x xs)
  obtain a v where x: "x = (a, v)" by (cases x)
  have n: "lh_nodes h a = Some \<lparr>ln_prev = p, ln_next = fstp xs NULL, ln_value = v\<rparr>" "a \<noteq> NULL"
    using Cons.prems by (auto simp: x)
  have m: "(case al_match L of Some m \<Rightarrow> m (ln_value \<lparr>ln_prev = b, ln_next = c, ln_value = v\<rparr>) key (lh_user h) \<noteq> 0
      | None \<Rightarrow> key = ln_value \<lparr>ln_prev = b, ln_next = c, ln_value = v\<rparr>) = matches L key (lh_user h) (a, v)" for b c
    by (simp add: matches_def split: option.splits)
  show ?case
    using listNext_forward [OF Cons.prems(1)] n Cons.IH [of a] Cons.prems
    by (subst search_loop.simps) (simp add: x m node_of_def)
qed

lemma listSearchKey_ok:
  assumes "list_is h l L xs"
  shows "listSearchKey l key h = Some (node_of (find (matches L key (lh_user h)) xs))"
proof -
  have "matches (hdr L xs) = matches L" by (simp add: matches_def fun_eq_iff)
  then show ?thesis
    using list_isD [OF assms] search_loop_ok [of h NULL xs "hdr L xs" key]
    by (simp add: listSearchKey_def listRewind_def)
qed

lemma index_loop_forward:
  assumes "dseg (lh_nodes h) p xs NULL" "NULL \<notin> addrs xs"
  shows "index_loop ln_next k (fstp xs NULL) h = Some (if k < length xs then fst (xs ! k) else NULL)"
  using assms
proof (induction k arbitrary: p xs)
  case 0
  then show ?case by (cases xs) auto
next
  case (Suc k)
  show ?case
  proof (cases xs)
    case (Cons x ys)
    then show ?thesis using Suc.IH [of "fst x" ys] Suc.prems by (cases x) auto
  qed simp
qed

lemma index_loop_backward:
  assumes "dseg (lh_nodes h) NULL xs q" "NULL \<notin> addrs xs"
  shows "index_loop ln_prev k (lastp NULL xs) h = Some (if k < length xs then fst (rev xs ! k) else NULL)"
  using assms
proof (induction k arbitrary: q xs)
  case 0
  then show ?case by (cases xs rule: rev_cases) (auto simp: seg_simps)
next
  case (Suc k)
  show ?case
  proof (cases xs rule: rev_cases)
    case (snoc ys x)
    then show ?thesis using Suc.IH [of ys "fst x"] Suc.prems by (cases x) (auto simp: seg_simps)
  qed simp
qed

lemma listIndex_ok:
  assumes "list_is h l L xs" "- (2 ^ 63) < i" "i < 2 ^ 63"
  shows "listIndex l i h =
    Some (if 0 \<le> i then (if nat i < length xs then fst (xs ! nat i) else NULL)
          else (if nat (- i) \<le> length xs then fst (xs ! (length xs - nat (- i))) else NULL))"
proof (cases "0 \<le> i")
  case True
  then show ?thesis
    using list_isD [OF assms(1)] index_loop_forward [of h NULL xs "nat i"] by (simp add: listIndex_def)
next
  case False
  have "s64 (s64 (- i) - 1) = - i - 1" using False assms(2) by (simp add: s64_id)
  then have k: "nat (s64 (s64 (- i) - 1)) = nat (- i) - 1" by simp
  have "rev xs ! (nat (- i) - 1) = xs ! (length xs - nat (- i))" if "nat (- i) \<le> length xs"
    using that False by (subst rev_nth) auto
  moreover have "nat (- i) - 1 < length xs \<longleftrightarrow> nat (- i) \<le> length xs" using False by linarith
  ultimately show ?thesis
    using False k list_isD [OF assms(1)] index_loop_backward [of h xs NULL "nat (- i) - 1"]
    by (auto simp: listIndex_def)
qed

section \<open>Rotating and joining\<close>

lemma list_isI:
  assumes "lh_lists h l = Some (hdr L xs)" "dseg (lh_nodes h) NULL xs NULL" "distinct (map fst xs)" "NULL \<notin> addrs xs"
  shows "list_is h l L xs"
  using assms by (simp add: list_is_def)

lemma listRotate_ok:
  assumes "list_is h l L (ys @ [(t, v)])" "ys \<noteq> []"
  shows "\<exists>h'. listRotate l h = Some h' \<and> list_is h' l L ((t, v) # ys) \<and> untouched l (addrs (ys @ [(t, v)])) h h'"
proof -
  note D = list_isD [OF assms(1)]
  obtain a b ys' where ys: "ys = (a, b) # ys'" using assms(2) by (cases ys) auto
  show ?thesis
  proof (cases ys' rule: rev_cases)
    case Nil
    define h' where "h' = h\<lparr>lh_nodes := (lh_nodes h)(a \<mapsto> \<lparr>ln_prev = t, ln_next = NULL, ln_value = b\<rparr>,
      t \<mapsto> \<lparr>ln_prev = NULL, ln_next = a, ln_value = v\<rparr>), lh_lists := (lh_lists h)(l \<mapsto> hdr L ((t, v) # ys))\<rparr>"
    have "listRotate l h = Some h'"
      using D ys Nil by (cases L) (auto simp: listRotate_def heap_defs hdr_def h'_def)
    moreover have "list_is h' l L ((t, v) # ys)" by (rule list_isI) (use D ys Nil in \<open>auto simp: h'_def\<close>)
    moreover have "untouched l (addrs (ys @ [(t, v)])) h h'" using ys by (auto simp: h'_def untouched_def)
    ultimately show ?thesis by blast
  next
    case (snoc zs z)
    obtain c d where z: "z = (c, d)" by (cases z)
    define h' where "h' = h\<lparr>lh_nodes := (lh_nodes h)(c \<mapsto> \<lparr>ln_prev = lastp a zs, ln_next = NULL, ln_value = d\<rparr>,
      a \<mapsto> \<lparr>ln_prev = t, ln_next = fstp ys' NULL, ln_value = b\<rparr>,
      t \<mapsto> \<lparr>ln_prev = NULL, ln_next = a, ln_value = v\<rparr>), lh_lists := (lh_lists h)(l \<mapsto> hdr L ((t, v) # ys))\<rparr>"
    have "listRotate l h = Some h'"
      using D ys snoc z by (cases L) (auto simp: listRotate_def heap_defs hdr_def h'_def seg_simps)
    moreover have "list_is h' l L ((t, v) # ys)" by (rule list_isI) (use D ys snoc z in \<open>auto simp: h'_def seg_simps\<close>)
    moreover have "untouched l (addrs (ys @ [(t, v)])) h h'" using ys snoc z by (auto simp: h'_def untouched_def)
    ultimately show ?thesis by blast
  qed
qed

lemma listJoin_ok:
  assumes l: "list_is h l L xs" and k: "list_is h k K ys" and ne: "l \<noteq> k" and disj: "addrs xs \<inter> addrs ys = {}"
    and ys: "ys \<noteq> [] \<or> xs = []" and n: "length xs + length ys < 2 ^ 64"
  shows "\<exists>h'. listJoin l k h = Some h' \<and> list_is h' l L (xs @ ys) \<and> list_is h' k K []"
proof (cases ys)
  case Nil
  then have "xs = []" using ys by simp
  then show ?thesis
    using l k ne Nil by (auto simp: listJoin_def heap_defs hdr_def)
next
  case (Cons y ys')
  note D = list_isD [OF l] and E = list_isD [OF k]
  obtain a b where y: "y = (a, b)" by (cases y)
  have u: "u64 (length xs + length ys) = length xs + length ys" using n by (rule u64_id)
  show ?thesis
  proof (cases xs rule: rev_cases)
    case Nil
    define h' where "h' = h\<lparr>lh_nodes := (lh_nodes h)(a \<mapsto> \<lparr>ln_prev = NULL, ln_next = fstp ys' NULL, ln_value = b\<rparr>),
      lh_lists := (lh_lists h)(l \<mapsto> hdr L (xs @ ys), k \<mapsto> hdr K [])\<rparr>"
    have "listJoin l k h = Some h'"
      using D E ne Cons y Nil u by (auto simp: listJoin_def heap_defs hdr_def h'_def)
    moreover have "list_is h' l L (xs @ ys)" by (rule list_isI) (use D E ne Cons y Nil in \<open>auto simp: h'_def\<close>)
    ultimately show ?thesis by (auto simp: h'_def)
  next
    case (snoc zs z)
    obtain c d where z: "z = (c, d)" by (cases z)
    define h' where "h' = h\<lparr>lh_nodes := (lh_nodes h)(a \<mapsto> \<lparr>ln_prev = c, ln_next = fstp ys' NULL, ln_value = b\<rparr>,
      c \<mapsto> \<lparr>ln_prev = lastp NULL zs, ln_next = a, ln_value = d\<rparr>),
      lh_lists := (lh_lists h)(l \<mapsto> hdr L (xs @ ys), k \<mapsto> hdr K [])\<rparr>"
    have "listJoin l k h = Some h'"
      using D E ne Cons y snoc z u disj by (auto simp: listJoin_def heap_defs hdr_def h'_def seg_simps)
    moreover have "list_is h' l L (xs @ ys)"
      by (rule list_isI) (use D E ne Cons y snoc z disj in \<open>auto simp: h'_def seg_simps\<close>)
    ultimately show ?thesis by (auto simp: h'_def)
  qed
qed

section \<open>Duplicating\<close>

text \<open>
  Without a \<^verbatim>\<open>dup\<close> method the copy shares the values. Either the whole list is copied, or
  an allocation was refused and every node and header made so far is gone again.
\<close>

lemma dup_loop_ok:
  assumes "lheap_ok h" "list_is h orig L (ws @ xs)" "list_is h copy K zs" "al_dup K = None" "copy \<noteq> orig"
    "copy \<noteq> NULL" "addrs zs \<inter> addrs (ws @ xs) = {}" "length zs + length xs < 2 ^ 64"
  shows "\<exists>r h'. dup_loop g copy \<lparr>li_next = fstp xs NULL, li_direction = AL_START_HEAD\<rparr> h = Some (r, h') \<and>
    list_is h' orig L (ws @ xs) \<and>
    (if r = NULL then lh_nodes h' = lh_nodes h |` (- addrs zs) \<and> lh_lists h' = (lh_lists h)(copy := None)
     else r = copy \<and> (\<exists>ys. list_is h' copy K ys \<and> map snd ys = map snd (zs @ xs)))"
  using assms
proof (induction xs arbitrary: ws zs h)
  case Nil
  then show ?case by (subst dup_loop.simps) (auto simp: listNext_end)
next
  case (Cons x xs)
  obtain a v where x: "x = (a, v)" by (cases x)
  note D = list_isD [OF Cons.prems(2)] and E = list_isD [OF Cons.prems(3)]
  have n: "lh_nodes h a = Some \<lparr>ln_prev = lastp NULL ws, ln_next = fstp xs NULL, ln_value = v\<rparr>" "a \<noteq> NULL"
    using D by (auto simp: x seg_simps)
  have nx: "listNext h \<lparr>li_next = a, li_direction = AL_START_HEAD\<rparr> =
      Some (a, \<lparr>li_next = fstp xs NULL, li_direction = AL_START_HEAD\<rparr>)"
    using n by (simp add: listNext_def)
  note add = listAddNodeTail_ok [OF Cons.prems(1,3), of v "g a"]
  show ?case
  proof (cases "lh_grants h (lh_requests h)")
    case False
    let ?h = "h\<lparr>lh_requests := lh_requests h + 1\<rparr>"
    have "listAddNodeTail (g a) copy v h = Some (NULL, ?h)" using add False Cons.prems(8) by (simp add: added_def)
    moreover have ok: "lheap_ok ?h" "list_is ?h copy K zs" "list_is ?h orig L (ws @ x # xs)"
      using Cons.prems by (simp_all add: lheap_ok_def list_is_def)
    obtain h' where h': "listRelease copy ?h = Some h'" "untouched copy (addrs zs) ?h h'"
      "lh_nodes h' = lh_nodes h |` (- addrs zs)" "lh_lists h' = (lh_lists h)(copy := None)"
      using listRelease_ok [OF ok(1,2)] by auto
    moreover have "list_is h' orig L (ws @ x # xs)"
      using list_is_untouched [OF ok(1,3) h'(2)] Cons.prems(5,7) by auto
    ultimately show ?thesis
      using n nx E(1) Cons.prems(4) by (subst dup_loop.simps) (simp add: x)
  next
    case True
    let ?z = "(lh_fresh h, v)"
    obtain h1 where h1: "listAddNodeTail (g a) copy v h = Some (copy, h1)" "lheap_ok h1"
      "list_is h1 copy K (zs @ [?z])" "untouched copy (addrs zs) h h1"
      using add True Cons.prems(8) by (auto simp: added_def)
    have o1: "list_is h1 orig L (ws @ x # xs)"
      using list_is_untouched [OF Cons.prems(1,2) h1(4)] Cons.prems(5,7) by auto
    have f: "lh_fresh h \<notin> dom (lh_nodes h)" using Cons.prems(1) unfolding lheap_ok_def by blast
    then have fr: "addrs (zs @ [?z]) \<inter> addrs ((ws @ [x]) @ xs) = {}" using Cons.prems(7) D(5) by auto
    have step: "dup_loop g copy \<lparr>li_next = fstp (x # xs) NULL, li_direction = AL_START_HEAD\<rparr> h =
        dup_loop g copy \<lparr>li_next = fstp xs NULL, li_direction = AL_START_HEAD\<rparr> h1"
      using n nx E(1) Cons.prems(4,6) h1(1) by (subst dup_loop.simps) (simp add: x)
    have N: "lh_nodes h1 |` (- addrs (zs @ [?z])) = lh_nodes h |` (- addrs zs)"
      "(lh_lists h1)(copy := None) = (lh_lists h)(copy := None)"
      using h1(4) f by (auto simp: untouched_def restrict_map_def fun_eq_iff)
    have "\<exists>r h'. dup_loop g copy \<lparr>li_next = fstp xs NULL, li_direction = AL_START_HEAD\<rparr> h1 = Some (r, h') \<and>
      list_is h' orig L ((ws @ [x]) @ xs) \<and>
      (if r = NULL then lh_nodes h' = lh_nodes h1 |` (- addrs (zs @ [?z])) \<and> lh_lists h' = (lh_lists h1)(copy := None)
       else r = copy \<and> (\<exists>ys. list_is h' copy K ys \<and> map snd ys = map snd ((zs @ [?z]) @ xs)))"
      using h1(2,3) o1 Cons.prems(4-6,8) fr by (intro Cons.IH) simp_all
    then obtain r h' where R: "dup_loop g copy \<lparr>li_next = fstp xs NULL, li_direction = AL_START_HEAD\<rparr> h1 = Some (r, h')"
      "list_is h' orig L (ws @ x # xs)"
      "if r = NULL then lh_nodes h' = lh_nodes h |` (- addrs zs) \<and> lh_lists h' = (lh_lists h)(copy := None)
       else r = copy \<and> (\<exists>ys. list_is h' copy K ys \<and> map snd ys = map snd ((zs @ [?z]) @ xs))"
      unfolding N by auto
    have "map snd ((zs @ [?z]) @ xs) = map snd (zs @ x # xs)" by (simp add: x)
    then show ?thesis unfolding step using R by metis
  qed
qed

lemma listDup_ok:
  assumes h: "lheap_ok h" and l: "list_is h orig L xs" and "al_dup L = None" "length xs < 2 ^ 64"
  shows "\<exists>r h'. listDup g orig h = Some (r, h') \<and> list_is h' orig L xs \<and>
    (if r = NULL then lh_nodes h' = lh_nodes h \<and> lh_lists h' = lh_lists h
     else r \<noteq> orig \<and> (\<exists>K ys. list_is h' r K ys \<and> map snd ys = map snd xs))"
proof (cases "lh_grants h (lh_requests h)")
  case False
  then show ?thesis using listCreate_ok [OF h] l by (simp add: listDup_def list_is_def)
next
  case True
  let ?c = "lh_fresh h"
  obtain h1 K where c: "listCreate h = (?c, h1)" "lheap_ok h1" "untouched ?c {} h h1" "lh_nodes h1 = lh_nodes h"
    "lh_lists h1 = (lh_lists h)(?c \<mapsto> hdr K [])" using listCreate_ok [OF h] True by auto
  note D = list_isD [OF l]
  have ne: "?c \<noteq> orig" "?c \<noteq> NULL" "lh_lists h ?c = None"
    using h D(1) unfolding lheap_ok_def by blast+
  define K' where "K' = K\<lparr>al_dup := al_dup L, al_free := al_free L, al_match := al_match L\<rparr>"
  define h2 where "h2 = h1\<lparr>lh_lists := (lh_lists h1)(?c \<mapsto> hdr K' [])\<rparr>"
  have e: "listDup g orig h = dup_loop g ?c \<lparr>li_next = fstp xs NULL, li_direction = AL_START_HEAD\<rparr> h2"
    using c D ne by (cases K) (simp add: listDup_def list_upd_def h2_def K'_def listRewind_def hdr_def)
  have R: "lh_nodes h2 |` (- addrs []) = lh_nodes h2" by (simp add: restrict_map_def)
  have aK: "al_dup K' = None" by (simp add: K'_def assms(3))
  have "lheap_ok h2" using c(5) by (intro lheap_okI [OF c(2)]) (auto simp: h2_def)
  moreover have "list_is h2 orig L ([] @ xs)" using D ne c(4,5) by (simp add: h2_def list_is_def)
  moreover have "list_is h2 ?c K' []" by (simp add: h2_def)
  ultimately obtain r h' where "dup_loop g ?c \<lparr>li_next = fstp xs NULL, li_direction = AL_START_HEAD\<rparr> h2 = Some (r, h')"
    "list_is h' orig L xs" "if r = NULL then lh_nodes h' = lh_nodes h2 \<and> lh_lists h' = (lh_lists h2)(?c := None)
     else r = ?c \<and> (\<exists>ys. list_is h' ?c K' ys \<and> map snd ys = map snd xs)"
    using dup_loop_ok [of h2 orig L "[]" xs ?c K' "[]" g, unfolded R append_Nil] ne(1,2) assms(3,4) aK by auto
  then show ?thesis using e ne c(4,5) by (auto simp: h2_def fun_eq_iff split: if_splits)
qed

section \<open>The list as a queue\<close>

text \<open>
  The way the client drains a list: \<^verbatim>\<open>node = listFirst(l); v = listNodeValue(node); listDelNode(l, node)\<close>.
\<close>

definition list_shift :: "ptr \<Rightarrow> 'w lheap \<Rightarrow> (ptr option \<times> 'w lheap) option" where
  "list_shift l h =
     do {
       L \<leftarrow> lh_lists h l;
       let node = al_head L;
       if node = NULL then Some (None, h)
       else do { n \<leftarrow> lh_nodes h node; h \<leftarrow> listDelNode l node h; Some (Some (ln_value n), h) }
     }"

definition list_append :: "listNode \<Rightarrow> ptr \<Rightarrow> ptr \<Rightarrow> 'w lheap \<Rightarrow> 'w lheap option" where
  "list_append g l v h = map_option snd (listAddNodeTail g l v h)"

definition list_holds :: "ptr \<Rightarrow> 'w adlist \<Rightarrow> 'w lheap \<Rightarrow> ptr list \<Rightarrow> bool" where
  "list_holds l L h vs \<longleftrightarrow> lheap_ok h \<and> (\<forall>n. lh_grants h n) \<and> length vs < 2 ^ 63 \<and>
     (\<exists>xs. list_is h l L xs \<and> map snd xs = vs)"

lemma list_shift_ok:
  assumes "list_holds l L h (v # vs)"
  shows "\<exists>h'. list_shift l h = Some (Some v, h') \<and> list_holds l L h' vs"
proof -
  obtain x xs where xs: "list_is h l L ((x, v) # xs)" "map snd xs = vs"
    using assms by (auto simp: list_holds_def map_eq_Cons_conv)
  note D = list_isD [OF xs(1)]
  have h: "lheap_ok h" "\<forall>n. lh_grants h n" "Suc (length vs) < 2 ^ 63" using assms by (simp_all add: list_holds_def)
  have "length xs = length vs" using xs(2) by (metis length_map)
  then have "length ([] @ (x, v) # xs) < 2 ^ 64" using h(3) by simp
  then obtain h' where "listDelNode l x h = Some h'" "lheap_ok h'" "list_is h' l L xs" "lh_grants h' = lh_grants h"
    using listDelNode_ok [OF h(1), of l L "[]" x v xs] xs(1) by (auto simp: removed_def)
  then show ?thesis
    using D xs(2) h(2,3) by (auto simp: list_shift_def list_holds_def)
qed

lemma list_append_ok:
  assumes "list_holds l L h vs" "length vs < 2 ^ 62"
  shows "\<exists>h'. list_append g l v h = Some h' \<and> list_holds l L h' (vs @ [v])"
proof -
  obtain xs where xs: "list_is h l L xs" "map snd xs = vs" using assms by (auto simp: list_holds_def)
  have h: "lheap_ok h" "\<forall>n. lh_grants h n" using assms by (simp_all add: list_holds_def)
  have "length xs = length vs" using xs(2) by (metis length_map)
  then have "length xs + 1 < 2 ^ 64" using assms(2) by simp
  from listAddNodeTail_ok [OF h(1) xs(1) this, of v g] obtain h' where "listAddNodeTail g l v h = Some (l, h')"
    "lheap_ok h'" "list_is h' l L (xs @ [(lh_fresh h, v)])" "lh_grants h' = lh_grants h"
    using h(2) by (auto simp: added_def)
  moreover have "map snd (xs @ [(lh_fresh h, v)]) = vs @ [v]" using xs(2) by simp
  ultimately show ?thesis
    using h(2) assms(2) unfolding list_append_def list_holds_def by (intro exI [of _ h']) (auto simp del: map_append)
qed

interpretation lq: fifo_queue "list_holds l L" "list_append g l" "list_shift l" "2 ^ 62"
  for l :: ptr and L :: "'w adlist" and g
proof unfold_locales
  fix h :: "'w lheap"
  assume "list_holds l L h []"
  then show "\<exists>s'. list_shift l h = Some (None, s') \<and> list_holds l L s' []"
    by (auto simp: list_holds_def list_shift_def)
qed (auto intro: list_append_ok list_shift_ok)

section \<open>Properties\<close>

text \<open>A heap with one list, for the witnesses: two nodes with the values 70 and 80.\<close>

definition lheap0 :: "unit lheap" where
  "lheap0 = \<lparr>lh_nodes = Map.empty, lh_lists = Map.empty, lh_iters = Map.empty, lh_fresh = 1, lh_requests = 0,
     lh_grants = (\<lambda>_. True), lh_user = ()\<rparr>"

definition hdr0 :: "unit adlist" where
  "hdr0 = \<lparr>al_head = NULL, al_tail = NULL, al_dup = None, al_free = None, al_match = None, al_len = 0\<rparr>"

definition lheap_ab :: "unit lheap" where
  "lheap_ab = lheap0\<lparr>lh_nodes := [2 \<mapsto> \<lparr>ln_prev = 0, ln_next = 3, ln_value = 70\<rparr>, 3 \<mapsto> \<lparr>ln_prev = 2, ln_next = 0, ln_value = 80\<rparr>],
     lh_lists := [1 \<mapsto> hdr hdr0 [(2, 70), (3, 80)], 4 \<mapsto> hdr hdr0 []], lh_fresh := 5\<rparr>"

lemma lheap_ab_ok:
  "lheap_ok lheap_ab" "list_is lheap_ab 1 hdr0 [(2, 70), (3, 80)]" "list_is lheap_ab 4 hdr0 []"
  "lh_grants lheap_ab n"
  by (auto simp: lheap_ab_def lheap0_def lheap_ok_def list_is_def split: if_splits)

text \<open>
  C26. A list used through listAddNodeTail, listFirst and listDelNode is a first-in first-out
  queue: any sequence of appends and removals returns what it returns on a sequence of
  values, never faults, and the list stays well linked in both directions.
\<close>

theorem adlist_fifo:
  assumes "lheap_ok h" "\<forall>n. lh_grants h n" "list_is h l L xs" "length xs + length ops \<le> 2 ^ 62"
  shows "\<exists>h' ys. run_queue (list_append g l) (list_shift l) ops h = Some (fst (spec_queue ops (map snd xs)), h') \<and>
    list_is h' l L ys \<and> map snd ys = snd (spec_queue ops (map snd xs))"
proof -
  have "list_holds l L h (map snd xs)" using assms by (auto simp: list_holds_def)
  from lq.run_fifo [OF this, of ops g] show ?thesis using assms(4) by (auto simp: list_holds_def)
qed

theorem adlist_fifo_witness:
  "\<exists>h' ys. run_queue (list_append \<lparr>ln_prev = 9, ln_next = 9, ln_value = 9\<rparr> 1) (list_shift 1) [Pop, Push 90, Pop, Pop, Pop] lheap_ab =
      Some ([Some 70, Some 80, Some 90, None], h') \<and> list_is h' 1 hdr0 ys \<and> map snd ys = []"
  using adlist_fifo [OF lheap_ab_ok(1) _ lheap_ab_ok(2), where ops = "[Pop, Push 90, Pop, Pop, Pop]"] lheap_ab_ok(4)
  by simp

text \<open>
  listIndex counts from the head with a non-negative index and from the tail with a
  negative one, and returns NULL outside the list.
\<close>

theorem listIndex_both_ends:
  assumes "list_is h l L xs" "- (2 ^ 63) < i" "i < 2 ^ 63"
  shows "listIndex l i h =
    Some (if 0 \<le> i then (if nat i < length xs then fst (xs ! nat i) else NULL)
          else (if nat (- i) \<le> length xs then fst (xs ! (length xs - nat (- i))) else NULL))"
  using assms by (rule listIndex_ok)

theorem listIndex_both_ends_witness:
  "listIndex 1 (- 1) lheap_ab = Some 3 \<and> listIndex 1 0 lheap_ab = Some 2 \<and> listIndex 1 2 lheap_ab = Some NULL"
  using listIndex_both_ends [OF lheap_ab_ok(2), of "- 1"] listIndex_both_ends [OF lheap_ab_ok(2), of 0]
    listIndex_both_ends [OF lheap_ab_ok(2), of 2] by simp

text \<open>
  listDup, without a dup method, returns a new list with the same values in the same
  order and leaves the original as it was; when an allocation is refused it returns NULL
  and no node and no list header is left behind.
\<close>

theorem listDup_copies:
  assumes "lheap_ok h" "list_is h orig L xs" "al_dup L = None" "length xs < 2 ^ 64"
  shows "\<exists>r h'. listDup g orig h = Some (r, h') \<and> list_is h' orig L xs \<and>
    (if r = NULL then lh_nodes h' = lh_nodes h \<and> lh_lists h' = lh_lists h
     else r \<noteq> orig \<and> (\<exists>K ys. list_is h' r K ys \<and> map snd ys = map snd xs))"
  using assms by (rule listDup_ok)

theorem listDup_copies_witness:
  "\<exists>r h'. listDup (\<lambda>_. \<lparr>ln_prev = 9, ln_next = 9, ln_value = 9\<rparr>) 1 lheap_ab = Some (r, h') \<and>
    list_is h' 1 hdr0 [(2, 70), (3, 80)] \<and>
    (if r = NULL then lh_nodes h' = lh_nodes lheap_ab \<and> lh_lists h' = lh_lists lheap_ab
     else r \<noteq> 1 \<and> (\<exists>K ys. list_is h' r K ys \<and> map snd ys = map snd [(2 :: ptr, 70 :: ptr), (3, 80)]))"
proof (rule listDup_copies [OF lheap_ab_ok(1,2)])
  show "al_dup hdr0 = None" by (simp add: hdr0_def)
  show "length [(2 :: ptr, 70 :: ptr), (3, 80)] < 2 ^ 64" by simp
qed

text \<open>
  C27. Joining an empty list to a non-empty one loses the tail: listJoin overwrites it with the
  NULL tail of the empty list, and the next listAddNodeTail stores through NULL.
\<close>

theorem listJoin_empty_loses_tail:
  assumes "lheap_ok h" "list_is h l L xs" "list_is h k K []" "l \<noteq> k" "xs \<noteq> []" "length xs < 2 ^ 64"
    "lh_grants h (lh_requests h)"
  shows "\<exists>h'. listJoin l k h = Some h' \<and> map_option al_tail (lh_lists h' l) = Some NULL \<and>
    map_option al_len (lh_lists h' l) = Some (length xs) \<and> listAddNodeTail g l v h' = None"
proof -
  note D = list_isD [OF assms(2)] and E = list_isD [OF assms(3)]
  obtain zs c d where xs: "xs = zs @ [(c, d)]" using assms(5) by (metis append_butlast_last_id surj_pair)
  have u: "u64 (length xs) = length xs" using assms(6) by (rule u64_id)
  have c: "lh_nodes h c = Some \<lparr>ln_prev = lastp NULL zs, ln_next = NULL, ln_value = d\<rparr>" "c \<noteq> NULL" "lastp NULL xs = c"
    using D by (auto simp: xs seg_simps)
  have z: "NULL \<notin> dom (lh_nodes h)" "lh_fresh h \<noteq> NULL" using assms(1) unfolding lheap_ok_def by blast+
  define h' where "h' = h\<lparr>lh_lists := (lh_lists h)(l \<mapsto> (hdr L xs)\<lparr>al_tail := NULL\<rparr>, k \<mapsto> hdr K [])\<rparr>"
  have "(lh_nodes h)(c \<mapsto> \<lparr>ln_prev = lastp NULL zs, ln_next = NULL, ln_value = d\<rparr>) = lh_nodes h"
    using c(1) by (rule fun_upd_idem)
  then have "listJoin l k h = Some h'"
    using D(1) E(1) assms(4) c u by (cases L) (simp add: listJoin_def heap_defs h'_def hdr_def)
  moreover have "listAddNodeTail g l v h' = None"
    using assms(4,5,7) z by (simp add: listAddNodeTail_def new_node_def lh_malloc_def heap_defs h'_def domIff)
  ultimately show ?thesis using assms(4) by (simp add: h'_def)
qed

theorem listJoin_empty_loses_tail_witness:
  "\<exists>h'. listJoin 1 4 lheap_ab = Some h' \<and> map_option al_tail (lh_lists h' 1) = Some NULL \<and>
    map_option al_len (lh_lists h' 1) = Some 2 \<and> listAddNodeTail \<lparr>ln_prev = 9, ln_next = 9, ln_value = 9\<rparr> 1 90 h' = None"
  using listJoin_empty_loses_tail [OF lheap_ab_ok(1,2,3), of "\<lparr>ln_prev = 9, ln_next = 9, ln_value = 9\<rparr>" 90] lheap_ab_ok(4)
  by (simp add: numeral_2_eq_2 [symmetric])

end
