(* ===== verification/Dict.thy ===== *)
theory Dict
  imports Prelude "HOL-Library.Monad_Syntax" "HOL-Library.Multiset"
begin

text \<open>
  The hash table of dict.h and dict.c. The table owns its chains, so a chain of entries is
  a list, the entry a pointer points to first. A table pointer is \<open>None\<close> when it is NULL.
  Keys and values belong to the user of the table: the functions of its \<^verbatim>\<open>dictType\<close> work on
  the user's state, the field \<open>dm_user\<close>. Allocations may be refused; the code does not
  check them, so a refusal is a fault (\<open>None\<close>) where the block is used.
\<close>

section \<open>Data\<close>

record ('k, 'v) dictEntry =
  de_key :: 'k
  de_val :: 'v

record ('k, 'v, 'w) dictType =
  hashFunction :: "'k \<Rightarrow> 32 word"
  keyDup :: "(ptr \<Rightarrow> 'k \<Rightarrow> 'w \<Rightarrow> 'k \<times> 'w) option"
  valDup :: "(ptr \<Rightarrow> 'v \<Rightarrow> 'w \<Rightarrow> ('v \<times> 'w) option) option"
  keyCompare :: "(ptr \<Rightarrow> 'k \<Rightarrow> 'k \<Rightarrow> bool) option"
  keyDestructor :: "(ptr \<Rightarrow> 'k \<Rightarrow> 'w \<Rightarrow> 'w) option"
  valDestructor :: "(ptr \<Rightarrow> 'v \<Rightarrow> 'w \<Rightarrow> 'w) option"

type_synonym ('k, 'v) chain = "('k, 'v) dictEntry list"

record ('k, 'v, 'w) dict =
  d_table :: "('k, 'v) chain list option"
  d_type :: "('k, 'v, 'w) dictType"
  d_size :: nat
  d_sizemask :: nat
  d_used :: nat
  d_privdata :: ptr

record 'w dmem =
  dm_requests :: nat
  dm_grants :: "nat \<Rightarrow> bool"
  dm_user :: 'w

definition DICT_OK :: int where "DICT_OK = 0"
definition DICT_ERR :: int where "DICT_ERR = 1"
definition DICT_HT_INITIAL_SIZE :: nat where "DICT_HT_INITIAL_SIZE = 4"
definition LONG_MAX :: nat where "LONG_MAX = 2 ^ 63 - 1"

section \<open>The macros of dict.h\<close>

definition dictFreeEntryVal :: "('k, 'v, 'w) dict \<Rightarrow> ('k, 'v) dictEntry \<Rightarrow> 'w dmem \<Rightarrow> 'w dmem" where
  "dictFreeEntryVal ht e m =
     (case valDestructor (d_type ht) of
        Some f \<Rightarrow> m\<lparr>dm_user := f (d_privdata ht) (de_val e) (dm_user m)\<rparr> | None \<Rightarrow> m)"

definition dictFreeEntryKey :: "('k, 'v, 'w) dict \<Rightarrow> ('k, 'v) dictEntry \<Rightarrow> 'w dmem \<Rightarrow> 'w dmem" where
  "dictFreeEntryKey ht e m =
     (case keyDestructor (d_type ht) of
        Some f \<Rightarrow> m\<lparr>dm_user := f (d_privdata ht) (de_key e) (dm_user m)\<rparr> | None \<Rightarrow> m)"

text \<open>The value stored for \<open>v\<close> and the key stored for \<open>k\<close>; duplicating a value may fault.\<close>

definition dictSetHashVal :: "('k, 'v, 'w) dict \<Rightarrow> 'v \<Rightarrow> 'w dmem \<Rightarrow> ('v \<times> 'w dmem) option" where
  "dictSetHashVal ht v m =
     (case valDup (d_type ht) of
        Some f \<Rightarrow> do { (v, w) \<leftarrow> f (d_privdata ht) v (dm_user m); Some (v, m\<lparr>dm_user := w\<rparr>) }
      | None \<Rightarrow> Some (v, m))"

definition dictSetHashKey :: "('k, 'v, 'w) dict \<Rightarrow> 'k \<Rightarrow> 'w dmem \<Rightarrow> 'k \<times> 'w dmem" where
  "dictSetHashKey ht k m =
     (case keyDup (d_type ht) of
        Some f \<Rightarrow> (let (k, w) = f (d_privdata ht) k (dm_user m) in (k, m\<lparr>dm_user := w\<rparr>))
      | None \<Rightarrow> (k, m))"

definition dictCompareHashKeys :: "('k, 'v, 'w) dict \<Rightarrow> 'k \<Rightarrow> 'k \<Rightarrow> bool" where
  "dictCompareHashKeys ht k1 k2 =
     (case keyCompare (d_type ht) of Some f \<Rightarrow> f (d_privdata ht) k1 k2 | None \<Rightarrow> k1 = k2)"

text \<open>\<^verbatim>\<open>dictHashKey(ht, key) & ht->sizemask\<close>, stored in an \<^verbatim>\<open>unsigned int\<close>.\<close>

definition hash_slot :: "('k, 'v, 'w) dictType \<Rightarrow> nat \<Rightarrow> 'k \<Rightarrow> nat" where
  "hash_slot T sizemask k = u32 (unat (hashFunction T k) AND sizemask)"

definition slot :: "('k, 'v, 'w) dict \<Rightarrow> 'k \<Rightarrow> nat" where
  "slot ht k = hash_slot (d_type ht) (d_sizemask ht) k"

section \<open>Hash function\<close>

fun hash_loop :: "32 word \<Rightarrow> char list \<Rightarrow> nat \<Rightarrow> 32 word option" where
  "hash_loop hash b 0 = Some hash"
| "hash_loop hash [] (Suc len) = None"
| "hash_loop hash (c # b) (Suc len) = hash_loop ((push_bit 5 hash + hash) + of_char c) b len"

definition dictGenHashFunction :: "char list \<Rightarrow> nat \<Rightarrow> 32 word option" where
  "dictGenHashFunction b len = hash_loop 5381 b len"

section \<open>Creating and expanding\<close>

definition dictReset :: "('k, 'v, 'w) dict \<Rightarrow> ('k, 'v, 'w) dict" where
  "dictReset ht = ht\<lparr>d_table := None, d_size := 0, d_sizemask := 0, d_used := 0\<rparr>"

definition dictInit :: "('k, 'v, 'w) dictType \<Rightarrow> ptr \<Rightarrow> ('k, 'v, 'w) dict" where
  "dictInit T priv =
     \<lparr>d_table = None, d_type = T, d_size = 0, d_sizemask = 0, d_used = 0, d_privdata = priv\<rparr>"

definition dm_malloc :: "'w dmem \<Rightarrow> bool \<times> 'w dmem" where
  "dm_malloc m = (dm_grants m (dm_requests m), m\<lparr>dm_requests := dm_requests m + 1\<rparr>)"

definition dictCreate :: "('k, 'v, 'w) dictType \<Rightarrow> ptr \<Rightarrow> 'w dmem \<Rightarrow> (('k, 'v, 'w) dict \<times> 'w dmem) option" where
  "dictCreate T priv m = (let (ok, m) = dm_malloc m in if ok then Some (dictInit T priv, m) else None)"

partial_function (option) next_power :: "nat \<Rightarrow> nat \<Rightarrow> nat option" where
  "next_power i n = (if i \<ge> n then Some i else next_power (u64 (i * 2)) n)"

definition dictNextPower :: "nat \<Rightarrow> nat option" where
  "dictNextPower n = (if n \<ge> LONG_MAX then Some LONG_MAX else next_power DICT_HT_INITIAL_SIZE n)"

text \<open>\<^verbatim>\<open>table[i]\<close>, and storing a chain there: a fault outside the table.\<close>

definition tab_get :: "('k, 'v) chain list option \<Rightarrow> int \<Rightarrow> ('k, 'v) chain option" where
  "tab_get t i =
     (case t of Some t \<Rightarrow> if 0 \<le> i \<and> nat i < length t then Some (t ! nat i) else None | None \<Rightarrow> None)"

definition tab_set :: "('k, 'v) chain list option \<Rightarrow> int \<Rightarrow> ('k, 'v) chain \<Rightarrow> ('k, 'v) chain list option option" where
  "tab_set t i c =
     (case t of Some t \<Rightarrow> if 0 \<le> i \<and> nat i < length t then Some (Some (t[nat i := c])) else None | None \<Rightarrow> None)"

text \<open>Moving one chain, and all chains, to the front of their chains in the new table.\<close>

fun expand_chain ::
    "('k, 'v, 'w) dict \<Rightarrow> ('k, 'v) chain \<Rightarrow> ('k, 'v, 'w) dict \<Rightarrow> nat \<Rightarrow> (('k, 'v, 'w) dict \<times> nat) option" where
  "expand_chain ht [] n used = Some (n, used)"
| "expand_chain ht (he # nextHe) n used =
     do {
       let h = hash_slot (d_type ht) (d_sizemask n) (de_key he);
       c \<leftarrow> tab_get (d_table n) (int h);
       t \<leftarrow> tab_set (d_table n) (int h) (he # c);
       expand_chain ht nextHe (n\<lparr>d_table := t\<rparr>) (to_size (int used - 1))
     }"

text \<open>\<open>k\<close> slots are left.\<close>

fun expand_loop ::
    "('k, 'v, 'w) dict \<Rightarrow> nat \<Rightarrow> nat \<Rightarrow> ('k, 'v, 'w) dict \<Rightarrow> nat \<Rightarrow> (('k, 'v, 'w) dict \<times> nat) option" where
  "expand_loop ht i 0 n used = Some (n, used)"
| "expand_loop ht i (Suc k) n used =
     (if used > 0
      then do {
        he \<leftarrow> tab_get (d_table ht) (int i);
        (n, used) \<leftarrow> expand_chain ht he n used;
        expand_loop ht (i + 1) k n used
      }
      else Some (n, used))"

definition dictExpand ::
    "('k, 'v, 'w) dict \<Rightarrow> nat \<Rightarrow> 'w dmem \<Rightarrow> (int \<times> ('k, 'v, 'w) dict \<times> 'w dmem) option" where
  "dictExpand ht n m =
     do {
       realsize \<leftarrow> dictNextPower n;
       if d_used ht > n then Some (DICT_ERR, ht, m)
       else do {
         let new = dictInit (d_type ht) (d_privdata ht);
         let (ok, m) = dm_malloc m;
         let new = new\<lparr>d_size := realsize, d_sizemask := realsize - 1,
                       d_table := if ok then Some (replicate realsize []) else None\<rparr>;
         let new = new\<lparr>d_used := d_used ht\<rparr>;
         (new, used) \<leftarrow> expand_loop ht 0 (d_size ht) new (d_used ht);
         if used \<noteq> 0 then None else Some (DICT_OK, new, m)
       }
     }"

definition dictExpandIfNeeded ::
    "('k, 'v, 'w) dict \<Rightarrow> 'w dmem \<Rightarrow> (int \<times> ('k, 'v, 'w) dict \<times> 'w dmem) option" where
  "dictExpandIfNeeded ht m =
     (if d_size ht = 0 then dictExpand ht DICT_HT_INITIAL_SIZE m
      else if d_used ht = d_size ht then dictExpand ht (u64 (d_size ht * 2)) m
      else Some (DICT_OK, ht, m))"

section \<open>Adding, finding, replacing, deleting\<close>

text \<open>The loop along a chain for an entry with an equal key.\<close>

fun chain_find :: "('k, 'v, 'w) dict \<Rightarrow> 'k \<Rightarrow> ('k, 'v) chain \<Rightarrow> ('k, 'v) dictEntry option" where
  "chain_find ht key [] = None"
| "chain_find ht key (he # rest) = (if dictCompareHashKeys ht key (de_key he) then Some he else chain_find ht key rest)"

definition dictKeyIndex ::
    "('k, 'v, 'w) dict \<Rightarrow> 'k \<Rightarrow> 'w dmem \<Rightarrow> (int \<times> ('k, 'v, 'w) dict \<times> 'w dmem) option" where
  "dictKeyIndex ht key m =
     do {
       (r, ht, m) \<leftarrow> dictExpandIfNeeded ht m;
       if r = DICT_ERR then Some (- 1, ht, m)
       else do {
         let h = slot ht key;
         he \<leftarrow> tab_get (d_table ht) (int h);
         case chain_find ht key he of
           Some e \<Rightarrow> Some (- 1, ht, m)
         | None \<Rightarrow> Some (s32 (int h), ht, m)
       }
     }"

definition dictAdd ::
    "('k, 'v, 'w) dict \<Rightarrow> 'k \<Rightarrow> 'v \<Rightarrow> 'w dmem \<Rightarrow> (int \<times> ('k, 'v, 'w) dict \<times> 'w dmem) option" where
  "dictAdd ht key val m =
     do {
       (index, ht, m) \<leftarrow> dictKeyIndex ht key m;
       if index = - 1 then Some (DICT_ERR, ht, m)
       else do {
         let (ok, m) = dm_malloc m;
         (if ok then Some () else None);
         c \<leftarrow> tab_get (d_table ht) index;
         let (k, m) = dictSetHashKey ht key m;
         (v, m) \<leftarrow> dictSetHashVal ht val m;
         t \<leftarrow> tab_set (d_table ht) index (\<lparr>de_key = k, de_val = v\<rparr> # c);
         Some (DICT_OK, ht\<lparr>d_table := t, d_used := u64 (d_used ht + 1)\<rparr>, m)
       }
     }"

definition dictFind :: "('k, 'v, 'w) dict \<Rightarrow> 'k \<Rightarrow> ('k, 'v) dictEntry option option" where
  "dictFind ht key =
     (if d_size ht = 0 then Some None
      else do { he \<leftarrow> tab_get (d_table ht) (int (slot ht key)); Some (chain_find ht key he) })"

text \<open>\<^verbatim>\<open>entry->val = v\<close> for the entry \<^verbatim>\<open>dictFind\<close> returned.\<close>

fun chain_set :: "('k, 'v, 'w) dict \<Rightarrow> 'k \<Rightarrow> 'v \<Rightarrow> ('k, 'v) chain \<Rightarrow> ('k, 'v) chain" where
  "chain_set ht key v [] = []"
| "chain_set ht key v (he # rest) =
     (if dictCompareHashKeys ht key (de_key he) then he\<lparr>de_val := v\<rparr> # rest else he # chain_set ht key v rest)"

definition dictReplace ::
    "('k, 'v, 'w) dict \<Rightarrow> 'k \<Rightarrow> 'v \<Rightarrow> 'w dmem \<Rightarrow> (int \<times> ('k, 'v, 'w) dict \<times> 'w dmem) option" where
  "dictReplace ht key val m =
     do {
       (r, ht, m) \<leftarrow> dictAdd ht key val m;
       if r = DICT_OK then Some (1, ht, m)
       else do {
         entry \<leftarrow> dictFind ht key;
         auxentry \<leftarrow> entry;
         (v, m) \<leftarrow> dictSetHashVal ht val m;
         c \<leftarrow> tab_get (d_table ht) (int (slot ht key));
         t \<leftarrow> tab_set (d_table ht) (int (slot ht key)) (chain_set ht key v c);
         Some (0, ht\<lparr>d_table := t\<rparr>, dictFreeEntryVal ht auxentry m)
       }
     }"

text \<open>The chain without the first entry with an equal key, and that entry.\<close>

fun chain_del :: "('k, 'v, 'w) dict \<Rightarrow> 'k \<Rightarrow> ('k, 'v) chain \<Rightarrow> (('k, 'v) dictEntry \<times> ('k, 'v) chain) option" where
  "chain_del ht key [] = None"
| "chain_del ht key (de # rest) =
     (if dictCompareHashKeys ht key (de_key de) then Some (de, rest)
      else case chain_del ht key rest of Some (e, r) \<Rightarrow> Some (e, de # r) | None \<Rightarrow> None)"

definition dictDelete ::
    "('k, 'v, 'w) dict \<Rightarrow> 'k \<Rightarrow> 'w dmem \<Rightarrow> (int \<times> ('k, 'v, 'w) dict \<times> 'w dmem) option" where
  "dictDelete ht key m =
     (if d_size ht = 0 then Some (DICT_ERR, ht, m)
      else do {
        let h = int (slot ht key);
        c \<leftarrow> tab_get (d_table ht) h;
        case chain_del ht key c of
          None \<Rightarrow> Some (DICT_ERR, ht, m)
        | Some (de, c) \<Rightarrow>
            do {
              t \<leftarrow> tab_set (d_table ht) h c;
              let m = dictFreeEntryVal ht de (dictFreeEntryKey ht de m);
              Some (DICT_OK, ht\<lparr>d_table := t, d_used := to_size (int (d_used ht) - 1)\<rparr>, m)
            }
      })"

section \<open>Clearing\<close>

fun clear_chain :: "('k, 'v, 'w) dict \<Rightarrow> ('k, 'v) chain \<Rightarrow> nat \<Rightarrow> 'w dmem \<Rightarrow> nat \<times> 'w dmem" where
  "clear_chain ht [] used m = (used, m)"
| "clear_chain ht (he # nextHe) used m =
     clear_chain ht nextHe (to_size (int used - 1)) (dictFreeEntryVal ht he (dictFreeEntryKey ht he m))"

fun clear_loop :: "('k, 'v, 'w) dict \<Rightarrow> nat \<Rightarrow> nat \<Rightarrow> nat \<Rightarrow> 'w dmem \<Rightarrow> 'w dmem option" where
  "clear_loop ht i 0 used m = Some m"
| "clear_loop ht i (Suc k) used m =
     (if used > 0
      then do {
        he \<leftarrow> tab_get (d_table ht) (int i);
        let (used, m) = clear_chain ht he used m;
        clear_loop ht (i + 1) k used m
      }
      else Some m)"

definition dictClear :: "('k, 'v, 'w) dict \<Rightarrow> 'w dmem \<Rightarrow> (int \<times> ('k, 'v, 'w) dict \<times> 'w dmem) option" where
  "dictClear ht m =
     do { m \<leftarrow> clear_loop ht 0 (d_size ht) (d_used ht) m; Some (DICT_OK, dictReset ht, m) }"

text \<open>\<^verbatim>\<open>free(ht)\<close> ends the life of the table; what remains is the memory.\<close>

definition dictRelease :: "('k, 'v, 'w) dict \<Rightarrow> 'w dmem \<Rightarrow> 'w dmem option" where
  "dictRelease ht m = do { (r, ht, m) \<leftarrow> dictClear ht m; Some m }"

section \<open>Iterating\<close>

text \<open>\<^verbatim>\<open>nextEntry\<close> is the rest of the chain it points to.\<close>

record ('k, 'v) dictIterator =
  it_index :: int
  it_entry :: "('k, 'v) dictEntry option"
  it_nextEntry :: "('k, 'v) chain"

definition dictGetIterator :: "'w dmem \<Rightarrow> (('k, 'v) dictIterator \<times> 'w dmem) option" where
  "dictGetIterator m =
     (let (ok, m) = dm_malloc m
      in if ok then Some (\<lparr>it_index = - 1, it_entry = None, it_nextEntry = []\<rparr>, m) else None)"

text \<open>The loop of \<^verbatim>\<open>dictNext\<close>.\<close>

partial_function (option) dictNext ::
    "('k, 'v, 'w) dict \<Rightarrow> ('k, 'v) dictIterator \<Rightarrow> (('k, 'v) dictEntry option \<times> ('k, 'v) dictIterator) option" where
  "dictNext ht iter =
     (if it_entry iter = None
      then (let index = s32 (it_index iter + 1); iter = iter\<lparr>it_index := index\<rparr>
            in if index \<ge> s32 (int (d_size ht)) then Some (None, iter)
               else do {
                 c \<leftarrow> tab_get (d_table ht) index;
                 case c of
                   e # r \<Rightarrow> Some (Some e, iter\<lparr>it_entry := Some e, it_nextEntry := r\<rparr>)
                 | [] \<Rightarrow> dictNext ht (iter\<lparr>it_entry := None\<rparr>)
               })
      else (case it_nextEntry iter of
              e # r \<Rightarrow> Some (Some e, iter\<lparr>it_entry := Some e, it_nextEntry := r\<rparr>)
            | [] \<Rightarrow> dictNext ht (iter\<lparr>it_entry := None\<rparr>)))"

text \<open>\<^verbatim>\<open>while ((de = dictNext(it)) != NULL)\<close>: the entries met.\<close>

partial_function (option) dict_entries ::
    "('k, 'v, 'w) dict \<Rightarrow> ('k, 'v) dictIterator \<Rightarrow> ('k, 'v) dictEntry list option" where
  "dict_entries ht iter =
     do {
       (de, iter) \<leftarrow> dictNext ht iter;
       case de of None \<Rightarrow> Some [] | Some e \<Rightarrow> do { es \<leftarrow> dict_entries ht iter; Some (e # es) }
     }"

section \<open>What a table stands for\<close>

text \<open>The entries of a table, in any order.\<close>

definition ents :: "('k, 'v, 'w) dict \<Rightarrow> ('k, 'v) dictEntry multiset" where
  "ents ht = (case d_table ht of Some t \<Rightarrow> mset (concat t) | None \<Rightarrow> {#})"

definition cmp :: "('k, 'v, 'w) dictType \<Rightarrow> ptr \<Rightarrow> 'k \<Rightarrow> 'k \<Rightarrow> bool" where
  "cmp T priv k1 k2 = (case keyCompare T of Some f \<Rightarrow> f priv k1 k2 | None \<Rightarrow> k1 = k2)"

definition keys_unique :: "('k \<Rightarrow> 'k \<Rightarrow> bool) \<Rightarrow> ('k, 'v) dictEntry multiset \<Rightarrow> bool" where
  "keys_unique eq M \<longleftrightarrow> (\<forall>e \<in># M. \<forall>e' \<in># M - {#e#}. \<not> eq (de_key e) (de_key e'))"

text \<open>Every entry is in the chain its hash selects.\<close>

definition slots_ok :: "('k, 'v, 'w) dictType \<Rightarrow> nat \<Rightarrow> ('k, 'v) chain list \<Rightarrow> bool" where
  "slots_ok T k t \<longleftrightarrow> length t = 2 ^ k \<and>
     (\<forall>i < length t. \<forall>e \<in> set (t ! i). take_bit k (unat (hashFunction T (de_key e))) = i)"

definition dict_ok :: "('k, 'v, 'w) dict \<Rightarrow> bool" where
  "dict_ok ht \<longleftrightarrow> d_used ht = size (ents ht) \<and> d_used ht \<le> d_size ht \<and>
     keys_unique (cmp (d_type ht) (d_privdata ht)) (ents ht) \<and>
     (case d_table ht of
        None \<Rightarrow> d_size ht = 0
      | Some t \<Rightarrow> \<exists>k. 2 \<le> k \<and> k \<le> 31 \<and> d_size ht = 2 ^ k \<and> d_sizemask ht = 2 ^ k - 1 \<and> slots_ok (d_type ht) k t)"

lemma compare_cmp [simp]: "dictCompareHashKeys ht = cmp (d_type ht) (d_privdata ht)"
  by (simp add: dictCompareHashKeys_def cmp_def fun_eq_iff split: option.splits)

section \<open>Slots and chains\<close>

lemma slot_less_31:
  assumes "k \<le> 31"
  shows "take_bit k (n :: nat) < 2 ^ 31"
proof -
  have "(2 :: nat) ^ k \<le> 2 ^ 31" using assms by (intro power_increasing) auto
  then show ?thesis using take_bit_nat_less_exp [of k n] by linarith
qed

lemma slot_eq:
  assumes "sizemask = 2 ^ k - 1" "k \<le> 31"
  shows "hash_slot T sizemask key = take_bit k (unat (hashFunction T key))"
proof -
  have "take_bit k (unat (hashFunction T key)) < 2 ^ 32"
    using slot_less_31 [OF assms(2), of "unat (hashFunction T key)"] by simp
  then show ?thesis
    unfolding hash_slot_def assms(1) mask_eq_exp_minus_1 [symmetric] take_bit_eq_mask [symmetric] by (rule u32_id)
qed

lemma mset_concat_update:
  "i < length t \<Longrightarrow> mset (concat (t[i := c])) + mset (t ! i) = mset (concat t) + mset c"
proof (induction t arbitrary: i)
  case (Cons x t)
  then show ?case by (cases i) (auto simp: ac_simps)
qed simp

lemma tab_simps [simp]:
  "i < length t \<Longrightarrow> tab_get (Some t) (int i) = Some (t ! i)"
  "i < length t \<Longrightarrow> tab_set (Some t) (int i) c = Some (Some (t[i := c]))"
  by (simp_all add: tab_get_def tab_set_def)

lemma chain_find_None: "chain_find ht key c = None \<longleftrightarrow> (\<forall>e \<in> set c. \<not> dictCompareHashKeys ht key (de_key e))"
  by (induction c) auto

lemma chain_find_Some: "chain_find ht key c = Some e \<Longrightarrow> e \<in> set c \<and> dictCompareHashKeys ht key (de_key e)"
  by (induction c) (auto split: if_splits)

lemma chain_del_None: "chain_del ht key c = None \<longleftrightarrow> (\<forall>e \<in> set c. \<not> dictCompareHashKeys ht key (de_key e))"
  by (induction c) (auto split: option.splits)

lemma chain_del_Some:
  "chain_del ht key c = Some (e, r) \<Longrightarrow> mset c = add_mset e (mset r) \<and> dictCompareHashKeys ht key (de_key e)"
proof (induction c arbitrary: r)
  case (Cons d c)
  then show ?case by (fastforce split: if_splits option.splits)
qed simp

lemma chain_set_mset:
  assumes "chain_find ht key c = Some e"
  shows "add_mset e (mset (chain_set ht key v c)) = add_mset (e\<lparr>de_val := v\<rparr>) (mset c)"
  using assms by (induction c) (auto split: if_splits simp: add_mset_commute)

section \<open>The size of a table\<close>

lemma next_power_eq:
  assumes "i = 2 ^ j" "j \<le> k" "n \<le> 2 ^ k" "k \<le> 63"
  shows "\<exists>l. next_power i n = Some (2 ^ l) \<and> j \<le> l \<and> l \<le> k \<and> n \<le> 2 ^ l \<and> (j < l \<longrightarrow> 2 ^ (l - 1) < n)"
  using assms
proof (induction "k - j" arbitrary: i j)
  case 0
  then have "j = k" by simp
  then show ?case using 0 by (subst next_power.simps) auto
next
  case (Suc d)
  show ?case
  proof (cases "n \<le> i")
    case True
    then show ?thesis using Suc.prems by (subst next_power.simps) auto
  next
    case False
    have d: "d = k - Suc j" and "j < k" using Suc.hyps(2) by simp_all
    then have "(2 :: nat) ^ Suc j \<le> 2 ^ 63" using Suc.prems(4) by (intro power_increasing) auto
    then have u: "u64 (i * 2) = 2 ^ Suc j" using Suc.prems(1) by (simp add: u64_id)
    obtain l where l: "next_power (2 ^ Suc j) n = Some (2 ^ l)" "Suc j \<le> l" "l \<le> k" "n \<le> 2 ^ l" "Suc j < l \<longrightarrow> 2 ^ (l - 1) < n"
      using Suc.hyps(1) [OF _ refl, of "Suc j"] d Suc.prems \<open>j < k\<close> by auto
    have "2 ^ (l - 1) < n" using l(2,5) False Suc.prems(1) by (cases "l = Suc j") auto
    then show ?thesis using False u l by (subst next_power.simps) (auto intro!: exI [of _ l])
  qed
qed

text \<open>Below two to the 63 the loop ends, with the least power of two that is at least 4 and not below the request.\<close>

lemma dictNextPower_eq:
  assumes "n < LONG_MAX"
  shows "\<exists>l. dictNextPower n = Some (2 ^ l) \<and> 2 \<le> l \<and> l \<le> 63 \<and> n \<le> 2 ^ l \<and> (2 < l \<longrightarrow> 2 ^ (l - 1) < n)"
  using next_power_eq [of 4 2 63 n] assms by (auto simp: dictNextPower_def DICT_HT_INITIAL_SIZE_def LONG_MAX_def)

lemma dictNextPower_exp:
  assumes "2 \<le> l" "l \<le> 32"
  shows "dictNextPower (2 ^ l) = Some (2 ^ l)"
proof -
  have le: "(2 :: nat) ^ l \<le> 2 ^ 32" using assms(2) by (intro power_increasing) auto
  then have "(2 :: nat) ^ l < LONG_MAX" by (simp add: LONG_MAX_def)
  then obtain j where j: "dictNextPower (2 ^ l) = Some (2 ^ j)" "2 \<le> j" "(2 :: nat) ^ l \<le> 2 ^ j" "2 < j \<longrightarrow> (2 :: nat) ^ (j - 1) < 2 ^ l"
    using dictNextPower_eq [of "2 ^ l"] by blast
  have "l \<le> j" using j(3) by (simp only: power_increasing_iff one_less_numeral_iff semiring_norm)
  moreover have "j \<le> l"
  proof (cases "j = 2")
    case False
    then have "j - 1 < l" using j(2,4) by (simp add: power_strict_increasing_iff)
    then show ?thesis by simp
  qed (use assms(1) in simp)
  ultimately show ?thesis using j(1) by simp
qed

section \<open>Expanding keeps the entries\<close>

lemma expand_chain_ok:
  assumes "d_table n = Some t" "slots_ok (d_type ht) k t" "d_sizemask n = 2 ^ k - 1" "k \<le> 31"
    "length c \<le> used" "used < 2 ^ 64"
  shows "\<exists>t'. expand_chain ht c n used = Some (n\<lparr>d_table := Some t'\<rparr>, used - length c) \<and>
    slots_ok (d_type ht) k t' \<and> mset (concat t') = mset (concat t) + mset c"
  using assms
proof (induction c arbitrary: n t used)
  case Nil
  then show ?case by (intro exI [of _ t]) simp
next
  case (Cons e c)
  let ?h = "take_bit k (unat (hashFunction (d_type ht) (de_key e)))"
  let ?t = "t[?h := e # t ! ?h]"
  have h: "?h < length t" using Cons.prems(2) take_bit_nat_less_exp by (simp add: slots_ok_def)
  have l: "length c \<le> used - 1" "used - 1 < 2 ^ 64" using Cons.prems(5,6) by (simp_all add: le_diff_conv2)
  have u: "to_size (int used - 1) = used - 1" using Cons.prems(5,6) by (simp add: to_size_id)
  have s: "slots_ok (d_type ht) k ?t"
    using Cons.prems(2) h by (auto simp: slots_ok_def nth_list_update)
  have m: "mset (concat ?t) = add_mset e (mset (concat t))"
    using mset_concat_update [OF h, of "e # t ! ?h"] by simp
  obtain t' where "expand_chain ht c (n\<lparr>d_table := Some ?t\<rparr>) (used - 1) =
      Some (n\<lparr>d_table := Some t'\<rparr>, used - 1 - length c)" "slots_ok (d_type ht) k t'"
    "mset (concat t') = mset (concat ?t) + mset c"
    using Cons.IH [of "n\<lparr>d_table := Some ?t\<rparr>" ?t "used - 1"] s l Cons.prems(3,4) by auto
  then show ?case
    using Cons.prems(1) h u m by (intro exI [of _ t']) (simp add: slot_eq [OF Cons.prems(3,4)])
qed

lemma expand_loop_ok:
  assumes "d_table ht = Some s" "i + j = length s" "used = length (concat (drop i s))" "used < 2 ^ 64"
    "d_table n = Some t" "slots_ok (d_type ht) k t" "d_sizemask n = 2 ^ k - 1" "k \<le> 31"
  shows "\<exists>t'. expand_loop ht i j n used = Some (n\<lparr>d_table := Some t'\<rparr>, 0) \<and>
    slots_ok (d_type ht) k t' \<and> mset (concat t') = mset (concat t) + mset (concat (drop i s))"
  using assms
proof (induction j arbitrary: i used n t)
  case 0
  then show ?case by (intro exI [of _ t]) simp
next
  case (Suc j)
  show ?case
  proof (cases "used = 0")
    case True
    then have "concat (drop i s) = []" using Suc.prems(3) by simp
    then show ?thesis using Suc.prems True by (intro exI [of _ t]) simp
  next
    case False
    have i: "i < length s" using Suc.prems(2) by simp
    then have d: "drop i s = s ! i # drop (Suc i) s" by (rule Cons_nth_drop_Suc [symmetric])
    obtain t1 where t1: "expand_chain ht (s ! i) n used = Some (n\<lparr>d_table := Some t1\<rparr>, used - length (s ! i))"
      "slots_ok (d_type ht) k t1" "mset (concat t1) = mset (concat t) + mset (s ! i)"
      using expand_chain_ok [OF Suc.prems(5-8), of "s ! i" used] Suc.prems(3,4) by (auto simp: d)
    obtain t' where "expand_loop ht (Suc i) j (n\<lparr>d_table := Some t1\<rparr>) (used - length (s ! i)) =
        Some (n\<lparr>d_table := Some t'\<rparr>, 0)" "slots_ok (d_type ht) k t'"
      "mset (concat t') = mset (concat t1) + mset (concat (drop (Suc i) s))"
      using Suc.IH [of "Suc i" "used - length (s ! i)" "n\<lparr>d_table := Some t1\<rparr>" t1] Suc.prems t1(2) by (auto simp: d)
    then show ?thesis
      using Suc.prems(1) False i t1 by (intro exI [of _ t']) (simp add: d)
  qed
qed

lemma slots_ok_replicate: "slots_ok T k (replicate (2 ^ k) [])"
  by (simp add: slots_ok_def)

lemma mset_concat_replicate [simp]: "concat (replicate n []) = []"
  by (induction n) auto

definition same_entries :: "('k, 'v, 'w) dict \<Rightarrow> ('k, 'v, 'w) dict \<Rightarrow> bool" where
  "same_entries ht ht' \<longleftrightarrow> d_type ht' = d_type ht \<and> d_privdata ht' = d_privdata ht \<and> ents ht' = ents ht"

text \<open>A refused allocation is a fault as soon as the table is used.\<close>

lemma dictExpand_ok:
  assumes ok: "dict_ok ht" and g: "dm_grants m (dm_requests m)" and k: "2 \<le> k" "k \<le> 31" and used: "d_used ht \<le> 2 ^ k"
  shows "\<exists>ht'. dictExpand ht (2 ^ k) m = Some (DICT_OK, ht', m\<lparr>dm_requests := dm_requests m + 1\<rparr>) \<and>
    dict_ok ht' \<and> same_entries ht ht' \<and> d_size ht' = 2 ^ k \<and> d_used ht' = d_used ht"
proof -
  have np: "dictNextPower (2 ^ k) = Some (2 ^ k)" using k by (intro dictNextPower_exp) auto
  have K: "(2 :: nat) ^ k \<le> 2 ^ 31" using k by (intro power_increasing) auto
  define new where "new = \<lparr>d_table = Some (replicate (2 ^ k) []), d_type = d_type ht, d_size = 2 ^ k,
    d_sizemask = 2 ^ k - 1, d_used = d_used ht, d_privdata = d_privdata ht\<rparr>"
  have "\<exists>t'. expand_loop ht 0 (d_size ht) new (d_used ht) = Some (new\<lparr>d_table := Some t'\<rparr>, 0) \<and>
      slots_ok (d_type ht) k t' \<and> mset (concat t') = ents ht"
  proof (cases "d_table ht")
    case None
    then have "d_size ht = 0" "d_used ht = 0" using ok by (simp_all add: dict_ok_def ents_def)
    then show ?thesis
      using None by (intro exI [of _ "replicate (2 ^ k) []"]) (simp add: new_def slots_ok_replicate ents_def)
  next
    case (Some s)
    then have "d_size ht = length s" "d_used ht = length (concat s)"
      using ok unfolding dict_ok_def ents_def slots_ok_def by (auto simp: size_mset [symmetric] simp del: size_mset)
    then show ?thesis
      using expand_loop_ok [OF Some, of 0 "length s" "d_used ht" new "replicate (2 ^ k) []" k] used K k(2) Some
      by (auto simp: new_def slots_ok_replicate ents_def)
  qed
  then obtain t' where t': "expand_loop ht 0 (d_size ht) new (d_used ht) = Some (new\<lparr>d_table := Some t'\<rparr>, 0)"
      "slots_ok (d_type ht) k t'" "mset (concat t') = ents ht" by blast
  let ?new = "new\<lparr>d_table := Some t'\<rparr>"
  have "dictExpand ht (2 ^ k) m = Some (DICT_OK, ?new, m\<lparr>dm_requests := dm_requests m + 1\<rparr>)"
    using np used g t'(1) by (simp add: dictExpand_def dictInit_def dm_malloc_def new_def)
  moreover have "dict_ok ?new"
    using ok k t' used by (auto simp: dict_ok_def new_def ents_def)
  ultimately show ?thesis using t'(3) by (auto simp: same_entries_def new_def ents_def)
qed

section \<open>The contract of a table\<close>

text \<open>
  What a table asks of the functions of its type: an equivalence on keys that the hash
  respects, and keys that are stored as they are given. What it promises in return is a
  finite map, up to that equivalence.
\<close>

definition table_of :: "('k, 'v, 'w) dictType \<Rightarrow> ptr \<Rightarrow> ('k, 'v, 'w) dict \<Rightarrow> bool" where
  "table_of T priv ht \<longleftrightarrow> dict_ok ht \<and> d_type ht = T \<and> d_privdata ht = priv"

text \<open>The value that is stored for a given one.\<close>

definition stored :: "('k, 'v, 'w) dictType \<Rightarrow> ptr \<Rightarrow> 'v \<Rightarrow> 'w \<Rightarrow> ('v \<times> 'w) option" where
  "stored T priv v w = (case valDup T of Some f \<Rightarrow> f priv v w | None \<Rightarrow> Some (v, w))"

lemma dictSetHashVal_stored:
  "dictSetHashVal ht v m = map_option (\<lambda>(v, w). (v, m\<lparr>dm_user := w\<rparr>)) (stored (d_type ht) (d_privdata ht) v (dm_user m))"
  by (auto simp: dictSetHashVal_def stored_def split: option.splits Option.bind_splits)

text \<open>The map a table stands for.\<close>

definition maps :: "('k, 'v, 'w) dict \<Rightarrow> 'k \<Rightarrow> 'v \<Rightarrow> bool" where
  "maps ht k v \<longleftrightarrow> (\<exists>e \<in># ents ht. cmp (d_type ht) (d_privdata ht) k (de_key e) \<and> de_val e = v)"

locale dict_type =
  fixes T :: "('k, 'v, 'w) dictType" and priv :: ptr
  assumes cmp_refl: "cmp T priv k k"
    and cmp_sym: "cmp T priv k l \<Longrightarrow> cmp T priv l k"
    and cmp_trans: "cmp T priv k l \<Longrightarrow> cmp T priv l j \<Longrightarrow> cmp T priv k j"
    and cmp_hash: "cmp T priv k l \<Longrightarrow> hashFunction T k = hashFunction T l"
    and no_keyDup: "keyDup T = None"
begin

lemma table_ofD:
  assumes "table_of T priv ht"
  shows "d_used ht = size (ents ht)" "d_used ht \<le> d_size ht" "keys_unique (cmp T priv) (ents ht)"
    "d_type ht = T" "d_privdata ht = priv"
  using assms by (auto simp: table_of_def dict_ok_def)

lemma unique:
  assumes "keys_unique (cmp T priv) M" "e \<in># M" "e' \<in># M" "cmp T priv k (de_key e)" "cmp T priv k (de_key e')"
  shows "e = e'"
proof (rule ccontr)
  assume "e \<noteq> e'"
  then have "e' \<in># M - {#e#}" using assms(3) by (simp add: in_diff_count)
  moreover have "cmp T priv (de_key e) (de_key e')" using assms(4,5) cmp_sym cmp_trans by blast
  ultimately show False using assms(1,2) by (auto simp: keys_unique_def)
qed

lemma unique_add:
  assumes "keys_unique (cmp T priv) M" "\<And>e. e \<in># M \<Longrightarrow> \<not> cmp T priv k (de_key e)"
  shows "keys_unique (cmp T priv) (add_mset \<lparr>de_key = k, de_val = v\<rparr> M)"
proof -
  have "\<not> cmp T priv (de_key e) (de_key e')"
    if e: "e \<in># add_mset \<lparr>de_key = k, de_val = v\<rparr> M" and e': "e' \<in># add_mset \<lparr>de_key = k, de_val = v\<rparr> M - {#e#}" for e e'
  proof (cases "e = \<lparr>de_key = k, de_val = v\<rparr>")
    case True
    then show ?thesis using e' assms(2) by auto
  next
    case False
    then have m: "e \<in># M" using e by simp
    then show ?thesis
      using e' False assms cmp_sym [of "de_key e" k] by (cases "e' = \<lparr>de_key = k, de_val = v\<rparr>") (auto simp: keys_unique_def)
  qed
  then show ?thesis by (simp add: keys_unique_def)
qed

lemma unique_sub:
  assumes "keys_unique eq M" "N \<subseteq># M"
  shows "keys_unique eq N"
proof -
  have "e' \<in># M - {#e#}" if "e' \<in># N - {#e#}" for e e'
    using that mset_subset_eq_count [OF assms(2), of e'] by (simp add: in_diff_count)
  then show ?thesis using assms mset_subset_eqD [OF assms(2)] unfolding keys_unique_def by blast
qed

text \<open>The chain a key selects holds every entry with an equal key.\<close>

lemma chain_of:
  assumes "table_of T priv ht" "d_size ht \<noteq> 0"
  obtains t k where "d_table ht = Some t" "slot ht key < length t" "length t = 2 ^ k" "2 \<le> k" "k \<le> 31" "d_size ht = 2 ^ k"
    "d_sizemask ht = 2 ^ k - 1" "slots_ok T k t" "ents ht = mset (concat t)"
    "\<And>e. e \<in># ents ht \<Longrightarrow> cmp T priv key (de_key e) \<Longrightarrow> e \<in> set (t ! slot ht key)"
    "set (t ! slot ht key) \<subseteq> set_mset (ents ht)" "slot ht key = take_bit k (unat (hashFunction T key))"
proof -
  obtain t where t: "d_table ht = Some t" using assms by (auto simp: table_of_def dict_ok_def split: option.splits)
  then obtain k where k: "2 \<le> k" "k \<le> 31" "d_size ht = 2 ^ k" "d_sizemask ht = 2 ^ k - 1" "slots_ok T k t"
    using assms(1) by (auto simp: table_of_def dict_ok_def)
  have T: "d_type ht = T" using assms(1) by (simp add: table_of_def)
  have sl: "slot ht key = take_bit k (unat (hashFunction T key))" for key
    using slot_eq [OF k(4,2)] by (simp add: slot_def T)
  have len: "length t = 2 ^ k" using k(5) by (simp add: slots_ok_def)
  then have lt: "slot ht key < length t" by (simp add: sl)
  have E: "ents ht = mset (concat t)" by (simp add: ents_def t)
  show thesis
  proof (rule that [OF t lt len k(1,2,3,4,5) E _ _ sl])
    fix e assume "e \<in># ents ht" "cmp T priv key (de_key e)"
    then obtain i where i: "i < length t" "e \<in> set (t ! i)" by (auto simp: E in_set_conv_nth [of _ t])
    then have "take_bit k (unat (hashFunction T (de_key e))) = i" using k(5) by (auto simp: slots_ok_def)
    then show "e \<in> set (t ! slot ht key)"
      using i cmp_hash [OF \<open>cmp T priv key (de_key e)\<close>] by (simp add: sl)
  next
    show "set (t ! slot ht key) \<subseteq> set_mset (ents ht)" using lt by (auto simp: E intro: nth_mem)
  qed
qed

lemma dictFind_finds:
  assumes "table_of T priv ht"
  shows "\<exists>r. dictFind ht key = Some r \<and>
    (case r of Some e \<Rightarrow> e \<in># ents ht \<and> cmp T priv key (de_key e) | None \<Rightarrow> \<forall>e \<in># ents ht. \<not> cmp T priv key (de_key e))"
proof (cases "d_size ht = 0")
  case True
  then have "ents ht = {#}" using assms by (auto simp: table_of_def dict_ok_def)
  then show ?thesis using True by (simp add: dictFind_def)
next
  case False
  have T: "d_type ht = T" "d_privdata ht = priv" using assms by (simp_all add: table_of_def)
  obtain t where t: "d_table ht = Some t" "slot ht key < length t"
    "\<And>e. e \<in># ents ht \<Longrightarrow> cmp T priv key (de_key e) \<Longrightarrow> e \<in> set (t ! slot ht key)"
    "set (t ! slot ht key) \<subseteq> set_mset (ents ht)" using chain_of [OF assms False] by metis
  then show ?thesis
    using False T chain_find_Some [of ht key "t ! slot ht key"] chain_find_None [of ht key "t ! slot ht key"]
    by (auto simp: dictFind_def split: option.splits)
qed

lemma dictFind_maps:
  assumes "table_of T priv ht"
  shows "\<exists>r. dictFind ht key = Some r \<and> (\<forall>v. maps ht key v \<longleftrightarrow> map_option de_val r = Some v)"
proof -
  obtain r where r: "dictFind ht key = Some r"
    "case r of Some e \<Rightarrow> e \<in># ents ht \<and> cmp T priv key (de_key e) | None \<Rightarrow> \<forall>e \<in># ents ht. \<not> cmp T priv key (de_key e)"
    using dictFind_finds [OF assms] by blast
  moreover have "keys_unique (cmp T priv) (ents ht)" "d_type ht = T" "d_privdata ht = priv"
    using assms by (auto simp: table_of_def dict_ok_def)
  ultimately show ?thesis
    using unique by (fastforce simp: maps_def split: option.splits)
qed

lemma dictExpandIfNeeded_ok:
  assumes "table_of T priv ht" "\<And>n. dm_grants m n" "d_used ht < 2 ^ 31"
  shows "\<exists>ht' m'. dictExpandIfNeeded ht m = Some (DICT_OK, ht', m') \<and> table_of T priv ht' \<and> ents ht' = ents ht \<and>
    d_size ht' \<noteq> 0 \<and> d_used ht' < d_size ht' \<and> dm_grants m' = dm_grants m \<and> dm_user m' = dm_user m"
proof -
  have ok: "dict_ok ht" "d_type ht = T" "d_privdata ht = priv" using assms(1) by (simp_all add: table_of_def)
  consider "d_size ht = 0" | "d_size ht \<noteq> 0" "d_used ht = d_size ht" | "d_size ht \<noteq> 0" "d_used ht \<noteq> d_size ht" by blast
  then show ?thesis
  proof cases
    case 1
    moreover have "d_used ht \<le> d_size ht" using ok(1) unfolding dict_ok_def by blast
    ultimately have "d_used ht = 0" by simp
    then obtain ht' where "dictExpand ht (2 ^ 2) m = Some (DICT_OK, ht', m\<lparr>dm_requests := dm_requests m + 1\<rparr>)"
      "dict_ok ht'" "same_entries ht ht'" "d_size ht' = 2 ^ 2" "d_used ht' = 0"
      using dictExpand_ok [OF ok(1) assms(2), of 2] by auto
    then show ?thesis
      using 1 ok unfolding table_of_def same_entries_def by (simp add: dictExpandIfNeeded_def DICT_HT_INITIAL_SIZE_def)
  next
    case 2
    obtain t k where k: "2 \<le> k" "d_size ht = 2 ^ k" using chain_of [OF assms(1) 2(1)] by metis
    have "k < 31"
    proof (rule ccontr)
      assume "\<not> k < 31"
      then have "(2 :: nat) ^ 31 \<le> 2 ^ k" by (intro power_increasing) auto
      then show False using 2(2) k(2) assms(3) by simp
    qed
    then have "(2 :: nat) ^ Suc k \<le> 2 ^ 31" by (intro power_increasing) auto
    then have u: "u64 (d_size ht * 2) = 2 ^ Suc k" using k(2) by (simp add: u64_id)
    obtain ht' where "dictExpand ht (2 ^ Suc k) m = Some (DICT_OK, ht', m\<lparr>dm_requests := dm_requests m + 1\<rparr>)"
      "dict_ok ht'" "same_entries ht ht'" "d_size ht' = 2 ^ Suc k" "d_used ht' = d_used ht"
      using dictExpand_ok [OF ok(1) assms(2), of "Suc k"] 2(2) k \<open>k < 31\<close> by auto
    then show ?thesis
      using 2 u k ok unfolding table_of_def same_entries_def by (simp add: dictExpandIfNeeded_def)
  next
    case 3
    then show ?thesis using assms(1) ok(1) by (auto simp: dictExpandIfNeeded_def dict_ok_def)
  qed
qed

text \<open>Storing a chain: the entries change by what the chain gains and loses.\<close>

lemma table_store:
  assumes ok: "table_of T priv ht" and t: "d_table ht = Some t" "slot ht key < length t" "d_size ht = 2 ^ k" "2 \<le> k" "k \<le> 31"
    "d_sizemask ht = 2 ^ k - 1" "slots_ok T k t" "ents ht = mset (concat t)"
    and s: "slot ht key = take_bit k (unat (hashFunction T key))"
    and c: "\<And>e. e \<in> set c \<Longrightarrow> e \<in> set (t ! slot ht key) \<or> hashFunction T (de_key e) = hashFunction T key"
    and M: "M + mset (t ! slot ht key) = ents ht + mset c"
    and used: "u = size M" "u \<le> d_size ht" and unq: "keys_unique (cmp T priv) M"
  shows "table_of T priv (ht\<lparr>d_table := Some (t[slot ht key := c]), d_used := u\<rparr>) \<and>
    ents (ht\<lparr>d_table := Some (t[slot ht key := c]), d_used := u\<rparr>) = M"
proof -
  have "mset (concat (t[slot ht key := c])) + mset (t ! slot ht key) = M + mset (t ! slot ht key)"
    using mset_concat_update [OF t(2), of c] M t(8) by simp
  then have M': "mset (concat (t[slot ht key := c])) = M" by simp
  have "take_bit k (unat (hashFunction T (de_key e))) = slot ht key" if "e \<in> set c" for e
    using c [OF that] t(2,7) s by (auto simp: slots_ok_def)
  then have "slots_ok T k (t[slot ht key := c])"
    using t(2,7) by (auto simp: slots_ok_def nth_list_update)
  then show ?thesis
    using ok t used unq M' by (auto simp: table_of_def dict_ok_def ents_def)
qed

lemma dictAdd_ok:
  assumes ok: "table_of T priv ht" and g: "\<And>n. dm_grants m n" and used: "d_used ht < 2 ^ 31"
    and dup: "stored T priv val (dm_user m) = Some (v, w)"
  shows "\<exists>r ht' m'. dictAdd ht key val m = Some (r, ht', m') \<and> table_of T priv ht' \<and> dm_grants m' = dm_grants m \<and>
    (if \<exists>e \<in># ents ht. cmp T priv key (de_key e) then r = DICT_ERR \<and> ents ht' = ents ht \<and> dm_user m' = dm_user m
     else r = DICT_OK \<and> ents ht' = add_mset \<lparr>de_key = key, de_val = v\<rparr> (ents ht) \<and> dm_user m' = w)"
proof -
  obtain h1 m1 where 1: "dictExpandIfNeeded ht m = Some (DICT_OK, h1, m1)" "table_of T priv h1" "ents h1 = ents ht"
    "d_size h1 \<noteq> 0" "d_used h1 < d_size h1" "dm_grants m1 = dm_grants m" "dm_user m1 = dm_user m"
    using dictExpandIfNeeded_ok [OF ok g used] by blast
  have T: "d_type h1 = T" "d_privdata h1 = priv" and ok1: "dict_ok h1" using 1(2) by (simp_all add: table_of_def)
  obtain t k where t: "d_table h1 = Some t" "slot h1 key < length t" "length t = 2 ^ k" "2 \<le> k" "k \<le> 31" "d_size h1 = 2 ^ k"
    "d_sizemask h1 = 2 ^ k - 1" "slots_ok T k t" "ents h1 = mset (concat t)"
    and E: "\<And>e. e \<in># ents h1 \<Longrightarrow> cmp T priv key (de_key e) \<Longrightarrow> e \<in> set (t ! slot h1 key)"
    "set (t ! slot h1 key) \<subseteq> set_mset (ents h1)" and sl: "slot h1 key = take_bit k (unat (hashFunction T key))"
    using chain_of [OF 1(2,4), of key] by metis
  have neq: "DICT_OK \<noteq> DICT_ERR" by (simp add: DICT_OK_def DICT_ERR_def)
  show ?thesis
  proof (cases "chain_find h1 key (t ! slot h1 key)")
    case (Some e)
    then have "e \<in># ents ht" "cmp T priv key (de_key e)" using chain_find_Some [OF Some] E(2) 1(3) T by auto
    moreover have "dictAdd ht key val m = Some (DICT_ERR, h1, m1)"
      using 1(1) t(1,2) Some neq by (simp add: dictAdd_def dictKeyIndex_def)
    ultimately show ?thesis using 1 by auto
  next
    case None
    then have no: "\<not> cmp T priv key (de_key e)" if "e \<in># ents ht" for e
      using E(1) that 1(3) T by (auto simp: chain_find_None)
    have "slot h1 key < 2 ^ 31" using slot_less_31 [OF t(5)] by (simp add: sl)
    then have ix: "s32 (int (slot h1 key)) = int (slot h1 key)" by (rule s32_of_nat)
    have "d_size h1 \<le> 2 ^ 31" unfolding t(6) using t(5) by (intro power_increasing) auto
    then have u: "u64 (d_used h1 + 1) = d_used h1 + 1" using 1(5) by (intro u64_id) simp
    let ?c = "\<lparr>de_key = key, de_val = v\<rparr> # t ! slot h1 key"
    let ?ht = "h1\<lparr>d_table := Some (t[slot h1 key := ?c]), d_used := d_used h1 + 1\<rparr>"
    have "table_of T priv ?ht \<and> ents ?ht = add_mset \<lparr>de_key = key, de_val = v\<rparr> (ents ht)"
    proof (rule table_store [OF 1(2) t(1,2,6,4,5,7,8,9) sl])
      show "keys_unique (cmp T priv) (add_mset \<lparr>de_key = key, de_val = v\<rparr> (ents ht))"
        using ok1 no T 1(3) by (intro unique_add) (simp_all add: dict_ok_def)
      show "d_used h1 + 1 = size (add_mset \<lparr>de_key = key, de_val = v\<rparr> (ents ht))"
        using ok1 1(3) unfolding dict_ok_def by simp
    qed (use 1(3,5) in auto)
    moreover have "dictAdd ht key val m = Some (DICT_OK, ?ht, m1\<lparr>dm_requests := dm_requests m1 + 1, dm_user := w\<rparr>)"
      using 1(1,6,7) t(1,2) None neq ix u g dup no_keyDup T
      by (simp add: dictAdd_def dictKeyIndex_def dm_malloc_def dictSetHashKey_def dictSetHashVal_stored)
    ultimately show ?thesis using no 1(6) by auto
  qed
qed

lemma dictDelete_ok:
  assumes ok: "table_of T priv ht"
  shows "\<exists>r ht' m'. dictDelete ht key m = Some (r, ht', m') \<and> table_of T priv ht' \<and> dm_grants m' = dm_grants m \<and>
    (if \<exists>e \<in># ents ht. cmp T priv key (de_key e)
     then r = DICT_OK \<and> (\<exists>e \<in># ents ht. cmp T priv key (de_key e) \<and> ents ht' = ents ht - {#e#} \<and>
            m' = dictFreeEntryVal ht e (dictFreeEntryKey ht e m))
     else r = DICT_ERR \<and> ht' = ht \<and> m' = m)"
proof (cases "d_size ht = 0")
  case True
  then have "ents ht = {#}" using ok unfolding table_of_def dict_ok_def by auto
  then show ?thesis using True ok by (simp add: dictDelete_def)
next
  case False
  have T: "d_type ht = T" "d_privdata ht = priv" and ok1: "dict_ok ht" using ok by (simp_all add: table_of_def)
  obtain t k where t: "d_table ht = Some t" "slot ht key < length t" "length t = 2 ^ k" "2 \<le> k" "k \<le> 31" "d_size ht = 2 ^ k"
    "d_sizemask ht = 2 ^ k - 1" "slots_ok T k t" "ents ht = mset (concat t)"
    and E: "\<And>e. e \<in># ents ht \<Longrightarrow> cmp T priv key (de_key e) \<Longrightarrow> e \<in> set (t ! slot ht key)"
    "set (t ! slot ht key) \<subseteq> set_mset (ents ht)" and sl: "slot ht key = take_bit k (unat (hashFunction T key))"
    using chain_of [OF ok False, of key] by metis
  show ?thesis
  proof (cases "chain_del ht key (t ! slot ht key)")
    case None
    then have "\<not> cmp T priv key (de_key e)" if "e \<in># ents ht" for e
      using E(1) that T by (auto simp: chain_del_None)
    then show ?thesis using None False t(1,2) ok by (simp add: dictDelete_def)
  next
    case (Some x)
    obtain e c where x: "x = (e, c)" by (cases x)
    have e: "mset (t ! slot ht key) = add_mset e (mset c)" "cmp T priv key (de_key e)"
      using chain_del_Some [of ht key "t ! slot ht key" e c] Some x T by simp_all
    have ins: "set (t ! slot ht key) = insert e (set c)" using arg_cong [OF e(1), of set_mset] by simp
    then have mem: "e \<in># ents ht" using E(2) by blast
    have "d_used ht = size (ents ht)" using ok1 unfolding dict_ok_def by blast
    then have sz: "d_used ht = Suc (size (ents ht - {#e#}))" using size_Suc_Diff1 [OF mem] by simp
    have K: "d_size ht \<le> 2 ^ 31" unfolding t(6) using t(5) by (intro power_increasing) auto
    have le: "d_used ht \<le> d_size ht" using ok1 by (simp add: dict_ok_def)
    have "0 < d_used ht" "d_used ht \<le> 2 ^ 31" using sz K le by linarith+
    then have u: "to_size (int (d_used ht) - 1) = d_used ht - 1" by (simp add: to_size_id)
    let ?ht = "ht\<lparr>d_table := Some (t[slot ht key := c]), d_used := d_used ht - 1\<rparr>"
    have "table_of T priv ?ht \<and> ents ?ht = ents ht - {#e#}"
    proof (rule table_store [OF ok t(1,2,6,4,5,7,8,9) sl])
      show "keys_unique (cmp T priv) (ents ht - {#e#})"
        using table_ofD(3) [OF ok] diff_subset_eq_self by (rule unique_sub)
      show "e' \<in> set (t ! slot ht key) \<or> hashFunction T (de_key e') = hashFunction T key" if "e' \<in> set c" for e'
        using that ins by blast
      have "ents ht - {#e#} + add_mset e (mset c) = add_mset e (ents ht - {#e#}) + mset c" by simp
      also have "add_mset e (ents ht - {#e#}) = ents ht" by (rule insert_DiffM [OF mem])
      finally show "ents ht - {#e#} + mset (t ! slot ht key) = ents ht + mset c" unfolding e(1) .
      show "d_used ht - 1 = size (ents ht - {#e#})" "d_used ht - 1 \<le> d_size ht" using sz le by linarith+
    qed
    moreover have "dictDelete ht key m = Some (DICT_OK, ?ht, dictFreeEntryVal ht e (dictFreeEntryKey ht e m))"
      using Some x False t(1,2) u by (simp add: dictDelete_def)
    moreover have "dm_grants (dictFreeEntryVal ht e (dictFreeEntryKey ht e m)) = dm_grants m"
      by (simp add: dictFreeEntryVal_def dictFreeEntryKey_def split: option.splits)
    moreover have "\<exists>e \<in># ents ht. cmp T priv key (de_key e)" using mem e(2) by blast
    ultimately show ?thesis using mem e(2) by (simp only: if_True) blast
  qed
qed

lemma unique_replace:
  assumes "keys_unique eq (add_mset e M)" "de_key e' = de_key e"
  shows "keys_unique eq (add_mset e' M)"
proof -
  have N: "\<And>x. x \<in># M \<Longrightarrow> \<not> eq (de_key e) (de_key x)" "\<And>x. x \<in># M \<Longrightarrow> \<not> eq (de_key x) (de_key e)"
    "\<And>x y. x \<in># M \<Longrightarrow> y \<in># M - {#x#} \<Longrightarrow> \<not> eq (de_key x) (de_key y)"
  proof -
    fix x assume x: "x \<in># M"
    show "\<not> eq (de_key e) (de_key x)" using assms(1) x by (auto simp: keys_unique_def)
    have "e \<in># add_mset e M - {#x#}" using x by (cases "x = e") (auto simp: in_diff_count)
    then show "\<not> eq (de_key x) (de_key e)" using assms(1) x by (auto simp: keys_unique_def)
    fix y assume "y \<in># M - {#x#}"
    then have "y \<in># add_mset e M - {#x#}" by (simp add: in_diff_count)
    then show "\<not> eq (de_key x) (de_key y)" using assms(1) x by (auto simp: keys_unique_def)
  qed
  have "\<not> eq (de_key x) (de_key y)" if x: "x \<in># add_mset e' M" and y: "y \<in># add_mset e' M - {#x#}" for x y
  proof (cases "x = e'")
    case True
    then show ?thesis using y N(1) assms(2) by simp
  next
    case False
    then have "x \<in># M" using x by simp
    moreover have "y = e' \<or> y \<in># M - {#x#}" using y False by (auto simp: diff_add_mset_swap)
    ultimately show ?thesis using N(2,3) assms(2) by auto
  qed
  then show ?thesis by (simp add: keys_unique_def)
qed

lemma dictReplace_ok:
  assumes ok: "table_of T priv ht" and g: "\<And>n. dm_grants m n" and used: "d_used ht < 2 ^ 31"
    and dup: "stored T priv val (dm_user m) = Some (v, w)"
  shows "\<exists>r ht' m'. dictReplace ht key val m = Some (r, ht', m') \<and> table_of T priv ht' \<and>
    dm_grants m' = dm_grants m \<and>
    (if \<exists>e \<in># ents ht. cmp T priv key (de_key e)
     then r = 0 \<and> (\<exists>e \<in># ents ht. cmp T priv key (de_key e) \<and> ents ht' = add_mset (e\<lparr>de_val := v\<rparr>) (ents ht - {#e#}) \<and>
        dm_user m' = dm_user (dictFreeEntryVal ht e (m\<lparr>dm_user := w\<rparr>)))
     else r = 1 \<and> ents ht' = add_mset \<lparr>de_key = key, de_val = v\<rparr> (ents ht) \<and> dm_user m' = w)"
proof -
  obtain r h1 m1 where 1: "dictAdd ht key val m = Some (r, h1, m1)" "table_of T priv h1"
    "dm_grants m1 = dm_grants m"
    "if \<exists>e \<in># ents ht. cmp T priv key (de_key e) then r = DICT_ERR \<and> ents h1 = ents ht \<and> dm_user m1 = dm_user m
     else r = DICT_OK \<and> ents h1 = add_mset \<lparr>de_key = key, de_val = v\<rparr> (ents ht) \<and> dm_user m1 = w"
    using dictAdd_ok [OF assms] by blast
  have neq: "DICT_ERR \<noteq> DICT_OK" by (simp add: DICT_OK_def DICT_ERR_def)
  show ?thesis
  proof (cases "\<exists>e \<in># ents ht. cmp T priv key (de_key e)")
    case False
    then show ?thesis using 1 by (auto simp: dictReplace_def)
  next
    case True
    then have r: "r = DICT_ERR" "ents h1 = ents ht" "dm_user m1 = dm_user m" using 1(4) by simp_all
    have T: "d_type h1 = T" "d_privdata h1 = priv" "d_type ht = T" "d_privdata ht = priv" and ok1: "dict_ok h1"
      using ok 1(2) by (simp_all add: table_of_def)
    have "d_used h1 = size (ents ht)" "d_used h1 \<le> d_size h1" using table_ofD(1,2) [OF 1(2)] r(2) by simp_all
    moreover have "size (ents ht) \<noteq> 0" using True by auto
    ultimately have "d_size h1 \<noteq> 0" by linarith
    note C = chain_of [OF 1(2) this, of key]
    obtain t k where t: "d_table h1 = Some t" "slot h1 key < length t" "length t = 2 ^ k" "2 \<le> k" "k \<le> 31" "d_size h1 = 2 ^ k"
      "d_sizemask h1 = 2 ^ k - 1" "slots_ok T k t" "ents h1 = mset (concat t)"
      and sl: "slot h1 key = take_bit k (unat (hashFunction T key))" and sub: "set (t ! slot h1 key) \<subseteq> set_mset (ents h1)"
      using C by metis
    obtain f where f: "dictFind h1 key = Some f"
      "case f of Some e \<Rightarrow> e \<in># ents h1 \<and> cmp T priv key (de_key e) | None \<Rightarrow> \<forall>e \<in># ents h1. \<not> cmp T priv key (de_key e)"
      using dictFind_finds [OF 1(2), of key] by blast
    then obtain e where e: "f = Some e" "e \<in># ents h1" "cmp T priv key (de_key e)"
      using True r(2) by (cases f) auto
    have cf: "chain_find h1 key (t ! slot h1 key) = Some e"
      using f(1) e(1) t(1,2) \<open>d_size h1 \<noteq> 0\<close> by (simp add: dictFind_def)
    let ?c = "chain_set h1 key v (t ! slot h1 key)"
    let ?M = "add_mset (e\<lparr>de_val := v\<rparr>) (ents h1 - {#e#})"
    have c: "add_mset e (mset ?c) = add_mset (e\<lparr>de_val := v\<rparr>) (mset (t ! slot h1 key))" by (rule chain_set_mset [OF cf])
    have "table_of T priv (h1\<lparr>d_table := Some (t[slot h1 key := ?c]), d_used := d_used h1\<rparr>) \<and>
        ents (h1\<lparr>d_table := Some (t[slot h1 key := ?c]), d_used := d_used h1\<rparr>) = ?M"
    proof (rule table_store [OF 1(2) t(1,2,6,4,5,7,8,9) sl])
      fix x assume "x \<in> set ?c"
      then have "x \<in># add_mset e (mset ?c)" by simp
      then have "x = e\<lparr>de_val := v\<rparr> \<or> x \<in> set (t ! slot h1 key)" unfolding c by simp
      then show "x \<in> set (t ! slot h1 key) \<or> hashFunction T (de_key x) = hashFunction T key"
        using cmp_hash [OF e(3)] by auto
    next
      have "?M + mset (t ! slot h1 key) = (ents h1 - {#e#}) + add_mset (e\<lparr>de_val := v\<rparr>) (mset (t ! slot h1 key))"
        by simp
      also have "\<dots> = (ents h1 - {#e#}) + add_mset e (mset ?c)" unfolding c ..
      also have "\<dots> = add_mset e (ents h1 - {#e#}) + mset ?c" by simp
      also have "add_mset e (ents h1 - {#e#}) = ents h1" by (rule insert_DiffM [OF e(2)])
      finally show "?M + mset (t ! slot h1 key) = ents h1 + mset ?c" .
    next
      show "d_used h1 = size ?M" using size_Suc_Diff1 [OF e(2)] table_ofD(1) [OF 1(2)] by simp
      show "d_used h1 \<le> d_size h1" by (rule table_ofD(2) [OF 1(2)])
      have "keys_unique (cmp T priv) (add_mset e (ents h1 - {#e#}))"
        using table_ofD(3) [OF 1(2)] unfolding insert_DiffM [OF e(2)] .
      then show "keys_unique (cmp T priv) ?M" by (rule unique_replace) simp
    qed
    moreover have "h1\<lparr>d_table := x, d_used := d_used h1\<rparr> = h1\<lparr>d_table := x\<rparr>" for x by simp
    moreover have "dictReplace ht key val m =
        Some (0, h1\<lparr>d_table := Some (t[slot h1 key := ?c])\<rparr>, dictFreeEntryVal h1 e (m1\<lparr>dm_user := w\<rparr>))"
      using 1(1) r(1,3) neq f(1) e(1) t(1,2) dup T by (simp add: dictReplace_def dictSetHashVal_stored)
    moreover have "dm_grants (dictFreeEntryVal h1 e (m1\<lparr>dm_user := w\<rparr>)) = dm_grants m"
      using 1(3) by (simp add: dictFreeEntryVal_def split: option.splits)
    moreover have "dm_user (dictFreeEntryVal h1 e (m1\<lparr>dm_user := w\<rparr>)) = dm_user (dictFreeEntryVal ht e (m\<lparr>dm_user := w\<rparr>))"
      using T by (simp add: dictFreeEntryVal_def split: option.splits)
    ultimately show ?thesis using True e(2,3) r(2) by (simp only: if_True) blast
  qed
qed

text \<open>After an addition, a replacement or a removal the map has changed at that key only.\<close>

lemma maps_iff:
  assumes "table_of T priv ht"
  shows "maps ht k v \<longleftrightarrow> (\<exists>e \<in># ents ht. cmp T priv k (de_key e) \<and> de_val e = v)"
  using table_ofD(4,5) [OF assms] by (simp add: maps_def)

lemma maps_put:
  assumes "table_of T priv ht'" "ents ht' = add_mset e M" "cmp T priv key (de_key e)"
    "\<And>e. e \<in># M \<Longrightarrow> \<not> cmp T priv key (de_key e)"
  shows "maps ht' k u \<longleftrightarrow> (if cmp T priv key k then u = de_val e else \<exists>e \<in># M. cmp T priv k (de_key e) \<and> de_val e = u)"
proof (cases "cmp T priv key k")
  case True
  then have k: "cmp T priv k (de_key e)" using assms(3) cmp_sym cmp_trans by blast
  have "\<not> cmp T priv k (de_key x)" if "x \<in># M" for x
    using assms(4) [OF that] cmp_trans [OF True] by blast
  then have "maps ht' k u \<longleftrightarrow> de_val e = u"
    using k by (simp add: maps_iff [OF assms(1)] assms(2))
  then show ?thesis using True by auto
next
  case False
  have "\<not> cmp T priv k (de_key e)" using False assms(3) cmp_sym cmp_trans by blast
  then show ?thesis using False by (simp add: maps_iff [OF assms(1)] assms(2))
qed

lemma maps_cmp:
  assumes "table_of T priv ht" "cmp T priv k l"
  shows "maps ht k v \<longleftrightarrow> maps ht l v"
  using maps_iff [OF assms(1)] assms(2) cmp_sym cmp_trans by blast

lemma others_unique:
  assumes "table_of T priv ht" "e \<in># ents ht" "cmp T priv key (de_key e)" "x \<in># ents ht - {#e#}"
  shows "\<not> cmp T priv key (de_key x)"
proof
  assume "cmp T priv key (de_key x)"
  then have "cmp T priv (de_key e) (de_key x)" using assms(3) cmp_sym cmp_trans by blast
  then show False using table_ofD(3) [OF assms(1)] assms(2,4) by (simp add: keys_unique_def)
qed

lemma dictReplace_maps:
  assumes ok: "table_of T priv ht" and g: "\<And>n. dm_grants m n" and used: "d_used ht < 2 ^ 31"
    and dup: "stored T priv val (dm_user m) = Some (v, w)"
  shows "\<exists>r ht' m'. dictReplace ht key val m = Some (r, ht', m') \<and> table_of T priv ht' \<and> d_used ht' \<le> d_used ht + 1 \<and>
    dm_grants m' = dm_grants m \<and>
    (dm_user m' = w \<or> (\<exists>e m0. dm_user m' = dm_user (dictFreeEntryVal ht e m0) \<and> dm_user m0 = w)) \<and>
    (\<forall>k u. maps ht' k u \<longleftrightarrow> (if cmp T priv key k then u = v else maps ht k u))"
proof -
  obtain r ht' m' where R: "dictReplace ht key val m = Some (r, ht', m')" "table_of T priv ht'" "dm_grants m' = dm_grants m"
    "if \<exists>e \<in># ents ht. cmp T priv key (de_key e)
     then r = 0 \<and> (\<exists>e \<in># ents ht. cmp T priv key (de_key e) \<and> ents ht' = add_mset (e\<lparr>de_val := v\<rparr>) (ents ht - {#e#}) \<and>
        dm_user m' = dm_user (dictFreeEntryVal ht e (m\<lparr>dm_user := w\<rparr>)))
     else r = 1 \<and> ents ht' = add_mset \<lparr>de_key = key, de_val = v\<rparr> (ents ht) \<and> dm_user m' = w"
    using dictReplace_ok [OF assms] by blast
  show ?thesis
  proof (cases "\<exists>e \<in># ents ht. cmp T priv key (de_key e)")
    case True
    then obtain e where e: "e \<in># ents ht" "cmp T priv key (de_key e)" "ents ht' = add_mset (e\<lparr>de_val := v\<rparr>) (ents ht - {#e#})"
      "dm_user m' = dm_user (dictFreeEntryVal ht e (m\<lparr>dm_user := w\<rparr>))" using R(4) by (simp only: if_True) blast
    have others: "\<And>x. x \<in># ents ht - {#e#} \<Longrightarrow> \<not> cmp T priv key (de_key x)" using others_unique [OF ok e(1,2)] .
    have "maps ht' k u \<longleftrightarrow> (if cmp T priv key k then u = v else maps ht k u)" for k u
    proof (cases "cmp T priv key k")
      case False
      then have "\<not> cmp T priv k (de_key e)" using e(2) cmp_sym cmp_trans by blast
      moreover have "set_mset (ents ht) = insert e (set_mset (ents ht - {#e#}))"
        using arg_cong [OF insert_DiffM [OF e(1)], of set_mset] by simp
      ultimately show ?thesis
        using maps_put [OF R(2) e(3) _ others, of k u] e(2) False maps_iff [OF ok, of k u] by auto
    qed (use maps_put [OF R(2) e(3) _ others, of k u] e(2) in simp)
    moreover have "d_used ht' \<le> d_used ht + 1"
      using table_ofD(1) [OF ok] table_ofD(1) [OF R(2)] e(3) size_Suc_Diff1 [OF e(1)] by simp
    moreover have "\<exists>e m0. dm_user m' = dm_user (dictFreeEntryVal ht e m0) \<and> dm_user m0 = w"
      using e(4) by (intro exI [of _ e] exI [of _ "m\<lparr>dm_user := w\<rparr>"]) simp
    ultimately show ?thesis using R(1,2,3) by blast
  next
    case False
    then have r: "ents ht' = add_mset \<lparr>de_key = key, de_val = v\<rparr> (ents ht)" "dm_user m' = w" using R(4) by simp_all
    have "maps ht' k u \<longleftrightarrow> (if cmp T priv key k then u = v else maps ht k u)" for k u
      using maps_put [OF R(2) r(1), of key k u] False cmp_refl maps_iff [OF ok] by auto
    moreover have "d_used ht' \<le> d_used ht + 1" using table_ofD(1) [OF ok] table_ofD(1) [OF R(2)] r(1) by simp
    ultimately show ?thesis using R(1,2,3) r(2) by blast
  qed
qed

lemma dictDelete_maps:
  assumes ok: "table_of T priv ht"
  shows "\<exists>r ht' m'. dictDelete ht key m = Some (r, ht', m') \<and> table_of T priv ht' \<and> d_used ht' \<le> d_used ht \<and>
    dm_grants m' = dm_grants m \<and> (m' = m \<or> (\<exists>e. m' = dictFreeEntryVal ht e (dictFreeEntryKey ht e m))) \<and>
    (\<forall>k u. maps ht' k u \<longleftrightarrow> (if cmp T priv key k then False else maps ht k u))"
proof -
  obtain r ht' m' where R: "dictDelete ht key m = Some (r, ht', m')" "table_of T priv ht'" "dm_grants m' = dm_grants m"
    "if \<exists>e \<in># ents ht. cmp T priv key (de_key e)
     then r = DICT_OK \<and> (\<exists>e \<in># ents ht. cmp T priv key (de_key e) \<and> ents ht' = ents ht - {#e#} \<and>
            m' = dictFreeEntryVal ht e (dictFreeEntryKey ht e m))
     else r = DICT_ERR \<and> ht' = ht \<and> m' = m"
    using dictDelete_ok [OF ok] by blast
  show ?thesis
  proof (cases "\<exists>e \<in># ents ht. cmp T priv key (de_key e)")
    case True
    then obtain e where e: "e \<in># ents ht" "cmp T priv key (de_key e)" "ents ht' = ents ht - {#e#}"
      "m' = dictFreeEntryVal ht e (dictFreeEntryKey ht e m)" using R(4) by (simp only: if_True) blast
    have S: "set_mset (ents ht) = insert e (set_mset (ents ht'))"
      using arg_cong [OF insert_DiffM [OF e(1)], of set_mset] e(3) by simp
    have others: "\<And>x. x \<in># ents ht' \<Longrightarrow> \<not> cmp T priv key (de_key x)" using others_unique [OF ok e(1,2)] e(3) by simp
    have "maps ht' k u \<longleftrightarrow> (if cmp T priv key k then False else maps ht k u)" for k u
    proof (cases "cmp T priv key k")
      case True
      then have "\<not> cmp T priv k (de_key x)" if "x \<in># ents ht'" for x using others [OF that] cmp_trans by blast
      then show ?thesis using True maps_iff [OF R(2), of k u] by auto
    next
      case False
      then have "\<not> cmp T priv k (de_key e)" using e(2) cmp_sym cmp_trans by blast
      then show ?thesis using False maps_iff [OF R(2), of k u] maps_iff [OF ok, of k u] S by auto
    qed
    moreover have "d_used ht' \<le> d_used ht"
      using table_ofD(1) [OF ok] table_ofD(1) [OF R(2)] e(3) size_Suc_Diff1 [OF e(1)] by simp
    ultimately show ?thesis using R(1,2,3) e(4) by blast
  next
    case False
    then have r: "ht' = ht" "m' = m" using R(4) by simp_all
    have "\<not> maps ht k u" if "cmp T priv key k" for k u
      using False maps_iff [OF ok, of k u] cmp_trans [OF that] by blast
    then show ?thesis using R(1,2,3) r by auto
  qed
qed

end

section \<open>Clearing and iterating\<close>

definition free_entry :: "('k, 'v, 'w) dict \<Rightarrow> ('k, 'v) dictEntry \<Rightarrow> 'w dmem \<Rightarrow> 'w dmem" where
  "free_entry ht e m = dictFreeEntryVal ht e (dictFreeEntryKey ht e m)"

lemma clear_chain_eq:
  assumes "length c \<le> used" "used < 2 ^ 64"
  shows "clear_chain ht c used m = (used - length c, fold (free_entry ht) c m)"
  using assms
proof (induction c arbitrary: used m)
  case (Cons e c)
  then have "to_size (int used - 1) = used - 1" "length c \<le> used - 1" "used - 1 < 2 ^ 64" by (auto simp: to_size_id)
  then show ?case using Cons.IH by (simp add: free_entry_def)
qed simp

lemma clear_loop_eq:
  assumes "d_table ht = Some t" "i + k = length t" "used = length (concat (drop i t))" "used < 2 ^ 64"
  shows "clear_loop ht i k used m = Some (fold (free_entry ht) (concat (drop i t)) m)"
  using assms
proof (induction k arbitrary: i used m)
  case (Suc k)
  show ?case
  proof (cases "used = 0")
    case True
    then have e: "concat (drop i t) = []" using Suc.prems(3) by (metis length_0_conv)
    show ?thesis unfolding e using True by simp
  next
    case False
    have i: "i < length t" using Suc.prems(2) by simp
    then have d: "drop i t = t ! i # drop (Suc i) t" by (rule Cons_nth_drop_Suc [symmetric])
    have u: "used = length (t ! i) + length (concat (drop (Suc i) t))" using Suc.prems(3) by (simp add: d)
    then have "clear_chain ht (t ! i) used m = (used - length (t ! i), fold (free_entry ht) (t ! i) m)"
      using Suc.prems(4) by (intro clear_chain_eq) auto
    moreover have "clear_loop ht (Suc i) k (used - length (t ! i)) (fold (free_entry ht) (t ! i) m) =
        Some (fold (free_entry ht) (concat (drop (Suc i) t)) (fold (free_entry ht) (t ! i) m))"
      using Suc.prems u by (intro Suc.IH) auto
    ultimately show ?thesis using False i Suc.prems(1) by (simp add: d)
  qed
qed simp

lemma dict_ok_tableD:
  assumes "dict_ok ht" "d_table ht = Some t"
  shows "d_size ht = length t" "d_used ht = length (concat t)" "length t \<le> 2 ^ 31" "d_used ht < 2 ^ 64"
proof -
  obtain k where k: "k \<le> 31" "d_size ht = 2 ^ k" "slots_ok (d_type ht) k t"
    using assms by (auto simp: dict_ok_def)
  then show s: "d_size ht = length t" by (simp add: slots_ok_def)
  have "(2 :: nat) ^ k \<le> 2 ^ 31" using k(1) by (intro power_increasing) auto
  then show l: "length t \<le> 2 ^ 31" using k(2) s by simp
  have "d_used ht = size (ents ht)" "d_used ht \<le> d_size ht" using assms(1) unfolding dict_ok_def by blast+
  then show "d_used ht = length (concat t)" "d_used ht < 2 ^ 64" using assms(2) s l by (simp_all add: ents_def)
qed

lemma dictClear_ok:
  assumes "dict_ok ht"
  shows "dictClear ht m = Some (DICT_OK, dictReset ht, fold (free_entry ht) (concat (case d_table ht of Some t \<Rightarrow> t | None \<Rightarrow> [])) m)"
proof (cases "d_table ht")
  case None
  then show ?thesis using assms by (simp add: dictClear_def dict_ok_def)
next
  case (Some t)
  then show ?thesis
    using clear_loop_eq [OF Some, of 0 "length t" "d_used ht" m] dict_ok_tableD [OF assms Some] by (simp add: dictClear_def)
qed

text \<open>
  Iterating meets every entry exactly once. The index is compared with the size as an
  \<^verbatim>\<open>int\<close>, so the table must be smaller than two to the 31.
\<close>

lemma entries_chain:
  assumes rest: "\<And>nx. dict_entries ht \<lparr>it_index = i, it_entry = None, it_nextEntry = nx\<rparr> = Some es"
  shows "dict_entries ht \<lparr>it_index = i, it_entry = Some e, it_nextEntry = r\<rparr> = Some (r @ es)"
proof (induction r arbitrary: e)
  case Nil
  have "dictNext ht \<lparr>it_index = i, it_entry = Some e, it_nextEntry = []\<rparr> =
      dictNext ht \<lparr>it_index = i, it_entry = None, it_nextEntry = []\<rparr>"
    by (subst dictNext.simps) simp
  then show ?case using rest [of "[]"] by (subst dict_entries.simps, subst (asm) dict_entries.simps) simp
next
  case (Cons e' r)
  have "dictNext ht \<lparr>it_index = i, it_entry = Some e, it_nextEntry = e' # r\<rparr> =
      Some (Some e', \<lparr>it_index = i, it_entry = Some e', it_nextEntry = r\<rparr>)"
    by (subst dictNext.simps) simp
  then show ?case using Cons.IH [of e'] by (subst dict_entries.simps) simp
qed

lemma entries_from:
  assumes t: "d_table ht = Some t" "d_size ht = length t" "length t < 2 ^ 31" and j: "j + n = length t"
  shows "dict_entries ht \<lparr>it_index = int j - 1, it_entry = None, it_nextEntry = nx\<rparr> = Some (concat (drop j t))"
  using j
proof (induction n arbitrary: j nx)
  case 0
  have "s32 (int j) = int j" "s32 (int (length t)) = int (length t)" using 0 t(3) by (auto intro!: s32_of_nat)
  then have "dictNext ht \<lparr>it_index = int j - 1, it_entry = None, it_nextEntry = nx\<rparr> =
      Some (None, \<lparr>it_index = int j, it_entry = None, it_nextEntry = nx\<rparr>)"
    using 0 t(2) by (subst dictNext.simps) simp
  then show ?case using 0 by (subst dict_entries.simps) simp
next
  case (Suc n)
  then have j: "j < length t" by simp
  then have w: "s32 (int j) = int j" "s32 (int (length t)) = int (length t)" using t(3) by (auto intro!: s32_of_nat)
  have d: "drop j t = t ! j # drop (Suc j) t" using j by (rule Cons_nth_drop_Suc [symmetric])
  have IH: "dict_entries ht \<lparr>it_index = int j, it_entry = None, it_nextEntry = nx\<rparr> = Some (concat (drop (Suc j) t))" for nx
    using Suc.IH [of "Suc j" nx] Suc.prems by simp
  show ?case
  proof (cases "t ! j")
    case Nil
    have "dictNext ht \<lparr>it_index = int j - 1, it_entry = None, it_nextEntry = nx\<rparr> =
        dictNext ht \<lparr>it_index = int j, it_entry = None, it_nextEntry = nx\<rparr>"
      using j w t(1,2) Nil by (subst dictNext.simps) simp
    then show ?thesis using IH [of nx] Nil by (subst dict_entries.simps, subst (asm) dict_entries.simps) (simp add: d)
  next
    case (Cons e r)
    have "dictNext ht \<lparr>it_index = int j - 1, it_entry = None, it_nextEntry = nx\<rparr> =
        Some (Some e, \<lparr>it_index = int j, it_entry = Some e, it_nextEntry = r\<rparr>)"
      using j w t(1,2) Cons by (subst dictNext.simps) simp
    then show ?thesis using entries_chain [OF IH, of e r] Cons by (subst dict_entries.simps) (simp add: d)
  qed
qed

lemma dict_entries_ok:
  assumes "dict_ok ht" "d_size ht < 2 ^ 31"
  shows "\<exists>es. dict_entries ht \<lparr>it_index = - 1, it_entry = None, it_nextEntry = nx\<rparr> = Some es \<and> mset es = ents ht"
proof (cases "d_table ht")
  case None
  then have "d_size ht = 0" using assms(1) by (simp add: dict_ok_def)
  then have "dictNext ht \<lparr>it_index = - 1, it_entry = None, it_nextEntry = nx\<rparr> =
      Some (None, \<lparr>it_index = 0, it_entry = None, it_nextEntry = nx\<rparr>)"
    by (subst dictNext.simps) simp
  then show ?thesis using None by (subst dict_entries.simps) (simp add: ents_def)
next
  case (Some t)
  then show ?thesis
    using entries_from [OF Some, of 0 "length t" nx] dict_ok_tableD(1) [OF assms(1) Some] assms(2) by (simp add: ents_def)
qed

section \<open>A table as a finite map\<close>

text \<open>The contract of a map with keys up to an equivalence, and any sequence of its operations.\<close>

datatype ('k, 'v) mop = Put 'k 'v | Del 'k | Get 'k

fun run_map :: "('k \<Rightarrow> 'v \<Rightarrow> 's \<Rightarrow> 's option) \<Rightarrow> ('k \<Rightarrow> 's \<Rightarrow> 's option) \<Rightarrow> ('k \<Rightarrow> 's \<Rightarrow> 'v option option) \<Rightarrow>
    ('k, 'v) mop list \<Rightarrow> 's \<Rightarrow> ('v option list \<times> 's) option" where
  "run_map put del get [] s = Some ([], s)"
| "run_map put del get (Put k v # ops) s = do { s \<leftarrow> put k v s; run_map put del get ops s }"
| "run_map put del get (Del k # ops) s = do { s \<leftarrow> del k s; run_map put del get ops s }"
| "run_map put del get (Get k # ops) s =
     do { r \<leftarrow> get k s; (rs, s) \<leftarrow> run_map put del get ops s; Some (r # rs, s) }"

fun spec_map :: "('k \<Rightarrow> 'k \<Rightarrow> bool) \<Rightarrow> ('k, 'v) mop list \<Rightarrow> ('k \<Rightarrow> 'v option) \<Rightarrow> 'v option list" where
  "spec_map eq [] M = []"
| "spec_map eq (Put k v # ops) M = spec_map eq ops (\<lambda>x. if eq k x then Some v else M x)"
| "spec_map eq (Del k # ops) M = spec_map eq ops (\<lambda>x. if eq k x then None else M x)"
| "spec_map eq (Get k # ops) M = M k # spec_map eq ops M"

locale map_impl =
  fixes rep :: "'s \<Rightarrow> ('k \<Rightarrow> 'v option) \<Rightarrow> nat \<Rightarrow> bool"
    and eq :: "'k \<Rightarrow> 'k \<Rightarrow> bool"
    and put :: "'k \<Rightarrow> 'v \<Rightarrow> 's \<Rightarrow> 's option"
    and del :: "'k \<Rightarrow> 's \<Rightarrow> 's option"
    and get :: "'k \<Rightarrow> 's \<Rightarrow> 'v option option"
    and cap :: nat
  assumes put_ok: "rep s M n \<Longrightarrow> n < cap \<Longrightarrow>
      \<exists>s'. put k v s = Some s' \<and> rep s' (\<lambda>x. if eq k x then Some v else M x) (n + 1)"
    and del_ok: "rep s M n \<Longrightarrow> \<exists>s'. del k s = Some s' \<and> rep s' (\<lambda>x. if eq k x then None else M x) n"
    and get_ok: "rep s M n \<Longrightarrow> get k s = Some (M k)"
begin

lemma run_refines:
  assumes "rep s M n" "n + length ops \<le> cap"
  shows "\<exists>s' M' n'. run_map put del get ops s = Some (spec_map eq ops M, s') \<and> rep s' M' n'"
  using assms
proof (induction ops arbitrary: s M n)
  case (Cons x ops)
  show ?case
  proof (cases x)
    case (Put k v)
    obtain s1 where "put k v s = Some s1" "rep s1 (\<lambda>x. if eq k x then Some v else M x) (n + 1)"
      using put_ok [OF Cons.prems(1)] Cons.prems(2) by auto
    then show ?thesis using Cons.IH [of s1 _ "n + 1"] Cons.prems(2) Put by auto
  next
    case (Del k)
    obtain s1 where "del k s = Some s1" "rep s1 (\<lambda>x. if eq k x then None else M x) n"
      using del_ok [OF Cons.prems(1)] by auto
    then show ?thesis using Cons.IH [of s1 _ n] Cons.prems(2) Del by auto
  next
    case (Get k)
    then show ?thesis using Cons.IH [of s M n] Cons.prems get_ok [OF Cons.prems(1)] by fastforce
  qed
qed auto

end

text \<open>The three operations on a table and its memory.\<close>

definition dict_put :: "'k \<Rightarrow> 'v \<Rightarrow> ('k, 'v, 'w) dict \<times> 'w dmem \<Rightarrow> (('k, 'v, 'w) dict \<times> 'w dmem) option" where
  "dict_put k v s = (case s of (ht, m) \<Rightarrow> map_option snd (dictReplace ht k v m))"

definition dict_del :: "'k \<Rightarrow> ('k, 'v, 'w) dict \<times> 'w dmem \<Rightarrow> (('k, 'v, 'w) dict \<times> 'w dmem) option" where
  "dict_del k s = (case s of (ht, m) \<Rightarrow> map_option snd (dictDelete ht k m))"

definition dict_get :: "'k \<Rightarrow> ('k, 'v, 'w) dict \<times> 'w dmem \<Rightarrow> 'v option option" where
  "dict_get k s = (case s of (ht, m) \<Rightarrow> map_option (map_option de_val) (dictFind ht k))"

text \<open>
  With values that are stored as they are given, while the owner's state is \<open>good\<close>, a table
  is such a map; it may hold two to the 31 entries.
\<close>

definition dict_rep :: "('k, 'v, 'w) dictType \<Rightarrow> ptr \<Rightarrow> ('w \<Rightarrow> bool) \<Rightarrow> ('k, 'v, 'w) dict \<times> 'w dmem \<Rightarrow>
    ('k \<Rightarrow> 'v option) \<Rightarrow> nat \<Rightarrow> bool" where
  "dict_rep T priv good s M n \<longleftrightarrow> (case s of (ht, m) \<Rightarrow> table_of T priv ht \<and> d_used ht \<le> n \<and>
     (\<forall>i. dm_grants m i) \<and> good (dm_user m) \<and> (\<forall>k v. M k = Some v \<longleftrightarrow> maps ht k v))"

lemma dict_rep_empty:
  assumes "\<forall>i. dm_grants m i" "good (dm_user m)"
  shows "dict_rep T priv good (dictInit T priv, m) (\<lambda>_. None) 0"
  using assms by (simp add: dict_rep_def table_of_def dict_ok_def dictInit_def ents_def keys_unique_def maps_def)

locale dict_values = dict_type T priv
  for T :: "('k, 'v, 'w) dictType" and priv :: ptr +
  fixes good :: "'w \<Rightarrow> bool"
  assumes stored_same: "good w \<Longrightarrow> \<exists>w'. stored T priv v w = Some (v, w') \<and> good w'"
    and keyDestructor_good: "keyDestructor T = Some f \<Longrightarrow> good w \<Longrightarrow> good (f priv k w)"
    and valDestructor_good: "valDestructor T = Some g \<Longrightarrow> good w \<Longrightarrow> good (g priv v w)"
begin

lemma free_val_good:
  assumes "d_type ht = T" "d_privdata ht = priv" "good (dm_user m)"
  shows "good (dm_user (dictFreeEntryVal ht e m))"
  using assms valDestructor_good by (auto simp: dictFreeEntryVal_def split: option.splits)

lemma free_key_good:
  assumes "d_type ht = T" "d_privdata ht = priv" "good (dm_user m)"
  shows "good (dm_user (dictFreeEntryKey ht e m))"
  using assms keyDestructor_good by (auto simp: dictFreeEntryKey_def split: option.splits)

end

sublocale dict_values \<subseteq> dm: map_impl "dict_rep T priv good" "cmp T priv" dict_put dict_del dict_get "2 ^ 31"
proof unfold_locales
  fix s :: "('k, 'v, 'w) dict \<times> 'w dmem" and M :: "'k \<Rightarrow> 'v option" and n k v
  assume r: "dict_rep T priv good s M n" and n: "n < 2 ^ 31"
  obtain ht m where s: "s = (ht, m)" by (cases s)
  have ok: "table_of T priv ht" "d_used ht \<le> n" "\<And>i. dm_grants m i" "good (dm_user m)"
    and M: "\<And>k v. M k = Some v \<longleftrightarrow> maps ht k v" using r by (simp_all add: dict_rep_def s)
  obtain w where w: "stored T priv v (dm_user m) = Some (v, w)" "good w" using stored_same [OF ok(4)] by blast
  have "d_used ht < 2 ^ 31" using ok(2) n by simp
  from dictReplace_maps [OF ok(1,3) this w(1), of k] obtain x ht' m' where R: "dictReplace ht k v m = Some (x, ht', m')"
    "table_of T priv ht'" "d_used ht' \<le> d_used ht + 1" "dm_grants m' = dm_grants m"
    "dm_user m' = w \<or> (\<exists>e m0. dm_user m' = dm_user (dictFreeEntryVal ht e m0) \<and> dm_user m0 = w)"
    "\<And>j u. maps ht' j u \<longleftrightarrow> (if cmp T priv k j then u = v else maps ht j u)" by blast
  have "good (dm_user m')" using R(5) w(2) free_val_good table_ofD(4,5) [OF ok(1)] by metis
  then have "dict_rep T priv good (ht', m') (\<lambda>x. if cmp T priv k x then Some v else M x) (n + 1)"
    using R(2,3,4,6) ok(2,3) M by (auto simp: dict_rep_def)
  then show "\<exists>s'. dict_put k v s = Some s' \<and> dict_rep T priv good s' (\<lambda>x. if cmp T priv k x then Some v else M x) (n + 1)"
    using R(1) by (simp add: dict_put_def s)
next
  fix s :: "('k, 'v, 'w) dict \<times> 'w dmem" and M :: "'k \<Rightarrow> 'v option" and n k
  assume r: "dict_rep T priv good s M n"
  obtain ht m where s: "s = (ht, m)" by (cases s)
  have ok: "table_of T priv ht" "d_used ht \<le> n" "\<And>i. dm_grants m i" "good (dm_user m)"
    and M: "\<And>k v. M k = Some v \<longleftrightarrow> maps ht k v" using r by (simp_all add: dict_rep_def s)
  from dictDelete_maps [OF ok(1), of k m] obtain x ht' m' where R: "dictDelete ht k m = Some (x, ht', m')"
    "table_of T priv ht'" "d_used ht' \<le> d_used ht" "dm_grants m' = dm_grants m"
    "m' = m \<or> (\<exists>e. m' = dictFreeEntryVal ht e (dictFreeEntryKey ht e m))"
    "\<And>j u. maps ht' j u \<longleftrightarrow> (if cmp T priv k j then False else maps ht j u)" by blast
  have "good (dm_user m')" using R(5) ok(4) free_val_good free_key_good table_ofD(4,5) [OF ok(1)] by metis
  then have "dict_rep T priv good (ht', m') (\<lambda>x. if cmp T priv k x then None else M x) n"
    using R(2,3,4,6) ok(2,3) M by (auto simp: dict_rep_def)
  then show "\<exists>s'. dict_del k s = Some s' \<and> dict_rep T priv good s' (\<lambda>x. if cmp T priv k x then None else M x) n"
    using R(1) by (simp add: dict_del_def s)
next
  fix s :: "('k, 'v, 'w) dict \<times> 'w dmem" and M :: "'k \<Rightarrow> 'v option" and n k
  assume r: "dict_rep T priv good s M n"
  obtain ht m where s: "s = (ht, m)" by (cases s)
  have ok: "table_of T priv ht" and M: "\<And>k v. M k = Some v \<longleftrightarrow> maps ht k v" using r by (simp_all add: dict_rep_def s)
  obtain f where f: "dictFind ht k = Some f" "\<forall>v. maps ht k v = (map_option de_val f = Some v)"
    using dictFind_maps [OF ok, of k] by auto
  have "map_option de_val f = Some v \<longleftrightarrow> M k = Some v" for v using f(2) M by simp
  then have "map_option de_val f = M k" by (metis not_Some_eq)
  then show "dict_get k s = Some (M k)" using f(1) by (simp add: dict_get_def s)
qed

end
