(* ===== verification/Callbacks.thy ===== *)
theory Callbacks
  imports Sds Dict Fifo
begin

text \<open>
  What async.c keeps for its callbacks: the singly linked callback lists, in a heap of
  cells, and the dictionary of subscription callbacks, whose keys are sds channel names.
  The unused session dictionary of hiredis.c is here too. A callback's function is known
  by an identifier, 0 for NULL.
\<close>

section \<open>Callback lists\<close>

record redisCallback =
  cb_next :: ptr
  cb_fn :: ptr
  cb_privdata :: ptr

record redisCallbackList =
  cl_head :: ptr
  cl_tail :: ptr

record cbheap =
  ch_cells :: "ptr \<rightharpoonup> redisCallback"
  ch_fresh :: ptr
  ch_requests :: nat
  ch_grants :: "nat \<Rightarrow> bool"

definition cb_malloc :: "cbheap \<Rightarrow> ptr \<times> cbheap" where
  "cb_malloc h =
     (if ch_grants h (ch_requests h)
      then (ch_fresh h, h\<lparr>ch_fresh := ch_fresh h + 1, ch_requests := ch_requests h + 1\<rparr>)
      else (NULL, h\<lparr>ch_requests := ch_requests h + 1\<rparr>))"

text \<open>
  \<^verbatim>\<open>__redisPushCallback\<close>; \<open>g\<close> is what a fresh block holds, which remains when
  \<open>source\<close> is NULL.
\<close>

definition redisPushCallback ::
    "redisCallback \<Rightarrow> redisCallbackList \<Rightarrow> redisCallback option \<Rightarrow> cbheap \<Rightarrow> (int \<times> redisCallbackList \<times> cbheap) option" where
  "redisPushCallback g l source h =
     (let (cb, h) = cb_malloc h
      in if cb = NULL then Some (REDIS_ERR_OOM, l, h)
         else do {
           let c = (case source of Some s \<Rightarrow> s\<lparr>cb_next := NULL\<rparr> | None \<Rightarrow> g);
           let h = h\<lparr>ch_cells := (ch_cells h)(cb \<mapsto> c)\<rparr>;
           let l = (if cl_head l = NULL then l\<lparr>cl_head := cb\<rparr> else l);
           h \<leftarrow> (if cl_tail l \<noteq> NULL
                 then (case ch_cells h (cl_tail l) of
                         Some t \<Rightarrow> Some (h\<lparr>ch_cells := (ch_cells h)(cl_tail l \<mapsto> t\<lparr>cb_next := cb\<rparr>)\<rparr>)
                       | None \<Rightarrow> None)
                 else Some h);
           Some (REDIS_OK, l\<lparr>cl_tail := cb\<rparr>, h)
         })"

text \<open>\<^verbatim>\<open>__redisShiftCallback\<close>: the result, and the callback copied to \<^verbatim>\<open>target\<close>, if any.\<close>

definition redisShiftCallback ::
    "redisCallbackList \<Rightarrow> cbheap \<Rightarrow> (int \<times> redisCallback option \<times> redisCallbackList \<times> cbheap) option" where
  "redisShiftCallback l h =
     (let cb = cl_head l
      in if cb \<noteq> NULL
         then do {
           c \<leftarrow> ch_cells h cb;
           let l' = l\<lparr>cl_head := cb_next c\<rparr>;
           let l' = (if cb = cl_tail l then l'\<lparr>cl_tail := NULL\<rparr> else l');
           Some (REDIS_OK, Some c, l', h\<lparr>ch_cells := (ch_cells h)(cb := None)\<rparr>)
         }
         else Some (REDIS_ERR, None, l, h))"

section \<open>A callback list is a queue\<close>

fun cseg :: "(ptr \<rightharpoonup> redisCallback) \<Rightarrow> ptr \<Rightarrow> (ptr \<times> ptr \<times> ptr) list \<Rightarrow> bool" where
  "cseg C p [] \<longleftrightarrow> p = NULL"
| "cseg C p ((x, f, d) # xs) \<longleftrightarrow> p = x \<and> x \<noteq> NULL \<and>
     (\<exists>q. C x = Some \<lparr>cb_next = q, cb_fn = f, cb_privdata = d\<rparr> \<and> cseg C q xs)"

definition cbheap_ok :: "cbheap \<Rightarrow> bool" where
  "cbheap_ok h \<longleftrightarrow> 0 < ch_fresh h \<and> dom (ch_cells h) \<subseteq> {0<..<ch_fresh h}"

definition callbacks_at :: "cbheap \<Rightarrow> redisCallbackList \<Rightarrow> (ptr \<times> ptr \<times> ptr) list \<Rightarrow> bool" where
  "callbacks_at h l xs \<longleftrightarrow> cseg (ch_cells h) (cl_head l) xs \<and> distinct (map fst xs) \<and>
     cl_tail l = (if xs = [] then NULL else fst (last xs))"

lemma cseg_cong: "(\<And>x. x \<in> fst ` set xs \<Longrightarrow> D x = C x) \<Longrightarrow> cseg D p xs = cseg C p xs"
  by (induction xs arbitrary: p) auto

lemma cseg_dom: "cseg C p xs \<Longrightarrow> fst ` set xs \<subseteq> dom C"
  by (induction xs arbitrary: p) (auto, force)

lemma cseg_snoc:
  assumes "cseg C p xs" "distinct (map fst xs)" "n \<notin> fst ` set xs" "n \<noteq> NULL" "xs \<noteq> []"
  shows "\<exists>f d. C (fst (last xs)) = Some \<lparr>cb_next = NULL, cb_fn = f, cb_privdata = d\<rparr> \<and>
    cseg (C(n \<mapsto> \<lparr>cb_next = NULL, cb_fn = f', cb_privdata = d'\<rparr>,
            fst (last xs) \<mapsto> \<lparr>cb_next = n, cb_fn = f, cb_privdata = d\<rparr>)) p (xs @ [(n, f', d')])"
  using assms
proof (induction xs arbitrary: p)
  case (Cons x xs)
  obtain a f d where x: "x = (a, f, d)" by (cases x)
  obtain q where q: "C a = Some \<lparr>cb_next = q, cb_fn = f, cb_privdata = d\<rparr>" "cseg C q xs" "p = a" "a \<noteq> NULL"
    using Cons.prems(1) by (auto simp: x)
  show ?case
  proof (cases "xs = []")
    case True
    then show ?thesis using q Cons.prems(3,4) by (auto simp: x)
  next
    case False
    then have "fst (last xs) \<in> fst ` set xs" by simp
    then have "a \<noteq> fst (last xs)" using Cons.prems(2) by (auto simp: x)
    then show ?thesis using Cons.IH [OF q(2)] Cons.prems(2-4) False q by (auto simp: x)
  qed
qed simp

lemma redisPushCallback_ok:
  assumes h: "cbheap_ok h" and l: "callbacks_at h l xs"
  shows "if ch_grants h (ch_requests h)
    then \<exists>l' h'. redisPushCallback g l (Some cb) h = Some (REDIS_OK, l', h') \<and> cbheap_ok h' \<and> ch_grants h' = ch_grants h \<and>
      callbacks_at h' l' (xs @ [(ch_fresh h, cb_fn cb, cb_privdata cb)]) \<and>
      (\<forall>p. p \<notin> fst ` set xs \<longrightarrow> p \<noteq> ch_fresh h \<longrightarrow> ch_cells h' p = ch_cells h p)
    else redisPushCallback g l (Some cb) h = Some (REDIS_ERR_OOM, l, h\<lparr>ch_requests := ch_requests h + 1\<rparr>)"
proof (cases "ch_grants h (ch_requests h)")
  case True
  let ?n = "ch_fresh h"
  have n: "?n \<noteq> NULL" "?n \<notin> dom (ch_cells h)" using h by (auto simp: cbheap_ok_def simp del: domIff)
  note L = l [unfolded callbacks_at_def]
  have nx: "?n \<notin> fst ` set xs" using cseg_dom L n(2) by blast
  have new: "cb\<lparr>cb_next := NULL\<rparr> = \<lparr>cb_next = NULL, cb_fn = cb_fn cb, cb_privdata = cb_privdata cb\<rparr>" by (cases cb) simp
  show ?thesis
  proof (cases "xs = []")
    case True
    then show ?thesis
      using \<open>ch_grants h (ch_requests h)\<close> L n h new
      by (auto simp: redisPushCallback_def cb_malloc_def callbacks_at_def cbheap_ok_def)
  next
    case False
    obtain f d where t: "ch_cells h (fst (last xs)) = Some \<lparr>cb_next = NULL, cb_fn = f, cb_privdata = d\<rparr>"
      "cseg ((ch_cells h)(?n \<mapsto> \<lparr>cb_next = NULL, cb_fn = cb_fn cb, cb_privdata = cb_privdata cb\<rparr>,
            fst (last xs) \<mapsto> \<lparr>cb_next = ?n, cb_fn = f, cb_privdata = d\<rparr>)) (cl_head l) (xs @ [(?n, cb_fn cb, cb_privdata cb)])"
      using cseg_snoc [of "ch_cells h" "cl_head l" xs ?n] L nx n(1) False by blast
    have hd: "cl_head l \<noteq> NULL" using L False by (cases xs) auto
    have tl: "fst (last xs) \<noteq> NULL" "fst (last xs) \<noteq> ?n" "fst (last xs) < ?n"
      using t(1) h n(2) by (auto simp: cbheap_ok_def)
    define h' where "h' = h\<lparr>ch_fresh := ?n + 1, ch_requests := ch_requests h + 1,
      ch_cells := (ch_cells h)(?n \<mapsto> \<lparr>cb_next = NULL, cb_fn = cb_fn cb, cb_privdata = cb_privdata cb\<rparr>,
            fst (last xs) \<mapsto> \<lparr>cb_next = ?n, cb_fn = f, cb_privdata = d\<rparr>)\<rparr>"
    have "redisPushCallback g l (Some cb) h = Some (REDIS_OK, l\<lparr>cl_tail := ?n\<rparr>, h')"
      using \<open>ch_grants h (ch_requests h)\<close> L n hd tl t(1) False
      by (cases cb) (simp add: redisPushCallback_def cb_malloc_def h'_def)
    moreover have "cbheap_ok h'" using h tl by (auto simp: cbheap_ok_def h'_def)
    moreover have "callbacks_at h' (l\<lparr>cl_tail := ?n\<rparr>) (xs @ [(?n, cb_fn cb, cb_privdata cb)])"
      using t(2) L nx by (simp add: callbacks_at_def h'_def)
    moreover have "fst (last xs) \<in> fst ` set xs" using False by simp
    ultimately show ?thesis using \<open>ch_grants h (ch_requests h)\<close> by (auto simp: h'_def)
  qed
qed (simp add: redisPushCallback_def cb_malloc_def)

lemma redisShiftCallback_ok:
  assumes h: "cbheap_ok h" and l: "callbacks_at h l ((x, f, d) # xs)"
  shows "\<exists>c l' h'. redisShiftCallback l h = Some (REDIS_OK, Some c, l', h') \<and> cb_fn c = f \<and> cb_privdata c = d \<and>
    cbheap_ok h' \<and> ch_grants h' = ch_grants h \<and> callbacks_at h' l' xs \<and> ch_cells h' = (ch_cells h)(x := None)"
proof -
  obtain q where q: "ch_cells h x = Some \<lparr>cb_next = q, cb_fn = f, cb_privdata = d\<rparr>" "cseg (ch_cells h) q xs" "cl_head l = x" "x \<noteq> NULL"
    using l by (auto simp: callbacks_at_def)
  have d: "x \<notin> fst ` set xs" "distinct (map fst xs)" using l by (auto simp: callbacks_at_def)
  let ?h = "h\<lparr>ch_cells := (ch_cells h)(x := None)\<rparr>"
  have s: "cseg (ch_cells ?h) q xs" using q(2) d(1) cseg_cong [of xs "ch_cells ?h" "ch_cells h"] by fastforce
  have ok: "cbheap_ok ?h" using h by (auto simp: cbheap_ok_def)
  show ?thesis
  proof (cases "xs = []")
    case True
    then show ?thesis
      using q l s ok by (auto simp: redisShiftCallback_def callbacks_at_def)
  next
    case False
    then have "x \<noteq> fst (last xs)" using d(1) by (metis image_eqI last_in_set)
    then show ?thesis
      using q l s ok d False by (auto simp: redisShiftCallback_def callbacks_at_def)
  qed
qed

lemma redisShiftCallback_empty:
  "callbacks_at h l [] \<Longrightarrow> redisShiftCallback l h = Some (REDIS_ERR, None, l, h)"
  by (simp add: redisShiftCallback_def callbacks_at_def)

text \<open>Pushing and shifting as queue operations: what is queued is a function and its private data.\<close>

definition cb_push :: "redisCallback \<Rightarrow> ptr \<times> ptr \<Rightarrow> redisCallbackList \<times> cbheap \<Rightarrow> (redisCallbackList \<times> cbheap) option" where
  "cb_push g v s =
     (case s of (l, h) \<Rightarrow> map_option snd (redisPushCallback g l (Some (g\<lparr>cb_fn := fst v, cb_privdata := snd v\<rparr>)) h))"

definition cb_shift :: "redisCallbackList \<times> cbheap \<Rightarrow> ((ptr \<times> ptr) option \<times> redisCallbackList \<times> cbheap) option" where
  "cb_shift s =
     (case s of (l, h) \<Rightarrow>
        map_option (\<lambda>(r, c, s). (map_option (\<lambda>c. (cb_fn c, cb_privdata c)) c, s)) (redisShiftCallback l h))"

definition cb_holds :: "redisCallbackList \<times> cbheap \<Rightarrow> (ptr \<times> ptr) list \<Rightarrow> bool" where
  "cb_holds s cbs \<longleftrightarrow> (case s of (l, h) \<Rightarrow> cbheap_ok h \<and> (\<forall>n. ch_grants h n) \<and>
     (\<exists>xs. callbacks_at h l xs \<and> cbs = map snd xs))"

lemma cb_push_ok:
  assumes "cb_holds s vs"
  shows "\<exists>s'. cb_push g v s = Some s' \<and> cb_holds s' (vs @ [v])"
proof -
  obtain l h where s: "s = (l, h)" by (cases s)
  obtain xs where xs: "cbheap_ok h" "\<forall>n. ch_grants h n" "callbacks_at h l xs" "vs = map snd xs"
    using assms by (auto simp: cb_holds_def s)
  obtain l' h' where r: "redisPushCallback g l (Some (g\<lparr>cb_fn := fst v, cb_privdata := snd v\<rparr>)) h = Some (REDIS_OK, l', h')"
    "cbheap_ok h'" "ch_grants h' = ch_grants h" "callbacks_at h' l' (xs @ [(ch_fresh h, fst v, snd v)])"
    using redisPushCallback_ok [OF xs(1,3), of g "g\<lparr>cb_fn := fst v, cb_privdata := snd v\<rparr>"] xs(2) by auto
  have "vs @ [v] = map snd (xs @ [(ch_fresh h, fst v, snd v)])" by (simp add: xs(4))
  then have "cb_holds (l', h') (vs @ [v])" using r(2-4) xs(2) unfolding cb_holds_def case_prod_conv by auto
  then show ?thesis using r(1) by (simp add: cb_push_def s)
qed

lemma cb_shift_ok:
  assumes "cb_holds s (v # vs)"
  shows "\<exists>s'. cb_shift s = Some (Some v, s') \<and> cb_holds s' vs"
proof -
  obtain l h where s: "s = (l, h)" by (cases s)
  obtain x xs where xs: "cbheap_ok h" "\<forall>n. ch_grants h n" "callbacks_at h l ((x, fst v, snd v) # xs)" "vs = map snd xs"
    using assms by (auto simp: cb_holds_def s map_eq_Cons_conv Cons_eq_map_conv)
  obtain c l' h' where r: "redisShiftCallback l h = Some (REDIS_OK, Some c, l', h')" "cb_fn c = fst v" "cb_privdata c = snd v"
    "cbheap_ok h'" "ch_grants h' = ch_grants h" "callbacks_at h' l' xs"
    using redisShiftCallback_ok [OF xs(1,3)] by blast
  then have "cb_holds (l', h') vs" using xs(2,4) by (auto simp: cb_holds_def)
  then show ?thesis using r(1-3) by (simp add: cb_shift_def s)
qed

interpretation cbq: fifo_queue cb_holds "cb_push g" cb_shift cap
  for g cap
proof unfold_locales
  fix s assume "cb_holds s []"
  then show "\<exists>s'. cb_shift s = Some (None, s') \<and> cb_holds s' []"
    by (auto simp: cb_holds_def cb_shift_def redisShiftCallback_empty)
qed (blast intro: cb_push_ok cb_shift_ok)+

section \<open>The dictionary of subscription callbacks\<close>

text \<open>
  The memory behind keys and values: the names that were freed, the values that were
  freed, and which allocations of a copied callback are granted.
\<close>

record cbmem =
  cm_requests :: nat
  cm_grants :: "nat \<Rightarrow> bool"
  cm_freed_keys :: "sds list"
  cm_freed_vals :: "redisCallback list"

text \<open>The length is passed as an \<^verbatim>\<open>int\<close>.\<close>

definition callbackHash :: "sds \<Rightarrow> 32 word" where
  "callbackHash key =
     (case dictGenHashFunction (buf key) (nat (s32 (int (sdslen key)))) of Some h \<Rightarrow> h | None \<Rightarrow> 0)"

definition callbackValDup :: "ptr \<Rightarrow> redisCallback \<Rightarrow> cbmem \<Rightarrow> (redisCallback \<times> cbmem) option" where
  "callbackValDup privdata src w =
     (if cm_grants w (cm_requests w) then Some (src, w\<lparr>cm_requests := cm_requests w + 1\<rparr>) else None)"

definition callbackKeyCompare :: "ptr \<Rightarrow> sds \<Rightarrow> sds \<Rightarrow> bool" where
  "callbackKeyCompare privdata key1 key2 =
     (let l1 = s32 (int (sdslen key1)); l2 = s32 (int (sdslen key2))
      in if l1 \<noteq> l2 then False else take (to_size l1) (buf key1) = take (to_size l1) (buf key2))"

definition callbackKeyDestructor :: "ptr \<Rightarrow> sds \<Rightarrow> cbmem \<Rightarrow> cbmem" where
  "callbackKeyDestructor privdata key w = w\<lparr>cm_freed_keys := key # cm_freed_keys w\<rparr>"

definition callbackValDestructor :: "ptr \<Rightarrow> redisCallback \<Rightarrow> cbmem \<Rightarrow> cbmem" where
  "callbackValDestructor privdata val w = w\<lparr>cm_freed_vals := val # cm_freed_vals w\<rparr>"

definition callbackDict :: "(sds, redisCallback, cbmem) dictType" where
  "callbackDict =
     \<lparr>hashFunction = callbackHash, keyDup = None, valDup = Some callbackValDup,
      keyCompare = Some callbackKeyCompare, keyDestructor = Some callbackKeyDestructor,
      valDestructor = Some callbackValDestructor\<rparr>"

section \<open>The session dictionary\<close>

definition callbackSessionHash :: "ptr \<Rightarrow> 32 word" where
  "callbackSessionHash key = (let hash = 5381 in (push_bit 5 hash + hash) + word_of_int (s32 (int key)))"

definition callbackSessionKeyCompare :: "ptr \<Rightarrow> ptr \<Rightarrow> ptr \<Rightarrow> bool" where
  "callbackSessionKeyCompare privdata key1 key2 = (s32 (int key1) = s32 (int key2))"

definition callbackSessionDict :: "(ptr, 'v, 'w) dictType" where
  "callbackSessionDict =
     \<lparr>hashFunction = callbackSessionHash, keyDup = None, valDup = None,
      keyCompare = Some callbackSessionKeyCompare, keyDestructor = None, valDestructor = None\<rparr>"

section \<open>Both are tables\<close>

lemma hash_loop_take: "hash_loop h (take n b) n = hash_loop h b n"
  by (induction n arbitrary: h b) (auto, case_tac b, auto)

lemma callbackHash_cong:
  assumes "callbackKeyCompare p k l"
  shows "callbackHash k = callbackHash l"
proof -
  define n where "n = s32 (int (sdslen l))"
  have n: "s32 (int (sdslen k)) = n" "take (to_size n) (buf k) = take (to_size n) (buf l)"
    using assms by (auto simp: callbackKeyCompare_def n_def Let_def split: if_splits)
  have "hash_loop 5381 (buf k) (nat n) = hash_loop 5381 (buf l) (nat n)"
  proof (cases "0 \<le> n")
    case True
    have "n < 2 ^ 31" unfolding n_def by (rule signed_take_bit_int_less_exp)
    then have "to_size n = nat n" using True by (simp add: to_size_id)
    then show ?thesis using n(2) hash_loop_take [of 5381 "nat n"] by metis
  qed simp
  then show ?thesis using n(1) by (simp add: callbackHash_def dictGenHashFunction_def n_def [symmetric])
qed

definition cbmem_good :: "cbmem \<Rightarrow> bool" where
  "cbmem_good w \<longleftrightarrow> (\<forall>n. cm_grants w n)"

lemma cmp_callbackDict [simp]: "cmp callbackDict p = callbackKeyCompare p"
  by (simp add: cmp_def callbackDict_def fun_eq_iff)

interpretation cbd: dict_values callbackDict p cbmem_good
  for p
proof unfold_locales
  show "cmp callbackDict p k j" if "cmp callbackDict p k l" "cmp callbackDict p l j" for k l j
    using that by (auto simp: callbackKeyCompare_def Let_def split: if_splits)
  show "hashFunction callbackDict k = hashFunction callbackDict l" if "cmp callbackDict p k l" for k l
    using that callbackHash_cong by (simp add: callbackDict_def [THEN arg_cong, of hashFunction])
qed (auto simp: callbackDict_def callbackKeyCompare_def stored_def callbackValDup_def cbmem_good_def
    callbackKeyDestructor_def callbackValDestructor_def cmp_def Let_def split: if_splits)

interpretation csd: dict_values callbackSessionDict p "\<lambda>_. True"
  for p
  by unfold_locales (auto simp: callbackSessionDict_def callbackSessionKeyCompare_def callbackSessionHash_def cmp_def stored_def Let_def)

text \<open>On well-formed names shorter than two gigabytes the comparison is equality of strings.\<close>

lemma callbackKeyCompare_eq:
  assumes "sds_ok a" "sds_ok b" "sdslen a < 2 ^ 31" "sdslen b < 2 ^ 31"
  shows "callbackKeyCompare p a b \<longleftrightarrow> sdsstr a = sdsstr b"
proof -
  have l: "length (sdsstr a) = sdslen a" "length (sdsstr b) = sdslen b"
    using sdsb.len_str [OF assms(1)] sdsb.len_str [OF assms(2)] by simp_all
  have s: "s32 (int (sdslen a)) = int (sdslen a)" "s32 (int (sdslen b)) = int (sdslen b)"
    using assms(3,4) by (auto intro!: s32_of_nat)
  have t: "to_size (int (sdslen a)) = sdslen a" using assms(3) by (simp add: to_size_id)
  show ?thesis
  proof (cases "sdslen a = sdslen b")
    case True
    then show ?thesis using s t by (simp add: callbackKeyCompare_def sdsstr_def)
  next
    case False
    then show ?thesis using s l by (auto simp: callbackKeyCompare_def)
  qed
qed

section \<open>Properties\<close>

definition cbheap0 :: cbheap where
  "cbheap0 = \<lparr>ch_cells = Map.empty, ch_fresh = 1, ch_requests = 0, ch_grants = (\<lambda>_. True)\<rparr>"

definition cb0 :: redisCallback where
  "cb0 = \<lparr>cb_next = 9, cb_fn = 9, cb_privdata = 9\<rparr>"

definition cbmem0 :: "cbmem dmem" where
  "cbmem0 = \<lparr>dm_requests = 0, dm_grants = (\<lambda>_. True), dm_user =
     \<lparr>cm_requests = 0, cm_grants = (\<lambda>_. True), cm_freed_keys = [], cm_freed_vals = []\<rparr>\<rparr>"

text \<open>
  Callbacks are answered in the order they were registered: any sequence of
  __redisPushCallback and __redisShiftCallback on a callback list returns what it returns
  on a first-in first-out queue of functions with their private data.
\<close>

theorem callbacks_fifo:
  assumes "cbheap_ok h" "\<forall>n. ch_grants h n" "callbacks_at h l xs"
  shows "\<exists>l' h' ys. run_queue (cb_push g) cb_shift ops (l, h) = Some (fst (spec_queue ops (map snd xs)), l', h') \<and>
    callbacks_at h' l' ys \<and> map snd ys = snd (spec_queue ops (map snd xs))"
proof -
  have "cb_holds (l, h) (map snd xs)" using assms by (auto simp: cb_holds_def)
  from cbq.run_fifo [OF this le_refl, of g] obtain s' where
    "run_queue (cb_push g) cb_shift ops (l, h) = Some (fst (spec_queue ops (map snd xs)), s')"
    "cb_holds s' (snd (spec_queue ops (map snd xs)))" by blast
  then show ?thesis by (cases s') (auto simp: cb_holds_def)
qed

theorem callbacks_fifo_witness:
  "\<exists>l' h' ys. run_queue (cb_push cb0) cb_shift [Push (5, 6), Push (7, 8), Pop, Pop, Pop] (\<lparr>cl_head = NULL, cl_tail = NULL\<rparr>, cbheap0) =
      Some ([Some (5, 6), Some (7, 8), None], l', h') \<and> callbacks_at h' l' ys \<and> map snd ys = []"
  using callbacks_fifo [of cbheap0 "\<lparr>cl_head = NULL, cl_tail = NULL\<rparr>" "[]" cb0 "[Push (5, 6), Push (7, 8), Pop, Pop, Pop]"]
  by (simp add: cbheap0_def cbheap_ok_def callbacks_at_def)

text \<open>
  C24. The dictionary of subscription callbacks is a finite map from channel names: starting
  with an empty table, any sequence of dictReplace, dictDelete and dictFind, up to two to
  the 31 of them, returns what it returns on a map; no operation faults, whatever chains
  collide and whenever the table grows.
\<close>

theorem callbackDict_is_map:
  assumes "\<forall>n. dm_grants m n" "\<forall>n. cm_grants (dm_user m) n" "length ops \<le> 2 ^ 31"
  shows "\<exists>ht m' M n. run_map dict_put dict_del dict_get ops (dictInit callbackDict p, m) =
      Some (spec_map (callbackKeyCompare p) ops (\<lambda>_. None), ht, m') \<and> dict_rep callbackDict p cbmem_good (ht, m') M n"
proof -
  have "dict_rep callbackDict p cbmem_good (dictInit callbackDict p, m) (\<lambda>_. None) 0"
    using assms by (intro dict_rep_empty) (simp_all add: cbmem_good_def)
  from cbd.dm.run_refines [OF this, of ops] show ?thesis using assms(3) by auto
qed

theorem callbackDict_is_map_witness:
  "\<exists>ht m' M n. run_map dict_put dict_del dict_get
      [Put sds_ab cb0, Get sds_ab, Del sds_ab, Get sds_ab] (dictInit callbackDict NULL, cbmem0) =
      Some ([Some cb0, None], ht, m') \<and> dict_rep callbackDict NULL cbmem_good (ht, m') M n"
  using callbackDict_is_map [of cbmem0 "[Put sds_ab cb0, Get sds_ab, Del sds_ab, Get sds_ab]" NULL]
  by (simp add: cbmem0_def callbackKeyCompare_def)

text \<open>
  Growing a table keeps it well-formed and keeps exactly its entries, for every type of
  keys whatsoever: every chain is rehashed under the doubled mask.
\<close>

theorem dictExpand_keeps_entries:
  assumes "dict_ok ht" "dm_grants m (dm_requests m)" "2 \<le> k" "k \<le> 31" "d_used ht \<le> 2 ^ k"
  shows "\<exists>ht'. dictExpand ht (2 ^ k) m = Some (DICT_OK, ht', m\<lparr>dm_requests := dm_requests m + 1\<rparr>) \<and>
    dict_ok ht' \<and> ents ht' = ents ht \<and> d_size ht' = 2 ^ k \<and> d_used ht' = d_used ht"
  using dictExpand_ok [OF assms] by (auto simp: same_entries_def)

theorem dictExpand_keeps_entries_witness:
  "\<exists>ht'. dictExpand (dictInit callbackDict NULL) (2 ^ 3) cbmem0 = Some (DICT_OK, ht', cbmem0\<lparr>dm_requests := 1\<rparr>) \<and>
    dict_ok ht' \<and> ents ht' = {#} \<and> d_size ht' = 2 ^ 3 \<and> d_used ht' = 0"
  using dictExpand_keeps_entries [of "dictInit callbackDict NULL" cbmem0 3]
  by (simp add: cbmem0_def dict_ok_def dictInit_def ents_def keys_unique_def)

text \<open>
  C25. Iterating over a table with dictNext ends and meets every entry exactly once, in tables
  of less than two to the 31 slots (the index is an int).
\<close>

theorem dictNext_meets_all:
  assumes "dict_ok ht" "d_size ht < 2 ^ 31"
  shows "\<exists>es. dict_entries ht \<lparr>it_index = - 1, it_entry = None, it_nextEntry = nx\<rparr> = Some es \<and> mset es = ents ht"
  using assms by (rule dict_entries_ok)

theorem dictNext_meets_all_witness:
  "\<exists>es. dict_entries (dictInit callbackDict NULL) \<lparr>it_index = - 1, it_entry = None, it_nextEntry = []\<rparr> = Some es \<and> mset es = {#}"
  using dictNext_meets_all [of "dictInit callbackDict NULL" "[]"]
  by (simp add: dict_ok_def dictInit_def ents_def keys_unique_def)

end
