(* ===== verification/Async.thy ===== *)
theory Async
  imports Net Adlist Callbacks
begin

text \<open>
  async.c: the asynchronous context, its callbacks and the handlers an event loop calls.
  What the context calls outside is a parameter: the callbacks of the user, which work on the
  whole state and may call the functions of this file again, and the hooks of the event
  library, which work on the state of the system. A context that was freed is gone from the
  state, so that using it is a fault.
\<close>

section \<open>The state\<close>

record 's ev =
  ev_addRead :: "('s \<Rightarrow> 's option) option"
  ev_delRead :: "('s \<Rightarrow> 's option) option"
  ev_addWrite :: "('s \<Rightarrow> 's option) option"
  ev_delWrite :: "('s \<Rightarrow> 's option) option"
  ev_cleanup :: "('s \<Rightarrow> 's option) option"

text \<open>\<open>ac_errstr\<close> says whether the pointer is set; it then points to the message of \<open>ac_c\<close>.\<close>

record 's actx =
  ac_c :: redisContext
  ac_err :: int
  ac_errstr :: bool
  ac_ev :: "'s ev"
  ac_onDisconnect :: ptr
  ac_onConnect :: ptr
  ac_replies :: redisCallbackList
  ac_invalid :: redisCallbackList
  ac_channels :: "(sds, redisCallback, cbmem) dict option"
  ac_patterns :: "(sds, redisCallback, cbmem) dict option"
  ac_cmd_list :: ptr
  ac_xc :: ptr
  ac_status :: int

text \<open>
  The context, the replies, the callback cells, the memory of the dictionaries, the lists and
  the commands in them, the multiplexing contexts whose waiter was signalled, whether
  \<^verbatim>\<open>async_free_mutex\<close> is held, and the system.
\<close>

record 's ast =
  as_ac :: "'s actx option"
  as_heap :: rheap
  as_cells :: cbheap
  as_mem :: "cbmem dmem"
  as_lists :: "unit lheap"
  as_tasks :: "ptr set"
  as_woken :: "ptr list"
  as_free_lock :: bool
  as_world :: "'s world"

text \<open>What the user's functions do: reply callbacks, and the connect and disconnect callbacks.\<close>

record 's user =
  u_reply :: "ptr \<Rightarrow> ptr \<Rightarrow> ptr \<Rightarrow> 's ast \<Rightarrow> 's ast option"
  u_status :: "ptr \<Rightarrow> int \<Rightarrow> 's ast \<Rightarrow> 's ast option"

definition FREED_CONTEXT :: int where "FREED_CONTEXT = - 1"

definition upd_ac :: "('s actx \<Rightarrow> 's actx) \<Rightarrow> 's ast \<Rightarrow> 's ast option" where
  "upd_ac f st = do { ac \<leftarrow> as_ac st; Some (st\<lparr>as_ac := Some (f ac)\<rparr>) }"

definition upd_c :: "(redisContext \<Rightarrow> redisContext) \<Rightarrow> 's ast \<Rightarrow> 's ast option" where
  "upd_c f = upd_ac (\<lambda>ac. ac\<lparr>ac_c := f (ac_c ac)\<rparr>)"

definition upd_flags :: "(32 word \<Rightarrow> 32 word) \<Rightarrow> 's ast \<Rightarrow> 's ast option" where
  "upd_flags f = upd_c (\<lambda>c. c\<lparr>c_flags := f (c_flags c)\<rparr>)"

text \<open>The macros \<^verbatim>\<open>_EL_ADD_READ\<close> and so on.\<close>

definition run_ev :: "('s ev \<Rightarrow> ('s \<Rightarrow> 's option) option) \<Rightarrow> 's ast \<Rightarrow> 's ast option" where
  "run_ev hook st =
     do {
       ac \<leftarrow> as_ac st;
       case hook (ac_ev ac) of
         None \<Rightarrow> Some st
       | Some g \<Rightarrow> do { s \<leftarrow> g (snd (as_world st)); Some (st\<lparr>as_world := (fst (as_world st), s)\<rparr>) }
     }"

section \<open>Making a context\<close>

text \<open>A dictionary, or NULL when memory ran out.\<close>

definition new_dict :: "cbmem dmem \<Rightarrow> (sds, redisCallback, cbmem) dict option \<times> cbmem dmem" where
  "new_dict m =
     (case dictCreate callbackDict NULL m of
        Some (d, m) \<Rightarrow> (Some d, m)
      | None \<Rightarrow> (None, snd (dm_malloc m)))"

definition no_hooks :: "'s ev" where
  "no_hooks = \<lparr>ev_addRead = None, ev_delRead = None, ev_addWrite = None, ev_delWrite = None, ev_cleanup = None\<rparr>"

definition sizeof_redisAsyncContext :: nat where "sizeof_redisAsyncContext = 408"

text \<open>
  \<^verbatim>\<open>redisAsyncInitialize\<close>: the block of the context grows, or stays as it is and the result
  is NULL.
\<close>

definition redisAsyncInitialize :: "allocator \<Rightarrow> redisContext \<Rightarrow> 's ast \<Rightarrow> bool \<times> 's ast" where
  "redisAsyncInitialize A c st =
     (if \<not> serves A sizeof_redisAsyncContext then (False, st)
      else
        (let (ch, m) = new_dict (as_mem st);
             (pa, m) = new_dict m;
             (l, lists) = listCreate (as_lists st);
             ac = \<lparr>ac_c = c\<lparr>c_flags := clear_flag (c_flags c) REDIS_CONNECTED\<rparr>, ac_err = 0, ac_errstr = False,
                   ac_ev = no_hooks,
                   ac_onDisconnect = NULL, ac_onConnect = NULL,
                   ac_replies = \<lparr>cl_head = NULL, cl_tail = NULL\<rparr>, ac_invalid = \<lparr>cl_head = NULL, cl_tail = NULL\<rparr>,
                   ac_channels = ch, ac_patterns = pa, ac_cmd_list = l, ac_xc = NULL, ac_status = 0\<rparr>
         in (True, st\<lparr>as_ac := Some ac, as_mem := m, as_lists := lists\<rparr>)))"

definition redisAsyncInitializeHelper :: "allocator \<Rightarrow> redisContext \<Rightarrow> 's ast \<Rightarrow> bool \<times> 's ast" where
  "redisAsyncInitializeHelper A c st = redisAsyncInitialize A c st"

definition redisAsyncCopyError :: "'s ast \<Rightarrow> 's ast option" where
  "redisAsyncCopyError = upd_ac (\<lambda>ac. ac\<lparr>ac_err := c_err (ac_c ac), ac_errstr := True\<rparr>)"

definition redisAsyncCopyErrorHelper :: "'s ast \<Rightarrow> 's ast option" where
  "redisAsyncCopyErrorHelper st = redisAsyncCopyError st"

text \<open>What the four connect functions do with the context they got; \<open>check\<close> if they look for NULL.\<close>

definition async_connect ::
    "allocator \<Rightarrow> 's sys \<Rightarrow> bool \<Rightarrow> (redisContext option \<times> 's world) option \<Rightarrow> 's ast \<Rightarrow> (bool \<times> 's ast) option" where
  "async_connect A S check out st =
     do {
       (c, w) \<leftarrow> out;
       let st = st\<lparr>as_world := w\<rparr>;
       case c of
         None \<Rightarrow> if check then Some (False, st) else None
       | Some c \<Rightarrow>
           (case redisAsyncInitialize A c st of
              (True, st) \<Rightarrow> do { st \<leftarrow> redisAsyncCopyError st; Some (True, st) }
            | (False, st) \<Rightarrow>
                if check
                then do { (h, s) \<leftarrow> redisFree S (Some c) (as_heap st) (snd (as_world st));
                          Some (False, st\<lparr>as_heap := h, as_world := (fst (as_world st), s)\<rparr>) }
                else Some (False, st))
     }"

definition redisAsyncConnect :: "allocator \<Rightarrow> 's sys \<Rightarrow> string \<Rightarrow> int \<Rightarrow> 's ast \<Rightarrow> (bool \<times> 's ast) option" where
  "redisAsyncConnect A S ip port st = async_connect A S True (redisConnectNonBlock A S ip port (as_world st)) st"

definition redisAsyncConnectBind ::
    "allocator \<Rightarrow> 's sys \<Rightarrow> string \<Rightarrow> int \<Rightarrow> string \<Rightarrow> 's ast \<Rightarrow> (bool \<times> 's ast) option" where
  "redisAsyncConnectBind A S ip port source_addr st =
     async_connect A S False (redisConnectBindNonBlock A S ip port source_addr (as_world st)) st"

definition redisAsyncConnectBindWithReuse ::
    "allocator \<Rightarrow> 's sys \<Rightarrow> string \<Rightarrow> int \<Rightarrow> string \<Rightarrow> 's ast \<Rightarrow> (bool \<times> 's ast) option" where
  "redisAsyncConnectBindWithReuse A S ip port source_addr st =
     async_connect A S False (redisConnectBindNonBlockWithReuse A S ip port source_addr (as_world st)) st"

definition redisAsyncConnectUnix :: "allocator \<Rightarrow> 's sys \<Rightarrow> string \<Rightarrow> 's ast \<Rightarrow> (bool \<times> 's ast) option" where
  "redisAsyncConnectUnix A S path st = async_connect A S True (redisConnectUnixNonBlock A S path (as_world st)) st"

definition redisAsyncSetConnectCallback :: "ptr \<Rightarrow> 's ast \<Rightarrow> (int \<times> 's ast) option" where
  "redisAsyncSetConnectCallback fn st =
     do {
       ac \<leftarrow> as_ac st;
       if ac_onConnect ac = NULL
       then do {
         st \<leftarrow> upd_ac (\<lambda>ac. ac\<lparr>ac_onConnect := fn\<rparr>) st;
         st \<leftarrow> run_ev ev_addWrite st;
         Some (REDIS_OK, st)
       }
       else Some (REDIS_ERR, st)
     }"

definition redisAsyncSetDisconnectCallback :: "ptr \<Rightarrow> 's ast \<Rightarrow> (int \<times> 's ast) option" where
  "redisAsyncSetDisconnectCallback fn st =
     do {
       ac \<leftarrow> as_ac st;
       if ac_onDisconnect ac = NULL
       then do { st \<leftarrow> upd_ac (\<lambda>ac. ac\<lparr>ac_onDisconnect := fn\<rparr>) st; Some (REDIS_OK, st) }
       else Some (REDIS_ERR, st)
     }"

section \<open>Running callbacks\<close>

definition redisRunCallback :: "'s user \<Rightarrow> redisCallback \<Rightarrow> ptr \<Rightarrow> 's ast \<Rightarrow> 's ast option" where
  "redisRunCallback U cb reply st =
     (if cb_fn cb \<noteq> NULL
      then do {
        st \<leftarrow> upd_flags (\<lambda>f. set_flag f REDIS_IN_CALLBACK) st;
        st \<leftarrow> u_reply U (cb_fn cb) reply (cb_privdata cb) st;
        upd_flags (\<lambda>f. clear_flag f REDIS_IN_CALLBACK) st
      }
      else Some st)"

datatype which = Replies | Invalid

definition get_cbs :: "which \<Rightarrow> 's actx \<Rightarrow> redisCallbackList" where
  "get_cbs k ac = (case k of Replies \<Rightarrow> ac_replies ac | Invalid \<Rightarrow> ac_invalid ac)"

definition set_cbs :: "which \<Rightarrow> redisCallbackList \<Rightarrow> 's actx \<Rightarrow> 's actx" where
  "set_cbs k l ac = (case k of Replies \<Rightarrow> ac\<lparr>ac_replies := l\<rparr> | Invalid \<Rightarrow> ac\<lparr>ac_invalid := l\<rparr>)"

definition shift_cb :: "which \<Rightarrow> 's ast \<Rightarrow> (int \<times> redisCallback option \<times> 's ast) option" where
  "shift_cb k st =
     do {
       ac \<leftarrow> as_ac st;
       (rc, cb, l, h) \<leftarrow> redisShiftCallback (get_cbs k ac) (as_cells st);
       Some (rc, cb, st\<lparr>as_ac := Some (set_cbs k l ac), as_cells := h\<rparr>)
     }"

definition push_cb :: "which \<Rightarrow> redisCallback \<Rightarrow> 's ast \<Rightarrow> (int \<times> 's ast) option" where
  "push_cb k cb st =
     do {
       ac \<leftarrow> as_ac st;
       (rc, l, h) \<leftarrow> redisPushCallback cb (get_cbs k ac) (Some cb) (as_cells st);
       Some (rc, st\<lparr>as_ac := Some (set_cbs k l ac), as_cells := h\<rparr>)
     }"

text \<open>\<^verbatim>\<open>while (__redisShiftCallback(..) == REDIS_OK) __redisRunCallback(ac,&cb,NULL)\<close>.\<close>

partial_function (option) drain_cbs :: "'s user \<Rightarrow> which \<Rightarrow> 's ast \<Rightarrow> 's ast option" where
  "drain_cbs U k st =
     do {
       (rc, cb, st) \<leftarrow> shift_cb k st;
       if rc = REDIS_OK
       then do { cb \<leftarrow> cb; st \<leftarrow> redisRunCallback U cb NULL st; drain_cbs U k st }
       else Some st
     }"

section \<open>Freeing a context\<close>

text \<open>One of the two dictionaries; with a table in it, its callbacks run and it is freed.\<close>

definition get_dict :: "bool \<Rightarrow> 's actx \<Rightarrow> (sds, redisCallback, cbmem) dict option" where
  "get_dict pvariant ac = (if pvariant then ac_patterns ac else ac_channels ac)"

definition set_dict :: "bool \<Rightarrow> (sds, redisCallback, cbmem) dict option \<Rightarrow> 's actx \<Rightarrow> 's actx" where
  "set_dict pvariant d ac = (if pvariant then ac\<lparr>ac_patterns := d\<rparr> else ac\<lparr>ac_channels := d\<rparr>)"

partial_function (option) run_entries ::
    "'s user \<Rightarrow> bool \<Rightarrow> (sds, redisCallback) dictIterator \<Rightarrow> 's ast \<Rightarrow> 's ast option" where
  "run_entries U pv it st =
     do {
       ac \<leftarrow> as_ac st;
       ht \<leftarrow> get_dict pv ac;
       (de, it) \<leftarrow> dictNext ht it;
       case de of
         None \<Rightarrow> Some st
       | Some e \<Rightarrow> do { st \<leftarrow> redisRunCallback U (de_val e) NULL st; run_entries U pv it st }
     }"

definition free_dict :: "'s user \<Rightarrow> bool \<Rightarrow> 's ast \<Rightarrow> 's ast option" where
  "free_dict U pv st =
     do {
       (it, m) \<leftarrow> dictGetIterator (as_mem st);
       st \<leftarrow> run_entries U pv it (st\<lparr>as_mem := m\<rparr>);
       ac \<leftarrow> as_ac st;
       ht \<leftarrow> get_dict pv ac;
       m \<leftarrow> dictRelease ht (as_mem st);
       Some (st\<lparr>as_ac := Some (set_dict pv None ac), as_mem := m\<rparr>)
     }"

text \<open>\<^verbatim>\<open>free\<close> of a command that waits in the list; NULL is allowed.\<close>

definition free_task :: "ptr \<Rightarrow> 's ast \<Rightarrow> 's ast option" where
  "free_task p st =
     (if p = NULL then Some st
      else if p \<in> as_tasks st then Some (st\<lparr>as_tasks := as_tasks st - {p}\<rparr>) else None)"

partial_function (option) free_cmds :: "ptr \<Rightarrow> ptr \<Rightarrow> 's ast \<Rightarrow> 's ast option" where
  "free_cmds l node st =
     (if node = NULL then Some st
      else do {
        n \<leftarrow> lh_nodes (as_lists st) node;
        st \<leftarrow> free_task (ln_value n) st;
        h \<leftarrow> listDelNode l node (as_lists st);
        free_cmds l (ln_next n) (st\<lparr>as_lists := h\<rparr>)
      })"

definition free_cmd_list :: "'s ast \<Rightarrow> 's ast option" where
  "free_cmd_list st =
     do {
       ac \<leftarrow> as_ac st;
       if ac_cmd_list ac = NULL then Some st
       else do {
         l \<leftarrow> lh_lists (as_lists st) (ac_cmd_list ac);
         st \<leftarrow> free_cmds (ac_cmd_list ac) (al_head l) st;
         h \<leftarrow> listRelease (ac_cmd_list ac) (as_lists st);
         Some (st\<lparr>as_lists := h, as_ac := Some (ac\<lparr>ac_cmd_list := NULL\<rparr>)\<rparr>)
       }
     }"

text \<open>From the clean-up of the event library on.\<close>

definition async_close :: "'s user \<Rightarrow> 's sys \<Rightarrow> 's ast \<Rightarrow> 's ast option" where
  "async_close U S st =
     do {
       st \<leftarrow> run_ev ev_cleanup st;
       ac \<leftarrow> as_ac st;
       st \<leftarrow> (if ac_onDisconnect ac \<noteq> NULL \<and> has_flag (c_flags (ac_c ac)) REDIS_CONNECTED
              then u_status U (ac_onDisconnect ac)
                     (if has_flag (c_flags (ac_c ac)) REDIS_FREEING then REDIS_OK
                      else if ac_err ac = 0 then REDIS_OK else REDIS_ERR) st
              else Some st);
       st \<leftarrow> free_cmd_list st;
       ac \<leftarrow> as_ac st;
       let st = (if ac_status ac = FREED_CONTEXT \<and> ac_xc ac \<noteq> NULL then st\<lparr>as_woken := ac_xc ac # as_woken st\<rparr> else st);
       (h, s) \<leftarrow> redisFree S (Some (ac_c ac)) (as_heap st) (snd (as_world st));
       Some (st\<lparr>as_ac := None, as_heap := h, as_world := (fst (as_world st), s)\<rparr>)
     }"

text \<open>\<^verbatim>\<open>__redisAsyncFree\<close>; a missing dictionary means that the context is being freed already.\<close>

definition asyncFree :: "'s user \<Rightarrow> 's sys \<Rightarrow> 's ast \<Rightarrow> 's ast option" where
  "asyncFree U S st =
     do {
       st \<leftarrow> drain_cbs U Replies st;
       st \<leftarrow> drain_cbs U Invalid st;
       ac \<leftarrow> as_ac st;
       if ac_channels ac = None then Some st
       else do {
         st \<leftarrow> free_dict U False st;
         ac \<leftarrow> as_ac st;
         if ac_patterns ac = None then Some st
         else do { st \<leftarrow> free_dict U True st; async_close U S st }
       }
     }"

definition redisAsyncFree :: "'s user \<Rightarrow> 's sys \<Rightarrow> 's ast \<Rightarrow> 's ast option" where
  "redisAsyncFree U S st =
     do {
       st \<leftarrow> upd_flags (\<lambda>f. set_flag f REDIS_FREEING) st;
       ac \<leftarrow> as_ac st;
       if \<not> has_flag (c_flags (ac_c ac)) REDIS_IN_CALLBACK then asyncFree U S st else Some st
     }"

definition asyncDisconnect :: "'s user \<Rightarrow> 's sys \<Rightarrow> 's ast \<Rightarrow> 's ast option" where
  "asyncDisconnect U S st =
     do {
       st \<leftarrow> redisAsyncCopyError st;
       ac \<leftarrow> as_ac st;
       st \<leftarrow> (if ac_err ac = 0
              then do { (ret, _, st) \<leftarrow> shift_cb Replies st; if ret = REDIS_ERR then Some st else None }
              else upd_flags (\<lambda>f. set_flag f REDIS_DISCONNECTING) st);
       asyncFree U S st
     }"

definition redisAsyncDisconnect :: "'s user \<Rightarrow> 's sys \<Rightarrow> 's ast \<Rightarrow> 's ast option" where
  "redisAsyncDisconnect U S st =
     do {
       st \<leftarrow> upd_flags (\<lambda>f. set_flag f REDIS_DISCONNECTING) st;
       ac \<leftarrow> as_ac st;
       if \<not> has_flag (c_flags (ac_c ac)) REDIS_IN_CALLBACK \<and> cl_head (ac_replies ac) = NULL
       then asyncDisconnect U S st else Some st
     }"

text \<open>A caller in the other thread passes a pointer that may be NULL, under a lock that is not recursive.\<close>

definition xRedisAsyncFree :: "'s user \<Rightarrow> 's sys \<Rightarrow> bool \<Rightarrow> 's ast \<Rightarrow> 's ast option" where
  "xRedisAsyncFree U S given st =
     (if as_free_lock st then None
      else if \<not> given then Some st
      else do {
        st \<leftarrow> upd_flags (\<lambda>f. set_flag f REDIS_FREEING) (st\<lparr>as_free_lock := True\<rparr>);
        ac \<leftarrow> as_ac st;
        st \<leftarrow> (if \<not> has_flag (c_flags (ac_c ac)) REDIS_IN_CALLBACK then asyncFree U S st else Some st);
        Some (st\<lparr>as_free_lock := False\<rparr>)
      })"

section \<open>Replies\<close>

text \<open>
  \<^verbatim>\<open>strncasecmp(s, lit, strlen(lit)) == 0\<close> for the bytes from \<open>s\<close> to the end of its block, past
  which reading is a fault.
\<close>

fun starts_nocase :: "char list \<Rightarrow> string \<Rightarrow> bool option" where
  "starts_nocase s [] = Some True"
| "starts_nocase [] (y # ys) = None"
| "starts_nocase (x # xs) (y # ys) = (if tolower x = tolower y then starts_nocase xs ys else Some False)"

definition reply_at :: "redisReply \<Rightarrow> nat \<Rightarrow> rheap \<Rightarrow> redisReply option" where
  "reply_at r i h =
     do { es \<leftarrow> ry_element r; p \<leftarrow> (if i < length es then Some (es ! i) else None); objs h p }"

text \<open>\<^verbatim>\<open>__redisGetSubscribeCallback\<close>; \<open>dst\<close> keeps its old value when no channel is found.\<close>

definition redisGetSubscribeCallback ::
    "allocator \<Rightarrow> ptr \<Rightarrow> redisCallback \<Rightarrow> 's ast \<Rightarrow> (redisCallback \<times> 's ast) option" where
  "redisGetSubscribeCallback A reply dst st =
     do {
       r \<leftarrow> objs (as_heap st) reply;
       if ry_type r = REDIS_REPLY_ARRAY
       then do {
         (if 2 \<le> ry_elements r then Some () else None);
         e0 \<leftarrow> reply_at r 0 (as_heap st);
         (if ry_type e0 = REDIS_REPLY_STRING then Some () else None);
         stype \<leftarrow> ry_str e0;
         let pvariant = (tolower (byte_at stype 0) = CHR ''p'');
         ac \<leftarrow> as_ac st;
         e1 \<leftarrow> reply_at r 1 (as_heap st);
         (if ry_type e1 = REDIS_REPLY_STRING then Some () else None);
         name \<leftarrow> ry_str e1;
         sname \<leftarrow> sdsnewlen A (Some name) (ry_len e1);
         callbacks \<leftarrow> get_dict pvariant ac;
         de \<leftarrow> dictFind callbacks sname;
         case de of
           None \<Rightarrow> Some (dst, st)
         | Some e \<Rightarrow>
             do {
               unsub \<leftarrow> starts_nocase (drop (if pvariant then 1 else 0) stype) (''unsubscribe'' @ [NUL]);
               if unsub
               then do {
                 (_, d, m) \<leftarrow> dictDelete callbacks sname (as_mem st);
                 let st = st\<lparr>as_ac := Some (set_dict pvariant (Some d) ac), as_mem := m\<rparr>;
                 e2 \<leftarrow> reply_at r 2 (as_heap st);
                 (if ry_type e2 = REDIS_REPLY_INTEGER then Some () else None);
                 st \<leftarrow> (if ry_integer e2 = 0 then upd_flags (\<lambda>f. clear_flag f REDIS_SUBSCRIBED) st else Some st);
                 Some (de_val e, st)
               }
               else Some (de_val e, st)
             }
       }
       else do {
         (_, cb, st) \<leftarrow> shift_cb Invalid st;
         Some (case cb of Some cb \<Rightarrow> cb | None \<Rightarrow> dst, st)
       }
     }"

definition get_reply :: "allocator \<Rightarrow> 's sys \<Rightarrow> 's ast \<Rightarrow> (int \<times> ptr \<times> 's ast) option" where
  "get_reply A S st =
     do {
       ac \<leftarrow> as_ac st;
       (rc, p, c, h, s) \<leftarrow> redisGetReply A S (ac_c ac) (as_heap st) (snd (as_world st));
       Some (rc, p, st\<lparr>as_ac := Some (ac\<lparr>ac_c := c\<rparr>), as_heap := h, as_world := (fst (as_world st), s)\<rparr>)
     }"

text \<open>\<^verbatim>\<open>c->reader->fn->freeObject(reply)\<close>.\<close>

definition free_reply :: "ptr \<Rightarrow> 's ast \<Rightarrow> 's ast option" where
  "free_reply p st =
     do {
       ac \<leftarrow> as_ac st;
       r \<leftarrow> c_reader (ac_c ac);
       f \<leftarrow> r_func r freeObject;
       h \<leftarrow> f p (as_heap st);
       Some (st\<lparr>as_heap := h\<rparr>)
     }"

text \<open>No reply is left: whether that ends a connection that is being closed.\<close>

definition drained :: "'s ast \<Rightarrow> bool option" where
  "drained st =
     do {
       ac \<leftarrow> as_ac st;
       if has_flag (c_flags (ac_c ac)) REDIS_DISCONNECTING
       then do { b \<leftarrow> c_obuf (ac_c ac); Some (sdslen b = 0 \<and> cl_head (ac_replies ac) = NULL) }
       else Some False
     }"

text \<open>The callback for a reply; none when the reply was an error that closes the connection.\<close>

definition next_callback ::
    "allocator \<Rightarrow> 's user \<Rightarrow> 's sys \<Rightarrow> ptr \<Rightarrow> redisCallback \<Rightarrow> 's ast \<Rightarrow> (redisCallback option \<times> 's ast) option" where
  "next_callback A U S reply cb st =
     do {
       (rc, shifted, st) \<leftarrow> shift_cb Replies st;
       if rc = REDIS_OK then Some (shifted, st)
       else do {
         r \<leftarrow> objs (as_heap st) reply;
         if ry_type r = REDIS_REPLY_ERROR
         then do {
           str \<leftarrow> ry_str r;
           st \<leftarrow> upd_c (\<lambda>c. c\<lparr>c_err := REDIS_ERR_OTHER,
                   c_errstr := mem_write 0 (take (ERRSTR_SIZE - 1) (cstring str) @ [NUL]) (c_errstr c)\<rparr>) st;
           st \<leftarrow> free_reply reply st;
           st \<leftarrow> asyncDisconnect U S st;
           Some (None, st)
         }
         else do {
           ac \<leftarrow> as_ac st;
           let fl = c_flags (ac_c ac);
           (if has_flag fl REDIS_SUBSCRIBED \<or> has_flag fl REDIS_MONITORING then Some () else None);
           if has_flag fl REDIS_SUBSCRIBED
           then do { (cb, st) \<leftarrow> redisGetSubscribeCallback A reply cb st; Some (Some cb, st) }
           else Some (Some cb, st)
         }
       }
     }"

partial_function (option) process_loop ::
    "allocator \<Rightarrow> 's user \<Rightarrow> 's sys \<Rightarrow> redisCallback \<Rightarrow> 's ast \<Rightarrow> 's ast option" where
  "process_loop A U S cb st =
     do {
       (status, reply, st) \<leftarrow> get_reply A S st;
       if status \<noteq> REDIS_OK then asyncDisconnect U S st
       else if reply = NULL
       then do {
         fin \<leftarrow> drained st;
         if fin then asyncDisconnect U S st
         else do {
           ac \<leftarrow> as_ac st;
           if has_flag (c_flags (ac_c ac)) REDIS_MONITORING
           then do { (_, st) \<leftarrow> push_cb Replies cb st; Some st }
           else Some st
         }
       }
       else do {
         (cb, st) \<leftarrow> next_callback A U S reply cb st;
         case cb of
           None \<Rightarrow> Some st
         | Some cb \<Rightarrow>
             if cb_fn cb \<noteq> NULL
             then do {
               st \<leftarrow> redisRunCallback U cb reply st;
               ac \<leftarrow> as_ac st;
               if has_flag (c_flags (ac_c ac)) REDIS_FREEING then asyncFree U S st
               else process_loop A U S cb st
             }
             else do { st \<leftarrow> free_reply reply st; process_loop A U S cb st }
       }
     }"

definition redisProcessCallbacks :: "allocator \<Rightarrow> 's user \<Rightarrow> 's sys \<Rightarrow> 's ast \<Rightarrow> 's ast option" where
  "redisProcessCallbacks A U S st = process_loop A U S \<lparr>cb_next = NULL, cb_fn = NULL, cb_privdata = NULL\<rparr> st"

section \<open>Events of the socket\<close>

text \<open>\<^verbatim>\<open>ac->onConnect\<close>, when it is set.\<close>

definition on_connect :: "'s user \<Rightarrow> int \<Rightarrow> 's ast \<Rightarrow> 's ast option" where
  "on_connect U status st =
     do { ac \<leftarrow> as_ac st; if ac_onConnect ac \<noteq> NULL then u_status U (ac_onConnect ac) status st else Some st }"

definition redisAsyncHandleConnect :: "'s user \<Rightarrow> 's sys \<Rightarrow> 's ast \<Rightarrow> (int \<times> 's ast) option" where
  "redisAsyncHandleConnect U S st =
     do {
       ac \<leftarrow> as_ac st;
       (rc, c, w) \<leftarrow> redisCheckSocketError S (ac_c ac) (as_world st);
       let st = st\<lparr>as_ac := Some (ac\<lparr>ac_c := c\<rparr>), as_world := w\<rparr>;
       if rc = REDIS_ERR
       then if fst w = EINPROGRESS then Some (REDIS_OK, st)
            else do {
              st \<leftarrow> on_connect U REDIS_ERR st;
              st \<leftarrow> asyncDisconnect U S st;
              Some (REDIS_ERR, st)
            }
       else do {
         st \<leftarrow> upd_flags (\<lambda>f. set_flag f REDIS_CONNECTED) st;
         st \<leftarrow> on_connect U REDIS_OK st;
         Some (REDIS_OK, st)
       }
     }"

text \<open>
  The first lines of both handlers: whether the socket is connected, after looking at it if
  it was not known to be. On failure the context may be gone.
\<close>

definition ensure_connected :: "'s user \<Rightarrow> 's sys \<Rightarrow> 's ast \<Rightarrow> (bool \<times> 's ast) option" where
  "ensure_connected U S st =
     do {
       ac \<leftarrow> as_ac st;
       if has_flag (c_flags (ac_c ac)) REDIS_CONNECTED then Some (True, st)
       else do {
         (rc, st) \<leftarrow> redisAsyncHandleConnect U S st;
         if rc \<noteq> REDIS_OK then Some (False, st)
         else do { ac \<leftarrow> as_ac st; Some (has_flag (c_flags (ac_c ac)) REDIS_CONNECTED, st) }
       }
     }"

definition redisAsyncHandleRead :: "allocator \<Rightarrow> 's user \<Rightarrow> 's sys \<Rightarrow> 's ast \<Rightarrow> 's ast option" where
  "redisAsyncHandleRead A U S st =
     do {
       (go, st) \<leftarrow> ensure_connected U S st;
       if \<not> go then Some st
       else do {
         ac \<leftarrow> as_ac st;
         (rc, c, h, s) \<leftarrow> redisBufferRead A S (ac_c ac) (as_heap st) (snd (as_world st));
         let st = st\<lparr>as_ac := Some (ac\<lparr>ac_c := c\<rparr>), as_heap := h, as_world := (fst (as_world st), s)\<rparr>;
         if rc = REDIS_ERR then asyncDisconnect U S st
         else do { st \<leftarrow> run_ev ev_addRead st; redisProcessCallbacks A U S st }
       }
     }"

definition redisAsyncHandleWrite :: "allocator \<Rightarrow> 's user \<Rightarrow> 's sys \<Rightarrow> 's ast \<Rightarrow> 's ast option" where
  "redisAsyncHandleWrite A U S st =
     do {
       (go, st) \<leftarrow> ensure_connected U S st;
       if \<not> go then Some st
       else do {
         ac \<leftarrow> as_ac st;
         (rc, wdone, c, s) \<leftarrow> redisBufferWrite A S True (ac_c ac) (snd (as_world st));
         let st = st\<lparr>as_ac := Some (ac\<lparr>ac_c := c\<rparr>), as_world := (fst (as_world st), s)\<rparr>;
         if rc = REDIS_ERR then asyncDisconnect U S st
         else do {
           st \<leftarrow> run_ev (if \<not> wdone then ev_addWrite else ev_delWrite) st;
           run_ev ev_addRead st
         }
       }
     }"

section \<open>Commands\<close>

text \<open>
  \<^verbatim>\<open>strtol(p, NULL, 10)\<close>, with its saturation, and \<^verbatim>\<open>strchr\<close> on a string in a block: the offset, or
  \<open>None\<close> inside for NULL; running past the block is a fault.
\<close>

definition strtol :: "char list \<Rightarrow> int option" where
  "strtol p =
     (let p = dropWhile isspace p;
          (neg, p) = (case p of c # cs \<Rightarrow> if c = CHR ''-'' then (True, cs) else if c = CHR ''+'' then (False, cs) else (False, p)
                      | [] \<Rightarrow> (False, p));
          ds = takeWhile isdigit p;
          n = foldl (\<lambda>v c. v * 10 + (chr_val c - 48)) 0 ds;
          n = (if neg then - n else n)
      in if length ds = length p then None
         else Some (if n > 2 ^ 63 - 1 then 2 ^ 63 - 1 else if n < - (2 ^ 63) then - (2 ^ 63) else n))"

definition strchr_at :: "char list \<Rightarrow> char \<Rightarrow> nat option option" where
  "strchr_at p c =
     (let pre = takeWhile (\<lambda>x. x \<noteq> c \<and> x \<noteq> NUL) p
      in if length pre = length p then None
         else if p ! length pre = c then Some (Some (length pre)) else Some None)"

text \<open>
  \<^verbatim>\<open>nextArgument\<close> at an offset of a command: the offset and the length of the argument and the
  offset behind it, or \<open>None\<close> inside when there is none.
\<close>

definition nextArgument :: "char list \<Rightarrow> nat \<Rightarrow> (nat \<times> nat \<times> nat) option option" where
  "nextArgument cmd p =
     do {
       (if p < length cmd then Some () else None);
       q \<leftarrow> (if cmd ! p \<noteq> CHR ''$''
             then map_option (map_option (\<lambda>k. p + k)) (strchr_at (drop p cmd) CHR ''$'')
             else Some (Some p));
       case q of
         None \<Rightarrow> Some None
       | Some p \<Rightarrow>
           do {
             v \<leftarrow> strtol (drop (p + 1) cmd);
             let len = to_size (s32 v);
             k \<leftarrow> strchr_at (drop p cmd) CR;
             k \<leftarrow> k;
             let str = p + k + 2;
             Some (Some (str, len, u64 (str + len + 2)))
           }
     }"

text \<open>The loop that registers every channel of a subscription.\<close>

partial_function (option) add_channels ::
    "allocator \<Rightarrow> bool \<Rightarrow> redisCallback \<Rightarrow> char list \<Rightarrow> nat \<Rightarrow> 's ast \<Rightarrow> 's ast option" where
  "add_channels A pvariant cb cmd p st =
     do {
       a \<leftarrow> nextArgument cmd p;
       case a of
         None \<Rightarrow> Some st
       | Some (astr, alen, p) \<Rightarrow>
           do {
             (if astr + alen \<le> length cmd then Some () else None);
             sname \<leftarrow> sdsnewlen A (Some (drop astr cmd)) alen;
             ac \<leftarrow> as_ac st;
             d \<leftarrow> get_dict pvariant ac;
             (ret, d, m) \<leftarrow> dictReplace d sname cb (as_mem st);
             let m = (if ret = 0 then m\<lparr>dm_user := callbackKeyDestructor NULL sname (dm_user m)\<rparr> else m);
             add_channels A pvariant cb cmd p (st\<lparr>as_ac := Some (set_dict pvariant (Some d) ac), as_mem := m\<rparr>)
           }
     }"

text \<open>
  The callback that a command registers, or the refusal of a command that makes no sense. The
  \<^verbatim>\<open>next\<close> field of the callback is not initialised by the code and never read; it is NULL here.
\<close>

definition register ::
    "allocator \<Rightarrow> redisCallback \<Rightarrow> char list \<Rightarrow> 's ast \<Rightarrow> (int \<times> 's ast) option" where
  "register A cb cmd st =
     do {
       a \<leftarrow> nextArgument cmd 0;
       (cstr, clen, p) \<leftarrow> a;
       c0 \<leftarrow> (if p < length cmd then Some (cmd ! p) else None);
       let hasnext = (c0 = CHR ''$'');
       (if cstr < length cmd then Some () else None);
       let pvariant = (tolower (cmd ! cstr) = CHR ''p'');
       let cstr = drop (if pvariant then cstr + 1 else cstr) cmd;
       sub \<leftarrow> (if hasnext then starts_nocase cstr (''subscribe'' @ CRLF) else Some False);
       if sub
       then do {
         st \<leftarrow> upd_flags (\<lambda>f. set_flag f REDIS_SUBSCRIBED) st;
         st \<leftarrow> add_channels A pvariant cb cmd p st;
         Some (REDIS_OK, st)
       }
       else do {
         ac \<leftarrow> as_ac st;
         let subscribed = has_flag (c_flags (ac_c ac)) REDIS_SUBSCRIBED;
         unsub \<leftarrow> starts_nocase cstr (''unsubscribe'' @ CRLF);
         if unsub then Some (if subscribed then REDIS_OK else REDIS_ERR, st)
         else do {
           monitor \<leftarrow> starts_nocase cstr (''monitor'' @ CRLF);
           st \<leftarrow> (if monitor then upd_flags (\<lambda>f. set_flag f REDIS_MONITORING) st else Some st);
           (_, st) \<leftarrow> push_cb (if \<not> monitor \<and> subscribed then Invalid else Replies) cb st;
           Some (REDIS_OK, st)
         }
       }
     }"

definition asyncCommand ::
    "allocator \<Rightarrow> 's sys \<Rightarrow> ptr \<Rightarrow> ptr \<Rightarrow> char list \<Rightarrow> nat \<Rightarrow> 's ast \<Rightarrow> (int \<times> 's ast) option" where
  "asyncCommand A S fn privdata cmd len st =
     do {
       ac \<leftarrow> as_ac st;
       if has_flag (c_flags (ac_c ac)) (set_flag REDIS_DISCONNECTING REDIS_FREEING) then Some (REDIS_ERR, st)
       else do {
         (rc, st) \<leftarrow> register A \<lparr>cb_next = NULL, cb_fn = fn, cb_privdata = privdata\<rparr> cmd st;
         if rc = REDIS_ERR then Some (REDIS_ERR, st)
         else do {
           ac \<leftarrow> as_ac st;
           (_, c) \<leftarrow> appendCommand A S (ac_c ac) cmd len;
           st \<leftarrow> run_ev ev_addWrite (st\<lparr>as_ac := Some (ac\<lparr>ac_c := c\<rparr>)\<rparr>);
           Some (REDIS_OK, st)
         }
       }
     }"

definition redisAsyncCommandHelper ::
    "allocator \<Rightarrow> 's sys \<Rightarrow> ptr \<Rightarrow> ptr \<Rightarrow> char list \<Rightarrow> nat \<Rightarrow> 's ast \<Rightarrow> (int \<times> 's ast) option" where
  "redisAsyncCommandHelper A S fn privdata cmd len st = asyncCommand A S fn privdata cmd len st"

definition redisvAsyncCommand ::
    "allocator \<Rightarrow> 's sys \<Rightarrow> (string \<Rightarrow> 'd \<Rightarrow> string) \<Rightarrow> ptr \<Rightarrow> ptr \<Rightarrow> string \<Rightarrow> 'd varg list \<Rightarrow> 's ast \<Rightarrow> (int \<times> 's ast) option" where
  "redisvAsyncCommand A S fd fn privdata format ap st =
     do {
       (len, cmd) \<leftarrow> redisvFormatCommand A fd True format ap;
       if len < 0 then Some (REDIS_ERR, st)
       else do { cmd \<leftarrow> cmd; asyncCommand A S fn privdata cmd (to_size len) st }
     }"

definition redisAsyncCommand ::
    "allocator \<Rightarrow> 's sys \<Rightarrow> (string \<Rightarrow> 'd \<Rightarrow> string) \<Rightarrow> ptr \<Rightarrow> ptr \<Rightarrow> string \<Rightarrow> 'd varg list \<Rightarrow> 's ast \<Rightarrow> (int \<times> 's ast) option" where
  "redisAsyncCommand A S fd fn privdata format ap st = redisvAsyncCommand A S fd fn privdata format ap st"

definition redisAsyncCommandArgv ::
    "allocator \<Rightarrow> 's sys \<Rightarrow> ptr \<Rightarrow> ptr \<Rightarrow> int \<Rightarrow> char list list \<Rightarrow> nat list option \<Rightarrow> 's ast \<Rightarrow> (int \<times> 's ast) option" where
  "redisAsyncCommandArgv A S fn privdata argc argv argvlen st =
     do {
       (len, cmd) \<leftarrow> redisFormatSdsCommandArgv A True argc argv argvlen;
       if len < 0 then Some (REDIS_ERR, st)
       else do { cmd \<leftarrow> cmd; asyncCommand A S fn privdata (buf cmd) (to_size len) st }
     }"

definition redisAsyncFormattedCommand ::
    "allocator \<Rightarrow> 's sys \<Rightarrow> ptr \<Rightarrow> ptr \<Rightarrow> char list \<Rightarrow> nat \<Rightarrow> 's ast \<Rightarrow> (int \<times> 's ast) option" where
  "redisAsyncFormattedCommand A S fn privdata cmd len st = asyncCommand A S fn privdata cmd len st"

end
