(* ===== verification/Dispatch.thy ===== *)
theory Dispatch
  imports Async
begin

text \<open>
  What an asynchronous context promises its user: an abstract client with a queue of pending
  callbacks and two maps of subscriptions, the callback it picks for every reply, and the
  proof that registering commands (\<^verbatim>\<open>__redisAsyncCommand\<close>) and processing replies
  (\<^verbatim>\<open>redisProcessCallbacks\<close>) implement it, for users that do not call back into the context.
\<close>

section \<open>The abstract client\<close>

type_synonym cb = "ptr \<times> ptr"

record client =
  cl_queue :: "cb list"
  cl_invalid :: "cb list"
  cl_channels :: "string \<Rightarrow> cb option"
  cl_patterns :: "string \<Rightarrow> cb option"
  cl_sub :: bool

text \<open>A message: its kind, its channel, and the rest.\<close>

fun message :: "rval list \<Rightarrow> (string \<times> string \<times> rval list) option" where
  "message (RString k # RString ch # vs) = Some (k, ch, vs)"
| "message _ = None"

definition on_pattern :: "string \<Rightarrow> bool" where
  "on_pattern k = (tolower (byte_at k 0) = CHR ''p'')"

definition unsubscribes :: "string \<Rightarrow> bool" where
  "unsubscribes k = (map tolower (cstring (drop (if on_pattern k then 1 else 0) k)) = ''unsubscribe'')"

definition cl_map :: "bool \<Rightarrow> client \<Rightarrow> string \<Rightarrow> cb option" where
  "cl_map pv D = (if pv then cl_patterns D else cl_channels D)"

definition set_map :: "bool \<Rightarrow> (string \<Rightarrow> cb option) \<Rightarrow> client \<Rightarrow> client" where
  "set_map pv M D = (if pv then D\<lparr>cl_patterns := M\<rparr> else D\<lparr>cl_channels := M\<rparr>)"

text \<open>
  The callback of a reply, when the queue is empty and the client is subscribed; \<open>None\<close> is a
  reply on which the code fails an assertion. A message on an unknown channel goes to \<open>prev\<close>,
  the callback of the reply before.
\<close>

definition pick_sub :: "cb \<Rightarrow> rval \<Rightarrow> client \<Rightarrow> (cb \<times> client) option" where
  "pick_sub prev v D =
     (case v of
        RArray vs \<Rightarrow>
          do {
            (k, ch, rest) \<leftarrow> message vs;
            let pv = on_pattern k;
            case cl_map pv D ch of
              None \<Rightarrow> Some (prev, D)
            | Some x \<Rightarrow>
                if unsubscribes k
                then (case rest of
                        RInteger n # _ \<Rightarrow>
                          Some (x, (set_map pv ((cl_map pv D)(ch := None)) D)\<lparr>cl_sub := (cl_sub D \<and> n \<noteq> 0)\<rparr>)
                      | _ \<Rightarrow> None)
                else Some (x, D)
          }
      | RBadArray _ \<Rightarrow> None
      | _ \<Rightarrow> (case cl_invalid D of [] \<Rightarrow> Some (prev, D) | x # q \<Rightarrow> Some (x, D\<lparr>cl_invalid := q\<rparr>)))"

fun is_error :: "rval \<Rightarrow> bool" where
  "is_error (RError s) = True"
| "is_error _ = False"

definition pick :: "cb \<Rightarrow> rval \<Rightarrow> client \<Rightarrow> (cb \<times> client) option" where
  "pick prev v D =
     (case cl_queue D of
        x # q \<Rightarrow> Some (x, D\<lparr>cl_queue := q\<rparr>)
      | [] \<Rightarrow> if is_error v \<or> \<not> cl_sub D then None else pick_sub prev v D)"

text \<open>The callbacks that a sequence of replies is handed to.\<close>

fun picks :: "cb \<Rightarrow> rval list \<Rightarrow> client \<Rightarrow> (cb list \<times> client) option" where
  "picks prev [] D = Some ([], D)"
| "picks prev (v # vs) D = do { (x, D) \<leftarrow> pick prev v D; (xs, D) \<leftarrow> picks x vs D; Some (x # xs, D) }"

section \<open>How a context represents a client\<close>

abbreviation cb_of :: "redisCallback \<Rightarrow> cb" where
  "cb_of c \<equiv> (cb_fn c, cb_privdata c)"

text \<open>A dictionary that maps exactly the names in \<open>F\<close>, for names shorter than two gigabytes.\<close>

definition subs :: "(sds, redisCallback, cbmem) dict option \<Rightarrow> cbmem dmem \<Rightarrow> (string \<Rightarrow> cb option) \<Rightarrow> nat \<Rightarrow> bool" where
  "subs d m F n \<longleftrightarrow>
     (\<exists>ht M. d = Some ht \<and> dict_rep callbackDict NULL cbmem_good (ht, m) M n \<and>
        (\<forall>k. sds_ok k \<longrightarrow> sdslen k < 2 ^ 31 \<longrightarrow> map_option cb_of (M k) = F (sdsstr k)))"

text \<open>No flag is set but the one of a subscription and perhaps that of the connection.\<close>

definition open_flags :: "32 word \<Rightarrow> bool \<Rightarrow> bool" where
  "open_flags w sub \<longleftrightarrow> \<not> bit w 0 \<and> \<not> bit w 2 \<and> \<not> bit w 3 \<and> \<not> bit w 4 \<and> bit w 5 = sub \<and> \<not> bit w 6"

text \<open>
  The context without error: \<open>out\<close> waits to be written, \<open>xs\<close> is the input not yet consumed of a
  reader in the middle of \<open>fs\<close> and \<open>ty\<close>, \<open>b\<close> the objects that belong to others.
\<close>

definition link :: "(ptr \<Rightarrow> redisReply option) \<Rightarrow> bool \<Rightarrow> redisContext \<Rightarrow> rheap \<Rightarrow> frames \<Rightarrow> int \<Rightarrow> char list \<Rightarrow> char list \<Rightarrow> bool" where
  "link b sub c h fs ty xs out \<longleftrightarrow>
     c_err c = 0 \<and> open_flags (c_flags c) sub \<and> length (c_errstr c) = ERRSTR_SIZE \<and>
     (\<exists>w. c_obuf c = Some w \<and> sds_ok w \<and> sdsstr w = out) \<and>
     (\<exists>r. c_reader c = Some r \<and> reading b r h fs ty xs \<and> r_len r \<le> length xs + 1024) \<and> has_memory h"

definition queues :: "redisCallbackList \<Rightarrow> redisCallbackList \<Rightarrow> cbheap \<Rightarrow> cb list \<Rightarrow> cb list \<Rightarrow> bool" where
  "queues l k h q i \<longleftrightarrow>
     cbheap_ok h \<and> (\<forall>n. ch_grants h n) \<and>
     (\<exists>xs ys. callbacks_at h l xs \<and> callbacks_at h k ys \<and> fst ` set xs \<inter> fst ` set ys = {} \<and>
        map snd xs = q \<and> map snd ys = i)"

text \<open>Queues and subscriptions.\<close>

definition parts :: "client \<Rightarrow> nat \<Rightarrow> 's actx \<Rightarrow> cbheap \<Rightarrow> cbmem dmem \<Rightarrow> bool" where
  "parts D n ac h m \<longleftrightarrow> queues (ac_replies ac) (ac_invalid ac) h (cl_queue D) (cl_invalid D) \<and>
     subs (ac_channels ac) m (cl_channels D) n \<and> subs (ac_patterns ac) m (cl_patterns D) n"

definition client_is ::
    "(ptr \<Rightarrow> redisReply option) \<Rightarrow> client \<Rightarrow> nat \<Rightarrow> frames \<Rightarrow> int \<Rightarrow> char list \<Rightarrow> char list \<Rightarrow> 's ast \<Rightarrow> bool" where
  "client_is b D n fs ty xs out st \<longleftrightarrow>
     (\<exists>ac. as_ac st = Some ac \<and> link b (cl_sub D) (ac_c ac) (as_heap st) fs ty xs out \<and> parts D n ac (as_cells st) (as_mem st))"

section \<open>Users that only watch\<close>

text \<open>
  A call as the user sees it, with the replies in memory at that time. The user's functions
  keep a log in the state of the system and change nothing else, except that the functions
  in \<open>frees\<close> free their reply.
\<close>

datatype call =
    Reply_call ptr ptr ptr "ptr \<Rightarrow> redisReply option"
  | Status_call ptr int

definition watches :: "'s user \<Rightarrow> ('s \<Rightarrow> call list) \<Rightarrow> (ptr \<Rightarrow> bool) \<Rightarrow> bool" where
  "watches U log frees \<longleftrightarrow>
     (\<forall>fn p d st h.
        (if frees fn \<and> p \<noteq> NULL then freeReplyObject p (as_heap st) else Some (as_heap st)) = Some h \<longrightarrow>
        (\<exists>w. u_reply U fn p d st = Some (st\<lparr>as_heap := h, as_world := w\<rparr>) \<and>
           log (snd w) = log (snd (as_world st)) @ [Reply_call fn p d (objs (as_heap st))])) \<and>
     (\<forall>fn rc st. \<exists>w. u_status U fn rc st = Some (st\<lparr>as_world := w\<rparr>) \<and>
        log (snd w) = log (snd (as_world st)) @ [Status_call fn rc])"

definition call_log :: "('s \<Rightarrow> call list) \<Rightarrow> 's ast \<Rightarrow> call list" where
  "call_log log st = log (snd (as_world st))"

text \<open>A call that hands the value \<open>v\<close> to the callback \<open>x\<close>.\<close>

definition hands :: "cb \<times> rval \<Rightarrow> call \<Rightarrow> bool" where
  "hands xv cl \<longleftrightarrow>
     (\<exists>p m t. cl = Reply_call (fst (fst xv)) p (snd (fst xv)) m \<and> represents (snd xv) t \<and> aroot t = p \<and> p \<noteq> NULL \<and> live m [t])"

section \<open>Facts about the parts\<close>

lemma set_clear_flag: "\<not> bit f 4 \<Longrightarrow> clear_flag (set_flag f REDIS_IN_CALLBACK) REDIS_IN_CALLBACK = f"
  by (rule bit_word_eqI) auto

lemma cb_of_eq: "cb_of c = x \<longleftrightarrow> cb_fn c = fst x \<and> cb_privdata c = snd x"
  by (cases x) simp

lemma queues_swap: "queues l k h q i = queues k l h i q"
  unfolding queues_def by (rule arg_cong2 [where f = "(\<and>)", OF refl], rule arg_cong2 [where f = "(\<and>)", OF refl]) (auto simp: Int_commute)

lemma queues_shift:
  assumes "queues l k h (x # q) i"
  shows "\<exists>c l' h'. redisShiftCallback l h = Some (REDIS_OK, Some c, l', h') \<and> cb_of c = x \<and> queues l' k h' q i"
proof -
  obtain a xs ys where l: "cbheap_ok h" "\<forall>n. ch_grants h n" "callbacks_at h l ((a, fst x, snd x) # xs)"
    "callbacks_at h k ys" "fst ` set ((a, fst x, snd x) # xs) \<inter> fst ` set ys = {}" "map snd xs = q" "map snd ys = i"
    using assms by (auto simp: queues_def map_eq_Cons_conv)
  obtain c l' h' where r: "redisShiftCallback l h = Some (REDIS_OK, Some c, l', h')" "cb_of c = x"
    "cbheap_ok h'" "ch_grants h' = ch_grants h" "callbacks_at h' l' xs" "ch_cells h' = (ch_cells h)(a := None)"
    using redisShiftCallback_ok [OF l(1,3)] by auto
  have "callbacks_at h' k ys"
    using l(4,5) r(6) cseg_cong [of ys "ch_cells h'" "ch_cells h"] by (fastforce simp: callbacks_at_def)
  then have "queues l' k h' q i" using r(3-5) l(2,5-7) unfolding queues_def by auto
  then show ?thesis using r(1,2) by blast
qed

lemma queues_shift_empty: "queues l k h [] i \<Longrightarrow> redisShiftCallback l h = Some (REDIS_ERR, None, l, h)"
  by (auto simp: queues_def intro: redisShiftCallback_empty)

lemma queues_push:
  assumes "queues l k h q i"
  shows "\<exists>l' h'. redisPushCallback c l (Some c) h = Some (REDIS_OK, l', h') \<and> queues l' k h' (q @ [cb_of c]) i"
proof -
  obtain xs ys where l: "cbheap_ok h" "\<forall>n. ch_grants h n" "callbacks_at h l xs" "callbacks_at h k ys"
    "fst ` set xs \<inter> fst ` set ys = {}" "map snd xs = q" "map snd ys = i"
    using assms by (auto simp: queues_def)
  let ?n = "(ch_fresh h, cb_fn c, cb_privdata c)"
  obtain l' h' where r: "redisPushCallback c l (Some c) h = Some (REDIS_OK, l', h')" "cbheap_ok h'"
    "ch_grants h' = ch_grants h" "callbacks_at h' l' (xs @ [?n])"
    "\<forall>p. p \<notin> fst ` set xs \<longrightarrow> p \<noteq> ch_fresh h \<longrightarrow> ch_cells h' p = ch_cells h p"
    using redisPushCallback_ok [OF l(1,3), of c c] l(2) by auto
  have "fst ` set ys \<subseteq> {0<..<ch_fresh h}" using cseg_dom [of "ch_cells h" _ ys] l(1,4) unfolding callbacks_at_def cbheap_ok_def by blast
  then have f: "ch_fresh h \<notin> fst ` set ys" by auto
  have "ch_cells h' p = ch_cells h p" if p: "p \<in> fst ` set ys" for p
  proof -
    have "p \<notin> fst ` set xs" using l(5) p by blast
    moreover have "p \<noteq> ch_fresh h" using f p by metis
    ultimately show ?thesis using r(5) by simp
  qed
  then have "callbacks_at h' k ys" using l(4) cseg_cong [of ys "ch_cells h'" "ch_cells h"] by (simp add: callbacks_at_def)
  moreover have "fst ` set (xs @ [?n]) \<inter> fst ` set ys = {}" using l(5) f by auto
  moreover have "map snd (xs @ [?n]) = q @ [cb_of c]" using l(6) by simp
  ultimately have "queues l' k h' (q @ [cb_of c]) i" using r(2-4) l(2,7) unfolding queues_def by metis
  then show ?thesis using r(1) by blast
qed


section \<open>Subscriptions\<close>

text \<open>A byte that is neither a letter nor behind them is its own lower case, and of nothing else.\<close>

lemma tolower_low:
  assumes "chr_val d < 65"
  shows "tolower c = d \<longleftrightarrow> c = d" "tolower d = d"
proof -
  have "tolower c \<noteq> d" if "65 \<le> chr_val c" "chr_val c \<le> 90"
  proof
    assume "tolower c = d"
    then have "chr_val (tolower c) = chr_val d" by simp
    then show False using that assms by (simp add: tolower_def take_bit_int_eq_self)
  qed
  then show "tolower c = d \<longleftrightarrow> c = d" using assms by (auto simp: tolower_def split: if_splits)
  show "tolower d = d" using assms by (simp add: tolower_def)
qed

lemma tolower_NUL: "tolower c = NUL \<longleftrightarrow> c = NUL" "tolower NUL = NUL" "NUL = tolower c \<longleftrightarrow> c = NUL"
proof -
  have l: "chr_val NUL < 65" by (simp add: NUL_def)
  show "tolower c = NUL \<longleftrightarrow> c = NUL" by (rule tolower_low(1) [OF l])
  then show "NUL = tolower c \<longleftrightarrow> c = NUL" by metis
  show "tolower NUL = NUL" by (rule tolower_low(2) [OF l])
qed

lemma starts_nocase_cstring:
  assumes "NUL \<notin> set w" "map tolower w = w"
  shows "starts_nocase (k @ [NUL]) (w @ [NUL]) = Some (map tolower (cstring k) = w)"
  using assms
proof (induction w arbitrary: k)
  case Nil
  then show ?case by (cases k) (auto simp: cstring_def tolower_NUL)
next
  case (Cons y w)
  then show ?case by (cases k) (auto simp: cstring_def tolower_NUL)
qed

text \<open>The memory of the dictionaries grants every request.\<close>

definition mem_good :: "cbmem dmem \<Rightarrow> bool" where
  "mem_good m \<longleftrightarrow> (\<forall>i. dm_grants m i) \<and> cbmem_good (dm_user m)"

lemma subs_mem_good: "subs d m F n \<Longrightarrow> mem_good m"
  by (auto simp: subs_def dict_rep_def mem_good_def)

lemma subs_mem:
  assumes "subs d m F n" "mem_good m'" "n \<le> n'"
  shows "subs d m' F n'"
proof -
  obtain ht M where d: "d = Some ht" "dict_rep callbackDict NULL cbmem_good (ht, m) M n"
    "\<forall>j. sds_ok j \<longrightarrow> sdslen j < 2 ^ 31 \<longrightarrow> map_option cb_of (M j) = F (sdsstr j)" using assms(1) by (auto simp: subs_def)
  have "dict_rep callbackDict NULL cbmem_good (ht, m') M n'"
    using d(2) assms(2,3) by (auto simp: dict_rep_def mem_good_def)
  then show ?thesis using d(1,3) by (auto simp: subs_def)
qed

lemma subs_find:
  assumes "subs d m F n" "sds_ok k" "sdslen k < 2 ^ 31"
  shows "\<exists>ht f. d = Some ht \<and> dictFind ht k = Some f \<and> map_option (\<lambda>e. cb_of (de_val e)) f = F (sdsstr k)"
proof -
  obtain ht M where d: "d = Some ht" "dict_rep callbackDict NULL cbmem_good (ht, m) M n"
    "map_option cb_of (M k) = F (sdsstr k)" using assms by (auto simp: subs_def)
  obtain f where "dictFind ht k = Some f" "map_option de_val f = M k"
    using cbd.dm.get_ok [OF d(2), of k] by (auto simp: dict_get_def)
  moreover have "map_option (\<lambda>e. cb_of (de_val e)) f = map_option cb_of (map_option de_val f)"
    by (simp add: option.map_comp comp_def)
  ultimately show ?thesis using d by simp
qed

lemma subs_delete:
  assumes "subs d m F n" "sds_ok k" "sdslen k < 2 ^ 31"
  shows "\<exists>ht r ht' m'. d = Some ht \<and> dictDelete ht k m = Some (r, ht', m') \<and> subs (Some ht') m' (F(sdsstr k := None)) n"
proof -
  obtain ht M where d: "d = Some ht" "dict_rep callbackDict NULL cbmem_good (ht, m) M n"
    "\<forall>j. sds_ok j \<longrightarrow> sdslen j < 2 ^ 31 \<longrightarrow> map_option cb_of (M j) = F (sdsstr j)" using assms(1) by (auto simp: subs_def)
  obtain r ht' m' where r: "dictDelete ht k m = Some (r, ht', m')"
    "dict_rep callbackDict NULL cbmem_good (ht', m') (\<lambda>x. if callbackKeyCompare NULL k x then None else M x) n"
    using cbd.dm.del_ok [OF d(2), of k] by (auto simp: dict_del_def)
  then have "subs (Some ht') m' (F(sdsstr k := None)) n"
    using d(3) callbackKeyCompare_eq [OF assms(2) _ assms(3)] by (auto simp: subs_def)
  then show ?thesis using d(1) r(1) by blast
qed

lemma subs_replace:
  assumes "subs d m F n" "sds_ok k" "sdslen k < 2 ^ 31" "n < 2 ^ 31"
  shows "\<exists>ht r ht' m'. d = Some ht \<and> dictReplace ht k cb m = Some (r, ht', m') \<and> subs (Some ht') m' (F(sdsstr k \<mapsto> cb_of cb)) (n + 1)"
proof -
  obtain ht M where d: "d = Some ht" "dict_rep callbackDict NULL cbmem_good (ht, m) M n"
    "\<forall>j. sds_ok j \<longrightarrow> sdslen j < 2 ^ 31 \<longrightarrow> map_option cb_of (M j) = F (sdsstr j)" using assms(1) by (auto simp: subs_def)
  obtain r ht' m' where r: "dictReplace ht k cb m = Some (r, ht', m')"
    "dict_rep callbackDict NULL cbmem_good (ht', m') (\<lambda>x. if callbackKeyCompare NULL k x then Some cb else M x) (n + 1)"
    using cbd.dm.put_ok [OF d(2) assms(4), of k cb] by (auto simp: dict_put_def)
  then have "subs (Some ht') m' (F(sdsstr k \<mapsto> cb_of cb)) (n + 1)"
    using d(3) callbackKeyCompare_eq [OF assms(2) _ assms(3)] by (auto simp: subs_def)
  then show ?thesis using d(1) r(1) by blast
qed

section \<open>The callback of a reply\<close>

lemma live_mem: "live m ts \<Longrightarrow> t \<in> set ts \<Longrightarrow> live m [t]"
proof (induction ts)
  case (Cons u ts)
  then show ?case using live_Cons [of m u ts] by auto
qed simp

lemma live_child:
  assumes "live m [AArr p ts]"
  shows "m p = Some (arr_obj (map aroot ts))" "i < length ts \<Longrightarrow> live m [ts ! i]"
proof -
  show "m p = Some (arr_obj (map aroot ts))" using assms by (simp add: live_def)
  have "live m ts" using assms by (simp add: live_def)
  then show "i < length ts \<Longrightarrow> live m [ts ! i]" using live_mem by (metis nth_mem)
qed

lemma live_leaf: "live m [ALeaf p x] \<Longrightarrow> m p = Some x"
  by (simp add: live_def)

lemma reply_at_child:
  assumes "live (objs h) [AArr p ts]" "i < length ts" "ts ! i = ALeaf q x"
  shows "reply_at (arr_obj (map aroot ts)) i h = Some x"
  using live_leaf [of "objs h" q x] live_child(2) [OF assms(1,2)] assms(2,3) by (simp add: reply_at_def arr_obj_def)

lemma message_shape:
  assumes "message vs = Some (k, ch, rest)"
  shows "vs = RString k # RString ch # rest"
  using assms by (cases vs rule: message.cases) auto

lemma represents_string: "represents (RString s) t \<longleftrightarrow> (\<exists>p. t = ALeaf p (str_obj REDIS_REPLY_STRING s))"
  by (cases t) auto

lemma represents_integer: "represents (RInteger i) t \<longleftrightarrow>
    (\<exists>p. t = ALeaf p (zero_reply\<lparr>ry_type := REDIS_REPLY_INTEGER, ry_integer := i\<rparr>))"
  by (cases t) auto

lemma represents_array: "represents (RArray (v # vs)) t \<longleftrightarrow> (\<exists>p ts. t = AArr p ts \<and> list_all2 represents (v # vs) ts)"
  by (cases t) auto

text \<open>The type field tells what a reply is.\<close>

lemma represents_type:
  assumes "represents v t" "live m [t]" "aroot t = p" "wf_reply d v"
  shows "\<exists>r. m p = Some r \<and> (ry_type r = REDIS_REPLY_ARRAY \<longleftrightarrow> (\<exists>vs. v = RArray vs)) \<and>
    (ry_type r = REDIS_REPLY_ERROR \<longleftrightarrow> is_error v)"
proof (cases t)
  case ANull
  then show ?thesis using assms by (cases v) auto
next
  case (ALeaf q x)
  then show ?thesis using assms live_leaf [of m q x]
    by (cases v) (auto simp: str_obj_def empty_arr_def zero_reply_def reply_types)
next
  case (AArr q ts)
  then show ?thesis using assms live_child(1) [of m q ts]
    by (cases v) (auto simp: arr_obj_def zero_reply_def reply_types)
qed

lemma cstring_snoc_NUL: "byte_at (k @ [NUL]) 0 = byte_at k 0" "k \<noteq> [] \<Longrightarrow> drop 1 (k @ [NUL]) = drop 1 k @ [NUL]"
  by (simp add: byte_at_def nth_append) (cases k; simp)

lemma unsubscribes_code:
  "starts_nocase (drop (if on_pattern k then 1 else 0) (k @ [NUL])) (''unsubscribe'' @ [NUL]) = Some (unsubscribes k)"
proof -
  have p: "on_pattern k \<Longrightarrow> k \<noteq> []" by (auto simp: on_pattern_def byte_at_def tolower_NUL) (simp add: NUL_def)
  have "drop (if on_pattern k then 1 else 0) (k @ [NUL]) = drop (if on_pattern k then 1 else 0) k @ [NUL]"
    using p by (cases k) auto
  moreover have "NUL \<notin> set ''unsubscribe''" "map tolower ''unsubscribe'' = ''unsubscribe''"
    by (simp_all add: NUL_def tolower_def)
  ultimately show ?thesis
    using starts_nocase_cstring [of "''unsubscribe''" "drop (if on_pattern k then 1 else 0) k"]
    by (simp add: unsubscribes_def)
qed

lemma parts_cong:
  "ac_replies ac' = ac_replies ac \<Longrightarrow> ac_invalid ac' = ac_invalid ac \<Longrightarrow> ac_channels ac' = ac_channels ac \<Longrightarrow>
    ac_patterns ac' = ac_patterns ac \<Longrightarrow> parts D n ac' h m = parts D n ac h m"
  by (simp add: parts_def)

lemma parts_subs: "parts D n ac h m \<Longrightarrow> subs (get_dict pv ac) m (cl_map pv D) n"
  by (simp add: parts_def get_dict_def cl_map_def)

lemma parts_set_dict:
  assumes "parts D n ac h m" "subs d m' M n'" "n \<le> n'"
  shows "parts (set_map pv M D) n' (set_dict pv d ac) h m'"
proof -
  have g: "mem_good m'" by (rule subs_mem_good [OF assms(2)])
  show ?thesis
    using assms(1,2) subs_mem [OF _ g assms(3)] by (auto simp: parts_def set_dict_def set_map_def)
qed

lemma open_flags_clear:
  "open_flags w s \<Longrightarrow> open_flags (clear_flag w REDIS_SUBSCRIBED) False"
  by (simp add: open_flags_def)

lemma message_child:
  assumes "represents (RArray vs) t" "message vs = Some (k, ch, rest)" "live (objs h) [t]"
  shows "\<exists>p ts. t = AArr p ts \<and> length ts = length vs \<and> objs h p = Some (arr_obj (map aroot ts)) \<and>
    reply_at (arr_obj (map aroot ts)) 0 h = Some (str_obj REDIS_REPLY_STRING k) \<and>
    reply_at (arr_obj (map aroot ts)) 1 h = Some (str_obj REDIS_REPLY_STRING ch) \<and>
    (\<forall>n r. rest = RInteger n # r \<longrightarrow> reply_at (arr_obj (map aroot ts)) 2 h =
       Some (zero_reply\<lparr>ry_type := REDIS_REPLY_INTEGER, ry_integer := n\<rparr>))"
proof -
  have vs: "vs = RString k # RString ch # rest" by (rule message_shape [OF assms(2)])
  obtain p ts where t: "t = AArr p ts" "list_all2 represents vs ts"
    using assms(1) unfolding vs represents_array by blast
  have l: "length ts = length vs" using list_all2_lengthD [OF t(2)] by simp
  have n: "represents (vs ! i) (ts ! i)" if "i < length vs" for i using t(2) that by (rule list_all2_nthD)
  note L = assms(3) [unfolded t(1)]
  obtain q0 q1 where q: "ts ! 0 = ALeaf q0 (str_obj REDIS_REPLY_STRING k)" "ts ! 1 = ALeaf q1 (str_obj REDIS_REPLY_STRING ch)"
    using n [of 0] n [of 1] by (auto simp: vs represents_string)
  have "reply_at (arr_obj (map aroot ts)) 2 h = Some (zero_reply\<lparr>ry_type := REDIS_REPLY_INTEGER, ry_integer := m\<rparr>)"
    if r: "rest = RInteger m # r" for m r
  proof -
    obtain q2 where "ts ! 2 = ALeaf q2 (zero_reply\<lparr>ry_type := REDIS_REPLY_INTEGER, ry_integer := m\<rparr>)"
      using n [of 2] by (auto simp: vs r represents_integer)
    then show ?thesis using reply_at_child [OF L, of 2] l by (simp add: vs r)
  qed
  then show ?thesis
    using t(1) l live_child(1) [OF L] reply_at_child [OF L _ q(1)] reply_at_child [OF L _ q(2)] by (auto simp: vs)
qed

lemma sdsnewlen_total:
  assumes "roomy A" "n < 2 ^ 31"
  shows "\<exists>s. sdsnewlen A init n = Some s"
proof -
  have "u64 (sdsHdrSize (if n = 0 then SDS_TYPE_8 else sdsReqType n) + n + 1) < 2 ^ 33"
    using assms(2) sdsHdrSize_le [of "if n = 0 then SDS_TYPE_8 else sdsReqType n"] by (subst u64_id) simp_all
  then show ?thesis using sdsnewlen_NULL [of A init n] assms(1) unfolding roomy_def by (metis not_Some_eq)
qed

text \<open>\<^verbatim>\<open>__redisGetSubscribeCallback\<close> picks the callback of the client.\<close>

definition picked :: "client \<Rightarrow> nat \<Rightarrow> cb \<Rightarrow> 's actx \<Rightarrow> 's ast \<Rightarrow> redisCallback \<Rightarrow> 's ast \<Rightarrow> bool" where
  "picked D n x ac st cb st' \<longleftrightarrow>
     (\<exists>ac' h m w. st' = st\<lparr>as_ac := Some ac', as_cells := h, as_mem := m\<rparr> \<and> cb_of cb = x \<and>
        parts D n ac' h m \<and> ac_c ac' = (ac_c ac)\<lparr>c_flags := w\<rparr> \<and> open_flags w (cl_sub D))"

lemma pickedI:
  "st' = st\<lparr>as_ac := Some ac', as_cells := h, as_mem := m\<rparr> \<Longrightarrow> cb_of cb = x \<Longrightarrow> parts D n ac' h m \<Longrightarrow>
    ac_c ac' = (ac_c ac)\<lparr>c_flags := w\<rparr> \<Longrightarrow> open_flags w (cl_sub D) \<Longrightarrow> picked D n x ac st cb st'"
  unfolding picked_def by blast

lemma picked_same:
  assumes "as_ac st = Some ac" "parts D n ac (as_cells st) (as_mem st)" "open_flags (c_flags (ac_c ac)) (cl_sub D)" "cb_of cb = x"
  shows "picked D n x ac st cb st"
  by (rule pickedI [OF _ assms(4,2) _ assms(3)]) (simp_all add: assms(1))

lemma pick_message:
  assumes "as_ac st = Some ac" "parts D n ac (as_cells st) (as_mem st)" "open_flags (c_flags (ac_c ac)) (cl_sub D)"
    "represents (RArray vs) t" "live (objs (as_heap st)) [t]" "cb_of dst = prev" "roomy A"
    "message vs = Some (k, ch, rest)" "length ch < 2 ^ 31" "pick_sub prev (RArray vs) D = Some (x, D')"
  shows "\<exists>cb st'. redisGetSubscribeCallback A (aroot t) dst st = Some (cb, st') \<and> picked D' n x ac st cb st'"
proof -
  obtain p ts where t: "t = AArr p ts" "length ts = length vs" "objs (as_heap st) p = Some (arr_obj (map aroot ts))"
    "reply_at (arr_obj (map aroot ts)) 0 (as_heap st) = Some (str_obj REDIS_REPLY_STRING k)"
    "reply_at (arr_obj (map aroot ts)) 1 (as_heap st) = Some (str_obj REDIS_REPLY_STRING ch)"
    "\<forall>n r. rest = RInteger n # r \<longrightarrow> reply_at (arr_obj (map aroot ts)) 2 (as_heap st) =
       Some (zero_reply\<lparr>ry_type := REDIS_REPLY_INTEGER, ry_integer := n\<rparr>)"
    using message_child [OF assms(4,8,5)] by (elim exE conjE)
  have l: "2 \<le> length ts" using t(2) message_shape [OF assms(8)] by simp
  obtain sname where sn: "sdsnewlen A (Some (ch @ [NUL])) (length ch) = Some sname"
    using sdsnewlen_total [OF assms(7,9)] by blast
  have sk: "sds_ok sname" "sdsstr sname = ch" using sdsnewlen_ok [OF sn] assms(9) by auto
  have sl: "sdslen sname < 2 ^ 31" using sdsb.len_str [OF sk(1)] sk(2) assms(9) by simp
  let ?pv = "on_pattern k"
  obtain ht f where f: "get_dict ?pv ac = Some ht" "dictFind ht sname = Some f" "map_option (\<lambda>e. cb_of (de_val e)) f = cl_map ?pv D ch"
    using subs_find [OF parts_subs [OF assms(2)] sk(1) sl, of ?pv] sk(2) by auto
  have o0: "ry_type (arr_obj (map aroot ts)) = REDIS_REPLY_ARRAY" "ry_elements (arr_obj (map aroot ts)) = length ts"
    "ry_type (str_obj REDIS_REPLY_STRING s) = REDIS_REPLY_STRING" "ry_str (str_obj REDIS_REPLY_STRING s) = Some (s @ [NUL])"
    "ry_len (str_obj REDIS_REPLY_STRING s) = length s" for s
    by (simp_all add: arr_obj_def str_obj_def)
  have pv: "(tolower (byte_at (k @ [NUL]) 0) = CHR ''p'') = ?pv" by (simp add: on_pattern_def cstring_snoc_NUL)
  note run = redisGetSubscribeCallback_def Let_def unsubscribes_code t(1,3-5) o0 l pv assms(1) sn f(1,2)
  have ps: "pick_sub prev (RArray vs) D =
      (case cl_map ?pv D ch of None \<Rightarrow> Some (prev, D)
       | Some x \<Rightarrow> if unsubscribes k
          then (case rest of RInteger n # _ \<Rightarrow>
                  Some (x, (set_map ?pv ((cl_map ?pv D)(ch := None)) D)\<lparr>cl_sub := (cl_sub D \<and> n \<noteq> 0)\<rparr>) | _ \<Rightarrow> None)
          else Some (x, D))"
    using assms(8) by (simp add: pick_sub_def Let_def)
  show ?thesis
  proof (cases f)
    case None
    then have "x = prev" "D' = D" using assms(10) f(3) by (simp_all add: ps)
    moreover have "redisGetSubscribeCallback A (aroot t) dst st = Some (dst, st)"
      using None by (simp add: run del: One_nat_def drop_append append_Cons append_Nil)
    ultimately show ?thesis using picked_same [OF assms(1-3,6)] by blast
  next
    case (Some e)
    then have y: "cl_map ?pv D ch = Some (cb_of (de_val e))" using f(3) by simp
    show ?thesis
    proof (cases "unsubscribes k")
      case False
      then have "x = cb_of (de_val e)" "D' = D" using assms(10) y by (simp_all add: ps)
      moreover have "redisGetSubscribeCallback A (aroot t) dst st = Some (de_val e, st)"
        using Some False by (simp add: run del: One_nat_def drop_append append_Cons append_Nil)
      ultimately show ?thesis using picked_same [OF assms(1-3) refl] by blast
    next
      case True
      then obtain n' r where r: "rest = RInteger n' # r" "x = cb_of (de_val e)"
          "D' = (set_map ?pv ((cl_map ?pv D)(ch := None)) D)\<lparr>cl_sub := (cl_sub D \<and> n' \<noteq> 0)\<rparr>"
        using assms(10) y by (auto simp: ps split: list.splits rval.splits)
      note e2 = t(6) [rule_format, OF r(1)]
      obtain q ht' m' where d: "dictDelete ht sname (as_mem st) = Some (q, ht', m')"
          "subs (Some ht') m' ((cl_map ?pv D)(ch := None)) n"
        using subs_delete [OF parts_subs [OF assms(2)] sk(1) sl, of ?pv] sk(2) f(1) by auto
      let ?ac = "set_dict ?pv (Some ht') ac"
      let ?w = "if n' = 0 then clear_flag (c_flags (ac_c ac)) REDIS_SUBSCRIBED else c_flags (ac_c ac)"
      let ?ac' = "?ac\<lparr>ac_c := (ac_c ac)\<lparr>c_flags := ?w\<rparr>\<rparr>"
      have "redisGetSubscribeCallback A (aroot t) dst st = Some (de_val e, st\<lparr>as_ac := Some ?ac', as_cells := as_cells st, as_mem := m'\<rparr>)"
        using Some True d(1) e2
        by (simp add: run upd_flags_def upd_c_def upd_ac_def set_dict_def del: One_nat_def drop_append append_Cons append_Nil)
      moreover have "parts D' n ?ac' (as_cells st) m'"
        using parts_set_dict [OF assms(2) d(2) le_refl] by (simp add: r(3) parts_def set_dict_def)
      moreover have "open_flags ?w (cl_sub D')"
        using assms(3) open_flags_clear [OF assms(3)] by (simp add: r(3))
      moreover have "ac_c ?ac' = (ac_c ac)\<lparr>c_flags := ?w\<rparr>" by simp
      ultimately show ?thesis using r(2) pickedI [OF refl] by metis
    qed
  qed
qed

lemma same_ac: "as_ac st = Some ac \<Longrightarrow> st\<lparr>as_ac := Some ac\<rparr> = st"
  by (cases st) simp

lemma next_callback_ok:
  assumes "as_ac st = Some ac" "parts D n ac (as_cells st) (as_mem st)" "open_flags (c_flags (ac_c ac)) (cl_sub D)"
    "represents v t" "live (objs (as_heap st)) [t]" "cb_of dst = prev" "roomy A"
    "wf_reply 8 v" "length (encode v) < 2 ^ 31" "pick prev v D = Some (x, D')"
  shows "\<exists>cb st'. next_callback A U S (aroot t) dst st = Some (Some cb, st') \<and> picked D' n x ac st cb st'"
proof (cases "cl_queue D")
  case (Cons y q)
  then have x: "x = y" "D' = D\<lparr>cl_queue := q\<rparr>" using assms(10) by (simp_all add: pick_def)
  obtain c l h where l: "redisShiftCallback (ac_replies ac) (as_cells st) = Some (REDIS_OK, Some c, l, h)" "cb_of c = y"
    "queues l (ac_invalid ac) h q (cl_invalid D)"
    using assms(2) Cons queues_shift unfolding parts_def by metis
  have "picked D' n x ac st c (st\<lparr>as_ac := Some (ac\<lparr>ac_replies := l\<rparr>), as_cells := h, as_mem := as_mem st\<rparr>)"
    using assms(2,3) l x by (intro pickedI [OF refl, where w = "c_flags (ac_c ac)"]) (simp_all add: parts_def)
  moreover have "next_callback A U S (aroot t) dst st = Some (Some c, st\<lparr>as_ac := Some (ac\<lparr>ac_replies := l\<rparr>), as_cells := h, as_mem := as_mem st\<rparr>)"
    using assms(1) l(1) by (simp add: next_callback_def shift_cb_def get_cbs_def set_cbs_def)
  ultimately show ?thesis by blast
next
  case Nil
  then have e: "\<not> is_error v" "cl_sub D" "pick_sub prev v D = Some (x, D')"
    using assms(10) by (auto simp: pick_def split: if_splits)
  obtain r where r: "objs (as_heap st) (aroot t) = Some r" "ry_type r = REDIS_REPLY_ARRAY \<longleftrightarrow> (\<exists>vs. v = RArray vs)"
    "ry_type r \<noteq> REDIS_REPLY_ERROR"
    using represents_type [OF assms(4,5) refl assms(8)] e(1) by auto
  have s: "redisShiftCallback (ac_replies ac) (as_cells st) = Some (REDIS_ERR, None, ac_replies ac, as_cells st)"
    using assms(2) Nil queues_shift_empty unfolding parts_def by metis
  have "has_flag (c_flags (ac_c ac)) REDIS_SUBSCRIBED" using assms(3) e(2) by (simp add: flag_bits open_flags_def)
  then have nc: "next_callback A U S (aroot t) dst st =
      (case redisGetSubscribeCallback A (aroot t) dst st of None \<Rightarrow> None | Some (cb, st) \<Rightarrow> Some (Some cb, st))"
    using assms(1) s r(1,3)
    by (simp add: same_ac next_callback_def shift_cb_def get_cbs_def set_cbs_def redis_codes split: Option.bind_split option.split)
  show ?thesis
  proof (cases "\<exists>vs. v = RArray vs")
    case True
    then obtain vs where vs: "v = RArray vs" by blast
    then obtain k ch rest where m: "message vs = Some (k, ch, rest)" using e(3) by (auto simp: pick_sub_def split: Option.bind_splits)
    have "length ch < 2 ^ 31" using assms(9) message_shape [OF m] by (simp add: vs)
    from pick_message [OF assms(1-3) _ assms(5-7) m this] show ?thesis
      using e(3) assms(4) nc by (auto simp: vs)
  next
    case False
    then have i: "redisGetSubscribeCallback A (aroot t) dst st =
        (case redisShiftCallback (ac_invalid ac) (as_cells st) of None \<Rightarrow> None
         | Some (rc, cb, l, h) \<Rightarrow> Some (case cb of Some cb \<Rightarrow> cb | None \<Rightarrow> dst, st\<lparr>as_ac := Some (ac\<lparr>ac_invalid := l\<rparr>), as_cells := h\<rparr>))"
      using r(1,2) assms(1)
      by (simp add: redisGetSubscribeCallback_def shift_cb_def get_cbs_def set_cbs_def split: Option.bind_split option.split)
    have p: "pick_sub prev v D = (case cl_invalid D of [] \<Rightarrow> Some (prev, D) | x # q \<Rightarrow> Some (x, D\<lparr>cl_invalid := q\<rparr>))"
      using False e(3) by (cases v) (auto simp: pick_sub_def)
    note q = assms(2) [unfolded parts_def, THEN conjunct1, unfolded queues_swap [of "ac_replies ac"]]
    show ?thesis
    proof (cases "cl_invalid D")
      case Nil
      then have "redisGetSubscribeCallback A (aroot t) dst st = Some (dst, st)" "x = prev" "D' = D"
        using i queues_shift_empty [of "ac_invalid ac"] q assms(1) p e(3) by simp_all
      then show ?thesis using nc picked_same [OF assms(1-3,6)] by simp
    next
      case (Cons y q')
      then have x: "x = y" "D' = D\<lparr>cl_invalid := q'\<rparr>" using p e(3) by simp_all
      obtain c l h where l: "redisShiftCallback (ac_invalid ac) (as_cells st) = Some (REDIS_OK, Some c, l, h)" "cb_of c = y"
        "queues l (ac_replies ac) h q' (cl_queue D)"
        using queues_shift [OF q [unfolded Cons]] by blast
      have "picked D' n x ac st c (st\<lparr>as_ac := Some (ac\<lparr>ac_invalid := l\<rparr>), as_cells := h, as_mem := as_mem st\<rparr>)"
        using assms(2,3) l x queues_swap [of l] by (intro pickedI [OF refl, where w = "c_flags (ac_c ac)"]) (simp_all add: parts_def)
      then show ?thesis using nc i l(1) by simp
    qed
  qed
qed

section \<open>Processing replies\<close>

text \<open>The replies in the unread input, one after the other, and the incomplete one at its end.\<close>

inductive parses :: "frames \<Rightarrow> int \<Rightarrow> char list \<Rightarrow> rval list \<Rightarrow> frames \<Rightarrow> int \<Rightarrow> char list \<Rightarrow> bool" where
  parses_Wait: "spec_run fs ty xs = Wait fs' ty' xs' \<Longrightarrow> parses fs ty xs [] fs' ty' xs'"
| parses_Finished: "spec_run fs ty xs = Finished v rest \<Longrightarrow> wf_reply 8 v \<Longrightarrow> length (encode v) < 2 ^ 31 \<Longrightarrow>
    parses [] (- 1) rest vs fs' ty' xs' \<Longrightarrow> parses fs ty xs (v # vs) fs' ty' xs'"

lemma get_reply_waits:
  assumes "as_ac st = Some ac" "link b sub (ac_c ac) (as_heap st) fs ty xs out" "spec_run fs ty xs = Wait fs' ty' xs'"
  shows "\<exists>c h. get_reply A S st = Some (REDIS_OK, NULL, st\<lparr>as_ac := Some (ac\<lparr>ac_c := c\<rparr>), as_heap := h\<rparr>) \<and>
    link b sub c h fs' ty' xs' out"
proof -
  obtain r where r: "c_reader (ac_c ac) = Some r" "reading b r (as_heap st) fs ty xs" "has_memory (as_heap st)"
    using assms(2) by (auto simp: link_def)
  obtain r' h where g: "redisGetReplyFromReader S (ac_c ac) (as_heap st) = Some (REDIS_OK, NULL, (ac_c ac)\<lparr>c_reader := Some r'\<rparr>, h)"
    "reading b r' h fs' ty' xs'" "r_len r' \<le> length xs' + 1024" "has_memory h"
    using reader_waits [OF r assms(3)] by blast
  have "\<not> has_flag (c_flags (ac_c ac)) REDIS_BLOCK" using assms(2) by (simp add: link_def open_flags_def flag_bits)
  then show ?thesis
    using assms(1,2) g
    by (intro exI [of _ "(ac_c ac)\<lparr>c_reader := Some r'\<rparr>"] exI [of _ h])
      (simp add: get_reply_def redisGetReply_def link_def redis_codes)
qed

lemma get_reply_finishes:
  assumes "as_ac st = Some ac" "link b sub (ac_c ac) (as_heap st) fs ty xs out" "spec_run fs ty xs = Finished v rest"
  shows "\<exists>t c h. get_reply A S st = Some (REDIS_OK, aroot t, st\<lparr>as_ac := Some (ac\<lparr>ac_c := c\<rparr>), as_heap := h\<rparr>) \<and>
    represents v t \<and> aroot t \<noteq> NULL \<and> heap_is b h t \<and>
    (\<forall>g. heap_ok g \<longrightarrow> has_memory g \<longrightarrow> link (objs g) sub c g [] (- 1) rest out) \<and> has_memory h"
proof -
  obtain r where r: "c_reader (ac_c ac) = Some r" "reading b r (as_heap st) fs ty xs" "has_memory (as_heap st)"
    using assms(2) by (auto simp: link_def)
  obtain p r' h where g: "redisGetReplyFromReader S (ac_c ac) (as_heap st) = Some (REDIS_OK, p, (ac_c ac)\<lparr>c_reader := Some r'\<rparr>, h)"
    "got b v p h" "\<forall>g. heap_ok g \<longrightarrow> reading (objs g) r' g [] (- 1) rest" "r_len r' \<le> length rest + 1024" "has_memory h"
    using reader_finishes [OF r assms(3)] by blast
  obtain t where t: "represents v t" "aroot t = p" "heap_is b h t" "p \<noteq> NULL" using g(2) by (auto simp: got_def)
  show ?thesis
    using assms(1,2) g(1,3-5) t
    by (intro exI [of _ t] exI [of _ "(ac_c ac)\<lparr>c_reader := Some r'\<rparr>"] exI [of _ h])
      (auto simp: get_reply_def redisGetReply_def link_def redis_codes)
qed

text \<open>Running the callback of a reply, or freeing the reply when there is none.\<close>

definition keeps :: "(ptr \<Rightarrow> bool) \<Rightarrow> cb \<Rightarrow> bool" where
  "keeps frees x \<longleftrightarrow> fst x \<noteq> NULL \<and> \<not> frees (fst x)"

lemma run_callback:
  assumes "watches U log frees" "as_ac st = Some ac" "\<not> bit (c_flags (ac_c ac)) 4" "heap_is b (as_heap st) t" "aroot t \<noteq> NULL"
    "cb_fn cb \<noteq> NULL"
  shows "\<exists>w h. redisRunCallback U cb (aroot t) st = Some (st\<lparr>as_heap := h, as_world := w\<rparr>) \<and>
    log (snd w) = call_log log st @ [Reply_call (cb_fn cb) (aroot t) (cb_privdata cb) (objs (as_heap st))] \<and>
    h = (if frees (cb_fn cb) then (as_heap st)\<lparr>objs := b\<rparr> else as_heap st)"
proof -
  let ?h = "if frees (cb_fn cb) then (as_heap st)\<lparr>objs := b\<rparr> else as_heap st"
  let ?ac = "ac\<lparr>ac_c := (ac_c ac)\<lparr>c_flags := set_flag (c_flags (ac_c ac)) REDIS_IN_CALLBACK\<rparr>\<rparr>"
  let ?st = "st\<lparr>as_ac := Some ?ac\<rparr>"
  have "(if frees (cb_fn cb) \<and> aroot t \<noteq> NULL then freeReplyObject (aroot t) (as_heap ?st) else Some (as_heap ?st)) = Some ?h"
    using freeReplyObject_tree [OF assms(4)] assms(5) by simp
  then obtain w where w: "u_reply U (cb_fn cb) (aroot t) (cb_privdata cb) ?st = Some (?st\<lparr>as_heap := ?h, as_world := w\<rparr>)"
    "log (snd w) = log (snd (as_world ?st)) @ [Reply_call (cb_fn cb) (aroot t) (cb_privdata cb) (objs (as_heap ?st))]"
    using assms(1) unfolding watches_def by blast
  have "redisRunCallback U cb (aroot t) st = Some (st\<lparr>as_ac := Some ac, as_heap := ?h, as_world := w\<rparr>)"
    using assms(2,6) w(1) set_clear_flag [OF assms(3)]
    by (simp add: redisRunCallback_def upd_flags_def upd_c_def upd_ac_def)
  moreover have "st\<lparr>as_ac := Some ac, as_heap := ?h, as_world := w\<rparr> = st\<lparr>as_heap := ?h, as_world := w\<rparr>"
    using same_ac [OF assms(2)] by simp
  ultimately show ?thesis using w(2) by (intro exI [of _ w] exI [of _ ?h]) (simp add: call_log_def)
qed

lemma free_reply_ok:
  assumes "as_ac st = Some ac" "link b' sub (ac_c ac) g fs ty xs out" "heap_is b (as_heap st) t"
  shows "free_reply (aroot t) st = Some (st\<lparr>as_heap := (as_heap st)\<lparr>objs := b\<rparr>\<rparr>)"
proof -
  obtain r where r: "c_reader (ac_c ac) = Some r" "reading b' r g fs ty xs" using assms(2) by (auto simp: link_def)
  have "r_func r freeObject = Some freeReplyObject"
    using reader_in_buffer_ok [OF r(2)] by (simp add: r_func_def defaultFunctions_def)
  then show ?thesis using assms(1) r(1) freeReplyObject_tree [OF assms(3)] by (simp add: free_reply_def)
qed

lemma heap_is_restored: "heap_is b h t \<Longrightarrow> heap_ok (h\<lparr>objs := b\<rparr>)"
  by (auto simp: heap_is_def heap_ok_def)

text \<open>What processing the replies \<open>vs\<close> with the callbacks \<open>cbs\<close> gives.\<close>

definition processed ::
    "('s \<Rightarrow> call list) \<Rightarrow> (ptr \<Rightarrow> bool) \<Rightarrow> (ptr \<Rightarrow> redisReply option) \<Rightarrow> client \<Rightarrow> nat \<Rightarrow> frames \<Rightarrow> int \<Rightarrow> char list \<Rightarrow> char list \<Rightarrow>
     (cb \<times> rval) list \<Rightarrow> 's ast \<Rightarrow> 's ast option \<Rightarrow> bool" where
  "processed log frees b D n fs ty xs out todo st res \<longleftrightarrow>
     (\<exists>st' calls ts b'. res = Some st' \<and> client_is b' D n fs ty xs out st' \<and>
        call_log log st' = call_log log st @ calls \<and>
        list_all2 hands (filter (\<lambda>(x, v). fst x \<noteq> NULL) todo) calls \<and>
        list_all2 represents (map snd (filter (\<lambda>(x, v). keeps frees x) todo)) ts \<and> owns b b' ts)"

lemma processed_step:
  assumes "processed log frees (objs h) D n fs ty xs out todo st1 res" "heap_is b h0 t" "represents v t"
    "if keeps frees x then objs h = objs h0 else objs h = b"
    "call_log log st1 = call_log log st @ calls" "if fst x \<noteq> NULL then \<exists>cl. calls = [cl] \<and> hands (x, v) cl else calls = []"
  shows "processed log frees b D n fs ty xs out ((x, v) # todo) st res"
proof -
  obtain st' calls' ts b' where r: "res = Some st'" "client_is b' D n fs ty xs out st'" "call_log log st' = call_log log st1 @ calls'"
    "list_all2 hands (filter (\<lambda>(x, v). fst x \<noteq> NULL) todo) calls'"
    "list_all2 represents (map snd (filter (\<lambda>(x, v). keeps frees x) todo)) ts" "owns (objs h) b' ts"
    using assms(1) unfolding processed_def by blast
  have c: "list_all2 hands (filter (\<lambda>(x, v). fst x \<noteq> NULL) ((x, v) # todo)) (calls @ calls')"
    using r(4) assms(6) by (auto split: if_splits)
  have l: "call_log log st' = call_log log st @ calls @ calls'" using r(3) assms(5) by simp
  show ?thesis
  proof (cases "keeps frees x")
    case True
    then have "list_all2 represents (map snd (filter (\<lambda>(x, v). keeps frees x) ((x, v) # todo))) (t # ts)"
      using r(5) assms(3) by simp
    moreover have "owns b b' (t # ts)" using owns_Cons [OF assms(2)] r(6) assms(4) True by simp
    ultimately show ?thesis using r(1,2) l c unfolding processed_def by blast
  next
    case False
    then have "list_all2 represents (map snd (filter (\<lambda>(x, v). keeps frees x) ((x, v) # todo))) ts" "owns b b' ts"
      using r(5,6) assms(4) by simp_all
    then show ?thesis using r(1,2) l c unfolding processed_def by blast
  qed
qed

lemma process_loop_ok:
  assumes "parses fs ty xs vs fs' ty' xs'" "client_is b D n fs ty xs out st" "watches U log frees" "roomy A"
    "cb_of cb = prev" "picks prev vs D = Some (cbs, D')"
  shows "processed log frees b D' n fs' ty' xs' out (zip cbs vs) st (process_loop A U S cb st)"
  using assms
proof (induction arbitrary: b D st cb prev cbs rule: parses.induct)
  case (parses_Wait fs ty xs fs' ty' xs')
  obtain ac where ac: "as_ac st = Some ac" "link b (cl_sub D) (ac_c ac) (as_heap st) fs ty xs out"
    "parts D n ac (as_cells st) (as_mem st)" using parses_Wait.prems(1) by (auto simp: client_is_def)
  obtain c h where g: "get_reply A S st = Some (REDIS_OK, NULL, st\<lparr>as_ac := Some (ac\<lparr>ac_c := c\<rparr>), as_heap := h\<rparr>)"
    "link b (cl_sub D) c h fs' ty' xs' out" using get_reply_waits [OF ac(1,2) parses_Wait.hyps] by blast
  let ?st = "st\<lparr>as_ac := Some (ac\<lparr>ac_c := c\<rparr>), as_heap := h\<rparr>"
  have "\<not> has_flag (c_flags c) REDIS_DISCONNECTING" "\<not> has_flag (c_flags c) REDIS_MONITORING"
    using g(2) by (simp_all add: link_def open_flags_def flag_bits)
  then have "process_loop A U S cb st = Some ?st"
    using g(1) by (subst process_loop.simps) (simp add: drained_def)
  moreover have "client_is b D n fs' ty' xs' out ?st" using g(2) ac(3) by (simp add: client_is_def parts_def)
  moreover have "cbs = []" "D' = D" using parses_Wait.prems(5) by simp_all
  ultimately show ?case by (auto simp: processed_def call_log_def owns_Nil)
next
  case (parses_Finished fs ty xs v rest vs fs' ty' xs')
  obtain x D1 cbs1 where pk: "pick prev v D = Some (x, D1)" "picks x vs D1 = Some (cbs1, D')" "cbs = x # cbs1"
    using parses_Finished.prems(5) by (auto split: Option.bind_splits prod.splits)
  obtain ac where ac: "as_ac st = Some ac" "link b (cl_sub D) (ac_c ac) (as_heap st) fs ty xs out"
    "parts D n ac (as_cells st) (as_mem st)" using parses_Finished.prems(1) by (auto simp: client_is_def)
  obtain t c h where g: "get_reply A S st = Some (REDIS_OK, aroot t, st\<lparr>as_ac := Some (ac\<lparr>ac_c := c\<rparr>), as_heap := h\<rparr>)"
    "represents v t" "aroot t \<noteq> NULL" "heap_is b h t"
    "\<And>g. heap_ok g \<Longrightarrow> has_memory g \<Longrightarrow> link (objs g) (cl_sub D) c g [] (- 1) rest out" "has_memory h"
    using get_reply_finishes [OF ac(1,2) parses_Finished.hyps(1)] by blast
  let ?ac = "ac\<lparr>ac_c := c\<rparr>"
  let ?st = "st\<lparr>as_ac := Some ?ac, as_heap := h\<rparr>"
  have lk: "link (objs h) (cl_sub D) c h [] (- 1) rest out" using g(5) [OF heap_is_ok [OF g(4)] g(6)] .
  have "open_flags (c_flags c) (cl_sub D)" using lk by (simp add: link_def)
  moreover have "parts D n ?ac (as_cells st) (as_mem st)" using ac(3) by (simp add: parts_def)
  ultimately obtain cb1 st1 where nx: "next_callback A U S (aroot t) cb ?st = Some (Some cb1, st1)" "picked D1 n x ?ac ?st cb1 st1"
    using next_callback_ok [of ?st ?ac D n v t cb prev A x D1 U S] g(2) heap_is_live(1) [OF g(4)] parses_Finished.prems(3,4)
      parses_Finished.hyps(2,3) pk(1) by auto
  obtain ac1 hc m w where p1: "st1 = ?st\<lparr>as_ac := Some ac1, as_cells := hc, as_mem := m\<rparr>" "cb_of cb1 = x" "parts D1 n ac1 hc m"
    "ac_c ac1 = c\<lparr>c_flags := w\<rparr>" "open_flags w (cl_sub D1)" using nx(2) by (auto simp: picked_def)
  have lk1: "link (objs g) (cl_sub D1) (ac_c ac1) g [] (- 1) rest out" if "heap_ok g" "has_memory g" for g
    using g(5) [OF that] p1(4,5) by (simp add: link_def)
  have st1: "as_ac st1 = Some ac1" "as_heap st1 = h" "call_log log st1 = call_log log st" by (simp_all add: p1(1) call_log_def)
  have ok: "heap_ok h" "heap_ok (h\<lparr>objs := b\<rparr>)" "has_memory (h\<lparr>objs := b\<rparr>)"
    using heap_is_ok [OF g(4)] heap_is_restored [OF g(4)] g(6) by (simp_all add: has_memory_def)
  note IH = parses_Finished.IH [OF _ parses_Finished.prems(2,3) p1(2) pk(2)]
  have loop: "process_loop A U S cb st =
      (if cb_fn cb1 \<noteq> NULL
       then do {
         st \<leftarrow> redisRunCallback U cb1 (aroot t) st1;
         ac \<leftarrow> as_ac st;
         if has_flag (c_flags (ac_c ac)) REDIS_FREEING then asyncFree U S st else process_loop A U S cb1 st
       }
       else do { st \<leftarrow> free_reply (aroot t) st1; process_loop A U S cb1 st })"
    using g(1,3) nx(1) by (subst process_loop.simps) (simp add: Let_def)
  show ?case
  proof (cases "cb_fn cb1 = NULL")
    case True
    let ?h = "h\<lparr>objs := b\<rparr>" and ?st1 = "st1\<lparr>as_heap := h\<lparr>objs := b\<rparr>\<rparr>"
    have f: "free_reply (aroot t) st1 = Some ?st1"
      using free_reply_ok [OF st1(1) lk1 [OF ok(1) g(6)]] g(4) st1(2) by simp
    have "client_is b D1 n [] (- 1) rest out ?st1"
      using lk1 [OF ok(2,3)] p1 by (simp add: client_is_def)
    from IH [OF this] have "processed log frees (objs ?h) D' n fs' ty' xs' out (zip cbs1 vs) ?st1 (process_loop A U S cb st)"
      using True f loop by simp
    moreover have "fst x = NULL" using True p1(2) by auto
    ultimately show ?thesis
      using processed_step [of log frees ?h D' n fs' ty' xs' out "zip cbs1 vs" ?st1 _ b h t v x st "[]"] g(2,4) st1(3)
      by (simp add: pk(3) keeps_def call_log_def)
  next
    case False
    have "\<not> bit (c_flags (ac_c ac1)) 4" using p1(4,5) by (simp add: open_flags_def)
    then obtain w' h3 where rc: "redisRunCallback U cb1 (aroot t) st1 = Some (st1\<lparr>as_heap := h3, as_world := w'\<rparr>)"
      "log (snd w') = call_log log st1 @ [Reply_call (cb_fn cb1) (aroot t) (cb_privdata cb1) (objs h)]"
      "h3 = (if frees (cb_fn cb1) then h\<lparr>objs := b\<rparr> else h)"
      using run_callback [OF parses_Finished.prems(2) st1(1)] st1(2) g(3,4) False by metis
    let ?st1 = "st1\<lparr>as_heap := h3, as_world := w'\<rparr>"
    have h3: "heap_ok h3" "has_memory h3" using ok g(6) rc(3) by simp_all
    have "client_is (objs h3) D1 n [] (- 1) rest out ?st1"
      using lk1 [OF h3] p1 by (simp add: client_is_def)
    moreover have "\<not> has_flag (c_flags (ac_c ac1)) REDIS_FREEING" using p1(4,5) by (simp add: open_flags_def flag_bits)
    ultimately have "processed log frees (objs h3) D' n fs' ty' xs' out (zip cbs1 vs) ?st1 (process_loop A U S cb st)"
      using IH False rc(1) loop st1(1) by simp
    moreover have "hands (x, v) (Reply_call (cb_fn cb1) (aroot t) (cb_privdata cb1) (objs h))"
      using g(2,3) heap_is_live(1) [OF g(4)] p1(2) by (auto simp: hands_def)
    moreover have "fst x \<noteq> NULL" "cb_fn cb1 = fst x" using False p1(2) by auto
    ultimately show ?thesis
      using processed_step [of log frees h3 D' n fs' ty' xs' out "zip cbs1 vs" ?st1 _ b h t v x st] g(2,4) st1(3) rc(2,3)
      by (simp add: pk(3) keeps_def call_log_def)
  qed
qed

text \<open>
  C19. Replies reach the callbacks they belong to, in order. Whatever replies the unread input
  holds and wherever it breaks off, redisProcessCallbacks hands each of them, as an object
  tree with its value, to the callback that the abstract client picks: the pending commands
  in the order they were issued, then the subscriptions of the channel or pattern. It frees
  the replies without a callback and no others, and it leaves the context in the state of the
  client after these replies, waiting for the rest of the input.
\<close>

theorem redisProcessCallbacks_dispatches:
  assumes "client_is b D n fs ty xs out st" "parses fs ty xs vs fs' ty' xs'" "picks (NULL, NULL) vs D = Some (cbs, D')"
    "watches U log frees" "roomy A"
  shows "\<exists>st' calls ts b'. redisProcessCallbacks A U S st = Some st' \<and> client_is b' D' n fs' ty' xs' out st' \<and>
    call_log log st' = call_log log st @ calls \<and>
    list_all2 hands (filter (\<lambda>(x, v). fst x \<noteq> NULL) (zip cbs vs)) calls \<and>
    list_all2 represents (map snd (filter (\<lambda>(x, v). keeps frees x) (zip cbs vs))) ts \<and> owns b b' ts"
  using process_loop_ok [OF assms(2,1,4,5) _ assms(3), of "\<lparr>cb_next = NULL, cb_fn = NULL, cb_privdata = NULL\<rparr>" S]
  by (simp add: redisProcessCallbacks_def processed_def)

text \<open>A context for the witnesses, with a user that frees every reply.\<close>

definition watcher :: "(ptr \<Rightarrow> bool) \<Rightarrow> call list user" where
  "watcher frees =
     \<lparr>u_reply = \<lambda>fn p d st. do {
        h \<leftarrow> (if frees fn \<and> p \<noteq> NULL then freeReplyObject p (as_heap st) else Some (as_heap st));
        Some (st\<lparr>as_heap := h,
                 as_world := (fst (as_world st), snd (as_world st) @ [Reply_call fn p d (objs (as_heap st))])\<rparr>) },
      u_status = \<lambda>fn rc st. Some (st\<lparr>as_world := (fst (as_world st), snd (as_world st) @ [Status_call fn rc])\<rparr>)\<rparr>"

lemma watcher_watches: "watches (watcher frees) id frees"
  by (auto simp: watches_def watcher_def)

definition idle_client :: "cb list \<Rightarrow> bool \<Rightarrow> client" where
  "idle_client q sub = \<lparr>cl_queue = q, cl_invalid = [], cl_channels = Map.empty, cl_patterns = Map.empty, cl_sub = sub\<rparr>"

lemma queues_exist: "\<exists>l k h. queues l k h q []"
proof (induction q rule: rev_induct)
  case Nil
  have "queues \<lparr>cl_head = NULL, cl_tail = NULL\<rparr> \<lparr>cl_head = NULL, cl_tail = NULL\<rparr> cbheap0 [] []"
    by (simp add: queues_def cbheap_ok_def cbheap0_def callbacks_at_def)
  then show ?case by blast
next
  case (snoc x q)
  then obtain l k h where "queues l k h q []" by blast
  from queues_push [OF this, of "\<lparr>cb_next = NULL, cb_fn = fst x, cb_privdata = snd x\<rparr>"] show ?case by auto
qed

lemma subs_empty: "subs (Some (dictInit callbackDict NULL)) cbmem0 Map.empty 0"
proof -
  have "dict_rep callbackDict NULL cbmem_good (dictInit callbackDict NULL, cbmem0) (\<lambda>_. None) 0"
    by (rule dict_rep_empty) (simp_all add: cbmem0_def cbmem_good_def)
  then show ?thesis unfolding subs_def by fastforce
qed

text \<open>How the sample contexts look like.\<close>

definition sample :: "'s actx \<Rightarrow> bool" where
  "sample ac \<longleftrightarrow> ac_ev ac = no_hooks \<and> ac_onDisconnect ac = 9 \<and> ac_cmd_list ac = NULL \<and>
     ac_channels ac = Some (dictInit callbackDict NULL) \<and> ac_patterns ac = Some (dictInit callbackDict NULL) \<and>
     has_flag (c_flags (ac_c ac)) REDIS_CONNECTED"

lemma client_exists:
  assumes "length d < 2 ^ 31"
  shows "\<exists>st :: call list ast. client_is Map.empty (idle_client q sub) 0 [] (- 1) d [] st \<and> snd (as_world st) = [] \<and>
    (\<forall>ac. as_ac st = Some ac \<longrightarrow> sample ac)"
proof -
  obtain l k h where q: "queues l k h q []" using queues_exist by blast
  obtain r where r: "reading Map.empty r empty_heap [] (- 1) d" "r_len r \<le> length d" using reading_input [OF assms] by blast
  obtain e where e: "sdsempty heap0 = Some e" "sds_ok e" "sdsstr e = []"
    using sdsempty_total [OF roomy_heap0] sdsb.empty_ok by blast
  obtain c0 where "redisContextInit heap0 = Some c0" using witness_context by blast
  define c where "c = c0\<lparr>c_err := 0, c_errstr := replicate ERRSTR_SIZE NUL, c_obuf := Some e, c_reader := Some r,
    c_flags := if sub then set_flag REDIS_CONNECTED REDIS_SUBSCRIBED else REDIS_CONNECTED\<rparr>"
  define ac :: "call list actx" where "ac = \<lparr>ac_c = c, ac_err = 0, ac_errstr = False,
    ac_ev = no_hooks,
    ac_onDisconnect = 9, ac_onConnect = NULL, ac_replies = l, ac_invalid = k,
    ac_channels = Some (dictInit callbackDict NULL), ac_patterns = Some (dictInit callbackDict NULL),
    ac_cmd_list = NULL, ac_xc = NULL, ac_status = 0\<rparr>"
  define st where "st = \<lparr>as_ac = Some ac, as_heap = empty_heap, as_cells = h, as_mem = cbmem0, as_lists = lheap0,
    as_tasks = {}, as_woken = [], as_free_lock = False, as_world = (0, [])\<rparr>"
  have "open_flags (c_flags c) sub"
    by (simp add: c_def open_flags_def) (simp add: flag_exp(2) bit_simps)
  then have "link Map.empty sub c empty_heap [] (- 1) d []"
    using r e empty_heap_ok(2) by (simp add: link_def c_def)
  then have "client_is Map.empty (idle_client q sub) 0 [] (- 1) d [] st"
    using q subs_empty by (simp add: client_is_def st_def ac_def parts_def idle_client_def)
  moreover have "has_flag (c_flags c) REDIS_CONNECTED"
    by (simp add: c_def flag_bits) (simp add: flag_exp(2) bit_simps)
  ultimately show ?thesis by (intro exI [of _ st]) (simp add: st_def ac_def sample_def)
qed

lemma picks_queue:
  "length vs \<le> length (cl_queue D) \<Longrightarrow> picks prev vs D = Some (take (length vs) (cl_queue D), D\<lparr>cl_queue := drop (length vs) (cl_queue D)\<rparr>)"
proof (induction vs arbitrary: D prev)
  case (Cons v vs)
  then obtain x q where q: "cl_queue D = x # q" by (cases "cl_queue D") auto
  then show ?case using Cons.IH [of "D\<lparr>cl_queue := q\<rparr>" x] Cons.prems by (simp add: pick_def)
qed simp

lemma parses_encoded:
  "\<forall>v \<in> set vs. wf_reply 8 v \<and> length (encode v) < 2 ^ 31 \<Longrightarrow> parses [] (- 1) (concat (map encode vs)) vs [] (- 1) []"
proof (induction vs)
  case Nil
  then show ?case by (auto intro: parses_Wait simp: spec_run.simps spec_item_def)
next
  case (Cons v vs)
  then show ?case using spec_run_whole [of v "concat (map encode vs)"] by (auto intro: parses_Finished)
qed

lemma two_calls:
  assumes "list_all2 hands [((5, 6), u), ((7, 8), v)] cls"
  shows "\<exists>p q m m'. cls = [Reply_call 5 p 6 m, Reply_call 7 q 8 m']"
  using assms by (auto simp: list_all2_Cons1 hands_def)

theorem redisProcessCallbacks_dispatches_witness:
  "\<exists>st. \<forall>S. \<exists>st' p q m m'. redisProcessCallbacks heap0 (watcher (\<lambda>_. True)) S st = Some st' \<and>
     snd (as_world st') = [Reply_call 5 p 6 m, Reply_call 7 q 8 m']"
proof -
  let ?vs = "[RInteger 42, RString ''ab'']"
  have d: "length (concat (map encode ?vs)) < 2 ^ 31" by (simp add: decimal_int_def decimal.simps)
  obtain st :: "call list ast" where st: "client_is Map.empty (idle_client [(5, 6), (7, 8)] False) 0 [] (- 1) (concat (map encode ?vs)) [] st"
    "snd (as_world st) = []" using client_exists [OF d] by blast
  have p: "parses [] (- 1) (concat (map encode ?vs)) ?vs [] (- 1) []"
    by (rule parses_encoded) (simp add: decimal_int_def decimal.simps)
  have k: "picks (NULL, NULL) ?vs (idle_client [(5, 6), (7, 8)] False) = Some ([(5, 6), (7, 8)], idle_client [] False)"
    by (subst picks_queue) (simp_all add: idle_client_def)
  have "\<exists>st' p q m m'. redisProcessCallbacks heap0 (watcher (\<lambda>_. True)) S st = Some st' \<and>
     snd (as_world st') = [Reply_call 5 p 6 m, Reply_call 7 q 8 m']" for S
  proof -
    obtain st' calls where r: "redisProcessCallbacks heap0 (watcher (\<lambda>_. True)) S st = Some st'" "call_log id st' = call_log id st @ calls"
      "list_all2 hands (filter (\<lambda>(x, v). fst x \<noteq> NULL) (zip [(5, 6), (7, 8)] ?vs)) calls"
      using redisProcessCallbacks_dispatches [OF st(1) p k watcher_watches [of "\<lambda>_. True"] roomy_heap0, where S = S] by blast
    have "list_all2 hands [((5, 6), RInteger 42), ((7, 8), RString ''ab'')] calls" using r(3) by simp
    from two_calls [OF this] show ?thesis using r(1,2) st(2) by (auto simp: call_log_def)
  qed
  then show ?thesis by blast
qed

text \<open>
  C23. A message on a channel that was never subscribed, or no longer is, is handed to the
  callback of the reply before it: the code looks for the channel, does not find it, and
  leaves the callback of the previous round in place.
\<close>

theorem unknown_channel_reuses_callback:
  assumes "client_is b D n fs ty xs out st" "parses fs ty xs [v, RArray (RString k # RString ch # vs)] fs' ty' xs'"
    "watches U log frees" "roomy A"
    and "cl_queue D = [x]" "cl_sub D" "cl_map (on_pattern k) D ch = None" "fst x \<noteq> NULL"
  shows "\<exists>st' cl cl'. redisProcessCallbacks A U S st = Some st' \<and> call_log log st' = call_log log st @ [cl, cl'] \<and>
    hands (x, v) cl \<and> hands (x, RArray (RString k # RString ch # vs)) cl'"
proof -
  let ?m = "RArray (RString k # RString ch # vs)"
  have "picks (NULL, NULL) [v, ?m] D = Some ([x, x], D\<lparr>cl_queue := []\<rparr>)"
    using assms(5-7) by (cases "on_pattern k") (simp_all add: pick_def pick_sub_def Let_def cl_map_def)
  from redisProcessCallbacks_dispatches [OF assms(1,2) this assms(3,4), of S] show ?thesis
    using assms(8) by (auto simp: list_all2_Cons1)
qed

theorem unknown_channel_reuses_callback_witness:
  "\<exists>st. \<forall>S. \<exists>st' cl cl'. redisProcessCallbacks heap0 (watcher (\<lambda>_. True)) S st = Some st' \<and> snd (as_world st') = [cl, cl'] \<and>
     hands ((5, 6), RInteger 42) cl \<and> hands ((5, 6), RArray [RString ''message'', RString ''news'', RString ''x'']) cl'"
proof -
  let ?m = "RArray [RString ''message'', RString ''news'', RString ''x'']"
  let ?vs = "[RInteger 42, ?m]"
  have d: "length (concat (map encode ?vs)) < 2 ^ 31" by (simp add: decimal_int_def decimal.simps)
  obtain st :: "call list ast" where st: "client_is Map.empty (idle_client [(5, 6)] True) 0 [] (- 1) (concat (map encode ?vs)) [] st"
    "snd (as_world st) = []" using client_exists [OF d] by blast
  have p: "parses [] (- 1) (concat (map encode ?vs)) ?vs [] (- 1) []"
    by (rule parses_encoded) (simp add: decimal_int_def decimal.simps)
  have "\<exists>st' cl cl'. redisProcessCallbacks heap0 (watcher (\<lambda>_. True)) S st = Some st' \<and> snd (as_world st') = [cl, cl'] \<and>
     hands ((5, 6), RInteger 42) cl \<and> hands ((5, 6), ?m) cl'" for S
    using unknown_channel_reuses_callback [OF st(1) p watcher_watches roomy_heap0, where S = S and x = "(5, 6)"] st(2)
    by (auto simp: call_log_def idle_client_def cl_map_def)
  then show ?thesis by blast
qed

end
