(* ===== verification/Commands.thy ===== *)
theory Commands
  imports Dispatch
begin

text \<open>
  Issuing commands on an asynchronous context: what \<^verbatim>\<open>__redisAsyncCommand\<close> does to the abstract
  client. It finds the name and the channels of a command in its wire format.
\<close>

section \<open>Reading a formatted command\<close>

lemma dropWhile_stop: "xs \<noteq> [] \<Longrightarrow> \<not> P (hd xs) \<Longrightarrow> dropWhile P xs = xs"
  by (cases xs) auto

lemma foldl_decimal:
  "foldl (\<lambda>v c. v * 10 + (chr_val c - 48)) 0 (decimal n) = int n"
proof (induction n rule: decimal.induct)
  case (1 n)
  show ?case
  proof (cases "n < 10")
    case True
    then show ?thesis by (subst decimal.simps) simp
  next
    case False
    then have "foldl (\<lambda>v c. v * 10 + (chr_val c - 48)) 0 (decimal n) = int (n div 10) * 10 + int (n mod 10)"
      using 1 by (subst decimal.simps) simp
    then show ?thesis by presburger
  qed
qed

lemma digit_of_decimal:
  assumes "c \<in> set (decimal n)"
  shows "isdigit c" "\<not> isspace c" "c \<noteq> CHR ''-''" "c \<noteq> CHR ''+''" "c \<noteq> CHR ''$''"
proof -
  obtain d where d: "d < 10" "c = digit_char d" using set_decimal [OF assms] by blast
  then have v: "chr_val c = 48 + int d" by simp
  then show "isdigit c" "\<not> isspace c" using d(1) by (auto simp: isdigit_def isspace_def)
  show "c \<noteq> CHR ''-''" "c \<noteq> CHR ''+''" "c \<noteq> CHR ''$''" using v by auto
qed

lemma strtol_decimal:
  assumes "n < 2 ^ 63" "\<not> isdigit x"
  shows "strtol (decimal n @ x # xs) = Some (int n)"
proof -
  have h: "hd (decimal n) \<in> set (decimal n)" by simp
  then obtain c cs where c: "decimal n = c # cs" by (cases "decimal n") auto
  have s: "dropWhile isspace (decimal n @ x # xs) = decimal n @ x # xs"
    using digit_of_decimal(2) [of c n] c by simp
  have t: "takeWhile isdigit (decimal n @ x # xs) = decimal n"
    using assms(2) digit_of_decimal(1) by (simp add: takeWhile_append)
  have "c \<noteq> CHR ''-''" "c \<noteq> CHR ''+''" using digit_of_decimal(3,4) [of c n] c by simp_all
  then show ?thesis using s t c assms foldl_decimal [of n] by (auto simp: strtol_def Let_def)
qed

lemma strchr_at_found: "c \<notin> set xs \<Longrightarrow> NUL \<notin> set xs \<Longrightarrow> strchr_at (xs @ c # ys) c = Some (Some (length xs))"
proof -
  assume "c \<notin> set xs" "NUL \<notin> set xs"
  then have "takeWhile (\<lambda>x. x \<noteq> c \<and> x \<noteq> NUL) (xs @ c # ys) = xs" by (auto simp: takeWhile_append intro!: takeWhile_eq_all_conv [THEN iffD2])
  then show ?thesis by (simp add: strchr_at_def)
qed

lemma strchr_at_missing: "c \<noteq> NUL \<Longrightarrow> strchr_at (NUL # ys) c = Some None"
  by (simp add: strchr_at_def)

text \<open>At the start of an argument.\<close>

lemma nextArgument_bulk:
  assumes "length a < 2 ^ 31" "length pre + length (bulk a) < 2 ^ 64"
  shows "nextArgument (pre @ bulk a @ post) (length pre) =
    Some (Some (length pre + length (decimal (length a)) + 3, length a, length pre + length (bulk a)))"
proof -
  let ?cmd = "pre @ bulk a @ post" and ?h = "CHR ''$'' # decimal (length a)"
  have d: "drop (length pre) ?cmd = ?h @ CR # LF # a @ CRLF @ post" by (simp add: bulk_eq)
  have p: "?cmd ! length pre = CHR ''$''" by (simp add: bulk_eq nth_append)
  have "drop (length pre + 1) ?cmd = drop 1 (drop (length pre) ?cmd)" by simp
  then have d1: "drop (length pre + 1) ?cmd = decimal (length a) @ CR # LF # a @ CRLF @ post" unfolding d by simp
  have "CR \<notin> set ?h" "NUL \<notin> set ?h" using not_in_decimal by (simp_all del: not_in_decimal) (simp_all add: CR_def NUL_def)
  then have k: "strchr_at (drop (length pre) ?cmd) CR = Some (Some (length ?h))" unfolding d by (rule strchr_at_found)
  have s: "strtol (drop (length pre + 1) ?cmd) = Some (int (length a))"
    unfolding d1 using assms(1) by (intro strtol_decimal) (simp_all add: isdigit_def CR_def)
  have l: "length pre < length ?cmd" by (simp add: bulk_eq)
  have z: "to_size (s32 (int (length a))) = length a" using assms(1) by (simp add: s32_of_nat to_size_id)
  have u: "u64 (length pre + length ?h + 2 + length a + 2) = length pre + length (bulk a)"
    using assms(2) by (simp add: u64_id bulk_eq)
  show ?thesis
    using l p k s z u unfolding nextArgument_def by (simp add: Let_def)
qed

text \<open>At the start of the command, and at its end.\<close>

lemma nextArgument_first:
  assumes "length a < 2 ^ 31" "length pre + length (bulk a) < 2 ^ 64" "CHR ''$'' \<notin> set pre" "NUL \<notin> set pre" "pre \<noteq> []"
  shows "nextArgument (pre @ bulk a @ post) 0 =
    Some (Some (length pre + length (decimal (length a)) + 3, length a, length pre + length (bulk a)))"
proof -
  let ?cmd = "pre @ bulk a @ post"
  obtain xs where b: "bulk a @ post = CHR ''$'' # xs" by (simp add: bulk_eq)
  have "strchr_at (drop 0 ?cmd) CHR ''$'' = Some (Some (length pre))" unfolding b using strchr_at_found [OF assms(3,4)] by simp
  moreover have "?cmd ! 0 \<noteq> CHR ''$''" using assms(3,5) by (cases pre) auto
  moreover have "?cmd ! length pre = CHR ''$''" by (simp add: bulk_eq nth_append)
  ultimately have "nextArgument ?cmd 0 = nextArgument ?cmd (length pre)"
    using assms(5) by (simp add: nextArgument_def bulk_eq)
  then show ?thesis using nextArgument_bulk [OF assms(1,2)] by simp
qed

lemma nextArgument_done: "nextArgument (pre @ NUL # slack) (length pre) = Some None"
  using strchr_at_missing [of "CHR ''$''" slack] by (simp add: nextArgument_def NUL_def)

section \<open>Commands of the abstract client\<close>

definition subscribe :: "bool \<Rightarrow> cb \<Rightarrow> string \<Rightarrow> client \<Rightarrow> client" where
  "subscribe pv x ch D = set_map pv ((cl_map pv D)(ch \<mapsto> x)) D"

text \<open>
  A command that is not MONITOR. A leading P makes a subscription one of patterns, and is
  skipped in every command's name.
\<close>

definition base_name :: "string \<Rightarrow> string" where
  "base_name name = map tolower (if on_pattern name then drop 1 name else name)"

definition issue :: "cb \<Rightarrow> string \<Rightarrow> string list \<Rightarrow> client \<Rightarrow> int \<times> client" where
  "issue x name args D =
     (if base_name name = ''subscribe'' \<and> args \<noteq> []
      then (REDIS_OK, foldl (\<lambda>D ch. subscribe (on_pattern name) x ch D) (D\<lparr>cl_sub := True\<rparr>) args)
      else if base_name name = ''unsubscribe'' then (if cl_sub D then REDIS_OK else REDIS_ERR, D)
      else if cl_sub D then (REDIS_OK, D\<lparr>cl_invalid := cl_invalid D @ [x]\<rparr>)
      else (REDIS_OK, D\<lparr>cl_queue := cl_queue D @ [x]\<rparr>))"

lemma tolower_CR: "tolower c = CR \<longleftrightarrow> c = CR" "tolower CR = CR" "CR = tolower c \<longleftrightarrow> c = CR" "tolower LF = LF"
proof -
  have l: "chr_val CR < 65" "chr_val LF < 65" by (simp_all add: CR_def LF_def)
  show "tolower c = CR \<longleftrightarrow> c = CR" by (rule tolower_low(1) [OF l(1)])
  then show "CR = tolower c \<longleftrightarrow> c = CR" by metis
  show "tolower CR = CR" "tolower LF = LF" by (rule tolower_low(2) [OF l(1)], rule tolower_low(2) [OF l(2)])
qed

lemma starts_nocase_name:
  assumes "CR \<notin> set s" "CR \<notin> set w" "map tolower w = w"
  shows "starts_nocase (s @ CRLF @ rest) (w @ CRLF) = Some (map tolower s = w)"
  using assms
proof (induction w arbitrary: s)
  case Nil
  then show ?case by (cases s) (auto simp: tolower_CR)
next
  case (Cons y w)
  then show ?case by (cases s) (auto simp: tolower_CR)
qed

lemma same_ac_mem: "as_ac st = Some ac \<Longrightarrow> st\<lparr>as_ac := Some ac, as_mem := as_mem st\<rparr> = st"
  by (cases st) simp

lemma mem_good_freed: "mem_good m \<Longrightarrow> mem_good (m\<lparr>dm_user := callbackKeyDestructor NULL k (dm_user m)\<rparr>)"
  by (simp add: mem_good_def callbackKeyDestructor_def cbmem_good_def)

lemma add_channels_ok:
  assumes "as_ac st = Some ac" "parts D n ac (as_cells st) (as_mem st)" "roomy A"
    "length pre + length (concat (map bulk chans)) < 2 ^ 31" "n + length chans \<le> 2 ^ 31"
  shows "\<exists>ac' m. add_channels A pv cb (pre @ concat (map bulk chans) @ NUL # slack) (length pre) st =
      Some (st\<lparr>as_ac := Some ac', as_mem := m\<rparr>) \<and>
    parts (foldl (\<lambda>D ch. subscribe pv (cb_of cb) ch D) D chans) (n + length chans) ac' (as_cells st) m \<and> ac_c ac' = ac_c ac \<and>
    ac_ev ac' = ac_ev ac"
  using assms
proof (induction chans arbitrary: pre st ac D n)
  case Nil
  then show ?case
    by (intro exI [of _ ac] exI [of _ "as_mem st"]) (subst add_channels.simps, simp add: nextArgument_done same_ac_mem)
next
  case (Cons ch chans)
  let ?cmd = "pre @ concat (map bulk (ch # chans)) @ NUL # slack"
  let ?a = "length pre + length (decimal (length ch)) + 3"
  have bl: "length (bulk ch) = length ch + length (decimal (length ch)) + 5" by (simp add: bulk_eq)
  have na: "nextArgument ?cmd (length pre) = Some (Some (?a, length ch, length pre + length (bulk ch)))"
    using nextArgument_bulk [of ch pre "concat (map bulk chans) @ NUL # slack"] Cons.prems(4) bl by simp
  have dr: "drop ?a ?cmd = ch @ CRLF @ concat (map bulk chans) @ NUL # slack"
  proof -
    have "?cmd = (pre @ ''$'' @ decimal (length ch) @ CRLF) @ ch @ CRLF @ concat (map bulk chans) @ NUL # slack"
      by (simp add: bulk_eq)
    moreover have "?a = length (pre @ ''$'' @ decimal (length ch) @ CRLF)" by simp
    ultimately show ?thesis using append_eq_conv_conj by metis
  qed
  have fit: "?a + length ch \<le> length ?cmd" using bl by simp
  obtain sname where sn: "sdsnewlen A (Some (drop ?a ?cmd)) (length ch) = Some sname"
    using sdsnewlen_total [OF Cons.prems(3)] Cons.prems(4) bl by fastforce
  have lc: "length ch < 2 ^ 31" using Cons.prems(4) bl by simp
  have sk: "sds_ok sname" "sdsstr sname = ch" using sdsnewlen_ok [OF sn] lc unfolding dr by auto
  have sl: "sdslen sname < 2 ^ 31" using sdsb.len_str [OF sk(1)] sk(2) lc by simp
  obtain ht r ht' m' where d: "get_dict pv ac = Some ht" "dictReplace ht sname cb (as_mem st) = Some (r, ht', m')"
    "subs (Some ht') m' ((cl_map pv D)(ch \<mapsto> cb_of cb)) (n + 1)"
    using subs_replace [OF parts_subs [OF Cons.prems(2), of pv] sk(1) sl, of cb] sk(2) Cons.prems(5) by auto
  define m1 where "m1 = (if r = 0 then m'\<lparr>dm_user := callbackKeyDestructor NULL sname (dm_user m')\<rparr> else m')"
  have "mem_good m1" using subs_mem_good [OF d(3)] mem_good_freed by (simp add: m1_def)
  then have "subs (Some ht') m1 ((cl_map pv D)(ch \<mapsto> cb_of cb)) (n + 1)" using subs_mem [OF d(3)] by blast
  then have p1: "parts (subscribe pv (cb_of cb) ch D) (n + 1) (set_dict pv (Some ht') ac) (as_cells st) m1"
    using parts_set_dict [OF Cons.prems(2)] by (simp add: subscribe_def)
  let ?st = "st\<lparr>as_ac := Some (set_dict pv (Some ht') ac), as_mem := m1\<rparr>"
  have step: "add_channels A pv cb ?cmd (length pre) st = add_channels A pv cb ?cmd (length pre + length (bulk ch)) ?st"
    using na fit sn Cons.prems(1) d(1,2) by (subst add_channels.simps) (simp add: m1_def del: drop_append)
  have e: "?cmd = (pre @ bulk ch) @ concat (map bulk chans) @ NUL # slack" "length pre + length (bulk ch) = length (pre @ bulk ch)" by simp_all
  have s: "ac_c (set_dict pv d ac) = ac_c ac" "ac_ev (set_dict pv d ac) = ac_ev ac" for d by (simp_all add: set_dict_def)
  show ?case
    unfolding step unfolding e
    using Cons.IH [of ?st "set_dict pv (Some ht') ac" "subscribe pv (cb_of cb) ch D" "n + 1" "pre @ bulk ch"] p1 Cons.prems(3-5) s
    by auto
qed

lemma cstr_of_name:
  assumes "cmd = pre @ name @ CRLF @ rest" "p = length pre"
  shows "(tolower (cmd ! p) = CHR ''p'') = on_pattern name" "p < length cmd"
    "drop (if on_pattern name then p + 1 else p) cmd = (if on_pattern name then drop 1 name else name) @ CRLF @ rest"
proof -
  have "tolower CR \<noteq> CHR ''p''" "tolower NUL \<noteq> CHR ''p''" by (simp_all add: tolower_CR tolower_NUL) (simp_all add: CR_def NUL_def)
  then show "(tolower (cmd ! p) = CHR ''p'') = on_pattern name"
    by (cases name) (simp_all add: assms on_pattern_def byte_at_def nth_append)
  show "p < length cmd" by (simp add: assms)
  show "drop (if on_pattern name then p + 1 else p) cmd = (if on_pattern name then drop 1 name else name) @ CRLF @ rest"
    using \<open>tolower NUL \<noteq> CHR ''p''\<close> by (cases name) (simp_all add: assms on_pattern_def byte_at_def)
qed

text \<open>The words the code compares with are in lower case and without a line end.\<close>

lemma command_words:
  "CR \<notin> set ''subscribe''" "map tolower ''subscribe'' = ''subscribe''"
  "CR \<notin> set ''unsubscribe''" "map tolower ''unsubscribe'' = ''unsubscribe''"
  "CR \<notin> set ''monitor''" "map tolower ''monitor'' = ''monitor''"
  by (simp_all add: CR_def tolower_def)

definition issued :: "client \<Rightarrow> nat \<Rightarrow> 's actx \<Rightarrow> 's ast \<Rightarrow> 's ast \<Rightarrow> bool" where
  "issued D n ac st st' \<longleftrightarrow>
     (\<exists>ac' h m w. st' = st\<lparr>as_ac := Some ac', as_cells := h, as_mem := m\<rparr> \<and> parts D n ac' h m \<and>
        ac_c ac' = (ac_c ac)\<lparr>c_flags := w\<rparr> \<and> ac_ev ac' = ac_ev ac \<and> open_flags w (cl_sub D))"

lemma issuedI:
  "st' = st\<lparr>as_ac := Some ac', as_cells := h, as_mem := m\<rparr> \<Longrightarrow> parts D n ac' h m \<Longrightarrow>
    ac_c ac' = (ac_c ac)\<lparr>c_flags := w\<rparr> \<Longrightarrow> ac_ev ac' = ac_ev ac \<Longrightarrow> open_flags w (cl_sub D) \<Longrightarrow> issued D n ac st st'"
  unfolding issued_def by blast

lemma parts_more: "parts D n ac h m \<Longrightarrow> n \<le> n' \<Longrightarrow> parts D n' ac h m"
  using subs_mem subs_mem_good unfolding parts_def by blast

lemma foldl_subscribe_sub [simp]: "cl_sub (foldl (\<lambda>D ch. subscribe pv x ch D) D chans) = cl_sub D"
  by (induction chans arbitrary: D) (auto simp: subscribe_def set_map_def)

lemma push_replies_ok:
  assumes "as_ac st = Some ac" "parts D n ac (as_cells st) (as_mem st)" "open_flags (c_flags (ac_c ac)) (cl_sub D)"
  shows "\<exists>rc st'. push_cb Replies cb st = Some (rc, st') \<and> issued (D\<lparr>cl_queue := cl_queue D @ [cb_of cb]\<rparr>) n ac st st'"
proof -
  obtain l h where l: "redisPushCallback cb (ac_replies ac) (Some cb) (as_cells st) = Some (REDIS_OK, l, h)"
    "queues l (ac_invalid ac) h (cl_queue D @ [cb_of cb]) (cl_invalid D)"
    using assms(2) queues_push unfolding parts_def by blast
  have "issued (D\<lparr>cl_queue := cl_queue D @ [cb_of cb]\<rparr>) n ac st
      (st\<lparr>as_ac := Some (ac\<lparr>ac_replies := l\<rparr>), as_cells := h, as_mem := as_mem st\<rparr>)"
    using assms(2,3) l(2) by (intro issuedI [OF refl, where w = "c_flags (ac_c ac)"]) (simp_all add: parts_def)
  then show ?thesis using assms(1) l(1) by (simp add: push_cb_def get_cbs_def set_cbs_def)
qed

lemma push_invalid_ok:
  assumes "as_ac st = Some ac" "parts D n ac (as_cells st) (as_mem st)" "open_flags (c_flags (ac_c ac)) (cl_sub D)"
  shows "\<exists>rc st'. push_cb Invalid cb st = Some (rc, st') \<and> issued (D\<lparr>cl_invalid := cl_invalid D @ [cb_of cb]\<rparr>) n ac st st'"
proof -
  have "queues (ac_invalid ac) (ac_replies ac) (as_cells st) (cl_invalid D) (cl_queue D)"
    using assms(2) queues_swap by (simp add: parts_def)
  from queues_push [OF this, of cb] obtain l h where l: "redisPushCallback cb (ac_invalid ac) (Some cb) (as_cells st) = Some (REDIS_OK, l, h)"
    "queues (ac_replies ac) l h (cl_queue D) (cl_invalid D @ [cb_of cb])" using queues_swap by blast
  have "issued (D\<lparr>cl_invalid := cl_invalid D @ [cb_of cb]\<rparr>) n ac st
      (st\<lparr>as_ac := Some (ac\<lparr>ac_invalid := l\<rparr>), as_cells := h, as_mem := as_mem st\<rparr>)"
    using assms(2,3) l(2) by (intro issuedI [OF refl, where w = "c_flags (ac_c ac)"]) (simp_all add: parts_def)
  then show ?thesis using assms(1) l(1) by (simp add: push_cb_def get_cbs_def set_cbs_def)
qed

text \<open>What \<^verbatim>\<open>register\<close> makes of a command in its wire format.\<close>

lemma register_wire:
  assumes st: "as_ac st = Some ac" "has_flag (c_flags (ac_c ac)) REDIS_SUBSCRIBED = sub"
    and name: "CR \<notin> set name" "base_name name \<noteq> ''monitor''" and len: "length (wire (name # args)) < 2 ^ 31"
  shows "register A cb (wire (name # args) @ NUL # slack) st =
      (if base_name name = ''subscribe'' \<and> args \<noteq> []
       then do {
         st \<leftarrow> upd_flags (\<lambda>f. set_flag f REDIS_SUBSCRIBED) st;
         st \<leftarrow> add_channels A (on_pattern name) cb (wire (name # args) @ NUL # slack)
           (length ((''*'' @ decimal (length (name # args)) @ CRLF) @ bulk name)) st;
         Some (REDIS_OK, st)
       }
       else if base_name name = ''unsubscribe'' then Some (if sub then REDIS_OK else REDIS_ERR, st)
       else do { (_, st) \<leftarrow> push_cb (if sub then Invalid else Replies) cb st; Some (REDIS_OK, st) })"
proof -
  let ?pre = "''*'' @ decimal (length (name # args)) @ CRLF" and ?rest = "concat (map bulk args) @ NUL # slack"
  let ?cmd = "?pre @ bulk name @ ?rest"
  have w: "wire (name # args) @ NUL # slack = ?cmd" by (simp add: wire_eq)
  have l: "length ?pre + length (bulk name) + length (concat (map bulk args)) < 2 ^ 31" using len by (simp add: wire_eq)
  have bl: "length (bulk name) = length name + length (decimal (length name)) + 5" by (simp add: bulk_eq)
  have np: "CHR ''$'' \<notin> set ?pre" "NUL \<notin> set ?pre" "?pre \<noteq> []"
    using digit_of_decimal(5) by (auto simp: CR_def LF_def NUL_def simp del: not_in_decimal) (use not_in_decimal in \<open>simp add: NUL_def\<close>)
  define cs where "cs = length ?pre + length (decimal (length name)) + 3"
  have "length name < 2 ^ 31" "length ?pre + length (bulk name) < 2 ^ 64" using l bl by simp_all
  from nextArgument_first [OF this np, of ?rest]
  have na: "nextArgument ?cmd 0 = Some (Some (cs, length name, length (?pre @ bulk name)))" by (simp add: cs_def)
  have c0: "?cmd ! length (?pre @ bulk name) = hd ?rest" "length (?pre @ bulk name) < length ?cmd"
    using nth_append_length [of "?pre @ bulk name" "hd ?rest" "tl ?rest"] by (cases args; simp add: bulk_eq)+
  have hn: "(hd ?rest = CHR ''$'') = (args \<noteq> [])" by (cases args) (simp_all add: bulk_eq NUL_def)
  have "?cmd = (?pre @ ''$'' @ decimal (length name) @ CRLF) @ name @ CRLF @ ?rest" "cs = length (?pre @ ''$'' @ decimal (length name) @ CRLF)"
    by (simp_all add: bulk_eq cs_def)
  note C = cstr_of_name [OF this]
  define base where "base = (if on_pattern name then drop 1 name else name)"
  have nb: "CR \<notin> set base" using name(1) by (auto simp: base_def dest: in_set_dropD)
  have b: "base_name name = map tolower base" by (simp add: base_name_def base_def)
  have cmp: "starts_nocase (base @ CRLF @ ?rest) (x @ CRLF) = Some (base_name name = x)" if "CR \<notin> set x" "map tolower x = x" for x
    using starts_nocase_name [OF nb that] by (simp add: b)
  note cmps = cmp [OF command_words(1,2)] cmp [OF command_words(3,4)] cmp [OF command_words(5,6)]
  define cmd where "cmd = ?cmd"
  define p where "p = length (?pre @ bulk name)"
  define more where "more = ?rest"
  define tail where "tail = drop (if on_pattern name then cs + 1 else cs) cmd"
  note F = w [folded cmd_def] na [folded cmd_def p_def] c0 [folded cmd_def p_def] C [folded cmd_def base_def]
  have t: "tail = base @ CRLF @ more" using F(7) by (simp add: tail_def more_def)
  have cmps': "starts_nocase tail (''subscribe'' @ CRLF) = Some (base_name name = ''subscribe'')"
      "starts_nocase tail (''unsubscribe'' @ CRLF) = Some (base_name name = ''unsubscribe'')"
      "starts_nocase tail (''monitor'' @ CRLF) = Some False"
      using cmps name(2) by (simp_all add: t more_def del: append_Cons append_Nil)
  have h: "(cmd ! p = CHR ''$'') = (args \<noteq> [])" using F(3) hn by simp
  show ?thesis
    using F(2,4-6) h cmps' st unfolding F(1) p_def [symmetric] register_def
    by (simp add: Let_def tail_def [symmetric] del: append_Cons append_Nil)
qed

lemma register_ok:
  assumes st: "as_ac st = Some ac" "parts D n ac (as_cells st) (as_mem st)" "open_flags (c_flags (ac_c ac)) (cl_sub D)"
    and A: "roomy A" and name: "CR \<notin> set name" "base_name name \<noteq> ''monitor''"
    and len: "length (wire (name # args)) < 2 ^ 31" "n + length args \<le> 2 ^ 31"
    and D': "issue (cb_of cb) name args D = (rc, D')"
  shows "\<exists>st'. register A cb (wire (name # args) @ NUL # slack) st = Some (rc, st') \<and> issued D' (n + length args) ac st st'"
proof -
  let ?pre = "''*'' @ decimal (length (name # args)) @ CRLF"
  let ?cmd = "wire (name # args) @ NUL # slack"
  have sub: "has_flag (c_flags (ac_c ac)) REDIS_SUBSCRIBED = cl_sub D" using st(3) by (simp add: flag_bits open_flags_def)
  note reg = register_wire [OF st(1) sub name len(1), of A cb slack]
  show ?thesis
  proof (cases "base_name name = ''subscribe'' \<and> args \<noteq> []")
    case True
    then have d: "rc = REDIS_OK" "D' = foldl (\<lambda>D ch. subscribe (on_pattern name) (cb_of cb) ch D) (D\<lparr>cl_sub := True\<rparr>) args"
      using D' by (simp_all add: issue_def)
    let ?w = "set_flag (c_flags (ac_c ac)) REDIS_SUBSCRIBED"
    let ?ac = "ac\<lparr>ac_c := (ac_c ac)\<lparr>c_flags := ?w\<rparr>\<rparr>"
    let ?st = "st\<lparr>as_ac := Some ?ac\<rparr>"
    have u: "upd_flags (\<lambda>f. set_flag f REDIS_SUBSCRIBED) st = Some ?st"
      using st(1) by (simp add: upd_flags_def upd_c_def upd_ac_def)
    have p1: "parts (D\<lparr>cl_sub := True\<rparr>) n ?ac (as_cells ?st) (as_mem ?st)" using st(2) by (simp add: parts_def)
    have e: "?cmd = (?pre @ bulk name) @ concat (map bulk args) @ NUL # slack" by (simp add: wire_eq)
    have lp: "length (?pre @ bulk name) + length (concat (map bulk args)) < 2 ^ 31" using len(1) by (simp add: wire_eq)
    obtain ac' m where r: "add_channels A (on_pattern name) cb ?cmd (length (?pre @ bulk name)) ?st = Some (?st\<lparr>as_ac := Some ac', as_mem := m\<rparr>)"
      "parts D' (n + length args) ac' (as_cells st) m" "ac_c ac' = ac_c ?ac" "ac_ev ac' = ac_ev ac"
      using add_channels_ok [OF _ p1 A lp len(2), of "on_pattern name" cb slack] d(2) unfolding e by auto
    have "open_flags ?w (cl_sub D')" using st(3) d(2) by (simp add: open_flags_def)
    then have "issued D' (n + length args) ac st (st\<lparr>as_ac := Some ac', as_cells := as_cells st, as_mem := m\<rparr>)"
      using r(2-4) by (intro issuedI [OF refl, where w = ?w]) simp_all
    then show ?thesis using reg True u r(1) d(1) by simp
  next
    case nosub: False
    show ?thesis
    proof (cases "base_name name = ''unsubscribe''")
      case True
      then have d: "rc = (if cl_sub D then REDIS_OK else REDIS_ERR)" "D' = D" using D' by (auto simp: issue_def)
      have "issued D (n + length args) ac st st"
        using st parts_more [OF st(2), of "n + length args"] by (intro issuedI [where ac' = ac and h = "as_cells st" and m = "as_mem st" and w = "c_flags (ac_c ac)"]) (simp_all add: same_ac)
      then show ?thesis using reg True nosub d by simp
    next
      case False
      then have d: "rc = REDIS_OK"
        "D' = (if cl_sub D then D\<lparr>cl_invalid := cl_invalid D @ [cb_of cb]\<rparr> else D\<lparr>cl_queue := cl_queue D @ [cb_of cb]\<rparr>)"
        using D' nosub by (simp_all add: issue_def split: if_splits)
      have "\<exists>q st'. push_cb (if cl_sub D then Invalid else Replies) cb st = Some (q, st') \<and> issued D' (n + length args) ac st st'"
        using push_replies_ok [OF st(1) parts_more [OF st(2)] st(3), of "n + length args" cb]
          push_invalid_ok [OF st(1) parts_more [OF st(2)] st(3), of "n + length args" cb] d(2) by auto
      then show ?thesis using reg False nosub d(1) by auto
    qed
  qed
qed

section \<open>Issuing a command\<close>

definition hooks_return :: "'s ast \<Rightarrow> bool" where
  "hooks_return st \<longleftrightarrow> (\<forall>ac g s. as_ac st = Some ac \<longrightarrow> ev_addWrite (ac_ev ac) = Some g \<longrightarrow> g s \<noteq> None)"

lemma has_flag_or: "has_flag w (set_flag f g) \<longleftrightarrow> has_flag w f \<or> has_flag w g"
  by (simp add: has_flag_def set_flag_def bit.conj_disj_distrib or_eq_0_iff)

lemma asyncCommand_ok:
  assumes "client_is b D n fs ty xs out st" "roomy A" "hooks_return st" "CR \<notin> set name" "base_name name \<noteq> ''monitor''"
    "length out + length (wire (name # args)) + 1 < 2 ^ 31" "n + length args \<le> 2 ^ 31"
    "issue (fn, pd) name args D = (rc, D')"
  shows "\<exists>st'. asyncCommand A S fn pd (wire (name # args) @ NUL # slack) (length (wire (name # args))) st = Some (rc, st') \<and>
    client_is b D' (n + length args) fs ty xs (if rc = REDIS_OK then out @ wire (name # args) else out) st'"
proof -
  obtain ac where ac: "as_ac st = Some ac" "link b (cl_sub D) (ac_c ac) (as_heap st) fs ty xs out"
    "parts D n ac (as_cells st) (as_mem st)" using assms(1) by (auto simp: client_is_def)
  have fl: "open_flags (c_flags (ac_c ac)) (cl_sub D)" using ac(2) by (simp add: link_def)
  have l: "length (wire (name # args)) < 2 ^ 31" using assms(6) by simp
  let ?cb = "\<lparr>cb_next = NULL, cb_fn = fn, cb_privdata = pd\<rparr>"
  obtain st1 where r: "register A ?cb (wire (name # args) @ NUL # slack) st = Some (rc, st1)" "issued D' (n + length args) ac st st1"
    using register_ok [OF ac(1,3) fl assms(2,4,5) l assms(7), of ?cb rc D' slack] assms(8) by auto
  obtain ac1 h m w where i: "st1 = st\<lparr>as_ac := Some ac1, as_cells := h, as_mem := m\<rparr>" "parts D' (n + length args) ac1 h m"
    "ac_c ac1 = (ac_c ac)\<lparr>c_flags := w\<rparr>" "ac_ev ac1 = ac_ev ac" "open_flags w (cl_sub D')"
    using r(2) by (auto simp: issued_def)
  have lk: "link b (cl_sub D') (ac_c ac1) (as_heap st) fs ty xs out" using ac(2) i(3,5) by (simp add: link_def)
  have nf: "\<not> has_flag (c_flags (ac_c ac)) (set_flag REDIS_DISCONNECTING REDIS_FREEING)"
    using fl by (simp add: has_flag_or flag_bits open_flags_def)
  show ?thesis
  proof (cases "rc = REDIS_ERR")
    case True
    then have "asyncCommand A S fn pd (wire (name # args) @ NUL # slack) (length (wire (name # args))) st = Some (rc, st1)"
      using ac(1) nf r(1) by (simp add: asyncCommand_def)
    moreover have "client_is b D' (n + length args) fs ty xs out st1" using i(1,2) lk by (simp add: client_is_def)
    ultimately show ?thesis using True by (simp add: redis_codes)
  next
    case False
    then have ok: "rc = REDIS_OK" using assms(8) by (auto simp: issue_def split: if_splits)
    obtain b0 where b0: "c_obuf (ac_c ac1) = Some b0" "sds_ok b0" "sdsstr b0 = out" using lk by (auto simp: link_def)
    have ol: "sdslen b0 = length out" using sdsb.len_str [OF b0(2)] b0(3) by simp
    obtain b1 where b1: "sdscatlen A b0 (wire (name # args) @ NUL # slack) (length (wire (name # args))) = Some b1" "sds_ok b1"
      "sdsstr b1 = out @ wire (name # args)"
      using sdscatlen_grows [OF b0(2) assms(2), of "length (wire (name # args))" "wire (name # args) @ NUL # slack"] ol b0(3) assms(6) by auto
    have ap: "appendCommand A S (ac_c ac1) (wire (name # args) @ NUL # slack) (length (wire (name # args))) =
        Some (REDIS_OK, (ac_c ac1)\<lparr>c_obuf := Some b1\<rparr>)" using b0(1) b1(1) by (simp add: appendCommand_def)
    let ?ac = "ac1\<lparr>ac_c := (ac_c ac1)\<lparr>c_obuf := Some b1\<rparr>\<rparr>"
    obtain wd where ev: "run_ev ev_addWrite (st1\<lparr>as_ac := Some ?ac\<rparr>) = Some (st1\<lparr>as_ac := Some ?ac, as_world := wd\<rparr>)"
    proof (cases "ev_addWrite (ac_ev ac)")
      case None
      then show ?thesis using i(4) that [of "as_world st1"] by (simp add: run_ev_def)
    next
      case (Some g)
      then obtain s where "g (snd (as_world st1)) = Some s" using assms(3) ac(1) unfolding hooks_return_def by blast
      then show ?thesis using i(4) Some that [of "(fst (as_world st1), s)"] by (simp add: run_ev_def)
    qed
    have "asyncCommand A S fn pd (wire (name # args) @ NUL # slack) (length (wire (name # args))) st =
        Some (rc, st1\<lparr>as_ac := Some ?ac, as_world := wd\<rparr>)"
      using ac(1) nf r(1) False ap ev i(1) ok by (simp add: asyncCommand_def)
    moreover have "client_is b D' (n + length args) fs ty xs (out @ wire (name # args)) (st1\<lparr>as_ac := Some ?ac, as_world := wd\<rparr>)"
      using lk i(1,2) b1 by (simp add: client_is_def link_def parts_def)
    ultimately show ?thesis using ok by simp
  qed
qed

text \<open>
  C20. Issuing a command refines the abstract client: redisAsyncCommandArgv appends the command
  to the output in its wire format and registers its callback, for SUBSCRIBE and PSUBSCRIBE
  in the map of channels or patterns under every name given, otherwise behind the pending
  callbacks; it refuses to unsubscribe a client without subscriptions. This holds for every
  command but MONITOR, for argument bytes of any value.
\<close>

theorem redisAsyncCommandArgv_issues:
  assumes "client_is b D n fs ty xs out st" "roomy A" "hooks_return st" "CR \<notin> set name" "base_name name \<noteq> ''monitor''"
    "args_are argv argvlen (name # args)" "length out + length (wire (name # args)) + 1 < 2 ^ 31" "n + length args \<le> 2 ^ 31"
    "issue (fn, pd) name args D = (rc, D')"
  shows "\<exists>st'. redisAsyncCommandArgv A S fn pd (int (length (name # args))) argv argvlen st = Some (rc, st') \<and>
    client_is b D' (n + length args) fs ty xs (if rc = REDIS_OK then out @ wire (name # args) else out) st'"
proof -
  obtain s where s: "redisFormatSdsCommandArgv A True (int (length (name # args))) argv argvlen = Some (int (length (wire (name # args))), Some s)"
    "sds_ok s" "sdsstr s = wire (name # args)"
    using redisFormatSdsCommandArgv_ok [OF assms(6) refl _ assms(2)] assms(7) by auto
  have l: "sdslen s = length (wire (name # args))" using length_sdsstr [OF s(2)] s(3) by simp
  have "length (wire (name # args)) < length (buf s)" "buf s ! length (wire (name # args)) = NUL"
    "take (length (wire (name # args))) (buf s) = wire (name # args)"
    using sds_okD(1-3) [OF s(2)] l s(3) by (simp_all add: sdsstr_def)
  then have b: "buf s = wire (name # args) @ NUL # drop (Suc (length (wire (name # args)))) (buf s)"
    by (metis id_take_nth_drop)
  have z: "to_size (int (length (wire (name # args)))) = length (wire (name # args))" using assms(7) by (simp add: to_size_id)
  show ?thesis
    using asyncCommand_ok [OF assms(1-5,7-9), of S "drop (Suc (length (wire (name # args)))) (buf s)", folded b] s(1) z
    by (simp add: redisAsyncCommandArgv_def)
qed

theorem redisAsyncCommandArgv_issues_witness:
  "\<exists>st. \<forall>S. \<exists>st' D'. redisAsyncCommandArgv heap0 S 5 6 2 [''SUBSCRIBE'', ''news''] (Some [9, 4]) (st :: call list ast) = Some (REDIS_OK, st') \<and>
     client_is Map.empty D' 1 [] (- 1) [] (wire [''SUBSCRIBE'', ''news'']) st' \<and> cl_sub D' \<and> cl_channels D' = [''news'' \<mapsto> (5, 6)]"
proof -
  obtain st :: "call list ast" where st: "client_is Map.empty (idle_client [] False) 0 [] (- 1) [] [] st"
    "\<forall>ac. as_ac st = Some ac \<longrightarrow> sample ac" using client_exists [of "[]" "[]" False] by auto
  have h: "hooks_return st" using st(2) by (simp add: hooks_return_def no_hooks_def sample_def)
  have a: "args_are [''SUBSCRIBE'', ''news''] (Some [9, 4]) [''SUBSCRIBE'', ''news'']"
    by (auto simp: args_are_def arg_len_def less_Suc_eq)
  have w: "length (wire [''SUBSCRIBE'', ''news'']) = 29" by (simp add: wire_eq bulk_eq decimal.simps)
  have bn: "base_name ''SUBSCRIBE'' = ''subscribe''" "\<not> on_pattern ''SUBSCRIBE''"
    by code_simp+
  have i: "issue (5, 6) ''SUBSCRIBE'' [''news''] (idle_client [] False) =
      (REDIS_OK, subscribe False (5, 6) ''news'' ((idle_client [] False)\<lparr>cl_sub := True\<rparr>))"
    using bn by (simp add: issue_def)
  have "CR \<notin> set ''SUBSCRIBE''" by (simp add: CR_def)
  note r = redisAsyncCommandArgv_issues [OF st(1) roomy_heap0 h this _ a _ _ i]
  have "\<exists>st' D'. redisAsyncCommandArgv heap0 S 5 6 2 [''SUBSCRIBE'', ''news''] (Some [9, 4]) st = Some (REDIS_OK, st') \<and>
     client_is Map.empty D' 1 [] (- 1) [] (wire [''SUBSCRIBE'', ''news'']) st' \<and> cl_sub D' \<and> cl_channels D' = [''news'' \<mapsto> (5, 6)]" for S
    using r [of S] bn w by (fastforce simp: subscribe_def set_map_def cl_map_def idle_client_def)
  then show ?thesis by blast
qed

end
