(* ===== verification/Release.thy ===== *)
theory Release
  imports Commands
begin

text \<open>
  The end of an asynchronous context: freeing it runs every pending callback exactly once with
  NULL, closes the socket and frees what belongs to it, whether the user or an error of the
  connection ends it.
\<close>

section \<open>Callbacks without a reply\<close>

definition null_calls :: "(ptr \<Rightarrow> redisReply option) \<Rightarrow> cb list \<Rightarrow> call list" where
  "null_calls m xs = map (\<lambda>x. Reply_call (fst x) NULL (snd x) m) (filter (\<lambda>x. fst x \<noteq> NULL) xs)"

lemma null_calls_simps [simp]:
  "null_calls m [] = []"
  "null_calls m (x # xs) = (if fst x \<noteq> NULL then [Reply_call (fst x) NULL (snd x) m] else []) @ null_calls m xs"
  "null_calls m (xs @ ys) = null_calls m xs @ null_calls m ys"
  by (simp_all add: null_calls_def)

lemma run_null:
  assumes "watches U log frees" "as_ac st = Some ac" "\<not> bit (c_flags (ac_c ac)) 4"
  shows "\<exists>w. redisRunCallback U cb NULL st = Some (st\<lparr>as_world := w\<rparr>) \<and>
    log (snd w) = call_log log st @ null_calls (objs (as_heap st)) [cb_of cb]"
proof (cases "cb_fn cb = NULL")
  case True
  then show ?thesis by (intro exI [of _ "as_world st"]) (simp add: redisRunCallback_def call_log_def)
next
  case False
  let ?ac = "ac\<lparr>ac_c := (ac_c ac)\<lparr>c_flags := set_flag (c_flags (ac_c ac)) REDIS_IN_CALLBACK\<rparr>\<rparr>"
  let ?st = "st\<lparr>as_ac := Some ?ac\<rparr>"
  have "(if frees (cb_fn cb) \<and> NULL \<noteq> NULL then freeReplyObject NULL (as_heap ?st) else Some (as_heap ?st)) = Some (as_heap st)"
    by simp
  then obtain w where w: "u_reply U (cb_fn cb) NULL (cb_privdata cb) ?st = Some (?st\<lparr>as_heap := as_heap st, as_world := w\<rparr>)"
    "log (snd w) = log (snd (as_world ?st)) @ [Reply_call (cb_fn cb) NULL (cb_privdata cb) (objs (as_heap ?st))]"
    using assms(1) unfolding watches_def by blast
  have "redisRunCallback U cb NULL st = Some (st\<lparr>as_ac := Some ac, as_world := w\<rparr>)"
    using assms(2) False w(1) set_clear_flag [OF assms(3)]
    by (simp add: redisRunCallback_def upd_flags_def upd_c_def upd_ac_def)
  moreover have "st\<lparr>as_ac := Some ac, as_world := w\<rparr> = st\<lparr>as_world := w\<rparr>" using same_ac [OF assms(2)] by simp
  ultimately show ?thesis using w(2) False by (intro exI [of _ w]) (simp add: call_log_def)
qed

text \<open>Running a list of callbacks empties it.\<close>

fun opposite :: "which \<Rightarrow> which" where
  "opposite Replies = Invalid"
| "opposite Invalid = Replies"

lemma cbs_simps [simp]:
  "get_cbs k (set_cbs k l ac) = l" "get_cbs (opposite k) (set_cbs k l ac) = get_cbs (opposite k) ac"
  "ac_c (set_cbs k l ac) = ac_c ac" "set_cbs k l (set_cbs k l' ac) = set_cbs k l ac"
  by (cases k; simp add: get_cbs_def set_cbs_def)+

lemma drain_cbs_ok:
  assumes "watches U log frees" "as_ac st = Some ac" "\<not> bit (c_flags (ac_c ac)) 4"
    "queues (get_cbs k ac) (get_cbs (opposite k) ac) (as_cells st) q i"
  shows "\<exists>l h w. drain_cbs U k st = Some (st\<lparr>as_ac := Some (set_cbs k l ac), as_cells := h, as_world := w\<rparr>) \<and>
    queues l (get_cbs (opposite k) ac) h [] i \<and> log (snd w) = call_log log st @ null_calls (objs (as_heap st)) q"
  using assms
proof (induction q arbitrary: st ac)
  case Nil
  have e: "redisShiftCallback (get_cbs k ac) (as_cells st) = Some (REDIS_ERR, None, get_cbs k ac, as_cells st)"
    by (rule queues_shift_empty [OF Nil.prems(4)])
  have "set_cbs k (get_cbs k ac) ac = ac" by (cases k) (simp_all add: get_cbs_def set_cbs_def)
  moreover have "st\<lparr>as_ac := Some ac, as_cells := as_cells st, as_world := as_world st\<rparr> = st"
    using Nil.prems(2) by (cases st) simp
  ultimately show ?case
    using e Nil.prems(2,4)
    by (intro exI [of _ "get_cbs k ac"] exI [of _ "as_cells st"] exI [of _ "as_world st"])
      (subst drain_cbs.simps, simp add: shift_cb_def redis_codes call_log_def same_ac)
next
  case (Cons x q)
  obtain c l h where s: "redisShiftCallback (get_cbs k ac) (as_cells st) = Some (REDIS_OK, Some c, l, h)" "cb_of c = x"
    "queues l (get_cbs (opposite k) ac) h q i" using queues_shift [OF Cons.prems(4)] by blast
  let ?ac = "set_cbs k l ac" and ?st = "st\<lparr>as_ac := Some (set_cbs k l ac), as_cells := h\<rparr>"
  obtain w where w: "redisRunCallback U c NULL ?st = Some (?st\<lparr>as_world := w\<rparr>)"
    "log (snd w) = call_log log st @ null_calls (objs (as_heap st)) [x]"
    using run_null [OF Cons.prems(1), of ?st ?ac c] Cons.prems(3) s(2) by (auto simp: call_log_def)
  have d: "drain_cbs U k st = drain_cbs U k (?st\<lparr>as_world := w\<rparr>)"
    using s(1) Cons.prems(2) w(1) by (subst drain_cbs.simps) (simp add: shift_cb_def)
  show ?case
    using Cons.IH [OF Cons.prems(1), of "?st\<lparr>as_world := w\<rparr>" ?ac] Cons.prems(3) s(3) w(2) unfolding d by (simp add: call_log_def)
qed

text \<open>The callbacks of a dictionary, in the order of its iterator.\<close>

lemma run_entries_ok:
  assumes "watches U log frees" "as_ac st = Some ac" "\<not> bit (c_flags (ac_c ac)) 4" "get_dict pv ac = Some ht"
    "dict_entries ht it = Some es"
  shows "\<exists>w. run_entries U pv it st = Some (st\<lparr>as_world := w\<rparr>) \<and>
    log (snd w) = call_log log st @ null_calls (objs (as_heap st)) (map (\<lambda>e. cb_of (de_val e)) es)"
  using assms
proof (induction es arbitrary: it st)
  case Nil
  then obtain it' where "dictNext ht it = Some (None, it')"
    by (subst (asm) dict_entries.simps) (auto split: Option.bind_splits option.splits)
  then show ?case
    using Nil.prems(2,4) by (intro exI [of _ "as_world st"]) (subst run_entries.simps, simp add: call_log_def)
next
  case (Cons e es)
  then obtain it' where n: "dictNext ht it = Some (Some e, it')" "dict_entries ht it' = Some es"
    by (subst (asm) dict_entries.simps) (auto split: Option.bind_splits option.splits)
  obtain w where w: "redisRunCallback U (de_val e) NULL st = Some (st\<lparr>as_world := w\<rparr>)"
    "log (snd w) = call_log log st @ null_calls (objs (as_heap st)) [cb_of (de_val e)]"
    using run_null [OF Cons.prems(1-3)] by blast
  have "run_entries U pv it st = run_entries U pv it' (st\<lparr>as_world := w\<rparr>)"
    using n(1) w(1) Cons.prems(2,4) by (subst run_entries.simps) simp
  then show ?case
    using Cons.IH [OF Cons.prems(1), of "st\<lparr>as_world := w\<rparr>" it'] Cons.prems(2-4) n(2) w(2) by (auto simp: call_log_def)
qed

lemma free_entry_good:
  assumes "table_of callbackDict NULL ht" "mem_good m"
  shows "mem_good (free_entry ht e m)"
  using assms
  by (auto simp: mem_good_def free_entry_def dictFreeEntryVal_def dictFreeEntryKey_def table_of_def callbackDict_def
      callbackKeyDestructor_def callbackValDestructor_def cbmem_good_def)

lemma dictRelease_good:
  assumes "table_of callbackDict NULL ht" "mem_good m"
  shows "\<exists>m'. dictRelease ht m = Some m' \<and> mem_good m'"
proof -
  have "mem_good (fold (free_entry ht) es m)" for es
    using assms(2) free_entry_good [OF assms(1)] by (induction es arbitrary: m) auto
  then show ?thesis using dictClear_ok [of ht m] assms(1) by (simp add: dictRelease_def table_of_def)
qed

text \<open>The tables of a context are small enough to iterate over.\<close>

definition small_tables :: "'s actx \<Rightarrow> bool" where
  "small_tables ac \<longleftrightarrow> (\<forall>pv ht. get_dict pv ac = Some ht \<longrightarrow> d_size ht < 2 ^ 31)"

lemma free_dict_ok:
  assumes "watches U log frees" "as_ac st = Some ac" "\<not> bit (c_flags (ac_c ac)) 4" "subs (get_dict pv ac) (as_mem st) F n"
    "small_tables ac"
  shows "\<exists>ht es m w. get_dict pv ac = Some ht \<and> mset es = ents ht \<and> mem_good m \<and>
    free_dict U pv st = Some (st\<lparr>as_ac := Some (set_dict pv None ac), as_mem := m, as_world := w\<rparr>) \<and>
    log (snd w) = call_log log st @ null_calls (objs (as_heap st)) (map (\<lambda>e. cb_of (de_val e)) es)"
proof -
  obtain ht M where d: "get_dict pv ac = Some ht" "dict_rep callbackDict NULL cbmem_good (ht, as_mem st) M n"
    using assms(4) by (auto simp: subs_def)
  have t: "table_of callbackDict NULL ht" "mem_good (as_mem st)" using d(2) by (auto simp: dict_rep_def mem_good_def)
  let ?m = "(as_mem st)\<lparr>dm_requests := Suc (dm_requests (as_mem st))\<rparr>" and ?it = "\<lparr>it_index = - 1, it_entry = None, it_nextEntry = []\<rparr> :: (sds, redisCallback) dictIterator"
  have i: "dictGetIterator (as_mem st) = Some (?it, ?m)" using t(2) by (simp add: dictGetIterator_def dm_malloc_def mem_good_def)
  obtain es where es: "dict_entries ht ?it = Some es" "mset es = ents ht"
    using dict_entries_ok [of ht "[]"] t(1) d(1) assms(5) by (auto simp: table_of_def small_tables_def)
  obtain w where w: "run_entries U pv ?it (st\<lparr>as_mem := ?m\<rparr>) = Some (st\<lparr>as_mem := ?m, as_world := w\<rparr>)"
    "log (snd w) = call_log log st @ null_calls (objs (as_heap st)) (map (\<lambda>e. cb_of (de_val e)) es)"
    using run_entries_ok [OF assms(1) _ assms(3) d(1) es(1), of "st\<lparr>as_mem := ?m\<rparr>"] assms(2) by (auto simp: call_log_def)
  have "mem_good ?m" using t(2) by (simp add: mem_good_def)
  then obtain m' where m': "dictRelease ht ?m = Some m'" "mem_good m'" using dictRelease_good [OF t(1)] by blast
  have "free_dict U pv st = Some (st\<lparr>as_ac := Some (set_dict pv None ac), as_mem := m', as_world := w\<rparr>)"
    using i w(1) assms(2) d(1) m'(1) by (simp add: free_dict_def)
  then show ?thesis using d(1) es(2) m'(2) w(2) by blast
qed

section \<open>The commands that wait\<close>

text \<open>The list of commands, if there is one, with its nodes \<open>cmds\<close>; every command is its own block.\<close>

definition commands_are :: "ptr \<Rightarrow> unit lheap \<Rightarrow> ptr set \<Rightarrow> (ptr \<times> ptr) list \<Rightarrow> bool" where
  "commands_are l h tasks cmds \<longleftrightarrow>
     (if l = NULL then cmds = []
      else lheap_ok h \<and> (\<exists>L. list_is h l L cmds) \<and> length cmds < 2 ^ 64 \<and> distinct (map snd cmds) \<and> snd ` set cmds \<subseteq> tasks - {NULL})"

lemma free_cmds_ok:
  assumes "lheap_ok (as_lists st)" "list_is (as_lists st) l L cmds" "length cmds < 2 ^ 64" "distinct (map snd cmds)"
    "snd ` set cmds \<subseteq> as_tasks st - {NULL}"
  shows "\<exists>h. free_cmds l (fstp cmds NULL) st = Some (st\<lparr>as_lists := h, as_tasks := as_tasks st - snd ` set cmds\<rparr>) \<and>
    lheap_ok h \<and> list_is h l L []"
  using assms
proof (induction cmds arbitrary: st)
  case Nil
  then show ?case by (intro exI [of _ "as_lists st"]) (subst free_cmds.simps, simp)
next
  case (Cons x cmds)
  obtain a v where x: "x = (a, v)" by (cases x)
  have n: "lh_nodes (as_lists st) a = Some \<lparr>ln_prev = NULL, ln_next = fstp cmds NULL, ln_value = v\<rparr>" "a \<noteq> NULL"
    using Cons.prems(2) by (auto simp: x list_is_def)
  obtain h where h: "listDelNode l a (as_lists st) = Some h" "lheap_ok h" "list_is h l L cmds"
    using listDelNode_ok [of "as_lists st" l L "[]" a v cmds] Cons.prems(1-3) by (auto simp: x removed_def)
  have v: "v \<noteq> NULL" "v \<in> as_tasks st" using Cons.prems(5) by (auto simp: x)
  let ?st = "st\<lparr>as_tasks := as_tasks st - {v}, as_lists := h\<rparr>"
  have s: "free_cmds l (fstp (x # cmds) NULL) st = free_cmds l (fstp cmds NULL) ?st"
    using n h(1) v by (subst free_cmds.simps) (simp add: x free_task_def)
  have "snd ` set cmds \<subseteq> as_tasks ?st - {NULL}" using Cons.prems(4,5) by (force simp: x)
  from Cons.IH [of ?st, OF _ _ _ _ this] obtain h' where
    "free_cmds l (fstp cmds NULL) ?st = Some (?st\<lparr>as_lists := h', as_tasks := as_tasks ?st - snd ` set cmds\<rparr>)" "lheap_ok h'" "list_is h' l L []"
    using h(2,3) Cons.prems(3,4) by auto
  moreover have "as_tasks st - {v} - snd ` set cmds = as_tasks st - snd ` set (x # cmds)" by (auto simp: x)
  ultimately show ?case unfolding s by (intro exI [of _ h']) simp
qed

lemma free_cmd_list_ok:
  assumes "as_ac st = Some ac" "commands_are (ac_cmd_list ac) (as_lists st) (as_tasks st) cmds"
  shows "\<exists>h. free_cmd_list st =
    Some (st\<lparr>as_ac := Some (ac\<lparr>ac_cmd_list := NULL\<rparr>), as_lists := h, as_tasks := as_tasks st - snd ` set cmds\<rparr>)"
proof (cases "ac_cmd_list ac = NULL")
  case True
  then have "cmds = []" "ac\<lparr>ac_cmd_list := NULL\<rparr> = ac" using assms(2) by (simp_all add: commands_are_def)
  moreover have "st\<lparr>as_ac := Some ac, as_lists := as_lists st, as_tasks := as_tasks st\<rparr> = st" using assms(1) by (cases st) simp
  ultimately show ?thesis using True assms(1) by (intro exI [of _ "as_lists st"]) (simp add: free_cmd_list_def)
next
  case False
  then obtain L where L: "lheap_ok (as_lists st)" "list_is (as_lists st) (ac_cmd_list ac) L cmds" "length cmds < 2 ^ 64"
    "distinct (map snd cmds)" "snd ` set cmds \<subseteq> as_tasks st - {NULL}" using assms(2) by (auto simp: commands_are_def)
  obtain h where h: "free_cmds (ac_cmd_list ac) (fstp cmds NULL) st = Some (st\<lparr>as_lists := h, as_tasks := as_tasks st - snd ` set cmds\<rparr>)"
    "lheap_ok h" "list_is h (ac_cmd_list ac) L []" using free_cmds_ok [OF L] by blast
  obtain h' where "listRelease (ac_cmd_list ac) h = Some h'" using listRelease_ok [OF h(2,3)] by blast
  then show ?thesis using False assms(1) list_isD(1) [OF L(2)] h(1) by (intro exI [of _ h']) (simp add: free_cmd_list_def)
qed

section \<open>Closing\<close>

text \<open>The disconnect callback, with the status the code computes.\<close>

definition farewell :: "'s actx \<Rightarrow> call list" where
  "farewell ac =
     (if ac_onDisconnect ac \<noteq> NULL \<and> has_flag (c_flags (ac_c ac)) REDIS_CONNECTED
      then [Status_call (ac_onDisconnect ac)
              (if has_flag (c_flags (ac_c ac)) REDIS_FREEING then REDIS_OK else if ac_err ac = 0 then REDIS_OK else REDIS_ERR)]
      else [])"

text \<open>Closing a socket and the clean-up of the event library do not call the user.\<close>

definition silent :: "('s \<Rightarrow> call list) \<Rightarrow> 's sys \<Rightarrow> 's actx \<Rightarrow> bool" where
  "silent log S ac \<longleftrightarrow> (\<forall>fd s. log (sys_close S fd s) = log s) \<and>
     (\<forall>g s. ev_cleanup (ac_ev ac) = Some g \<longrightarrow> (\<exists>s'. g s = Some s' \<and> log s' = log s))"

lemma cleanup_ok:
  assumes "as_ac st = Some ac" "silent log S ac"
  shows "\<exists>w. run_ev ev_cleanup st = Some (st\<lparr>as_world := w\<rparr>) \<and> log (snd w) = call_log log st"
proof (cases "ev_cleanup (ac_ev ac)")
  case None
  then show ?thesis using assms(1) by (intro exI [of _ "as_world st"]) (simp add: run_ev_def call_log_def)
next
  case (Some g)
  then obtain s' where "g (snd (as_world st)) = Some s'" "log s' = log (snd (as_world st))" using assms(2) unfolding silent_def by blast
  then show ?thesis using assms(1) Some by (intro exI [of _ "(fst (as_world st), s')"]) (simp add: run_ev_def call_log_def)
qed

lemma async_close_ok:
  assumes "watches U log frees" "as_ac st = Some ac" "silent log S ac"
    "commands_are (ac_cmd_list ac) (as_lists st) (as_tasks st) cmds" "c_reader (ac_c ac) = Some r" "reading b r (as_heap st) fs ty xs"
  shows "\<exists>st'. async_close U S st = Some st' \<and> as_ac st' = None \<and> objs (as_heap st') = b \<and>
    as_tasks st' = as_tasks st - snd ` set cmds \<and> call_log log st' = call_log log st @ farewell ac"
proof -
  obtain w1 where 1: "run_ev ev_cleanup st = Some (st\<lparr>as_world := w1\<rparr>)" "log (snd w1) = call_log log st"
    using cleanup_ok [OF assms(2,3)] by blast
  let ?st1 = "st\<lparr>as_world := w1\<rparr>"
  let ?rc = "if has_flag (c_flags (ac_c ac)) REDIS_FREEING then REDIS_OK else if ac_err ac = 0 then REDIS_OK else REDIS_ERR"
  have "\<exists>w2. (if ac_onDisconnect ac \<noteq> NULL \<and> has_flag (c_flags (ac_c ac)) REDIS_CONNECTED
      then u_status U (ac_onDisconnect ac) ?rc ?st1 else Some ?st1) = Some (st\<lparr>as_world := w2\<rparr>) \<and>
      log (snd w2) = call_log log st @ farewell ac"
  proof (cases "ac_onDisconnect ac \<noteq> NULL \<and> has_flag (c_flags (ac_c ac)) REDIS_CONNECTED")
    case True
    obtain w2 where "u_status U (ac_onDisconnect ac) ?rc ?st1 = Some (?st1\<lparr>as_world := w2\<rparr>)"
      "log (snd w2) = log (snd (as_world ?st1)) @ [Status_call (ac_onDisconnect ac) ?rc]"
      using assms(1) unfolding watches_def by blast
    then show ?thesis using True 1(2) by (intro exI [of _ w2]) (simp add: farewell_def)
  next
    case False
    then show ?thesis using 1(2) by (intro exI [of _ w1]) (auto simp: farewell_def)
  qed
  then obtain w2 where 2: "(if ac_onDisconnect ac \<noteq> NULL \<and> has_flag (c_flags (ac_c ac)) REDIS_CONNECTED
      then u_status U (ac_onDisconnect ac) ?rc ?st1 else Some ?st1) = Some (st\<lparr>as_world := w2\<rparr>)"
      "log (snd w2) = call_log log st @ farewell ac" by blast
  let ?st2 = "st\<lparr>as_world := w2\<rparr>"
  obtain l where 3: "free_cmd_list ?st2 = Some (?st2\<lparr>as_ac := Some (ac\<lparr>ac_cmd_list := NULL\<rparr>), as_lists := l, as_tasks := as_tasks st - snd ` set cmds\<rparr>)"
    using free_cmd_list_ok [of ?st2 ac cmds] assms(2,4) by auto
  obtain h where h: "redisReaderFree r (as_heap st) = Some h" "objs h = b" using redisReaderFree_ok [OF assms(6)] by blast
  let ?s = "if c_fd (ac_c ac) > 0 then sys_close S (c_fd (ac_c ac)) (snd w2) else snd w2"
  have 4: "redisFree S (Some (ac_c ac)) (as_heap st) (snd w2) = Some (h, ?s)"
    using assms(5) h(1) by (simp add: redisFree_def)
  have 5: "log ?s = call_log log st @ farewell ac" using 2(2) assms(3) by (simp add: silent_def)
  show ?thesis
    using 1(1) 2(1) 3 4 5 assms(2) h(2) by (simp add: async_close_def call_log_def Let_def)
qed

text \<open>A context that can be freed: not from inside a callback.\<close>

definition releasable ::
    "(ptr \<Rightarrow> redisReply option) \<Rightarrow> client \<Rightarrow> nat \<Rightarrow> (ptr \<times> ptr) list \<Rightarrow> ('s \<Rightarrow> call list) \<Rightarrow> 's sys \<Rightarrow> 's actx \<Rightarrow> 's ast \<Rightarrow> bool" where
  "releasable b D n cmds log S ac st \<longleftrightarrow>
     as_ac st = Some ac \<and> \<not> has_flag (c_flags (ac_c ac)) REDIS_IN_CALLBACK \<and> parts D n ac (as_cells st) (as_mem st) \<and>
     small_tables ac \<and> silent log S ac \<and> commands_are (ac_cmd_list ac) (as_lists st) (as_tasks st) cmds \<and>
     (\<exists>r fs ty xs. c_reader (ac_c ac) = Some r \<and> reading b r (as_heap st) fs ty xs)"

text \<open>Everything that waits: the pending commands, the invalid ones, the channels and the patterns.\<close>

definition waiting :: "client \<Rightarrow> 's actx \<Rightarrow> cb list \<Rightarrow> bool" where
  "waiting D ac xs \<longleftrightarrow>
     (\<exists>chs pats es fs. ac_channels ac = Some chs \<and> ac_patterns ac = Some pats \<and> mset es = ents chs \<and> mset fs = ents pats \<and>
        xs = cl_queue D @ cl_invalid D @ map (\<lambda>e. cb_of (de_val e)) (es @ fs))"

lemma asyncFree_ok:
  assumes "releasable b D n cmds log S ac st" "watches U log frees"
  shows "\<exists>st' xs. asyncFree U S st = Some st' \<and> as_ac st' = None \<and> objs (as_heap st') = b \<and>
    as_tasks st' = as_tasks st - snd ` set cmds \<and> waiting D ac xs \<and>
    call_log log st' = call_log log st @ null_calls (objs (as_heap st)) xs @ farewell ac"
proof -
  obtain r fs ty xs where R: "as_ac st = Some ac" "\<not> bit (c_flags (ac_c ac)) 4" "parts D n ac (as_cells st) (as_mem st)"
     "small_tables ac" "silent log S ac" "commands_are (ac_cmd_list ac) (as_lists st) (as_tasks st) cmds"
     "c_reader (ac_c ac) = Some r" "reading b r (as_heap st) fs ty xs"
    using assms(1) by (auto simp: releasable_def flag_bits)
  have q: "queues (get_cbs Replies ac) (get_cbs (opposite Replies) ac) (as_cells st) (cl_queue D) (cl_invalid D)"
    using R(3) by (simp add: parts_def get_cbs_def)
  obtain l1 h1 w1 where 1: "drain_cbs U Replies st = Some (st\<lparr>as_ac := Some (set_cbs Replies l1 ac), as_cells := h1, as_world := w1\<rparr>)"
    "queues l1 (get_cbs Invalid ac) h1 [] (cl_invalid D)" "log (snd w1) = call_log log st @ null_calls (objs (as_heap st)) (cl_queue D)"
    using drain_cbs_ok [OF assms(2) R(1,2) q] by auto
  let ?ac1 = "set_cbs Replies l1 ac"
  let ?st1 = "st\<lparr>as_ac := Some ?ac1, as_cells := h1, as_world := w1\<rparr>"
  have "queues (get_cbs Invalid ?ac1) (get_cbs (opposite Invalid) ?ac1) (as_cells ?st1) (cl_invalid D) []"
    using 1(2) queues_swap by (simp add: get_cbs_def set_cbs_def)
  from drain_cbs_ok [OF assms(2) _ _ this] obtain l2 h2 w2 where
    2: "drain_cbs U Invalid ?st1 = Some (?st1\<lparr>as_ac := Some (set_cbs Invalid l2 ?ac1), as_cells := h2, as_world := w2\<rparr>)"
    "log (snd w2) = call_log log ?st1 @ null_calls (objs (as_heap st)) (cl_invalid D)" using R(2) by auto
  let ?ac2 = "set_cbs Invalid l2 ?ac1"
  let ?st2 = "?st1\<lparr>as_ac := Some ?ac2, as_cells := h2, as_world := w2\<rparr>"
  have gd: "get_dict pv ?ac2 = get_dict pv ac" for pv by (simp add: set_cbs_def get_dict_def)
  have sm: "small_tables ?ac2" "\<not> bit (c_flags (ac_c ?ac2)) 4" using R(2,4) gd by (simp_all add: small_tables_def)
  have sub: "subs (get_dict False ?ac2) (as_mem ?st2) (cl_channels D) n" using R(3) gd [of False] by (simp add: parts_def get_dict_def)
  have "as_ac ?st2 = Some ?ac2" by simp
  from free_dict_ok [OF assms(2) this sm(2) sub sm(1)] obtain chs es m3 w3 where
    3: "get_dict False ?ac2 = Some chs" "mset es = ents chs" "mem_good m3"
    "free_dict U False ?st2 = Some (?st2\<lparr>as_ac := Some (set_dict False None ?ac2), as_mem := m3, as_world := w3\<rparr>)"
    "log (snd w3) = call_log log ?st2 @ null_calls (objs (as_heap ?st2)) (map (\<lambda>e. cb_of (de_val e)) es)" by blast
  let ?ac3 = "set_dict False None ?ac2"
  let ?st3 = "?st2\<lparr>as_ac := Some ?ac3, as_mem := m3, as_world := w3\<rparr>"
  have p: "subs (get_dict True ?ac3) m3 (cl_patterns D) n"
    using subs_mem [OF R(3) [unfolded parts_def, THEN conjunct2, THEN conjunct2] 3(3) le_refl] gd [of True]
    by (simp add: get_dict_def set_dict_def set_cbs_def)
  have sm3: "small_tables ?ac3" "\<not> bit (c_flags (ac_c ?ac3)) 4"
    using sm by (auto simp: small_tables_def get_dict_def set_dict_def split: if_splits)
  have "as_ac ?st3 = Some ?ac3" "subs (get_dict True ?ac3) (as_mem ?st3) (cl_patterns D) n" using p by simp_all
  from free_dict_ok [OF assms(2) this(1) sm3(2) this(2) sm3(1)] obtain pats es' m4 w4 where
    4: "get_dict True ?ac3 = Some pats" "mset es' = ents pats" "mem_good m4"
    "free_dict U True ?st3 = Some (?st3\<lparr>as_ac := Some (set_dict True None ?ac3), as_mem := m4, as_world := w4\<rparr>)"
    "log (snd w4) = call_log log ?st3 @ null_calls (objs (as_heap ?st3)) (map (\<lambda>e. cb_of (de_val e)) es')" by blast
  let ?ac4 = "set_dict True None ?ac3"
  let ?st4 = "?st3\<lparr>as_ac := Some ?ac4, as_mem := m4, as_world := w4\<rparr>"
  have a4: "ac_c ?ac4 = ac_c ac" "ac_ev ?ac4 = ac_ev ac" "ac_cmd_list ?ac4 = ac_cmd_list ac" "farewell ?ac4 = farewell ac"
    by (simp_all add: set_dict_def set_cbs_def farewell_def)
  obtain st' where 5: "async_close U S ?st4 = Some st'" "as_ac st' = None" "objs (as_heap st') = b"
    "as_tasks st' = as_tasks ?st4 - snd ` set cmds" "call_log log st' = call_log log ?st4 @ farewell ac"
    using async_close_ok [OF assms(2), of ?st4 ?ac4 S cmds r b fs ty xs] R(5-8) a4 by (auto simp: silent_def)
  have ch: "ac_channels ?ac2 = Some chs" "ac_patterns ?ac3 = Some pats" "ac_channels ac = Some chs" "ac_patterns ac = Some pats"
    using 3(1) 4(1) by (simp_all add: get_dict_def set_cbs_def set_dict_def)
  have "asyncFree U S st = Some st'"
    using 1(1) 2(1) 3(4) 4(4) 5(1) ch(1,2) by (simp add: asyncFree_def)
  moreover have "call_log log st' = call_log log st @
      null_calls (objs (as_heap st)) (cl_queue D @ cl_invalid D @ map (\<lambda>e. cb_of (de_val e)) (es @ es')) @ farewell ac"
    using 1(3) 2(2) 3(5) 4(5) 5(5) by (simp add: call_log_def)
  moreover have "waiting D ac (cl_queue D @ cl_invalid D @ map (\<lambda>e. cb_of (de_val e)) (es @ es'))"
    using 3(2) 4(2) ch(3,4) unfolding waiting_def by blast
  ultimately show ?thesis using 5(2-4) by auto
qed

lemma releasable_cong:
  assumes "releasable b D n cmds log S ac st" "as_ac st' = Some ac'" "as_heap st' = as_heap st" "as_cells st' = as_cells st"
    "as_mem st' = as_mem st" "as_lists st' = as_lists st" "as_tasks st' = as_tasks st"
    "ac' = ac\<lparr>ac_err := e, ac_errstr := es, ac_c := c\<rparr>" "c_reader c = c_reader (ac_c ac)"
    "\<not> has_flag (c_flags c) REDIS_IN_CALLBACK"
  shows "releasable b D n cmds log S ac' st'" "waiting D ac' xs = waiting D ac xs"
proof -
  have "get_dict pv ac' = get_dict pv ac" for pv using assms(8) by (simp add: get_dict_def)
  then have "small_tables ac' = small_tables ac" by (simp add: small_tables_def)
  then show "releasable b D n cmds log S ac' st'" "waiting D ac' xs = waiting D ac xs"
    using assms by (simp_all add: releasable_def parts_def silent_def waiting_def)
qed

text \<open>
  C21. redisAsyncFree outside a callback ends a context completely: every pending command's
  callback, every callback of an invalid command and every subscription's callback is called
  exactly once with NULL, the pending commands in order; then the disconnect callback gets
  REDIS_OK if the context was connected; the commands that wait in the list are freed, the
  replies that belong to others are not touched, and the context is gone.
\<close>

theorem redisAsyncFree_releases:
  assumes "releasable b D n cmds log S ac st" "watches U log frees"
  shows "\<exists>st' xs. redisAsyncFree U S st = Some st' \<and> as_ac st' = None \<and> objs (as_heap st') = b \<and>
    as_tasks st' = as_tasks st - snd ` set cmds \<and> waiting D ac xs \<and>
    call_log log st' = call_log log st @ null_calls (objs (as_heap st)) xs @
      (if ac_onDisconnect ac \<noteq> NULL \<and> has_flag (c_flags (ac_c ac)) REDIS_CONNECTED
       then [Status_call (ac_onDisconnect ac) REDIS_OK] else [])"
proof -
  let ?c = "(ac_c ac)\<lparr>c_flags := set_flag (c_flags (ac_c ac)) REDIS_FREEING\<rparr>"
  let ?ac = "ac\<lparr>ac_err := ac_err ac, ac_errstr := ac_errstr ac, ac_c := ?c\<rparr>"
  let ?st = "st\<lparr>as_ac := Some ?ac\<rparr>"
  have ac: "as_ac st = Some ac" "\<not> has_flag (c_flags (ac_c ac)) REDIS_IN_CALLBACK" using assms(1) by (simp_all add: releasable_def)
  have f: "\<not> has_flag (c_flags ?c) REDIS_IN_CALLBACK" "has_flag (c_flags ?c) REDIS_FREEING"
    "has_flag (c_flags ?c) REDIS_CONNECTED = has_flag (c_flags (ac_c ac)) REDIS_CONNECTED"
    using ac(2) by (simp_all add: flag_bits)
  have e: "redisAsyncFree U S st = asyncFree U S ?st"
    using ac(1) f(1) by (simp add: redisAsyncFree_def upd_flags_def upd_c_def upd_ac_def)
  have rel: "releasable b D n cmds log S ?ac ?st" and wt: "waiting D ?ac xs = waiting D ac xs" for xs
    by (rule releasable_cong [OF assms(1) _ _ _ _ _ _ refl _ f(1), of ?st]; simp)+
  have fw: "farewell ?ac = (if ac_onDisconnect ac \<noteq> NULL \<and> has_flag (c_flags (ac_c ac)) REDIS_CONNECTED
       then [Status_call (ac_onDisconnect ac) REDIS_OK] else [])" using f(2,3) by (simp add: farewell_def)
  have sm: "call_log log ?st = call_log log st" "as_heap ?st = as_heap st" "as_tasks ?st = as_tasks st" by (simp_all add: call_log_def)
  show ?thesis unfolding e using asyncFree_ok [OF rel assms(2)] unfolding wt fw sm .
qed

text \<open>A system for the witnesses whose sockets are closed by the other side.\<close>

definition closed_sys :: "'s sys" where
  "closed_sys =
     \<lparr>sys_read = \<lambda>fd n s. (Inr [], s), sys_write = \<lambda>fd xs s. (Inr (length xs), s), sys_close = \<lambda>fd s. s,
      sys_socket = \<lambda>f s. (Inr 3, s), sys_setsockopt = \<lambda>fd x s. (Inr (), s), sys_so_error = \<lambda>fd s. (Inr 0, s),
      sys_getfl = \<lambda>fd s. (Inr 0, s), sys_setfl = \<lambda>fd f s. (Inr (), s),
      sys_getaddrinfo = \<lambda>h p f s. (Inr [], s), sys_bind = \<lambda>fd a s. (Inr (), s),
      sys_connect = \<lambda>fd a s. (Inr (), s), sys_poll = \<lambda>fd t s. (Inr 1, s),
      sys_strerror = \<lambda>e. [], sys_gai_strerror = \<lambda>e. []\<rparr>"

lemma releasable_exists:
  "\<exists>st ac. releasable Map.empty (idle_client [(5, 6)] False) 0 [] id closed_sys ac st \<and> snd (as_world st) = [] \<and> sample ac \<and>
    open_flags (c_flags (ac_c ac)) False \<and> c_err (ac_c ac) = 0 \<and> length (c_errstr (ac_c ac)) = ERRSTR_SIZE"
proof -
  obtain st :: "call list ast" where st: "client_is Map.empty (idle_client [(5, 6)] False) 0 [] (- 1) [] [] st"
    "snd (as_world st) = []" "\<forall>ac. as_ac st = Some ac \<longrightarrow> sample ac"
    using client_exists [of "[]" "[(5, 6)]" False] by auto
  obtain ac where ac: "as_ac st = Some ac" "link Map.empty False (ac_c ac) (as_heap st) [] (- 1) [] []"
    "parts (idle_client [(5, 6)] False) 0 ac (as_cells st) (as_mem st)" using st(1) by (auto simp: client_is_def idle_client_def)
  have s: "sample ac" using st(3) ac(1) by blast
  have "small_tables ac" using s by (auto simp: small_tables_def get_dict_def sample_def dictInit_def)
  moreover have "silent id closed_sys ac" using s by (simp add: silent_def closed_sys_def sample_def no_hooks_def)
  ultimately have "releasable Map.empty (idle_client [(5, 6)] False) 0 [] id closed_sys ac st"
    using ac s by (auto simp: releasable_def link_def open_flags_def flag_bits commands_are_def sample_def)
  then show ?thesis using st(2) s ac(2) unfolding link_def by blast
qed

lemma waiting_sample: "sample ac \<Longrightarrow> waiting (idle_client q False) ac xs \<longleftrightarrow> xs = q"
  by (auto simp: waiting_def sample_def idle_client_def dictInit_def ents_def)

theorem redisAsyncFree_releases_witness:
  "\<exists>st st'. redisAsyncFree (watcher (\<lambda>_. True)) closed_sys st = Some st' \<and> as_ac st' = None \<and>
     (\<exists>m. snd (as_world st') = [Reply_call 5 NULL 6 m, Status_call 9 REDIS_OK])"
proof -
  obtain st ac where st: "releasable Map.empty (idle_client [(5, 6)] False) 0 [] id closed_sys ac st" "snd (as_world st) = []" "sample ac"
    using releasable_exists by blast
  from redisAsyncFree_releases [OF st(1) watcher_watches] waiting_sample [OF st(3)] st(2,3) show ?thesis
    by (fastforce simp: call_log_def sample_def)
qed

text \<open>
  C22. When the server closes the connection, the read handler ends the context in the same way,
  and the disconnect callback gets REDIS_ERR: no pending callback is lost.
\<close>

theorem redisAsyncHandleRead_closed:
  assumes "releasable b D n cmds log S ac st" "watches U log frees" "has_flag (c_flags (ac_c ac)) REDIS_CONNECTED"
    "\<not> has_flag (c_flags (ac_c ac)) REDIS_FREEING" "c_err (ac_c ac) = 0" "length (c_errstr (ac_c ac)) = ERRSTR_SIZE"
    "sys_read S (c_fd (ac_c ac)) READ_SIZE (snd (as_world st)) = (Inr [], s)" "log s = call_log log st"
  shows "\<exists>st' xs. redisAsyncHandleRead A U S st = Some st' \<and> as_ac st' = None \<and> objs (as_heap st') = b \<and>
    as_tasks st' = as_tasks st - snd ` set cmds \<and> waiting D ac xs \<and>
    call_log log st' = call_log log st @ null_calls (objs (as_heap st)) xs @
      (if ac_onDisconnect ac \<noteq> NULL then [Status_call (ac_onDisconnect ac) REDIS_ERR] else [])"
proof -
  have ac: "as_ac st = Some ac" "\<not> has_flag (c_flags (ac_c ac)) REDIS_IN_CALLBACK" using assms(1) by (simp_all add: releasable_def)
  obtain c where c: "fail_with S (ac_c ac) REDIS_ERR_EOF ''Server closed the connection'' = Some c" "c_err c = REDIS_ERR_EOF"
    "c_reader c = c_reader (ac_c ac)" "c_flags c = c_flags (ac_c ac)"
    using redisSetError_total [of "Some (''Server closed the connection'' @ [NUL])"] redisSetError_ok [OF _ assms(6)]
    unfolding fail_with_def by blast
  let ?c = "c\<lparr>c_flags := set_flag (c_flags c) REDIS_DISCONNECTING\<rparr>"
  let ?ac = "ac\<lparr>ac_err := REDIS_ERR_EOF, ac_errstr := True, ac_c := ?c\<rparr>"
  let ?st = "st\<lparr>as_world := (fst (as_world st), s), as_ac := Some ?ac\<rparr>"
  have f: "\<not> has_flag (c_flags ?c) REDIS_IN_CALLBACK" "\<not> has_flag (c_flags ?c) REDIS_FREEING" "has_flag (c_flags ?c) REDIS_CONNECTED"
    using ac(2) assms(3,4) c(4) by (simp_all add: flag_bits)
  have e: "redisAsyncHandleRead A U S st = asyncFree U S ?st"
    using ac(1) assms(3,5,7) c(1,2)
    by (simp add: redisAsyncHandleRead_def ensure_connected_def redisBufferRead_def asyncDisconnect_def redisAsyncCopyError_def
        upd_flags_def upd_c_def upd_ac_def redis_codes)
  have rel: "releasable b D n cmds log S ?ac ?st" and wt: "waiting D ?ac xs = waiting D ac xs" for xs
    by (rule releasable_cong [OF assms(1) _ _ _ _ _ _ refl _ f(1), of ?st]; simp add: c(3))+
  have fw: "farewell ?ac = (if ac_onDisconnect ac \<noteq> NULL then [Status_call (ac_onDisconnect ac) REDIS_ERR] else [])"
    using f(2,3) by (simp add: farewell_def redis_codes)
  have sm: "call_log log ?st = call_log log st" "as_heap ?st = as_heap st" "as_tasks ?st = as_tasks st"
    using assms(8) by (simp_all add: call_log_def)
  show ?thesis unfolding e using asyncFree_ok [OF rel assms(2)] unfolding wt fw sm .
qed

theorem redisAsyncHandleRead_closed_witness:
  "\<exists>st st'. redisAsyncHandleRead heap0 (watcher (\<lambda>_. True)) closed_sys st = Some st' \<and> as_ac st' = None \<and>
     (\<exists>m. snd (as_world st') = [Reply_call 5 NULL 6 m, Status_call 9 REDIS_ERR])"
proof -
  obtain st ac where st: "releasable Map.empty (idle_client [(5, 6)] False) 0 [] id closed_sys ac st" "snd (as_world st) = []" "sample ac"
    "open_flags (c_flags (ac_c ac)) False" "c_err (ac_c ac) = 0" "length (c_errstr (ac_c ac)) = ERRSTR_SIZE"
    using releasable_exists by blast
  have "\<not> has_flag (c_flags (ac_c ac)) REDIS_FREEING" "has_flag (c_flags (ac_c ac)) REDIS_CONNECTED"
    using st(3,4) by (simp_all add: sample_def flag_bits open_flags_def)
  moreover have "sys_read closed_sys (c_fd (ac_c ac)) READ_SIZE (snd (as_world st)) = (Inr [], snd (as_world st))"
    by (simp add: closed_sys_def)
  ultimately show ?thesis
    using redisAsyncHandleRead_closed [OF st(1) watcher_watches [of "\<lambda>_. True"], where s = "snd (as_world st)" and A = heap0] waiting_sample [OF st(3)] st(2,3,5,6)
    by (fastforce simp: call_log_def sample_def)
qed

end
