(* ===== verification/Ae.thy ===== *)
theory Ae
  imports Net
begin

text \<open>
  ae.c and ae_epoll.c: the event loop, with file events in a vector indexed by descriptor and
  time events in a linked list on the heap. The handlers of the user are a parameter; they
  work on the whole state, so they may add and delete events while the loop walks over them.
  The clock, \<^verbatim>\<open>epoll\<close> and \<^verbatim>\<open>poll\<close> are the system. Sums of \<^verbatim>\<open>long\<close> are written with their
  wrap-around. A pointer into the vector of file events dangles once the vector was moved, so
  the loop carries the number of the request that made the vector.
\<close>

section \<open>The state\<close>

definition AE_OK :: int where "AE_OK = 0"
definition AE_ERR :: int where "AE_ERR = - 1"
definition AE_NONE :: "32 word" where "AE_NONE = 0"
definition AE_READABLE :: "32 word" where "AE_READABLE = 1"
definition AE_WRITABLE :: "32 word" where "AE_WRITABLE = 2"
definition AE_FILE_EVENTS :: "32 word" where "AE_FILE_EVENTS = 1"
definition AE_TIME_EVENTS :: "32 word" where "AE_TIME_EVENTS = 2"
definition AE_ALL_EVENTS :: "32 word" where "AE_ALL_EVENTS = AE_FILE_EVENTS OR AE_TIME_EVENTS"
definition AE_DONT_WAIT :: "32 word" where "AE_DONT_WAIT = 4"
definition AE_CALL_AFTER_SLEEP :: "32 word" where "AE_CALL_AFTER_SLEEP = 8"
definition AE_NOMORE :: int where "AE_NOMORE = - 1"
definition AE_DELETED_EVENT_ID :: int where "AE_DELETED_EVENT_ID = - 1"

definition EPOLLIN :: "32 word" where "EPOLLIN = 0x001"
definition EPOLLOUT :: "32 word" where "EPOLLOUT = 0x004"
definition EPOLLERR :: "32 word" where "EPOLLERR = 0x008"
definition EPOLLHUP :: "32 word" where "EPOLLHUP = 0x010"
definition ERANGE :: int where "ERANGE = 34"

record aeFileEvent =
  fe_mask :: "32 word"
  fe_rfileProc :: ptr
  fe_wfileProc :: ptr
  fe_clientData :: ptr

record aeTimeEvent =
  te_id :: int
  te_when_sec :: int
  te_when_ms :: int
  te_timeProc :: ptr
  te_finalizerProc :: ptr
  te_clientData :: ptr
  te_next :: ptr

record aeApiState =
  api_epfd :: int
  api_size :: nat

record aeEventLoop =
  el_maxfd :: int
  el_setsize :: int
  el_timeEventNextId :: int
  el_lastTime :: int
  el_events :: "aeFileEvent list"
  el_vector :: nat
  el_fired :: "(int \<times> 32 word) list"
  el_timeEventHead :: ptr
  el_stop :: bool
  el_apidata :: aeApiState
  el_beforesleep :: ptr
  el_aftersleep :: ptr

text \<open>
  The loop, unless it was deleted, the time events on the heap, the answers of the allocator
  with what a fresh file event holds, and the system with \<^verbatim>\<open>errno\<close>.
\<close>

record 's aes =
  ae_loop :: "aeEventLoop option"
  ae_times :: "ptr \<rightharpoonup> aeTimeEvent"
  ae_fresh :: ptr
  ae_requests :: nat
  ae_grants :: "nat \<Rightarrow> bool"
  ae_junk :: aeFileEvent
  ae_world :: "'s world"

datatype ctl = EPOLL_CTL_ADD | EPOLL_CTL_MOD | EPOLL_CTL_DEL

record 's esys =
  es_epoll_create :: "'s \<Rightarrow> (int + int) \<times> 's"
  es_epoll_ctl :: "int \<Rightarrow> ctl \<Rightarrow> int \<Rightarrow> 32 word \<Rightarrow> 's \<Rightarrow> (int + unit) \<times> 's"
  es_epoll_wait :: "int \<Rightarrow> int \<Rightarrow> int \<Rightarrow> 's \<Rightarrow> (int + (int \<times> 32 word) list) \<times> 's"
  es_close :: "int \<Rightarrow> 's \<Rightarrow> 's"
  es_gettimeofday :: "'s \<Rightarrow> timeval \<times> 's"
  es_time :: "'s \<Rightarrow> int \<times> 's"
  es_poll :: "int \<Rightarrow> 32 word \<Rightarrow> int \<Rightarrow> 's \<Rightarrow> (int + nat \<times> 32 word) \<times> 's"

record 's procs =
  pr_file :: "ptr \<Rightarrow> int \<Rightarrow> ptr \<Rightarrow> 32 word \<Rightarrow> 's aes \<Rightarrow> 's aes option"
  pr_time :: "ptr \<Rightarrow> int \<Rightarrow> ptr \<Rightarrow> 's aes \<Rightarrow> (int \<times> 's aes) option"
  pr_finalizer :: "ptr \<Rightarrow> ptr \<Rightarrow> 's aes \<Rightarrow> 's aes option"
  pr_sleep :: "ptr \<Rightarrow> 's aes \<Rightarrow> 's aes option"

definition ae_malloc :: "'s aes \<Rightarrow> bool \<times> 's aes" where
  "ae_malloc st = (ae_grants st (ae_requests st), st\<lparr>ae_requests := ae_requests st + 1\<rparr>)"

text \<open>A system call; one that fails sets \<^verbatim>\<open>errno\<close>.\<close>

definition ae_call :: "('s \<Rightarrow> (int + 'a) \<times> 's) \<Rightarrow> 's aes \<Rightarrow> 'a option \<times> 's aes" where
  "ae_call f st =
     (case f (snd (ae_world st)) of
        (Inl e, s) \<Rightarrow> (None, st\<lparr>ae_world := (e, s)\<rparr>)
      | (Inr x, s) \<Rightarrow> (Some x, st\<lparr>ae_world := (fst (ae_world st), s)\<rparr>))"

definition upd_loop :: "(aeEventLoop \<Rightarrow> aeEventLoop) \<Rightarrow> 's aes \<Rightarrow> 's aes option" where
  "upd_loop f st = do { l \<leftarrow> ae_loop st; Some (st\<lparr>ae_loop := Some (f l)\<rparr>) }"

definition upd_time :: "ptr \<Rightarrow> (aeTimeEvent \<Rightarrow> aeTimeEvent) \<Rightarrow> 's aes \<Rightarrow> 's aes option" where
  "upd_time p f st = do { t \<leftarrow> ae_times st p; Some (st\<lparr>ae_times := (ae_times st)(p \<mapsto> f t)\<rparr>) }"

text \<open>\<^verbatim>\<open>eventLoop->events[fd]\<close>; outside the vector it is a fault.\<close>

definition ev_at :: "aeEventLoop \<Rightarrow> int \<Rightarrow> aeFileEvent option" where
  "ev_at l fd = (if 0 \<le> fd \<and> nat fd < length (el_events l) then Some (el_events l ! nat fd) else None)"

definition set_ev :: "int \<Rightarrow> aeFileEvent \<Rightarrow> aeEventLoop \<Rightarrow> aeEventLoop" where
  "set_ev fd fe l = l\<lparr>el_events := (el_events l)[nat fd := fe]\<rparr>"

section \<open>The polling interface\<close>

definition aeApiCreate :: "'s esys \<Rightarrow> int \<Rightarrow> 's aes \<Rightarrow> aeApiState option \<times> 's aes" where
  "aeApiCreate E setsize st =
     (let (ok, st) = ae_malloc st
      in if \<not> ok then (None, st)
         else let (ok, st) = ae_malloc st
              in if \<not> ok then (None, st)
                 else case ae_call (es_epoll_create E) st of
                        (None, st) \<Rightarrow> (None, st)
                      | (Some fd, st) \<Rightarrow> (Some \<lparr>api_epfd = fd, api_size = nat setsize\<rparr>, st))"

text \<open>The result of the \<^verbatim>\<open>realloc\<close> is not looked at; a vector that is gone has no elements here.\<close>

definition aeApiResize :: "int \<Rightarrow> 's aes \<Rightarrow> 's aes option" where
  "aeApiResize setsize st =
     (let (ok, st) = ae_malloc st
      in upd_loop (\<lambda>l. l\<lparr>el_apidata := (el_apidata l)\<lparr>api_size := if ok then nat setsize else 0\<rparr>\<rparr>) st)"

definition aeApiFree :: "'s esys \<Rightarrow> 's aes \<Rightarrow> 's aes option" where
  "aeApiFree E st =
     do { l \<leftarrow> ae_loop st;
          Some (st\<lparr>ae_world := (fst (ae_world st), es_close E (api_epfd (el_apidata l)) (snd (ae_world st)))\<rparr>) }"

definition epoll_mask :: "32 word \<Rightarrow> 32 word" where
  "epoll_mask msk =
     (if msk AND AE_READABLE \<noteq> 0 then EPOLLIN else 0) OR (if msk AND AE_WRITABLE \<noteq> 0 then EPOLLOUT else 0)"

definition aeApiAddEvent :: "'s esys \<Rightarrow> int \<Rightarrow> 32 word \<Rightarrow> 's aes \<Rightarrow> (int \<times> 's aes) option" where
  "aeApiAddEvent E fd msk st =
     do {
       l \<leftarrow> ae_loop st;
       fe \<leftarrow> ev_at l fd;
       let op = (if fe_mask fe = AE_NONE then EPOLL_CTL_ADD else EPOLL_CTL_MOD);
       let (r, st) = ae_call (es_epoll_ctl E (api_epfd (el_apidata l)) op fd (epoll_mask (msk OR fe_mask fe))) st;
       Some (if r = None then - 1 else 0, st)
     }"

definition aeApiDelEvent :: "'s esys \<Rightarrow> int \<Rightarrow> 32 word \<Rightarrow> 's aes \<Rightarrow> 's aes option" where
  "aeApiDelEvent E fd delmask st =
     do {
       l \<leftarrow> ae_loop st;
       fe \<leftarrow> ev_at l fd;
       let msk = fe_mask fe AND NOT delmask;
       let op = (if msk \<noteq> AE_NONE then EPOLL_CTL_MOD else EPOLL_CTL_DEL);
       Some (snd (ae_call (es_epoll_ctl E (api_epfd (el_apidata l)) op fd (epoll_mask msk)) st))
     }"

definition fired_mask :: "32 word \<Rightarrow> 32 word" where
  "fired_mask e =
     (if e AND EPOLLIN \<noteq> 0 then AE_READABLE else 0) OR (if e AND EPOLLOUT \<noteq> 0 then AE_WRITABLE else 0) OR
     (if e AND EPOLLERR \<noteq> 0 then AE_WRITABLE else 0) OR (if e AND EPOLLHUP \<noteq> 0 then AE_WRITABLE else 0)"

text \<open>
  \<^verbatim>\<open>aeApiPoll\<close> with the time to wait, forever if it is \<open>None\<close>. The timeout is passed as an
  \<^verbatim>\<open>int\<close>. More results than were asked for, or than the vectors hold, are a fault.
\<close>

definition aeApiPoll :: "'s esys \<Rightarrow> timeval option \<Rightarrow> 's aes \<Rightarrow> (nat \<times> 's aes) option" where
  "aeApiPoll E tvp st =
     do {
       l \<leftarrow> ae_loop st;
       let timeout = (case tvp of Some tv \<Rightarrow> s32 (s64 (s64 (tv_sec tv * 1000) + tv_usec tv sdiv 1000)) | None \<Rightarrow> - 1);
       let (r, st) = ae_call (es_epoll_wait E (api_epfd (el_apidata l)) (el_setsize l) timeout) st;
       case r of
         None \<Rightarrow> Some (0, st)
       | Some es \<Rightarrow>
           if length es \<le> api_size (el_apidata l) \<and> length es \<le> length (el_fired l)
           then Some (length es, st\<lparr>ae_loop :=
                  Some (l\<lparr>el_fired := map (\<lambda>(fd, e). (fd, fired_mask e)) es @ drop (length es) (el_fired l)\<rparr>)\<rparr>)
           else None
     }"

definition aeApiName :: string where "aeApiName = ''epoll''"

section \<open>Making a loop\<close>

definition aeCreateEventLoop :: "'s esys \<Rightarrow> int \<Rightarrow> 's aes \<Rightarrow> bool \<times> 's aes" where
  "aeCreateEventLoop E setsize st =
     (let (ok, st) = ae_malloc st; vec = ae_requests st
      in if \<not> ok then (False, st)
         else let (ok1, st) = ae_malloc st; (ok2, st) = ae_malloc st
              in if \<not> ok1 \<or> \<not> ok2 then (False, st)
                 else let (now, s) = es_time E (snd (ae_world st));
                          (api, st) = aeApiCreate E setsize (st\<lparr>ae_world := (fst (ae_world st), s)\<rparr>)
                      in case api of
                           None \<Rightarrow> (False, st)
                         | Some api \<Rightarrow>
                             (True, st\<lparr>ae_loop := Some
                                \<lparr>el_maxfd = - 1, el_setsize = setsize, el_timeEventNextId = 0, el_lastTime = now,
                                 el_events = replicate (nat setsize) ((ae_junk st)\<lparr>fe_mask := AE_NONE\<rparr>), el_vector = vec,
                                 el_fired = replicate (nat setsize) (0, 0), el_timeEventHead = NULL, el_stop = False,
                                 el_apidata = api, el_beforesleep = NULL, el_aftersleep = NULL\<rparr>\<rparr>))"

definition aeGetSetSize :: "'s aes \<Rightarrow> int option" where
  "aeGetSetSize st = do { l \<leftarrow> ae_loop st; Some (el_setsize l) }"

text \<open>The loop that clears the masks from \<open>i\<close> on.\<close>

fun clear_masks :: "nat \<Rightarrow> nat \<Rightarrow> aeFileEvent list \<Rightarrow> aeFileEvent list option" where
  "clear_masks i 0 es = Some es"
| "clear_masks i (Suc k) es =
     (if i < length es then clear_masks (i + 1) k (es[i := (es ! i)\<lparr>fe_mask := AE_NONE\<rparr>]) else None)"

definition aeResizeSetSize :: "int \<Rightarrow> 's aes \<Rightarrow> (int \<times> 's aes) option" where
  "aeResizeSetSize setsize st =
     do {
       l \<leftarrow> ae_loop st;
       if setsize = el_setsize l then Some (AE_OK, st)
       else if el_maxfd l \<ge> setsize then Some (AE_ERR, st)
       else do {
         st \<leftarrow> aeApiResize setsize st;
         let vec = ae_requests st;
         let (ok1, st) = ae_malloc st;
         let (ok2, st) = ae_malloc st;
         l \<leftarrow> ae_loop st;
         let n = nat setsize;
         let es = (if ok1 then take n (el_events l) @ replicate (n - length (el_events l)) (ae_junk st) else []);
         let fs = (if ok2 then take n (el_fired l) @ replicate (n - length (el_fired l)) (0, 0) else []);
         es \<leftarrow> clear_masks (nat (el_maxfd l + 1)) (n - nat (el_maxfd l + 1)) es;
         Some (AE_OK, st\<lparr>ae_loop := Some (l\<lparr>el_events := es, el_vector := vec, el_fired := fs, el_setsize := setsize\<rparr>)\<rparr>)
       }
     }"

text \<open>Deleting a loop frees its vectors; the time events stay where they are.\<close>

definition aeDeleteEventLoop :: "'s esys \<Rightarrow> 's aes \<Rightarrow> 's aes option" where
  "aeDeleteEventLoop E st = do { st \<leftarrow> aeApiFree E st; Some (st\<lparr>ae_loop := None\<rparr>) }"

definition aeStop :: "'s aes \<Rightarrow> 's aes option" where
  "aeStop = upd_loop (\<lambda>l. l\<lparr>el_stop := True\<rparr>)"

section \<open>File events\<close>

definition aeCreateFileEvent :: "'s esys \<Rightarrow> int \<Rightarrow> 32 word \<Rightarrow> ptr \<Rightarrow> ptr \<Rightarrow> 's aes \<Rightarrow> (int \<times> 's aes) option" where
  "aeCreateFileEvent E fd msk proc clientData st =
     do {
       l \<leftarrow> ae_loop st;
       if fd \<ge> el_setsize l then Some (AE_ERR, st\<lparr>ae_world := (ERANGE, snd (ae_world st))\<rparr>)
       else do {
         (rc, st) \<leftarrow> aeApiAddEvent E fd msk st;
         if rc = - 1 then Some (AE_ERR, st)
         else do {
           fe \<leftarrow> ev_at l fd;
           let fe = fe\<lparr>fe_mask := fe_mask fe OR msk\<rparr>;
           let fe = (if msk AND AE_READABLE \<noteq> 0 then fe\<lparr>fe_rfileProc := proc\<rparr> else fe);
           let fe = (if msk AND AE_WRITABLE \<noteq> 0 then fe\<lparr>fe_wfileProc := proc\<rparr> else fe);
           let fe = fe\<lparr>fe_clientData := clientData\<rparr>;
           let l = set_ev fd fe l;
           let l = (if fd > el_maxfd l then l\<lparr>el_maxfd := fd\<rparr> else l);
           Some (AE_OK, st\<lparr>ae_loop := Some l\<rparr>)
         }
       }
     }"

text \<open>The highest used descriptor below \<open>k\<close>.\<close>

fun last_used :: "aeFileEvent list \<Rightarrow> nat \<Rightarrow> int" where
  "last_used es 0 = - 1"
| "last_used es (Suc j) = (if fe_mask (es ! j) \<noteq> AE_NONE then int j else last_used es j)"

definition aeDeleteFileEvent :: "'s esys \<Rightarrow> int \<Rightarrow> 32 word \<Rightarrow> 's aes \<Rightarrow> 's aes option" where
  "aeDeleteFileEvent E fd msk st =
     do {
       l \<leftarrow> ae_loop st;
       if fd \<ge> el_setsize l then Some st
       else do {
         fe \<leftarrow> ev_at l fd;
         if fe_mask fe = AE_NONE then Some st
         else do {
           st \<leftarrow> aeApiDelEvent E fd msk st;
           let fe = fe\<lparr>fe_mask := fe_mask fe AND NOT msk\<rparr>;
           let l = set_ev fd fe l;
           let l = (if fd = el_maxfd l \<and> fe_mask fe = AE_NONE
                    then l\<lparr>el_maxfd := last_used (el_events l) (nat (el_maxfd l))\<rparr> else l);
           Some (st\<lparr>ae_loop := Some l\<rparr>)
         }
       }
     }"

definition aeGetFileEvents :: "int \<Rightarrow> 's aes \<Rightarrow> 32 word option" where
  "aeGetFileEvents fd st =
     do { l \<leftarrow> ae_loop st; if fd \<ge> el_setsize l then Some 0 else do { fe \<leftarrow> ev_at l fd; Some (fe_mask fe) } }"

section \<open>Time events\<close>

definition aeGetTime :: "'s esys \<Rightarrow> 's aes \<Rightarrow> (int \<times> int) \<times> 's aes" where
  "aeGetTime E st =
     (let (tv, s) = es_gettimeofday E (snd (ae_world st))
      in ((tv_sec tv, tv_usec tv sdiv 1000), st\<lparr>ae_world := (fst (ae_world st), s)\<rparr>))"

definition aeAddMillisecondsToNow :: "'s esys \<Rightarrow> int \<Rightarrow> 's aes \<Rightarrow> (int \<times> int) \<times> 's aes" where
  "aeAddMillisecondsToNow E milliseconds st =
     (let ((cur_sec, cur_ms), st) = aeGetTime E st;
          when_sec = s64 (cur_sec + milliseconds sdiv 1000);
          when_ms = s64 (cur_ms + milliseconds smod 1000)
      in (if when_ms \<ge> 1000 then (s64 (when_sec + 1), when_ms - 1000) else (when_sec, when_ms), st))"

definition aeCreateTimeEvent :: "'s esys \<Rightarrow> int \<Rightarrow> ptr \<Rightarrow> ptr \<Rightarrow> ptr \<Rightarrow> 's aes \<Rightarrow> (int \<times> 's aes) option" where
  "aeCreateTimeEvent E milliseconds proc clientData finalizerProc st =
     do {
       l \<leftarrow> ae_loop st;
       let id = el_timeEventNextId l;
       let st = st\<lparr>ae_loop := Some (l\<lparr>el_timeEventNextId := s64 (id + 1)\<rparr>)\<rparr>;
       let (ok, st) = ae_malloc st;
       if \<not> ok then Some (AE_ERR, st)
       else do {
         let te = ae_fresh st;
         let ((sec, ms), st) = aeAddMillisecondsToNow E milliseconds st;
         let t = \<lparr>te_id = id, te_when_sec = sec, te_when_ms = ms, te_timeProc = proc,
                  te_finalizerProc = finalizerProc, te_clientData = clientData, te_next = el_timeEventHead l\<rparr>;
         st \<leftarrow> upd_loop (\<lambda>l. l\<lparr>el_timeEventHead := te\<rparr>) (st\<lparr>ae_times := (ae_times st)(te \<mapsto> t), ae_fresh := te + 1\<rparr>);
         Some (id, st)
       }
     }"

partial_function (option) delete_time_loop :: "int \<Rightarrow> ptr \<Rightarrow> 's aes \<Rightarrow> (int \<times> 's aes) option" where
  "delete_time_loop ident te st =
     (if te = NULL then Some (AE_ERR, st)
      else do {
        t \<leftarrow> ae_times st te;
        if te_id t = ident
        then do { st \<leftarrow> upd_time te (\<lambda>t. t\<lparr>te_id := AE_DELETED_EVENT_ID\<rparr>) st; Some (AE_OK, st) }
        else delete_time_loop ident (te_next t) st
      })"

definition aeDeleteTimeEvent :: "int \<Rightarrow> 's aes \<Rightarrow> (int \<times> 's aes) option" where
  "aeDeleteTimeEvent ident st = do { l \<leftarrow> ae_loop st; delete_time_loop ident (el_timeEventHead l) st }"

text \<open>Whether the first event is due before the second.\<close>

definition earlier :: "aeTimeEvent \<Rightarrow> aeTimeEvent \<Rightarrow> bool" where
  "earlier t n \<longleftrightarrow>
     te_when_sec t < te_when_sec n \<or> te_when_sec t = te_when_sec n \<and> te_when_ms t < te_when_ms n"

partial_function (option) nearest_loop :: "(ptr \<rightharpoonup> aeTimeEvent) \<Rightarrow> ptr \<Rightarrow> ptr \<Rightarrow> ptr option" where
  "nearest_loop h te nearest =
     (if te = NULL then Some nearest
      else do {
        t \<leftarrow> h te;
        if nearest = NULL then nearest_loop h (te_next t) te
        else do {
          n \<leftarrow> h nearest;
          nearest_loop h (te_next t) (if earlier t n then te else nearest)
        }
      })"

definition aeSearchNearestTimer :: "'s aes \<Rightarrow> ptr option" where
  "aeSearchNearestTimer st = do { l \<leftarrow> ae_loop st; nearest_loop (ae_times st) (el_timeEventHead l) NULL }"

text \<open>After the clock went back, every event is due.\<close>

partial_function (option) reset_times :: "ptr \<Rightarrow> 's aes \<Rightarrow> 's aes option" where
  "reset_times te st =
     (if te = NULL then Some st
      else do {
        st \<leftarrow> upd_time te (\<lambda>t. t\<lparr>te_when_sec := 0\<rparr>) st;
        t \<leftarrow> ae_times st te;
        reset_times (te_next t) st
      })"

text \<open>
  Taking an event that was marked out of the list: the predecessor or the head is relinked, the
  finalizer runs, the event is freed.
\<close>

definition drop_time :: "'s procs \<Rightarrow> ptr \<Rightarrow> ptr \<Rightarrow> aeTimeEvent \<Rightarrow> 's aes \<Rightarrow> 's aes option" where
  "drop_time P prev te t st =
     do {
       st \<leftarrow> (if prev = NULL then upd_loop (\<lambda>l. l\<lparr>el_timeEventHead := te_next t\<rparr>) st
              else upd_time prev (\<lambda>p. p\<lparr>te_next := te_next t\<rparr>) st);
       t \<leftarrow> ae_times st te;
       st \<leftarrow> (if te_finalizerProc t \<noteq> NULL then pr_finalizer P (te_finalizerProc t) (te_clientData t) st else Some st);
       if ae_times st te = None then None else Some (st\<lparr>ae_times := (ae_times st)(te := None)\<rparr>)
     }"

text \<open>Firing an event that is due; its handler says when it is due again, or that it is not.\<close>

definition fire_time :: "'s esys \<Rightarrow> 's procs \<Rightarrow> ptr \<Rightarrow> aeTimeEvent \<Rightarrow> 's aes \<Rightarrow> 's aes option" where
  "fire_time E P te t st =
     do {
       (retval, st) \<leftarrow> pr_time P (te_timeProc t) (te_id t) (te_clientData t) st;
       if retval \<noteq> AE_NOMORE
       then (let ((sec, ms), st) = aeAddMillisecondsToNow E retval st
             in upd_time te (\<lambda>t. t\<lparr>te_when_sec := sec, te_when_ms := ms\<rparr>) st)
       else upd_time te (\<lambda>t. t\<lparr>te_id := AE_DELETED_EVENT_ID\<rparr>) st
     }"

partial_function (option) time_loop ::
    "'s esys \<Rightarrow> 's procs \<Rightarrow> int \<Rightarrow> ptr \<Rightarrow> ptr \<Rightarrow> int \<Rightarrow> 's aes \<Rightarrow> (int \<times> 's aes) option" where
  "time_loop E P maxId prev te processed st =
     (if te = NULL then Some (processed, st)
      else do {
        t \<leftarrow> ae_times st te;
        if te_id t = AE_DELETED_EVENT_ID
        then do { st \<leftarrow> drop_time P prev te t st; time_loop E P maxId prev (te_next t) processed st }
        else if te_id t > maxId then time_loop E P maxId prev (te_next t) processed st
        else do {
          let ((now_sec, now_ms), st) = aeGetTime E st;
          (processed, st) \<leftarrow>
            (if now_sec > te_when_sec t \<or> now_sec = te_when_sec t \<and> now_ms \<ge> te_when_ms t
             then do { st \<leftarrow> fire_time E P te t st; Some (s32 (processed + 1), st) }
             else Some (processed, st));
          t \<leftarrow> ae_times st te;
          time_loop E P maxId te (te_next t) processed st
        }
      })"

definition processTimeEvents :: "'s esys \<Rightarrow> 's procs \<Rightarrow> 's aes \<Rightarrow> (int \<times> 's aes) option" where
  "processTimeEvents E P st =
     do {
       let (now, s) = es_time E (snd (ae_world st));
       let st = st\<lparr>ae_world := (fst (ae_world st), s)\<rparr>;
       l \<leftarrow> ae_loop st;
       st \<leftarrow> (if now < el_lastTime l then reset_times (el_timeEventHead l) st else Some st);
       st \<leftarrow> upd_loop (\<lambda>l. l\<lparr>el_lastTime := now\<rparr>) st;
       l \<leftarrow> ae_loop st;
       time_loop E P (s64 (el_timeEventNextId l - 1)) NULL (el_timeEventHead l) 0 st
     }"

section \<open>One round\<close>

text \<open>
  \<^verbatim>\<open>fe\<close> points into the vector the round began with: reading it after a handler moved the
  vector is a fault.
\<close>

definition same_vector :: "nat \<Rightarrow> 's aes \<Rightarrow> int \<Rightarrow> aeFileEvent option" where
  "same_vector v st fd =
     do { l \<leftarrow> ae_loop st; if el_vector l = v then ev_at l fd else None }"

definition handle_fired :: "'s procs \<Rightarrow> nat \<Rightarrow> 's aes \<Rightarrow> 's aes option" where
  "handle_fired P j st =
     do {
       l \<leftarrow> ae_loop st;
       (fd, msk) \<leftarrow> (if j < length (el_fired l) then Some (el_fired l ! j) else None);
       fe \<leftarrow> ev_at l fd;
       let rfired = (fe_mask fe AND msk AND AE_READABLE \<noteq> 0);
       st \<leftarrow> (if rfired then pr_file P (fe_rfileProc fe) fd (fe_clientData fe) msk st else Some st);
       fe \<leftarrow> same_vector (el_vector l) st fd;
       if fe_mask fe AND msk AND AE_WRITABLE \<noteq> 0 \<and> (\<not> rfired \<or> fe_wfileProc fe \<noteq> fe_rfileProc fe)
       then pr_file P (fe_wfileProc fe) fd (fe_clientData fe) msk st
       else Some st
     }"

fun file_loop :: "'s procs \<Rightarrow> nat \<Rightarrow> nat \<Rightarrow> int \<Rightarrow> 's aes \<Rightarrow> (int \<times> 's aes) option" where
  "file_loop P j 0 processed st = Some (processed, st)"
| "file_loop P j (Suc k) processed st =
     do { st \<leftarrow> handle_fired P j st; file_loop P (j + 1) k (s32 (processed + 1)) st }"

text \<open>How long to wait: until the nearest time event, not at all, or forever.\<close>

definition poll_timeout :: "'s esys \<Rightarrow> 32 word \<Rightarrow> 's aes \<Rightarrow> (timeval option \<times> 's aes) option" where
  "poll_timeout E fl st =
     do {
       shortest \<leftarrow> (if fl AND AE_TIME_EVENTS \<noteq> 0 \<and> fl AND AE_DONT_WAIT = 0
                    then aeSearchNearestTimer st else Some NULL);
       if shortest \<noteq> NULL
       then do {
         let ((now_sec, now_ms), st) = aeGetTime E st;
         t \<leftarrow> ae_times st shortest;
         let ms = s64 (s64 (s64 (s64 (te_when_sec t - now_sec) * 1000) + te_when_ms t) - now_ms);
         Some (Some (if ms > 0 then \<lparr>tv_sec = ms sdiv 1000, tv_usec = ms smod 1000 * 1000\<rparr>
                     else \<lparr>tv_sec = 0, tv_usec = 0\<rparr>), st)
       }
       else if fl AND AE_DONT_WAIT \<noteq> 0 then Some (Some \<lparr>tv_sec = 0, tv_usec = 0\<rparr>, st)
       else Some (None, st)
     }"

definition aeProcessEvents :: "'s esys \<Rightarrow> 's procs \<Rightarrow> 32 word \<Rightarrow> 's aes \<Rightarrow> (int \<times> 's aes) option" where
  "aeProcessEvents E P fl st =
     (if fl AND AE_TIME_EVENTS = 0 \<and> fl AND AE_FILE_EVENTS = 0 then Some (0, st)
      else do {
        l \<leftarrow> ae_loop st;
        (processed, st) \<leftarrow>
          (if el_maxfd l \<noteq> - 1 \<or> fl AND AE_TIME_EVENTS \<noteq> 0 \<and> fl AND AE_DONT_WAIT = 0
           then do {
             (tvp, st) \<leftarrow> poll_timeout E fl st;
             (numevents, st) \<leftarrow> aeApiPoll E tvp st;
             l \<leftarrow> ae_loop st;
             st \<leftarrow> (if el_aftersleep l \<noteq> NULL \<and> fl AND AE_CALL_AFTER_SLEEP \<noteq> 0
                    then pr_sleep P (el_aftersleep l) st else Some st);
             file_loop P 0 numevents 0 st
           }
           else Some (0, st));
        if fl AND AE_TIME_EVENTS \<noteq> 0
        then do { (n, st) \<leftarrow> processTimeEvents E P st; Some (s32 (processed + n), st) }
        else Some (processed, st)
      })"

text \<open>\<^verbatim>\<open>aeWait\<close>; the bits of \<^verbatim>\<open>poll\<close> are those of \<^verbatim>\<open>epoll\<close>.\<close>

definition aeWait :: "'s esys \<Rightarrow> int \<Rightarrow> 32 word \<Rightarrow> int \<Rightarrow> 's world \<Rightarrow> int \<times> 's world" where
  "aeWait E fd msk milliseconds w =
     (case sys_call (es_poll E fd (epoll_mask msk) (s32 milliseconds)) w of
        (None, w) \<Rightarrow> (- 1, w)
      | (Some (n, revents), w) \<Rightarrow> (if n = 1 then sint (fired_mask revents) else int n, w))"

partial_function (option) main_loop :: "'s esys \<Rightarrow> 's procs \<Rightarrow> 's aes \<Rightarrow> 's aes option" where
  "main_loop E P st =
     do {
       l \<leftarrow> ae_loop st;
       if el_stop l then Some st
       else do {
         st \<leftarrow> (if el_beforesleep l \<noteq> NULL then pr_sleep P (el_beforesleep l) st else Some st);
         (_, st) \<leftarrow> aeProcessEvents E P (AE_ALL_EVENTS OR AE_CALL_AFTER_SLEEP) st;
         main_loop E P st
       }
     }"

definition aeMain :: "'s esys \<Rightarrow> 's procs \<Rightarrow> 's aes \<Rightarrow> 's aes option" where
  "aeMain E P st = do { st \<leftarrow> upd_loop (\<lambda>l. l\<lparr>el_stop := False\<rparr>) st; main_loop E P st }"

definition aeGetApiName :: string where "aeGetApiName = aeApiName"

definition aeSetBeforeSleepProc :: "ptr \<Rightarrow> 's aes \<Rightarrow> 's aes option" where
  "aeSetBeforeSleepProc f = upd_loop (\<lambda>l. l\<lparr>el_beforesleep := f\<rparr>)"

definition aeSetAfterSleepProc :: "ptr \<Rightarrow> 's aes \<Rightarrow> 's aes option" where
  "aeSetAfterSleepProc f = upd_loop (\<lambda>l. l\<lparr>el_aftersleep := f\<rparr>)"

text \<open>The loops, for evaluation.\<close>

declare delete_time_loop.simps [code] nearest_loop.simps [code] reset_times.simps [code] time_loop.simps [code]
  main_loop.simps [code]

end
