(* ===== verification/Events.thy ===== *)
theory Events
  imports Ae
begin

text \<open>
  What the event loop of ae.c keeps: the vector of file events against the descriptors that
  \<^verbatim>\<open>epoll\<close> watches, and the list of time events against a plain list.
\<close>

section \<open>File events\<close>

text \<open>The mask of a descriptor; one outside the vector has none.\<close>

definition masks :: "aeEventLoop \<Rightarrow> int \<Rightarrow> 32 word" where
  "masks l fd = (case ev_at l fd of None \<Rightarrow> AE_NONE | Some fe \<Rightarrow> fe_mask fe)"

text \<open>The vectors have the size the loop says, and \<open>el_maxfd\<close> is the highest used descriptor.\<close>

definition loop_ok :: "aeEventLoop \<Rightarrow> bool" where
  "loop_ok l \<longleftrightarrow>
     0 \<le> el_setsize l \<and> length (el_events l) = nat (el_setsize l) \<and> length (el_fired l) = nat (el_setsize l) \<and>
     api_size (el_apidata l) = nat (el_setsize l) \<and> - 1 \<le> el_maxfd l \<and>
     (\<forall>fd. masks l fd \<noteq> AE_NONE \<longrightarrow> fd \<le> el_maxfd l) \<and> (el_maxfd l \<noteq> - 1 \<longrightarrow> masks l (el_maxfd l) \<noteq> AE_NONE)"

text \<open>
  What is documented of \<^verbatim>\<open>epoll\<close>: a new instance watches nothing; a successful call changes the
  entry of its descriptor, a failing one changes nothing; a descriptor that is watched can be
  changed and removed.
\<close>

definition kernel_polls :: "'s esys \<Rightarrow> ('s \<Rightarrow> int \<Rightarrow> int \<Rightarrow> 32 word option) \<Rightarrow> bool" where
  "kernel_polls E watched \<longleftrightarrow>
     (\<forall>s. case es_epoll_create E s of (Inl _, _) \<Rightarrow> True | (Inr ep, s') \<Rightarrow> watched s' ep = (\<lambda>_. None)) \<and>
     (\<forall>ep op fd ev s. case es_epoll_ctl E ep op fd ev s of
        (Inl _, s') \<Rightarrow> watched s' = watched s \<and> (op \<noteq> EPOLL_CTL_ADD \<longrightarrow> watched s ep fd = None)
      | (Inr _, s') \<Rightarrow> watched s' ep = (watched s ep)(fd := if op = EPOLL_CTL_DEL then None else Some ev))"

text \<open>\<^verbatim>\<open>epoll\<close> watches what the masks say.\<close>

definition mirrors :: "('s \<Rightarrow> int \<Rightarrow> int \<Rightarrow> 32 word option) \<Rightarrow> aeEventLoop \<Rightarrow> 's \<Rightarrow> bool" where
  "mirrors watched l s \<longleftrightarrow>
     (\<forall>fd. watched s (api_epfd (el_apidata l)) fd = (if masks l fd = AE_NONE then None else Some (epoll_mask (masks l fd))))"

definition in_step :: "('s \<Rightarrow> int \<Rightarrow> int \<Rightarrow> 32 word option) \<Rightarrow> (int \<Rightarrow> 32 word) \<Rightarrow> 's aes \<Rightarrow> bool" where
  "in_step watched m st \<longleftrightarrow>
     (\<exists>l. ae_loop st = Some l \<and> loop_ok l \<and> masks l = m \<and> mirrors watched l (snd (ae_world st)))"

datatype fevent = Watch int "32 word" ptr ptr | Unwatch int "32 word" | Resize int

fun do_fevent :: "'s esys \<Rightarrow> fevent \<Rightarrow> 's aes \<Rightarrow> (int \<times> 's aes) option" where
  "do_fevent E (Watch fd m proc d) st = aeCreateFileEvent E fd m proc d st"
| "do_fevent E (Unwatch fd m) st = do { st \<leftarrow> aeDeleteFileEvent E fd m st; Some (AE_OK, st) }"
| "do_fevent E (Resize n) st = aeResizeSetSize n st"

text \<open>The same on the masks alone; a request that was refused changes nothing.\<close>

fun apply_fevent :: "fevent \<Rightarrow> int \<Rightarrow> (int \<Rightarrow> 32 word) \<Rightarrow> int \<Rightarrow> 32 word" where
  "apply_fevent (Watch fd m _ _) rc f = (if rc = AE_OK then f(fd := f fd OR m) else f)"
| "apply_fevent (Unwatch fd m) rc f = f(fd := f fd AND NOT m)"
| "apply_fevent (Resize n) rc f = f"

fun fevent_ok :: "fevent \<Rightarrow> bool" where
  "fevent_ok (Watch fd m _ _) = (0 \<le> fd \<and> m \<noteq> AE_NONE)"
| "fevent_ok (Unwatch fd _) = (0 \<le> fd)"
| "fevent_ok (Resize n) = True"

fun run_fevents :: "'s esys \<Rightarrow> fevent list \<Rightarrow> 's aes \<Rightarrow> (int list \<times> 's aes) option" where
  "run_fevents E [] st = Some ([], st)"
| "run_fevents E (e # es) st =
     do { (rc, st) \<leftarrow> do_fevent E e st; (rcs, st) \<leftarrow> run_fevents E es st; Some (rc # rcs, st) }"

fun apply_fevents :: "fevent list \<Rightarrow> int list \<Rightarrow> (int \<Rightarrow> 32 word) \<Rightarrow> int \<Rightarrow> 32 word" where
  "apply_fevents (e # es) (rc # rcs) f = apply_fevents es rcs (apply_fevent e rc f)"
| "apply_fevents _ _ f = f"

lemma ev_at_Some: "0 \<le> fd \<Longrightarrow> fd < el_setsize l \<Longrightarrow> loop_ok l \<Longrightarrow> ev_at l fd = Some (el_events l ! nat fd)"
  by (auto simp: ev_at_def loop_ok_def)

lemma masks_set_ev:
  assumes "ev_at l fd = Some fe0"
  shows "masks (set_ev fd fe l) = (masks l)(fd := fe_mask fe)"
  using assms by (auto simp: masks_def set_ev_def ev_at_def fun_eq_iff nth_list_update split: if_splits)

lemma masks_more [simp]: "masks (l\<lparr>el_maxfd := x\<rparr>) = masks l"
  by (simp add: masks_def ev_at_def fun_eq_iff)

lemma masks_outside: "loop_ok l \<Longrightarrow> fd < 0 \<or> el_setsize l \<le> fd \<Longrightarrow> masks l fd = AE_NONE"
  by (auto simp: masks_def ev_at_def loop_ok_def)

lemma or_none: "(a::32 word) OR b = AE_NONE \<longleftrightarrow> a = AE_NONE \<and> b = AE_NONE"
  by (simp add: AE_NONE_def or_eq_0_iff)

text \<open>A call of \<^verbatim>\<open>epoll_ctl\<close> does not touch the rest of the state.\<close>

lemma ae_call_parts:
  "ae_loop (snd (ae_call f st)) = ae_loop st" "ae_times (snd (ae_call f st)) = ae_times st"
  "ae_grants (snd (ae_call f st)) = ae_grants st" "ae_requests (snd (ae_call f st)) = ae_requests st"
  "ae_fresh (snd (ae_call f st)) = ae_fresh st" "ae_junk (snd (ae_call f st)) = ae_junk st"
  by (auto simp: ae_call_def split: prod.splits sum.splits)

lemma last_used_ok:
  assumes "k \<le> length es"
  shows "- 1 \<le> last_used es k" "last_used es k < int k"
    "i < k \<Longrightarrow> fe_mask (es ! i) \<noteq> AE_NONE \<Longrightarrow> int i \<le> last_used es k"
    "last_used es k \<noteq> - 1 \<Longrightarrow> 0 \<le> last_used es k \<and> fe_mask (es ! nat (last_used es k)) \<noteq> AE_NONE"
  using assms by (induction k) (auto simp: less_Suc_eq)


lemma ctl_ok:
  assumes "kernel_polls E watched"
  shows "ae_call (es_epoll_ctl E ep op fd ev) st = (r, st') \<Longrightarrow>
    (r = None \<and> watched (snd (ae_world st')) = watched (snd (ae_world st)) \<and>
       (op \<noteq> EPOLL_CTL_ADD \<longrightarrow> watched (snd (ae_world st)) ep fd = None)) \<or>
    (r = Some () \<and> watched (snd (ae_world st')) ep =
       (watched (snd (ae_world st)) ep)(fd := if op = EPOLL_CTL_DEL then None else Some ev))"
proof -
  let ?o = "es_epoll_ctl E ep op fd ev (snd (ae_world st))"
  have k: "case ?o of
        (Inl _, s') \<Rightarrow> watched s' = watched (snd (ae_world st)) \<and> (op \<noteq> EPOLL_CTL_ADD \<longrightarrow> watched (snd (ae_world st)) ep fd = None)
      | (Inr _, s') \<Rightarrow> watched s' ep = (watched (snd (ae_world st)) ep)(fd := if op = EPOLL_CTL_DEL then None else Some ev)"
    by (rule conjunct2 [OF assms [unfolded kernel_polls_def], THEN spec [of _ ep], THEN spec [of _ op],
          THEN spec [of _ fd], THEN spec [of _ ev], THEN spec [of _ "snd (ae_world st)"]])
  assume c: "ae_call (es_epoll_ctl E ep op fd ev) st = (r, st')"
  obtain o1 s1 where o: "?o = (o1, s1)" by (cases ?o)
  show ?thesis using k c o by (cases o1) (auto simp: ae_call_def)
qed

lemma watch_ok:
  assumes K: "kernel_polls E watched" and I: "in_step watched f st" and fd: "0 \<le> fd" "m \<noteq> AE_NONE"
  shows "\<exists>rc st'. aeCreateFileEvent E fd m p d st = Some (rc, st') \<and>
    in_step watched (apply_fevent (Watch fd m p d) rc f) st' \<and>
    ae_grants st' = ae_grants st \<and> ae_requests st' = ae_requests st"
proof -
  obtain l where l: "ae_loop st = Some l" "loop_ok l" "masks l = f" "mirrors watched l (snd (ae_world st))"
    using I unfolding in_step_def by (elim exE conjE)
  show ?thesis
  proof (cases "fd \<ge> el_setsize l")
    case True
    then show ?thesis using l by (auto simp: aeCreateFileEvent_def in_step_def AE_OK_def AE_ERR_def)
  next
    case False
    let ?fe = "el_events l ! nat fd"
    have e: "ev_at l fd = Some ?fe" using False fd l(2) by (simp add: ev_at_Some)
    have mk: "masks l fd = fe_mask ?fe" using e by (simp add: masks_def)
    let ?op = "if fe_mask ?fe = AE_NONE then EPOLL_CTL_ADD else EPOLL_CTL_MOD"
    let ?ev = "epoll_mask (m OR fe_mask ?fe)" and ?ep = "api_epfd (el_apidata l)"
    obtain r st1 where c: "ae_call (es_epoll_ctl E ?ep ?op fd ?ev) st = (r, st1)"
      by (cases "ae_call (es_epoll_ctl E ?ep ?op fd ?ev) st")
    have p1: "ae_loop st1 = Some l" "ae_grants st1 = ae_grants st" "ae_requests st1 = ae_requests st"
      using ae_call_parts [of "es_epoll_ctl E ?ep ?op fd ?ev" st] c l(1) by simp_all
    from ctl_ok [OF K c]
    consider (no) "r = None" "watched (snd (ae_world st1)) = watched (snd (ae_world st))"
      | (yes) "r = Some ()" "watched (snd (ae_world st1)) ?ep = (watched (snd (ae_world st)) ?ep)(fd := Some ?ev)"
      by (auto split: if_splits)
    then show ?thesis
    proof cases
      case no
      then show ?thesis using l False e c p1
        by (auto simp: aeCreateFileEvent_def aeApiAddEvent_def in_step_def mirrors_def AE_ERR_def AE_OK_def)
    next
      case yes
      define fe1 where "fe1 = ?fe\<lparr>fe_mask := fe_mask ?fe OR m\<rparr>"
      define fe2 where "fe2 = (if m AND AE_READABLE \<noteq> 0 then fe1\<lparr>fe_rfileProc := p\<rparr> else fe1)"
      define fe3 where "fe3 = (if m AND AE_WRITABLE \<noteq> 0 then fe2\<lparr>fe_wfileProc := p\<rparr> else fe2)"
      define fe' where "fe' = fe3\<lparr>fe_clientData := d\<rparr>"
      define l' where l': "l' = (if fd > el_maxfd l then (set_ev fd fe' l)\<lparr>el_maxfd := fd\<rparr> else set_ev fd fe' l)"
      have fe': "fe_mask fe' = fe_mask ?fe OR m" by (simp add: fe'_def fe3_def fe2_def fe1_def)
      have mx: "el_maxfd (set_ev fd fe' l) = el_maxfd l" by (simp add: set_ev_def)
      have st': "aeCreateFileEvent E fd m p d st = Some (AE_OK, st1\<lparr>ae_loop := Some l'\<rparr>)"
        using l(1) False e c yes
        unfolding aeCreateFileEvent_def aeApiAddEvent_def Let_def l' fe'_def fe3_def fe2_def fe1_def
        by (simp only: bind.bind_lunit if_False if_True prod.case option.simps mx [unfolded fe'_def fe3_def fe2_def fe1_def]) simp
      have mk': "masks l' = f(fd := f fd OR m)"
        using masks_set_ev [OF e, of fe'] mk l(3) by (auto simp: l' fe')
      have or0: "f fd OR m \<noteq> AE_NONE" using fd by (simp add: or_none)
      have lo: "loop_ok l'" unfolding loop_ok_def mk'
      proof (intro conjI)
        show "0 \<le> el_setsize l'" "length (el_events l') = nat (el_setsize l')"
          "length (el_fired l') = nat (el_setsize l')" "api_size (el_apidata l') = nat (el_setsize l')"
          "- 1 \<le> el_maxfd l'"
          using l(2) fd by (auto simp: l' set_ev_def loop_ok_def)
        have le: "g \<le> el_maxfd l" if "f g \<noteq> AE_NONE" for g using that l(2,3) by (auto simp: loop_ok_def)
        have mx: "el_maxfd l' = (if fd > el_maxfd l then fd else el_maxfd l)" by (simp add: l' set_ev_def)
        show "\<forall>g. (f(fd := f fd OR m)) g \<noteq> AE_NONE \<longrightarrow> g \<le> el_maxfd l'"
          using le by (fastforce simp: mx)
        show "el_maxfd l' \<noteq> - 1 \<longrightarrow> (f(fd := f fd OR m)) (el_maxfd l') \<noteq> AE_NONE"
          using or0 l(2,3) by (auto simp: mx loop_ok_def)
      qed
      have ap: "el_apidata l' = el_apidata l" by (simp add: l' set_ev_def)
      have "mirrors watched l' (snd (ae_world st1))"
        using l(4) yes(2) or0 mk by (auto simp: mirrors_def mk' ap l(3) or.commute)
      then show ?thesis using st' lo mk' p1 by (auto simp: in_step_def)
    qed
  qed
qed

lemma unwatch_ok:
  assumes K: "kernel_polls E watched" and I: "in_step watched f st" and fd: "0 \<le> fd"
  shows "\<exists>st'. aeDeleteFileEvent E fd m st = Some st' \<and> in_step watched (apply_fevent (Unwatch fd m) AE_OK f) st' \<and>
    ae_grants st' = ae_grants st \<and> ae_requests st' = ae_requests st"
proof -
  obtain l where l: "ae_loop st = Some l" "loop_ok l" "masks l = f" "mirrors watched l (snd (ae_world st))"
    using I unfolding in_step_def by (elim exE conjE)
  show ?thesis
  proof (cases "f fd = AE_NONE")
    case True
    then have "f(fd := f fd AND NOT m) = f" by (auto simp: AE_NONE_def)
    moreover have "aeDeleteFileEvent E fd m st = Some st"
      using l True fd by (cases "fd \<ge> el_setsize l") (auto simp: aeDeleteFileEvent_def ev_at_Some masks_def)
    ultimately show ?thesis using I by simp
  next
    case False
    have sz: "fd < el_setsize l" using masks_outside [OF l(2), of fd] False l(3) by force
    let ?fe = "el_events l ! nat fd"
    have e: "ev_at l fd = Some ?fe" using sz fd l(2) by (simp add: ev_at_Some)
    have mk: "fe_mask ?fe = f fd" using e l(3) by (auto simp: masks_def)
    let ?m = "f fd AND NOT m" and ?ep = "api_epfd (el_apidata l)"
    let ?op = "if ?m \<noteq> AE_NONE then EPOLL_CTL_MOD else EPOLL_CTL_DEL"
    obtain r st1 where c: "ae_call (es_epoll_ctl E ?ep ?op fd (epoll_mask ?m)) st = (r, st1)"
      by (cases "ae_call (es_epoll_ctl E ?ep ?op fd (epoll_mask ?m)) st")
    have p1: "ae_loop st1 = Some l" "ae_grants st1 = ae_grants st" "ae_requests st1 = ae_requests st"
      using ae_call_parts [of "es_epoll_ctl E ?ep ?op fd (epoll_mask ?m)" st] c l(1) by simp_all
    have w: "watched (snd (ae_world st)) ?ep fd \<noteq> None" using l(3,4) False by (simp add: mirrors_def)
    have w1: "watched (snd (ae_world st1)) ?ep =
        (watched (snd (ae_world st)) ?ep)(fd := if ?m = AE_NONE then None else Some (epoll_mask ?m))"
      using ctl_ok [OF K c] w by (auto split: if_splits)
    define fe' where "fe' = ?fe\<lparr>fe_mask := ?m\<rparr>"
    define l0 where "l0 = set_ev fd fe' l"
    define l' where "l' = (if fd = el_maxfd l \<and> ?m = AE_NONE
                    then l0\<lparr>el_maxfd := last_used (el_events l0) (nat (el_maxfd l))\<rparr> else l0)"
    have mx: "el_maxfd l0 = el_maxfd l" by (simp add: l0_def set_ev_def)
    have st': "aeDeleteFileEvent E fd m st = Some (st1\<lparr>ae_loop := Some l'\<rparr>)"
      using l(1) sz e c mk False mx
      by (auto simp: aeDeleteFileEvent_def aeApiDelEvent_def Let_def p1 l'_def l0_def fe'_def set_ev_def)
    have mk0: "masks l0 = f(fd := ?m)" using masks_set_ev [OF e, of fe'] l(3) by (simp add: l0_def fe'_def)
    then have mk': "masks l' = f(fd := ?m)" by (simp add: l'_def)
    have lens: "0 \<le> el_setsize l0" "length (el_events l0) = nat (el_setsize l0)"
        "length (el_fired l0) = nat (el_setsize l0)" "api_size (el_apidata l0) = nat (el_setsize l0)"
        "el_setsize l0 = el_setsize l" "el_apidata l0 = el_apidata l"
      using l(2) by (auto simp: l0_def set_ev_def loop_ok_def)
    have le: "g \<le> el_maxfd l" if "f g \<noteq> AE_NONE" for g using that l(2,3) by (auto simp: loop_ok_def)
    have mz: "masks l (el_maxfd l) \<noteq> AE_NONE \<or> el_maxfd l = - 1" "- 1 \<le> el_maxfd l" using l(2) by (auto simp: loop_ok_def)
    have lo: "loop_ok l'"
    proof (cases "fd = el_maxfd l \<and> ?m = AE_NONE")
      case True
      have k: "nat fd \<le> length (el_events l0)" using lens sz fd by simp
      have at0: "0 \<le> g \<Longrightarrow> g < fd \<Longrightarrow> masks l0 g = fe_mask (el_events l0 ! nat g)" for g
        using lens sz by (simp add: masks_def ev_at_def)
      let ?j = "last_used (el_events l0) (nat fd)"
      have lu: "- 1 \<le> ?j" "?j < fd"
        "\<And>i. i < nat fd \<Longrightarrow> fe_mask (el_events l0 ! i) \<noteq> AE_NONE \<Longrightarrow> int i \<le> ?j"
        "?j \<noteq> - 1 \<Longrightarrow> 0 \<le> ?j \<and> fe_mask (el_events l0 ! nat ?j) \<noteq> AE_NONE"
        using last_used_ok [OF k] fd by auto
      have "g \<le> ?j" if g: "masks l0 g \<noteq> AE_NONE" for g
      proof -
        have "g \<noteq> fd" using g True by (auto simp: mk0)
        then have "f g \<noteq> AE_NONE" using g by (simp add: mk0)
        then have "g < fd" "0 \<le> g" using le [of g] True \<open>g \<noteq> fd\<close> masks_outside [OF l(2), of g] l(3) by force+
        then show ?thesis using lu(3) [of "nat g"] at0 [of g] g by simp
      qed
      moreover have "masks l0 ?j \<noteq> AE_NONE" if "?j \<noteq> - 1" using lu(2) lu(4) [OF that] at0 [of ?j] by simp
      ultimately show ?thesis using True lens lu(1) by (auto simp: loop_ok_def l'_def)
    next
      case F: False
      then have l'0: "l' = l0" by (auto simp: l'_def)
      have "masks l0 g \<noteq> AE_NONE \<Longrightarrow> g \<le> el_maxfd l" for g
        using le [of g] le [of fd] False by (auto simp: mk0 split: if_splits)
      moreover have "masks l0 (el_maxfd l) \<noteq> AE_NONE" if "el_maxfd l \<noteq> - 1"
        using F mz that l(3) by (auto simp: mk0)
      ultimately show ?thesis using lens mz(2) by (auto simp: loop_ok_def l'0 mx)
    qed
    have "el_apidata l' = el_apidata l" using lens by (simp add: l'_def)
    then have "mirrors watched l' (snd (ae_world st1))" using l(3,4) w1 by (auto simp: mirrors_def mk')
    then show ?thesis using st' lo mk' p1 by (auto simp: in_step_def)
  qed
qed

lemma clear_masks_ok:
  assumes "i + k = length es"
  shows "\<exists>es'. clear_masks i k es = Some es' \<and> length es' = length es \<and>
    (\<forall>j < length es. es' ! j = (if i \<le> j then (es ! j)\<lparr>fe_mask := AE_NONE\<rparr> else es ! j))"
  using assms
proof (induction k arbitrary: i es)
  case (Suc k)
  let ?es = "es[i := (es ! i)\<lparr>fe_mask := AE_NONE\<rparr>]"
  obtain es' where r: "clear_masks (i + 1) k ?es = Some es'" "length es' = length es"
    "\<forall>j < length es. es' ! j = (if i + 1 \<le> j then (?es ! j)\<lparr>fe_mask := AE_NONE\<rparr> else ?es ! j)"
    using Suc.IH [of "i + 1" ?es] Suc.prems by auto
  have "es' ! j = (if i \<le> j then (es ! j)\<lparr>fe_mask := AE_NONE\<rparr> else es ! j)" if "j < length es" for j
    using r(3) that by (cases j i rule: linorder_cases) auto
  then show ?case using r(1,2) Suc.prems by auto
qed simp

lemma resize_ok:
  assumes I: "in_step watched f st" and G: "\<And>k. ae_requests st \<le> k \<Longrightarrow> ae_grants st k"
  shows "\<exists>rc st'. aeResizeSetSize n st = Some (rc, st') \<and> in_step watched f st' \<and>
    ae_grants st' = ae_grants st \<and> ae_requests st \<le> ae_requests st'"
proof -
  obtain l where l: "ae_loop st = Some l" "loop_ok l" "masks l = f" "mirrors watched l (snd (ae_world st))"
    using I unfolding in_step_def by (elim exE conjE)
  consider "n = el_setsize l" | "n \<noteq> el_setsize l" "el_maxfd l \<ge> n" | "n \<noteq> el_setsize l" "el_maxfd l < n" by linarith
  then show ?thesis
  proof cases
    case 3
    let ?k = "nat (el_maxfd l + 1)" and ?v = "ae_requests st + 1"
    have mx: "- 1 \<le> el_maxfd l" "el_maxfd l \<noteq> - 1 \<longrightarrow> masks l (el_maxfd l) \<noteq> AE_NONE" using l(2) by (auto simp: loop_ok_def)
    have mxs: "el_maxfd l < el_setsize l"
      using masks_outside [OF l(2), of "el_maxfd l"] mx l(2) by (force simp: loop_ok_def)
    define es where "es = take (nat n) (el_events l) @ replicate (nat n - length (el_events l)) (ae_junk st)"
    define fs where "fs = take (nat n) (el_fired l) @ replicate (nat n - length (el_fired l)) (0::int, 0::32 word)"
    have len: "length es = nat n" "length fs = nat n" by (auto simp: es_def fs_def)
    have "?k + (nat n - ?k) = length es" using 3 mx(1) len by simp
    from clear_masks_ok [OF this] obtain es' where
      c: "clear_masks ?k (nat n - ?k) es = Some es'" "length es' = nat n"
      "\<And>j. j < nat n \<Longrightarrow> es' ! j = (if ?k \<le> j then (es ! j)\<lparr>fe_mask := AE_NONE\<rparr> else es ! j)"
      using len by auto
    define l1 where "l1 = l\<lparr>el_apidata := (el_apidata l)\<lparr>api_size := nat n\<rparr>\<rparr>"
    define l' where "l' = l1\<lparr>el_events := es', el_vector := ?v, el_fired := fs, el_setsize := n\<rparr>"
    have g: "ae_grants st (ae_requests st)" "ae_grants st (Suc (ae_requests st))" "ae_grants st (Suc (Suc (ae_requests st)))"
      using G by simp_all
    have r: "aeResizeSetSize n st = Some (AE_OK, st\<lparr>ae_loop := Some l', ae_requests := ae_requests st + 3\<rparr>)"
      using l(1) 3 g c(1)
      by (simp add: aeResizeSetSize_def aeApiResize_def ae_malloc_def upd_loop_def Let_def es_def fs_def l'_def l1_def)
    have mk: "masks l' = f"
    proof
      fix fd
      show "masks l' fd = f fd"
      proof (cases "0 \<le> fd \<and> fd \<le> el_maxfd l")
        case True
        then have i: "nat fd < nat n" "\<not> ?k \<le> nat fd" "nat fd < length (el_events l)" "0 \<le> fd"
          using 3 mxs l(2) by (auto simp: loop_ok_def)
        then have "es' ! nat fd = el_events l ! nat fd" using c(3) [of "nat fd"] by (simp add: es_def nth_append)
        then show ?thesis using i c(2) l(3) by (auto simp: masks_def ev_at_def l'_def)
      next
        case False
        then have "f fd = AE_NONE" using l(2,3) masks_outside [OF l(2), of fd] by (force simp: loop_ok_def)
        moreover have "masks l' fd = AE_NONE"
          using False c(2) c(3) [of "nat fd"] by (auto simp: masks_def ev_at_def l'_def)
        ultimately show ?thesis by simp
      qed
    qed
    have "loop_ok l'" using 3 mx l(2,3) mk c(2) len by (auto simp: loop_ok_def l'_def l1_def)
    moreover have "mirrors watched l' (snd (ae_world st))"
      using l(3,4) by (simp add: mirrors_def mk) (simp add: l'_def l1_def)
    ultimately show ?thesis using r mk by (auto simp: in_step_def)
  qed (use l I in \<open>auto simp: aeResizeSetSize_def\<close>)
qed

lemma create_form:
  assumes "aeCreateEventLoop E n st0 = (True, st)"
  shows "\<exists>ep s0 now vec junk. es_epoll_create E s0 = (Inr ep, snd (ae_world st)) \<and> ae_loop st = Some
    \<lparr>el_maxfd = - 1, el_setsize = n, el_timeEventNextId = 0, el_lastTime = now,
     el_events = replicate (nat n) (junk\<lparr>fe_mask := AE_NONE\<rparr>), el_vector = vec,
     el_fired = replicate (nat n) (0, 0), el_timeEventHead = NULL, el_stop = False,
     el_apidata = \<lparr>api_epfd = ep, api_size = nat n\<rparr>, el_beforesleep = NULL, el_aftersleep = NULL\<rparr>"
proof -
  obtain now s where t: "es_time E (snd (ae_world st0)) = (now, s)" by (cases "es_time E (snd (ae_world st0))")
  obtain r s' where c: "es_epoll_create E s = (r, s')" by (cases "es_epoll_create E s")
  from assms t c show ?thesis
    by (cases r) (auto simp: aeCreateEventLoop_def aeApiCreate_def ae_malloc_def ae_call_def Let_def split: if_splits)
qed

lemma create_ok:
  assumes "kernel_polls E watched" "aeCreateEventLoop E n st0 = (True, st)" "0 \<le> n"
  shows "in_step watched (\<lambda>_. AE_NONE) st"
proof -
  have k: "case es_epoll_create E s of (Inl _, _) \<Rightarrow> True | (Inr ep, s') \<Rightarrow> watched s' ep = (\<lambda>_. None)" for s
    by (rule conjunct1 [OF assms(1) [unfolded kernel_polls_def], THEN spec [of _ s]])
  from create_form [OF assms(2)] obtain ep s0 now vec junk where
    f: "es_epoll_create E s0 = (Inr ep, snd (ae_world st))"
    and l: "ae_loop st = Some
      \<lparr>el_maxfd = - 1, el_setsize = n, el_timeEventNextId = 0, el_lastTime = now,
       el_events = replicate (nat n) (junk\<lparr>fe_mask := AE_NONE\<rparr>), el_vector = vec,
       el_fired = replicate (nat n) (0, 0), el_timeEventHead = NULL, el_stop = False,
       el_apidata = \<lparr>api_epfd = ep, api_size = nat n\<rparr>, el_beforesleep = NULL, el_aftersleep = NULL\<rparr>" (is "_ = Some ?l")
    by (elim exE conjE)
  have mk: "masks ?l = (\<lambda>_. AE_NONE)" by (auto simp: masks_def ev_at_def fun_eq_iff)
  have "loop_ok ?l" unfolding loop_ok_def mk using assms(3) by simp
  moreover have "mirrors watched ?l (snd (ae_world st))" using k [of s0] f by (simp add: mirrors_def mk)
  ultimately show ?thesis unfolding in_step_def using l mk by (intro exI [of _ ?l]) simp
qed

lemma do_fevent_ok:
  assumes "kernel_polls E watched" "in_step watched f st" "fevent_ok e" "\<And>k. ae_requests st \<le> k \<Longrightarrow> ae_grants st k"
  shows "\<exists>rc st'. do_fevent E e st = Some (rc, st') \<and> in_step watched (apply_fevent e rc f) st' \<and>
    ae_grants st' = ae_grants st \<and> ae_requests st \<le> ae_requests st'"
proof (cases e)
  case (Watch fd m p d)
  obtain rc st' where "aeCreateFileEvent E fd m p d st = Some (rc, st')"
    "in_step watched (apply_fevent (Watch fd m p d) rc f) st'" "ae_grants st' = ae_grants st" "ae_requests st' = ae_requests st"
    using watch_ok [OF assms(1,2), of fd m p d] assms(3) Watch by auto
  then show ?thesis unfolding Watch by (intro exI [of _ rc] exI [of _ st']) simp
next
  case (Unwatch fd m)
  then show ?thesis using unwatch_ok [OF assms(1,2), of fd m] assms(3) by auto
next
  case (Resize n)
  then show ?thesis using resize_ok [OF assms(2,4), of n] by auto
qed

lemma run_fevents_ok:
  assumes "kernel_polls E watched" "in_step watched f st" "\<forall>e \<in> set es. fevent_ok e"
    "\<And>k. ae_requests st \<le> k \<Longrightarrow> ae_grants st k"
  shows "\<exists>rcs st'. run_fevents E es st = Some (rcs, st') \<and> in_step watched (apply_fevents es rcs f) st'"
  using assms(2-4)
proof (induction es arbitrary: f st)
  case (Cons e es)
  obtain rc st1 where e: "do_fevent E e st = Some (rc, st1)" "in_step watched (apply_fevent e rc f) st1"
    "ae_grants st1 = ae_grants st" "ae_requests st \<le> ae_requests st1"
    using do_fevent_ok [OF assms(1) Cons.prems(1) _ Cons.prems(3), of e] Cons.prems(2) by auto
  obtain rcs st2 where "run_fevents E es st1 = Some (rcs, st2)" "in_step watched (apply_fevents es rcs (apply_fevent e rc f)) st2"
    using Cons.IH [OF e(2)] Cons.prems(2,3) e(3,4) by force
  then show ?case using e(1) by simp
qed simp

text \<open>
  C30. The event loop and \<^verbatim>\<open>epoll\<close> agree about every descriptor: after any sequence of
  registrations, removals and changes of size on a new loop, nothing faulted, the vectors have
  the size the loop says, \<open>el_maxfd\<close> is the highest descriptor in use, the masks are those of the
  requests that were granted, and \<^verbatim>\<open>epoll\<close> watches exactly these descriptors for exactly these
  events.
\<close>

theorem file_events_mirror:
  assumes "kernel_polls E watched" "aeCreateEventLoop E n st0 = (True, st)" "0 \<le> n"
    "\<forall>k \<ge> ae_requests st. ae_grants st k" "\<forall>e \<in> set es. fevent_ok e"
  shows "\<exists>rcs st' l. run_fevents E es st = Some (rcs, st') \<and> ae_loop st' = Some l \<and> loop_ok l \<and>
    masks l = apply_fevents es rcs (\<lambda>_. AE_NONE) \<and> mirrors watched l (snd (ae_world st'))"
  using run_fevents_ok [OF assms(1) create_ok [OF assms(1-3)] assms(5)] assms(4) by (auto simp: in_step_def)

text \<open>A kernel for the witness: its state is what every instance watches.\<close>

definition poll0 :: "(int \<Rightarrow> int \<Rightarrow> 32 word option) esys" where
  "poll0 =
     \<lparr>es_epoll_create = \<lambda>s. (Inr 5, s(5 := \<lambda>_. None)),
      es_epoll_ctl = \<lambda>ep op fd ev s. (Inr (), s(ep := (s ep)(fd := if op = EPOLL_CTL_DEL then None else Some ev))),
      es_epoll_wait = \<lambda>ep n t s. (Inr [], s), es_close = \<lambda>fd s. s,
      es_gettimeofday = \<lambda>s. (\<lparr>tv_sec = 0, tv_usec = 0\<rparr>, s), es_time = \<lambda>s. (0, s), es_poll = \<lambda>fd m t s. (Inl 4, s)\<rparr>"

definition ae0 :: "'s \<Rightarrow> 's aes" where
  "ae0 s = \<lparr>ae_loop = None, ae_times = \<lambda>_. None, ae_fresh = 1, ae_requests = 0, ae_grants = \<lambda>_. True,
     ae_junk = \<lparr>fe_mask = 7, fe_rfileProc = 0, fe_wfileProc = 0, fe_clientData = 0\<rparr>, ae_world = (0, s)\<rparr>"

lemma poll0_polls: "kernel_polls poll0 (\<lambda>s. s)"
  by (simp add: kernel_polls_def poll0_def)

theorem file_events_mirror_witness:
  "\<exists>rcs st' l. run_fevents poll0 [Watch 3 1 7 0, Watch 3 2 8 0, Watch 9 1 7 0, Resize 16, Watch 9 1 7 0, Unwatch 3 1]
      (snd (aeCreateEventLoop poll0 8 (ae0 (\<lambda>_ _. None)))) = Some (rcs, st') \<and> ae_loop st' = Some l \<and> loop_ok l \<and>
    masks l = apply_fevents [Watch 3 1 7 0, Watch 3 2 8 0, Watch 9 1 7 0, Resize 16, Watch 9 1 7 0, Unwatch 3 1] rcs (\<lambda>_. AE_NONE) \<and>
    mirrors (\<lambda>s. s) l (snd (ae_world st'))"
proof (rule file_events_mirror [OF poll0_polls, of 8 "ae0 (\<lambda>_ _. None)"])
  show "aeCreateEventLoop poll0 8 (ae0 (\<lambda>_ _. None)) = (True, snd (aeCreateEventLoop poll0 8 (ae0 (\<lambda>_ _. None))))"
    by (simp add: aeCreateEventLoop_def aeApiCreate_def ae_malloc_def ae_call_def ae0_def poll0_def)
qed (auto simp: aeCreateEventLoop_def aeApiCreate_def ae_malloc_def ae_call_def ae0_def poll0_def AE_NONE_def)

end
