(* ===== verification/Timers.thy ===== *)
theory Timers
  imports Events
begin

text \<open>The time events of ae.c: the linked list on the heap against a plain list of events.\<close>

section \<open>The list\<close>

text \<open>A list segment; the events are given without their links.\<close>

fun tlist :: "(ptr \<rightharpoonup> aeTimeEvent) \<Rightarrow> ptr \<Rightarrow> (ptr \<times> aeTimeEvent) list \<Rightarrow> ptr \<Rightarrow> bool" where
  "tlist h p [] q \<longleftrightarrow> p = q"
| "tlist h p ((x, t) # ts) q \<longleftrightarrow>
     p = x \<and> x \<noteq> NULL \<and> te_next t = NULL \<and> (\<exists>n. h x = Some (t\<lparr>te_next := n\<rparr>) \<and> tlist h n ts q)"

definition time_list :: "'s aes \<Rightarrow> (ptr \<times> aeTimeEvent) list \<Rightarrow> bool" where
  "time_list st ts \<longleftrightarrow>
     (\<exists>l. ae_loop st = Some l \<and> tlist (ae_times st) (el_timeEventHead l) ts NULL) \<and> distinct (map fst ts)"

lemma next_inj [simp]: "t\<lparr>te_next := n\<rparr> = t\<lparr>te_next := m\<rparr> \<longleftrightarrow> n = m"
  by (cases t) simp


lemma tlist_upd [simp]: "x \<notin> fst ` set ts \<Longrightarrow> tlist (h(x := v)) p ts q = tlist h p ts q"
  by (induction ts arbitrary: p) auto


lemma tlist_lookup: "tlist h p ts q \<Longrightarrow> (x, t) \<in> set ts \<Longrightarrow> \<exists>n. h x = Some (t\<lparr>te_next := n\<rparr>)"
  by (induction ts arbitrary: p) auto

text \<open>An operation that follows the list and stops at a marked place.\<close>

lemma earlier_next [simp]:
  "earlier (t\<lparr>te_next := n\<rparr>) u = earlier t u" "earlier t (u\<lparr>te_next := n\<rparr>) = earlier t u"
  by (simp_all add: earlier_def)

lemma earlier_trans: "\<not> earlier a b \<Longrightarrow> earlier c b \<Longrightarrow> \<not> earlier a c"
  by (auto simp: earlier_def)

lemma earlier_asym: "earlier a b \<Longrightarrow> \<not> earlier b a"
  by (auto simp: earlier_def)

section \<open>The nearest event\<close>

text \<open>The first of the events that are due earliest.\<close>

definition nearest :: "(ptr \<times> aeTimeEvent) list \<Rightarrow> ptr \<times> aeTimeEvent \<Rightarrow> bool" where
  "nearest ts e \<longleftrightarrow>
     (\<exists>xs ys. ts = xs @ e # ys \<and> (\<forall>(_, t) \<in> set xs. earlier (snd e) t) \<and> (\<forall>(_, t) \<in> set ys. \<not> earlier t (snd e)))"

lemma nearest_snoc:
  assumes "nearest ts (x, u)"
  shows "if earlier t u then nearest (ts @ [(y, t)]) (y, t) else nearest (ts @ [(y, t)]) (x, u)"
proof -
  obtain xs ys where ts: "ts = xs @ (x, u) # ys" "\<forall>(_, v) \<in> set xs. earlier u v" "\<forall>(_, v) \<in> set ys. \<not> earlier v u"
    using assms unfolding nearest_def by auto
  show ?thesis
  proof (cases "earlier t u")
    case True
    then have "\<forall>(_, v) \<in> set ts. earlier t v" using ts by (fastforce simp: earlier_def)
    then show ?thesis using True unfolding nearest_def by fastforce
  next
    case False
    then have "\<forall>(_, v) \<in> set (ys @ [(y, t)]). \<not> earlier v u" using ts(3) by auto
    moreover have "ts @ [(y, t)] = xs @ (x, u) # (ys @ [(y, t)])" using ts(1) by simp
    ultimately have "nearest (ts @ [(y, t)]) (x, u)"
      using ts(2) unfolding nearest_def snd_conv by (intro exI [of _ xs] exI [of _ "ys @ [(y, t)]"] conjI)
    then show ?thesis using False by simp
  qed
qed

lemma nearest_loop_ok:
  assumes "tlist h p ts NULL" "nearest ds (x, u)" "h x = Some (u\<lparr>te_next := n\<rparr>)" "x \<noteq> NULL"
  shows "\<exists>y t m. nearest_loop h p x = Some y \<and> nearest (ds @ ts) (y, t) \<and> h y = Some (t\<lparr>te_next := m\<rparr>) \<and> y \<noteq> NULL"
  using assms
proof (induction ts arbitrary: p ds x u n)
  case Nil
  then show ?case by (subst nearest_loop.simps) auto
next
  case (Cons e ts)
  obtain y t m where e: "e = (y, t)" "p = y" "y \<noteq> NULL" "h y = Some (t\<lparr>te_next := m\<rparr>)" "tlist h m ts NULL"
    using Cons.prems(1) by (cases e) auto
  let ?z = "if earlier t u then (y, t) else (x, u)"
  have "nearest (ds @ [(y, t)]) ?z" using nearest_snoc [OF Cons.prems(2), of t y] by (auto split: if_splits)
  moreover have "h (fst ?z) = Some ((snd ?z)\<lparr>te_next := if earlier t u then m else n\<rparr>)" "fst ?z \<noteq> NULL"
    using e Cons.prems(3,4) by auto
  ultimately have "\<exists>y' t' m'. nearest_loop h m (fst ?z) = Some y' \<and> nearest ((ds @ [(y, t)]) @ ts) (y', t') \<and>
      h y' = Some (t'\<lparr>te_next := m'\<rparr>) \<and> y' \<noteq> NULL"
    by (intro Cons.IH [OF e(5)]) simp_all
  moreover have "nearest_loop h p x = nearest_loop h m (fst ?z)"
    using e Cons.prems(3,4) by (subst nearest_loop.simps) auto
  ultimately show ?case using e(1) by auto
qed

text \<open>
  Looking for the nearest timer ends and gives the event of the list that is due first, the
  one closest to the head when several are due at the same time, and NULL when there is none.
\<close>

theorem aeSearchNearestTimer_first:
  assumes "time_list st ts"
  shows "\<exists>p. aeSearchNearestTimer st = Some p \<and>
    (if ts = [] then p = NULL else p \<noteq> NULL \<and> (\<exists>t. nearest ts (p, t)))"
proof (cases ts)
  case Nil
  then show ?thesis using assms by (auto simp: aeSearchNearestTimer_def time_list_def nearest_loop.simps)
next
  case (Cons e es)
  obtain x u where e: "e = (x, u)" by (cases e)
  obtain l n where l: "ae_loop st = Some l" "el_timeEventHead l = x" "x \<noteq> NULL" "ae_times st x = Some (u\<lparr>te_next := n\<rparr>)"
    "tlist (ae_times st) n es NULL"
    using assms Cons e by (auto simp: time_list_def)
  have "nearest [e] (x, u)" unfolding e nearest_def by (intro exI [of _ "[]"]) simp
  from nearest_loop_ok [OF l(5) this l(4,3)] obtain y t where
    "nearest_loop (ae_times st) n x = Some y" "nearest ts (y, t)" "y \<noteq> NULL"
    using Cons by auto
  moreover have "nearest_loop (ae_times st) x NULL = nearest_loop (ae_times st) n x"
    using l by (subst nearest_loop.simps) simp
  ultimately show ?thesis using l Cons by (auto simp: aeSearchNearestTimer_def)
qed

section \<open>A pass over the time events\<close>

text \<open>What a pass calls.\<close>

datatype tcall = Fired ptr int ptr | Finalized ptr ptr




definition dead :: "aeTimeEvent \<Rightarrow> bool" where
  "dead t \<longleftrightarrow> te_id t = AE_DELETED_EVENT_ID"

definition due :: "timeval \<Rightarrow> aeTimeEvent \<Rightarrow> bool" where
  "due tv t \<longleftrightarrow> tv_sec tv > te_when_sec t \<or> tv_sec tv = te_when_sec t \<and> tv_usec tv sdiv 1000 \<ge> te_when_ms t"

definition in_ms :: "timeval \<Rightarrow> int \<Rightarrow> int \<times> int" where
  "in_ms tv ms =
     (let sec = s64 (tv_sec tv + ms sdiv 1000); m = s64 (tv_usec tv sdiv 1000 + ms smod 1000)
      in if m \<ge> 1000 then (s64 (sec + 1), m - 1000) else (sec, m))"

text \<open>What becomes of an event, and which calls are made for it.\<close>

definition pass :: "timeval \<Rightarrow> (ptr \<Rightarrow> int \<Rightarrow> ptr \<Rightarrow> int) \<Rightarrow> aeTimeEvent \<Rightarrow> aeTimeEvent" where
  "pass tv ret t =
     (let r = ret (te_timeProc t) (te_id t) (te_clientData t)
      in if \<not> due tv t then t
         else if r = AE_NOMORE then t\<lparr>te_id := AE_DELETED_EVENT_ID\<rparr>
         else t\<lparr>te_when_sec := fst (in_ms tv r), te_when_ms := snd (in_ms tv r)\<rparr>)"

definition calls :: "timeval \<Rightarrow> aeTimeEvent \<Rightarrow> tcall list" where
  "calls tv t =
     (if dead t then if te_finalizerProc t \<noteq> NULL then [Finalized (te_finalizerProc t) (te_clientData t)] else []
      else if due tv t then [Fired (te_timeProc t) (te_id t) (te_clientData t)]
      else [])"


definition fires :: "timeval \<Rightarrow> ptr \<times> aeTimeEvent \<Rightarrow> bool" where
  "fires tv e \<longleftrightarrow> \<not> dead (snd e) \<and> due tv (snd e)"





lemma pass_next [simp]: "te_next (pass tv ret t) = te_next t" "pass tv ret (t\<lparr>te_next := n\<rparr>) = (pass tv ret t)\<lparr>te_next := n\<rparr>"
  "due tv (t\<lparr>te_next := n\<rparr>) = due tv t" "dead (t\<lparr>te_next := n\<rparr>) = dead t" "calls tv (t\<lparr>te_next := n\<rparr>) = calls tv t"
  by (simp_all add: pass_def due_def dead_def calls_def Let_def)

lemma fires_pair [simp]: "fires tv (x, t) \<longleftrightarrow> \<not> dead t \<and> due tv t"
  by (simp add: fires_def)








section \<open>An instance\<close>




definition event :: "int \<Rightarrow> int \<Rightarrow> ptr \<Rightarrow> ptr \<Rightarrow> aeTimeEvent" where
  "event i sec fin d =
     \<lparr>te_id = i, te_when_sec = sec, te_when_ms = 500, te_timeProc = 7, te_finalizerProc = fin, te_clientData = d, te_next = NULL\<rparr>"

definition loop0 :: "ptr \<Rightarrow> int \<Rightarrow> aeEventLoop" where
  "loop0 p nid =
     \<lparr>el_maxfd = - 1, el_setsize = 0, el_timeEventNextId = nid, el_lastTime = 9, el_events = [], el_vector = 0,
      el_fired = [], el_timeEventHead = p, el_stop = False, el_apidata = \<lparr>api_epfd = 5, api_size = 0\<rparr>,
      el_beforesleep = NULL, el_aftersleep = NULL\<rparr>"

text \<open>Four events: one that is due again and again, a deleted one, one that is due once, one that is not due.\<close>

definition events0 :: "(ptr \<times> aeTimeEvent) list" where
  "events0 = [(4, event 3 10 0 1500), (3, event (- 1) 2 8 6), (2, event 1 9 0 0), (1, event 0 11 0 1)]"

definition times0 :: "tcall list aes" where
  "times0 = (ae0 [])\<lparr>ae_loop := Some (loop0 4 4), ae_fresh := 5,
     ae_times := [4 \<mapsto> (event 3 10 0 1500)\<lparr>te_next := 3\<rparr>, 3 \<mapsto> (event (- 1) 2 8 6)\<lparr>te_next := 2\<rparr>,
       2 \<mapsto> (event 1 9 0 0)\<lparr>te_next := 1\<rparr>, 1 \<mapsto> event 0 11 0 1]\<rparr>"

lemma times0: "ae_loop times0 = Some (loop0 4 4)" "time_list times0 events0"
  by (auto simp: times0_def time_list_def events0_def loop0_def event_def)



theorem aeSearchNearestTimer_first_witness:
  "\<exists>p. aeSearchNearestTimer times0 = Some p \<and>
    (if events0 = [] then p = NULL else p \<noteq> NULL \<and> (\<exists>t. nearest events0 (p, t)))"
  by (rule aeSearchNearestTimer_first [OF times0(2)])





end
