(* ===== verification/Adapter.thy ===== *)
theory Adapter
  imports Async Events
begin

text \<open>
  adapters/ae.h: the hooks that tie an asynchronous context to the event loop of ae.c. The system
  of the context is here the loop together with the containers that the hooks work on, and
  whatever else a client of this theory adds to them; the container is found through the pointer that \<^verbatim>\<open>ev.data\<close> holds.
\<close>

section \<open>The hooks\<close>

record redisAeEvents =
  re_context :: ptr
  re_fd :: int
  re_reading :: bool
  re_writing :: bool

record 's bridge =
  br_loop :: "'s aes"
  br_events :: "ptr \<rightharpoonup> redisAeEvents"
  br_fresh :: ptr

text \<open>The addresses of \<^verbatim>\<open>redisAeReadEvent\<close> and \<^verbatim>\<open>redisAeWriteEvent\<close>.\<close>

definition READ_EVENT :: ptr where "READ_EVENT = 1"
definition WRITE_EVENT :: ptr where "WRITE_EVENT = 2"

text \<open>What the two handlers do with the context of their container.\<close>

definition redisAeReadEvent ::
    "allocator \<Rightarrow> ('s, 'm) bridge_scheme user \<Rightarrow> ('s, 'm) bridge_scheme sys \<Rightarrow> ptr \<Rightarrow> ('s, 'm) bridge_scheme ast \<Rightarrow> ('s, 'm) bridge_scheme ast option" where
  "redisAeReadEvent A U S privdata st =
     do { _ \<leftarrow> br_events (snd (as_world st)) privdata; redisAsyncHandleRead A U S st }"

definition redisAeWriteEvent ::
    "allocator \<Rightarrow> ('s, 'm) bridge_scheme user \<Rightarrow> ('s, 'm) bridge_scheme sys \<Rightarrow> ptr \<Rightarrow> ('s, 'm) bridge_scheme ast \<Rightarrow> ('s, 'm) bridge_scheme ast option" where
  "redisAeWriteEvent A U S privdata st =
     do { _ \<leftarrow> br_events (snd (as_world st)) privdata; redisAsyncHandleWrite A U S st }"

definition redisAeAddRead :: "'s esys \<Rightarrow> ptr \<Rightarrow> ('s, 'm) bridge_scheme \<Rightarrow> ('s, 'm) bridge_scheme option" where
  "redisAeAddRead E privdata b =
     do {
       e \<leftarrow> br_events b privdata;
       if \<not> re_reading e
       then do {
         let b = b\<lparr>br_events := (br_events b)(privdata \<mapsto> e\<lparr>re_reading := True\<rparr>)\<rparr>;
         (_, l) \<leftarrow> aeCreateFileEvent E (re_fd e) AE_READABLE READ_EVENT privdata (br_loop b);
         Some (b\<lparr>br_loop := l\<rparr>)
       }
       else Some b
     }"

definition redisAeDelRead :: "'s esys \<Rightarrow> ptr \<Rightarrow> ('s, 'm) bridge_scheme \<Rightarrow> ('s, 'm) bridge_scheme option" where
  "redisAeDelRead E privdata b =
     do {
       e \<leftarrow> br_events b privdata;
       if re_reading e
       then do {
         let b = b\<lparr>br_events := (br_events b)(privdata \<mapsto> e\<lparr>re_reading := False\<rparr>)\<rparr>;
         l \<leftarrow> aeDeleteFileEvent E (re_fd e) AE_READABLE (br_loop b);
         Some (b\<lparr>br_loop := l\<rparr>)
       }
       else Some b
     }"

definition redisAeAddWrite :: "'s esys \<Rightarrow> ptr \<Rightarrow> ('s, 'm) bridge_scheme \<Rightarrow> ('s, 'm) bridge_scheme option" where
  "redisAeAddWrite E privdata b =
     do {
       e \<leftarrow> br_events b privdata;
       if \<not> re_writing e
       then do {
         let b = b\<lparr>br_events := (br_events b)(privdata \<mapsto> e\<lparr>re_writing := True\<rparr>)\<rparr>;
         (_, l) \<leftarrow> aeCreateFileEvent E (re_fd e) AE_WRITABLE WRITE_EVENT privdata (br_loop b);
         Some (b\<lparr>br_loop := l\<rparr>)
       }
       else Some b
     }"

definition redisAeDelWrite :: "'s esys \<Rightarrow> ptr \<Rightarrow> ('s, 'm) bridge_scheme \<Rightarrow> ('s, 'm) bridge_scheme option" where
  "redisAeDelWrite E privdata b =
     do {
       e \<leftarrow> br_events b privdata;
       if re_writing e
       then do {
         let b = b\<lparr>br_events := (br_events b)(privdata \<mapsto> e\<lparr>re_writing := False\<rparr>)\<rparr>;
         l \<leftarrow> aeDeleteFileEvent E (re_fd e) AE_WRITABLE (br_loop b);
         Some (b\<lparr>br_loop := l\<rparr>)
       }
       else Some b
     }"

definition redisAeCleanup :: "'s esys \<Rightarrow> ptr \<Rightarrow> ('s, 'm) bridge_scheme \<Rightarrow> ('s, 'm) bridge_scheme option" where
  "redisAeCleanup E privdata b =
     do {
       b \<leftarrow> redisAeDelRead E privdata b;
       b \<leftarrow> redisAeDelWrite E privdata b;
       if br_events b privdata = None then None else Some (b\<lparr>br_events := (br_events b)(privdata := None)\<rparr>)
     }"

definition ae_hooks :: "'s esys \<Rightarrow> ptr \<Rightarrow> ('s, 'm) bridge_scheme ev" where
  "ae_hooks E e =
     \<lparr>ev_addRead = Some (redisAeAddRead E e), ev_delRead = Some (redisAeDelRead E e),
      ev_addWrite = Some (redisAeAddWrite E e), ev_delWrite = Some (redisAeDelWrite E e),
      ev_cleanup = Some (redisAeCleanup E e)\<rparr>"

text \<open>
  \<^verbatim>\<open>redisAeAttach\<close>. Something is attached when there are hooks, since all of them and \<^verbatim>\<open>ev.data\<close>
  are set together; the container is written without a check of the \<^verbatim>\<open>malloc\<close>.
\<close>

definition redisAeAttach :: "'s esys \<Rightarrow> ptr \<Rightarrow> ('s, 'm) bridge_scheme ast \<Rightarrow> (int \<times> ('s, 'm) bridge_scheme ast) option" where
  "redisAeAttach E self st =
     do {
       ac \<leftarrow> as_ac st;
       if ev_cleanup (ac_ev ac) \<noteq> None then Some (REDIS_ERR, st)
       else do {
         let b = snd (as_world st);
         let (ok, l) = ae_malloc (br_loop b);
         (if ok then Some () else None);
         let e = br_fresh b;
         let ev = \<lparr>re_context = self, re_fd = c_fd (ac_c ac), re_reading = False, re_writing = False\<rparr>;
         let b = b\<lparr>br_loop := l, br_events := (br_events b)(e \<mapsto> ev), br_fresh := e + 1\<rparr>;
         Some (REDIS_OK, st\<lparr>as_ac := Some (ac\<lparr>ac_ev := ae_hooks E e\<rparr>), as_world := (fst (as_world st), b)\<rparr>)
       }
     }"

section \<open>The hooks and the loop\<close>

definition rw_mask :: "bool \<Rightarrow> bool \<Rightarrow> 32 word" where
  "rw_mask r w = (if r then AE_READABLE else 0) OR (if w then AE_WRITABLE else 0)"

text \<open>
  The container of the context is the only one besides \<open>evs\<close>, the masks are \<open>f\<close> but for its descriptor,
  and that one is registered for nothing the container does not know of.
\<close>

definition bridge_ok ::
    "('s \<Rightarrow> int \<Rightarrow> int \<Rightarrow> 32 word option) \<Rightarrow> (int \<Rightarrow> 32 word) \<Rightarrow> (ptr \<rightharpoonup> redisAeEvents) \<Rightarrow> ptr \<Rightarrow> int \<Rightarrow> ('s, 'm) bridge_scheme \<Rightarrow> bool" where
  "bridge_ok watched f evs p fd b \<longleftrightarrow>
     (\<exists>e r w. br_events b = evs(p \<mapsto> e) \<and> re_fd e = fd \<and> in_step watched (f(fd := rw_mask r w)) (br_loop b) \<and>
        (r \<longrightarrow> re_reading e) \<and> (w \<longrightarrow> re_writing e))"

datatype hook = AddRead | DelRead | AddWrite | DelWrite

fun hook_of :: "hook \<Rightarrow> 's ev \<Rightarrow> ('s \<Rightarrow> 's option) option" where
  "hook_of AddRead = ev_addRead"
| "hook_of DelRead = ev_delRead"
| "hook_of AddWrite = ev_addWrite"
| "hook_of DelWrite = ev_delWrite"

fun run_hooks :: "hook list \<Rightarrow> 's ast \<Rightarrow> 's ast option" where
  "run_hooks [] st = Some st"
| "run_hooks (h # hs) st = do { st \<leftarrow> run_ev (hook_of h) st; run_hooks hs st }"

lemma rw_mask_ops:
  "rw_mask r w OR rw_mask x y = rw_mask (r \<or> x) (w \<or> y)"
  "rw_mask r w AND NOT (rw_mask x y) = rw_mask (r \<and> \<not> x) (w \<and> \<not> y)"
  by (cases r; cases w; cases x; cases y; simp add: rw_mask_def AE_READABLE_def AE_WRITABLE_def)+

lemma rw_mask_one: "AE_READABLE = rw_mask True False" "AE_WRITABLE = rw_mask False True" "AE_NONE = rw_mask False False"
  by (simp_all add: rw_mask_def AE_NONE_def)

lemma rw_mask_none: "rw_mask r w = AE_NONE \<longleftrightarrow> \<not> r \<and> \<not> w"
  by (cases r; cases w; simp add: rw_mask_def AE_READABLE_def AE_WRITABLE_def AE_NONE_def)

text \<open>Registering and removing some of the two events of a descriptor.\<close>

lemma watch_rw:
  assumes "kernel_polls E watched" "0 \<le> fd" "in_step watched (f(fd := rw_mask r w)) st" "x \<or> y"
  shows "\<exists>rc st' r' w'. aeCreateFileEvent E fd (rw_mask x y) proc d st = Some (rc, st') \<and>
    in_step watched (f(fd := rw_mask r' w')) st' \<and> (r' \<longrightarrow> r \<or> x) \<and> (w' \<longrightarrow> w \<or> y)"
proof -
  have n: "rw_mask x y \<noteq> AE_NONE" using assms(4) by (simp add: rw_mask_none)
  have u: "(f(fd := rw_mask r w))(fd := (f(fd := rw_mask r w)) fd OR rw_mask x y) = f(fd := rw_mask (r \<or> x) (w \<or> y))"
    by (simp add: rw_mask_ops)
  obtain rc st' where s: "aeCreateFileEvent E fd (rw_mask x y) proc d st = Some (rc, st')"
    "in_step watched (if rc = AE_OK then f(fd := rw_mask (r \<or> x) (w \<or> y)) else f(fd := rw_mask r w)) st'"
    using watch_ok [OF assms(1,3,2) n, of proc d] unfolding apply_fevent.simps u by auto
  then show ?thesis
    by (intro exI [of _ rc] exI [of _ st'] exI [of _ "if rc = AE_OK then r \<or> x else r"]
        exI [of _ "if rc = AE_OK then w \<or> y else w"]) auto
qed

lemma unwatch_rw:
  assumes "kernel_polls E watched" "0 \<le> fd" "in_step watched (f(fd := rw_mask r w)) st"
  shows "\<exists>st'. aeDeleteFileEvent E fd (rw_mask x y) st = Some st' \<and>
    in_step watched (f(fd := rw_mask (r \<and> \<not> x) (w \<and> \<not> y))) st'"
  using unwatch_ok [OF assms(1,3,2), of "rw_mask x y"] by (auto simp: rw_mask_ops)

lemma bridge_okI:
  assumes "br_events b = evs(p \<mapsto> e)" "re_fd e = fd" "in_step watched (f(fd := rw_mask r w)) (br_loop b)"
    "r \<longrightarrow> re_reading e" "w \<longrightarrow> re_writing e"
  shows "bridge_ok watched f evs p fd b"
  unfolding bridge_ok_def using assms by (intro exI [of _ e] exI [of _ r] exI [of _ w]) simp

lemma hook_ok:
  assumes K: "kernel_polls E watched" and fd: "0 \<le> fd" and B: "bridge_ok watched f evs p fd b"
  shows "\<exists>g b'. hook_of h (ae_hooks E p) = Some g \<and> g b = Some b' \<and> bridge_ok watched f evs p fd b' \<and>
    (h = DelRead \<longrightarrow> (\<exists>e. br_events b' p = Some e \<and> \<not> re_reading e)) \<and>
    (h = DelWrite \<longrightarrow> (\<exists>e. br_events b' p = Some e \<and> \<not> re_writing e) \<and>
      (\<forall>e. br_events b p = Some e \<longrightarrow> \<not> re_reading e \<longrightarrow> (\<exists>e'. br_events b' p = Some e' \<and> \<not> re_reading e')))"
proof -
  obtain e r w where b: "br_events b = evs(p \<mapsto> e)" "re_fd e = fd" "in_step watched (f(fd := rw_mask r w)) (br_loop b)"
    "r \<longrightarrow> re_reading e" "w \<longrightarrow> re_writing e"
    using B unfolding bridge_ok_def by (elim exE conjE)
  show ?thesis
  proof (cases h)
    case AddRead
    obtain rc l r' w' where l: "aeCreateFileEvent E fd AE_READABLE READ_EVENT p (br_loop b) = Some (rc, l)"
      "in_step watched (f(fd := rw_mask r' w')) l" "w' \<longrightarrow> w"
      using watch_rw [OF K fd b(3), of True False READ_EVENT p] unfolding rw_mask_one(1) [symmetric] by auto
    let ?e = "e\<lparr>re_reading := True\<rparr>"
    let ?b = "if re_reading e then b else b\<lparr>br_events := (br_events b)(p \<mapsto> ?e), br_loop := l\<rparr>"
    have "redisAeAddRead E p b = Some ?b" using b l by (simp add: redisAeAddRead_def)
    moreover have "bridge_ok watched f evs p fd ?b"
      using B b l bridge_okI [of ?b evs p ?e fd watched f r' w'] by auto
    ultimately show ?thesis by (simp add: AddRead ae_hooks_def)
  next
    case AddWrite
    obtain rc l r' w' where l: "aeCreateFileEvent E fd AE_WRITABLE WRITE_EVENT p (br_loop b) = Some (rc, l)"
      "in_step watched (f(fd := rw_mask r' w')) l" "r' \<longrightarrow> r"
      using watch_rw [OF K fd b(3), of False True WRITE_EVENT p] unfolding rw_mask_one(2) [symmetric] by auto
    let ?e = "e\<lparr>re_writing := True\<rparr>"
    let ?b = "if re_writing e then b else b\<lparr>br_events := (br_events b)(p \<mapsto> ?e), br_loop := l\<rparr>"
    have "redisAeAddWrite E p b = Some ?b" using b l by (simp add: redisAeAddWrite_def)
    moreover have "bridge_ok watched f evs p fd ?b"
      using B b l bridge_okI [of ?b evs p ?e fd watched f r' w'] by auto
    ultimately show ?thesis by (simp add: AddWrite ae_hooks_def)
  next
    case DelRead
    obtain l where l: "aeDeleteFileEvent E fd AE_READABLE (br_loop b) = Some l"
      "in_step watched (f(fd := rw_mask False w)) l"
      using unwatch_rw [OF K fd b(3), of True False] unfolding rw_mask_one(1) [symmetric] by auto
    let ?e = "e\<lparr>re_reading := False\<rparr>"
    let ?b = "if re_reading e then b\<lparr>br_events := (br_events b)(p \<mapsto> ?e), br_loop := l\<rparr> else b"
    have "redisAeDelRead E p b = Some ?b" using b l by (simp add: redisAeDelRead_def)
    moreover have "bridge_ok watched f evs p fd ?b"
      using B b l bridge_okI [of ?b evs p ?e fd watched f False w] by auto
    ultimately show ?thesis using b(1) by (simp add: DelRead ae_hooks_def)
  next
    case DelWrite
    obtain l where l: "aeDeleteFileEvent E fd AE_WRITABLE (br_loop b) = Some l"
      "in_step watched (f(fd := rw_mask r False)) l"
      using unwatch_rw [OF K fd b(3), of False True] unfolding rw_mask_one(2) [symmetric] by auto
    let ?e = "e\<lparr>re_writing := False\<rparr>"
    let ?b = "if re_writing e then b\<lparr>br_events := (br_events b)(p \<mapsto> ?e), br_loop := l\<rparr> else b"
    have "redisAeDelWrite E p b = Some ?b" using b l by (simp add: redisAeDelWrite_def)
    moreover have "bridge_ok watched f evs p fd ?b"
      using B b l bridge_okI [of ?b evs p ?e fd watched f r False] by auto
    ultimately show ?thesis using b(1) by (simp add: DelWrite ae_hooks_def)
  qed
qed

text \<open>A context with the hooks on a bridge that is in order.\<close>

definition attached ::
    "'s esys \<Rightarrow> ('s \<Rightarrow> int \<Rightarrow> int \<Rightarrow> 32 word option) \<Rightarrow> (int \<Rightarrow> 32 word) \<Rightarrow> (ptr \<rightharpoonup> redisAeEvents) \<Rightarrow> ptr \<Rightarrow> int \<Rightarrow>
     ('s, 'm) bridge_scheme ast \<Rightarrow> bool" where
  "attached E watched f evs p fd st \<longleftrightarrow>
     (\<exists>ac. as_ac st = Some ac \<and> ac_ev ac = ae_hooks E p) \<and> bridge_ok watched f evs p fd (snd (as_world st))"

lemma run_hooks_ok:
  assumes "kernel_polls E watched" "0 \<le> fd" "attached E watched f evs p fd st"
  shows "\<exists>st'. run_hooks hs st = Some st' \<and> attached E watched f evs p fd st'"
  using assms(3)
proof (induction hs arbitrary: st)
  case (Cons h hs)
  obtain ac where ac: "as_ac st = Some ac" "ac_ev ac = ae_hooks E p" "bridge_ok watched f evs p fd (snd (as_world st))"
    using Cons.prems by (auto simp: attached_def)
  obtain g b where g: "hook_of h (ae_hooks E p) = Some g" "g (snd (as_world st)) = Some b" "bridge_ok watched f evs p fd b"
    using hook_ok [OF assms(1,2) ac(3), of h] by (elim exE conjE)
  let ?st = "st\<lparr>as_world := (fst (as_world st), b)\<rparr>"
  have "run_ev (hook_of h) st = Some ?st" using ac g by (simp add: run_ev_def)
  moreover have "attached E watched f evs p fd ?st" using ac g by (simp add: attached_def)
  ultimately show ?case using Cons.IH [of ?st] by simp
qed simp

lemma ae_cleanup_ok:
  assumes K: "kernel_polls E watched" and fd: "0 \<le> fd" and B: "bridge_ok watched f evs p fd b" "p \<notin> dom evs" "f fd = AE_NONE"
  shows "\<exists>b'. redisAeCleanup E p b = Some b' \<and> br_events b' = evs \<and> in_step watched f (br_loop b')"
proof -
  obtain b1 where 1: "redisAeDelRead E p b = Some b1" "bridge_ok watched f evs p fd b1"
    "\<exists>e. br_events b1 p = Some e \<and> \<not> re_reading e"
    using hook_ok [OF K fd B(1), of DelRead] by (auto simp: ae_hooks_def)
  obtain b2 where 2: "redisAeDelWrite E p b1 = Some b2" "bridge_ok watched f evs p fd b2"
    "\<exists>e. br_events b2 p = Some e \<and> \<not> re_writing e" "\<exists>e. br_events b2 p = Some e \<and> \<not> re_reading e"
    using hook_ok [OF K fd 1(2), of DelWrite] 1(3) by (auto simp: ae_hooks_def)
  obtain e r w where b: "br_events b2 = evs(p \<mapsto> e)" "in_step watched (f(fd := rw_mask r w)) (br_loop b2)"
    "r \<longrightarrow> re_reading e" "w \<longrightarrow> re_writing e"
    using 2(2) unfolding bridge_ok_def by (elim exE conjE)
  have "\<not> r" "\<not> w" using 2(3,4) b by auto
  then have "f(fd := rw_mask r w) = f" using B(3) by (auto simp: rw_mask_one)
  then show ?thesis using 1(1) 2(1) b(1,2) B(2) by (auto simp: redisAeCleanup_def)
qed

text \<open>
  C33. The adapter never leaves the event loop with a pointer to a container that was freed: after
  attaching a context and any calls of the hooks, whether or not \<^verbatim>\<open>epoll\<close> accepted what
  they asked for, cleaning up ends without a fault, frees the container and no other, and leaves
  every descriptor registered exactly as it was before the context was attached.
\<close>

theorem adapter_cleans_up:
  assumes K: "kernel_polls E watched" and S: "as_ac st = Some ac" "0 \<le> c_fd (ac_c ac)"
    and B: "in_step watched f (br_loop (snd (as_world st)))" "f (c_fd (ac_c ac)) = AE_NONE"
      "br_fresh (snd (as_world st)) \<notin> dom (br_events (snd (as_world st)))"
    and A: "redisAeAttach E self st = Some (REDIS_OK, st1)"
  shows "\<exists>st2 st3. run_hooks hs st1 = Some st2 \<and> run_ev ev_cleanup st2 = Some st3 \<and>
    in_step watched f (br_loop (snd (as_world st3))) \<and> br_events (snd (as_world st3)) = br_events (snd (as_world st))"
proof -
  let ?b = "snd (as_world st)" and ?fd = "c_fd (ac_c ac)"
  let ?p = "br_fresh ?b"
  let ?e = "\<lparr>re_context = self, re_fd = ?fd, re_reading = False, re_writing = False\<rparr>"
  obtain l where l: "ae_malloc (br_loop ?b) = (True, l)"
    and st1: "st1 = st\<lparr>as_ac := Some (ac\<lparr>ac_ev := ae_hooks E ?p\<rparr>),
      as_world := (fst (as_world st), ?b\<lparr>br_loop := l, br_events := (br_events ?b)(?p \<mapsto> ?e), br_fresh := ?p + 1\<rparr>)\<rparr>"
    using A S(1) by (auto simp: redisAeAttach_def Let_def redis_codes split: if_splits option.splits bind_splits prod.splits)
  have "in_step watched f l" using B(1) l by (auto simp: in_step_def ae_malloc_def)
  moreover have "f(?fd := rw_mask False False) = f" using B(2) by (auto simp: rw_mask_one)
  ultimately have "bridge_ok watched f (br_events ?b) ?p ?fd (snd (as_world st1))"
    by (intro bridge_okI [of _ _ _ ?e _ _ _ False False]) (simp_all add: st1)
  then have "attached E watched f (br_events ?b) ?p ?fd st1" by (simp add: attached_def st1)
  from run_hooks_ok [OF K S(2) this, of hs] obtain st2 where
    2: "run_hooks hs st1 = Some st2" "attached E watched f (br_events ?b) ?p ?fd st2" by auto
  then obtain ac2 where ac2: "as_ac st2 = Some ac2" "ac_ev ac2 = ae_hooks E ?p"
    "bridge_ok watched f (br_events ?b) ?p ?fd (snd (as_world st2))" by (auto simp: attached_def)
  from ae_cleanup_ok [OF K S(2) ac2(3) B(3,2)] obtain b3 where
    "redisAeCleanup E ?p (snd (as_world st2)) = Some b3" "br_events b3 = br_events ?b" "in_step watched f (br_loop b3)"
    by auto
  then show ?thesis using 2(1) ac2 by (auto simp: run_ev_def ae_hooks_def)
qed

text \<open>A fresh context on a fresh loop for eight descriptors.\<close>

definition fresh_bridge :: "(int \<Rightarrow> int \<Rightarrow> 32 word option) bridge" where
  "fresh_bridge = \<lparr>br_loop = snd (aeCreateEventLoop poll0 8 (ae0 (\<lambda>_ _. None))), br_events = Map.empty, br_fresh = 1\<rparr>"

definition blank_st :: "(int \<Rightarrow> int \<Rightarrow> 32 word option) bridge ast" where
  "blank_st = \<lparr>as_ac = None, as_heap = empty_heap, as_cells = cbheap0, as_mem = cbmem0, as_lists = lheap0,
     as_tasks = {}, as_woken = [], as_free_lock = False, as_world = (0, fresh_bridge)\<rparr>"

definition fresh_st :: "(int \<Rightarrow> int \<Rightarrow> 32 word option) bridge ast" where
  "fresh_st = snd (redisAsyncInitialize heap0 ((the (redisContextInit heap0))\<lparr>c_fd := 3\<rparr>) blank_st)"

lemma fresh_st: "\<exists>ac. as_ac fresh_st = Some ac \<and> c_fd (ac_c ac) = 3 \<and> ac_ev ac = no_hooks" "as_world fresh_st = (0, fresh_bridge)"
  by (simp_all add: fresh_st_def redisAsyncInitialize_def heap0_def blank_st_def sizeof_redisAsyncContext_def split: prod.split)

lemma fresh_bridge: "in_step (\<lambda>s. s) (\<lambda>_. AE_NONE) (br_loop fresh_bridge)"
proof -
  have "aeCreateEventLoop poll0 8 (ae0 (\<lambda>_ _. None)) = (True, br_loop fresh_bridge)"
    by (simp add: fresh_bridge_def aeCreateEventLoop_def aeApiCreate_def ae_malloc_def ae_call_def ae0_def poll0_def)
  then show ?thesis by (rule create_ok [OF poll0_polls]) simp
qed

theorem adapter_cleans_up_witness:
  "\<exists>st1 st2 st3. redisAeAttach poll0 9 fresh_st = Some (REDIS_OK, st1) \<and>
    run_hooks [AddRead, AddWrite, AddWrite, DelWrite] st1 = Some st2 \<and> run_ev ev_cleanup st2 = Some st3 \<and>
    in_step (\<lambda>s. s) (\<lambda>_. AE_NONE) (br_loop (snd (as_world st3))) \<and> br_events (snd (as_world st3)) = Map.empty"
proof -
  obtain ac where ac: "as_ac fresh_st = Some ac" "c_fd (ac_c ac) = 3" "ac_ev ac = no_hooks" using fresh_st(1) by auto
  have g: "ae_malloc (br_loop fresh_bridge) = (True, snd (ae_malloc (br_loop fresh_bridge)))"
    by (simp add: ae_malloc_def fresh_bridge_def aeCreateEventLoop_def aeApiCreate_def ae_call_def ae0_def poll0_def)
  obtain st1 where A: "redisAeAttach poll0 9 fresh_st = Some (REDIS_OK, st1)"
    using ac g by (cases "ae_malloc (br_loop fresh_bridge)") (simp add: redisAeAttach_def fresh_st(2) no_hooks_def Let_def)
  have e: "br_events fresh_bridge = Map.empty" by (simp add: fresh_bridge_def)
  show ?thesis
    using adapter_cleans_up [OF poll0_polls ac(1) _ _ _ _ A, of "\<lambda>_. AE_NONE" "[AddRead, AddWrite, AddWrite, DelWrite]"]
      A ac(2) fresh_bridge fresh_st(2) e by auto
qed

end
