(* ===== verification/Mux.thy ===== *)
theory Mux
  imports Adapter
begin

text \<open>
  The part of hiredis.c that shares one connection among many callers: the global client, the
  multiplexing contexts, the requests and the callbacks that the loop thread runs for them.
  The world of an asynchronous context is here the event loop with its containers
  (Adapter), extended by the client, the multiplexing contexts and the requests. \<open>None\<close> is a
  fault, or a thread that waits forever: for a mutex it holds already, or for a signal that
  never comes.
\<close>

section \<open>The state\<close>

text \<open>
  The pointer \<^verbatim>\<open>xc->ctx\<close>: NULL, a context that is being connected, or the address of an
  asynchronous context.
\<close>

datatype ctxptr = NoCtx | Plain redisContext | Actx ptr

record xRedisContext =
  x_ctx :: ctxptr
  x_ip :: "string option"
  x_port :: int
  x_status :: int
  x_wait_time_reconn :: nat
  x_remain_wait_reconn :: nat
  x_task_fd :: "int \<times> int"

text \<open>A request; its semaphore has a value until it is destroyed.\<close>

record cmdInfo =
  ci_cmd :: ptr
  ci_len :: int
  ci_reply :: ptr
  ci_reference :: int
  ci_reply_sem :: "nat option"

text \<open>\<^verbatim>\<open>client\<close>; \<open>rc_aeloop\<close> says whether the pointer to the loop is set.\<close>

record redisClient =
  rc_aeloop :: bool
  rc_reconn_list :: ptr
  rc_free_ac_list :: ptr
  rc_timeout :: int

text \<open>The mutexes; none of them may be locked twice by a thread.\<close>

datatype mutex = ClientMutex | ReconnMutex | XcMutex ptr

text \<open>
  The world: the loop, the client, the multiplexing contexts, what the requests hold (which ones
  are allocated is the field \<open>as_tasks\<close> of the state), the buffers with formatted
  commands, the mutexes the thread holds, and the answers of the allocator.
\<close>

record 's mw = "'s bridge" +
  mw_client :: redisClient
  mw_xcs :: "ptr \<rightharpoonup> xRedisContext"
  mw_cis :: "ptr \<Rightarrow> cmdInfo"
  mw_bufs :: "ptr \<rightharpoonup> char list"
  mw_held :: "mutex set"
  mw_fresh :: ptr
  mw_requests :: nat
  mw_grants :: "nat \<Rightarrow> bool"
  mw_node :: listNode

type_synonym 's mast = "'s mw ast"

definition wd :: "'s mast \<Rightarrow> 's mw" where
  "wd st = snd (as_world st)"

definition upd_wd :: "('s mw \<Rightarrow> 's mw) \<Rightarrow> 's mast \<Rightarrow> 's mast" where
  "upd_wd f st = st\<lparr>as_world := (fst (as_world st), f (wd st))\<rparr>"

definition upd_client :: "(redisClient \<Rightarrow> redisClient) \<Rightarrow> 's mast \<Rightarrow> 's mast" where
  "upd_client f = upd_wd (\<lambda>w. w\<lparr>mw_client := f (mw_client w)\<rparr>)"

definition client_of :: "'s mast \<Rightarrow> redisClient" where
  "client_of st = mw_client (wd st)"

definition get_xc :: "ptr \<Rightarrow> 's mast \<Rightarrow> xRedisContext option" where
  "get_xc p st = mw_xcs (wd st) p"

definition upd_xc :: "ptr \<Rightarrow> (xRedisContext \<Rightarrow> xRedisContext) \<Rightarrow> 's mast \<Rightarrow> 's mast option" where
  "upd_xc p f st = do { x \<leftarrow> get_xc p st; Some (upd_wd (\<lambda>w. w\<lparr>mw_xcs := (mw_xcs w)(p \<mapsto> f x)\<rparr>) st) }"

definition get_ci :: "ptr \<Rightarrow> 's mast \<Rightarrow> cmdInfo option" where
  "get_ci p st = (if p \<in> as_tasks st then Some (mw_cis (wd st) p) else None)"

definition upd_ci :: "ptr \<Rightarrow> (cmdInfo \<Rightarrow> cmdInfo) \<Rightarrow> 's mast \<Rightarrow> 's mast option" where
  "upd_ci p f st = do { c \<leftarrow> get_ci p st; Some (upd_wd (\<lambda>w. w\<lparr>mw_cis := (mw_cis w)(p := f c)\<rparr>) st) }"

definition mw_malloc :: "'s mast \<Rightarrow> bool \<times> 's mast" where
  "mw_malloc st =
     (mw_grants (wd st) (mw_requests (wd st)), upd_wd (\<lambda>w. w\<lparr>mw_requests := mw_requests w + 1\<rparr>) st)"

text \<open>The address of a new object.\<close>

definition mw_new :: "'s mast \<Rightarrow> ptr \<times> 's mast" where
  "mw_new st = (mw_fresh (wd st), upd_wd (\<lambda>w. w\<lparr>mw_fresh := mw_fresh w + 1\<rparr>) st)"

text \<open>Locking a mutex that the thread holds never returns; the mutex of a freed context is gone.\<close>

definition has_mutex :: "mutex \<Rightarrow> 's mast \<Rightarrow> bool" where
  "has_mutex m st = (case m of XcMutex p \<Rightarrow> get_xc p st \<noteq> None | _ \<Rightarrow> True)"

definition lock :: "mutex \<Rightarrow> 's mast \<Rightarrow> 's mast option" where
  "lock m st =
     (if has_mutex m st \<and> m \<notin> mw_held (wd st)
      then Some (upd_wd (\<lambda>w. w\<lparr>mw_held := insert m (mw_held w)\<rparr>) st) else None)"

definition unlock :: "mutex \<Rightarrow> 's mast \<Rightarrow> 's mast option" where
  "unlock m st =
     (if has_mutex m st \<and> m \<in> mw_held (wd st)
      then Some (upd_wd (\<lambda>w. w\<lparr>mw_held := mw_held w - {m}\<rparr>) st) else None)"

section \<open>Requests\<close>

text \<open>\<^verbatim>\<open>__sync_sub_and_fetch(&ci->reference, 1)\<close> and \<^verbatim>\<open>__sync_add_and_fetch\<close>.\<close>

definition ci_add :: "ptr \<Rightarrow> int \<Rightarrow> 's mast \<Rightarrow> (int \<times> 's mast) option" where
  "ci_add p d st =
     do {
       c \<leftarrow> get_ci p st;
       let n = s32 (ci_reference c + d);
       st \<leftarrow> upd_ci p (\<lambda>c. c\<lparr>ci_reference := n\<rparr>) st;
       Some (n, st)
     }"

definition sem_destroy :: "ptr \<Rightarrow> 's mast \<Rightarrow> 's mast option" where
  "sem_destroy p st =
     do {
       c \<leftarrow> get_ci p st;
       if ci_reply_sem c = None then None else upd_ci p (\<lambda>c. c\<lparr>ci_reply_sem := None\<rparr>) st
     }"

definition sem_post :: "ptr \<Rightarrow> 's mast \<Rightarrow> 's mast option" where
  "sem_post p st =
     do { c \<leftarrow> get_ci p st; n \<leftarrow> ci_reply_sem c; upd_ci p (\<lambda>c. c\<lparr>ci_reply_sem := Some (n + 1)\<rparr>) st }"

definition free_ci :: "ptr \<Rightarrow> 's mast \<Rightarrow> 's mast option" where
  "free_ci p st = do { st \<leftarrow> sem_destroy p st; free_task p st }"

section \<open>The callbacks\<close>

text \<open>\<^verbatim>\<open>connected\<close> as a value of \<^verbatim>\<open>xc->status\<close>, and \<^verbatim>\<open>disconnecting\<close>.\<close>

definition CONNECTED :: int where "CONNECTED = sint REDIS_CONNECTED"
definition DISCONNECTING :: int where "DISCONNECTING = sint REDIS_DISCONNECTING"

definition replyCallback :: "ptr \<Rightarrow> ptr \<Rightarrow> 's mast \<Rightarrow> 's mast option" where
  "replyCallback reply privdata st =
     (if privdata = NULL then Some st
      else do {
        (ref, st) \<leftarrow> ci_add privdata (- 1) st;
        if ref \<le> 0
        then do {
          st \<leftarrow> free_ci privdata st;
          h \<leftarrow> freeReplyObject reply (as_heap st);
          Some (st\<lparr>as_heap := h\<rparr>)
        }
        else do { st \<leftarrow> upd_ci privdata (\<lambda>c. c\<lparr>ci_reply := reply\<rparr>) st; sem_post privdata st }
      })"

definition connectedCallback :: "int \<Rightarrow> 's mast \<Rightarrow> 's mast option" where
  "connectedCallback status st =
     do {
       ac \<leftarrow> as_ac st;
       st \<leftarrow> lock (XcMutex (ac_xc ac)) st;
       st \<leftarrow> (if status \<noteq> REDIS_OK then Some st else upd_xc (ac_xc ac) (\<lambda>x. x\<lparr>x_status := CONNECTED\<rparr>) st);
       let st = st\<lparr>as_woken := ac_xc ac # as_woken st\<rparr>;
       unlock (XcMutex (ac_xc ac)) st
     }"

text \<open>The requests that wait in the list of the context lose a reference.\<close>

partial_function (option) clear_cmds :: "ptr \<Rightarrow> ptr \<Rightarrow> 's mast \<Rightarrow> 's mast option" where
  "clear_cmds l node st =
     (if node = NULL then Some st
      else do {
        n \<leftarrow> lh_nodes (as_lists st) node;
        h \<leftarrow> listDelNode l node (as_lists st);
        (ref, st) \<leftarrow> ci_add (ln_value n) (- 1) (st\<lparr>as_lists := h\<rparr>);
        st \<leftarrow> (if ref = 0 then free_ci (ln_value n) st else Some st);
        clear_cmds l (ln_next n) st
      })"

text \<open>Putting a context on the list of those to reconnect, unless it is there.\<close>

definition add_reconn :: "ptr \<Rightarrow> 's mast \<Rightarrow> 's mast option" where
  "add_reconn xc st =
     do {
       st \<leftarrow> lock ReconnMutex st;
       found \<leftarrow> listSearchKey (rc_reconn_list (client_of st)) xc (as_lists st);
       st \<leftarrow> (if found = NULL
              then do { (_, h) \<leftarrow> listAddNodeTail (mw_node (wd st)) (rc_reconn_list (client_of st)) xc (as_lists st);
                        Some (st\<lparr>as_lists := h\<rparr>) }
              else Some st);
       unlock ReconnMutex st
     }"

definition disconnectedCallback :: "int \<Rightarrow> 's mast \<Rightarrow> 's mast option" where
  "disconnectedCallback status st =
     (if status = REDIS_OK then Some st
      else do {
        ac \<leftarrow> as_ac st;
        let xc = ac_xc ac;
        st \<leftarrow> lock (XcMutex xc) st;
        l \<leftarrow> lh_lists (as_lists st) (ac_cmd_list ac);
        st \<leftarrow> clear_cmds (ac_cmd_list ac) (al_head l) st;
        st \<leftarrow> upd_xc xc (\<lambda>x. x\<lparr>x_status := DISCONNECTING\<rparr>) st;
        st \<leftarrow> unlock (XcMutex xc) st;
        st \<leftarrow> lock ClientMutex st;
        ac \<leftarrow> as_ac st;
        if ac_status ac = FREED_CONTEXT then unlock ClientMutex st
        else do { st \<leftarrow> unlock ClientMutex st; add_reconn xc st }
      })"

text \<open>The addresses of the callbacks.\<close>

definition REPLY_CALLBACK :: ptr where "REPLY_CALLBACK = 3"
definition CONNECTED_CALLBACK :: ptr where "CONNECTED_CALLBACK = 4"
definition DISCONNECTED_CALLBACK :: ptr where "DISCONNECTED_CALLBACK = 5"

definition mux_user :: "'s mw user" where
  "mux_user =
     \<lparr>u_reply = \<lambda>fn reply privdata st. if fn = REPLY_CALLBACK then replyCallback reply privdata st else None,
      u_status = \<lambda>fn status st.
        if fn = CONNECTED_CALLBACK then connectedCallback status st
        else if fn = DISCONNECTED_CALLBACK then disconnectedCallback status st
        else None\<rparr>"

section \<open>The whole state\<close>

text \<open>
  All asynchronous contexts. The functions of async.c work on one of them: it is put into the state they
  share and taken out again.
\<close>

record 's mst =
  ms_acs :: "ptr \<rightharpoonup> 's mw actx"
  ms_fresh_ac :: ptr
  ms_st :: "'s mast"

definition with_ac :: "ptr \<Rightarrow> ('s mast \<Rightarrow> ('a \<times> 's mast) option) \<Rightarrow> 's mst \<Rightarrow> ('a \<times> 's mst) option" where
  "with_ac p f m =
     do {
       ac \<leftarrow> ms_acs m p;
       (r, st) \<leftarrow> f ((ms_st m)\<lparr>as_ac := Some ac\<rparr>);
       Some (r, m\<lparr>ms_acs := (ms_acs m)(p := as_ac st), ms_st := st\<lparr>as_ac := None\<rparr>\<rparr>)
     }"

definition no_value :: "('s mast \<Rightarrow> 's mast option) \<Rightarrow> 's mast \<Rightarrow> (unit \<times> 's mast) option" where
  "no_value f st = map_option (\<lambda>st. ((), st)) (f st)"

definition do_ac :: "ptr \<Rightarrow> ('s mast \<Rightarrow> 's mast option) \<Rightarrow> 's mst \<Rightarrow> 's mst option" where
  "do_ac p f m = map_option snd (with_ac p (no_value f) m)"

definition on_st :: "('s mast \<Rightarrow> 's mast option) \<Rightarrow> 's mst \<Rightarrow> 's mst option" where
  "on_st f m = do { st \<leftarrow> f (ms_st m); Some (m\<lparr>ms_st := st\<rparr>) }"

definition mw_of :: "'s mst \<Rightarrow> 's mw" where
  "mw_of m = wd (ms_st m)"

text \<open>The loop of the client, through its pointer.\<close>

definition loop_of :: "'s mst \<Rightarrow> aeEventLoop option" where
  "loop_of m = (if rc_aeloop (mw_client (mw_of m)) then ae_loop (br_loop (mw_of m)) else None)"

definition on_loop :: "('s aes \<Rightarrow> 's aes option) \<Rightarrow> 's mst \<Rightarrow> 's mst option" where
  "on_loop f m =
     do {
       _ \<leftarrow> loop_of m;
       l \<leftarrow> f (br_loop (mw_of m));
       Some (m\<lparr>ms_st := upd_wd (\<lambda>w. w\<lparr>br_loop := l\<rparr>) (ms_st m)\<rparr>)
     }"

text \<open>
  The environment: the allocator, the system of the contexts and of the loop, and the calls that only
  this part makes. \<open>en_wait\<close> is what the other threads do while this one waits; \<open>None\<close> if they
  never wake it.
\<close>

datatype blocking = Connecting ptr timeval | Released ptr | Answer ptr int | Sleeping | Pausing

record 's env =
  en_alloc :: allocator
  en_sys :: "'s mw sys"
  en_epoll :: "'s esys"
  en_pipe :: "'s \<Rightarrow> (int \<times> int) \<times> 's"
  en_nonblock :: "int \<Rightarrow> 's \<Rightarrow> 's"
  en_drain :: "int \<Rightarrow> 's \<Rightarrow> int \<times> 's"
  en_poke :: "int \<Rightarrow> 's \<Rightarrow> 's"
  en_spawn :: "'s \<Rightarrow> bool \<times> 's"
  en_junk :: int
  en_wait :: "blocking \<Rightarrow> 's mst \<Rightarrow> 's mst option"

text \<open>A call of the system, whose state lies in the loop.\<close>

definition base_call :: "('s \<Rightarrow> 'a \<times> 's) \<Rightarrow> 's mst \<Rightarrow> 'a \<times> 's mst" where
  "base_call f m =
     (let l = br_loop (mw_of m); (r, s) = f (snd (ae_world l))
      in (r, m\<lparr>ms_st := upd_wd (\<lambda>w. w\<lparr>br_loop := l\<lparr>ae_world := (fst (ae_world l), s)\<rparr>\<rparr>) (ms_st m)\<rparr>))"

end
