(* ===== verification/MuxClient.thy ===== *)
theory MuxClient
  imports Mux
begin

text \<open>
  The life of the client of hiredis.c: starting and stopping the loop, connecting and
  reconnecting, handing requests to the connection, and freeing.
\<close>

section \<open>Freeing\<close>

definition freeXredisContext :: "ptr \<Rightarrow> 's mast \<Rightarrow> 's mast option" where
  "freeXredisContext p st =
     (if p = NULL then Some st
      else do { _ \<leftarrow> get_xc p st; Some (upd_wd (\<lambda>w. w\<lparr>mw_xcs := (mw_xcs w)(p := None)\<rparr>) st) })"

text \<open>\<^verbatim>\<open>xRedisAsyncFree(xc->ctx)\<close>.\<close>

definition free_ctx :: "'s env \<Rightarrow> ctxptr \<Rightarrow> 's mst \<Rightarrow> 's mst option" where
  "free_ctx en c m =
     (case c of
        NoCtx \<Rightarrow> on_st (xRedisAsyncFree mux_user (en_sys en) False) m
      | Plain _ \<Rightarrow> None
      | Actx p \<Rightarrow> do_ac p (xRedisAsyncFree mux_user (en_sys en) True) m)"

definition nodes_of :: "'s mst \<Rightarrow> ptr \<Rightarrow> listNode option" where
  "nodes_of m = lh_nodes (as_lists (ms_st m))"

definition on_lists :: "(unit lheap \<Rightarrow> unit lheap option) \<Rightarrow> 's mst \<Rightarrow> 's mst option" where
  "on_lists f = on_st (\<lambda>st. do { h \<leftarrow> f (as_lists st); Some (st\<lparr>as_lists := h\<rparr>) })"

partial_function (option) clear_reconn :: "'s env \<Rightarrow> ptr \<Rightarrow> ptr \<Rightarrow> 's mst \<Rightarrow> 's mst option" where
  "clear_reconn en l node m =
     (if node = NULL then Some m
      else do {
        n \<leftarrow> nodes_of m node;
        let xc = ln_value n;
        x \<leftarrow> get_xc xc (ms_st m);
        m \<leftarrow> free_ctx en (x_ctx x) m;
        m \<leftarrow> on_st (upd_xc xc (\<lambda>x. x\<lparr>x_ctx := NoCtx\<rparr>)) m;
        m \<leftarrow> on_st (freeXredisContext xc) m;
        n \<leftarrow> nodes_of m node;
        m \<leftarrow> on_lists (listDelNode l node) m;
        clear_reconn en l (ln_next n) m
      })"

partial_function (option) clear_free :: "'s env \<Rightarrow> ptr \<Rightarrow> ptr \<Rightarrow> 's mst \<Rightarrow> 's mst option" where
  "clear_free en l node m =
     (if node = NULL then Some m
      else do {
        n \<leftarrow> nodes_of m node;
        m \<leftarrow> free_ctx en (if ln_value n = NULL then NoCtx else Actx (ln_value n)) m;
        n \<leftarrow> nodes_of m node;
        m \<leftarrow> on_lists (listDelNode l node) m;
        clear_free en l (ln_next n) m
      })"

text \<open>Emptying and releasing one of the two lists of the client.\<close>

definition clear_list :: "(ptr \<Rightarrow> ptr \<Rightarrow> 's mst \<Rightarrow> 's mst option) \<Rightarrow> ptr \<Rightarrow> 's mst \<Rightarrow> 's mst option" where
  "clear_list clear l m =
     do {
       m \<leftarrow> (if l \<noteq> NULL then do { L \<leftarrow> lh_lists (as_lists (ms_st m)) l; clear l (al_head L) m } else Some m);
       on_lists (listRelease l) m
     }"

definition set_client :: "(redisClient \<Rightarrow> redisClient) \<Rightarrow> 's mst \<Rightarrow> 's mst" where
  "set_client f m = m\<lparr>ms_st := upd_client f (ms_st m)\<rparr>"

definition the_client :: "'s mst \<Rightarrow> redisClient" where
  "the_client m = client_of (ms_st m)"

definition clearClient :: "'s env \<Rightarrow> 's mst \<Rightarrow> 's mst option" where
  "clearClient en m =
     do {
       m \<leftarrow> on_loop (aeDeleteEventLoop (en_epoll en)) m;
       m \<leftarrow> on_st (lock ReconnMutex) m;
       m \<leftarrow> clear_list (clear_reconn en) (rc_reconn_list (the_client m)) m;
       m \<leftarrow> on_st (unlock ReconnMutex) (set_client (\<lambda>c. c\<lparr>rc_reconn_list := NULL\<rparr>) m);
       m \<leftarrow> on_st (lock ClientMutex) m;
       m \<leftarrow> clear_list (clear_free en) (rc_free_ac_list (the_client m)) m;
       m \<leftarrow> on_st (unlock ClientMutex) (set_client (\<lambda>c. c\<lparr>rc_free_ac_list := NULL\<rparr>) m);
       Some (set_client (\<lambda>c. c\<lparr>rc_aeloop := False\<rparr>) m)
     }"

section \<open>Handing the requests to the connection\<close>

partial_function (option) task_loop :: "'s env \<Rightarrow> ptr \<Rightarrow> ptr \<Rightarrow> int \<Rightarrow> 's mst \<Rightarrow> 's mst option" where
  "task_loop en xc p get_num m =
     do {
       ac \<leftarrow> ms_acs m p;
       L \<leftarrow> lh_lists (as_lists (ms_st m)) (ac_cmd_list ac);
       if al_len L = 0 \<or> al_head L = NULL then Some m
       else do {
         n \<leftarrow> nodes_of m (al_head L);
         m \<leftarrow> on_lists (listDelNode (ac_cmd_list ac) (al_head L)) m;
         if ln_value n = NULL then task_loop en xc p get_num m
         else do {
           ci \<leftarrow> get_ci (ln_value n) (ms_st m);
           x \<leftarrow> get_xc xc (ms_st m);
           q \<leftarrow> (case x_ctx x of Actx q \<Rightarrow> Some q | _ \<Rightarrow> None);
           cmd \<leftarrow> mw_bufs (mw_of m) (ci_cmd ci);
           (_, m) \<leftarrow> with_ac q (redisAsyncCommandHelper (en_alloc en) (en_sys en) REPLY_CALLBACK (ln_value n) cmd
                       (to_size (ci_len ci))) m;
           if get_num - 1 \<le> 0 then Some m else task_loop en xc p (get_num - 1) m
         }
       }
     }"

definition taskDeal :: "'s env \<Rightarrow> ptr \<Rightarrow> 's mst \<Rightarrow> 's mst option" where
  "taskDeal en xc m =
     do {
       x \<leftarrow> get_xc xc (ms_st m);
       let (get_num, m) = base_call (en_drain en (fst (x_task_fd x))) m;
       let get_num = (if get_num < 1 then 1024 else get_num);
       m \<leftarrow> on_st (lock (XcMutex xc)) m;
       x \<leftarrow> get_xc xc (ms_st m);
       if x_status x \<noteq> CONNECTED then on_st (unlock (XcMutex xc)) m
       else do {
         p \<leftarrow> (case x_ctx x of Actx p \<Rightarrow> Some p | _ \<Rightarrow> None);
         m \<leftarrow> task_loop en xc p get_num m;
         on_st (unlock (XcMutex xc)) m
       }
     }"

partial_function (option) free_loop :: "'s env \<Rightarrow> 's mst \<Rightarrow> 's mst option" where
  "free_loop en m =
     do {
       let l = rc_free_ac_list (the_client m);
       L \<leftarrow> lh_lists (as_lists (ms_st m)) l;
       if al_len L = 0 then Some m
       else if al_head L = NULL then free_loop en m
       else do {
         n \<leftarrow> nodes_of m (al_head L);
         m \<leftarrow> on_lists (listDelNode l (al_head L)) m;
         m \<leftarrow> (if ln_value n = NULL then Some m else free_ctx en (Actx (ln_value n)) m);
         free_loop en m
       }
     }"

definition freeAsyncContextDeal :: "'s env \<Rightarrow> 's mst \<Rightarrow> 's mst option" where
  "freeAsyncContextDeal en m =
     do { m \<leftarrow> on_st (lock ClientMutex) m; m \<leftarrow> free_loop en m; on_st (unlock ClientMutex) m }"

definition beforeSleepDeal :: "'s env \<Rightarrow> 's mst \<Rightarrow> 's mst option" where
  "beforeSleepDeal en m = freeAsyncContextDeal en m"

definition clientCron :: "int \<Rightarrow> ptr \<Rightarrow> int" where
  "clientCron i clientData = 1"

section \<open>The loop thread\<close>

text \<open>
  The event loop of ae.c over the whole state: its own fields are taken out of the world and its world
  is everything, and back.
\<close>

definition to_ae :: "'s mst \<Rightarrow> 's mst aes" where
  "to_ae m =
     (let l = br_loop (mw_of m)
      in \<lparr>ae_loop = ae_loop l, ae_times = ae_times l, ae_fresh = ae_fresh l, ae_requests = ae_requests l,
          ae_grants = ae_grants l, ae_junk = ae_junk l, ae_world = (fst (ae_world l), m)\<rparr>)"

definition from_ae :: "'s mst aes \<Rightarrow> 's mst" where
  "from_ae a =
     (let m = snd (ae_world a);
          l = \<lparr>ae_loop = ae_loop a, ae_times = ae_times a, ae_fresh = ae_fresh a, ae_requests = ae_requests a,
               ae_grants = ae_grants a, ae_junk = ae_junk a,
               ae_world = (fst (ae_world a), snd (ae_world (br_loop (mw_of m))))\<rparr>
      in m\<lparr>ms_st := upd_wd (\<lambda>w. w\<lparr>br_loop := l\<rparr>) (ms_st m)\<rparr>)"

definition lift_esys :: "'s esys \<Rightarrow> 's mst esys" where
  "lift_esys E =
     \<lparr>es_epoll_create = base_call (es_epoll_create E), es_epoll_ctl = \<lambda>ep op fd ev. base_call (es_epoll_ctl E ep op fd ev),
      es_epoll_wait = \<lambda>ep n t. base_call (es_epoll_wait E ep n t),
      es_close = \<lambda>fd m. snd (base_call (\<lambda>s. ((), es_close E fd s)) m),
      es_gettimeofday = base_call (es_gettimeofday E), es_time = base_call (es_time E),
      es_poll = \<lambda>fd ev t. base_call (es_poll E fd ev t)\<rparr>"

definition TASK_DEAL :: ptr where "TASK_DEAL = 6"
definition CLIENT_CRON :: ptr where "CLIENT_CRON = 7"
definition BEFORE_SLEEP :: ptr where "BEFORE_SLEEP = 8"

text \<open>The handlers by their addresses; while the loop is about to sleep the other threads run.\<close>

definition file_handler :: "'s env \<Rightarrow> ptr \<Rightarrow> ptr \<Rightarrow> 's mst \<Rightarrow> 's mst option" where
  "file_handler en f d m =
     (if f = TASK_DEAL then taskDeal en d m
      else if f = READ_EVENT
      then do { e \<leftarrow> br_events (mw_of m) d;
                do_ac (re_context e) (redisAeReadEvent (en_alloc en) mux_user (en_sys en) d) m }
      else if f = WRITE_EVENT
      then do { e \<leftarrow> br_events (mw_of m) d;
                do_ac (re_context e) (redisAeWriteEvent (en_alloc en) mux_user (en_sys en) d) m }
      else None)"

definition mux_procs :: "'s env \<Rightarrow> 's mst procs" where
  "mux_procs en =
     \<lparr>pr_file = \<lambda>f fd d msk a. map_option to_ae (file_handler en f d (from_ae a)),
      pr_time = \<lambda>f i d a. if f = CLIENT_CRON then Some (clientCron i d, a) else None,
      pr_finalizer = \<lambda>f d a. None,
      pr_sleep = \<lambda>f a. if f = BEFORE_SLEEP
        then do { m \<leftarrow> beforeSleepDeal en (from_ae a); m \<leftarrow> en_wait en Sleeping m; Some (to_ae m) } else None\<rparr>"

text \<open>The thread itself; it locks the client and clears it, which locks the client again.\<close>

definition startAeLoop :: "'s env \<Rightarrow> 's mst \<Rightarrow> 's mst option" where
  "startAeLoop en m =
     do {
       _ \<leftarrow> loop_of m;
       a \<leftarrow> aeMain (lift_esys (en_epoll en)) (mux_procs en) (to_ae m);
       m \<leftarrow> on_st (lock ClientMutex) (from_ae a);
       m \<leftarrow> clearClient en m;
       on_st (unlock ClientMutex) m
     }"

definition EVENT_SIZE :: int where "EVENT_SIZE = 1024"

text \<open>A thread could not be created.\<close>

definition give_up_client :: "'s env \<Rightarrow> int \<Rightarrow> 's mst \<Rightarrow> (int \<times> 's mst) option" where
  "give_up_client en rc m =
     do {
       l \<leftarrow> loop_of m;
       m \<leftarrow> (if \<not> el_stop l then on_loop aeStop m else Some m);
       m \<leftarrow> clearClient en m;
       m \<leftarrow> on_st (unlock ClientMutex) m;
       Some (rc, m)
     }"

text \<open>A list of the client, made when it is not there.\<close>

definition make_list :: "(redisClient \<Rightarrow> ptr) \<Rightarrow> (ptr \<Rightarrow> redisClient \<Rightarrow> redisClient) \<Rightarrow> 's mst \<Rightarrow> 's mst" where
  "make_list sel upd m =
     (if sel (the_client m) = NULL
      then (let (l, h) = listCreate (as_lists (ms_st m))
            in set_client (upd l) (m\<lparr>ms_st := (ms_st m)\<lparr>as_lists := h\<rparr>\<rparr>))
      else m)"

definition initMpClient :: "'s env \<Rightarrow> 's mst \<Rightarrow> (int \<times> 's mst) option" where
  "initMpClient en m =
     do {
       m \<leftarrow> on_st (lock ClientMutex) m;
       if rc_aeloop (the_client m) then do { m \<leftarrow> on_st (unlock ClientMutex) m; Some (0, m) }
       else do {
         let (ok, l) = aeCreateEventLoop (en_epoll en) EVENT_SIZE (br_loop (mw_of m));
         let m = m\<lparr>ms_st := upd_wd (\<lambda>w. w\<lparr>br_loop := l\<rparr>) (ms_st m)\<rparr>;
         if \<not> ok then do { m \<leftarrow> on_st (unlock ClientMutex) m; Some (- 1, m) }
         else do {
           let m = set_client (\<lambda>c. c\<lparr>rc_aeloop := True\<rparr>) m;
           m \<leftarrow> on_loop (\<lambda>l. map_option snd (aeCreateTimeEvent (en_epoll en) 1 CLIENT_CRON NULL NULL l)) m;
           let m = make_list rc_free_ac_list (\<lambda>l c. c\<lparr>rc_free_ac_list := l\<rparr>) m;
           m \<leftarrow> on_loop (aeSetBeforeSleepProc BEFORE_SLEEP) m;
           let m = make_list rc_reconn_list (\<lambda>l c. c\<lparr>rc_reconn_list := l\<rparr>) m;
           let (ok, m) = base_call (en_spawn en) m;
           if \<not> ok then give_up_client en (- 2) m
           else do {
             let (ok, m) = base_call (en_spawn en) m;
             if \<not> ok then give_up_client en (- 3) m
             else do { m \<leftarrow> on_st (unlock ClientMutex) m; Some (0, m) }
           }
         }
       }
     }"

section \<open>Connecting\<close>

text \<open>
  \<^verbatim>\<open>sscanf\<close> with \<^verbatim>\<open>%d\<close>: white space, a sign, digits; the number is read as a \<^verbatim>\<open>long\<close> and
  stored as an \<^verbatim>\<open>int\<close>.
\<close>

definition scan_int :: "string \<Rightarrow> (int \<times> string) option" where
  "scan_int s =
     (let s = dropWhile isspace s;
          neg = (s \<noteq> [] \<and> s ! 0 = CHR ''-'');
          s = (if s \<noteq> [] \<and> (s ! 0 = CHR ''-'' \<or> s ! 0 = CHR ''+'') then drop 1 s else s);
          ds = takeWhile isdigit s;
          v = foldl (\<lambda>v c. 10 * v + (chr_val c - 48)) 0 ds
      in if ds = [] then None
         else Some (s32 (if neg then max (- (2 ^ 63)) (- v) else min (2 ^ 63 - 1) v), dropWhile isdigit s))"

definition scan_dot :: "string \<Rightarrow> string option" where
  "scan_dot s = (if s \<noteq> [] \<and> s ! 0 = CHR ''.'' then Some (drop 1 s) else None)"

definition in_byte :: "int \<Rightarrow> bool" where
  "in_byte a \<longleftrightarrow> \<not> (a < 0 \<or> a > 255)"

text \<open>A fifth conversion, of the character behind the numbers, must not succeed.\<close>

definition isValidIP :: "string \<Rightarrow> bool" where
  "isValidIP str =
     (case do { (a, s) \<leftarrow> scan_int str; s \<leftarrow> scan_dot s; (b, s) \<leftarrow> scan_int s; s \<leftarrow> scan_dot s;
                (c, s) \<leftarrow> scan_int s; s \<leftarrow> scan_dot s; (d, s) \<leftarrow> scan_int s; Some (a, b, c, d, s) } of
        None \<Rightarrow> False
      | Some (a, b, c, d, s) \<Rightarrow> s = [] \<and> in_byte a \<and> in_byte b \<and> in_byte c \<and> in_byte d)"

text \<open>
  The hooks of the event loop and the callbacks for a context, and the event for the pipe of its
  multiplexing context. None of the results is looked at.
\<close>

definition attach_hooks :: "'s env \<Rightarrow> ptr \<Rightarrow> 's mst \<Rightarrow> 's mst option" where
  "attach_hooks en p m =
     do {
       (_, m) \<leftarrow> with_ac p (redisAeAttach (en_epoll en) p) m;
       (_, m) \<leftarrow> with_ac p (redisAsyncSetConnectCallback CONNECTED_CALLBACK) m;
       (_, m) \<leftarrow> with_ac p (redisAsyncSetDisconnectCallback DISCONNECTED_CALLBACK) m;
       ac \<leftarrow> ms_acs m p;
       x \<leftarrow> get_xc (ac_xc ac) (ms_st m);
       on_loop (\<lambda>l. map_option snd
         (aeCreateFileEvent (en_epoll en) (fst (x_task_fd x)) AE_READABLE TASK_DEAL (ac_xc ac) l)) m
     }"

definition initAttachContext :: "'s env \<Rightarrow> ptr \<Rightarrow> 's mst \<Rightarrow> (int \<times> 's mst) option" where
  "initAttachContext en p m =
     (if p = NULL then Some (- 1, m)
      else do {
        m \<leftarrow> on_st (lock ClientMutex) m;
        m \<leftarrow> attach_hooks en p m;
        m \<leftarrow> on_st (unlock ClientMutex) m;
        Some (0, m)
      })"

definition initAttachContextNoLock :: "'s env \<Rightarrow> ptr \<Rightarrow> 's mst \<Rightarrow> (int \<times> 's mst) option" where
  "initAttachContextNoLock en p m =
     (if p = NULL then Some (- 1, m) else do { m \<leftarrow> attach_hooks en p m; Some (0, m) })"

text \<open>\<^verbatim>\<open>pthread_cond_timedwait(&xc->cond,&xc->mutex, ..)\<close>: the mutex is free while the others run.\<close>

definition cond_wait :: "'s env \<Rightarrow> blocking \<Rightarrow> ptr \<Rightarrow> 's mst \<Rightarrow> 's mst option" where
  "cond_wait en b xc m =
     do { m \<leftarrow> on_st (unlock (XcMutex xc)) m; m \<leftarrow> en_wait en b m; on_st (lock (XcMutex xc)) m }"

text \<open>The context \<^verbatim>\<open>ac->xc\<close>, through a pointer to a context that may be gone.\<close>

definition xc_of :: "ptr \<Rightarrow> 's mst \<Rightarrow> ptr option" where
  "xc_of p m = map_option ac_xc (ms_acs m p)"

definition attachAsyncNoLock :: "'s env \<Rightarrow> ptr \<Rightarrow> timeval \<Rightarrow> 's mst \<Rightarrow> (int \<times> 's mst) option" where
  "attachAsyncNoLock en p tv m =
     do {
       (rc, m) \<leftarrow> initAttachContext en p m;
       if rc \<noteq> 0 then Some (- 1, m)
       else do {
         xc \<leftarrow> xc_of p m;
         m \<leftarrow> cond_wait en (Connecting xc tv) xc m;
         xc \<leftarrow> xc_of p m;
         x \<leftarrow> get_xc xc (ms_st m);
         Some (if x_status x \<noteq> CONNECTED then - 3 else REDIS_OK, m)
       }
     }"

definition attachAsync :: "'s env \<Rightarrow> ptr \<Rightarrow> timeval \<Rightarrow> 's mst \<Rightarrow> (int \<times> 's mst) option" where
  "attachAsync en p tv m =
     do {
       xc \<leftarrow> xc_of p m;
       m \<leftarrow> on_st (lock (XcMutex xc)) m;
       (rc, m) \<leftarrow> attachAsyncNoLock en p tv m;
       xc \<leftarrow> xc_of p m;
       m \<leftarrow> on_st (unlock (XcMutex xc)) m;
       Some (rc, m)
     }"

text \<open>Neither the \<^verbatim>\<open>malloc\<close> nor the pipe is checked; the status is not set.\<close>

definition xRedisContextInit :: "'s env \<Rightarrow> string \<Rightarrow> int \<Rightarrow> 's mst \<Rightarrow> (ptr \<times> 's mst) option" where
  "xRedisContextInit en ip port m =
     do {
       let (ok, st) = mw_malloc (ms_st m);
       (if ok then Some () else None);
       let (xc, st) = mw_new st;
       let ((r, w), m) = base_call (en_pipe en) (m\<lparr>ms_st := st\<rparr>);
       let (_, m) = base_call (\<lambda>s. ((), en_nonblock en r s)) m;
       let (_, m) = base_call (\<lambda>s. ((), en_nonblock en w s)) m;
       let x = \<lparr>x_ctx = NoCtx, x_ip = strdup (en_alloc en) ip, x_port = port, x_status = en_junk en,
                x_wait_time_reconn = 1, x_remain_wait_reconn = 0, x_task_fd = (r, w)\<rparr>;
       Some (xc, m\<lparr>ms_st := upd_wd (\<lambda>w. w\<lparr>mw_xcs := (mw_xcs w)(xc \<mapsto> x)\<rparr>) (ms_st m)\<rparr>)
     }"

definition set_ctx :: "ptr \<Rightarrow> ctxptr \<Rightarrow> 's mst \<Rightarrow> 's mst option" where
  "set_ctx xc c m = on_st (upd_xc xc (\<lambda>x. x\<lparr>x_ctx := c\<rparr>)) m"

definition set_status :: "ptr \<Rightarrow> int \<Rightarrow> 's mst \<Rightarrow> 's mst option" where
  "set_status xc n m = on_st (upd_xc xc (\<lambda>x. x\<lparr>x_status := n\<rparr>)) m"

text \<open>\<^verbatim>\<open>redisFree(xc->ctx)\<close> and the pointer set to NULL, and the context with it.\<close>

definition free_plain :: "'s env \<Rightarrow> ptr \<Rightarrow> 's mst \<Rightarrow> 's mst option" where
  "free_plain en xc m =
     do {
       x \<leftarrow> get_xc xc (ms_st m);
       c \<leftarrow> (case x_ctx x of Plain c \<Rightarrow> Some c | _ \<Rightarrow> None);
       m \<leftarrow> on_st (\<lambda>st. do { (h, s) \<leftarrow> redisFree (en_sys en) (Some c) (as_heap st) (wd st);
                             Some (upd_wd (\<lambda>_. s) (st\<lparr>as_heap := h\<rparr>)) }) m;
       set_ctx xc NoCtx m
     }"

definition xRedisFreeContext :: "'s env \<Rightarrow> ptr \<Rightarrow> 's mst \<Rightarrow> 's mst option" where
  "xRedisFreeContext en xc m =
     (if xc = NULL then Some m
      else do {
        x \<leftarrow> get_xc xc (ms_st m);
        m \<leftarrow> (if x_ctx x \<noteq> NoCtx then free_plain en xc m else Some m);
        on_st (freeXredisContext xc) m
      })"

text \<open>
  Starting to connect a context and making it asynchronous; the result of the connect is not looked
  at. \<open>False\<close> if the memory for the asynchronous part is refused.
\<close>

definition begin_connect ::
    "'s env \<Rightarrow> ptr \<Rightarrow> redisContext \<Rightarrow> string option \<Rightarrow> string option \<Rightarrow> int \<Rightarrow> 's mst \<Rightarrow> (bool \<times> ptr \<times> 's mst) option" where
  "begin_connect en xc c source_addr ip port m =
     do {
       ip \<leftarrow> ip;
       (_, c, w) \<leftarrow> redisContextConnectBindTcp (en_alloc en) (en_sys en) c (Given ip) port None
                     (map_option Given source_addr) (as_world (ms_st m));
       m \<leftarrow> set_ctx xc (Plain c) (m\<lparr>ms_st := (ms_st m)\<lparr>as_world := w\<rparr>\<rparr>);
       let (ok, st) = redisAsyncInitializeHelper (en_alloc en) c (ms_st m);
       if \<not> ok then Some (False, NULL, m)
       else do {
         st \<leftarrow> redisAsyncCopyErrorHelper st;
         ac \<leftarrow> as_ac st;
         let p = ms_fresh_ac m;
         m \<leftarrow> set_ctx xc (Actx p) (m\<lparr>ms_acs := (ms_acs m)(p \<mapsto> ac\<lparr>ac_xc := xc\<rparr>), ms_fresh_ac := p + 1,
                                        ms_st := st\<lparr>as_ac := None\<rparr>\<rparr>);
         Some (True, p, m)
       }
     }"

definition non_blocking :: "redisContext \<Rightarrow> redisContext" where
  "non_blocking c = c\<lparr>c_flags := clear_flag (c_flags c) REDIS_BLOCK\<rparr>"

text \<open>What the functions that make a multiplexing context do.\<close>

definition connect_new ::
    "'s env \<Rightarrow> (redisContext \<Rightarrow> redisContext) \<Rightarrow> string option \<Rightarrow> string option \<Rightarrow> int \<Rightarrow> timeval \<Rightarrow> 's mst \<Rightarrow>
     (ptr \<times> 's mst) option" where
  "connect_new en setup source_addr ip port tv m =
     (case ip of
        None \<Rightarrow> Some (NULL, m)
      | Some ip \<Rightarrow>
          if port < 0 \<or> \<not> isValidIP ip then Some (NULL, m)
          else do {
            (ret, m) \<leftarrow> initMpClient en m;
            if ret \<noteq> 0 then Some (NULL, m)
            else do {
              (xc, m) \<leftarrow> xRedisContextInit en ip port m;
              case redisContextInit (en_alloc en) of
                None \<Rightarrow> do { m \<leftarrow> on_st (freeXredisContext xc) m; Some (NULL, m) }
              | Some c \<Rightarrow>
                  do {
                    m \<leftarrow> set_status xc 0 m;
                    (ok, p, m) \<leftarrow> begin_connect en xc (setup (non_blocking c)) source_addr (Some ip) port m;
                    if \<not> ok then do { m \<leftarrow> xRedisFreeContext en xc m; Some (NULL, m) }
                    else do {
                      (ret, m) \<leftarrow> attachAsync en p tv m;
                      if ret \<noteq> REDIS_OK then do { m \<leftarrow> on_st (freeXredisContext xc) m; Some (NULL, m) }
                      else Some (xc, m)
                    }
                  }
            }
          })"

definition xRedisConnectNonBlockTimeOut :: "'s env \<Rightarrow> string option \<Rightarrow> int \<Rightarrow> timeval \<Rightarrow> 's mst \<Rightarrow> (ptr \<times> 's mst) option" where
  "xRedisConnectNonBlockTimeOut en ip port tv m = connect_new en (\<lambda>c. c) None ip port tv m"

definition client_timeout :: "'s mst \<Rightarrow> timeval" where
  "client_timeout m = \<lparr>tv_sec = rc_timeout (the_client m), tv_usec = 0\<rparr>"

definition xRedisConnectWithTimeout :: "'s env \<Rightarrow> string option \<Rightarrow> int \<Rightarrow> timeval \<Rightarrow> 's mst \<Rightarrow> (ptr \<times> 's mst) option" where
  "xRedisConnectWithTimeout en ip port tv m = xRedisConnectNonBlockTimeOut en ip port tv m"

definition xRedisConnect :: "'s env \<Rightarrow> string option \<Rightarrow> int \<Rightarrow> 's mst \<Rightarrow> (ptr \<times> 's mst) option" where
  "xRedisConnect en ip port m = xRedisConnectWithTimeout en ip port (client_timeout m) m"

definition xRedisConnectNonBlock :: "'s env \<Rightarrow> string option \<Rightarrow> int \<Rightarrow> 's mst \<Rightarrow> (ptr \<times> 's mst) option" where
  "xRedisConnectNonBlock en ip port m = xRedisConnectNonBlockTimeOut en ip port (client_timeout m) m"

definition xRedisConnectBindNonBlock :: "'s env \<Rightarrow> string option \<Rightarrow> int \<Rightarrow> string \<Rightarrow> 's mst \<Rightarrow> (ptr \<times> 's mst) option" where
  "xRedisConnectBindNonBlock en ip port source_addr m =
     connect_new en (\<lambda>c. c) (Some source_addr) ip port (client_timeout m) m"

definition xRedisConnectBindNonBlockWithReuse ::
    "'s env \<Rightarrow> string option \<Rightarrow> int \<Rightarrow> string \<Rightarrow> 's mst \<Rightarrow> (ptr \<times> 's mst) option" where
  "xRedisConnectBindNonBlockWithReuse en ip port source_addr m =
     connect_new en (\<lambda>c. c\<lparr>c_flags := set_flag (c_flags c) REDIS_REUSEADDR\<rparr>) (Some source_addr) ip port (client_timeout m) m"

section \<open>Reconnecting\<close>

text \<open>What both reconnect functions do once there is a context; \<open>attach\<close> waits for the connection.\<close>

definition reconnect_ctx ::
    "'s env \<Rightarrow> (ptr \<Rightarrow> 's mst \<Rightarrow> (int \<times> 's mst) option) \<Rightarrow> ptr \<Rightarrow> redisContext \<Rightarrow> 's mst \<Rightarrow> (int \<times> 's mst) option" where
  "reconnect_ctx en attach xc c m =
     do {
       x \<leftarrow> get_xc xc (ms_st m);
       (ok, p, m) \<leftarrow> begin_connect en xc (non_blocking c) None (x_ip x) (x_port x) m;
       if \<not> ok then do { m \<leftarrow> free_plain en xc m; Some (REDIS_ERR, m) }
       else do {
         (ret, m) \<leftarrow> attach p m;
         if ret \<noteq> REDIS_OK then do { m \<leftarrow> set_ctx xc NoCtx m; Some (ret, m) } else Some (REDIS_OK, m)
       }
     }"

definition xRedisReconnectNoLock :: "'s env \<Rightarrow> ptr \<Rightarrow> 's mst \<Rightarrow> (int \<times> 's mst) option" where
  "xRedisReconnectNoLock en xc m =
     (if xc = NULL then Some (REDIS_ERR, m)
      else case redisContextInit (en_alloc en) of
             None \<Rightarrow> do { m \<leftarrow> set_ctx xc NoCtx m; Some (REDIS_ERR, m) }
           | Some c \<Rightarrow> reconnect_ctx en (\<lambda>p m. attachAsyncNoLock en p (client_timeout m) m) xc c m)"

definition xRedisReconnectConnectNonBlock :: "'s env \<Rightarrow> ptr \<Rightarrow> 's mst \<Rightarrow> (int \<times> 's mst) option" where
  "xRedisReconnectConnectNonBlock en xc m =
     (if xc = NULL then Some (REDIS_ERR, m)
      else do {
        x \<leftarrow> get_xc xc (ms_st m);
        m \<leftarrow> (if x_ctx x \<noteq> NoCtx then free_ctx en (x_ctx x) m else Some m);
        case redisContextInit (en_alloc en) of
          None \<Rightarrow> do { m \<leftarrow> set_ctx xc NoCtx m; Some (REDIS_ERR, m) }
        | Some c \<Rightarrow>
            do {
              m \<leftarrow> set_status xc 0 m;
              (ret, m) \<leftarrow> reconnect_ctx en (\<lambda>p m. attachAsync en p (client_timeout m) m) xc c m;
              Some (if ret \<noteq> REDIS_OK then REDIS_ERR else REDIS_OK, m)
            }
      })"

definition xRedisReconnect :: "'s env \<Rightarrow> ptr \<Rightarrow> 's mst \<Rightarrow> (int \<times> 's mst) option" where
  "xRedisReconnect en xc m = xRedisReconnectConnectNonBlock en xc m"

text \<open>One visit of the list of contexts to reconnect.\<close>

partial_function (option) reconnect_round :: "'s env \<Rightarrow> ptr \<Rightarrow> ptr \<Rightarrow> 's mst \<Rightarrow> 's mst option" where
  "reconnect_round en l node m =
     (if node = NULL then Some m
      else do {
        n \<leftarrow> nodes_of m node;
        let xc = ln_value n;
        x \<leftarrow> get_xc xc (ms_st m);
        m \<leftarrow> (if x_remain_wait_reconn x = 0
              then do {
                m \<leftarrow> on_st (lock (XcMutex xc)) m;
                (ret, m) \<leftarrow> xRedisReconnectNoLock en xc m;
                m \<leftarrow> on_st (unlock (XcMutex xc)) m;
                if ret \<noteq> REDIS_OK
                then on_st (upd_xc xc (\<lambda>x. x\<lparr>x_wait_time_reconn := u32 (2 * x_wait_time_reconn x),
                       x_remain_wait_reconn := u32 (2 * x_wait_time_reconn x)\<rparr>)) m
                else do {
                  m \<leftarrow> on_lists (listDelNode l node) m;
                  on_st (upd_xc xc (\<lambda>x. x\<lparr>x_wait_time_reconn := 1, x_remain_wait_reconn := 0\<rparr>)) m
                }
              }
              else on_st (upd_xc xc (\<lambda>x. x\<lparr>x_remain_wait_reconn := x_remain_wait_reconn x - 1\<rparr>)) m);
        reconnect_round en l (ln_next n) m
      })"

partial_function (option) reconnectDis :: "'s env \<Rightarrow> 's mst \<Rightarrow> 's mst option" where
  "reconnectDis en m =
     do {
       l \<leftarrow> loop_of m;
       if el_stop l then Some m
       else do {
         m \<leftarrow> on_st (lock ReconnMutex) m;
         L \<leftarrow> lh_lists (as_lists (ms_st m)) (rc_reconn_list (the_client m));
         m \<leftarrow> (if al_len L \<noteq> 0 then reconnect_round en (rc_reconn_list (the_client m)) (al_head L) m else Some m);
         m \<leftarrow> on_st (unlock ReconnMutex) m;
         m \<leftarrow> en_wait en Pausing m;
         reconnectDis en m
       }
     }"

end
