(* ===== verification/Request.thy ===== *)
theory Request
  imports MuxClient
begin

text \<open>
  The requests of hiredis.c: a caller puts its command on the list of the connection, wakes the loop
  thread, waits for the answer and takes it; and the other functions of the interface.
\<close>

section \<open>One request\<close>

text \<open>
  \<^verbatim>\<open>__xRedisCommand\<close> up to the wait: the context the request was queued for and the request, or
  nothing when NULL is returned. The \<^verbatim>\<open>malloc\<close> is not checked.
\<close>

definition new_request :: "ptr \<Rightarrow> int \<Rightarrow> 's mst \<Rightarrow> (ptr \<times> 's mst) option" where
  "new_request cmd len m =
     do {
       let (ok, st) = mw_malloc (ms_st m);
       (if ok then Some () else None);
       let (ci, st) = mw_new st;
       let c = \<lparr>ci_cmd = cmd, ci_len = len, ci_reply = NULL, ci_reference = 1, ci_reply_sem = Some 0\<rparr>;
       Some (ci, m\<lparr>ms_st := upd_wd (\<lambda>w. w\<lparr>mw_cis := (mw_cis w)(ci := c)\<rparr>) (st\<lparr>as_tasks := insert ci (as_tasks st)\<rparr>)\<rparr>)
     }"

definition enqueue :: "'s env \<Rightarrow> ptr \<Rightarrow> ptr \<Rightarrow> int \<Rightarrow> 's mst \<Rightarrow> ((ptr \<times> ptr) option \<times> 's mst) option" where
  "enqueue en xc cmd len m =
     do {
       l \<leftarrow> loop_of m;
       x \<leftarrow> (if el_stop l then Some None else map_option Some (get_xc xc (ms_st m)));
       if x = None \<or> x_status (the x) \<noteq> CONNECTED then Some (None, m)
       else do {
         (ci, m) \<leftarrow> new_request cmd len m;
         m \<leftarrow> on_st (lock (XcMutex xc)) m;
         x \<leftarrow> get_xc xc (ms_st m);
         if x_ctx x = NoCtx
         then do { m \<leftarrow> on_st (unlock (XcMutex xc)) m; m \<leftarrow> on_st (free_task ci) m; Some (None, m) }
         else do {
           p \<leftarrow> (case x_ctx x of Actx p \<Rightarrow> Some p | _ \<Rightarrow> None);
           (_, st) \<leftarrow> ci_add ci 1 (ms_st m);
           let m = m\<lparr>ms_st := st\<rparr>;
           x \<leftarrow> get_xc xc (ms_st m);
           if x_status x \<noteq> CONNECTED
           then do { m \<leftarrow> on_st (free_ci ci) m; m \<leftarrow> on_st (unlock (XcMutex xc)) m; Some (None, m) }
           else do {
             ac \<leftarrow> ms_acs m p;
             m \<leftarrow> on_lists (\<lambda>h. map_option snd (listAddNodeTail (mw_node (mw_of m)) (ac_cmd_list ac) ci h)) m;
             m \<leftarrow> on_st (unlock (XcMutex xc)) m;
             let (_, m) = base_call (\<lambda>s. ((), en_poke en (snd (x_task_fd x)) s)) m;
             Some (Some (p, ci), m)
           }
         }
       }
     }"

text \<open>Waiting for the semaphore, unless the answer is there.\<close>

definition await :: "'s env \<Rightarrow> ptr \<Rightarrow> 's mst \<Rightarrow> 's mst option" where
  "await en ci m =
     do {
       c \<leftarrow> get_ci ci (ms_st m);
       if ci_reply c = NULL then en_wait en (Answer ci (rc_timeout (the_client m))) m else Some m
     }"

text \<open>
  Taking the answer and giving up the reference. The second part runs when somebody else still has
  one: it searches the list of the context without its mutex.
\<close>

definition collect :: "ptr \<Rightarrow> 's mst \<Rightarrow> (ptr \<times> int \<times> 's mst) option" where
  "collect ci m =
     do {
       c \<leftarrow> get_ci ci (ms_st m);
       (ref, st) \<leftarrow> ci_add ci (- 1) (ms_st m);
       Some (ci_reply c, ref, m\<lparr>ms_st := st\<rparr>)
     }"

definition abandon :: "ptr \<Rightarrow> ptr \<Rightarrow> ptr \<Rightarrow> 's mst \<Rightarrow> 's mst option" where
  "abandon xc p ci m =
     do {
       ac \<leftarrow> ms_acs m p;
       node \<leftarrow> listSearchKey (ac_cmd_list ac) ci (as_lists (ms_st m));
       m \<leftarrow> (if node \<noteq> NULL then on_lists (listDelNode (ac_cmd_list ac) node) m else Some m);
       x \<leftarrow> get_xc xc (ms_st m);
       if x_status x \<noteq> CONNECTED then on_st (free_ci ci) m else Some m
     }"

definition xRedisCommandRaw :: "'s env \<Rightarrow> ptr \<Rightarrow> ptr \<Rightarrow> int \<Rightarrow> 's mst \<Rightarrow> (ptr \<times> 's mst) option" where
  "xRedisCommandRaw en xc cmd len m =
     do {
       (q, m) \<leftarrow> enqueue en xc cmd len m;
       case q of
         None \<Rightarrow> Some (NULL, m)
       | Some (p, ci) \<Rightarrow>
           do {
             m \<leftarrow> await en ci m;
             (reply, ref, m) \<leftarrow> collect ci m;
             m \<leftarrow> (if ref \<le> 0 then on_st (free_ci ci) m else abandon xc p ci m);
             Some (reply, m)
           }
     }"

section \<open>The interface\<close>

text \<open>
  A command in a buffer, which is freed after the call. When formatting failed, the error is
  written into \<^verbatim>\<open>c\<close> as if it were a \<^verbatim>\<open>redisContext\<close>, over the fields of the
  multiplexing context: a fault.
\<close>

definition with_command :: "'s env \<Rightarrow> ptr \<Rightarrow> char list \<Rightarrow> int \<Rightarrow> 's mst \<Rightarrow> (ptr \<times> 's mst) option" where
  "with_command en xc bytes len m =
     do {
       let (cmd, st) = mw_new (ms_st m);
       let m = m\<lparr>ms_st := upd_wd (\<lambda>w. w\<lparr>mw_bufs := (mw_bufs w)(cmd \<mapsto> bytes)\<rparr>) st\<rparr>;
       (reply, m) \<leftarrow> xRedisCommandRaw en xc cmd len m;
       Some (reply, m\<lparr>ms_st := upd_wd (\<lambda>w. w\<lparr>mw_bufs := (mw_bufs w)(cmd := None)\<rparr>) (ms_st m)\<rparr>)
     }"

definition xRedisvCommand ::
    "'s env \<Rightarrow> (string \<Rightarrow> 'd \<Rightarrow> string) \<Rightarrow> ptr \<Rightarrow> string \<Rightarrow> 'd varg list \<Rightarrow> 's mst \<Rightarrow> (ptr \<times> 's mst) option" where
  "xRedisvCommand en fd c format ap m =
     (if c = NULL then Some (NULL, m)
      else do {
        (len, cmd) \<leftarrow> redisvFormatCommand (en_alloc en) fd True format ap;
        if len = - 1 \<or> len = - 2 then None
        else do { cmd \<leftarrow> cmd; with_command en c cmd len m }
      })"

definition xRedisCommand ::
    "'s env \<Rightarrow> (string \<Rightarrow> 'd \<Rightarrow> string) \<Rightarrow> ptr \<Rightarrow> string \<Rightarrow> 'd varg list \<Rightarrow> 's mst \<Rightarrow> (ptr \<times> 's mst) option" where
  "xRedisCommand en fd c format ap m = (if c = NULL then Some (NULL, m) else xRedisvCommand en fd c format ap m)"

definition xRedisCommandArgv ::
    "'s env \<Rightarrow> ptr \<Rightarrow> int \<Rightarrow> char list list \<Rightarrow> nat list option \<Rightarrow> 's mst \<Rightarrow> (ptr \<times> 's mst) option" where
  "xRedisCommandArgv en c argc argv argvlen m =
     (if c = NULL then Some (NULL, m)
      else do {
        (len, cmd) \<leftarrow> redisFormatSdsCommandArgv (en_alloc en) True argc argv argvlen;
        if len = - 1 then None
        else do { cmd \<leftarrow> cmd; with_command en c (buf cmd) len m }
      })"

definition xStopClient :: "'s mst \<Rightarrow> 's mst option" where
  "xStopClient m =
     do {
       m \<leftarrow> on_st (lock ClientMutex) m;
       m \<leftarrow> (if rc_aeloop (the_client m)
             then do { l \<leftarrow> loop_of m; if \<not> el_stop l then on_loop aeStop m else Some m }
             else Some m);
       on_st (unlock ClientMutex) m
     }"

text \<open>Marking the context as freed and queueing it for the loop thread.\<close>

definition hand_over :: "ptr \<Rightarrow> 's mst \<Rightarrow> (bool \<times> 's mst) option" where
  "hand_over xc m =
     do {
       m \<leftarrow> on_st (lock ClientMutex) m;
       x \<leftarrow> get_xc xc (ms_st m);
       (need_wait, m) \<leftarrow>
         (case x_ctx x of
            NoCtx \<Rightarrow> Some (False, m)
          | Plain _ \<Rightarrow> None
          | Actx p \<Rightarrow>
              do {
                ac \<leftarrow> ms_acs m p;
                let m = m\<lparr>ms_acs := (ms_acs m)(p \<mapsto> ac\<lparr>ac_status := s32 (ac_status ac + FREED_CONTEXT)\<rparr>)\<rparr>;
                m \<leftarrow> on_lists (\<lambda>h. map_option snd (listAddNodeTail (mw_node (mw_of m)) (rc_free_ac_list (the_client m)) p h)) m;
                Some (True, m)
              });
       m \<leftarrow> on_st (unlock ClientMutex) m;
       Some (need_wait, m)
     }"

definition xRedisFree :: "'s env \<Rightarrow> ptr \<Rightarrow> 's mst \<Rightarrow> 's mst option" where
  "xRedisFree en xc m =
     do {
       (need_wait, m) \<leftarrow> hand_over xc m;
       m \<leftarrow> on_st (lock ReconnMutex) m;
       node \<leftarrow> listSearchKey (rc_reconn_list (the_client m)) xc (as_lists (ms_st m));
       m \<leftarrow> (if node \<noteq> NULL then on_lists (listDelNode (rc_reconn_list (the_client m)) node) m else Some m);
       m \<leftarrow> on_st (unlock ReconnMutex) m;
       m \<leftarrow> (if need_wait
             then do { m \<leftarrow> on_st (lock (XcMutex xc)) m; m \<leftarrow> cond_wait en (Released xc) xc m; on_st (unlock (XcMutex xc)) m }
             else Some m);
       on_st (freeXredisContext xc) m
     }"

definition xSetTimeout :: "int \<Rightarrow> 's mst \<Rightarrow> 's mst" where
  "xSetTimeout timeout = set_client (\<lambda>c. c\<lparr>rc_timeout := timeout\<rparr>)"

end
