(* ===== verification/Handoff.thy ===== *)
theory Handoff
  imports Main
begin

text \<open>
  How requests are handed between the threads: an abstract machine of the calling threads and the
  loop thread, interleaved at the steps of \<^verbatim>\<open>__xRedisCommand\<close>, \<^verbatim>\<open>taskDeal\<close>, \<^verbatim>\<open>replyCallback\<close> and
  \<^verbatim>\<open>disconnectedCallback\<close>. The theory Threads relates the steps to the definitions that model the code.
\<close>

section \<open>The machine\<close>

record 'r hcell =
  hc_ref :: int
  hc_reply :: "'r option"
  hc_sem :: nat

text \<open>
  Where a caller is: the command, the request, and the number of the context it was queued for.
  It is leaving between giving up its reference and searching the list.
\<close>

datatype ('c, 'r) phase = Idle | Waiting 'c nat nat | Leaving 'c nat nat "'r option" | Done 'c "'r option"

text \<open>
  The requests in memory and whose command each one carries, the list of the connection, the requests
  sent and not yet answered, the commands the server has to answer, whether the context is usable, lost
  and allocated, the number of the context, the callers, and the requests that nobody will free.
\<close>

record ('c, 'r) hand =
  h_cells :: "nat \<Rightarrow> 'r hcell option"
  h_cmd :: "nat \<Rightarrow> 'c"
  h_list :: "nat list"
  h_pending :: "nat list"
  h_wire :: "'c list"
  h_up :: bool
  h_lost :: bool
  h_ctx :: bool
  h_gen :: nat
  h_phase :: "nat \<Rightarrow> ('c, 'r) phase"
  h_leaked :: "nat set"

datatype ('c, 'r) act =
    Issue nat 'c nat
  | Take
  | Answer 'r
  | Lose
  | Hang_up
  | Clear
  | Close
  | Reconnect
  | Collect nat
  | Abandon nat

text \<open>\<^verbatim>\<open>replyCallback\<close> for a request; one that is gone is a fault.\<close>

definition reply_to :: "nat \<Rightarrow> 'r option \<Rightarrow> ('c, 'r) hand \<Rightarrow> ('c, 'r) hand option" where
  "reply_to p r h =
     (case h_cells h p of
        None \<Rightarrow> None
      | Some c \<Rightarrow>
          if hc_ref c - 1 \<le> 0 then Some (h\<lparr>h_cells := (h_cells h)(p := None)\<rparr>)
          else Some (h\<lparr>h_cells := (h_cells h)(p := Some \<lparr>hc_ref = hc_ref c - 1, hc_reply = r, hc_sem = hc_sem c + 1\<rparr>)\<rparr>))"

text \<open>One reference less for a request of the list that is cleared.\<close>

definition unlist :: "nat \<Rightarrow> ('c, 'r) hand \<Rightarrow> ('c, 'r) hand option" where
  "unlist p h =
     (case h_cells h p of
        None \<Rightarrow> None
      | Some c \<Rightarrow>
          if hc_ref c - 1 = 0 then Some (h\<lparr>h_cells := (h_cells h)(p := None)\<rparr>)
          else Some (h\<lparr>h_cells := (h_cells h)(p := Some (c\<lparr>hc_ref := hc_ref c - 1\<rparr>))\<rparr>))"

fun unlist_all :: "nat list \<Rightarrow> ('c, 'r) hand \<Rightarrow> ('c, 'r) hand option" where
  "unlist_all [] h = Some h"
| "unlist_all (p # ps) h = (case unlist p h of None \<Rightarrow> None | Some h \<Rightarrow> unlist_all ps h)"

definition set_phase :: "nat \<Rightarrow> ('c, 'r) phase \<Rightarrow> ('c, 'r) hand \<Rightarrow> ('c, 'r) hand" where
  "set_phase t ph h = h\<lparr>h_phase := (h_phase h)(t := ph)\<rparr>"

definition collect_step :: "nat \<Rightarrow> 'c \<Rightarrow> nat \<Rightarrow> nat \<Rightarrow> ('c, 'r) hand \<Rightarrow> ('c, 'r) hand option" where
  "collect_step t c p g h =
     (case h_cells h p of
        None \<Rightarrow> None
      | Some x \<Rightarrow>
          if hc_ref x - 1 \<le> 0
          then Some (set_phase t (Done c (hc_reply x)) (h\<lparr>h_cells := (h_cells h)(p := None)\<rparr>))
          else Some (set_phase t (Leaving c p g (hc_reply x))
                 (h\<lparr>h_cells := (h_cells h)(p := Some (x\<lparr>hc_ref := hc_ref x - 1\<rparr>))\<rparr>)))"

text \<open>Searching the list of a context that is gone is a fault, and so is freeing a request twice.\<close>

definition abandon_step :: "nat \<Rightarrow> 'c \<Rightarrow> nat \<Rightarrow> nat \<Rightarrow> 'r option \<Rightarrow> ('c, 'r) hand \<Rightarrow> ('c, 'r) hand option" where
  "abandon_step t c p g r h =
     (if \<not> h_ctx h \<or> g \<noteq> h_gen h then None
      else let listed = (p \<in> set (h_list h)); h = h\<lparr>h_list := remove1 p (h_list h)\<rparr>
           in if h_up h
              then Some (set_phase t (Done c r) (h\<lparr>h_leaked := (if listed then insert p (h_leaked h) else h_leaked h)\<rparr>))
              else if h_cells h p = None then None
              else Some (set_phase t (Done c r) (h\<lparr>h_cells := (h_cells h)(p := None)\<rparr>)))"

text \<open>
  Whether an action can happen. In a calm machine the list is not cleared while a caller is leaving,
  and the allocator does not give out the address of a request that a leaving caller still has.
\<close>

definition leaving :: "('c, 'r) hand \<Rightarrow> nat set" where
  "leaving h = {p. \<exists>t c g r. h_phase h t = Leaving c p g r}"

fun enabled :: "('c \<Rightarrow> 'r \<Rightarrow> bool) \<Rightarrow> bool \<Rightarrow> ('c, 'r) act \<Rightarrow> ('c, 'r) hand \<Rightarrow> bool" where
  "enabled ok calm (Issue t c p) h =
     ((case h_phase h t of Idle \<Rightarrow> True | Done _ _ \<Rightarrow> True | _ \<Rightarrow> False) \<and> h_up h \<and> h_cells h p = None \<and>
     (calm \<longrightarrow> p \<notin> leaving h))"
| "enabled ok calm Take h = (h_list h \<noteq> [] \<and> h_up h \<and> \<not> h_lost h)"
| "enabled ok calm (Answer r) h = (h_pending h \<noteq> [] \<and> h_wire h \<noteq> [] \<and> \<not> h_lost h \<and> ok (hd (h_wire h)) r)"
| "enabled ok calm Lose h = (h_up h \<and> \<not> h_lost h)"
| "enabled ok calm Hang_up h = (h_lost h \<and> h_pending h \<noteq> [])"
| "enabled ok calm Clear h = (h_lost h \<and> h_up h \<and> h_pending h = [] \<and> (calm \<longrightarrow> leaving h = {}))"
| "enabled ok calm Close h = (h_ctx h \<and> \<not> h_up h)"
| "enabled ok calm Reconnect h = (\<not> h_ctx h)"
| "enabled ok calm (Collect t) h = (\<exists>c p g. h_phase h t = Waiting c p g)"
| "enabled ok calm (Abandon t) h = (\<exists>c p g r. h_phase h t = Leaving c p g r)"

fun run :: "('c, 'r) act \<Rightarrow> ('c, 'r) hand \<Rightarrow> ('c, 'r) hand option" where
  "run (Issue t c p) h =
     Some (set_phase t (Waiting c p (h_gen h))
       (h\<lparr>h_cells := (h_cells h)(p := Some \<lparr>hc_ref = 2, hc_reply = None, hc_sem = 0\<rparr>), h_cmd := (h_cmd h)(p := c),
          h_list := h_list h @ [p]\<rparr>))"
| "run Take h =
     Some (h\<lparr>h_list := tl (h_list h), h_pending := h_pending h @ [hd (h_list h)], h_wire := h_wire h @ [h_cmd h (hd (h_list h))]\<rparr>)"
| "run (Answer r) h =
     reply_to (hd (h_pending h)) (Some r) (h\<lparr>h_pending := tl (h_pending h), h_wire := tl (h_wire h)\<rparr>)"
| "run Lose h = Some (h\<lparr>h_lost := True, h_wire := []\<rparr>)"
| "run Hang_up h = reply_to (hd (h_pending h)) None (h\<lparr>h_pending := tl (h_pending h)\<rparr>)"
| "run Clear h = map_option (\<lambda>h. h\<lparr>h_list := [], h_up := False\<rparr>) (unlist_all (h_list h) h)"
| "run Close h = Some (h\<lparr>h_ctx := False\<rparr>)"
| "run Reconnect h = Some (h\<lparr>h_ctx := True, h_up := True, h_lost := False, h_gen := h_gen h + 1, h_wire := []\<rparr>)"
| "run (Collect t) h = (case h_phase h t of Waiting c p g \<Rightarrow> collect_step t c p g h | _ \<Rightarrow> None)"
| "run (Abandon t) h = (case h_phase h t of Leaving c p g r \<Rightarrow> abandon_step t c p g r h | _ \<Rightarrow> None)"

definition fresh_hand :: "('c, 'r) hand \<Rightarrow> bool" where
  "fresh_hand h \<longleftrightarrow>
     h_cells h = (\<lambda>_. None) \<and> h_list h = [] \<and> h_pending h = [] \<and> h_wire h = [] \<and> h_up h \<and> \<not> h_lost h \<and> h_ctx h \<and>
     (\<forall>t. h_phase h t = Idle) \<and> h_leaked h = {}"

inductive reach :: "('c \<Rightarrow> 'r \<Rightarrow> bool) \<Rightarrow> bool \<Rightarrow> ('c, 'r) hand \<Rightarrow> bool" for ok calm where
  start: "fresh_hand h \<Longrightarrow> reach ok calm h"
| step: "reach ok calm h \<Longrightarrow> enabled ok calm a h \<Longrightarrow> run a h = Some h' \<Longrightarrow> reach ok calm h'"

section \<open>The invariant\<close>

text \<open>The callers that hold a reference to a request.\<close>

definition waits_on :: "('c, 'r) hand \<Rightarrow> nat \<Rightarrow> nat \<Rightarrow> bool" where
  "waits_on h t p \<longleftrightarrow> (\<exists>c g. h_phase h t = Waiting c p g)"

definition queued :: "('c, 'r) hand \<Rightarrow> nat set" where
  "queued h = set (h_list h) \<union> set (h_pending h)"

definition refs :: "('c, 'r) hand \<Rightarrow> nat \<Rightarrow> int" where
  "refs h p = (if \<exists>t. waits_on h t p then 1 else 0) + (if p \<in> queued h then 1 else 0) + (if p \<in> h_leaked h then 1 else 0)"

text \<open>
  Every request in memory has exactly as many references as it has holders, and there is one.
\<close>

definition counted :: "('c, 'r) hand \<Rightarrow> bool" where
  "counted h \<longleftrightarrow>
     (\<forall>p x. h_cells h p = Some x \<longrightarrow> hc_ref x = refs h p \<and> 0 < refs h p) \<and>
     (\<forall>p. h_cells h p = None \<longrightarrow> refs h p = 0) \<and>
     distinct (h_list h @ h_pending h) \<and> queued h \<inter> h_leaked h = {} \<and>
     (\<forall>p \<in> h_leaked h \<union> leaving h. \<forall>t. \<not> waits_on h t p) \<and>
     (\<forall>t u p. waits_on h t p \<longrightarrow> waits_on h u p \<longrightarrow> t = u)"

text \<open>
  A waiting request knows its command, and has no answer while the loop thread has it, and no other
  than that of its command afterwards.
\<close>

definition answered :: "('c \<Rightarrow> 'r \<Rightarrow> bool) \<Rightarrow> ('c, 'r) hand \<Rightarrow> bool" where
  "answered ok h \<longleftrightarrow>
     (\<forall>t c p g. h_phase h t = Waiting c p g \<longrightarrow> h_cmd h p = c \<and>
        (\<forall>x. h_cells h p = Some x \<longrightarrow> hc_reply x = None \<or> p \<notin> queued h \<and> ok c (the (hc_reply x)))) \<and>
     (\<forall>t c r. h_phase h t = Done c (Some r) \<longrightarrow> ok c r) \<and>
     (\<not> h_lost h \<longrightarrow> h_wire h = map (h_cmd h) (h_pending h))"

text \<open>The life of the context, and that callers only leave while it is usable.\<close>

definition living :: "('c, 'r) hand \<Rightarrow> bool" where
  "living h \<longleftrightarrow>
     (\<forall>t c p g r. h_phase h t = Leaving c p g r \<longrightarrow> r = None \<and> h_up h \<and> g = h_gen h) \<and>
     (\<forall>t c p g. h_phase h t = Waiting c p g \<longrightarrow> p \<in> queued h \<longrightarrow> g = h_gen h) \<and>
     (\<not> h_up h \<longrightarrow> queued h = {} \<and> h_lost h) \<and> (h_up h \<longrightarrow> h_ctx h)"

definition good :: "('c \<Rightarrow> 'r \<Rightarrow> bool) \<Rightarrow> ('c, 'r) hand \<Rightarrow> bool" where
  "good ok h \<longleftrightarrow> counted h \<and> answered ok h \<and> living h"

lemma good_start: "fresh_hand h \<Longrightarrow> good ok h"
  by (auto simp: fresh_hand_def good_def counted_def answered_def living_def refs_def queued_def waits_on_def leaving_def)

lemma waits_on_phase: "waits_on (set_phase t ph h) u p \<longleftrightarrow> (if u = t then \<exists>c g. ph = Waiting c p g else waits_on h u p)"
  by (auto simp: waits_on_def set_phase_def)

lemma refs_cases:
  "refs h p = 0 \<longleftrightarrow> (\<forall>t. \<not> waits_on h t p) \<and> p \<notin> queued h \<and> p \<notin> h_leaked h"
  by (auto simp: refs_def)

text \<open>A call of the reply callback for the first of the requests sent.\<close>

lemma reply_ok:
  assumes G: "good ok h" and p: "h_pending h = p # ps" "\<forall>a. r = Some a \<longrightarrow> ok (h_cmd h p) a"
    and w: "\<not> h_lost h \<Longrightarrow> w = map (h_cmd h) ps"
  shows "\<exists>h'. reply_to p r (h\<lparr>h_pending := ps, h_wire := w\<rparr>) = Some h' \<and> good ok h'"
proof -
  have q: "p \<in> queued h" using p(1) by (simp add: queued_def)
  moreover have "queued h \<inter> h_leaked h = {}" using G by (simp add: good_def counted_def)
  ultimately have "p \<notin> h_leaked h" by blast
  then obtain x where x: "h_cells h p = Some x" "hc_ref x = refs h p" "p \<notin> h_leaked h" "0 < refs h p"
    using G q by (cases "h_cells h p") (auto simp: good_def counted_def refs_cases)
  have d: "p \<notin> set ps" "p \<notin> set (h_list h)" "distinct (h_list h @ ps)" using G p(1) by (auto simp: good_def counted_def)
  define h1 where "h1 = h\<lparr>h_pending := ps, h_wire := w\<rparr>"
  have q1: "queued h1 = queued h - {p}" using d p(1) by (auto simp: queued_def h1_def)
  have w1: "waits_on h1 = waits_on h" by (auto simp: waits_on_def h1_def fun_eq_iff)
  have l1: "h_leaked h1 = h_leaked h" by (simp add: h1_def)
  have ref: "refs h1 u = refs h u - (if u = p then 1 else 0)" for u
    using q x(3) unfolding refs_def q1 w1 l1 by auto
  define h' where "h' = h1\<lparr>h_cells := (h_cells h)(p := if hc_ref x - 1 \<le> 0 then None
    else Some \<lparr>hc_ref = hc_ref x - 1, hc_reply = r, hc_sem = hc_sem x + 1\<rparr>)\<rparr>"
  have "reply_to p r h1 = Some h'" using x(1) by (simp add: reply_to_def h'_def h1_def)
  moreover have "good ok h'"
  proof -
    have s: "queued h' = queued h - {p}" "waits_on h' = waits_on h" "refs h' = refs h1" "leaving h' = leaving h" "h_leaked h' = h_leaked h"
      "h_list h' = h_list h" "h_pending h' = ps" "h_phase h' = h_phase h" "h_cmd h' = h_cmd h" "h_wire h' = w" "h_lost h' = h_lost h"
      "h_up h' = h_up h" "h_ctx h' = h_ctx h" "h_gen h' = h_gen h"
      using q1 w1 by (auto simp: h'_def h1_def queued_def waits_on_def leaving_def refs_def fun_eq_iff)
    have le: "(refs h p \<le> 1) = (refs h p = 1)" "(1 < refs h p) = (refs h p \<noteq> 1)" using x(4) by auto
    have c: "counted h'" using G d x(1,2) unfolding counted_def s
      by (auto simp: good_def counted_def h'_def ref le split: if_splits)
    have cmd: "h_phase h t = Waiting c p g \<Longrightarrow> h_cmd h p = c" for t c g using G unfolding good_def answered_def by blast
    have fits: "r = None \<or> ok (h_cmd h p) (the r)" using p(2) by (cases r) auto
    have a: "answered ok h'" using G fits cmd w q unfolding answered_def s
      by (auto simp: good_def answered_def h'_def split: if_splits)
    have "living h'" using G unfolding living_def s by (auto simp: good_def living_def)
    then show ?thesis using c a by (simp add: good_def)
  qed
  ultimately show ?thesis by (simp add: h1_def)
qed

text \<open>Clearing the list.\<close>

definition one_less :: "'r hcell \<Rightarrow> 'r hcell option" where
  "one_less c = (if hc_ref c - 1 = 0 then None else Some (c\<lparr>hc_ref := hc_ref c - 1\<rparr>))"

lemma unlist_all_ok:
  assumes "distinct ps" "\<forall>p \<in> set ps. h_cells h p \<noteq> None"
  shows "unlist_all ps h = Some (h\<lparr>h_cells := \<lambda>u. if u \<in> set ps then one_less (the (h_cells h u)) else h_cells h u\<rparr>)"
  using assms
proof (induction ps arbitrary: h)
  case Nil
  have "h = h\<lparr>h_cells := h_cells h\<rparr>" by simp
  then show ?case by simp
next
  case (Cons p ps)
  obtain x where x: "h_cells h p = Some x" using Cons.prems by auto
  let ?h = "h\<lparr>h_cells := (h_cells h)(p := one_less x)\<rparr>"
  have "unlist p h = Some ?h" using x by (simp add: unlist_def one_less_def)
  moreover have "unlist_all ps ?h =
      Some (?h\<lparr>h_cells := \<lambda>u. if u \<in> set ps then one_less (the (h_cells ?h u)) else h_cells ?h u\<rparr>)"
    using Cons.prems by (intro Cons.IH) auto
  moreover have "(\<lambda>u. if u \<in> set ps then one_less (the (h_cells ?h u)) else h_cells ?h u) =
      (\<lambda>u. if u \<in> set (p # ps) then one_less (the (h_cells h u)) else h_cells h u)"
    using Cons.prems(1) x by (auto simp: fun_eq_iff)
  ultimately show ?case by simp
qed

lemma clear_ok:
  assumes G: "good ok h" and e: "h_lost h" "h_pending h = []" "leaving h = {}"
  shows "\<exists>h'. run Clear h = Some h' \<and> good ok h'"
proof -
  have q: "queued h = set (h_list h)" using e(2) by (simp add: queued_def)
  have d: "distinct (h_list h)" "\<forall>p \<in> set (h_list h). h_cells h p \<noteq> None"
    using G q by (auto simp: good_def counted_def refs_cases)
  define h' where "h' = h\<lparr>h_cells := \<lambda>u. if u \<in> set (h_list h) then one_less (the (h_cells h u)) else h_cells h u,
    h_list := [], h_up := False\<rparr>"
  have "run Clear h = Some h'" using unlist_all_ok [OF d] by (simp add: h'_def)
  moreover have "good ok h'"
  proof -
    have s: "queued h' = {}" "waits_on h' = waits_on h" "leaving h' = leaving h" "h_leaked h' = h_leaked h" "h_list h' = []" "h_pending h' = []"
      "h_phase h' = h_phase h" "h_cmd h' = h_cmd h" "h_wire h' = h_wire h" "h_lost h' = h_lost h" "h_up h' = False" "h_gen h' = h_gen h"
      using e(2) by (auto simp: h'_def queued_def waits_on_def leaving_def fun_eq_iff)
    have ref: "refs h' u = refs h u - (if u \<in> set (h_list h) then 1 else 0)" for u
      unfolding refs_def s by (auto simp: q)
    have C: "h_cells h u = Some x \<Longrightarrow> hc_ref x = refs h u" "h_cells h u = Some x \<Longrightarrow> 0 < refs h u" for u x
      using G by (auto simp: good_def counted_def)
    have N: "h_cells h u = None \<Longrightarrow> refs h u = 0" for u using G by (auto simp: good_def counted_def)
    have cells: "h_cells h' u = (if u \<in> set (h_list h) then one_less (the (h_cells h u)) else h_cells h u)" for u by (simp add: h'_def)
    have "hc_ref x = refs h' u \<and> 0 < refs h' u" if "h_cells h' u = Some x" for u x
    proof (cases "u \<in> set (h_list h)")
      case True
      then obtain y where "h_cells h u = Some y" using d(2) by auto
      then show ?thesis using that True C [of u y] by (auto simp: ref cells one_less_def split: if_splits)
    qed (use that C [of u x] in \<open>simp add: ref cells\<close>)
    moreover have "refs h' u = 0" if "h_cells h' u = None" for u
    proof (cases "u \<in> set (h_list h)")
      case True
      then obtain y where "h_cells h u = Some y" using d(2) by auto
      then show ?thesis using that True C [of u y] by (auto simp: ref cells one_less_def split: if_splits)
    qed (use that N [of u] in \<open>simp add: ref cells\<close>)
    ultimately have "counted h'" using G unfolding counted_def s by (auto simp: good_def counted_def)
    moreover have "\<exists>y. h_cells h u = Some y \<and> hc_reply x = hc_reply y" if "h_cells h' u = Some x" for u x
    proof (cases "u \<in> set (h_list h)")
      case True
      then obtain y where "h_cells h u = Some y" using d(2) by auto
      then show ?thesis using that True by (auto simp: cells one_less_def split: if_splits)
    qed (use that in \<open>simp add: cells\<close>)
    then have "answered ok h'" using G e(1) unfolding answered_def s good_def by (metis empty_iff)
    moreover have "living h'" using G e unfolding living_def s leaving_def by (auto simp: good_def living_def)
    ultimately show ?thesis by (simp add: good_def)
  qed
  ultimately show ?thesis by blast
qed

text \<open>A caller takes its answer.\<close>

lemma collect_ok:
  assumes G: "good ok h" and t: "h_phase h t = Waiting c p g"
  shows "\<exists>h'. collect_step t c p g h = Some h' \<and> good ok h'"
proof -
  have wt: "waits_on h t p" using t by (auto simp: waits_on_def)
  have nl: "p \<notin> h_leaked h" using G wt unfolding good_def counted_def by blast
  have "h_cells h p \<noteq> None" using G wt by (auto simp: good_def counted_def refs_cases)
  then obtain x where c: "h_cells h p = Some x" by blast
  then have x: "h_cells h p = Some x" "hc_ref x = refs h p" "0 < refs h p" "p \<notin> h_leaked h"
    using G nl by (simp_all add: good_def counted_def)
  have uniq: "waits_on h u p \<Longrightarrow> u = t" for u using G wt unfolding good_def counted_def by blast
  have rp: "refs h p = 1 + (if p \<in> queued h then 1 else 0)" using wt x(4) by (auto simp: refs_def)
  have rest: "hc_reply x = None \<or> p \<notin> queued h \<and> ok c (the (hc_reply x))"
    using G t x(1) unfolding good_def answered_def by blast
  let ?ph = "if p \<in> queued h then Leaving c p g (hc_reply x) else Done c (hc_reply x)"
  define h' where "h' = set_phase t ?ph (h\<lparr>h_cells := (h_cells h)(p := if p \<in> queued h then Some (x\<lparr>hc_ref := hc_ref x - 1\<rparr>) else None)\<rparr>)"
  have "collect_step t c p g h = Some h'" using x(1,2) rp by (simp add: collect_step_def h'_def)
  moreover have "good ok h'"
  proof -
    have s: "queued h' = queued h" "h_leaked h' = h_leaked h" "h_list h' = h_list h" "h_pending h' = h_pending h" "h_cmd h' = h_cmd h"
      "h_wire h' = h_wire h" "h_lost h' = h_lost h" "h_up h' = h_up h" "h_ctx h' = h_ctx h" "h_gen h' = h_gen h"
      "h_phase h' = (h_phase h)(t := ?ph)"
      "h_cells h' = (h_cells h)(p := if p \<in> queued h then Some (x\<lparr>hc_ref := hc_ref x - 1\<rparr>) else None)"
      by (simp_all add: h'_def set_phase_def queued_def)
    have w: "waits_on h' u q \<longleftrightarrow> u \<noteq> t \<and> waits_on h u q" for u q by (auto simp: waits_on_def s)
    have tp: "waits_on h t q \<Longrightarrow> q = p" for q using t by (auto simp: waits_on_def)
    have ref: "refs h' q = refs h q - (if q = p then 1 else 0)" for q
    proof (cases "q = p")
      case True
      have "\<not> (\<exists>u. waits_on h' u p)" using uniq by (auto simp: w)
      then show ?thesis using True wt unfolding refs_def s by auto
    next
      case False
      then have "(\<exists>u. waits_on h' u q) = (\<exists>u. waits_on h u q)" using tp [of q] by (metis w)
      then show ?thesis using False unfolding refs_def s by simp
    qed
    have C: "h_cells h q = Some y \<Longrightarrow> hc_ref y = refs h q \<and> 0 < refs h q" for q y using G by (simp add: good_def counted_def)
    have "hc_ref y = refs h' q \<and> 0 < refs h' q" if "h_cells h' q = Some y" for q y
      using that C [of q y] rp x(2) by (cases "q = p") (auto simp: ref s split: if_splits)
    moreover have "refs h' q = 0" if "h_cells h' q = None" for q
      using that G rp by (cases "q = p") (auto simp: ref s good_def counted_def split: if_splits)
    moreover have "\<not> (u \<noteq> t \<and> waits_on h u q)" if "q \<in> h_leaked h \<union> leaving h'" for u q
    proof (cases "q = p")
      case True
      then show ?thesis using uniq by auto
    next
      case False
      have "q \<in> leaving h' \<Longrightarrow> q \<in> leaving h" using False by (auto simp: leaving_def s split: if_splits)
      then show ?thesis using that G unfolding good_def counted_def by blast
    qed
    moreover have "distinct (h_list h @ h_pending h)" "queued h \<inter> h_leaked h = {}"
      "\<forall>u v q. waits_on h u q \<longrightarrow> waits_on h v q \<longrightarrow> u = v" using G by (simp_all add: good_def counted_def)
    ultimately have "counted h'" unfolding counted_def s(1-4) w by blast
    moreover have "answered ok h'"
    proof -
      have "h_cells h' q = Some y \<Longrightarrow> q \<noteq> p \<Longrightarrow> h_cells h q = Some y" for q y by (simp add: s)
      moreover have "h_phase h' u = Waiting d q k \<Longrightarrow> h_phase h u = Waiting d q k \<and> q \<noteq> p" for u d q k
        using uniq [of u] by (auto simp: s waits_on_def split: if_splits)
      moreover have "h_phase h' u = Done d (Some r) \<Longrightarrow> ok d r" for u d r
        using G rest by (auto simp: s good_def answered_def split: if_splits)
      ultimately show ?thesis using G unfolding answered_def good_def s(1-10) by blast
    qed
    moreover have "living h'"
    proof -
      have "r = None \<and> h_up h \<and> k = h_gen h" if "h_phase h' u = Leaving d q k r" for u d q k r
        using that G rest t by (auto simp: s good_def living_def split: if_splits)
      moreover have "k = h_gen h" if "h_phase h' u = Waiting d q k" "q \<in> queued h" for u d q k
        using that G by (auto simp: s good_def living_def split: if_splits)
      ultimately show ?thesis using G unfolding living_def good_def s(1-10) by blast
    qed
    ultimately show ?thesis by (simp add: good_def)
  qed
  ultimately show ?thesis by simp
qed

text \<open>A caller that leaves.\<close>

lemma phase_parts:
  assumes G: "good ok h" and ph: "\<forall>c p g. ph \<noteq> Waiting c p g" "\<forall>c p g r. ph \<noteq> Leaving c p g r" "\<forall>c r. ph = Done c (Some r) \<longrightarrow> ok c r"
    and t: "\<forall>c p g. h_phase h t \<noteq> Waiting c p g"
  shows "good ok (set_phase t ph h)"
proof -
  let ?h = "set_phase t ph h"
  have s: "queued ?h = queued h" "h_leaked ?h = h_leaked h" "h_list ?h = h_list h" "h_pending ?h = h_pending h" "h_cmd ?h = h_cmd h"
      "h_wire ?h = h_wire h" "h_lost ?h = h_lost h" "h_up ?h = h_up h" "h_ctx ?h = h_ctx h" "h_gen ?h = h_gen h"
      "h_phase ?h = (h_phase h)(t := ph)" "h_cells ?h = h_cells h"
    by (simp_all add: set_phase_def queued_def)
  have lv: "leaving ?h \<subseteq> leaving h" using ph(2) by (auto simp: leaving_def s split: if_splits)
  have w: "waits_on ?h = waits_on h" using ph(1) t by (auto simp: waits_on_def s fun_eq_iff)
  have r: "refs ?h = refs h" by (simp add: refs_def s w fun_eq_iff)
  have "counted ?h" using G lv unfolding counted_def good_def s w r by blast
  moreover have "answered ok ?h" using G ph unfolding answered_def good_def s by (auto split: if_splits)
  moreover have "living ?h" using G ph unfolding living_def good_def s by (auto split: if_splits)
  ultimately show ?thesis by (simp add: good_def)
qed

lemma abandon_ok:
  assumes G: "good ok h" and t: "h_phase h t = Leaving c p g r"
  shows "\<exists>h'. abandon_step t c p g r h = Some h' \<and> good ok h'"
proof -
  have l: "r = None" "h_up h" "h_ctx h" "g = h_gen h" using G t by (auto simp: good_def living_def)
  define h1 where "h1 = h\<lparr>h_list := remove1 p (h_list h), h_leaked := (if p \<in> set (h_list h) then insert p (h_leaked h) else h_leaked h)\<rparr>"
  have "abandon_step t c p g r h = Some (set_phase t (Done c r) h1)"
    using l by (simp add: abandon_step_def Let_def h1_def)
  moreover have "good ok h1"
  proof (cases "p \<in> set (h_list h)")
    case False
    then have "h1 = h" by (simp add: h1_def remove1_idem)
    then show ?thesis using G by simp
  next
    case True
    have d: "distinct (h_list h @ h_pending h)" using G by (simp add: good_def counted_def)
    have pq: "p \<in> queued h" "p \<notin> h_leaked h" using True G by (auto simp: queued_def good_def counted_def)
    have "p \<in> leaving h" using t by (auto simp: leaving_def)
    then have np: "\<not> waits_on h u p" for u using G unfolding good_def counted_def by blast
    have s: "waits_on h1 = waits_on h" "leaving h1 = leaving h" "queued h1 = queued h - {p}" "h_leaked h1 = insert p (h_leaked h)"
      "h_list h1 = remove1 p (h_list h)" "h_pending h1 = h_pending h" "h_cmd h1 = h_cmd h" "h_phase h1 = h_phase h" "h_cells h1 = h_cells h"
      "h_wire h1 = h_wire h" "h_lost h1 = h_lost h" "h_up h1 = h_up h" "h_ctx h1 = h_ctx h" "h_gen h1 = h_gen h"
      using True d by (auto simp: h1_def waits_on_def leaving_def queued_def fun_eq_iff)
    have "refs h1 = refs h" unfolding refs_def s using pq by (auto simp: fun_eq_iff)
    moreover have "distinct (remove1 p (h_list h) @ h_pending h)" using d set_remove1_subset [of p "h_list h"] by auto
    moreover have "(queued h - {p}) \<inter> insert p (h_leaked h) = {}" using G by (auto simp: good_def counted_def)
    moreover have "\<forall>q \<in> insert p (h_leaked h) \<union> leaving h. \<forall>u. \<not> waits_on h u q"
      using G np unfolding good_def counted_def by blast
    ultimately have "counted h1" using G unfolding counted_def good_def s by simp
    moreover have "answered ok h1" using G unfolding answered_def good_def s by blast
    moreover have "living h1" using G unfolding living_def good_def s by blast
    ultimately show ?thesis by (simp add: good_def)
  qed
  ultimately show ?thesis using phase_parts [of ok h1 "Done c r" t] l(1) t by (auto simp: h1_def)
qed

section \<open>Every step keeps it\<close>

lemma issue_ok:
  assumes G: "good ok h" and e: "enabled ok True (Issue t c p) h"
  shows "\<exists>h'. run (Issue t c p) h = Some h' \<and> good ok h'"
proof -
  have up: "h_up h" "h_cells h p = None" "p \<notin> leaving h" using e by auto
  have it: "\<forall>d q k. h_phase h t \<noteq> Waiting d q k" "\<forall>d q k r. h_phase h t \<noteq> Leaving d q k r"
    using e by (cases "h_phase h t"; simp)+
  have z: "\<not> waits_on h u p" "p \<notin> queued h" "p \<notin> h_leaked h" for u
    using G up(2) by (auto simp: good_def counted_def refs_cases)
  define h' where "h' = set_phase t (Waiting c p (h_gen h))
       (h\<lparr>h_cells := (h_cells h)(p := Some \<lparr>hc_ref = 2, hc_reply = None, hc_sem = 0\<rparr>), h_cmd := (h_cmd h)(p := c),
          h_list := h_list h @ [p]\<rparr>)"
  have s: "queued h' = insert p (queued h)" "h_leaked h' = h_leaked h" "h_list h' = h_list h @ [p]" "h_pending h' = h_pending h"
    "h_cmd h' = (h_cmd h)(p := c)" "h_wire h' = h_wire h" "h_lost h' = h_lost h" "h_up h' = h_up h" "h_ctx h' = h_ctx h"
    "h_gen h' = h_gen h" "h_phase h' = (h_phase h)(t := Waiting c p (h_gen h))"
    "h_cells h' = (h_cells h)(p := Some \<lparr>hc_ref = 2, hc_reply = None, hc_sem = 0\<rparr>)"
    by (auto simp: h'_def set_phase_def queued_def)
  have lv: "leaving h' = leaving h" using it by (auto simp: leaving_def s split: if_splits) metis
  have w: "waits_on h' u q \<longleftrightarrow> waits_on h u q \<or> u = t \<and> q = p" for u q using it by (auto simp: waits_on_def s)
  have ref: "refs h' q = (if q = p then 2 else refs h q)" for q unfolding refs_def s w using z by auto
  have C: "h_cells h q = Some y \<Longrightarrow> hc_ref y = refs h q \<and> 0 < refs h q" "h_cells h q = None \<Longrightarrow> refs h q = 0" for q y
    using G by (simp_all add: good_def counted_def)
  have "hc_ref y = refs h' q \<and> 0 < refs h' q" if "h_cells h' q = Some y" for q y
    using that C(1) [of q y] by (cases "q = p") (auto simp: ref s)
  moreover have "refs h' q = 0" if "h_cells h' q = None" for q
    using that C(2) [of q] by (cases "q = p") (auto simp: ref s)
  moreover have "distinct (h_list h' @ h_pending h')" "queued h' \<inter> h_leaked h' = {}"
    using G z by (auto simp: s good_def counted_def queued_def)
  moreover have "\<not> waits_on h' u q" if "q \<in> h_leaked h' \<union> leaving h'" for u q
    using that G up(3) z(3) unfolding w lv s(2) good_def counted_def by blast
  moreover have "u = v" if "waits_on h' u q" "waits_on h' v q" for u v q
    using that G z(1) unfolding w good_def counted_def by blast
  ultimately have "counted h'" unfolding counted_def by blast
  moreover have "answered ok h'"
  proof -
    have "h_phase h' u = Waiting d q k \<Longrightarrow> u = t \<and> d = c \<and> q = p \<or> h_phase h u = Waiting d q k \<and> q \<noteq> p" for u d q k
      using z(1) [of u] by (auto simp: s waits_on_def split: if_splits)
    moreover have "h_phase h' u = Done d (Some r) \<Longrightarrow> h_phase h u = Done d (Some r)" for u d r by (auto simp: s split: if_splits)
    moreover have "\<not> h_lost h \<longrightarrow> h_wire h = map (h_cmd h') (h_pending h)"
      using G z(2) by (auto simp: s queued_def good_def answered_def)
    moreover have "h_cmd h' q = d \<and> (\<forall>x. h_cells h' q = Some x \<longrightarrow> hc_reply x = None \<or> q \<notin> queued h' \<and> ok d (the (hc_reply x)))"
      if "u = t \<and> d = c \<and> q = p \<or> h_phase h u = Waiting d q k \<and> q \<noteq> p" for u d q k
      using that
    proof
      assume "h_phase h u = Waiting d q k \<and> q \<noteq> p"
      then show ?thesis using G by (simp add: s good_def answered_def) blast
    qed (simp add: s)
    ultimately show ?thesis using G unfolding answered_def good_def s(4,6,7) by blast
  qed
  moreover have "living h'"
  proof -
    have "k = h_gen h" if "h_phase h u = Waiting d q k" "q \<in> insert p (queued h)" for u d q k
      using G that z(1) [of u] by (auto simp: good_def living_def waits_on_def)
    then show ?thesis using G up(1) it unfolding living_def good_def s by (auto split: if_splits)
  qed
  moreover have "run (Issue t c p) h = Some h'" by (simp add: h'_def)
  ultimately show ?thesis by (auto simp: good_def)
qed

text \<open>Steps that change neither the requests nor the callers.\<close>

lemma counted_cong:
  assumes "counted h" "h_cells h' = h_cells h" "h_phase h' = h_phase h" "h_leaked h' = h_leaked h"
    "distinct (h_list h' @ h_pending h')" "queued h' = queued h"
  shows "counted h'"
proof -
  have w: "waits_on h' = waits_on h" "leaving h' = leaving h" using assms(3) by (auto simp: waits_on_def leaving_def fun_eq_iff)
  then have "refs h' = refs h" using assms(4,6) by (simp add: refs_def fun_eq_iff)
  then show ?thesis using assms w unfolding counted_def by simp
qed

lemma take_ok:
  assumes G: "good ok h" and e: "enabled ok True Take h"
  shows "\<exists>h'. run Take h = Some h' \<and> good ok h'"
proof -
  obtain p ps where l: "h_list h = p # ps" using e by (cases "h_list h") auto
  define h' where "h' = h\<lparr>h_list := ps, h_pending := h_pending h @ [p], h_wire := h_wire h @ [h_cmd h p]\<rparr>"
  have q: "queued h' = queued h" using l by (auto simp: queued_def h'_def)
  have "counted h'" using G l by (intro counted_cong [OF _ _ _ _ _ q]) (auto simp: good_def counted_def h'_def)
  moreover have "answered ok h'" using G e unfolding answered_def good_def q by (simp add: h'_def)
  moreover have "living h'" using G unfolding living_def good_def q by (simp add: h'_def)
  ultimately show ?thesis using l by (simp add: h'_def good_def)
qed

lemma lose_ok:
  assumes G: "good ok h"
  shows "\<exists>h'. run Lose h = Some h' \<and> good ok h'"
proof -
  define h' where "h' = h\<lparr>h_lost := True, h_wire := []\<rparr>"
  have q: "queued h' = queued h" by (simp add: queued_def h'_def)
  have "counted h'" using G by (intro counted_cong [OF _ _ _ _ _ q]) (auto simp: good_def counted_def h'_def)
  moreover have "answered ok h'" using G unfolding answered_def good_def q by (simp add: h'_def)
  moreover have "living h'" using G unfolding living_def good_def q by (simp add: h'_def)
  ultimately show ?thesis by (simp add: h'_def good_def)
qed

lemma close_step_ok:
  assumes G: "good ok h" and e: "enabled ok True Close h"
  shows "\<exists>h'. run Close h = Some h' \<and> good ok h'"
proof -
  define h' where "h' = h\<lparr>h_ctx := False\<rparr>"
  have q: "queued h' = queued h" by (simp add: queued_def h'_def)
  have "counted h'" using G by (intro counted_cong [OF _ _ _ _ _ q]) (auto simp: good_def counted_def h'_def)
  moreover have "answered ok h'" using G unfolding answered_def good_def q by (simp add: h'_def)
  moreover have "living h'" using G e unfolding living_def good_def q by (simp add: h'_def)
  ultimately show ?thesis by (simp add: h'_def good_def)
qed

lemma reconnect_ok:
  assumes G: "good ok h" and e: "enabled ok True Reconnect h"
  shows "\<exists>h'. run Reconnect h = Some h' \<and> good ok h'"
proof -
  define h' where "h' = h\<lparr>h_ctx := True, h_up := True, h_lost := False, h_gen := h_gen h + 1, h_wire := []\<rparr>"
  have d: "queued h = {}" "\<not> h_up h" using G e unfolding good_def living_def by auto
  then have pe: "h_pending h = []" "h_list h = []" by (simp_all add: queued_def)
  have q: "queued h' = queued h" by (simp add: queued_def h'_def)
  have "counted h'" using G by (intro counted_cong [OF _ _ _ _ _ q]) (auto simp: good_def counted_def h'_def)
  moreover have "answered ok h'" using G pe unfolding answered_def good_def q by (simp add: h'_def)
  moreover have "living h'" using G d unfolding living_def good_def q by (simp add: h'_def)
  ultimately show ?thesis by (simp add: h'_def good_def)
qed

lemma answer_ok:
  assumes G: "good ok h" and e: "enabled ok True (Answer r) h"
  shows "\<exists>h'. run (Answer r) h = Some h' \<and> good ok h'"
proof -
  obtain p ps c w where l: "h_pending h = p # ps" "h_wire h = c # w" using e by (cases "h_pending h"; cases "h_wire h") auto
  have "c # w = map (h_cmd h) (p # ps)" using G e l by (simp add: good_def answered_def)
  then show ?thesis using reply_ok [OF G l(1), of "Some r" w] e l by auto
qed

lemma hang_up_ok:
  assumes G: "good ok h" and e: "enabled ok True Hang_up h"
  shows "\<exists>h'. run Hang_up h = Some h' \<and> good ok h'"
proof -
  obtain p ps where l: "h_pending h = p # ps" using e by (cases "h_pending h") auto
  have "h\<lparr>h_pending := ps\<rparr> = h\<lparr>h_pending := ps, h_wire := h_wire h\<rparr>" by simp
  moreover have "h_lost h" using e by simp
  ultimately show ?thesis using reply_ok [OF G l, of None "h_wire h"] l by auto
qed

lemma step_ok:
  assumes G: "good ok h" and e: "enabled ok True a h"
  shows "\<exists>h'. run a h = Some h' \<and> good ok h'"
proof (cases a)
  case (Issue t c p)
  show ?thesis using issue_ok [OF G e [unfolded Issue]] unfolding Issue .
next
  case Clear
  then show ?thesis using clear_ok [OF G] e by simp
next
  case (Collect t)
  then obtain c p g where "h_phase h t = Waiting c p g" using e by auto
  then show ?thesis using collect_ok [OF G] Collect by simp
next
  case (Abandon t)
  then obtain c p g r where "h_phase h t = Leaving c p g r" using e by auto
  then show ?thesis using abandon_ok [OF G] Abandon by simp
next
  case (Answer r)
  show ?thesis using answer_ok [OF G e [unfolded Answer]] unfolding Answer .
next
  case Take
  show ?thesis using take_ok [OF G e [unfolded Take]] unfolding Take .
next
  case Lose
  show ?thesis using lose_ok [OF G] unfolding Lose .
next
  case Hang_up
  show ?thesis using hang_up_ok [OF G e [unfolded Hang_up]] unfolding Hang_up .
next
  case Close
  show ?thesis using close_step_ok [OF G e [unfolded Close]] unfolding Close .
next
  case Reconnect
  show ?thesis using reconnect_ok [OF G e [unfolded Reconnect]] unfolding Reconnect .
qed

lemma reach_good: "reach ok True h \<Longrightarrow> good ok h"
proof (induction rule: reach.induct)
  case (start h)
  then show ?case by (rule good_start)
next
  case (step h a h')
  then show ?case using step_ok [of ok h a] by auto
qed

end
