(* ===== verification/Shared.thy ===== *)
theory Shared
  imports Adlist
begin

text \<open>
  Two lists in one heap: what the operations on one of them, as the threads use them, do to both.
\<close>

section \<open>The two lists\<close>

text \<open>The list \<open>l\<close> of the commands and the list \<open>k\<close> of the contexts to reconnect, in one heap.\<close>

definition two_lists :: "ptr \<Rightarrow> ptr \<Rightarrow> unit lheap \<Rightarrow> nat list \<Rightarrow> nat list \<Rightarrow> bool" where
  "two_lists l k h vs ws \<longleftrightarrow>
     lheap_ok h \<and> (\<forall>n. lh_grants h n) \<and> l \<noteq> k \<and>
     (\<exists>L K xs ys. list_is h l L xs \<and> list_is h k K ys \<and> addrs xs \<inter> addrs ys = {} \<and> map snd xs = vs \<and> map snd ys = ws \<and>
        al_match L = None \<and> al_match K = None \<and> al_free L = None \<and> al_free K = None)"

lemma two_listsE:
  assumes "two_lists l k h vs ws"
  obtains L K xs ys where "lheap_ok h" "\<forall>n. lh_grants h n" "l \<noteq> k" "list_is h l L xs" "list_is h k K ys"
    "addrs xs \<inter> addrs ys = {}" "map snd xs = vs" "map snd ys = ws"
    "al_match L = None" "al_match K = None" "al_free L = None" "al_free K = None"
  using assms unfolding two_lists_def by (elim conjE exE) (rule that)

lemma two_lists_intro:
  assumes "lheap_ok h" "\<forall>n. lh_grants h n" "l \<noteq> k" "list_is h l L xs" "list_is h k K ys"
    "addrs xs \<inter> addrs ys = {}" "map snd xs = vs" "map snd ys = ws"
    "al_match L = None" "al_match K = None" "al_free L = None" "al_free K = None"
  shows "two_lists l k h vs ws"
  unfolding two_lists_def
  by (intro conjI exI [of _ L] exI [of _ K] exI [of _ xs] exI [of _ ys]) (use assms in simp_all)

lemma two_lists_sym: "two_lists l k h vs ws \<Longrightarrow> two_lists k l h ws vs"
  by (erule two_listsE, rule two_lists_intro; (assumption | simp add: Int_commute))

lemma two_lists_swap: "two_lists l k h vs ws \<longleftrightarrow> two_lists k l h ws vs"
  by (rule iffI; rule two_lists_sym)

lemma disjoint_insert: "A' \<subseteq> insert x A \<Longrightarrow> A \<inter> B = {} \<Longrightarrow> x \<notin> B \<Longrightarrow> A' \<inter> B = {}"
  by blast

text \<open>What is known of the second list after an operation on the first.\<close>

lemma two_listsI:
  assumes "lheap_ok h" "list_is h k K ys" "untouched l (addrs xs) h h'" "k \<noteq> l" "addrs xs \<inter> addrs ys = {}"
    and "lheap_ok h'" "lh_grants h' = lh_grants h" "\<forall>n. lh_grants h n" "list_is h' l L xs'" "addrs xs' \<subseteq> insert (lh_fresh h) (addrs xs)"
    and "al_match L = None" "al_match K = None" "al_free L = None" "al_free K = None"
  shows "two_lists l k h' (map snd xs') (map snd ys)"
proof -
  have K: "list_is h' k K ys" by (rule list_is_untouched [OF assms(1-5)])
  have f: "lh_fresh h \<notin> dom (lh_nodes h)" using assms(1) unfolding lheap_ok_def by blast
  have "lh_fresh h \<notin> addrs ys" using list_isD(5) [OF assms(2)] f by (rule contra_subsetD)
  note d = disjoint_insert [OF assms(10,5) this]
  have g: "\<forall>n. lh_grants h' n" using assms(7,8) by simp
  show ?thesis
    by (rule two_lists_intro [OF assms(6) g assms(4) [symmetric] assms(9) K d refl refl assms(11-14)])
qed

lemma two_lists_append:
  assumes "two_lists l k h vs ws" "length vs < 2 ^ 62"
  shows "\<exists>h'. listAddNodeTail g l v h = Some (l, h') \<and> two_lists l k h' (vs @ [v]) ws"
proof -
  obtain L K xs ys where h: "lheap_ok h" "\<forall>n. lh_grants h n" "l \<noteq> k" and X: "list_is h l L xs" "list_is h k K ys" "addrs xs \<inter> addrs ys = {}" "map snd xs = vs" "map snd ys = ws"
    "al_match L = None" "al_match K = None" "al_free L = None" "al_free K = None"
    using assms(1) by (rule two_listsE)
  have "length xs = length vs" using X(4) by (metis length_map)
  then have "length xs + 1 < 2 ^ 64" using assms(2) by simp
  from listAddNodeTail_ok [OF h(1) X(1) this, of v g] obtain h' where h': "listAddNodeTail g l v h = Some (l, h')"
    "lheap_ok h'" "list_is h' l L (xs @ [(lh_fresh h, v)])" "untouched l (addrs xs) h h'" "lh_grants h' = lh_grants h"
    using h(2) by (auto simp: added_def)
  have "two_lists l k h' (map snd (xs @ [(lh_fresh h, v)])) (map snd ys)"
    by (rule two_listsI [OF h(1) X(2) h'(4) _ X(3) h'(2,5) h(2) h'(3)]) (use h(3) X in auto)
  then show ?thesis using h'(1) X(4,5) by auto
qed

text \<open>Taking out the node behind \<open>us\<close>.\<close>

lemma two_lists_del:
  assumes "lheap_ok h" "list_is h l L (us @ (x, v) # zs)" "list_is h k K ys" "addrs (us @ (x, v) # zs) \<inter> addrs ys = {}"
    "\<forall>n. lh_grants h n" "l \<noteq> k" "al_match L = None" "al_match K = None" "al_free L = None" "al_free K = None"
    "length (us @ (x, v) # zs) < 2 ^ 64"
  shows "\<exists>h'. listDelNode l x h = Some h' \<and> two_lists l k h' (map snd (us @ zs)) (map snd ys) \<and> list_is h' l L (us @ zs)"
proof -
  obtain h' where h': "listDelNode l x h = Some h'" "lheap_ok h'" "list_is h' l L (us @ zs)"
    "untouched l (addrs (us @ (x, v) # zs)) h h'" "lh_grants h' = lh_grants h"
    using listDelNode_ok [OF assms(1,2,11)] by (auto simp: removed_def)
  have "two_lists l k h' (map snd (us @ zs)) (map snd ys)"
    by (rule two_listsI [OF assms(1,3) h'(4) _ assms(4) h'(2,5) assms(5) h'(3)]) (use assms in auto)
  then show ?thesis using h'(1,3) by blast
qed

lemma two_lists_search:
  assumes "two_lists l k h vs ws" "length vs < 2 ^ 63"
  shows "\<exists>n. listSearchKey l v h = Some n \<and> (n = NULL \<longleftrightarrow> v \<notin> set vs) \<and>
    (v \<in> set vs \<longrightarrow> (\<exists>h'. listDelNode l n h = Some h' \<and> two_lists l k h' (remove1 v vs) ws))"
proof -
  obtain L K xs ys where h: "lheap_ok h" "\<forall>n. lh_grants h n" "l \<noteq> k" and X: "list_is h l L xs" "list_is h k K ys" "addrs xs \<inter> addrs ys = {}" "map snd xs = vs" "map snd ys = ws"
    "al_match L = None" "al_match K = None" "al_free L = None" "al_free K = None"
    using assms(1) by (rule two_listsE)
  have m: "matches L v (lh_user h) = (\<lambda>x. v = snd x)" using X(6) by (simp add: matches_def fun_eq_iff)
  have s: "listSearchKey l v h = Some (node_of (find (\<lambda>x. v = snd x) xs))" using listSearchKey_ok [OF X(1), of v] m by simp
  show ?thesis
  proof (cases "v \<in> set vs")
    case False
    then have "find (\<lambda>x. v = snd x) xs = None" unfolding X(4) [symmetric] set_map find_None_iff by blast
    then show ?thesis using s False by (simp add: node_of_def)
  next
    case True
    then obtain y where "y \<in> set xs" "v = snd y" using X(4) by auto
    then have "find (\<lambda>x. v = snd x) xs \<noteq> None" unfolding find_None_iff by blast
    then obtain z where "find (\<lambda>x. v = snd x) xs = Some z" by blast
    then obtain i where i: "i < length xs" "v = snd (xs ! i)" "z = xs ! i" "\<forall>j<i. v \<noteq> snd (xs ! j)"
      "find (\<lambda>x. v = snd x) xs = Some z" by (auto simp: find_Some_iff)
    define us zs where "us = take i xs" and "zs = drop (Suc i) xs"
    define x where "x = fst z"
    have z: "z = (x, v)" using i(2,3) by (simp add: x_def)
    have xs: "xs = us @ (x, v) # zs" using i(1,3) z by (simp add: us_def zs_def id_take_nth_drop)
    have nu: "v \<notin> set (map snd us)" using i(1,4) by (auto simp: us_def in_set_conv_nth) (metis snd_conv)
    have "length xs = length vs" using X(4) by (metis length_map)
    then obtain h' where h': "listDelNode l x h = Some h'" "two_lists l k h' (map snd (us @ zs)) (map snd ys)"
      using two_lists_del [OF h(1) X(1)[unfolded xs] X(2) X(3)[unfolded xs] h(2,3) X(6-9)] assms(2) xs by auto
    have "remove1 v vs = map snd (us @ zs)" using nu X(4) by (auto simp: xs remove1_append)
    moreover have "x \<noteq> NULL" using list_isD(4) [OF X(1)] by (auto simp: xs)
    ultimately show ?thesis using s i(5) z h' X(5) True by (auto simp: node_of_def)
  qed
qed

lemma two_lists_first:
  assumes "two_lists l k h (v # vs) ws" "length (v # vs) < 2 ^ 63"
  shows "\<exists>H n N h'. lh_lists h l = Some H \<and> al_len H = Suc (length vs) \<and> al_head H = n \<and> n \<noteq> NULL \<and> lh_nodes h n = Some N \<and>
    ln_value N = v \<and> listDelNode l n h = Some h' \<and> two_lists l k h' vs ws \<and>
    (\<exists>H'. lh_lists h' l = Some H' \<and> ln_next N = al_head H')"
proof -
  obtain L K xs ys where h: "lheap_ok h" "\<forall>n. lh_grants h n" "l \<noteq> k" and X: "list_is h l L xs" "list_is h k K ys" "addrs xs \<inter> addrs ys = {}" "map snd xs = v # vs" "map snd ys = ws"
    "al_match L = None" "al_match K = None" "al_free L = None" "al_free K = None"
    using assms(1) by (rule two_listsE)
  obtain x zs where xs: "xs = [] @ (x, v) # zs" "map snd zs = vs" using X(4) by (auto simp: map_eq_Cons_conv)
  have len: "length zs = length vs" using xs(2) by (metis length_map)
  obtain h' where h': "listDelNode l x h = Some h'" "two_lists l k h' vs ws" "list_is h' l L zs"
    using two_lists_del [OF h(1) X(1)[unfolded xs(1)] X(2) X(3)[unfolded xs(1)] h(2,3) X(6-9)] assms(2) xs(2) len X(5) by auto
  have "lh_lists h l = Some (hdr L xs)" "lh_nodes h x = Some \<lparr>ln_prev = NULL, ln_next = fstp zs NULL, ln_value = v\<rparr>" "x \<noteq> NULL"
    using X(1) by (auto simp: list_is_def xs(1))
  moreover have "lh_lists h' l = Some (hdr L zs)" using h'(3) by (simp add: list_is_def)
  ultimately show ?thesis using h'(1,2) len by (simp add: xs(1))
qed

lemma two_lists_none:
  assumes "two_lists l k h [] ws"
  shows "\<exists>H. lh_lists h l = Some H \<and> al_len H = 0 \<and> al_head H = NULL"
  using assms by (auto simp: two_lists_def)

text \<open>The values of the first \<open>n\<close> nodes from \<open>node\<close> on.\<close>

fun values_from :: "nat \<Rightarrow> ptr \<Rightarrow> 'w lheap \<Rightarrow> ptr list" where
  "values_from 0 node h = []"
| "values_from (Suc n) node h =
     (case lh_nodes h node of None \<Rightarrow> [] | Some N \<Rightarrow> ln_value N # values_from n (ln_next N) h)"

lemma values_from_dseg: "dseg (lh_nodes h) p xs NULL \<Longrightarrow> values_from (length xs) (fstp xs NULL) h = map snd xs"
proof (induction xs arbitrary: p)
  case (Cons x xs)
  then show ?case by (cases x) auto
qed simp

lemma two_lists_values:
  assumes "two_lists l k h vs ws"
  shows "\<exists>H. lh_lists h l = Some H \<and> al_len H = length vs \<and> values_from (al_len H) (al_head H) h = vs"
  using assms by (elim two_listsE) (auto simp: list_is_def values_from_dseg)

end
