(* ===== verification/Threads.thy ===== *)
theory Threads
  imports Request Handoff Commands Shared
begin

text \<open>
  The callers and the loop thread of one connection as a machine whose steps are the functions that
  model the code: every segment between two points where threads may interleave is one
  step. The machine in Handoff is its specification; the relation \<open>joined\<close> says when a state of the
  memory is a state of that machine.
\<close>

section \<open>The steps\<close>

text \<open>A reply is there for the first of the pending callbacks, and the call of one with NULL.\<close>

definition deliver :: "'s env \<Rightarrow> ptr \<Rightarrow> 's mast \<Rightarrow> 's mast option" where
  "deliver en reply st =
     do {
       (cb, st) \<leftarrow> next_callback (en_alloc en) mux_user (en_sys en) reply \<lparr>cb_next = NULL, cb_fn = NULL, cb_privdata = NULL\<rparr> st;
       cb \<leftarrow> cb;
       redisRunCallback mux_user cb reply st
     }"

definition call_first :: "ptr \<Rightarrow> 's mast \<Rightarrow> 's mast option" where
  "call_first reply st =
     do { (rc, cb, st) \<leftarrow> shift_cb Replies st; cb \<leftarrow> cb; redisRunCallback mux_user cb reply st }"

text \<open>
  The whole memory, where the callers are and their buffers, the commands the server
  has to answer, whether the connection is lost, and the bytes of commands not yet written.
\<close>

record 's conf =
  cf_m :: "'s mst"
  cf_phase :: "nat \<Rightarrow> (string, ptr) phase"
  cf_buf :: "nat \<Rightarrow> ptr"
  cf_wire :: "string list"
  cf_lost :: bool
  cf_bytes :: nat

datatype cact =
    Call nat string "string list"
  | Deal
  | Written sds
  | Receive ptr
  | Break
  | Drain
  | Report
  | Finish nat
  | Leave nat

definition or_null :: "ptr \<Rightarrow> ptr option" where
  "or_null r = (if r = NULL then None else Some r)"

text \<open>The commands on the list of the context.\<close>

definition listed :: "ptr \<Rightarrow> 's mst \<Rightarrow> string list" where
  "listed p m =
     (case ms_acs m p of
        None \<Rightarrow> []
      | Some ac \<Rightarrow>
          (case lh_lists (as_lists (ms_st m)) (ac_cmd_list ac) of
             None \<Rightarrow> []
           | Some H \<Rightarrow> map (\<lambda>q. take (nat (ci_len (mw_cis (mw_of m) q))) (the (mw_bufs (mw_of m) (ci_cmd (mw_cis (mw_of m) q)))))
               (values_from (al_len H) (al_head H) (as_lists (ms_st m)))))"

definition free_buf :: "ptr \<Rightarrow> 's mst \<Rightarrow> 's mst" where
  "free_buf b m = m\<lparr>ms_st := upd_wd (\<lambda>w. w\<lparr>mw_bufs := (mw_bufs w)(b := None)\<rparr>) (ms_st m)\<rparr>"

text \<open>
  A call up to its wait, the handler of the pipe, a write that leaves the rest \<open>b\<close> of the output, a
  reply, the end of the connection, the two things the loop thread then does, and the two last parts of a call.
\<close>

fun cstep :: "'s env \<Rightarrow> ptr \<Rightarrow> ptr \<Rightarrow> cact \<Rightarrow> 's conf \<Rightarrow> 's conf option" where
  "cstep en xc p (Call t name args) c =
     do {
       let cmd = wire (name # args);
       let (b, st) = mw_new (ms_st (cf_m c));
       let m = (cf_m c)\<lparr>ms_st := upd_wd (\<lambda>w. w\<lparr>mw_bufs := (mw_bufs w)(b \<mapsto> cmd @ [NUL])\<rparr>) st\<rparr>;
       (q, m) \<leftarrow> enqueue en xc b (int (length cmd)) m;
       (_, ci) \<leftarrow> q;
       Some (c\<lparr>cf_m := m, cf_phase := (cf_phase c)(t := Waiting cmd ci 0), cf_buf := (cf_buf c)(t := b),
               cf_bytes := cf_bytes c + length cmd\<rparr>)
     }"
| "cstep en xc p Deal c =
     do {
       m \<leftarrow> taskDeal en xc (cf_m c);
       let before = listed p (cf_m c);
       Some (c\<lparr>cf_m := m, cf_wire := cf_wire c @ take (length before - length (listed p m)) before\<rparr>)
     }"
| "cstep en xc p (Written b) c =
     do {
       ac \<leftarrow> ms_acs (cf_m c) p;
       b0 \<leftarrow> c_obuf (ac_c ac);
       Some (c\<lparr>cf_m := (cf_m c)\<lparr>ms_acs := (ms_acs (cf_m c))(p \<mapsto> ac\<lparr>ac_c := (ac_c ac)\<lparr>c_obuf := Some b\<rparr>\<rparr>)\<rparr>,
               cf_bytes := cf_bytes c - (sdslen b0 - sdslen b)\<rparr>)
     }"
| "cstep en xc p (Receive r) c =
     do { m \<leftarrow> do_ac p (deliver en r) (cf_m c); Some (c\<lparr>cf_m := m, cf_wire := tl (cf_wire c)\<rparr>) }"
| "cstep en xc p Break c = Some (c\<lparr>cf_lost := True, cf_wire := []\<rparr>)"
| "cstep en xc p Drain c = do { m \<leftarrow> do_ac p (call_first NULL) (cf_m c); Some (c\<lparr>cf_m := m\<rparr>) }"
| "cstep en xc p Report c = do { m \<leftarrow> do_ac p (disconnectedCallback REDIS_ERR) (cf_m c); Some (c\<lparr>cf_m := m\<rparr>) }"
| "cstep en xc p (Finish t) c =
     (case cf_phase c t of
        Waiting cmd ci g \<Rightarrow>
          do {
            (reply, ref, m) \<leftarrow> collect ci (cf_m c);
            if ref \<le> 0
            then do {
              m \<leftarrow> on_st (free_ci ci) m;
              Some (c\<lparr>cf_m := free_buf (cf_buf c t) m, cf_phase := (cf_phase c)(t := Done cmd (or_null reply))\<rparr>)
            }
            else Some (c\<lparr>cf_m := m, cf_phase := (cf_phase c)(t := Leaving cmd ci g (or_null reply))\<rparr>)
          }
      | _ \<Rightarrow> None)"
| "cstep en xc p (Leave t) c =
     (case cf_phase c t of
        Leaving cmd ci g r \<Rightarrow>
          do {
            m \<leftarrow> abandon xc p ci (cf_m c);
            Some (c\<lparr>cf_m := free_buf (cf_buf c t) m, cf_phase := (cf_phase c)(t := Done cmd r)\<rparr>)
          }
      | _ \<Rightarrow> None)"

text \<open>
  When a step can happen. \<open>ok cmd r\<close> is what the server guarantees of the reply \<open>r\<close> to the first
  command it has not answered. Once the connection is lost, the loop thread calls
  the pending callbacks and then reports. In a calm machine no caller is leaving then.
\<close>

definition plain :: "string \<Rightarrow> bool" where
  "plain name \<longleftrightarrow> CR \<notin> set name \<and> base_name name \<notin> {''subscribe'', ''unsubscribe'', ''monitor''}"

definition connected_xc :: "ptr \<Rightarrow> 's mst \<Rightarrow> bool" where
  "connected_xc xc m \<longleftrightarrow> (\<exists>x. get_xc xc (ms_st m) = Some x \<and> x_status x = CONNECTED)"

definition no_callbacks :: "ptr \<Rightarrow> 's mst \<Rightarrow> bool" where
  "no_callbacks p m \<longleftrightarrow> (\<exists>ac. ms_acs m p = Some ac \<and> cl_head (ac_replies ac) = NULL)"

fun can :: "(string \<Rightarrow> ptr \<Rightarrow> bool) \<Rightarrow> bool \<Rightarrow> ptr \<Rightarrow> ptr \<Rightarrow> cact \<Rightarrow> 's conf \<Rightarrow> bool" where
  "can ok calm xc p (Call t name args) c =
     ((case cf_phase c t of Idle \<Rightarrow> True | Done _ _ \<Rightarrow> True | _ \<Rightarrow> False) \<and> connected_xc xc (cf_m c) \<and> plain name \<and>
      cf_bytes c + length (wire (name # args)) + 1 < 2 ^ 31)"
| "can ok calm xc p Deal c = (\<not> cf_lost c)"
| "can ok calm xc p (Written b) c =
     (\<exists>ac b0 k. ms_acs (cf_m c) p = Some ac \<and> c_obuf (ac_c ac) = Some b0 \<and> sds_ok b \<and> sdsstr b = drop k (sdsstr b0))"
| "can ok calm xc p (Receive r) c =
     (r \<noteq> NULL \<and> \<not> cf_lost c \<and> cf_wire c \<noteq> [] \<and> ok (hd (cf_wire c)) r \<and> freeReplyObject r (as_heap (ms_st (cf_m c))) \<noteq> None)"
| "can ok calm xc p Break c = (connected_xc xc (cf_m c) \<and> \<not> cf_lost c)"
| "can ok calm xc p Drain c = (cf_lost c \<and> connected_xc xc (cf_m c) \<and> \<not> no_callbacks p (cf_m c))"
| "can ok calm xc p Report c =
     (cf_lost c \<and> connected_xc xc (cf_m c) \<and> no_callbacks p (cf_m c) \<and> (calm \<longrightarrow> (\<forall>t cmd q g r. cf_phase c t \<noteq> Leaving cmd q g r)))"
| "can ok calm xc p (Finish t) c = (\<exists>cmd q g. cf_phase c t = Waiting cmd q g)"
| "can ok calm xc p (Leave t) c = (\<exists>cmd q g r. cf_phase c t = Leaving cmd q g r)"

section \<open>Memory and machine\<close>

definition running :: "'s aes \<Rightarrow> bool" where
  "running a \<longleftrightarrow> (\<exists>l. ae_loop a = Some l \<and> \<not> el_stop l)"

text \<open>The connection takes commands, \<open>out\<close> waits to be written, and the hooks of the adapter are in order.\<close>

definition takes :: "'s env \<Rightarrow> ('s \<Rightarrow> int \<Rightarrow> int \<Rightarrow> 32 word option) \<Rightarrow> 's mw actx \<Rightarrow> 's mast \<Rightarrow> string \<Rightarrow> bool" where
  "takes en watched ac st out \<longleftrightarrow>
     open_flags (c_flags (ac_c ac)) False \<and> (\<exists>b. c_obuf (ac_c ac) = Some b \<and> sds_ok b \<and> sdsstr b = out) \<and>
     (\<exists>f evs e fd. 0 \<le> fd \<and> ac_ev ac = ae_hooks (en_epoll en) e \<and> bridge_ok watched f evs e fd (wd st)) \<and>
     running (br_loop (wd st)) \<and> rc_aeloop (client_of st)"

text \<open>The requests in memory.\<close>

definition cell_of :: "cmdInfo \<Rightarrow> ptr hcell \<Rightarrow> bool" where
  "cell_of ci x \<longleftrightarrow> ci_reference ci = hc_ref x \<and> or_null (ci_reply ci) = hc_reply x \<and> ci_reply_sem ci = Some (hc_sem x)"

definition requests_are :: "'s mast \<Rightarrow> (string, ptr) hand \<Rightarrow> bool" where
  "requests_are st h \<longleftrightarrow>
     as_tasks st = dom (h_cells h) \<and> NULL \<notin> as_tasks st \<and>
     (\<forall>q x. h_cells h q = Some x \<longrightarrow> cell_of (mw_cis (wd st) q) x \<and> q < mw_fresh (wd st))"

text \<open>The commands of the requests on the list; the buffer of a request was made just before it.\<close>

definition commands :: "'s mast \<Rightarrow> (string, ptr) hand \<Rightarrow> bool" where
  "commands st h \<longleftrightarrow>
     (\<forall>q \<in> set (h_list h). ci_cmd (mw_cis (wd st) q) = q - 1 \<and> 0 < q \<and>
        (\<exists>name args slack. h_cmd h q = wire (name # args) \<and> plain name \<and> ci_len (mw_cis (wd st) q) = int (length (h_cmd h q)) \<and>
           mw_bufs (wd st) (q - 1) = Some (h_cmd h q @ NUL # slack)))"

definition inner ::
    "'s env \<Rightarrow> ('s \<Rightarrow> int \<Rightarrow> int \<Rightarrow> 32 word option) \<Rightarrow> ptr \<Rightarrow> ptr \<Rightarrow> 's mw actx \<Rightarrow> 's mast \<Rightarrow> (string, ptr) hand \<Rightarrow> string \<Rightarrow> bool" where
  "inner en watched xc p ac st h out \<longleftrightarrow>
     takes en watched ac st out \<and>
     queues (ac_replies ac) (ac_invalid ac) (as_cells st) (map (Pair REPLY_CALLBACK) (h_pending h)) [] \<and>
     (\<exists>ws. two_lists (ac_cmd_list ac) (rc_reconn_list (client_of st)) (as_lists st) (h_list h) ws \<and>
        (h_up h \<longrightarrow> length ws < 2 ^ 61)) \<and>
     requests_are st h \<and> commands st h \<and> ac_xc ac = xc \<and>
     (\<exists>x. get_xc xc st = Some x \<and> x_ctx x = Actx p \<and> x_status x = (if h_up h then CONNECTED else DISCONNECTING)) \<and>
     (\<forall>n. mw_grants (wd st) n) \<and> 0 < mw_fresh (wd st)"

text \<open>Between two steps no mutex is held.\<close>

definition joined ::
    "'s env \<Rightarrow> ('s \<Rightarrow> int \<Rightarrow> int \<Rightarrow> 32 word option) \<Rightarrow> ptr \<Rightarrow> ptr \<Rightarrow> 's mw actx \<Rightarrow> 's mast \<Rightarrow> (string, ptr) hand \<Rightarrow> string \<Rightarrow> bool" where
  "joined en watched xc p ac st h out \<longleftrightarrow> inner en watched xc p ac st h out \<and> mw_held (wd st) = {}"

text \<open>The request of a caller that has not returned.\<close>

fun request_of :: "('c, 'r) phase \<Rightarrow> (nat \<times> nat) option" where
  "request_of (Waiting cmd q g) = Some (q, g)"
| "request_of (Leaving cmd q g r) = Some (q, g)"
| "request_of _ = None"

text \<open>A state of the machine of the threads and its state in the specification.\<close>

definition matched ::
    "'s env \<Rightarrow> ('s \<Rightarrow> int \<Rightarrow> int \<Rightarrow> 32 word option) \<Rightarrow> ptr \<Rightarrow> ptr \<Rightarrow> 's conf \<Rightarrow> (string, ptr) hand \<Rightarrow> bool" where
  "matched en watched xc p c h \<longleftrightarrow>
     (\<exists>ac out. ms_acs (cf_m c) p = Some ac \<and> as_ac (ms_st (cf_m c)) = None \<and> joined en watched xc p ac (ms_st (cf_m c)) h out \<and>
        length out + sum_list (map (length \<circ> h_cmd h) (h_list h)) \<le> cf_bytes c) \<and>
     cf_bytes c + 1 < 2 ^ 31 \<and> cf_phase c = h_phase h \<and> cf_wire c = h_wire h \<and> cf_lost c = h_lost h \<and> h_ctx h \<and> h_gen h = 0 \<and>
     (\<forall>t q g. request_of (h_phase h t) = Some (q, g) \<longrightarrow>
        g = 0 \<and> cf_buf c t = q - 1 \<and> 0 < q \<and> q < mw_fresh (mw_of (cf_m c)))"

section \<open>Reading and writing the state\<close>

named_theorems mux_simps \<open>parts of the state after a step\<close>

lemma upd_wd_simps [mux_simps]:
  "wd (upd_wd g st) = g (wd st)" "as_ac (upd_wd g st) = as_ac st" "as_heap (upd_wd g st) = as_heap st"
  "as_cells (upd_wd g st) = as_cells st" "as_mem (upd_wd g st) = as_mem st" "as_lists (upd_wd g st) = as_lists st"
  "as_tasks (upd_wd g st) = as_tasks st"
  by (simp_all add: upd_wd_def wd_def)

lemma wd_simps [mux_simps]:
  "wd (st\<lparr>as_ac := a\<rparr>) = wd st" "wd (st\<lparr>as_heap := hp\<rparr>) = wd st" "wd (st\<lparr>as_cells := ch\<rparr>) = wd st"
  "wd (st\<lparr>as_lists := ls\<rparr>) = wd st" "wd (st\<lparr>as_tasks := ts\<rparr>) = wd st" "wd (st\<lparr>as_world := aw\<rparr>) = snd aw"
  by (simp_all add: wd_def)

lemmas mux_defs = get_xc_def client_of_def get_ci_def upd_ci_def upd_xc_def lock_def unlock_def has_mutex_def on_st_def
  mw_of_def upd_client_def on_lists_def the_client_def set_client_def

definition env_ok :: "'s env \<Rightarrow> ('s \<Rightarrow> int \<Rightarrow> int \<Rightarrow> 32 word option) \<Rightarrow> bool" where
  "env_ok en watched \<longleftrightarrow> roomy (en_alloc en) \<and> kernel_polls (en_epoll en) watched \<and>
     (\<forall>fd s. watched (en_poke en fd s) = watched s) \<and> (\<forall>fd s. watched (snd (en_drain en fd s)) = watched s)"

lemma s32_small [mux_simps]: "0 \<le> x \<Longrightarrow> x \<le> 3 \<Longrightarrow> s32 x = x"
  by (rule s32_id) simp_all

lemma enqueue_ok:
  assumes J: "joined en watched xc p ac (ms_st m) h out" and m: "ms_acs m p = Some ac" "as_ac (ms_st m) = None"
    and up: "h_up h" and len: "length (h_list h) < 2 ^ 61"
  defines "w \<equiv> wd (ms_st m)" and "q \<equiv> mw_fresh (wd (ms_st m))"
  shows "\<exists>ls ws s m'. enqueue en xc b n m = Some (Some (p, q), m') \<and> ms_acs m' = ms_acs m \<and> as_ac (ms_st m') = None \<and>
    as_cells (ms_st m') = as_cells (ms_st m) \<and> as_lists (ms_st m') = ls \<and> as_heap (ms_st m') = as_heap (ms_st m) \<and>
    as_tasks (ms_st m') = insert q (as_tasks (ms_st m)) \<and>
    two_lists (ac_cmd_list ac) (rc_reconn_list (mw_client w)) ls (h_list h @ [q]) ws \<and> length ws < 2 ^ 61 \<and>
    wd (ms_st m') = w\<lparr>br_loop := (br_loop w)\<lparr>ae_world := (fst (ae_world (br_loop w)), en_poke en s (snd (ae_world (br_loop w))))\<rparr>,
      mw_fresh := q + 1, mw_requests := mw_requests w + 1,
      mw_cis := (mw_cis w)(q := \<lparr>ci_cmd = b, ci_len = n, ci_reply = NULL, ci_reference = 2, ci_reply_sem = Some 0\<rparr>)\<rparr>"
proof -
  obtain x where x: "get_xc xc (ms_st m) = Some x" "x_ctx x = Actx p" "x_status x = CONNECTED" "mw_held w = {}" "\<forall>n. mw_grants w n"
    using J up by (auto simp: joined_def inner_def w_def)
  obtain ws where ws: "two_lists (ac_cmd_list ac) (rc_reconn_list (mw_client w)) (as_lists (ms_st m)) (h_list h) ws" "length ws < 2 ^ 61"
    using J up by (auto simp: joined_def inner_def w_def client_of_def)
  have q: "q = mw_fresh w" by (simp add: q_def w_def)
  obtain ls where ls: "listAddNodeTail (mw_node w) (ac_cmd_list ac) q (as_lists (ms_st m)) = Some (ac_cmd_list ac, ls)"
    "two_lists (ac_cmd_list ac) (rc_reconn_list (mw_client w)) ls (h_list h @ [q]) ws"
    using two_lists_append [OF ws(1), of "mw_node w" q] len by auto
  obtain l where l: "ae_loop (br_loop w) = Some l" "\<not> el_stop l" "rc_aeloop (mw_client w)"
    using J by (auto simp: joined_def inner_def takes_def running_def w_def client_of_def)
  show ?thesis
    by (intro exI [of _ ls] exI [of _ ws] exI [of _ "snd (x_task_fd x)"])
      (use x ws ls l m in \<open>simp add: enqueue_def new_request_def mw_malloc_def mw_new_def loop_of_def ci_add_def base_call_def
        mux_defs mux_simps Let_def w_def [symmetric] q\<close>)
qed

lemma takes_keep:
  assumes "takes en watched ac st out" "c_flags (ac_c ac') = c_flags (ac_c ac)" "c_obuf (ac_c ac') = c_obuf (ac_c ac)"
    "ac_ev ac' = ac_ev ac" "br_events (wd st') = br_events (wd st)" "ae_loop (br_loop (wd st')) = ae_loop (br_loop (wd st))"
    "watched (snd (ae_world (br_loop (wd st')))) = watched (snd (ae_world (br_loop (wd st))))"
    "rc_aeloop (client_of st') = rc_aeloop (client_of st)"
  shows "takes en watched ac' st' out"
  using assms unfolding takes_def bridge_ok_def in_step_def mirrors_def running_def by simp

lemma joinedD:
  assumes "joined en watched xc p ac st h out"
  shows "takes en watched ac st out" "queues (ac_replies ac) (ac_invalid ac) (as_cells st) (map (Pair REPLY_CALLBACK) (h_pending h)) []"
    "requests_are st h" "commands st h" "ac_xc ac = xc" "mw_held (wd st) = {}" "\<forall>n. mw_grants (wd st) n" "0 < mw_fresh (wd st)"
  using assms by (simp_all add: joined_def inner_def)

text \<open>Buffers of commands come and go.\<close>

lemma joined_bufs:
  assumes J: "joined en watched xc p ac st h out" and f: "mw_fresh (wd st) \<le> f (wd st)"
    and g: "\<forall>q \<in> set (h_list h). g (wd st) (q - 1) = mw_bufs (wd st) (q - 1)"
  shows "joined en watched xc p ac (upd_wd (\<lambda>w. w\<lparr>mw_fresh := f w, mw_bufs := g w\<rparr>) st) h out"
proof -
  let ?st = "upd_wd (\<lambda>w. w\<lparr>mw_fresh := f w, mw_bufs := g w\<rparr>) st"
  have "takes en watched ac ?st out" by (rule takes_keep [OF joinedD(1) [OF J]]) (simp_all add: mux_simps mux_defs)
  moreover have "requests_are ?st h" using joinedD(3) [OF J] f by (fastforce simp: requests_are_def mux_simps)
  moreover have "commands ?st h" using joinedD(4) [OF J] g by (simp add: commands_def mux_simps)
  ultimately show ?thesis using J f unfolding joined_def inner_def by (auto simp: mux_simps mux_defs)
qed

lemma cells_new:
  assumes C: "requests_are st h" and T: "as_tasks st' = insert q (as_tasks st)" "q = mw_fresh (wd st)" "0 < q"
    and W: "mw_cis (wd st') = (mw_cis (wd st))(q := ci)" "mw_fresh (wd st') = q + 1" "cell_of ci x"
    and H: "h_cells h' = (h_cells h)(q \<mapsto> x)"
  shows "requests_are st' h'"
proof -
  have "u < q" if "h_cells h u = Some y" for u y using C that by (auto simp: requests_are_def T(2))
  then have "u < q + 1" if "h_cells h u = Some y" for u y using that less_SucI by fastforce
  then show ?thesis using C T W H by (auto simp: requests_are_def)
qed

lemma listed_cells: "good ok h \<Longrightarrow> q \<in> queued h \<Longrightarrow> h_cells h q \<noteq> None"
  by (auto simp: good_def counted_def refs_cases)

lemma wire_nonempty: "0 < length (wire ws)"
  by (simp add: wire_eq)

lemma length_le_sum: "\<forall>x \<in> set xs. 0 < f x \<Longrightarrow> length xs \<le> sum_list (map f xs)"
proof (induction xs)
  case (Cons x xs)
  then have "length xs \<le> sum_list (map f xs)" "0 < f x" by simp_all
  then show ?case by simp
qed simp

lemma list_bytes:
  assumes "commands st h"
  shows "length (h_list h) \<le> sum_list (map (length \<circ> h_cmd h) (h_list h))"
  using assms wire_nonempty by (intro length_le_sum) (auto simp: commands_def)

lemma status_up:
  assumes "joined en watched xc p ac st h out"
  shows "(\<exists>x. get_xc xc st = Some x \<and> x_status x = CONNECTED) = h_up h"
  using assms by (auto simp: joined_def inner_def CONNECTED_def DISCONNECTING_def REDIS_CONNECTED_def REDIS_DISCONNECTING_def split: if_splits)

lemma set_phase_sel [mux_simps]:
  "h_cells (set_phase t ph h) = h_cells h" "h_cmd (set_phase t ph h) = h_cmd h" "h_list (set_phase t ph h) = h_list h"
  "h_pending (set_phase t ph h) = h_pending h" "h_wire (set_phase t ph h) = h_wire h" "h_up (set_phase t ph h) = h_up h"
  "h_lost (set_phase t ph h) = h_lost h" "h_ctx (set_phase t ph h) = h_ctx h" "h_gen (set_phase t ph h) = h_gen h"
  "h_phase (set_phase t ph h) = (h_phase h)(t := ph)"
  by (simp_all add: set_phase_def)

lemma joined_issue:
  assumes E: "env_ok en watched" and J: "joined en watched xc p ac st h out" and q: "q = mw_fresh (wd st)" "q \<notin> set (h_list h)"
    and C: "cmd = wire (name # args)" "plain name" "mw_bufs (wd st) (q - 1) = Some (cmd @ [NUL])" "ci_cmd ci = q - 1"
      "ci_len ci = int (length cmd)" "cell_of ci x"
    and S: "as_cells st' = as_cells st" "as_tasks st' = insert q (as_tasks st)" "length ws < 2 ^ 61"
      "two_lists (ac_cmd_list ac) (rc_reconn_list (mw_client (wd st))) (as_lists st') (h_list h @ [q]) ws"
      "wd st' = (wd st)\<lparr>br_loop := (br_loop (wd st))\<lparr>ae_world := (fst (ae_world (br_loop (wd st))), en_poke en s (snd (ae_world (br_loop (wd st)))))\<rparr>,
        mw_fresh := q + 1, mw_requests := n, mw_cis := (mw_cis (wd st))(q := ci)\<rparr>"
    and H: "h' = set_phase t ph (h\<lparr>h_cells := (h_cells h)(q := Some x), h_cmd := (h_cmd h)(q := cmd), h_list := h_list h @ [q]\<rparr>)"
  shows "joined en watched xc p ac st' h' out"
proof -
  have "takes en watched ac st' out"
    by (rule takes_keep [OF joinedD(1) [OF J]]) (use E in \<open>simp_all add: S(5) client_of_def env_ok_def\<close>)
  moreover have "requests_are st' h'"
    by (rule cells_new [OF joinedD(3) [OF J] S(2) q(1), where ci = ci and x = x]) (use q joinedD(8) [OF J] in \<open>simp_all add: S(5) C(6) H mux_simps\<close>)
  moreover have "commands st' h'"
  proof -
    have "\<exists>name args slack. cmd = wire (name # args) \<and> plain name \<and> cmd @ [NUL] = cmd @ NUL # slack" using C(1,2) by blast
    moreover have "0 < q" using q(1) joinedD(8) [OF J] by simp
    ultimately show ?thesis using joinedD(4) [OF J] q(2) C(3-5) by (auto simp: commands_def S(5) H mux_simps)
  qed
  ultimately show ?thesis using J S(1,3,4) unfolding joined_def inner_def
    by (auto simp: S(5) H mux_simps client_of_def get_xc_def)
qed

lemma request_of_Leaving: "h_phase h t = Leaving cmd q g r \<Longrightarrow> request_of (h_phase h t) = Some (q, g)"
  by simp

lemma call_ok:
  assumes E: "env_ok en watched" and M: "matched en watched xc p c h" and G: "good ok h" and can: "can ok True xc p (Call t name args) c"
  defines "cmd \<equiv> wire (name # args)"
  shows "\<exists>c' q h'. cstep en xc p (Call t name args) c = Some c' \<and> enabled ok True (Issue t cmd q) h \<and>
    run (Issue t cmd q) h = Some h' \<and> matched en watched xc p c' h'"
proof -
  obtain ac out where A: "ms_acs (cf_m c) p = Some ac" "as_ac (ms_st (cf_m c)) = None" "joined en watched xc p ac (ms_st (cf_m c)) h out"
    "length out + sum_list (map (length \<circ> h_cmd h) (h_list h)) \<le> cf_bytes c" using M by (auto simp: matched_def)
  have B: "cf_bytes c + length cmd + 1 < 2 ^ 31" "plain name" "h_up h" using can status_up [OF A(3)] by (auto simp: connected_xc_def cmd_def)
  define w where "w = wd (ms_st (cf_m c))"
  define b where "b = mw_fresh w"
  define m1 where "m1 = (cf_m c)\<lparr>ms_st := upd_wd (\<lambda>w. w\<lparr>mw_fresh := mw_fresh w + 1, mw_bufs := (mw_bufs w)(mw_fresh w \<mapsto> cmd @ [NUL])\<rparr>) (ms_st (cf_m c))\<rparr>"
  have old: "q \<in> queued h \<Longrightarrow> q < b" for q using listed_cells [OF G, of q] joinedD(3) [OF A(3)] by (auto simp: requests_are_def b_def w_def)
  have b0: "0 < b" using joinedD(8) [OF A(3)] by (simp add: b_def w_def)
  have "q - 1 \<noteq> b" if "q \<in> set (h_list h)" for q using old [of q] that by (auto simp: queued_def)
  then have J1: "joined en watched xc p ac (ms_st m1) h out"
    using joined_bufs [OF A(3), of "\<lambda>w. mw_fresh w + 1" "\<lambda>w. (mw_bufs w)(mw_fresh w \<mapsto> cmd @ [NUL])"] by (simp add: m1_def b_def w_def)
  have w1: "wd (ms_st m1) = w\<lparr>mw_fresh := b + 1, mw_bufs := (mw_bufs w)(b \<mapsto> cmd @ [NUL])\<rparr>" "ms_acs m1 p = Some ac" "as_ac (ms_st m1) = None"
    using A(1,2) by (simp_all add: m1_def mux_simps w_def b_def)
  have "length (h_list h) < 2 ^ 61" using list_bytes [OF joinedD(4) [OF A(3)]] A(4) B(1) by simp
  from enqueue_ok [OF J1 w1(2,3) B(3) this, of b "int (length cmd)"] obtain ls ws s m' where m': "enqueue en xc b (int (length cmd)) m1 = Some (Some (p, b + 1), m')"
    "ms_acs m' p = Some ac" "as_ac (ms_st m') = None" "as_cells (ms_st m') = as_cells (ms_st m1)" "as_lists (ms_st m') = ls"
    "as_tasks (ms_st m') = insert (b + 1) (as_tasks (ms_st m1))" "two_lists (ac_cmd_list ac) (rc_reconn_list (mw_client w)) ls (h_list h @ [b + 1]) ws" "length ws < 2 ^ 61"
    "wd (ms_st m') = (wd (ms_st m1))\<lparr>br_loop := (br_loop w)\<lparr>ae_world := (fst (ae_world (br_loop w)), en_poke en s (snd (ae_world (br_loop w))))\<rparr>,
      mw_fresh := b + 2, mw_requests := mw_requests w + 1,
      mw_cis := (mw_cis w)(b + 1 := \<lparr>ci_cmd = b, ci_len = int (length cmd), ci_reply = NULL, ci_reference = 2, ci_reply_sem = Some 0\<rparr>)\<rparr>"
    using w1 by (auto simp: w1(1))
  let ?q = "b + 1"
  define h' where "h' = set_phase t (Waiting cmd ?q (h_gen h))
       (h\<lparr>h_cells := (h_cells h)(?q := Some \<lparr>hc_ref = 2, hc_reply = None, hc_sem = 0\<rparr>), h_cmd := (h_cmd h)(?q := cmd),
          h_list := h_list h @ [?q]\<rparr>)"
  define c' where "c' = c\<lparr>cf_m := m', cf_phase := (cf_phase c)(t := Waiting cmd ?q 0), cf_buf := (cf_buf c)(t := b),
               cf_bytes := cf_bytes c + length cmd\<rparr>"
  have step: "cstep en xc p (Call t name args) c = Some c'"
  proof -
    have "mw_new (ms_st (cf_m c)) = (b, upd_wd (\<lambda>w. w\<lparr>mw_fresh := mw_fresh w + 1\<rparr>) (ms_st (cf_m c)))"
      by (simp add: mw_new_def b_def w_def)
    moreover have "(cf_m c)\<lparr>ms_st := upd_wd (\<lambda>w. w\<lparr>mw_bufs := (mw_bufs w)(b \<mapsto> cmd @ [NUL])\<rparr>) (upd_wd (\<lambda>w. w\<lparr>mw_fresh := mw_fresh w + 1\<rparr>) (ms_st (cf_m c)))\<rparr> = m1"
      by (simp add: m1_def upd_wd_def wd_def b_def w_def)
    ultimately show ?thesis using m'(1) by (simp add: cmd_def [symmetric] c'_def)
  qed
  have en: "enabled ok True (Issue t cmd ?q) h"
  proof -
    have "h_cells h ?q = None" using joinedD(3) [OF A(3)] by (fastforce simp: requests_are_def b_def w_def)
    moreover have "?q \<notin> leaving h" using M by (fastforce simp: matched_def leaving_def mw_of_def b_def w_def dest: request_of_Leaving)
    ultimately show ?thesis using can B(3) M by (auto simp: matched_def)
  qed
  have nq: "?q \<notin> set (h_list h)" using old [of ?q] by (auto simp: queued_def)
  have J': "joined en watched xc p ac (ms_st m') h' out"
    by (rule joined_issue [OF E J1 _ nq cmd_def [THEN meta_eq_to_obj_eq] B(2) _ _ _ _ m'(4,6,8) _ _ h'_def, where s = s and n = "mw_requests w + 1"
          and ci = "\<lparr>ci_cmd = b, ci_len = int (length cmd), ci_reply = NULL, ci_reference = 2, ci_reply_sem = Some 0\<rparr>"])
      (use m'(7) w1(1) in \<open>simp_all add: m'(5) cell_of_def or_null_def m'(9)\<close>)
  have len: "sum_list (map (length \<circ> h_cmd h') (h_list h')) = sum_list (map (length \<circ> h_cmd h) (h_list h)) + length cmd"
  proof -
    have "sum_list (map (length \<circ> h_cmd h') (h_list h)) = sum_list (map (length \<circ> h_cmd h) (h_list h))"
      using nq by (intro arg_cong [of _ _ sum_list]) (auto simp: h'_def mux_simps)
    moreover have "h_list h' = h_list h @ [?q]" "h_cmd h' ?q = cmd" by (simp_all add: h'_def mux_simps)
    ultimately show ?thesis by simp
  qed
  have ph: "g = 0 \<and> cf_buf c' u = q - 1 \<and> 0 < q \<and> q < mw_fresh (mw_of m')" if "request_of (h_phase h' u) = Some (q, g)" for u q g
  proof (cases "u = t")
    case True
    then show ?thesis using that M by (auto simp: h'_def mux_simps c'_def mw_of_def m'(9) matched_def)
  next
    case False
    then have "request_of (h_phase h u) = Some (q, g)" using that by (simp add: h'_def mux_simps)
    then have "g = 0 \<and> cf_buf c u = q - 1 \<and> 0 < q \<and> q < b" using M by (auto simp: matched_def mw_of_def b_def w_def)
    then show ?thesis using False by (simp add: c'_def mw_of_def m'(9))
  qed
  have "matched en watched xc p c' h'"
    using M A(4) J' m'(2,3) len B(1) ph by (auto simp: matched_def c'_def h'_def mux_simps)
  moreover have "run (Issue t cmd ?q) h = Some h'" by (simp add: h'_def)
  ultimately show ?thesis using step en by blast
qed

lemma matchedI:
  assumes "ms_acs (cf_m c) p = Some ac" "as_ac (ms_st (cf_m c)) = None" "joined en watched xc p ac (ms_st (cf_m c)) h out"
    "length out + sum_list (map (length \<circ> h_cmd h) (h_list h)) \<le> cf_bytes c" "cf_bytes c + 1 < 2 ^ 31" "cf_phase c = h_phase h"
    "cf_wire c = h_wire h" "cf_lost c = h_lost h" "h_ctx h" "h_gen h = 0"
    "\<And>t q g. request_of (h_phase h t) = Some (q, g) \<Longrightarrow> g = 0 \<and> cf_buf c t = q - 1 \<and> 0 < q \<and> q < mw_fresh (mw_of (cf_m c))"
  shows "matched en watched xc p c h"
  unfolding matched_def using assms by blast

lemma matchedE:
  assumes "matched en watched xc p c h"
  obtains ac out where "ms_acs (cf_m c) p = Some ac" "as_ac (ms_st (cf_m c)) = None" "joined en watched xc p ac (ms_st (cf_m c)) h out"
    "length out + sum_list (map (length \<circ> h_cmd h) (h_list h)) \<le> cf_bytes c" "cf_bytes c + 1 < 2 ^ 31" "cf_phase c = h_phase h"
    "cf_wire c = h_wire h" "cf_lost c = h_lost h" "h_ctx h" "h_gen h = 0"
    "\<forall>t q g. request_of (h_phase h t) = Some (q, g) \<longrightarrow> g = 0 \<and> cf_buf c t = q - 1 \<and> 0 < q \<and> q < mw_fresh (mw_of (cf_m c))"
  using assms unfolding matched_def by blast

lemma cells_upd:
  assumes "requests_are st h" "h_cells h q = Some x" "as_tasks st' = as_tasks st" "mw_cis (wd st') = (mw_cis (wd st))(q := ci)"
    "mw_fresh (wd st') = mw_fresh (wd st)" "cell_of ci x'" "h_cells h' = (h_cells h)(q \<mapsto> x')"
  shows "requests_are st' h'"
  using assms by (auto simp: requests_are_def dom_def)

lemma cells_del:
  assumes "requests_are st h" "as_tasks st' = as_tasks st - {q}" "mw_cis (wd st') = (mw_cis (wd st))(q := ci)"
    "mw_fresh (wd st') = mw_fresh (wd st)" "h_cells h' = (h_cells h)(q := None)"
  shows "requests_are st' h'"
  using assms by (auto simp: requests_are_def dom_def)

lemma joined_cells':
  assumes J: "joined en watched xc p ac st h out" and S: "as_lists st' = as_lists st"
    "wd st' = (wd st)\<lparr>mw_cis := cis\<rparr>" "\<And>q. ci_cmd (cis q) = ci_cmd (mw_cis (wd st) q) \<and> ci_len (cis q) = ci_len (mw_cis (wd st) q)"
    and H: "requests_are st' h'" "h_list h' = h_list h" "h_up h' = h_up h" "h_cmd h' = h_cmd h"
    and A: "queues (ac_replies ac') (ac_invalid ac') (as_cells st') (map (Pair REPLY_CALLBACK) (h_pending h')) []" "ac_c ac' = ac_c ac"
      "ac_ev ac' = ac_ev ac" "ac_cmd_list ac' = ac_cmd_list ac" "ac_xc ac' = ac_xc ac"
  shows "joined en watched xc p ac' st' h' out"
proof -
  have "takes en watched ac' st' out" by (rule takes_keep [OF joinedD(1) [OF J]]) (simp_all add: S(2) client_of_def A)
  moreover have "commands st' h'" using joinedD(4) [OF J] by (simp add: commands_def S H(2,4))
  ultimately show ?thesis using J H S A unfolding joined_def inner_def by (auto simp: client_of_def get_xc_def)
qed

lemma joined_cells:
  assumes J: "joined en watched xc p ac st h out" and S: "as_cells st' = as_cells st" "as_lists st' = as_lists st"
    "wd st' = (wd st)\<lparr>mw_cis := cis\<rparr>" "\<And>q. ci_cmd (cis q) = ci_cmd (mw_cis (wd st) q) \<and> ci_len (cis q) = ci_len (mw_cis (wd st) q)"
    and H: "requests_are st' h'" "h_list h' = h_list h" "h_pending h' = h_pending h" "h_up h' = h_up h" "h_cmd h' = h_cmd h"
  shows "joined en watched xc p ac st' h' out"
  by (rule joined_cells' [OF J S(2-4) H(1,2,4,5)]) (use joinedD(2) [OF J] in \<open>simp_all add: S(1) H(3)\<close>)

text \<open>A request that somebody refers to, and the one reference less.\<close>

lemma cells_ref:
  assumes "requests_are st h" "h_cells h q = Some x"
  shows "get_ci q st = Some (mw_cis (wd st) q)" "cell_of (mw_cis (wd st) q) x" "q \<in> as_tasks st" "q \<noteq> NULL"
  using assms by (auto simp: requests_are_def get_ci_def)

lemma ci_add_ok:
  assumes "requests_are st h" "h_cells h q = Some x" "0 < hc_ref x" "hc_ref x \<le> 3"
  shows "ci_add q (- 1) st = Some (hc_ref x - 1,
    upd_wd (\<lambda>w. w\<lparr>mw_cis := (mw_cis w)(q := (mw_cis (wd st) q)\<lparr>ci_reference := hc_ref x - 1\<rparr>)\<rparr>) st)"
  using cells_ref [OF assms(1,2)] assms(3,4) by (simp add: ci_add_def upd_ci_def cell_of_def mux_simps Let_def)

lemma free_ci_ok:
  assumes "q \<in> as_tasks st" "q \<noteq> NULL" "ci_reply_sem (mw_cis (wd st) q) \<noteq> None"
  shows "free_ci q st = Some ((upd_wd (\<lambda>w. w\<lparr>mw_cis := (mw_cis w)(q := (mw_cis (wd st) q)\<lparr>ci_reply_sem := None\<rparr>)\<rparr>) st)
    \<lparr>as_tasks := as_tasks st - {q}\<rparr>)"
  using assms by (simp add: free_ci_def sem_destroy_def upd_ci_def get_ci_def free_task_def mux_simps)

lemma refs_small: "refs h q \<le> 3"
  by (simp add: refs_def)

lemma waiting_cell:
  assumes "good ok h" "h_phase h t = Waiting cmd q g"
  shows "\<exists>x. h_cells h q = Some x \<and> hc_ref x = refs h q \<and> refs h q = 1 + (if q \<in> queued h then 1 else 0)"
proof -
  have w: "waits_on h t q" using assms(2) by (auto simp: waits_on_def)
  then have l: "q \<notin> h_leaked h" using assms(1) unfolding good_def counted_def by blast
  have "h_cells h q \<noteq> None" using assms(1) w by (auto simp: good_def counted_def refs_cases)
  moreover have "h_cells h q = Some x \<Longrightarrow> hc_ref x = refs h q" for x using assms(1) by (simp add: good_def counted_def)
  moreover have "refs h q = 1 + (if q \<in> queued h then 1 else 0)" using w l by (auto simp: refs_def)
  ultimately show ?thesis by blast
qed

lemma joined_free_buf:
  assumes "joined en watched xc p ac st h out" "\<forall>q \<in> set (h_list h). q - 1 \<noteq> b"
  shows "joined en watched xc p ac (upd_wd (\<lambda>w. w\<lparr>mw_bufs := (mw_bufs w)(b := None)\<rparr>) st) h out"
  using joined_bufs [OF assms(1), of mw_fresh "\<lambda>w. (mw_bufs w)(b := None)"] assms(2) by simp

lemma joined_phase: "joined en watched xc p ac st (set_phase t ph h) out = joined en watched xc p ac st h out"
  by (simp add: joined_def inner_def requests_are_def commands_def mux_simps)

text \<open>A step of a caller keeps the match when it keeps the memory in order.\<close>

lemma matched_caller:
  assumes M: "matched en watched xc p c h"
    and J: "\<And>ac out. ms_acs (cf_m c) p = Some ac \<Longrightarrow> joined en watched xc p ac (ms_st (cf_m c)) h out \<Longrightarrow>
      joined en watched xc p ac st' h1 out"
    and S: "as_ac st' = as_ac (ms_st (cf_m c))" "mw_fresh (wd st') = mw_fresh (wd (ms_st (cf_m c)))"
    and H: "sum_list (map (length \<circ> h_cmd h1) (h_list h1)) \<le> sum_list (map (length \<circ> h_cmd h) (h_list h))" "h_phase h1 = h_phase h"
      "h_wire h1 = h_wire h" "h_lost h1 = h_lost h" "h_ctx h1 = h_ctx h" "h_gen h1 = h_gen h"
    and ph: "request_of ph = None \<or> request_of ph = request_of (h_phase h t)"
  shows "matched en watched xc p (c\<lparr>cf_m := (cf_m c)\<lparr>ms_st := st'\<rparr>, cf_phase := (cf_phase c)(t := ph)\<rparr>) (set_phase t ph h1)"
    (is "matched en watched xc p ?c ?h")
proof -
  obtain ac out where A: "ms_acs (cf_m c) p = Some ac" "as_ac (ms_st (cf_m c)) = None" "joined en watched xc p ac (ms_st (cf_m c)) h out"
    "length out + sum_list (map (length \<circ> h_cmd h) (h_list h)) \<le> cf_bytes c" "cf_bytes c + 1 < 2 ^ 31" "cf_phase c = h_phase h"
    "cf_wire c = h_wire h" "cf_lost c = h_lost h" "h_ctx h" "h_gen h = 0"
    "\<forall>t q g. request_of (h_phase h t) = Some (q, g) \<longrightarrow> g = 0 \<and> cf_buf c t = q - 1 \<and> 0 < q \<and> q < mw_fresh (mw_of (cf_m c))"
    using M by (rule matchedE)
  have r: "v = 0 \<and> cf_buf ?c u = q - 1 \<and> 0 < q \<and> q < mw_fresh (mw_of (cf_m ?c))" if "request_of (h_phase ?h u) = Some (q, v)" for u q v
  proof -
    have "request_of (h_phase h u) = Some (q, v)" using that ph H(2) by (auto simp: mux_simps split: if_splits)
    from A(11) [rule_format, OF this] show ?thesis using S(2) by (simp add: mw_of_def)
  qed
  have j: "joined en watched xc p ac (ms_st (cf_m ?c)) ?h out" using J [OF A(1,3)] by (simp add: joined_phase)
  have l: "length out + sum_list (map (length \<circ> h_cmd ?h) (h_list ?h)) \<le> cf_bytes ?c" using A(4) H(1) by (simp add: mux_simps)
  show ?thesis
    by (rule matchedI [OF _ _ j l _ _ _ _ _ _ r]) (simp_all add: A(1,2,6-10) A(5) [simplified] S(1) H mux_simps)
qed

lemma matched_request:
  assumes "matched en watched xc p c h" "request_of (h_phase h t) = Some (q, g)"
  shows "g = 0" "cf_buf c t = q - 1" "0 < q" "q < mw_fresh (mw_of (cf_m c))"
proof -
  have "\<forall>t q g. request_of (h_phase h t) = Some (q, g) \<longrightarrow> g = 0 \<and> cf_buf c t = q - 1 \<and> 0 < q \<and> q < mw_fresh (mw_of (cf_m c))"
    using assms(1) unfolding matched_def by (elim conjE)
  from this [rule_format, OF assms(2)]
  show "g = 0" "cf_buf c t = q - 1" "0 < q" "q < mw_fresh (mw_of (cf_m c))" by simp_all
qed

lemma matched_phase: "matched en watched xc p c h \<Longrightarrow> cf_phase c = h_phase h"
  by (simp add: matched_def)

lemma finish_ok:
  assumes M: "matched en watched xc p c h" and G: "good ok h" and ph: "h_phase h t = Waiting cmd q g"
  shows "\<exists>c' h'. cstep en xc p (Finish t) c = Some c' \<and> run (Collect t) h = Some h' \<and> matched en watched xc p c' h'"
proof -
  obtain ac out where J: "joined en watched xc p ac (ms_st (cf_m c)) h out" using M by (auto simp: matched_def)
  obtain x where x: "h_cells h q = Some x" "hc_ref x = refs h q" "refs h q = 1 + (if q \<in> queued h then 1 else 0)"
    using waiting_cell [OF G ph] by blast
  define st where "st = ms_st (cf_m c)"
  define w where "w = wd st"
  note J = J [folded st_def]
  note R = cells_ref [OF joinedD(3) [OF J] x(1), folded w_def]
  define cis where "cis = (mw_cis w)(q := (mw_cis w q)\<lparr>ci_reference := hc_ref x - 1\<rparr>)"
  have col: "collect q (cf_m c) = Some (ci_reply (mw_cis w q), hc_ref x - 1, (cf_m c)\<lparr>ms_st := upd_wd (\<lambda>w. w\<lparr>mw_cis := cis\<rparr>) st\<rparr>)"
    using ci_add_ok [OF joinedD(3) [OF J] x(1)] x(2,3) R(1) by (simp add: collect_def st_def [symmetric] w_def cis_def upd_wd_def wd_def)
  have rep: "or_null (ci_reply (mw_cis w q)) = hc_reply x" using R(2) by (simp add: cell_of_def)
  have buf: "cf_buf c t = q - 1" "0 < q" "cf_phase c t = Waiting cmd q g"
    using matched_request [OF M, of t q g] matched_phase [OF M] ph by simp_all
  show ?thesis
  proof (cases "q \<in> queued h")
    case True
    define st' where "st' = upd_wd (\<lambda>w. w\<lparr>mw_cis := cis\<rparr>) st"
    define x' where "x' = x\<lparr>hc_ref := hc_ref x - 1\<rparr>"
    define h1 where "h1 = h\<lparr>h_cells := (h_cells h)(q := Some x')\<rparr>"
    have "requests_are st' h1"
      by (rule cells_upd [OF joinedD(3) [OF J] x(1), where ci = "(mw_cis w q)\<lparr>ci_reference := hc_ref x - 1\<rparr>" and x' = x'])
        (use R(2) in \<open>simp_all add: st'_def w_def h1_def mux_simps cis_def cell_of_def x'_def\<close>)
    then have j: "joined en watched xc p ac st' h1 out" if "joined en watched xc p ac st h out" for ac out
      by (intro joined_cells [OF that, of st' cis h1]) (simp_all add: st'_def h1_def mux_simps cis_def w_def)
    let ?ph = "Leaving cmd q g (hc_reply x)"
    let ?c = "c\<lparr>cf_m := (cf_m c)\<lparr>ms_st := st'\<rparr>, cf_phase := (cf_phase c)(t := ?ph)\<rparr>"
    have "cstep en xc p (Finish t) c = Some ?c" using buf(3) col x(2,3) True rep by (simp add: st'_def)
    moreover have "run (Collect t) h = Some (set_phase t ?ph h1)" using ph x True by (simp add: collect_step_def h1_def x'_def)
    moreover have "matched en watched xc p ?c (set_phase t ?ph h1)"
      by (rule matched_caller [OF M, folded st_def, OF j]) (use ph in \<open>simp_all add: st'_def h1_def mux_simps\<close>)
    ultimately show ?thesis by blast
  next
    case False
    define st1 where "st1 = (upd_wd (\<lambda>w. w\<lparr>mw_cis := cis(q := (cis q)\<lparr>ci_reply_sem := None\<rparr>)\<rparr>) st)\<lparr>as_tasks := as_tasks st - {q}\<rparr>"
    define st' where "st' = upd_wd (\<lambda>w. w\<lparr>mw_bufs := (mw_bufs w)(q - 1 := None)\<rparr>) st1"
    define h1 where "h1 = h\<lparr>h_cells := (h_cells h)(q := None)\<rparr>"
    have "requests_are st1 h1"
      by (rule cells_del [OF joinedD(3) [OF J], where q = q and ci = "(cis q)\<lparr>ci_reply_sem := None\<rparr>"])
        (simp_all add: st1_def h1_def mux_simps cis_def w_def)
    then have j1: "joined en watched xc p ac st1 h1 out" if "joined en watched xc p ac st h out" for ac out
      by (intro joined_cells [OF that, of st1 "cis(q := (cis q)\<lparr>ci_reply_sem := None\<rparr>)" h1]) (simp_all add: st1_def h1_def mux_simps cis_def w_def)
    have "u \<noteq> q" "0 < u" if "u \<in> set (h_list h1)" for u
      using that False joinedD(4) [OF J] by (auto simp: h1_def queued_def commands_def)
    then have "\<forall>u \<in> set (h_list h1). u - 1 \<noteq> q - 1" using buf(2) by fastforce
    from joined_free_buf [OF j1 this] have j: "joined en watched xc p ac st' h1 out" if "joined en watched xc p ac st h out" for ac out
      using that by (simp add: st'_def)
    let ?ph = "Done cmd (hc_reply x)"
    let ?c = "c\<lparr>cf_m := (cf_m c)\<lparr>ms_st := st'\<rparr>, cf_phase := (cf_phase c)(t := ?ph)\<rparr>"
    have "free_ci q (upd_wd (\<lambda>w. w\<lparr>mw_cis := cis\<rparr>) st) = Some st1"
      using free_ci_ok [of q "upd_wd (\<lambda>w. w\<lparr>mw_cis := cis\<rparr>) st"] R by (simp add: st1_def mux_simps cis_def cell_of_def upd_wd_def wd_def)
    then have "cstep en xc p (Finish t) c = Some ?c"
      using buf col x(2,3) False rep by (simp add: st'_def on_st_def free_buf_def)
    moreover have "run (Collect t) h = Some (set_phase t ?ph h1)" using ph x False by (simp add: collect_step_def h1_def)
    moreover have "matched en watched xc p ?c (set_phase t ?ph h1)"
      by (rule matched_caller [OF M, folded st_def, OF j]) (simp_all add: st'_def st1_def h1_def mux_simps)
    ultimately show ?thesis by blast
  qed
qed

text \<open>What an operation on the list of commands does.\<close>

lemma joined_lists:
  assumes J: "joined en watched xc p ac st h out"
    and T: "two_lists (ac_cmd_list ac) (rc_reconn_list (client_of st)) ls (h_list h1) ws" "h_up h1 \<longrightarrow> length ws < 2 ^ 61"
    and H: "set (h_list h1) \<subseteq> set (h_list h)" "h_cells h1 = h_cells h" "h_cmd h1 = h_cmd h" "h_pending h1 = h_pending h" "h_up h1 = h_up h"
  shows "joined en watched xc p ac (st\<lparr>as_lists := ls\<rparr>) h1 out"
proof -
  have "takes en watched ac (st\<lparr>as_lists := ls\<rparr>) out"
    by (rule takes_keep [OF joinedD(1) [OF J]]) (simp_all add: mux_simps client_of_def)
  moreover have "commands (st\<lparr>as_lists := ls\<rparr>) h1" using joinedD(4) [OF J] H(1) by (auto simp: commands_def mux_simps H(3))
  moreover have "requests_are (st\<lparr>as_lists := ls\<rparr>) h1" using joinedD(3) [OF J] unfolding requests_are_def H(2) by (auto simp: mux_simps)
  ultimately show ?thesis using J T H(4,5) unfolding joined_def inner_def by (auto simp: mux_simps client_of_def get_xc_def)
qed

lemma sum_remove1: "sum_list (map f (remove1 q xs)) \<le> sum_list (map (f :: 'b \<Rightarrow> nat) xs)"
  by (induction xs) auto

lemma leave_ok:
  assumes M: "matched en watched xc p c h" and G: "good ok h" and ph: "h_phase h t = Leaving cmd q g r"
  shows "\<exists>c' h'. cstep en xc p (Leave t) c = Some c' \<and> run (Abandon t) h = Some h' \<and> matched en watched xc p c' h'"
proof -
  obtain ac out where A: "ms_acs (cf_m c) p = Some ac" and J: "joined en watched xc p ac (ms_st (cf_m c)) h out"
    and B: "length out + sum_list (map (length \<circ> h_cmd h) (h_list h)) \<le> cf_bytes c" "cf_bytes c + 1 < 2 ^ 31" and C: "h_ctx h" "h_gen h = 0"
    using M by (auto simp: matched_def)
  have up: "h_up h" using G ph by (auto simp: good_def living_def)
  define st where "st = ms_st (cf_m c)"
  note J = J [folded st_def]
  obtain ws where T: "two_lists (ac_cmd_list ac) (rc_reconn_list (client_of st)) (as_lists st) (h_list h) ws" "length ws < 2 ^ 61"
    using J up by (auto simp: joined_def inner_def)
  have "length (h_list h) < 2 ^ 63" using list_bytes [OF joinedD(4) [OF J]] B by simp
  then obtain n where n: "listSearchKey (ac_cmd_list ac) q (as_lists st) = Some n" "n = NULL \<longleftrightarrow> q \<notin> set (h_list h)"
    "q \<in> set (h_list h) \<Longrightarrow> \<exists>ls. listDelNode (ac_cmd_list ac) n (as_lists st) = Some ls \<and>
      two_lists (ac_cmd_list ac) (rc_reconn_list (client_of st)) ls (remove1 q (h_list h)) ws"
    using two_lists_search [OF T(1), of q] by auto
  obtain ls where ls: "(if n \<noteq> NULL then listDelNode (ac_cmd_list ac) n (as_lists st) else Some (as_lists st)) = Some ls"
    "two_lists (ac_cmd_list ac) (rc_reconn_list (client_of st)) ls (remove1 q (h_list h)) ws"
    using n(2,3) T(1) by (cases "q \<in> set (h_list h)") (auto simp: remove1_idem)
  define h1 where "h1 = h\<lparr>h_list := remove1 q (h_list h), h_leaked := (if q \<in> set (h_list h) then insert q (h_leaked h) else h_leaked h)\<rparr>"
  have buf: "cf_buf c t = q - 1" "0 < q" "cf_phase c t = Leaving cmd q g r" "g = 0"
    using matched_request [OF M, of t q g] matched_phase [OF M] ph by simp_all
  have d: "u \<noteq> q" "0 < u" if "u \<in> set (h_list h1)" for u
    using that G joinedD(4) [OF J] set_remove1_subset [of q "h_list h"] by (auto simp: h1_def good_def counted_def commands_def)
  then have d: "\<forall>u \<in> set (h_list h1). u - 1 \<noteq> q - 1" using buf(2) by fastforce
  define st' where "st' = upd_wd (\<lambda>w. w\<lparr>mw_bufs := (mw_bufs w)(q - 1 := None)\<rparr>) (st\<lparr>as_lists := ls\<rparr>)"
  have j: "joined en watched xc p bc st' h1 o1" if "ms_acs (cf_m c) p = Some bc" "joined en watched xc p bc st h o1" for bc o1
  proof -
    have bc: "bc = ac" using that(1) A by simp
    have "joined en watched xc p ac (st\<lparr>as_lists := ls\<rparr>) h1 o1"
      by (rule joined_lists [OF that(2) [unfolded bc], where ws = ws]) (use ls(2) T(2) set_remove1_subset [of q "h_list h"] in \<open>simp_all add: h1_def\<close>)
    from joined_free_buf [OF this d] show ?thesis by (simp add: st'_def bc)
  qed
  let ?c = "c\<lparr>cf_m := (cf_m c)\<lparr>ms_st := st'\<rparr>, cf_phase := (cf_phase c)(t := Done cmd r)\<rparr>"
  obtain x where x: "get_xc xc st = Some x" "x_status x = CONNECTED" using status_up [OF J] up by auto
  have "abandon xc p q (cf_m c) = Some ((cf_m c)\<lparr>ms_st := st\<lparr>as_lists := ls\<rparr>\<rparr>)"
    using A n(1) ls(1) x by (auto simp: abandon_def on_lists_def on_st_def st_def [symmetric] get_xc_def mux_simps split: if_splits)
  then have "cstep en xc p (Leave t) c = Some ?c" using buf by (simp add: free_buf_def st'_def)
  moreover have "run (Abandon t) h = Some (set_phase t (Done cmd r) h1)"
    using ph up C buf(4) by (simp add: abandon_step_def Let_def h1_def)
  moreover have "matched en watched xc p ?c (set_phase t (Done cmd r) h1)"
    by (rule matched_caller [OF M, folded st_def, OF j]) (use sum_remove1 [of "length \<circ> h_cmd h"] in \<open>simp_all add: st'_def h1_def mux_simps\<close>)
  ultimately show ?thesis by blast
qed

section \<open>The loop thread\<close>

text \<open>The callback of the first request that was sent.\<close>

lemma replyCallback_ok:
  assumes C: "requests_are st h" "h_cells h q = Some x" "0 < hc_ref x" "hc_ref x \<le> 3" and hp: "freeReplyObject r (as_heap st) = Some hp"
  shows "\<exists>st' h'. replyCallback r q st = Some st' \<and> reply_to q (or_null r) h = Some h' \<and> requests_are st' h' \<and>
    as_ac st' = as_ac st \<and> as_lists st' = as_lists st \<and> as_cells st' = as_cells st \<and>
    (\<exists>cis. wd st' = (wd st)\<lparr>mw_cis := cis\<rparr> \<and> (\<forall>u. ci_cmd (cis u) = ci_cmd (mw_cis (wd st) u) \<and> ci_len (cis u) = ci_len (mw_cis (wd st) u)))"
proof -
  note R = cells_ref [OF C(1,2)]
  define w where "w = wd st"
  define ci where "ci = (mw_cis w q)\<lparr>ci_reference := hc_ref x - 1\<rparr>"
  define st1 where "st1 = upd_wd (\<lambda>w. w\<lparr>mw_cis := (mw_cis w)(q := ci)\<rparr>) st"
  have a: "ci_add q (- 1) st = Some (hc_ref x - 1, st1)" using ci_add_ok [OF C] by (simp add: st1_def ci_def w_def)
  show ?thesis
  proof (cases "hc_ref x - 1 \<le> 0")
    case True
    define st' where "st' = (upd_wd (\<lambda>w. w\<lparr>mw_cis := (mw_cis w)(q := ci\<lparr>ci_reply_sem := None\<rparr>)\<rparr>) st)\<lparr>as_tasks := as_tasks st - {q}, as_heap := hp\<rparr>"
    have "free_ci q st1 = Some ((upd_wd (\<lambda>w. w\<lparr>mw_cis := (mw_cis w)(q := ci\<lparr>ci_reply_sem := None\<rparr>)\<rparr>) st)\<lparr>as_tasks := as_tasks st - {q}\<rparr>)"
      using free_ci_ok [of q st1] R by (simp add: st1_def mux_simps cell_of_def ci_def w_def upd_wd_def wd_def)
    then have "replyCallback r q st = Some st'" using a True hp R(4) by (simp add: replyCallback_def st'_def mux_simps)
    moreover have "reply_to q (or_null r) h = Some (h\<lparr>h_cells := (h_cells h)(q := None)\<rparr>)" using C(2) True by (simp add: reply_to_def)
    moreover have "requests_are st' (h\<lparr>h_cells := (h_cells h)(q := None)\<rparr>)"
      by (rule cells_del [OF C(1), where q = q and ci = "ci\<lparr>ci_reply_sem := None\<rparr>"]) (simp_all add: st'_def mux_simps)
    moreover have "wd st' = w\<lparr>mw_cis := (mw_cis w)(q := ci\<lparr>ci_reply_sem := None\<rparr>)\<rparr>" by (simp add: st'_def mux_simps w_def)
    ultimately show ?thesis
      by (intro exI [of _ st'] exI conjI) (auto simp: st'_def mux_simps w_def ci_def)
  next
    case False
    define ci' where "ci' = ci\<lparr>ci_reply := r, ci_reply_sem := Some (hc_sem x + 1)\<rparr>"
    define st' where "st' = upd_wd (\<lambda>w. w\<lparr>mw_cis := (mw_cis w)(q := ci')\<rparr>) st"
    let ?x = "\<lparr>hc_ref = hc_ref x - 1, hc_reply = or_null r, hc_sem = hc_sem x + 1\<rparr>"
    have "replyCallback r q st = Some st'"
      using a False R by (simp add: replyCallback_def st'_def st1_def sem_post_def upd_ci_def get_ci_def mux_simps cell_of_def ci'_def ci_def w_def upd_wd_def wd_def)
    moreover have "reply_to q (or_null r) h = Some (h\<lparr>h_cells := (h_cells h)(q \<mapsto> ?x)\<rparr>)" using C(2) False by (simp add: reply_to_def)
    moreover have "requests_are st' (h\<lparr>h_cells := (h_cells h)(q \<mapsto> ?x)\<rparr>)"
      by (rule cells_upd [OF C(1,2), where ci = ci' and x' = ?x]) (simp_all add: st'_def mux_simps cell_of_def ci'_def ci_def)
    ultimately show ?thesis
      by (intro exI [of _ st'] exI conjI) (auto simp: st'_def mux_simps w_def ci'_def ci_def)
  qed
qed

lemma reply_to_sel:
  assumes "reply_to q r h = Some h'"
  shows "h_list h' = h_list h" "h_pending h' = h_pending h" "h_cmd h' = h_cmd h" "h_up h' = h_up h" "h_wire h' = h_wire h"
    "h_lost h' = h_lost h" "h_ctx h' = h_ctx h" "h_gen h' = h_gen h" "h_phase h' = h_phase h"
  using assms by (auto simp: reply_to_def split: option.splits if_splits)

lemma call_first_ok:
  assumes J: "joined en watched xc p ac st h out" and st: "as_ac st = Some ac" and G: "good ok h" and P: "h_pending h = q # ps"
    and hp: "freeReplyObject r (as_heap st) \<noteq> None"
  shows "\<exists>st' ac' h'. call_first r st = Some st' \<and> deliver en r st = Some st' \<and> as_ac st' = Some ac' \<and>
    reply_to q (or_null r) (h\<lparr>h_pending := ps\<rparr>) = Some h' \<and> joined en watched xc p ac' st' h' out \<and> mw_fresh (wd st') = mw_fresh (wd st)"
proof -
  obtain c l ch where sh: "redisShiftCallback (ac_replies ac) (as_cells st) = Some (REDIS_OK, Some c, l, ch)" "cb_of c = (REPLY_CALLBACK, q)"
    "queues l (ac_invalid ac) ch (map (Pair REPLY_CALLBACK) ps) []"
    using queues_shift [OF joinedD(2) [OF J, unfolded P list.map]] by blast
  define fl where "fl = c_flags (ac_c ac)"
  have nb: "\<not> bit fl 4" using joinedD(1) [OF J] by (simp add: takes_def open_flags_def fl_def)
  define ac1 where "ac1 = ac\<lparr>ac_replies := l, ac_c := (ac_c ac)\<lparr>c_flags := set_flag fl REDIS_IN_CALLBACK\<rparr>\<rparr>"
  define st1 where "st1 = st\<lparr>as_cells := ch, as_ac := Some ac1\<rparr>"
  define ac2 where "ac2 = ac\<lparr>ac_replies := l\<rparr>"
  have "h_cells h q \<noteq> None" using listed_cells [OF G, of q] P by (simp add: queued_def)
  then obtain x where x: "h_cells h q = Some x" by blast
  then have xr: "0 < hc_ref x" "hc_ref x \<le> 3" using G refs_small [of h q] by (auto simp: good_def counted_def)
  obtain hp' where hp': "freeReplyObject r (as_heap st1) = Some hp'" using hp by (auto simp: st1_def)
  have c1: "requests_are st1 (h\<lparr>h_pending := ps\<rparr>)" using joinedD(3) [OF J] by (auto simp: requests_are_def st1_def mux_simps)
  have "h_cells (h\<lparr>h_pending := ps\<rparr>) q = Some x" using x by simp
  from replyCallback_ok [OF c1 this xr hp'] obtain st2 h' cis where r: "replyCallback r q st1 = Some st2" "reply_to q (or_null r) (h\<lparr>h_pending := ps\<rparr>) = Some h'" "requests_are st2 h'"
    "as_ac st2 = as_ac st1" "as_lists st2 = as_lists st1" "as_cells st2 = as_cells st1" "wd st2 = (wd st1)\<lparr>mw_cis := cis\<rparr>"
    "\<forall>u. ci_cmd (cis u) = ci_cmd (mw_cis (wd st1) u) \<and> ci_len (cis u) = ci_len (mw_cis (wd st1) u)"
    by (elim exE conjE)
  define st' where "st' = st2\<lparr>as_ac := Some ac2\<rparr>"
  have run: "redisRunCallback mux_user c r (st\<lparr>as_ac := Some ac2, as_cells := ch\<rparr>) = Some st'"
    using sh(2) r(1,4) nb set_clear_flag [OF nb]
    by (simp add: redisRunCallback_def upd_flags_def upd_c_def upd_ac_def mux_user_def REPLY_CALLBACK_def st'_def ac2_def st1_def ac1_def fl_def)
  have "call_first r st = Some st'" using st sh(1) run by (simp add: call_first_def shift_cb_def get_cbs_def set_cbs_def ac2_def)
  moreover have "deliver en r st = Some st'"
    using st sh(1) run by (simp add: deliver_def next_callback_def shift_cb_def get_cbs_def set_cbs_def ac2_def)
  moreover have "joined en watched xc p ac2 st' h' out"
  proof (rule joined_cells' [OF J, where cis = cis])
    show "requests_are st' h'" using r(3) by (auto simp: requests_are_def st'_def mux_simps)
  qed (use r(5-8) reply_to_sel [OF r(2)] sh(3) in \<open>simp_all add: st'_def mux_simps st1_def ac2_def\<close>)
  moreover have "mw_fresh (wd st') = mw_fresh (wd st)" by (simp add: st'_def mux_simps r(7) st1_def)
  ultimately show ?thesis using r(2) by (intro exI [of _ st'] exI [of _ ac2] exI [of _ h']) (simp add: st'_def)
qed

lemma joined_as_ac: "joined en watched xc p ac (st\<lparr>as_ac := z\<rparr>) h out = joined en watched xc p ac st h out"
  by (simp add: joined_def inner_def takes_def requests_are_def commands_def mux_simps client_of_def get_xc_def)

lemma joined_wire: "joined en watched xc p ac st (h\<lparr>h_wire := w\<rparr>) out = joined en watched xc p ac st h out"
  by (simp add: joined_def inner_def requests_are_def commands_def)

lemma reply_to_wire:
  "reply_to q r h = Some h' \<Longrightarrow> reply_to q r (h\<lparr>h_wire := w\<rparr>) = Some (h'\<lparr>h_wire := w\<rparr>)"
  by (auto simp: reply_to_def split: option.splits if_splits)

text \<open>A step of the loop thread on the context.\<close>

lemma matched_loop:
  assumes M: "matched en watched xc p c h"
    and F: "\<And>ac out. ms_acs (cf_m c) p = Some ac \<Longrightarrow> joined en watched xc p ac ((ms_st (cf_m c))\<lparr>as_ac := Some ac\<rparr>) h out \<Longrightarrow>
      \<exists>st' ac'. f ((ms_st (cf_m c))\<lparr>as_ac := Some ac\<rparr>) = Some st' \<and> as_ac st' = Some ac' \<and> joined en watched xc p ac' st' h1 out \<and>
        mw_fresh (wd st') = mw_fresh (wd (ms_st (cf_m c)))"
    and H: "sum_list (map (length \<circ> h_cmd h1) (h_list h1)) \<le> sum_list (map (length \<circ> h_cmd h) (h_list h))" "h_phase h1 = h_phase h"
      "h_lost h1 = h_lost h" "h_ctx h1 = h_ctx h" "h_gen h1 = h_gen h"
  shows "\<exists>m'. do_ac p f (cf_m c) = Some m' \<and> matched en watched xc p (c\<lparr>cf_m := m', cf_wire := h_wire h1\<rparr>) h1"
proof -
  obtain ac out where A: "ms_acs (cf_m c) p = Some ac" "as_ac (ms_st (cf_m c)) = None" "joined en watched xc p ac (ms_st (cf_m c)) h out"
    "length out + sum_list (map (length \<circ> h_cmd h) (h_list h)) \<le> cf_bytes c" "cf_bytes c + 1 < 2 ^ 31" "cf_phase c = h_phase h"
    "cf_wire c = h_wire h" "cf_lost c = h_lost h" "h_ctx h" "h_gen h = 0"
    "\<forall>t q g. request_of (h_phase h t) = Some (q, g) \<longrightarrow> g = 0 \<and> cf_buf c t = q - 1 \<and> 0 < q \<and> q < mw_fresh (mw_of (cf_m c))"
    using M by (rule matchedE)
  have "joined en watched xc p ac ((ms_st (cf_m c))\<lparr>as_ac := Some ac\<rparr>) h out" using A(3) by (simp add: joined_as_ac)
  from F [OF A(1) this] obtain st' ac' where st': "f ((ms_st (cf_m c))\<lparr>as_ac := Some ac\<rparr>) = Some st'" "as_ac st' = Some ac'"
    "joined en watched xc p ac' st' h1 out" "mw_fresh (wd st') = mw_fresh (wd (ms_st (cf_m c)))" by blast
  define m' where "m' = (cf_m c)\<lparr>ms_acs := (ms_acs (cf_m c))(p := Some ac'), ms_st := st'\<lparr>as_ac := None\<rparr>\<rparr>"
  have d: "do_ac p f (cf_m c) = Some m'" using A(1) st'(1,2) by (simp add: do_ac_def with_ac_def no_value_def m'_def)
  let ?c = "c\<lparr>cf_m := m', cf_wire := h_wire h1\<rparr>"
  have r: "v = 0 \<and> cf_buf ?c u = q - 1 \<and> 0 < q \<and> q < mw_fresh (mw_of (cf_m ?c))" if "request_of (h_phase h1 u) = Some (q, v)" for u q v
    using A(11) [rule_format, OF that [unfolded H(2)]] st'(4) by (simp add: mw_of_def m'_def mux_simps)
  have j: "joined en watched xc p ac' (ms_st (cf_m ?c)) h1 out" using st'(3) by (simp add: joined_as_ac m'_def)
  have l: "length out + sum_list (map (length \<circ> h_cmd h1) (h_list h1)) \<le> cf_bytes ?c" using A(4) H(1) by simp
  have "matched en watched xc p ?c h1"
    by (rule matchedI [OF _ _ j l _ _ _ _ _ _ r]) (simp_all add: A(6-10) A(5) [simplified] H m'_def)
  then show ?thesis using d by blast
qed

lemma receive_ok:
  assumes M: "matched en watched xc p c h" and G: "good ok h" and can: "can ok True xc p (Receive r) c"
  shows "\<exists>c' h'. cstep en xc p (Receive r) c = Some c' \<and> enabled ok True (Answer r) h \<and> run (Answer r) h = Some h' \<and> matched en watched xc p c' h'"
proof -
  have w: "cf_wire c = h_wire h" "cf_lost c = h_lost h" using M by (simp_all add: matched_def)
  then have e: "h_wire h \<noteq> []" "\<not> h_lost h" "ok (hd (h_wire h)) r" "r \<noteq> NULL" using can by auto
  then have "h_wire h = map (h_cmd h) (h_pending h)" using G by (simp add: good_def answered_def)
  then obtain q ps where P: "h_pending h = q # ps" using e(1) by (cases "h_pending h") auto
  have en: "enabled ok True (Answer r) h" using e P by simp
  obtain h1 where h1: "reply_to q (or_null r) (h\<lparr>h_pending := ps\<rparr>) = Some h1"
    using reply_ok [OF G P, of None "map (h_cmd h) ps"] by (auto simp: reply_to_def split: option.splits if_splits)
  let ?h = "h1\<lparr>h_wire := tl (h_wire h)\<rparr>"
  note sel = reply_to_sel [OF h1]
  obtain m' where m': "do_ac p (deliver en r) (cf_m c) = Some m'" "matched en watched xc p (c\<lparr>cf_m := m', cf_wire := h_wire ?h\<rparr>) ?h"
  proof (rule exE [OF matched_loop [OF M, where f = "deliver en r" and ?h1.0 = ?h]])
    fix ac out assume a: "ms_acs (cf_m c) p = Some ac" "joined en watched xc p ac ((ms_st (cf_m c))\<lparr>as_ac := Some ac\<rparr>) h out"
    have "freeReplyObject r (as_heap ((ms_st (cf_m c))\<lparr>as_ac := Some ac\<rparr>)) \<noteq> None" using can by simp
    from call_first_ok [OF a(2) _ G P this] h1
    show "\<exists>st' ac'. deliver en r ((ms_st (cf_m c))\<lparr>as_ac := Some ac\<rparr>) = Some st' \<and> as_ac st' = Some ac' \<and> joined en watched xc p ac' st' ?h out \<and>
        mw_fresh (wd st') = mw_fresh (wd (ms_st (cf_m c)))" by (auto simp: joined_wire mux_simps)
  qed (use sel in \<open>auto\<close>)
  have "run (Answer r) h = Some ?h" using P reply_to_wire [OF h1, of "tl (h_wire h)"] e(4) by (simp add: or_null_def)
  moreover have "cstep en xc p (Receive r) c = Some (c\<lparr>cf_m := m', cf_wire := h_wire ?h\<rparr>)" using m'(1) w by simp
  ultimately show ?thesis using en m'(2) by blast
qed

lemma drain_ok:
  assumes M: "matched en watched xc p c h" and G: "good ok h" and can: "can ok True xc p Drain c"
  shows "\<exists>c' h'. cstep en xc p Drain c = Some c' \<and> enabled ok True Hang_up h \<and> run Hang_up h = Some h' \<and> matched en watched xc p c' h'"
proof -
  obtain ac out where A: "ms_acs (cf_m c) p = Some ac" "joined en watched xc p ac (ms_st (cf_m c)) h out" using M by (auto simp: matched_def)
  have w: "cf_wire c = h_wire h" "cf_lost c = h_lost h" using M by (simp_all add: matched_def)
  have e: "h_lost h" using w can by simp
  have "h_pending h \<noteq> []"
    using joinedD(2) [OF A(2)] can A(1) by (auto simp: queues_def callbacks_at_def no_callbacks_def)
  then obtain q ps where P: "h_pending h = q # ps" by (cases "h_pending h") auto
  have en: "enabled ok True Hang_up h" using e P by simp
  obtain h1 where h1: "reply_to q None (h\<lparr>h_pending := ps\<rparr>) = Some h1"
    using reply_ok [OF G P, of None "map (h_cmd h) ps"] by (auto simp: reply_to_def split: option.splits if_splits)
  note sel = reply_to_sel [OF h1]
  obtain m' where m': "do_ac p (call_first NULL) (cf_m c) = Some m'" "matched en watched xc p (c\<lparr>cf_m := m', cf_wire := h_wire h1\<rparr>) h1"
  proof (rule exE [OF matched_loop [OF M, where f = "call_first NULL" and ?h1.0 = h1]])
    fix ac out assume a: "ms_acs (cf_m c) p = Some ac" "joined en watched xc p ac ((ms_st (cf_m c))\<lparr>as_ac := Some ac\<rparr>) h out"
    have "freeReplyObject NULL (as_heap ((ms_st (cf_m c))\<lparr>as_ac := Some ac\<rparr>)) \<noteq> None" by (simp add: freeReplyObject_def free_replies.simps)
    from call_first_ok [OF a(2) _ G P this] h1
    show "\<exists>st' ac'. call_first NULL ((ms_st (cf_m c))\<lparr>as_ac := Some ac\<rparr>) = Some st' \<and> as_ac st' = Some ac' \<and> joined en watched xc p ac' st' h1 out \<and>
        mw_fresh (wd st') = mw_fresh (wd (ms_st (cf_m c)))" by (auto simp: or_null_def mux_simps)
  qed (use sel in \<open>auto\<close>)
  have "run Hang_up h = Some h1" using P h1 by simp
  moreover have "cstep en xc p Drain c = Some (c\<lparr>cf_m := m', cf_wire := h_wire h1\<rparr>)" using m'(1) w sel(5) by simp
  ultimately show ?thesis using en m'(2) by blast
qed

text \<open>The end of the connection.\<close>

lemma break_ok:
  assumes M: "matched en watched xc p c h" and can: "can ok True xc p Break c"
  shows "\<exists>c' h'. cstep en xc p Break c = Some c' \<and> enabled ok True Lose h \<and> run Lose h = Some h' \<and> matched en watched xc p c' h'"
proof -
  obtain ac out where J: "joined en watched xc p ac (ms_st (cf_m c)) h out" using M by (auto simp: matched_def)
  have "joined en watched xc p ac (ms_st (cf_m c)) (h\<lparr>h_lost := True, h_wire := []\<rparr>) out = joined en watched xc p ac (ms_st (cf_m c)) h out" for ac out
    by (simp add: joined_def inner_def requests_are_def commands_def)
  then have "matched en watched xc p (c\<lparr>cf_lost := True, cf_wire := []\<rparr>) (h\<lparr>h_lost := True, h_wire := []\<rparr>)"
    using M unfolding matched_def by simp
  moreover have "enabled ok True Lose h" using can status_up [OF J] M by (auto simp: connected_xc_def matched_def)
  ultimately show ?thesis by simp
qed

text \<open>One reference less for a request of the list.\<close>

lemma unref_ok:
  assumes c0: "requests_are st h" and x: "h_cells h v = Some x" "0 < hc_ref x" "hc_ref x \<le> 3"
  shows "\<exists>st1 st2 h2 cis. ci_add v (- 1) st = Some (hc_ref x - 1, st1) \<and> (if hc_ref x - 1 = 0 then free_ci v st1 else Some st1) = Some st2 \<and>
    unlist v h = Some h2 \<and> requests_are st2 h2 \<and> as_ac st2 = as_ac st \<and> as_cells st2 = as_cells st \<and> as_lists st2 = as_lists st \<and>
    wd st2 = (wd st)\<lparr>mw_cis := cis\<rparr> \<and> (\<forall>q. q \<noteq> v \<longrightarrow> h_cells h2 q = h_cells h q)"
proof -
  note R = cells_ref [OF c0 x(1)]
  define ci where "ci = (mw_cis (wd st) v)\<lparr>ci_reference := hc_ref x - 1\<rparr>"
  define st1 where "st1 = upd_wd (\<lambda>w. w\<lparr>mw_cis := (mw_cis w)(v := ci)\<rparr>) st"
  have a: "ci_add v (- 1) st = Some (hc_ref x - 1, st1)" using ci_add_ok [OF c0 x] by (simp add: st1_def ci_def)
  show ?thesis
  proof (cases "hc_ref x - 1 = 0")
    case True
    define st2 where "st2 = (upd_wd (\<lambda>w. w\<lparr>mw_cis := (mw_cis w)(v := ci\<lparr>ci_reply_sem := None\<rparr>)\<rparr>) st)\<lparr>as_tasks := as_tasks st - {v}\<rparr>"
    let ?h = "h\<lparr>h_cells := (h_cells h)(v := None)\<rparr>"
    have "free_ci v st1 = Some st2"
      using free_ci_ok [of v st1] R by (simp add: st1_def st2_def mux_simps cell_of_def ci_def upd_wd_def wd_def)
    moreover have "requests_are st2 ?h"
      by (rule cells_del [OF c0, where q = v and ci = "ci\<lparr>ci_reply_sem := None\<rparr>"]) (simp_all add: mux_simps st2_def)
    moreover have "unlist v h = Some ?h" using True x(1) by (simp add: unlist_def)
    moreover have "wd st2 = (wd st)\<lparr>mw_cis := (mw_cis (wd st))(v := ci\<lparr>ci_reply_sem := None\<rparr>)\<rparr>" by (simp add: st2_def mux_simps)
    ultimately show ?thesis
      by (intro exI [of _ st1] exI [of _ st2] exI [of _ ?h] exI conjI a) (use True in \<open>simp_all add: st2_def mux_simps\<close>)
  next
    case False
    let ?x = "x\<lparr>hc_ref := hc_ref x - 1\<rparr>"
    let ?h = "h\<lparr>h_cells := (h_cells h)(v \<mapsto> ?x)\<rparr>"
    have "requests_are st1 ?h"
      by (rule cells_upd [OF c0 x(1), where ci = ci and x' = ?x]) (use R(2) in \<open>simp_all add: st1_def mux_simps cell_of_def ci_def\<close>)
    moreover have "unlist v h = Some ?h" using False x(1) by (simp add: unlist_def)
    moreover have "wd st1 = (wd st)\<lparr>mw_cis := (mw_cis (wd st))(v := ci)\<rparr>" by (simp add: st1_def mux_simps)
    ultimately show ?thesis
      by (intro exI [of _ st1] exI [of _ ?h] exI conjI a) (use False in \<open>simp_all add: st1_def mux_simps\<close>)
  qed
qed

lemma clear_cmds_ok:
  assumes "two_lists l k (as_lists st) vs ws" "requests_are st h" "distinct vs" "length vs < 2 ^ 62" "lh_lists (as_lists st) l = Some H"
    "\<forall>q \<in> set vs. \<exists>x. h_cells h q = Some x \<and> 0 < hc_ref x \<and> hc_ref x \<le> 3"
  shows "\<exists>st' h' cis. clear_cmds l (al_head H) st = Some st' \<and> unlist_all vs h = Some h' \<and> two_lists l k (as_lists st') [] ws \<and>
    requests_are st' h' \<and> as_ac st' = as_ac st \<and> as_cells st' = as_cells st \<and> wd st' = (wd st)\<lparr>mw_cis := cis\<rparr>"
  using assms
proof (induction vs arbitrary: st h H)
  case Nil
  then have "al_head H = NULL" using two_lists_none [of l k "as_lists st" ws] by auto
  then show ?case using Nil by (intro exI [of _ st] exI [of _ h] exI [of _ "mw_cis (wd st)"]) (simp add: clear_cmds.simps)
next
  case (Cons v vs)
  have len: "length (v # vs) < 2 ^ 63" using Cons.prems(4) by simp
  from two_lists_first [OF Cons.prems(1) len] obtain n N ls H' where n: "al_head H = n" "n \<noteq> NULL" "lh_nodes (as_lists st) n = Some N"
    "ln_value N = v" "listDelNode l n (as_lists st) = Some ls" "two_lists l k ls vs ws" "lh_lists ls l = Some H'" "ln_next N = al_head H'"
    using Cons.prems(5) by auto
  obtain x where x: "h_cells h v = Some x" "0 < hc_ref x" "hc_ref x \<le> 3" using Cons.prems(6) by auto
  define st0 where "st0 = st\<lparr>as_lists := ls\<rparr>"
  have c0: "requests_are st0 h" using Cons.prems(2) by (auto simp: requests_are_def st0_def mux_simps)
  from unref_ok [OF c0 x] obtain st1 st2 h2 cis where s: "ci_add v (- 1) st0 = Some (hc_ref x - 1, st1)"
    "(if hc_ref x - 1 = 0 then free_ci v st1 else Some st1) = Some st2" "unlist v h = Some h2" "requests_are st2 h2"
    "as_ac st2 = as_ac st0" "as_cells st2 = as_cells st0" "as_lists st2 = as_lists st0" "wd st2 = (wd st0)\<lparr>mw_cis := cis\<rparr>"
    "\<forall>q. q \<noteq> v \<longrightarrow> h_cells h2 q = h_cells h q" by (elim exE conjE)
  have "two_lists l k (as_lists st2) vs ws" "lh_lists (as_lists st2) l = Some H'" using n(6,7) s(7) by (simp_all add: st0_def)
  moreover have "\<forall>q \<in> set vs. \<exists>y. h_cells h2 q = Some y \<and> 0 < hc_ref y \<and> hc_ref y \<le> 3"
    using Cons.prems(3,6) s(9) by auto
  moreover have "distinct vs" "length vs < 2 ^ 62" using Cons.prems(3,4) by simp_all
  ultimately obtain st' h' cis' where i: "clear_cmds l (al_head H') st2 = Some st'" "unlist_all vs h2 = Some h'" "two_lists l k (as_lists st') [] ws"
    "requests_are st' h'" "as_ac st' = as_ac st2" "as_cells st' = as_cells st2" "wd st' = (wd st2)\<lparr>mw_cis := cis'\<rparr>"
    using Cons.IH [of st2 h2 H'] s(4) by (elim meta_impE) (assumption | elim exE conjE)+
  have "clear_cmds l (al_head H) st = Some st'"
    using n(1-5,8) s(1,2) i(1) by (subst clear_cmds.simps) (auto simp: st0_def [symmetric] split: if_splits)
  moreover have "wd st' = (wd st)\<lparr>mw_cis := cis'\<rparr>" using i(7) s(8) by (simp add: st0_def mux_simps)
  ultimately show ?case using i(2-6) s(3,5,6)
    by (intro exI [of _ st'] exI [of _ h'] exI [of _ cis']) (simp add: st0_def)
qed

lemma add_reconn_ok:
  assumes T: "two_lists l (rc_reconn_list (client_of st)) (as_lists st) vs ws" "length ws < 2 ^ 61" and H: "mw_held (wd st) = {}"
  shows "\<exists>ls ws'. add_reconn xc st = Some (upd_wd (\<lambda>w. w\<lparr>mw_held := {}\<rparr>) (st\<lparr>as_lists := ls\<rparr>)) \<and>
    two_lists l (rc_reconn_list (client_of st)) ls vs ws'"
proof -
  let ?k = "rc_reconn_list (client_of st)"
  note S = two_lists_sym [OF T(1)]
  obtain n where n: "listSearchKey ?k xc (as_lists st) = Some n" using two_lists_search [OF S, of xc] T(2) by auto
  obtain ls where a: "listAddNodeTail (mw_node (wd st)) ?k xc (as_lists st) = Some (?k, ls)" "two_lists ?k l ls (ws @ [xc]) vs"
    using two_lists_append [OF S, of "mw_node (wd st)" xc] T(2) by auto
  define L where "L = (if n = NULL then ls else as_lists st)"
  have "st = st\<lparr>as_lists := as_lists st\<rparr>" by simp
  then have "add_reconn xc st = Some (upd_wd (\<lambda>w. w\<lparr>mw_held := {}\<rparr>) (st\<lparr>as_lists := L\<rparr>))"
    using n a(1) H by (auto simp: add_reconn_def L_def lock_def unlock_def has_mutex_def mux_simps client_of_def upd_wd_def wd_def)
  moreover have "\<exists>ws'. two_lists l ?k L vs ws'" using T(1) two_lists_sym [OF a(2)] by (auto simp: L_def)
  ultimately show ?thesis by blast
qed

lemma unlist_all_sel:
  assumes "unlist_all ps h = Some h'"
  shows "h_pending h' = h_pending h \<and> h_cmd h' = h_cmd h \<and> h_list h' = h_list h \<and> h_phase h' = h_phase h \<and> h_wire h' = h_wire h \<and>
    h_lost h' = h_lost h \<and> h_ctx h' = h_ctx h \<and> h_gen h' = h_gen h"
  using assms
proof (induction ps arbitrary: h)
  case (Cons p ps)
  then obtain h2 where "unlist p h = Some h2" "unlist_all ps h2 = Some h'" by (auto split: option.splits)
  then show ?case using Cons.IH [of h2] by (auto simp: unlist_def split: option.splits if_splits)
qed simp

lemma disconnected_ok:
  assumes J: "joined en watched xc p ac st h out" and G: "good ok h" and st: "as_ac st = Some ac"
    and U: "h_up h" "h_pending h = []" "length (h_list h) < 2 ^ 62"
  shows "\<exists>st' h'. disconnectedCallback REDIS_ERR st = Some st' \<and> unlist_all (h_list h) h = Some h' \<and> as_ac st' = Some ac \<and>
    joined en watched xc p ac st' (h'\<lparr>h_list := [], h_up := False\<rparr>) out \<and> mw_fresh (wd st') = mw_fresh (wd st)"
proof -
  obtain ws where T: "two_lists (ac_cmd_list ac) (rc_reconn_list (client_of st)) (as_lists st) (h_list h) ws" "length ws < 2 ^ 61"
    using J U(1) by (auto simp: joined_def inner_def)
  obtain x where x: "get_xc xc st = Some x" "x_ctx x = Actx p" "ac_xc ac = xc" using J by (auto simp: joined_def inner_def)
  obtain L where L: "lh_lists (as_lists st) (ac_cmd_list ac) = Some L" using two_lists_values [OF T(1)] by blast
  have cs: "\<exists>y. h_cells h q = Some y \<and> 0 < hc_ref y \<and> hc_ref y \<le> 3" if "q \<in> set (h_list h)" for q
  proof -
    have "h_cells h q \<noteq> None" using listed_cells [OF G, of q] that by (simp add: queued_def)
    then show ?thesis using G refs_small [of h q] by (auto simp: good_def counted_def)
  qed
  have d: "distinct (h_list h)" using G by (simp add: good_def counted_def)
  define st0 where "st0 = upd_wd (\<lambda>w. w\<lparr>mw_held := {XcMutex xc}\<rparr>) st"
  have "requests_are st0 h" "as_lists st0 = as_lists st" using joinedD(3) [OF J] by (auto simp: requests_are_def st0_def mux_simps)
  with clear_cmds_ok [of "ac_cmd_list ac" "rc_reconn_list (client_of st)" st0 "h_list h" ws h L] T(1) d U(3) L cs
  obtain st1 h1 cis where s1: "clear_cmds (ac_cmd_list ac) (al_head L) st0 = Some st1" "unlist_all (h_list h) h = Some h1"
    "two_lists (ac_cmd_list ac) (rc_reconn_list (client_of st)) (as_lists st1) [] ws" "requests_are st1 h1" "as_ac st1 = as_ac st0"
    "as_cells st1 = as_cells st0" "wd st1 = (wd st0)\<lparr>mw_cis := cis\<rparr>" by auto
  define st2 where "st2 = upd_wd (\<lambda>w. w\<lparr>mw_xcs := (mw_xcs w)(xc \<mapsto> x\<lparr>x_status := DISCONNECTING\<rparr>), mw_held := {}\<rparr>) st1"
  have lk: "lock (XcMutex xc) st = Some st0" using x(1) joinedD(6) [OF J] by (simp add: lock_def has_mutex_def st0_def upd_wd_def wd_def)
  have w2: "wd st2 = (wd st)\<lparr>mw_cis := cis, mw_xcs := (mw_xcs (wd st))(xc \<mapsto> x\<lparr>x_status := DISCONNECTING\<rparr>), mw_held := {}\<rparr>"
    by (simp add: st2_def mux_simps s1(7) st0_def)
  have "two_lists (ac_cmd_list ac) (rc_reconn_list (client_of st2)) (as_lists st2) [] ws" "mw_held (wd st2) = {}"
    using s1(3) w2 by (simp_all add: client_of_def st2_def mux_simps)
  from add_reconn_ok [OF this(1) T(2) this(2), of xc] obtain ls ws' where ar: "add_reconn xc st2 = Some (upd_wd (\<lambda>w. w\<lparr>mw_held := {}\<rparr>) (st2\<lparr>as_lists := ls\<rparr>))"
    "two_lists (ac_cmd_list ac) (rc_reconn_list (client_of st2)) ls [] ws'" by blast
  define st' where "st' = (if ac_status ac = FREED_CONTEXT then st2 else upd_wd (\<lambda>w. w\<lparr>mw_held := {}\<rparr>) (st2\<lparr>as_lists := ls\<rparr>))"
  have lk2: "lock ClientMutex st2 = Some (upd_wd (\<lambda>w. w\<lparr>mw_held := {ClientMutex}\<rparr>) st2)"
    "unlock ClientMutex (upd_wd (\<lambda>w. w\<lparr>mw_held := {ClientMutex}\<rparr>) st2) = Some st2"
    by (simp_all add: lock_def unlock_def has_mutex_def w2 mux_simps upd_wd_def wd_def st2_def)
  have a2: "as_ac st2 = Some ac" using st s1(5) by (simp add: st2_def mux_simps st0_def)
  define st1' where "st1' = upd_wd (\<lambda>w. w\<lparr>mw_xcs := (mw_xcs w)(xc \<mapsto> x\<lparr>x_status := DISCONNECTING\<rparr>)\<rparr>) st1"
  have up: "upd_xc xc (\<lambda>x. x\<lparr>x_status := DISCONNECTING\<rparr>) st1 = Some st1'"
    using x(1) s1(7) by (simp add: upd_xc_def get_xc_def st1'_def mux_simps st0_def)
  have "mw_held (wd st1) = {XcMutex xc}" using s1(7) by (simp add: st0_def mux_simps)
  then have un: "unlock (XcMutex xc) st1' = Some st2"
    by (simp add: unlock_def has_mutex_def get_xc_def st1'_def st2_def upd_wd_def wd_def)
  have "disconnectedCallback REDIS_ERR st = Some st'"
    using st lk L s1(1) up un lk2 a2 ar(1) x(3)
    by (simp add: disconnectedCallback_def Let_def redis_codes st0_def mux_simps st'_def)
  moreover have "joined en watched xc p ac st' (h1\<lparr>h_list := [], h_up := False\<rparr>) out" (is "joined _ _ _ _ _ _ ?h _")
  proof -
    have w': "wd st' = wd st2" by (auto simp: st'_def mux_simps w2)
    have "takes en watched ac st' out" by (rule takes_keep [OF joinedD(1) [OF J]]) (simp_all add: w' w2 client_of_def)
    moreover have "requests_are st' ?h" using s1(4) by (auto simp: requests_are_def st'_def st2_def mux_simps)
    moreover have "commands st' ?h" by (simp add: commands_def)
    moreover have "as_cells st' = as_cells st" using s1(6) by (simp add: st'_def st2_def st0_def mux_simps)
    moreover have "\<exists>ws. two_lists (ac_cmd_list ac) (rc_reconn_list (client_of st')) (as_lists st') [] ws"
      using ar(2) s1(3) by (auto simp: st'_def mux_simps client_of_def w2 st2_def s1(7) st0_def)
    moreover have "get_xc xc st' = Some (x\<lparr>x_status := DISCONNECTING\<rparr>)" "mw_held (wd st') = {}" by (simp_all add: get_xc_def w' w2)
    ultimately show ?thesis using J U(2) x(2) unlist_all_sel [OF s1(2)] unfolding joined_def inner_def by (auto simp: w' w2)
  qed
  moreover have "mw_fresh (wd st') = mw_fresh (wd st)" "as_ac st' = Some ac" using a2 by (simp_all add: st'_def mux_simps w2)
  ultimately show ?thesis using s1(2) by blast
qed

lemma report_step:
  assumes M: "matched en watched xc p c h" and G: "good ok h" and can: "can ok calm xc p Report c"
  shows "\<exists>c' h'. cstep en xc p Report c = Some c' \<and> run Clear h = Some h' \<and> matched en watched xc p c' h' \<and>
    h_up h \<and> h_lost h \<and> h_pending h = []"
proof -
  obtain ac out where A: "ms_acs (cf_m c) p = Some ac" "joined en watched xc p ac (ms_st (cf_m c)) h out"
    "length out + sum_list (map (length \<circ> h_cmd h) (h_list h)) \<le> cf_bytes c" "cf_bytes c + 1 < 2 ^ 31" using M by (auto simp: matched_def)
  have w: "cf_wire c = h_wire h" "cf_lost c = h_lost h" using M by (simp_all add: matched_def)
  have U: "h_up h" "h_lost h" using can status_up [OF A(2)] w(2) by (auto simp: connected_xc_def)
  have P: "h_pending h = []" using joinedD(2) [OF A(2)] can A(1) by (cases "h_pending h") (auto simp: queues_def callbacks_at_def no_callbacks_def map_eq_Cons_conv)
  have len: "length (h_list h) < 2 ^ 62" using list_bytes [OF joinedD(4) [OF A(2)]] A(3,4) by simp
  have "distinct (h_list h)" "\<forall>q \<in> set (h_list h). h_cells h q \<noteq> None"
    using G listed_cells [OF G] by (simp_all add: good_def counted_def queued_def)
  from unlist_all_ok [OF this] obtain h1 where h1: "unlist_all (h_list h) h = Some h1" by blast
  let ?h = "h1\<lparr>h_list := [], h_up := False\<rparr>"
  note sel = unlist_all_sel [OF h1]
  obtain m' where m': "do_ac p (disconnectedCallback REDIS_ERR) (cf_m c) = Some m'" "matched en watched xc p (c\<lparr>cf_m := m', cf_wire := h_wire ?h\<rparr>) ?h"
  proof (rule exE [OF matched_loop [OF M, where f = "disconnectedCallback REDIS_ERR" and ?h1.0 = ?h]])
    fix ac out assume a: "ms_acs (cf_m c) p = Some ac" "joined en watched xc p ac ((ms_st (cf_m c))\<lparr>as_ac := Some ac\<rparr>) h out"
    from disconnected_ok [OF a(2) G _ U(1) P len] h1
    show "\<exists>st' ac'. disconnectedCallback REDIS_ERR ((ms_st (cf_m c))\<lparr>as_ac := Some ac\<rparr>) = Some st' \<and> as_ac st' = Some ac' \<and>
        joined en watched xc p ac' st' ?h out \<and> mw_fresh (wd st') = mw_fresh (wd (ms_st (cf_m c)))" by (auto simp: mux_simps)
  qed (use sel in \<open>auto\<close>)
  have "run Clear h = Some ?h" using h1 by simp
  moreover have "cstep en xc p Report c = Some (c\<lparr>cf_m := m', cf_wire := h_wire ?h\<rparr>)" using m'(1) w sel by simp
  ultimately show ?thesis using U P m'(2) by blast
qed

lemma report_ok:
  assumes M: "matched en watched xc p c h" and G: "good ok h" and can: "can ok True xc p Report c"
  shows "\<exists>c' h'. cstep en xc p Report c = Some c' \<and> enabled ok True Clear h \<and> run Clear h = Some h' \<and> matched en watched xc p c' h'"
proof -
  have "leaving h = {}" using can matched_phase [OF M] by (auto simp: leaving_def)
  then show ?thesis using report_step [OF M G can] by auto
qed

text \<open>Bytes of the output are written.\<close>

lemma written_ok:
  assumes M: "matched en watched xc p c h" and can: "can ok calm xc p (Written b) c"
  shows "\<exists>c'. cstep en xc p (Written b) c = Some c' \<and> matched en watched xc p c' h"
proof -
  obtain ac out where A: "ms_acs (cf_m c) p = Some ac" "as_ac (ms_st (cf_m c)) = None" "joined en watched xc p ac (ms_st (cf_m c)) h out"
    "length out + sum_list (map (length \<circ> h_cmd h) (h_list h)) \<le> cf_bytes c" "cf_bytes c + 1 < 2 ^ 31" "cf_phase c = h_phase h"
    "cf_wire c = h_wire h" "cf_lost c = h_lost h" "h_ctx h" "h_gen h = 0"
    "\<forall>t q g. request_of (h_phase h t) = Some (q, g) \<longrightarrow> g = 0 \<and> cf_buf c t = q - 1 \<and> 0 < q \<and> q < mw_fresh (mw_of (cf_m c))"
    using M by (rule matchedE)
  obtain b0 k where b: "c_obuf (ac_c ac) = Some b0" "sds_ok b" "sdsstr b = drop k (sdsstr b0)" using can A(1) by auto
  have b0: "sds_ok b0" "sdsstr b0 = out" using joinedD(1) [OF A(3)] b(1) by (simp_all add: takes_def)
  have len: "sdslen b0 = length out" "sdslen b = length out - k" using sdsb.len_str [OF b0(1)] sdsb.len_str [OF b(2)] b(3) b0(2) by simp_all
  define ac' where "ac' = ac\<lparr>ac_c := (ac_c ac)\<lparr>c_obuf := Some b\<rparr>\<rparr>"
  let ?c = "c\<lparr>cf_m := (cf_m c)\<lparr>ms_acs := (ms_acs (cf_m c))(p \<mapsto> ac')\<rparr>, cf_bytes := cf_bytes c - (sdslen b0 - sdslen b)\<rparr>"
  have "takes en watched ac' (ms_st (cf_m c)) (sdsstr b)" using joinedD(1) [OF A(3)] b(2) by (simp add: takes_def ac'_def)
  then have j: "joined en watched xc p ac' (ms_st (cf_m ?c)) h (sdsstr b)" using A(3) unfolding joined_def inner_def by (auto simp: ac'_def)
  have l: "length (sdsstr b) + sum_list (map (length \<circ> h_cmd h) (h_list h)) \<le> cf_bytes ?c" using A(4) b(3) b0(2) len by simp
  have r: "v = 0 \<and> cf_buf ?c u = q - 1 \<and> 0 < q \<and> q < mw_fresh (mw_of (cf_m ?c))" if "request_of (h_phase h u) = Some (q, v)" for u q v
    using A(11) [rule_format, OF that] by (simp add: mw_of_def)
  have "matched en watched xc p ?c h"
    by (rule matchedI [OF _ _ j l _ _ _ _ _ _ r]) (use A(5) in \<open>simp_all add: A(2,6-10)\<close>)
  then show ?thesis using A(1) b(1) by (simp add: ac'_def)
qed

text \<open>The hook that asks for the socket to be writable.\<close>

lemma ae_call_loop: "ae_call g a = (r, a') \<Longrightarrow> ae_loop a' = ae_loop a"
  by (auto simp: ae_call_def split: prod.splits sum.splits)

lemma running_create:
  assumes "aeCreateFileEvent E fd msk pr d a = Some (rc, a')" "running a"
  shows "running a'"
proof -
  have "el_stop (set_ev fd fe l) = el_stop l" for fe l by (simp add: set_ev_def)
  then show ?thesis using assms
    by (auto simp: running_def aeCreateFileEvent_def aeApiAddEvent_def Let_def dest!: ae_call_loop split: bind_split_asm if_splits sum.splits prod.splits)
qed

lemma addWrite_ok:
  assumes K: "kernel_polls E watched" and fd: "0 \<le> fd" and B: "bridge_ok watched f evs e fd w" and R: "running (br_loop w)"
  shows "\<exists>w' l ev. redisAeAddWrite E e w = Some w' \<and> bridge_ok watched f evs e fd w' \<and> running (br_loop w') \<and>
    w' = w\<lparr>br_loop := l, br_events := ev\<rparr>"
proof -
  obtain w' where w': "redisAeAddWrite E e w = Some w'" "bridge_ok watched f evs e fd w'"
    using hook_ok [OF K fd B, of AddWrite] by (auto simp: ae_hooks_def)
  have "running (br_loop w') \<and> (\<exists>l ev. w' = w\<lparr>br_loop := l, br_events := ev\<rparr>)"
  proof -
    have "\<exists>l ev. w = w\<lparr>br_loop := l, br_events := ev\<rparr>" by (rule exI [of _ "br_loop w"], rule exI [of _ "br_events w"]) simp
    moreover have "\<exists>l ev. w\<lparr>br_events := a, br_loop := b\<rparr> = w\<lparr>br_loop := l, br_events := ev\<rparr>" for a b
      by (rule exI [of _ b], rule exI [of _ a]) simp
    ultimately show ?thesis using w'(1) R
      by (auto simp: redisAeAddWrite_def Let_def split: bind_split_asm if_splits prod.splits dest: running_create)
  qed
  then show ?thesis using w' by blast
qed

text \<open>An ordinary command is appended to the output and its callback to the queue.\<close>

lemma asyncCommand_plain:
  assumes st: "as_ac st = Some ac" and T: "takes en watched ac st out" and Q: "queues (ac_replies ac) i (as_cells st) qs []" "i = ac_invalid ac"
    and E: "env_ok en watched" and P: "plain name" and len: "length out + length (wire (name # args)) + 1 < 2 ^ 31"
  defines "cmd \<equiv> wire (name # args)"
  shows "\<exists>ac' st' w' l ch lp ev. redisAsyncCommandHelper (en_alloc en) (en_sys en) fn pd (cmd @ NUL # slack) (length cmd) st = Some (REDIS_OK, st') \<and>
    st' = st\<lparr>as_ac := Some ac', as_cells := ch, as_world := (fst (as_world st), w')\<rparr> \<and> w' = (wd st)\<lparr>br_loop := lp, br_events := ev\<rparr> \<and>
    takes en watched ac' st' (out @ cmd) \<and> queues l i ch (qs @ [(fn, pd)]) [] \<and> (\<exists>b. ac' = ac\<lparr>ac_replies := l, ac_c := (ac_c ac)\<lparr>c_obuf := Some b\<rparr>\<rparr>)"
proof -
  have K: "kernel_polls (en_epoll en) watched" "roomy (en_alloc en)" using E by (simp_all add: env_ok_def)
  obtain f evs e fd where B: "0 \<le> fd" "ac_ev ac = ae_hooks (en_epoll en) e" "bridge_ok watched f evs e fd (wd st)"
    using T unfolding takes_def by (elim exE conjE)
  have F: "open_flags (c_flags (ac_c ac)) False" "running (br_loop (wd st))" "rc_aeloop (client_of st)" using T by (simp_all add: takes_def)
  obtain b0 where b0: "c_obuf (ac_c ac) = Some b0" "sds_ok b0" "sdsstr b0 = out" using T unfolding takes_def by (elim exE conjE)
  let ?cb = "\<lparr>cb_next = NULL, cb_fn = fn, cb_privdata = pd\<rparr>"
  obtain l ch where l: "redisPushCallback ?cb (ac_replies ac) (Some ?cb) (as_cells st) = Some (REDIS_OK, l, ch)" "queues l i ch (qs @ [(fn, pd)]) []"
    using queues_push [OF Q(1), of ?cb] by auto
  have nf: "\<not> has_flag (c_flags (ac_c ac)) REDIS_SUBSCRIBED" "\<not> has_flag (c_flags (ac_c ac)) (set_flag REDIS_DISCONNECTING REDIS_FREEING)"
    using F(1) by (simp_all add: has_flag_or flag_bits open_flags_def)
  have nm: "CR \<notin> set name" "base_name name \<noteq> ''monitor''" "base_name name \<noteq> ''subscribe''" "base_name name \<noteq> ''unsubscribe''"
    using P by (auto simp: plain_def)
  have wl: "length (wire (name # args)) < 2 ^ 31" using len by simp
  let ?ac1 = "ac\<lparr>ac_replies := l\<rparr>" and ?st1 = "st\<lparr>as_ac := Some (ac\<lparr>ac_replies := l\<rparr>), as_cells := ch\<rparr>"
  have reg: "register (en_alloc en) ?cb (cmd @ NUL # slack) st = Some (REDIS_OK, ?st1)"
    using register_wire [OF st _ nm(1,2) wl, of False "en_alloc en" ?cb slack] nf(1) nm(3,4) st l(1)
    by (simp add: cmd_def push_cb_def get_cbs_def set_cbs_def)
  have ol: "sdslen b0 = length out" using sdsb.len_str [OF b0(2)] b0(3) by simp
  obtain b1 where b1: "sdscatlen (en_alloc en) b0 (cmd @ NUL # slack) (length cmd) = Some b1" "sds_ok b1" "sdsstr b1 = out @ cmd"
    using sdscatlen_grows [OF b0(2) K(2), of "length cmd" "cmd @ NUL # slack"] ol b0(3) len by (auto simp: cmd_def)
  let ?ac2 = "ac\<lparr>ac_replies := l, ac_c := (ac_c ac)\<lparr>c_obuf := Some b1\<rparr>\<rparr>"
  obtain w' lp ev where w': "redisAeAddWrite (en_epoll en) e (wd st) = Some w'" "bridge_ok watched f evs e fd w'" "running (br_loop w')"
    "w' = (wd st)\<lparr>br_loop := lp, br_events := ev\<rparr>" using addWrite_ok [OF K(1) B(1,3) F(2)] by blast
  let ?st' = "st\<lparr>as_ac := Some ?ac2, as_cells := ch, as_world := (fst (as_world st), w')\<rparr>"
  have ap: "appendCommand (en_alloc en) (en_sys en) (ac_c ac) (cmd @ NUL # slack) (length cmd) = Some (REDIS_OK, (ac_c ac)\<lparr>c_obuf := Some b1\<rparr>)"
    using b0(1) b1(1) by (simp add: appendCommand_def)
  have "redisAsyncCommandHelper (en_alloc en) (en_sys en) fn pd (cmd @ NUL # slack) (length cmd) st = Some (REDIS_OK, ?st')"
    using st nf(2) reg ap w'(1) B(2)
    by (simp add: redisAsyncCommandHelper_def asyncCommand_def redis_codes run_ev_def ae_hooks_def wd_def)
  moreover have "takes en watched ?ac2 ?st' (out @ cmd)"
    using F(1,3) b1(2,3) w'(2,3) B(1,2) w'(4) unfolding takes_def
    by (intro conjI exI [of _ f] exI [of _ evs] exI [of _ e] exI [of _ fd]) (simp_all add: mux_simps client_of_def)
  ultimately show ?thesis using l(2) w'(4)
    by (intro exI [of _ ?ac2] exI [of _ ?st'] exI [of _ w'] exI [of _ l] exI [of _ ch] exI [of _ lp] exI [of _ ev] conjI exI [of _ b1]) simp_all
qed

text \<open>One request of the list is sent.\<close>

definition sent :: "nat \<Rightarrow> nat list \<Rightarrow> (string, ptr) hand \<Rightarrow> (string, ptr) hand" where
  "sent q qs h = h\<lparr>h_list := qs, h_pending := h_pending h @ [q], h_wire := h_wire h @ [h_cmd h q]\<rparr>"

lemma task_step:
  assumes E: "env_ok en watched" and m: "ms_acs m p = Some ac" "as_ac (ms_st m) = None"
    and I: "inner en watched xc p ac (ms_st m) h out" and l: "h_list h = q # qs" "h_up h" "h_cells h q \<noteq> None"
    and len: "length out + sum_list (map (length \<circ> h_cmd h) (h_list h)) + 1 < 2 ^ 31"
  shows "\<exists>m' ac'. task_loop en xc p n m = (if n - 1 \<le> 0 then Some m' else task_loop en xc p (n - 1) m') \<and>
    ms_acs m' p = Some ac' \<and> as_ac (ms_st m') = None \<and> inner en watched xc p ac' (ms_st m') (sent q qs h) (out @ h_cmd h q) \<and>
    mw_held (mw_of m') = mw_held (mw_of m) \<and> mw_fresh (mw_of m') = mw_fresh (mw_of m)"
proof -
  define st where "st = ms_st m"
  define i where "i = ac_invalid ac"
  have D: "takes en watched ac st out" "queues (ac_replies ac) i (as_cells st) (map (Pair REPLY_CALLBACK) (h_pending h)) []"
    "requests_are st h" "commands st h" "ac_xc ac = xc" "\<forall>n. mw_grants (wd st) n" "0 < mw_fresh (wd st)"
    using I by (simp_all add: inner_def st_def i_def)
  obtain ws where T: "two_lists (ac_cmd_list ac) (rc_reconn_list (client_of st)) (as_lists st) (q # qs) ws" "length ws < 2 ^ 61"
    using I l by (auto simp: inner_def st_def)
  obtain x where x: "get_xc xc st = Some x" "x_ctx x = Actx p" "x_status x = CONNECTED"
    using I l(2) by (auto simp: inner_def st_def)
  have "length (h_list h) < 2 ^ 63" using list_bytes [OF D(4)] len by simp
  then obtain H nd N ls where ls: "lh_lists (as_lists st) (ac_cmd_list ac) = Some H" "al_len H = Suc (length qs)" "al_head H = nd" "nd \<noteq> NULL"
    "lh_nodes (as_lists st) nd = Some N" "ln_value N = q" "listDelNode (ac_cmd_list ac) nd (as_lists st) = Some ls"
    "two_lists (ac_cmd_list ac) (rc_reconn_list (client_of st)) ls qs ws"
    using two_lists_first [OF T(1)] l(1) by auto
  obtain y where "h_cells h q = Some y" using l(3) by blast
  note R = cells_ref [OF D(3) this]
  have "q \<in> set (h_list h)" using l(1) by simp
  then obtain name args slack where C: "ci_cmd (mw_cis (wd st) q) = q - 1" "h_cmd h q = wire (name # args)" "plain name"
    "ci_len (mw_cis (wd st) q) = int (length (h_cmd h q))" "mw_bufs (wd st) (q - 1) = Some (h_cmd h q @ NUL # slack)"
    using D(4) unfolding commands_def by blast
  have cl: "length out + length (h_cmd h q) + 1 < 2 ^ 31" using len l(1) by simp
  define st1 where "st1 = st\<lparr>as_lists := ls, as_ac := Some ac\<rparr>"
  have t1: "takes en watched ac st1 out" by (rule takes_keep [OF D(1)]) (simp_all add: st1_def mux_simps client_of_def)
  have q1: "queues (ac_replies ac) i (as_cells st1) (map (Pair REPLY_CALLBACK) (h_pending h)) []" using D(2) by (simp add: st1_def)
  have a1: "as_ac st1 = Some ac" by (simp add: st1_def)
  obtain ac' st' w' k ch lp ev b where S: "redisAsyncCommandHelper (en_alloc en) (en_sys en) REPLY_CALLBACK q (h_cmd h q @ NUL # slack) (length (h_cmd h q)) st1 = Some (REDIS_OK, st')"
    "st' = st1\<lparr>as_ac := Some ac', as_cells := ch, as_world := (fst (as_world st1), w')\<rparr>" "w' = (wd st1)\<lparr>br_loop := lp, br_events := ev\<rparr>"
    "takes en watched ac' st' (out @ h_cmd h q)" "queues k i ch (map (Pair REPLY_CALLBACK) (h_pending h) @ [(REPLY_CALLBACK, q)]) []"
    "ac' = ac\<lparr>ac_replies := k, ac_c := (ac_c ac)\<lparr>c_obuf := Some b\<rparr>\<rparr>"
    using asyncCommand_plain [OF a1 t1 q1 i_def E C(3) cl [unfolded C(2)], of REPLY_CALLBACK q slack, folded C(2)] by (elim exE conjE) (rule that)
  define m' where "m' = m\<lparr>ms_acs := (ms_acs m)(p := Some ac'), ms_st := st'\<lparr>as_ac := None\<rparr>\<rparr>"
  have step: "task_loop en xc p n m = (if n - 1 \<le> 0 then Some m' else task_loop en xc p (n - 1) m')"
  proof -
    let ?m = "m\<lparr>ms_st := st\<lparr>as_lists := ls\<rparr>\<rparr>"
    have d: "on_lists (listDelNode (ac_cmd_list ac) nd) m = Some ?m" using ls(7) by (simp add: on_lists_def on_st_def st_def)
    have sz: "to_size (int (length (h_cmd h q))) = length (h_cmd h q)" using cl by (simp add: to_size_id)
    have "with_ac p (redisAsyncCommandHelper (en_alloc en) (en_sys en) REPLY_CALLBACK q (h_cmd h q @ NUL # slack) (length (h_cmd h q))) ?m = Some (REDIS_OK, m')"
      using m(1) S(1) S(2) by (simp add: with_ac_def st1_def m'_def)
    moreover have "get_xc xc (st\<lparr>as_lists := ls\<rparr>) = Some x" "get_ci q (st\<lparr>as_lists := ls\<rparr>) = Some (mw_cis (wd st) q)"
      using x(1) R(1,3) by (simp_all add: get_xc_def get_ci_def mux_simps)
    ultimately show ?thesis
      using m(1) ls(1-6) d R(4) x(2) C(1,4,5) sz
      by (subst task_loop.simps) (simp add: st_def [symmetric] nodes_of_def mw_of_def mux_simps)
  qed
  have w: "wd (ms_st m') = (wd st)\<lparr>br_loop := lp, br_events := ev\<rparr>" "as_tasks (ms_st m') = as_tasks st" "as_lists (ms_st m') = ls" "as_cells (ms_st m') = ch"
    by (simp_all add: m'_def S(2,3) st1_def mux_simps)
  have "inner en watched xc p ac' (ms_st m') (sent q qs h) (out @ h_cmd h q)"
  proof -
    have "takes en watched ac' (ms_st m') (out @ h_cmd h q)"
      by (rule takes_keep [OF S(4)]) (simp_all add: m'_def mux_simps client_of_def)
    moreover have "requests_are (ms_st m') (sent q qs h)" using D(3) unfolding requests_are_def sent_def by (auto simp: w)
    moreover have "commands (ms_st m') (sent q qs h)" using D(4) l(1) unfolding commands_def sent_def by (simp add: w)
    moreover have "get_xc xc (ms_st m') = Some x" using x(1) by (simp add: get_xc_def w)
    ultimately show ?thesis using S(5) ls(8) T(2) x(2,3) D(5-7) l(2) unfolding inner_def
      by (auto simp: w sent_def S(6) client_of_def i_def)
  qed
  then show ?thesis using step by (intro exI [of _ m'] exI [of _ ac']) (simp add: m'_def mw_of_def S(2,3) st1_def st_def mux_simps)
qed

text \<open>The first \<open>k\<close> requests of the list are sent.\<close>

definition taken :: "nat \<Rightarrow> (string, ptr) hand \<Rightarrow> (string, ptr) hand" where
  "taken k h = h\<lparr>h_list := drop k (h_list h), h_pending := h_pending h @ take k (h_list h),
     h_wire := h_wire h @ map (h_cmd h) (take k (h_list h))\<rparr>"

lemma taken_sent: "h_list h = q # qs \<Longrightarrow> taken (Suc k) h = taken k (sent q qs h)"
  by (simp add: taken_def sent_def)

lemma taken_0 [simp]: "taken 0 h = h"
  by (simp add: taken_def)

lemma task_loop_ok:
  assumes E: "env_ok en watched"
  shows "ms_acs m p = Some ac \<Longrightarrow> as_ac (ms_st m) = None \<Longrightarrow> inner en watched xc p ac (ms_st m) h out \<Longrightarrow> h_list h = qs \<Longrightarrow> h_up h \<Longrightarrow>
    \<forall>q \<in> set qs. h_cells h q \<noteq> None \<Longrightarrow> length out + sum_list (map (length \<circ> h_cmd h) qs) + 1 < 2 ^ 31 \<Longrightarrow> 0 < n \<Longrightarrow> k = min (nat n) (length qs) \<Longrightarrow>
    \<exists>m' ac'. task_loop en xc p n m = Some m' \<and> ms_acs m' p = Some ac' \<and> as_ac (ms_st m') = None \<and>
      inner en watched xc p ac' (ms_st m') (taken k h) (out @ concat (map (h_cmd h) (take k qs))) \<and>
      mw_held (mw_of m') = mw_held (mw_of m) \<and> mw_fresh (mw_of m') = mw_fresh (mw_of m)"
proof (induction qs arbitrary: n m ac h out k)
  case Nil
  obtain ws where "two_lists (ac_cmd_list ac) (rc_reconn_list (client_of (ms_st m))) (as_lists (ms_st m)) [] ws"
    using Nil.prems(3,4) by (auto simp: inner_def)
  then have "task_loop en xc p n m = Some m"
    using two_lists_none [of "ac_cmd_list ac"] Nil.prems(1) by (subst task_loop.simps) fastforce
  then show ?case using Nil.prems by (intro exI [of _ m] exI [of _ ac]) simp
next
  case (Cons q qs)
  have len: "length out + sum_list (map (length \<circ> h_cmd h) (h_list h)) + 1 < 2 ^ 31" using Cons.prems(4,7) by (simp add: o_def)
  have c: "h_cells h q \<noteq> None" using Cons.prems(6) by simp
  from task_step [OF E Cons.prems(1-5) c len, of n] obtain m1 ac1 where s:
    "task_loop en xc p n m = (if n - 1 \<le> 0 then Some m1 else task_loop en xc p (n - 1) m1)"
    "ms_acs m1 p = Some ac1" "as_ac (ms_st m1) = None" "inner en watched xc p ac1 (ms_st m1) (sent q qs h) (out @ h_cmd h q)"
    "mw_held (mw_of m1) = mw_held (mw_of m)" "mw_fresh (mw_of m1) = mw_fresh (mw_of m)" by (elim exE conjE)
  show ?case
  proof (cases "n - 1 \<le> 0")
    case True
    then have "n = 1" using Cons.prems(8) by simp
    then have "k = 1" using Cons.prems(9) by simp
    then show ?thesis using s \<open>n = 1\<close> taken_sent [OF Cons.prems(4), of 0]
      by (intro exI [of _ m1] exI [of _ ac1]) simp
  next
    case False
    have sel: "h_list (sent q qs h) = qs" "h_up (sent q qs h)" "h_cmd (sent q qs h) = h_cmd h" "h_cells (sent q qs h) = h_cells h"
      using Cons.prems(5) by (simp_all add: sent_def)
    have k: "k = Suc (min (nat (n - 1)) (length qs))" using Cons.prems(8,9) False by auto
    have "\<forall>u \<in> set qs. h_cells (sent q qs h) u \<noteq> None" using Cons.prems(6) sel(4) by simp
    moreover have "length (out @ h_cmd h q) + sum_list (map (length \<circ> h_cmd (sent q qs h)) qs) + 1 < 2 ^ 31" using Cons.prems(7) by (simp add: sel(3) o_def)
    moreover have "0 < n - 1" using False by simp
    ultimately obtain m' ac' where i: "task_loop en xc p (n - 1) m1 = Some m'" "ms_acs m' p = Some ac'" "as_ac (ms_st m') = None"
      "inner en watched xc p ac' (ms_st m') (taken (min (nat (n - 1)) (length qs)) (sent q qs h))
         ((out @ h_cmd h q) @ concat (map (h_cmd (sent q qs h)) (take (min (nat (n - 1)) (length qs)) qs)))"
      "mw_held (mw_of m') = mw_held (mw_of m1)" "mw_fresh (mw_of m') = mw_fresh (mw_of m1)"
      using Cons.IH [OF s(2-4) sel(1,2) _ _ _ refl] by blast
    show ?thesis using s(1,5,6) i False unfolding k
      by (intro exI [of _ m'] exI [of _ ac']) (simp add: taken_sent [OF Cons.prems(4)] sel(3))
  qed
qed

lemma listed_eq:
  assumes "inner en watched xc p ac (ms_st m) h out" "ms_acs m p = Some ac"
  shows "listed p m = map (h_cmd h) (h_list h)"
proof -
  obtain ws where "two_lists (ac_cmd_list ac) (rc_reconn_list (client_of (ms_st m))) (as_lists (ms_st m)) (h_list h) ws"
    using assms(1) by (auto simp: inner_def)
  from two_lists_values [OF this] obtain H where H: "lh_lists (as_lists (ms_st m)) (ac_cmd_list ac) = Some H"
    "values_from (al_len H) (al_head H) (as_lists (ms_st m)) = h_list h" by blast
  have "commands (ms_st m) h" using assms(1) by (simp add: inner_def)
  then show ?thesis using assms(2) H by (auto simp: listed_def commands_def mw_of_def)
qed

lemma taken_reach:
  assumes "reach ok True h" "h_up h" "\<not> h_lost h" "k \<le> length (h_list h)"
  shows "reach ok True (taken k h)"
  using assms
proof (induction k arbitrary: h)
  case (Suc k)
  then obtain q qs where l: "h_list h = q # qs" by (cases "h_list h") auto
  have "enabled ok True Take h" "run Take h = Some (sent q qs h)" using Suc.prems l by (simp_all add: sent_def)
  from reach.step [OF Suc.prems(1) this] have "reach ok True (taken k (sent q qs h))"
    using Suc.IH [of "sent q qs h"] Suc.prems l by (simp add: sent_def)
  then show ?case by (simp add: taken_sent [OF l])
qed simp

lemma inner_held:
  assumes I: "inner en watched xc p ac st h out" and s: "watched s = watched (snd (ae_world (br_loop (wd st))))"
  shows "inner en watched xc p ac (upd_wd (\<lambda>w. w\<lparr>br_loop := (br_loop (wd st))\<lparr>ae_world := (a, s)\<rparr>, mw_held := X\<rparr>) st) h out"
    (is "inner en watched xc p ac ?st h out")
proof -
  have "takes en watched ac st out" "requests_are st h" "commands st h" using I by (simp_all add: inner_def)
  then have "takes en watched ac ?st out" "requests_are ?st h" "commands ?st h"
    using s by (auto simp: requests_are_def commands_def mux_simps client_of_def elim!: takes_keep)
  then show ?thesis using I unfolding inner_def by (auto simp: mux_simps client_of_def get_xc_def)
qed

text \<open>The handler of the pipe, with all the bytes that are in it.\<close>

lemma taskDeal_ok:
  assumes E: "env_ok en watched" and J: "joined en watched xc p ac (ms_st m) h out" and m: "ms_acs m p = Some ac" "as_ac (ms_st m) = None"
    and U: "h_up h" and c: "\<forall>q \<in> set (h_list h). h_cells h q \<noteq> None"
    and len: "length out + sum_list (map (length \<circ> h_cmd h) (h_list h)) + 1 < 2 ^ 31"
  shows "\<exists>k m' ac'. k \<le> length (h_list h) \<and> (h_list h \<noteq> [] \<longrightarrow> 0 < k) \<and> taskDeal en xc m = Some m' \<and> ms_acs m' p = Some ac' \<and>
    as_ac (ms_st m') = None \<and> joined en watched xc p ac' (ms_st m') (taken k h) (out @ concat (map (h_cmd h) (take k (h_list h)))) \<and>
    mw_fresh (mw_of m') = mw_fresh (mw_of m)"
proof -
  define st where "st = ms_st m"
  define l where "l = br_loop (wd st)"
  have I: "inner en watched xc p ac st h out" "mw_held (wd st) = {}" using J by (simp_all add: joined_def st_def)
  obtain x where x: "get_xc xc st = Some x" "x_ctx x = Actx p" "x_status x = CONNECTED" using I(1) U by (auto simp: inner_def)
  obtain g s where d: "en_drain en (fst (x_task_fd x)) (snd (ae_world l)) = (g, s)" by fastforce
  have ws: "watched s = watched (snd (ae_world l))" using E d by (auto simp: env_ok_def) (metis snd_conv)
  define n where "n = (if g < 1 then 1024 else g)"
  have n: "0 < n" by (simp add: n_def)
  define st1 where "st1 = upd_wd (\<lambda>w. w\<lparr>br_loop := l\<lparr>ae_world := (fst (ae_world l), s)\<rparr>, mw_held := {XcMutex xc}\<rparr>) st"
  define m1 where "m1 = m\<lparr>ms_st := st1\<rparr>"
  have i1: "inner en watched xc p ac (ms_st m1) h out" using inner_held [OF I(1)] ws by (simp add: m1_def st1_def l_def)
  have a1: "ms_acs m1 p = Some ac" "as_ac (ms_st m1) = None" using m by (simp_all add: m1_def st1_def st_def mux_simps)
  define k where "k = min (nat n) (length (h_list h))"
  from task_loop_ok [OF E a1 i1 refl U c len n k_def] obtain m2 ac2 where t:
    "task_loop en xc p n m1 = Some m2" "ms_acs m2 p = Some ac2" "as_ac (ms_st m2) = None"
    "inner en watched xc p ac2 (ms_st m2) (taken k h) (out @ concat (map (h_cmd h) (take k (h_list h))))"
    "mw_held (mw_of m2) = mw_held (mw_of m1)" "mw_fresh (mw_of m2) = mw_fresh (mw_of m1)" by (elim exE conjE)
  define m' where "m' = m2\<lparr>ms_st := upd_wd (\<lambda>w. w\<lparr>mw_held := {}\<rparr>) (ms_st m2)\<rparr>"
  have hd: "mw_held (wd (ms_st m2)) = {XcMutex xc}" using t(5) by (simp add: mw_of_def m1_def st1_def mux_simps)
  obtain x2 where x2: "get_xc xc (ms_st m2) = Some x2" using t(4) by (auto simp: inner_def)
  have b: "base_call (en_drain en (fst (x_task_fd x))) m = (g, m\<lparr>ms_st := upd_wd (\<lambda>w. w\<lparr>br_loop := l\<lparr>ae_world := (fst (ae_world l), s)\<rparr>\<rparr>) st\<rparr>)"
    using d by (simp add: base_call_def mw_of_def st_def [symmetric] l_def [symmetric] Let_def)
  have k1: "on_st (lock (XcMutex xc)) (m\<lparr>ms_st := upd_wd (\<lambda>w. w\<lparr>br_loop := l\<lparr>ae_world := (fst (ae_world l), s)\<rparr>\<rparr>) st\<rparr>) = Some m1"
    using x(1) I(2) by (simp add: on_st_def lock_def has_mutex_def get_xc_def mux_simps m1_def st1_def upd_wd_def wd_def)
  have x1: "get_xc xc (ms_st m1) = Some x" using x(1) by (simp add: get_xc_def m1_def st1_def mux_simps)
  have k2: "on_st (unlock (XcMutex xc)) m2 = Some m'"
    using x2 hd by (simp add: on_st_def unlock_def has_mutex_def mux_simps m'_def upd_wd_def)
  have "taskDeal en xc m = Some m'"
    using x(1) b k1 x1 x(2,3) t(1) k2 by (simp add: taskDeal_def st_def [symmetric] n_def)
  moreover have "joined en watched xc p ac2 (ms_st m') (taken k h) (out @ concat (map (h_cmd h) (take k (h_list h))))"
    using inner_held [OF t(4) refl, where a = "fst (ae_world (br_loop (wd (ms_st m2))))" and X = "{}"] by (simp add: joined_def m'_def mux_simps upd_wd_def)
  moreover have "k \<le> length (h_list h)" "h_list h \<noteq> [] \<longrightarrow> 0 < k" using n by (simp_all add: k_def)
  ultimately show ?thesis using t(2,3,6)
    by (intro exI [of _ k] exI [of _ m'] exI [of _ ac2]) (simp add: m'_def mux_simps mw_of_def m1_def st1_def st_def)
qed

lemma deal_ok:
  assumes E: "env_ok en watched" and M: "matched en watched xc p c h" and R: "reach ok True h" and can: "can ok True xc p Deal c"
  shows "\<exists>c' k. cstep en xc p Deal c = Some c' \<and> (h_list h \<noteq> [] \<longrightarrow> 0 < k) \<and> reach ok True (taken k h) \<and> matched en watched xc p c' (taken k h)"
proof -
  obtain ac out where A: "ms_acs (cf_m c) p = Some ac" "as_ac (ms_st (cf_m c)) = None" "joined en watched xc p ac (ms_st (cf_m c)) h out"
    "length out + sum_list (map (length \<circ> h_cmd h) (h_list h)) \<le> cf_bytes c" "cf_bytes c + 1 < 2 ^ 31" "cf_phase c = h_phase h"
    "cf_wire c = h_wire h" "cf_lost c = h_lost h" "h_ctx h" "h_gen h = 0"
    "\<forall>t q g. request_of (h_phase h t) = Some (q, g) \<longrightarrow> g = 0 \<and> cf_buf c t = q - 1 \<and> 0 < q \<and> q < mw_fresh (mw_of (cf_m c))"
    using M by (rule matchedE)
  note G = reach_good [OF R]
  have L: "\<not> h_lost h" using can A(8) by simp
  then have U: "h_up h" using G by (auto simp: good_def living_def)
  have cells: "\<forall>q \<in> set (h_list h). h_cells h q \<noteq> None" using listed_cells [OF G] by (simp add: queued_def)
  have len: "length out + sum_list (map (length \<circ> h_cmd h) (h_list h)) + 1 < 2 ^ 31" using A(4,5) by simp
  from taskDeal_ok [OF E A(3,1,2) U cells len] obtain k m' ac' where t:
    "k \<le> length (h_list h)" "h_list h \<noteq> [] \<longrightarrow> 0 < k" "taskDeal en xc (cf_m c) = Some m'" "ms_acs m' p = Some ac'" "as_ac (ms_st m') = None"
    "joined en watched xc p ac' (ms_st m') (taken k h) (out @ concat (map (h_cmd h) (take k (h_list h))))"
    "mw_fresh (mw_of m') = mw_fresh (mw_of (cf_m c))" by (elim exE conjE)
  have before: "listed p (cf_m c) = map (h_cmd h) (h_list h)" using A(1,3) by (intro listed_eq) (auto simp: joined_def)
  have after: "listed p m' = map (h_cmd h) (drop k (h_list h))"
    using listed_eq [of en watched xc p ac' m' "taken k h"] t(4,6) by (auto simp: joined_def taken_def)
  let ?c = "c\<lparr>cf_m := m', cf_wire := cf_wire c @ map (h_cmd h) (take k (h_list h))\<rparr>"
  have "take (length (listed p (cf_m c)) - length (listed p m')) (listed p (cf_m c)) = map (h_cmd h) (take k (h_list h))"
    using t(1) by (simp add: before after take_map)
  then have "cstep en xc p Deal c = Some ?c" using t(3) by (simp add: Let_def)
  moreover have "matched en watched xc p ?c (taken k h)"
  proof -
    have "sum_list (map (length \<circ> h_cmd h) (h_list h)) = sum_list (map (length \<circ> h_cmd h) (take k (h_list h) @ drop k (h_list h)))" by simp
    also have "\<dots> = length (concat (map (h_cmd h) (take k (h_list h)))) + sum_list (map (length \<circ> h_cmd h) (drop k (h_list h)))"
      unfolding map_append sum_list_append by (simp add: length_concat)
    finally have l: "length (out @ concat (map (h_cmd h) (take k (h_list h)))) + sum_list (map (length \<circ> h_cmd (taken k h)) (h_list (taken k h))) \<le> cf_bytes ?c"
      using A(4) by (simp add: taken_def)
    have j: "joined en watched xc p ac' (ms_st (cf_m ?c)) (taken k h) (out @ concat (map (h_cmd h) (take k (h_list h))))" using t(6) by simp
    have r: "v = 0 \<and> cf_buf ?c u = q - 1 \<and> 0 < q \<and> q < mw_fresh (mw_of (cf_m ?c))" if "request_of (h_phase (taken k h) u) = Some (q, v)" for u q v
      using A(11) [rule_format, of u q v] that t(7) by (simp add: taken_def)
    show ?thesis
      by (rule matchedI [OF _ _ j l _ _ _ _ _ _ r]) (use A(5) in \<open>simp_all add: t(4,5) A(6-10) taken_def\<close>)
  qed
  ultimately show ?thesis using taken_reach [OF R U L t(1)] t(2) by blast
qed

section \<open>Every step is one of the specification\<close>

text \<open>What the threads can come to.\<close>

inductive comes ::
    "'s env \<Rightarrow> (string \<Rightarrow> ptr \<Rightarrow> bool) \<Rightarrow> ptr \<Rightarrow> ptr \<Rightarrow> 's conf \<Rightarrow> 's conf \<Rightarrow> bool" for en ok xc p c0 where
  begins: "comes en ok xc p c0 c0"
| goes_on: "comes en ok xc p c0 c \<Longrightarrow> can ok True xc p a c \<Longrightarrow> cstep en xc p a c = Some c' \<Longrightarrow> comes en ok xc p c0 c'"

lemma simulated:
  assumes E: "env_ok en watched" and M: "matched en watched xc p c h" and R: "reach ok True h" and can: "can ok True xc p a c"
  shows "\<exists>c' h'. cstep en xc p a c = Some c' \<and> reach ok True h' \<and> matched en watched xc p c' h'"
proof -
  note G = reach_good [OF R]
  have ph: "cf_phase c = h_phase h" using M by (rule matched_phase)
  show ?thesis
  proof (cases a)
    case (Call t name args)
    show ?thesis unfolding Call using call_ok [OF E M G can [unfolded Call]] reach.step [OF R] by blast
  next
    case Deal
    show ?thesis unfolding Deal using deal_ok [OF E M R can [unfolded Deal]] by blast
  next
    case (Written b)
    show ?thesis unfolding Written using written_ok [OF M can [unfolded Written]] R by blast
  next
    case (Receive r)
    show ?thesis unfolding Receive using receive_ok [OF M G can [unfolded Receive]] reach.step [OF R] by blast
  next
    case Break
    show ?thesis unfolding Break using break_ok [OF M can [unfolded Break]] reach.step [OF R] by blast
  next
    case Drain
    show ?thesis unfolding Drain using drain_ok [OF M G can [unfolded Drain]] reach.step [OF R] by blast
  next
    case Report
    show ?thesis unfolding Report using report_ok [OF M G can [unfolded Report]] reach.step [OF R] by blast
  next
    case (Finish t)
    then obtain cmd q g where w: "h_phase h t = Waiting cmd q g" using can ph by auto
    then have "enabled ok True (Collect t) h" by simp
    then show ?thesis unfolding Finish using finish_ok [OF M G w] reach.step [OF R] by blast
  next
    case (Leave t)
    then obtain cmd q g r where w: "h_phase h t = Leaving cmd q g r" using can ph by auto
    then have "enabled ok True (Abandon t) h" by simp
    then show ?thesis unfolding Leave using leave_ok [OF M G w] reach.step [OF R] by blast
  qed
qed

lemma comes_matched:
  assumes "comes en ok xc p c0 c" "env_ok en watched" "matched en watched xc p c0 h0" "reach ok True h0"
  shows "\<exists>h. reach ok True h \<and> matched en watched xc p c h"
  using assms
proof (induction rule: comes.induct)
  case begins
  then show ?case by blast
next
  case (goes_on c a c')
  then obtain h where "reach ok True h" "matched en watched xc p c h" by blast
  from simulated [OF goes_on.prems(1) this(2,1) goes_on.hyps(2)] show ?case using goes_on.hyps(3) by auto
qed

end
