(* ===== verification/Woken.thy ===== *)
theory Woken
  imports Threads
begin

text \<open>
  More of what the machine of the threads keeps: who owns a request, and when its caller is woken.
\<close>

section \<open>Owners and signals\<close>

text \<open>
  A request has one caller at most, and none when nobody will free it. While the loop thread has a request its
  caller has not been signalled; afterwards, on the same connection, it has been once.
\<close>

definition owned :: "('c, 'r) hand \<Rightarrow> bool" where
  "owned h \<longleftrightarrow>
     (\<forall>t u q g g'. request_of (h_phase h t) = Some (q, g) \<longrightarrow> request_of (h_phase h u) = Some (q, g') \<longrightarrow> t = u) \<and>
     (\<forall>t q g. request_of (h_phase h t) = Some (q, g) \<longrightarrow> q \<notin> h_leaked h \<and> g \<le> h_gen h)"

definition woken :: "('c, 'r) hand \<Rightarrow> bool" where
  "woken h \<longleftrightarrow>
     (\<forall>q x. h_cells h q = Some x \<longrightarrow> q \<in> queued h \<longrightarrow> hc_sem x = 0) \<and>
     (\<forall>t c q x. h_phase h t = Waiting c q (h_gen h) \<longrightarrow> h_cells h q = Some x \<longrightarrow> h_up h \<longrightarrow> q \<notin> queued h \<longrightarrow> hc_sem x = 1)"

lemma request_of_phase:
  "request_of ph = Some (q, g) \<longleftrightarrow> (\<exists>c. ph = Waiting c q g) \<or> (\<exists>c r. ph = Leaving c q g r)"
  by (cases ph) auto

lemma set_phase_leaked: "h_leaked (set_phase t ph h) = h_leaked h"
  by (simp add: set_phase_def)

lemma owned_phase:
  assumes "owned h" "request_of ph = None \<or> request_of ph = request_of (h_phase h t)"
  shows "owned (set_phase t ph h)"
proof -
  have "request_of (h_phase h u) = Some (q, g)" if "request_of (h_phase (set_phase t ph h) u) = Some (q, g)" for u q g
    using that assms(2) by (auto simp: set_phase_def split: if_splits)
  then show ?thesis using assms(1) unfolding owned_def by (metis set_phase_leaked set_phase_sel(9))
qed

lemma owned_issue:
  assumes G: "good ok h" and O: "owned h" and e: "enabled ok True (Issue t c p) h" and r: "run (Issue t c p) h = Some h'"
  shows "owned h'"
proof -
  have z: "refs h p = 0" using G e by (simp add: good_def counted_def)
  then have "\<not> waits_on h u p" for u by (simp add: refs_cases)
  moreover have "p \<notin> leaving h" using e by simp
  ultimately have n: "request_of (h_phase h u) \<noteq> Some (p, g)" for u g
    by (auto simp: request_of_phase waits_on_def leaving_def)
  have "p \<notin> h_leaked h" using z by (simp add: refs_cases)
  then show ?thesis using O n r unfolding owned_def by (auto simp: set_phase_def split: if_splits)
qed

lemma reply_to_leaked: "reply_to q r h = Some h' \<Longrightarrow> h_leaked h' = h_leaked h"
  by (auto simp: reply_to_def split: option.splits if_splits)

lemma unlist_all_leaked: "unlist_all ps h = Some h' \<Longrightarrow> h_leaked h' = h_leaked h"
  by (induction ps arbitrary: h) (auto simp: unlist_def split: option.splits if_splits)

lemma owned_same:
  assumes "owned h" "h_phase h' = h_phase h" "h_leaked h' = h_leaked h" "h_gen h \<le> h_gen h'"
  shows "owned h'"
  using assms unfolding owned_def by (metis order_trans)

lemma owned_step:
  assumes G: "good ok h" and O: "owned h" and e: "enabled ok True a h" and r: "run a h = Some h'"
  shows "owned h'"
proof (cases a)
  case (Issue t c p)
  show ?thesis by (rule owned_issue [OF G O e [unfolded Issue] r [unfolded Issue]])
next
  case (Answer x)
  then show ?thesis using r reply_to_sel reply_to_leaked by (intro owned_same [OF O]) fastforce+
next
  case Hang_up
  then show ?thesis using r reply_to_sel reply_to_leaked by (intro owned_same [OF O]) fastforce+
next
  case Clear
  then obtain h1 where "unlist_all (h_list h) h = Some h1" "h' = h1\<lparr>h_list := [], h_up := False\<rparr>" using r by auto
  then show ?thesis using unlist_all_sel unlist_all_leaked by (intro owned_same [OF O]) fastforce+
next
  case (Collect t)
  then obtain c p g x where w: "h_phase h t = Waiting c p g" "h_cells h p = Some x" "collect_step t c p g h = Some h'"
    using e r by (auto simp: collect_step_def split: option.splits)
  have "owned (h\<lparr>h_cells := y\<rparr>)" for y by (rule owned_same [OF O]) simp_all
  then show ?thesis using w by (auto simp: collect_step_def intro!: owned_phase split: if_splits)
next
  case (Abandon t)
  then obtain c p g x where w: "h_phase h t = Leaving c p g x" "abandon_step t c p g x h = Some h'" using e r by auto
  have up: "h_up h" "h_ctx h" "g = h_gen h" using G w(1) by (auto simp: good_def living_def)
  then have h': "h' = set_phase t (Done c x) (h\<lparr>h_list := remove1 p (h_list h), h_leaked := (if p \<in> set (h_list h) then insert p (h_leaked h) else h_leaked h)\<rparr>)"
    using w(2) by (simp add: abandon_step_def Let_def split: if_splits)
  have "u = t" if "request_of (h_phase h u) = Some (p, k)" for u k using O that w(1) unfolding owned_def by (metis request_of.simps(2))
  then show ?thesis using O unfolding owned_def h' by (auto simp: set_phase_def)
qed (use r in \<open>auto intro: owned_same [OF O]\<close>)

lemma woken_answer:
  assumes G: "good ok h" and W: "woken h" and p: "h_pending h = p # ps" and r: "reply_to p r (h\<lparr>h_pending := ps, h_wire := w\<rparr>) = Some h'"
  shows "woken h'"
proof -
  have d: "p \<notin> set ps" "p \<notin> set (h_list h)" using G p by (auto simp: good_def counted_def)
  have q: "queued h' = queued h - {p}" using d p reply_to_sel [OF r] by (auto simp: queued_def)
  have s: "h_up h' = h_up h" "h_gen h' = h_gen h" "h_phase h' = h_phase h" using reply_to_sel [OF r] by simp_all
  have "h_cells h' u = h_cells h u" if "u \<noteq> p" for u using r that by (auto simp: reply_to_def split: option.splits if_splits)
  moreover have "hc_sem y = 1" if y: "h_cells h' p = Some y" for y
  proof -
    have "p \<in> queued h" using p by (simp add: queued_def)
    then show ?thesis using r y W by (auto simp: reply_to_def woken_def split: option.splits if_splits)
  qed
  moreover have "hc_sem x = 0" if "h_cells h u = Some x" "u \<in> queued h" for u x using W that unfolding woken_def by blast
  moreover have "hc_sem x = 1" if "h_phase h t = Waiting c u (h_gen h)" "h_cells h u = Some x" "h_up h" "u \<notin> queued h" for t c u x
    using W that unfolding woken_def by blast
  ultimately show ?thesis unfolding woken_def q by (metis Diff_iff s singletonD singletonI)
qed

lemma woken_step:
  assumes G: "good ok h" and O: "owned h" and W: "woken h" and e: "enabled ok True a h" and r: "run a h = Some h'"
  shows "woken h'"
proof (cases a)
  case (Issue t c p)
  have z: "refs h p = 0" using G e by (simp add: good_def counted_def Issue)
  have n: "h_phase h u \<noteq> Waiting d p g" for u d g using z by (auto simp: refs_cases waits_on_def)
  have "p \<notin> queued h" using z by (simp add: refs_cases)
  then show ?thesis using W r n unfolding woken_def Issue by (auto simp: set_phase_def queued_def split: if_splits)
next
  case Take
  then obtain p ps where l: "h_list h = p # ps" using e by (cases "h_list h") auto
  then have "queued h' = queued h" using r Take by (auto simp: queued_def)
  then show ?thesis using W r Take unfolding woken_def by auto
next
  case (Answer x)
  then obtain p ps where l: "h_pending h = p # ps" using e by (cases "h_pending h") auto
  show ?thesis using woken_answer [OF G W l] r Answer l by simp
next
  case Hang_up
  then obtain p ps where l: "h_pending h = p # ps" using e by (cases "h_pending h") auto
  have "h\<lparr>h_pending := ps\<rparr> = h\<lparr>h_pending := ps, h_wire := h_wire h\<rparr>" by simp
  then show ?thesis using woken_answer [OF G W l, of None "h_wire h"] r Hang_up l by simp
next
  case Clear
  then obtain h1 where h1: "unlist_all (h_list h) h = Some h1" "h' = h1\<lparr>h_list := [], h_up := False\<rparr>" using r by auto
  have "h_pending h1 = []" using unlist_all_sel [OF h1(1)] e Clear by simp
  then show ?thesis using h1(2) unfolding woken_def by (auto simp: queued_def)
next
  case Lose
  then show ?thesis using W r unfolding woken_def by (auto simp: queued_def)
next
  case Close
  then show ?thesis using W r unfolding woken_def by (auto simp: queued_def)
next
  case Reconnect
  have "queued h = {}" using G e Reconnect by (auto simp: good_def living_def)
  moreover have "h_phase h t \<noteq> Waiting c q (Suc (h_gen h))" for t c q
    using O unfolding owned_def by (metis not_less_eq_eq order_refl request_of.simps(1))
  ultimately show ?thesis using r Reconnect unfolding woken_def by (auto simp: queued_def)
next
  case (Collect t)
  then obtain c p g x where w: "h_phase h t = Waiting c p g" "h_cells h p = Some x" "collect_step t c p g h = Some h'"
    using e r by (auto simp: collect_step_def split: option.splits)
  then show ?thesis using W by (auto simp: collect_step_def woken_def set_phase_def queued_def split: if_splits)
next
  case (Abandon t)
  then obtain c p g x where w: "h_phase h t = Leaving c p g x" "abandon_step t c p g x h = Some h'" using e r by auto
  have up: "h_up h" "h_ctx h" "g = h_gen h" "distinct (h_list h @ h_pending h)" using G w(1) by (auto simp: good_def living_def counted_def)
  then have h': "h' = set_phase t (Done c x) (h\<lparr>h_list := remove1 p (h_list h), h_leaked := (if p \<in> set (h_list h) then insert p (h_leaked h) else h_leaked h)\<rparr>)"
    using w(2) by (simp add: abandon_step_def Let_def split: if_splits)
  have "h_phase h u \<noteq> Waiting d p k" for u d k
  proof
    assume "h_phase h u = Waiting d p k"
    then have "u = t" using O w(1) unfolding owned_def by (metis request_of.simps(1,2))
    then show False using w(1) \<open>h_phase h u = Waiting d p k\<close> by simp
  qed
  then have ph: "h_phase h u = Waiting d q k \<and> q \<noteq> p" if "h_phase h' u = Waiting d q k" for u d q k
    using that by (auto simp: h' set_phase_def split: if_splits)
  have qs: "q \<in> queued h" if "q \<in> queued h'" for q using that up(4) by (auto simp: h' set_phase_def queued_def)
  have nq: "q \<notin> queued h" if "q \<notin> queued h'" "q \<noteq> p" for q using that by (auto simp: h' set_phase_def queued_def)
  have s: "h_cells h' = h_cells h" "h_up h' = h_up h" "h_gen h' = h_gen h" by (simp_all add: h' set_phase_def)
  show ?thesis unfolding woken_def s
  proof (intro conjI allI impI)
    fix q y assume "h_cells h q = Some y" "q \<in> queued h'"
    then show "hc_sem y = 0" using W qs unfolding woken_def by blast
  next
    fix u d q y assume "h_phase h' u = Waiting d q (h_gen h)" "h_cells h q = Some y" "h_up h" "q \<notin> queued h'"
    then show "hc_sem y = 1" using W ph nq unfolding woken_def by blast
  qed
qed

lemma reach_woken: "reach ok True h \<Longrightarrow> owned h \<and> woken h"
proof (induction rule: reach.induct)
  case (start h)
  then show ?case by (simp add: fresh_hand_def owned_def woken_def)
next
  case (step h a h')
  then show ?case using owned_step [OF reach_good [OF step.hyps(1)]] woken_step [OF reach_good [OF step.hyps(1)]] by blast
qed

end
