(* ===== verification/Calls.thy ===== *)
theory Calls
  imports Woken Release
begin

text \<open>
  What the callers of one shared connection can rely on, and where the code lets them down.
\<close>

section \<open>The start\<close>

text \<open>Nobody has called anything on the connection.\<close>

definition idle_hand :: "(string, ptr) hand" where
  "idle_hand = \<lparr>h_cells = \<lambda>_. None, h_cmd = \<lambda>_. [], h_list = [], h_pending = [], h_wire = [], h_up = True, h_lost = False,
     h_ctx = True, h_gen = 0, h_phase = \<lambda>_. Idle, h_leaked = {}\<rparr>"

definition starts :: "'s env \<Rightarrow> ('s \<Rightarrow> int \<Rightarrow> int \<Rightarrow> 32 word option) \<Rightarrow> ptr \<Rightarrow> ptr \<Rightarrow> 's conf \<Rightarrow> bool" where
  "starts en watched xc p c \<longleftrightarrow> env_ok en watched \<and> matched en watched xc p c idle_hand"

lemma comes_hand:
  assumes "starts en watched xc p c0" "comes en ok xc p c0 c"
  shows "\<exists>h. reach ok True h \<and> good ok h \<and> owned h \<and> woken h \<and> matched en watched xc p c h"
proof -
  have "fresh_hand idle_hand" by (simp add: fresh_hand_def idle_hand_def)
  then have "reach ok True idle_hand" by (rule reach.start)
  then show ?thesis using comes_matched [OF assms(2)] assms(1) reach_good reach_woken unfolding starts_def by blast
qed






text \<open>
  C2. When all requests have been handed over and all their callbacks called, every
  caller that waits has been signalled exactly once, and its next step returns to its user.
\<close>

lemma pending_empty:
  assumes "joined en watched xc p ac (ms_st m) h out" "ms_acs m p = Some ac" "no_callbacks p m"
  shows "h_pending h = []"
  using joinedD(2) [OF assms(1)] assms(2,3)
  by (cases "h_pending h") (auto simp: queues_def callbacks_at_def no_callbacks_def map_eq_Cons_conv)

lemma waiting_request:
  assumes M: "matched en watched xc p c h" and G: "good ok h" and t: "h_phase h t = Waiting cmd q g"
  shows "\<exists>x. h_cells h q = Some x \<and> ci_reply_sem (mw_cis (mw_of (cf_m c)) q) = Some (hc_sem x)"
proof -
  obtain ac out where "joined en watched xc p ac (ms_st (cf_m c)) h out" using M by (auto simp: matched_def)
  moreover obtain x where "h_cells h q = Some x" using waiting_cell [OF G t] by blast
  ultimately show ?thesis using cells_ref(2) joinedD(3) by (fastforce simp: cell_of_def mw_of_def)
qed

theorem callers_woken:
  assumes S: "starts en watched xc p c0" and C: "comes en ok xc p c0 c" and U: "connected_xc xc (cf_m c)"
    and L: "listed p (cf_m c) = []" and N: "no_callbacks p (cf_m c)" and W: "cf_phase c t = Waiting cmd q g"
  shows "ci_reply_sem (mw_cis (mw_of (cf_m c)) q) = Some 1 \<and>
    (\<exists>c' r. cstep en xc p (Finish t) c = Some c' \<and> cf_phase c' t = Done cmd r)"
proof -
  obtain h where R: "good ok h" "woken h" and M: "matched en watched xc p c h" using comes_hand [OF S C] by blast
  obtain ac out where A: "ms_acs (cf_m c) p = Some ac" "joined en watched xc p ac (ms_st (cf_m c)) h out"
    "cf_phase c = h_phase h" "h_gen h = 0" using M by (rule matchedE)
  have ph: "h_phase h t = Waiting cmd q g" using W A(3) by simp
  have g: "g = 0" using matched_request(1) [OF M, of t q g] ph by simp
  have "listed p (cf_m c) = map (h_cmd h) (h_list h)" using A(1,2) by (intro listed_eq) (auto simp: joined_def)
  then have Q: "queued h = {}" using L pending_empty [OF A(2,1) N] by (simp add: queued_def)
  obtain x where x: "h_cells h q = Some x" "ci_reply_sem (mw_cis (mw_of (cf_m c)) q) = Some (hc_sem x)"
    using waiting_request [OF M R(1) ph] by blast
  have "h_up h" using U status_up [OF A(2)] by (simp add: connected_xc_def)
  then have "hc_sem x = 1" using R(2) x(1) ph g A(4) Q unfolding woken_def by auto
  moreover obtain c' h' where c': "cstep en xc p (Finish t) c = Some c'" "run (Collect t) h = Some h'" "matched en watched xc p c' h'"
    using finish_ok [OF M R(1) ph] by blast
  moreover have "hc_ref x \<le> 1" using waiting_cell [OF R(1) ph] x(1) Q by auto
  then have "h_phase h' t = Done cmd (hc_reply x)"
    using c'(2) ph x(1) by (auto simp: collect_step_def mux_simps split: if_splits)
  ultimately show ?thesis using x(2) matched_phase [OF c'(3)] by auto
qed

section \<open>The end of the connection\<close>

text \<open>The requests on the list of the context.\<close>

definition queue_of :: "ptr \<Rightarrow> 's mst \<Rightarrow> ptr list" where
  "queue_of p m =
     (case ms_acs m p of
        None \<Rightarrow> []
      | Some ac \<Rightarrow>
          (case lh_lists (as_lists (ms_st m)) (ac_cmd_list ac) of
             None \<Rightarrow> [] | Some H \<Rightarrow> values_from (al_len H) (al_head H) (as_lists (ms_st m))))"

lemma queue_eq:
  assumes "joined en watched xc p ac (ms_st m) h out" "ms_acs m p = Some ac"
  shows "queue_of p m = h_list h"
proof -
  obtain ws where "two_lists (ac_cmd_list ac) (rc_reconn_list (client_of (ms_st m))) (as_lists (ms_st m)) (h_list h) ws"
    using assms(1) by (auto simp: joined_def inner_def)
  from two_lists_values [OF this] show ?thesis using assms(2) by (auto simp: queue_of_def)
qed

lemma cleared_cells:
  assumes "good ok h" "run Clear h = Some h'"
  shows "h_list h' = []" "h_phase h' = h_phase h" "\<not> h_up h'"
    "h_cells h' q = (if q \<in> set (h_list h) then one_less (the (h_cells h q)) else h_cells h q)"
proof -
  have "distinct (h_list h)" "\<forall>q \<in> set (h_list h). h_cells h q \<noteq> None"
    using assms(1) listed_cells [OF assms(1)] by (simp_all add: good_def counted_def queued_def)
  from unlist_all_ok [OF this] assms(2) show "h_list h' = []" "h_phase h' = h_phase h" "\<not> h_up h'"
    "h_cells h' q = (if q \<in> set (h_list h) then one_less (the (h_cells h q)) else h_cells h q)" by auto
qed

text \<open>
  C34. When the connection is lost, a caller whose request is still on the list is
  not woken: the request is dropped without a signal, and nothing that can happen to the connection will
  answer it. The caller sleeps until its timeout.
\<close>

theorem unsent_callers_sleep:
  assumes S: "starts en watched xc p c0" and C: "comes en ok xc p c0 c" and can: "can ok True xc p Report c"
    and W: "cf_phase c t = Waiting cmd q g" and Q: "q \<in> set (queue_of p (cf_m c))"
  shows "\<exists>c'. cstep en xc p Report c = Some c' \<and> ci_reply_sem (mw_cis (mw_of (cf_m c')) q) = Some 0 \<and>
    cf_phase c' t = Waiting cmd q g \<and> \<not> can ok True xc p Deal c' \<and> \<not> can ok True xc p Drain c' \<and> (\<forall>r. \<not> can ok True xc p (Receive r) c')"
proof -
  obtain h where R: "good ok h" "woken h" and M: "matched en watched xc p c h" using comes_hand [OF S C] by blast
  obtain ac out where A: "ms_acs (cf_m c) p = Some ac" "joined en watched xc p ac (ms_st (cf_m c)) h out" "cf_phase c = h_phase h"
    using M by (rule matchedE)
  have ph: "h_phase h t = Waiting cmd q g" using W A(3) by simp
  have q: "q \<in> set (h_list h)" using Q queue_eq [OF A(2,1)] by simp
  then have qd: "q \<in> queued h" by (simp add: queued_def)
  obtain x where x: "h_cells h q = Some x" "hc_ref x = 2" using waiting_cell [OF R(1) ph] qd by auto
  then have z: "hc_sem x = 0" using R(2) qd unfolding woken_def by blast
  obtain c' h' where r: "cstep en xc p Report c = Some c'" "run Clear h = Some h'" "matched en watched xc p c' h'" "h_lost h"
    using report_step [OF M R(1) can] by blast
  note H = cleared_cells [OF R(1) r(2)]
  obtain ac' out' where B: "joined en watched xc p ac' (ms_st (cf_m c')) h' out'" "cf_phase c' = h_phase h'" "cf_lost c' = h_lost h'"
    using r(3) by (rule matchedE)
  have "h_cells h' q = Some (x\<lparr>hc_ref := 1\<rparr>)" using H(4) q x by (simp add: one_less_def)
  from cells_ref(2) [OF joinedD(3) [OF B(1)] this] have "ci_reply_sem (mw_cis (mw_of (cf_m c')) q) = Some 0"
    using z by (simp add: cell_of_def mw_of_def)
  moreover have "\<not> connected_xc xc (cf_m c')" using status_up [OF B(1)] H(3) by (simp add: connected_xc_def)
  moreover have "h_lost h'" using unlist_all_sel r(2,4) by fastforce
  ultimately show ?thesis using r(1) ph H(2) B(2,3) by auto
qed

text \<open>
  C35. A caller that gave up before the connection was lost and looks for its
  request afterwards destroys and frees a request that is freed already.
\<close>

theorem late_caller_frees_twice:
  assumes S: "starts en watched xc p c0" and C: "comes en ok xc p c0 c" and can: "can ok False xc p Report c"
    and W: "cf_phase c t = Leaving cmd q g r"
  shows "\<exists>c'. cstep en xc p Report c = Some c' \<and> q \<notin> as_tasks (ms_st (cf_m c')) \<and> cstep en xc p (Leave t) c' = None"
proof -
  obtain h where R: "good ok h" "owned h" and M: "matched en watched xc p c h" using comes_hand [OF S C] by blast
  have ph: "h_phase h t = Leaving cmd q g r" using W matched_phase [OF M] by simp
  have "q \<notin> h_leaked h" using R(2) ph unfolding owned_def by (metis request_of.simps(2))
  moreover have "\<not> waits_on h u q" for u using R(1) ph unfolding good_def counted_def leaving_def by blast
  ultimately have ref: "refs h q = (if q \<in> queued h then 1 else 0)" by (simp add: refs_def)
  obtain c' h' where r: "cstep en xc p Report c = Some c'" "run Clear h = Some h'" "matched en watched xc p c' h'" "h_pending h = []"
    using report_step [OF M R(1) can] by blast
  note H = cleared_cells [OF R(1) r(2)]
  have "h_cells h' q = None"
  proof (cases "q \<in> set (h_list h)")
    case True
    then have "q \<in> queued h" by (simp add: queued_def)
    moreover obtain x where "h_cells h q = Some x" using listed_cells [OF R(1) calculation] by blast
    ultimately show ?thesis using H(4) True ref R(1) by (simp add: one_less_def good_def counted_def)
  next
    case False
    then have "q \<notin> queued h" using r(4) by (simp add: queued_def)
    then have "h_cells h q = None" using ref R(1) by (cases "h_cells h q") (fastforce simp: good_def counted_def)+
    then show ?thesis using H(4) False by simp
  qed
  moreover obtain ac' out' where B: "ms_acs (cf_m c') p = Some ac'" "joined en watched xc p ac' (ms_st (cf_m c')) h' out'" "cf_phase c' = h_phase h'"
    using r(3) by (rule matchedE)
  ultimately have nt: "q \<notin> as_tasks (ms_st (cf_m c'))" using joinedD(3) [OF B(2)] by (auto simp: requests_are_def)
  obtain ws where T: "two_lists (ac_cmd_list ac') (rc_reconn_list (client_of (ms_st (cf_m c')))) (as_lists (ms_st (cf_m c'))) [] ws"
    using B(2) H(1) by (auto simp: joined_def inner_def)
  obtain n where "listSearchKey (ac_cmd_list ac') q (as_lists (ms_st (cf_m c'))) = Some n" "n = NULL" using two_lists_search [OF T, of q] by auto
  moreover obtain x where "get_xc xc (ms_st (cf_m c')) = Some x" "x_status x \<noteq> CONNECTED"
    using B(2) status_up [OF B(2)] H(3) by (auto simp: joined_def inner_def)
  ultimately have "abandon xc p q (cf_m c') = None"
    using B(1) nt by (simp add: abandon_def on_st_def free_ci_def sem_destroy_def get_ci_def)
  then show ?thesis using r(1) nt B(3) H(2) ph by simp
qed

section \<open>A connection to start from\<close>

text \<open>One connected multiplexing context at the address 1, watched by a container at the address 9.\<close>

definition env0 :: "(int \<Rightarrow> int \<Rightarrow> 32 word option) env" where
  "env0 = \<lparr>en_alloc = heap0, en_sys = closed_sys, en_epoll = poll0, en_pipe = (\<lambda>s. ((4, 5), s)), en_nonblock = (\<lambda>fd s. s),
     en_drain = (\<lambda>fd s. (1, s)), en_poke = (\<lambda>fd s. s), en_spawn = (\<lambda>s. (True, s)), en_junk = 0, en_wait = (\<lambda>b m. Some m)\<rparr>"

definition world0 :: "(int \<Rightarrow> int \<Rightarrow> 32 word option) mw" where
  "world0 = \<lparr>br_loop = br_loop fresh_bridge, br_events = [9 \<mapsto> \<lparr>re_context = 1, re_fd = 3, re_reading = False, re_writing = False\<rparr>], br_fresh = 10,
     mw_client = \<lparr>rc_aeloop = True, rc_reconn_list = 2, rc_free_ac_list = 3, rc_timeout = 1000\<rparr>,
     mw_xcs = [1 \<mapsto> \<lparr>x_ctx = Actx 1, x_ip = None, x_port = 6379, x_status = CONNECTED, x_wait_time_reconn = 0, x_remain_wait_reconn = 0,
       x_task_fd = (4, 5)\<rparr>],
     mw_cis = \<lambda>_. \<lparr>ci_cmd = NULL, ci_len = 0, ci_reply = NULL, ci_reference = 0, ci_reply_sem = None\<rparr>, mw_bufs = Map.empty, mw_held = {},
     mw_fresh = 1, mw_requests = 0, mw_grants = \<lambda>_. True, mw_node = \<lparr>ln_prev = NULL, ln_next = NULL, ln_value = NULL\<rparr>\<rparr>"

definition context0 :: "(int \<Rightarrow> int \<Rightarrow> 32 word option) mw actx" where
  "context0 = \<lparr>ac_c = (the (redisContextInit heap0))\<lparr>c_fd := 3, c_flags := REDIS_CONNECTED\<rparr>, ac_err = 0, ac_errstr = False, ac_ev = ae_hooks poll0 9,
     ac_onDisconnect = NULL, ac_onConnect = NULL, ac_replies = \<lparr>cl_head = NULL, cl_tail = NULL\<rparr>, ac_invalid = \<lparr>cl_head = NULL, cl_tail = NULL\<rparr>,
     ac_channels = None, ac_patterns = None, ac_cmd_list = 1, ac_xc = 1, ac_status = CONNECTED\<rparr>"

definition memory0 :: "(int \<Rightarrow> int \<Rightarrow> 32 word option) mst" where
  "memory0 = \<lparr>ms_acs = [1 \<mapsto> context0], ms_fresh_ac = 2, ms_st = \<lparr>as_ac = None, as_heap = empty_heap, as_cells = cbheap0, as_mem = cbmem0,
       as_lists = lheap0\<lparr>lh_lists := [1 \<mapsto> hdr0, 2 \<mapsto> hdr0, 3 \<mapsto> hdr0], lh_fresh := 4\<rparr>,
       as_tasks = {}, as_woken = [], as_free_lock = False, as_world = (0, world0)\<rparr>\<rparr>"

definition start0 :: "(int \<Rightarrow> int \<Rightarrow> 32 word option) conf" where
  "start0 = \<lparr>cf_m = memory0, cf_phase = \<lambda>_. Idle, cf_buf = \<lambda>_. NULL, cf_wire = [], cf_lost = False, cf_bytes = 0\<rparr>"

lemma takes0: "takes env0 (\<lambda>s. s) context0 (ms_st memory0) []"
proof -
  obtain c where c: "redisContextInit heap0 = Some c" using witness_context by blast
  then obtain b where b: "c_obuf c = Some b" "sdsempty heap0 = Some b"
    by (auto simp: redisContextInit_def Let_def split: option.splits if_splits)
  have "sds_ok b \<and> sdsstr b = []" using b(2) sdsempty_ok by blast
  moreover have "bridge_ok (\<lambda>s. s) (\<lambda>_. AE_NONE) Map.empty 9 3 (wd (ms_st memory0))"
    using fresh_bridge rw_mask_none [of False False]
    by (intro bridge_okI [where e = "\<lparr>re_context = 1, re_fd = 3, re_reading = False, re_writing = False\<rparr>" and r = False and w = False])
      (simp_all add: memory0_def wd_def world0_def fun_upd_idem)
  moreover have "running (br_loop (wd (ms_st memory0)))"
    by (simp add: running_def memory0_def wd_def world0_def fresh_bridge_def aeCreateEventLoop_def aeApiCreate_def ae_malloc_def ae_call_def ae0_def poll0_def)
  ultimately show ?thesis using c b unfolding takes_def
    by (intro conjI exI [of _ b] exI [of _ "\<lambda>_. AE_NONE"] exI [of _ Map.empty] exI [of _ "9 :: ptr"] exI [of _ "3 :: int"])
      (simp_all add: context0_def env0_def open_flags_def REDIS_CONNECTED_def client_of_def, simp add: memory0_def wd_def world0_def)
qed

lemma starts0: "starts env0 (\<lambda>s. s) 1 1 start0"
proof -
  have "env_ok env0 (\<lambda>s. s)" using poll0_polls roomy_heap0 by (simp add: env_ok_def env0_def)
  moreover have "two_lists 1 2 (as_lists (ms_st memory0)) [] []"
  proof (rule two_lists_intro)
    show "list_is (as_lists (ms_st memory0)) 1 hdr0 []" "list_is (as_lists (ms_st memory0)) 2 hdr0 []"
      by (simp_all add: list_is_def memory0_def hdr0_def)
  qed (simp_all add: memory0_def lheap0_def hdr0_def lheap_ok_def)
  moreover have "queues (ac_replies context0) (ac_invalid context0) (as_cells (ms_st memory0)) [] []"
    by (simp add: queues_def callbacks_at_def memory0_def context0_def cbheap0_def cbheap_ok_def)
  ultimately have "joined env0 (\<lambda>s. s) 1 1 context0 (ms_st memory0) idle_hand []"
    using takes0 unfolding joined_def inner_def
    by (auto simp: idle_hand_def requests_are_def commands_def memory0_def context0_def wd_def world0_def client_of_def get_xc_def)
  then have "matched env0 (\<lambda>s. s) 1 1 start0 idle_hand"
    by (intro matchedI [of _ _ context0 _ _ _ _ "[]"]) (simp_all add: start0_def memory0_def idle_hand_def)
  then show ?thesis using \<open>env_ok env0 (\<lambda>s. s)\<close> by (simp add: starts_def)
qed

section \<open>Runs\<close>

definition get_k :: string where
  "get_k = wire [''GET'', ''k'']"

lemma no_pending:
  assumes "joined en watched xc p ac (ms_st m) h out" "ms_acs m p = Some ac" "h_pending h = []"
  shows "no_callbacks p m"
  using joinedD(2) [OF assms(1)] assms(2,3) by (auto simp: queues_def callbacks_at_def no_callbacks_def)

text \<open>A state and the one of the specification.\<close>

definition stands :: "(int \<Rightarrow> int \<Rightarrow> 32 word option) conf \<Rightarrow> (string, ptr) hand \<Rightarrow> bool" where
  "stands c h \<longleftrightarrow> comes env0 (\<lambda>cmd r. cmd = get_k) 1 1 start0 c \<and> matched env0 (\<lambda>s. s) 1 1 c h \<and> reach (\<lambda>cmd r. cmd = get_k) True h"

lemma stands_good: "stands c h \<Longrightarrow> good (\<lambda>cmd r. cmd = get_k) h"
  by (simp add: stands_def reach_good)

lemma stands_on:
  assumes "stands c h" "can (\<lambda>cmd r. cmd = get_k) True 1 1 a c" "enabled (\<lambda>cmd r. cmd = get_k) True b h"
    "cstep env0 1 1 a c = Some c'" "run b h = Some h'" "matched env0 (\<lambda>s. s) 1 1 c' h'"
  shows "stands c' h'"
  using assms unfolding stands_def by (blast intro: comes.goes_on reach.step)

lemma stands_parts:
  assumes "stands c h"
  obtains ac out where "ms_acs (cf_m c) 1 = Some ac" "joined env0 (\<lambda>s. s) 1 1 ac (ms_st (cf_m c)) h out" "cf_phase c = h_phase h" "cf_lost c = h_lost h"
  using assms unfolding stands_def by (elim conjE matchedE) (rule that)

lemma called0: "\<exists>c q h. stands c h \<and> h_phase h 0 = Waiting get_k q 0 \<and> h_list h = [q] \<and> h_pending h = [] \<and> h_up h \<and> \<not> h_lost h \<and> h_cmd h q = get_k \<and> leaving h = {}"
proof -
  have M: "matched env0 (\<lambda>s. s) 1 1 start0 idle_hand" "env_ok env0 (\<lambda>s. s)" using starts0 by (simp_all add: starts_def)
  have R: "reach ok True idle_hand" for ok :: "string \<Rightarrow> ptr \<Rightarrow> bool" by (rule reach.start) (simp add: fresh_hand_def idle_hand_def)
  have S: "stands start0 idle_hand" using M R by (simp add: stands_def comes.begins)
  have l: "length (wire [''GET'', ''k'']) = 20" by code_simp
  have c: "can (\<lambda>cmd r. cmd = get_k) True 1 1 (Call 0 ''GET'' [''k'']) start0"
    by (simp add: l connected_xc_def start0_def memory0_def get_xc_def wd_def world0_def plain_def base_name_def CR_def)
  from call_ok [OF M(2,1) reach_good [OF R] c] obtain c' q h' where s: "cstep env0 1 1 (Call 0 ''GET'' [''k'']) start0 = Some c'"
    "enabled (\<lambda>cmd r. cmd = get_k) True (Issue 0 get_k q) idle_hand" "run (Issue 0 get_k q) idle_hand = Some h'" "matched env0 (\<lambda>s. s) 1 1 c' h'"
    unfolding get_k_def [symmetric] by blast
  have "h' = set_phase 0 (Waiting get_k q 0) (idle_hand\<lparr>h_cells := (h_cells idle_hand)(q := Some \<lparr>hc_ref = 2, hc_reply = None, hc_sem = 0\<rparr>),
      h_cmd := (h_cmd idle_hand)(q := get_k), h_list := h_list idle_hand @ [q]\<rparr>)" using s(3) by (simp add: idle_hand_def)
  then show ?thesis using stands_on [OF S c s(2,1,3,4)]
    by (intro exI [of _ c'] exI [of _ q] exI [of _ h']) (simp add: mux_simps idle_hand_def leaving_def)
qed

lemma stands_broken:
  assumes S: "stands c h" and up: "h_up h" "\<not> h_lost h"
  shows "\<exists>c'. stands c' (h\<lparr>h_lost := True, h_wire := []\<rparr>)"
proof -
  obtain ac out where A: "ms_acs (cf_m c) 1 = Some ac" "joined env0 (\<lambda>s. s) 1 1 ac (ms_st (cf_m c)) h out" "cf_lost c = h_lost h"
    using S by (rule stands_parts)
  have can: "can (\<lambda>cmd r. cmd = get_k) True 1 1 Break c" using status_up [OF A(2)] up A(3) by (simp add: connected_xc_def)
  have "matched env0 (\<lambda>s. s) 1 1 c h" using S by (simp add: stands_def)
  from break_ok [OF this can] obtain c' h' where "cstep env0 1 1 Break c = Some c'" "enabled (\<lambda>cmd r. cmd = get_k) True Lose h"
    "run Lose h = Some h'" "matched env0 (\<lambda>s. s) 1 1 c' h'" by blast
  from stands_on [OF S can this(2,1,3,4)] this(3) show ?thesis by auto
qed

lemma stands_finished:
  assumes S: "stands c h" and w: "h_phase h t = Waiting cmd q g"
  shows "\<exists>c' h'. stands c' h' \<and> run (Collect t) h = Some h'"
proof -
  have can: "can (\<lambda>cmd r. cmd = get_k) True 1 1 (Finish t) c" using S w matched_phase [of env0 "\<lambda>s. s" 1 1 c h] by (simp add: stands_def)
  have "matched env0 (\<lambda>s. s) 1 1 c h" using S by (simp add: stands_def)
  from finish_ok [OF this stands_good [OF S] w] obtain c' h' where "cstep env0 1 1 (Finish t) c = Some c'" "run (Collect t) h = Some h'"
    "matched env0 (\<lambda>s. s) 1 1 c' h'" by blast
  moreover have "enabled (\<lambda>cmd r. cmd = get_k) True (Collect t) h" using w by simp
  ultimately show ?thesis using stands_on [OF S can] by blast
qed

lemma can_report:
  assumes S: "stands c h" and h: "h_up h" "h_lost h" "h_pending h = []" and calm: "calm \<longrightarrow> leaving h = {}"
  shows "can (\<lambda>cmd r. cmd = get_k) calm 1 1 Report c"
proof -
  obtain ac out where A: "ms_acs (cf_m c) 1 = Some ac" "joined env0 (\<lambda>s. s) 1 1 ac (ms_st (cf_m c)) h out" "cf_phase c = h_phase h" "cf_lost c = h_lost h"
    using S by (rule stands_parts)
  then show ?thesis using status_up [OF A(2)] no_pending [OF A(2,1)] h calm by (auto simp: connected_xc_def leaving_def)
qed



theorem unsent_callers_sleep_witness:
  "\<exists>c c' q. comes env0 (\<lambda>cmd r. cmd = get_k) 1 1 start0 c \<and> cstep env0 1 1 Report c = Some c' \<and> cf_phase c' 0 = Waiting get_k q 0 \<and>
     ci_reply_sem (mw_cis (mw_of (cf_m c')) q) = Some 0"
proof -
  obtain c q h where S: "stands c h" and h: "h_phase h 0 = Waiting get_k q 0" "h_list h = [q]" "h_pending h = []" "h_up h" "\<not> h_lost h"
    "leaving h = {}" using called0 by blast
  obtain c1 where S1: "stands c1 (h\<lparr>h_lost := True, h_wire := []\<rparr>)" (is "stands c1 ?h") using stands_broken [OF S h(4,5)] by blast
  obtain ac out where A: "ms_acs (cf_m c1) 1 = Some ac" "joined env0 (\<lambda>s. s) 1 1 ac (ms_st (cf_m c1)) ?h out" "cf_phase c1 = h_phase ?h"
    using S1 by (rule stands_parts)
  have C: "comes env0 (\<lambda>cmd r. cmd = get_k) 1 1 start0 c1" using S1 by (simp add: stands_def)
  have r: "can (\<lambda>cmd r. cmd = get_k) True 1 1 Report c1" by (rule can_report [OF S1]) (use h in \<open>simp_all add: leaving_def\<close>)
  have "cf_phase c1 0 = Waiting get_k q 0" "q \<in> set (queue_of 1 (cf_m c1))" using A(3) h(1,2) queue_eq [OF A(2,1)] by simp_all
  from unsent_callers_sleep [OF starts0 C r this] show ?thesis using C by blast
qed

theorem late_caller_frees_twice_witness:
  "\<exists>c c' q. comes env0 (\<lambda>cmd r. cmd = get_k) 1 1 start0 c \<and> cf_phase c 0 = Leaving get_k q 0 None \<and> cstep env0 1 1 Report c = Some c' \<and>
     cstep env0 1 1 (Leave 0) c' = None"
proof -
  obtain c q h where S: "stands c h" and h: "h_phase h 0 = Waiting get_k q 0" "h_list h = [q]" "h_pending h = []" "h_up h" "\<not> h_lost h"
    using called0 by blast
  obtain x where x: "h_cells h q = Some x" "hc_ref x = 2" using waiting_cell [OF stands_good [OF S] h(1)] h(2) by (auto simp: queued_def)
  obtain c1 h1 where S1: "stands c1 h1" "run (Collect 0) h = Some h1" using stands_finished [OF S h(1)] by blast
  have h1: "h1 = set_phase 0 (Leaving get_k q 0 (hc_reply x)) (h\<lparr>h_cells := (h_cells h)(q := Some (x\<lparr>hc_ref := hc_ref x - 1\<rparr>))\<rparr>)"
    using S1(2) h(1) x by (simp add: collect_step_def)
  have "h_phase h1 0 = Leaving get_k q 0 (hc_reply x)" by (simp add: h1 mux_simps)
  then have n: "hc_reply x = None" using stands_good [OF S1(1)] unfolding good_def living_def by blast
  have "h_up h1" "\<not> h_lost h1" using h by (simp_all add: h1 mux_simps)
  from stands_broken [OF S1(1) this] obtain c2 where S2: "stands c2 (h1\<lparr>h_lost := True, h_wire := []\<rparr>)" by blast
  then have C: "comes env0 (\<lambda>cmd r. cmd = get_k) 1 1 start0 c2" and ph: "cf_phase c2 0 = Leaving get_k q 0 None"
    using matched_phase [of env0 "\<lambda>s. s" 1 1 c2] n by (auto simp: stands_def h1 mux_simps)
  have r: "can (\<lambda>cmd r. cmd = get_k) False 1 1 Report c2" by (rule can_report [OF S2]) (use h in \<open>simp_all add: h1 mux_simps\<close>)
  from late_caller_frees_twice [OF starts0 C r ph] show ?thesis using C ph by blast
qed

lemma stands_dealt:
  assumes S: "stands c h" and up: "\<not> h_lost h"
  shows "\<exists>c' k. stands c' (taken k h) \<and> (h_list h \<noteq> [] \<longrightarrow> 0 < k)"
proof -
  obtain ac out where A: "cf_lost c = h_lost h" using S by (rule stands_parts)
  have can: "can (\<lambda>cmd r. cmd = get_k) True 1 1 Deal c" using A up by simp
  have s: "comes env0 (\<lambda>cmd r. cmd = get_k) 1 1 start0 c" "matched env0 (\<lambda>s. s) 1 1 c h" "reach (\<lambda>cmd r. cmd = get_k) True h"
    using S by (simp_all add: stands_def)
  have "env_ok env0 (\<lambda>s. s)" using starts0 by (simp add: starts_def)
  from deal_ok [OF this s(2,3) can] show ?thesis using comes.goes_on [OF s(1) can] unfolding stands_def by blast
qed

lemma stands_drained:
  assumes S: "stands c h" and h: "h_up h" "h_lost h" "h_pending h \<noteq> []"
  shows "\<exists>c' h'. stands c' h' \<and> run Hang_up h = Some h'"
proof -
  obtain ac out where A: "ms_acs (cf_m c) 1 = Some ac" "joined env0 (\<lambda>s. s) 1 1 ac (ms_st (cf_m c)) h out" "cf_lost c = h_lost h"
    using S by (rule stands_parts)
  have can: "can (\<lambda>cmd r. cmd = get_k) True 1 1 Drain c"
    using status_up [OF A(2)] A(3) h pending_empty [OF A(2,1)] by (auto simp: connected_xc_def)
  have "matched env0 (\<lambda>s. s) 1 1 c h" using S by (simp add: stands_def)
  from drain_ok [OF this stands_good [OF S] can] stands_on [OF S can] show ?thesis by blast
qed

theorem callers_woken_witness:
  "\<exists>c q c' r. comes env0 (\<lambda>cmd r. cmd = get_k) 1 1 start0 c \<and> cf_phase c 0 = Waiting get_k q 0 \<and>
     ci_reply_sem (mw_cis (mw_of (cf_m c)) q) = Some 1 \<and> cstep env0 1 1 (Finish 0) c = Some c' \<and> cf_phase c' 0 = Done get_k r"
proof -
  obtain c q h where S: "stands c h" and h: "h_phase h 0 = Waiting get_k q 0" "h_list h = [q]" "h_pending h = []" "h_up h" "\<not> h_lost h"
    using called0 by blast
  obtain c1 k where S1: "stands c1 (taken k h)" "0 < k" using stands_dealt [OF S h(5)] h(2) by auto
  have h1: "h_phase (taken k h) = h_phase h" "h_list (taken k h) = []" "h_pending (taken k h) = [q]" "h_up (taken k h)" "\<not> h_lost (taken k h)"
    using h S1(2) by (cases k; simp add: taken_def)+
  obtain c2 where S2: "stands c2 ((taken k h)\<lparr>h_lost := True, h_wire := []\<rparr>)" (is "stands c2 ?h2") using stands_broken [OF S1(1) h1(4,5)] by blast
  obtain c3 h3 where S3: "stands c3 h3" "reply_to q None (?h2\<lparr>h_pending := []\<rparr>) = Some h3" using stands_drained [OF S2] h1 by auto
  have h3: "h_phase h3 = h_phase h" "h_list h3 = []" "h_pending h3 = []" "h_up h3" using reply_to_sel [OF S3(2)] h1 by simp_all
  obtain ac out where A: "ms_acs (cf_m c3) 1 = Some ac" "joined env0 (\<lambda>s. s) 1 1 ac (ms_st (cf_m c3)) h3 out" "cf_phase c3 = h_phase h3"
    using S3(1) by (rule stands_parts)
  have C: "comes env0 (\<lambda>cmd r. cmd = get_k) 1 1 start0 c3" using S3(1) by (simp add: stands_def)
  have "connected_xc 1 (cf_m c3)" using status_up [OF A(2)] h3(4) by (simp add: connected_xc_def)
  moreover have "listed 1 (cf_m c3) = []" using listed_eq [of env0 "\<lambda>s. s" 1 1 ac "cf_m c3" h3 out] A(1,2) h3(2) by (simp add: joined_def)
  moreover have "no_callbacks 1 (cf_m c3)" by (rule no_pending [OF A(2,1) h3(3)])
  moreover have "cf_phase c3 0 = Waiting get_k q 0" using A(3) h3(1) h(1) by simp
  ultimately show ?thesis using callers_woken [OF starts0 C] C by blast
qed

section \<open>The end of the client\<close>

text \<open>The world after an operation on the loop or on a list.\<close>

lemma on_loop_keeps:
  "on_loop f m = Some m' \<Longrightarrow> mw_held (mw_of m') = mw_held (mw_of m) \<and> the_client m' = the_client m \<and> as_lists (ms_st m') = as_lists (ms_st m)"
  by (auto simp: on_loop_def mw_of_def the_client_def client_of_def mux_simps split: bind_split_asm)

lemma lock_keeps:
  "on_st (lock x) m = Some m' \<Longrightarrow> mw_held (mw_of m') = insert x (mw_held (mw_of m)) \<and> the_client m' = the_client m \<and> as_lists (ms_st m') = as_lists (ms_st m)"
  by (auto simp: on_st_def lock_def mw_of_def the_client_def client_of_def mux_simps split: bind_split_asm if_splits)

lemma unlock_keeps: "on_st (unlock x) m = Some m' \<Longrightarrow> mw_held (mw_of m') = mw_held (mw_of m) - {x}"
  by (auto simp: on_st_def unlock_def mw_of_def mux_simps split: bind_split_asm if_splits)

lemma clear_none:
  assumes "lh_lists (as_lists (ms_st m)) l = Some L" "al_head L = NULL" "clear_list (clear_reconn en) l m = Some m'"
  shows "mw_held (mw_of m') = mw_held (mw_of m)"
proof -
  have "clear_reconn en l NULL m = Some m" by (simp add: clear_reconn.simps)
  then show ?thesis using assms
    by (auto simp: clear_list_def on_lists_def on_st_def mw_of_def mux_simps split: if_splits bind_split_asm)
qed

text \<open>
  C36. Clearing the client with its mutex locked, as the loop thread does when it ends
  and as the initialisation does when a thread cannot be created, never returns: \<^verbatim>\<open>clearClient\<close> locks the same
  mutex again.
\<close>

theorem clearClient_locks_twice:
  assumes L: "on_st (lock ClientMutex) m = Some m'"
    and R: "lh_lists (as_lists (ms_st m)) (rc_reconn_list (the_client m)) = Some H" "al_head H = NULL"
  shows "clearClient en m' = None"
proof (rule ccontr)
  note K = lock_keeps [OF L]
  assume "clearClient en m' \<noteq> None"
  then obtain m1 m2 m3 m4 m5 where s: "on_loop (aeDeleteEventLoop (en_epoll en)) m' = Some m1" "on_st (lock ReconnMutex) m1 = Some m2"
    "clear_list (clear_reconn en) (rc_reconn_list (the_client m2)) m2 = Some m3"
    "on_st (unlock ReconnMutex) (set_client (\<lambda>c. c\<lparr>rc_reconn_list := NULL\<rparr>) m3) = Some m4"
    "on_st (lock ClientMutex) m4 = Some m5"
    by (auto simp: clearClient_def split: bind_split_asm)
  note k1 = on_loop_keeps [OF s(1)] and k2 = lock_keeps [OF s(2)] and k4 = unlock_keeps [OF s(4)]
  have "mw_held (mw_of m3) = mw_held (mw_of m2)" by (rule clear_none [OF _ R(2) s(3)]) (use K k1 k2 R(1) in simp)
  moreover have "mw_held (mw_of (set_client f m)) = mw_held (mw_of m)" for f and m :: "'a mst"
    by (simp add: set_client_def upd_client_def mw_of_def mux_simps)
  ultimately have "ClientMutex \<in> mw_held (mw_of m4)" using K k1 k2 k4 by auto
  then show False using s(5) by (auto simp: on_st_def lock_def mw_of_def split: bind_split_asm if_splits)
qed

theorem clearClient_locks_twice_witness:
  "\<exists>m'. on_st (lock ClientMutex) memory0 = Some m' \<and> clearClient env0 m' = None"
proof -
  define m' where "m' = memory0\<lparr>ms_st := upd_wd (\<lambda>w. w\<lparr>mw_held := insert ClientMutex (mw_held w)\<rparr>) (ms_st memory0)\<rparr>"
  have "on_st (lock ClientMutex) memory0 = Some m'"
    by (simp add: m'_def on_st_def lock_def has_mutex_def memory0_def wd_def world0_def)
  moreover have "lh_lists (as_lists (ms_st memory0)) (rc_reconn_list (the_client memory0)) = Some hdr0" "al_head hdr0 = NULL"
    by (simp_all add: memory0_def the_client_def client_of_def wd_def world0_def hdr0_def)
  ultimately show ?thesis using clearClient_locks_twice [of memory0 m' hdr0 env0] by blast
qed

end
