(* ===== verification/BlockQueue.thy ===== *)
theory BlockQueue
  imports Fifo Context "HOL-Library.Signed_Division"
begin

text \<open>
  The bounded queue between threads of block_queue.h: a ring buffer under one mutex. Every
  operation holds the mutex from its first to its last access, except where it waits; what the other
  threads do meanwhile is an argument. \<open>None\<close> is an access outside the array.
\<close>

section \<open>The queue\<close>

record 'v block_queue =
  bq_array :: "'v list"
  bq_size :: int
  bq_max_size :: int
  bq_front :: int
  bq_back :: int

text \<open>An element of the array, and storing one.\<close>

definition bq_get :: "int \<Rightarrow> 'v block_queue \<Rightarrow> 'v option" where
  "bq_get i q = (if 0 \<le> i \<and> i < int (length (bq_array q)) then Some (bq_array q ! nat i) else None)"

definition bq_put :: "int \<Rightarrow> 'v \<Rightarrow> 'v block_queue \<Rightarrow> 'v block_queue option" where
  "bq_put i v q =
     (if 0 \<le> i \<and> i < int (length (bq_array q)) then Some (q\<lparr>bq_array := (bq_array q)[nat i := v]\<rparr>) else None)"

text \<open>The constructor, with the elements the new array has; it exits the program for a size that is not positive.\<close>

definition bq_new :: "int \<Rightarrow> (nat \<Rightarrow> 'v) \<Rightarrow> 'v block_queue option" where
  "bq_new max_size junk =
     (if max_size \<le> 0 then None
      else Some \<lparr>bq_array = map junk [0..<nat max_size], bq_size = 0, bq_max_size = max_size, bq_front = - 1, bq_back = - 1\<rparr>)"

definition bq_clear :: "'v block_queue \<Rightarrow> 'v block_queue" where
  "bq_clear q = q\<lparr>bq_size := 0, bq_front := - 1, bq_back := - 1\<rparr>"

definition bq_full :: "'v block_queue \<Rightarrow> bool" where
  "bq_full q = (bq_max_size q \<le> bq_size q)"

definition bq_empty :: "'v block_queue \<Rightarrow> bool" where
  "bq_empty q = (bq_size q = 0)"

text \<open>\<^verbatim>\<open>front\<close> and \<^verbatim>\<open>back\<close>: the answer and the value when there is one.\<close>

definition bq_first :: "'v block_queue \<Rightarrow> (bool \<times> 'v option) option" where
  "bq_first q =
     (if bq_size q = 0 then Some (False, None) else do { v \<leftarrow> bq_get (bq_front q) q; Some (True, Some v) })"

definition bq_last :: "'v block_queue \<Rightarrow> (bool \<times> 'v option) option" where
  "bq_last q =
     (if bq_size q = 0 then Some (False, None) else do { v \<leftarrow> bq_get (bq_back q) q; Some (True, Some v) })"

text \<open>\<^verbatim>\<open>push\<close>; \<^verbatim>\<open>%\<close> of C rounds towards zero.\<close>

definition bq_push :: "'v \<Rightarrow> 'v block_queue \<Rightarrow> (bool \<times> 'v block_queue) option" where
  "bq_push v q =
     (if bq_max_size q \<le> bq_size q then Some (False, q)
      else do {
        let q = q\<lparr>bq_back := (bq_back q + 1) smod bq_max_size q\<rparr>;
        q \<leftarrow> bq_put (bq_back q) v q;
        Some (True, q\<lparr>bq_size := bq_size q + 1\<rparr>)
      })"

text \<open>Taking the first element out, the last part of both \<^verbatim>\<open>pop\<close>.\<close>

definition bq_take :: "'v block_queue \<Rightarrow> ('v \<times> 'v block_queue) option" where
  "bq_take q =
     do {
       let q = q\<lparr>bq_front := (bq_front q + 1) smod bq_max_size q\<rparr>;
       v \<leftarrow> bq_get (bq_front q) q;
       Some (v, q\<lparr>bq_size := bq_size q - 1\<rparr>)
     }"

text \<open>
  \<^verbatim>\<open>pop\<close> without and with a timeout. \<open>wait\<close> is \<^verbatim>\<open>pthread_cond_wait\<close>, \<open>timedwait\<close> with a deadline; they give the
  result and the queue as the other threads leave it.
\<close>

partial_function (option) bq_pop ::
    "('w \<Rightarrow> 'v block_queue \<Rightarrow> int \<times> 'w \<times> 'v block_queue) \<Rightarrow> 'w \<Rightarrow> 'v block_queue \<Rightarrow> ('v option \<times> 'w \<times> 'v block_queue) option" where
  "bq_pop wait w q =
     (if bq_size q \<le> 0
      then (case wait w q of (rc, w, q) \<Rightarrow> if rc \<noteq> 0 then Some (None, w, q) else bq_pop wait w q)
      else do { (v, q) \<leftarrow> bq_take q; Some (Some v, w, q) })"

text \<open>The deadline of a timeout in milliseconds: seconds and nanoseconds.\<close>

definition bq_deadline :: "timeval \<Rightarrow> int \<Rightarrow> int \<times> int" where
  "bq_deadline now ms_timeout = (tv_sec now + ms_timeout sdiv 1000, ms_timeout smod 1000 * 1000)"

definition bq_pop_timed ::
    "timeval \<Rightarrow> int \<Rightarrow> (int \<times> int \<Rightarrow> 'w \<Rightarrow> 'v block_queue \<Rightarrow> int \<times> 'w \<times> 'v block_queue) \<Rightarrow> 'w \<Rightarrow> 'v block_queue \<Rightarrow>
      ('v option \<times> 'w \<times> 'v block_queue) option" where
  "bq_pop_timed now ms_timeout timedwait w q =
     (let (rc, w, q) = (if bq_size q \<le> 0 then timedwait (bq_deadline now ms_timeout) w q else (0, w, q))
      in if rc \<noteq> 0 then Some (None, w, q)
         else if bq_size q \<le> 0 then Some (None, w, q)
         else do { (v, q) \<leftarrow> bq_take q; Some (Some v, w, q) })"

section \<open>The ring\<close>

text \<open>
  The elements are those behind \<^verbatim>\<open>m_front\<close>, up to \<^verbatim>\<open>m_back\<close>; both are \<open>- 1\<close> before the first element.
\<close>

definition slot :: "'v block_queue \<Rightarrow> nat \<Rightarrow> nat" where
  "slot q i = nat ((bq_front q + 1 + int i) mod bq_max_size q)"

definition ring :: "'v block_queue \<Rightarrow> int \<Rightarrow> 'v list \<Rightarrow> bool" where
  "ring q n xs \<longleftrightarrow>
     0 < n \<and> bq_max_size q = n \<and> length (bq_array q) = nat n \<and> bq_size q = int (length xs) \<and> int (length xs) \<le> n \<and>
     - 1 \<le> bq_front q \<and> bq_front q < n \<and> - 1 \<le> bq_back q \<and> bq_back q < n \<and> (bq_back q + 1) mod n = (bq_front q + 1 + int (length xs)) mod n \<and>
     (\<forall>i < length xs. bq_array q ! slot q i = xs ! i)"

lemma smod_next: "- 1 \<le> i \<Longrightarrow> 0 < n \<Longrightarrow> (i + 1) smod n = (i + 1) mod (n :: int)"
  by (simp add: signed_modulo_int_def sgn_if)

lemma ring_new: "bq_new n junk = Some q \<Longrightarrow> ring q n []"
  by (auto simp: bq_new_def ring_def split: if_splits)

lemma ring_clear: "ring q n xs \<Longrightarrow> ring (bq_clear q) n []"
  by (simp add: bq_clear_def ring_def)

lemma ring_push:
  assumes "ring q n xs"
  shows "\<exists>q'. bq_push v q = Some (int (length xs) < n, q') \<and> ring q' n (if int (length xs) < n then xs @ [v] else xs)"
proof (cases "int (length xs) < n")
  case False
  then show ?thesis using assms by (auto simp: bq_push_def ring_def)
next
  case True
  define b where "b = (bq_back q + 1) mod n"
  have R: "0 < n" "bq_max_size q = n" "length (bq_array q) = nat n" "bq_size q = int (length xs)" "- 1 \<le> bq_back q" "- 1 \<le> bq_front q"
    "b = (bq_front q + 1 + int (length xs)) mod n" "bq_front q < n" "\<forall>i < length xs. bq_array q ! slot q i = xs ! i"
    using assms by (simp_all add: ring_def b_def)
  have b: "0 \<le> b" "b < n" using R(1) by (simp_all add: b_def)
  define q' where "q' = q\<lparr>bq_back := b, bq_array := (bq_array q)[nat b := v], bq_size := int (length xs) + 1\<rparr>"
  have "bq_push v q = Some (True, q')"
    using True R(1-4) b smod_next [OF R(5,1)] by (simp add: bq_push_def bq_put_def q'_def b_def)
  moreover have "ring q' n (xs @ [v])"
  proof -
    have s: "slot q' i = slot q i" for i by (simp add: slot_def q'_def)
    have sb: "slot q (length xs) = nat b" using R(2,7) by (simp add: slot_def)
    have ne: "slot q i \<noteq> nat b" if "i < length xs" for i
    proof
      assume "slot q i = nat b"
      moreover have "0 \<le> (bq_front q + 1 + int i) mod n" using R(1) by simp
      ultimately have "(bq_front q + 1 + int i) mod n = (bq_front q + 1 + int (length xs)) mod n"
        using b(1) R(2,7) by (simp add: slot_def nat_eq_iff2)
      then have "n dvd int (length xs) - int i" by (metis add_diff_cancel_left mod_eq_dvd_iff)
      moreover have "0 < int (length xs) - int i" "int (length xs) - int i < n" using that True by simp_all
      ultimately show False by (meson zdvd_not_zless)
    qed
    have "bq_array q' ! slot q' i = (xs @ [v]) ! i" if "i < length (xs @ [v])" for i
    proof (cases "i = length xs")
      case True
      then show ?thesis unfolding s using sb b R(3) by (simp add: q'_def)
    next
      case False
      then have i: "i < length xs" using that by simp
      then show ?thesis unfolding s using ne [OF i, symmetric] R(9) by (simp add: q'_def nth_append)
    qed
    moreover have "(b + 1) mod n = (bq_front q + 1 + int (length (xs @ [v]))) mod n"
      unfolding R(7) by (simp add: mod_simps add.assoc)
    ultimately show ?thesis using R(1-6,8) True b by (simp add: ring_def q'_def)
  qed
  ultimately show ?thesis using True by auto
qed

lemma ring_take:
  assumes "ring q n (x # xs)"
  shows "\<exists>q'. bq_take q = Some (x, q') \<and> ring q' n xs \<and> 0 \<le> bq_front q' \<and> bq_array q' ! nat (bq_front q') = x"
proof -
  define f where "f = (bq_front q + 1) mod n"
  have R: "0 < n" "bq_max_size q = n" "length (bq_array q) = nat n" "bq_size q = int (length xs) + 1" "int (length xs) + 1 \<le> n" "- 1 \<le> bq_front q"
    "(bq_back q + 1) mod n = (bq_front q + 1 + (int (length xs) + 1)) mod n" "- 1 \<le> bq_back q" "bq_back q < n"
    using assms by (auto simp: ring_def)
  have A: "bq_array q ! slot q i = (x # xs) ! i" if "i < length (x # xs)" for i using assms that unfolding ring_def by blast
  have f: "0 \<le> f" "f < n" using R(1) by (simp_all add: f_def)
  define q' where "q' = q\<lparr>bq_front := f, bq_size := int (length xs)\<rparr>"
  have x: "bq_array q ! nat f = x" using A [of 0] R(2) by (simp add: slot_def f_def)
  have "bq_take q = Some (x, q')"
    using R(2-4) f x smod_next [OF R(6,1)] by (simp add: bq_take_def bq_get_def q'_def f_def)
  moreover have "ring q' n xs"
  proof -
    have "(f + 1 + int i) mod n = (bq_front q + 1 + int (Suc i)) mod n" for i
    proof -
      have "(f + 1 + int i) mod n = (f + (1 + int i)) mod n" by (simp add: add.assoc)
      also have "\<dots> = (bq_front q + 1 + (1 + int i)) mod n" unfolding f_def by (simp only: mod_add_left_eq)
      finally show ?thesis by (simp add: add.assoc)
    qed
    note step = this
    have s: "slot q' i = slot q (Suc i)" for i using R(2) step by (simp add: slot_def q'_def)
    have e: "(bq_back q + 1) mod n = (f + 1 + int (length xs)) mod n" unfolding step R(7) by simp
    have "bq_array q' ! slot q' i = xs ! i" if "i < length xs" for i using A [of "Suc i"] that unfolding s by (simp add: q'_def)
    then show ?thesis using R f e by (simp add: ring_def q'_def)
  qed
  ultimately show ?thesis using f x by (simp add: q'_def)
qed

section \<open>Sequences of operations\<close>

datatype 'v bop = B_push 'v | B_pop | B_size | B_full | B_clear

datatype 'v bres = Says bool | Gives "'v option" | Counts int | Nothing

text \<open>A \<^verbatim>\<open>pop\<close> that may wait for no time returns nothing from an empty queue.\<close>

fun bq_do :: "timeval \<Rightarrow> 'v bop \<Rightarrow> 'v block_queue \<Rightarrow> ('v bres \<times> 'v block_queue) option" where
  "bq_do now (B_push v) q = do { (b, q) \<leftarrow> bq_push v q; Some (Says b, q) }"
| "bq_do now B_pop q = do { (v, _, q) \<leftarrow> bq_pop_timed now 0 (\<lambda>_ w q. (110, w, q)) () q; Some (Gives v, q) }"
| "bq_do now B_size q = Some (Counts (bq_size q), q)"
| "bq_do now B_full q = Some (Says (bq_full q), q)"
| "bq_do now B_clear q = Some (Nothing, bq_clear q)"

fun bq_run :: "timeval \<Rightarrow> 'v bop list \<Rightarrow> 'v block_queue \<Rightarrow> ('v bres list \<times> 'v block_queue) option" where
  "bq_run now [] q = Some ([], q)"
| "bq_run now (a # as) q = do { (r, q) \<leftarrow> bq_do now a q; (rs, q) \<leftarrow> bq_run now as q; Some (r # rs, q) }"

text \<open>The same on a list of at most \<open>n\<close> values.\<close>

fun list_do :: "int \<Rightarrow> 'v bop \<Rightarrow> 'v list \<Rightarrow> 'v bres \<times> 'v list" where
  "list_do n (B_push v) xs = (Says (int (length xs) < n), if int (length xs) < n then xs @ [v] else xs)"
| "list_do n B_pop xs = (Gives (case xs of [] \<Rightarrow> None | x # _ \<Rightarrow> Some x), tl xs)"
| "list_do n B_size xs = (Counts (int (length xs)), xs)"
| "list_do n B_full xs = (Says (n \<le> int (length xs)), xs)"
| "list_do n B_clear xs = (Nothing, [])"

fun list_run :: "int \<Rightarrow> 'v bop list \<Rightarrow> 'v list \<Rightarrow> 'v bres list \<times> 'v list" where
  "list_run n [] xs = ([], xs)"
| "list_run n (a # as) xs = (let (r, xs) = list_do n a xs; (rs, xs) = list_run n as xs in (r # rs, xs))"

lemma bq_do_ok:
  assumes "ring q n xs"
  shows "\<exists>q'. bq_do now a q = Some (fst (list_do n a xs), q') \<and> ring q' n (snd (list_do n a xs))"
proof (cases a)
  case (B_push v)
  then show ?thesis using ring_push [OF assms, of v] by auto
next
  case B_pop
  show ?thesis
  proof (cases xs)
    case Nil
    then show ?thesis using assms by (simp add: B_pop bq_pop_timed_def ring_def)
  next
    case (Cons x ys)
    then have "bq_size q > 0" using assms by (simp add: ring_def)
    then show ?thesis using ring_take [OF assms [unfolded Cons]] by (auto simp: B_pop Cons bq_pop_timed_def)
  qed
next
  case B_clear
  then show ?thesis using ring_clear [OF assms] by simp
qed (use assms in \<open>simp_all add: ring_def bq_full_def\<close>)

lemma bq_run_ok:
  "ring q n xs \<Longrightarrow> \<exists>q'. bq_run now as q = Some (fst (list_run n as xs), q') \<and> ring q' n (snd (list_run n as xs))"
proof (induction as arbitrary: q xs)
  case (Cons a as)
  from bq_do_ok [OF Cons.prems, of now a] obtain q1 where
    1: "bq_do now a q = Some (fst (list_do n a xs), q1)" "ring q1 n (snd (list_do n a xs))" by blast
  from Cons.IH [OF 1(2)] 1(1) show ?case by (auto simp: case_prod_beta)
qed simp

text \<open>
  C40. The ring buffer is a bounded first-in first-out queue: any sequence of pushes, pops,
  questions and clears on a new queue gives the answers of a list of at most \<^verbatim>\<open>max_size\<close> values.
\<close>

theorem block_queue_fifo:
  assumes "bq_new n junk = Some q"
  shows "\<exists>q'. bq_run now as q = Some (fst (list_run n as []), q')"
  using bq_run_ok [OF ring_new [OF assms]] by blast

theorem block_queue_fifo_witness:
  "\<exists>q'. bq_run \<lparr>tv_sec = 7, tv_usec = 0\<rparr> [B_push 1, B_push 2, B_push 3, B_pop, B_push (4 :: nat), B_size, B_pop, B_pop, B_pop]
      (the (bq_new 2 (\<lambda>_. 9))) =
    Some ([Says True, Says True, Says False, Gives (Some 1), Says True, Counts 2, Gives (Some 2), Gives (Some 4), Gives None], q')"
  using block_queue_fifo [of 2 "\<lambda>_. 9 :: nat" "the (bq_new 2 (\<lambda>_. 9))" "\<lparr>tv_sec = 7, tv_usec = 0\<rparr>"
    "[B_push 1, B_push 2, B_push 3, B_pop, B_push 4, B_size, B_pop, B_pop, B_pop]"] by (simp add: bq_new_def)

text \<open>
  \<^verbatim>\<open>front\<close> does not give the first element but the one taken out last; before the
  first \<^verbatim>\<open>pop\<close> it reads in front of the array.
\<close>

theorem front_is_gone:
  assumes "ring q n (x # y # xs)"
  shows "(\<exists>q'. bq_take q = Some (x, q') \<and> bq_first q' = Some (True, Some x)) \<and> (bq_front q = - 1 \<longrightarrow> bq_first q = None)"
proof -
  obtain q' where q': "bq_take q = Some (x, q')" "ring q' n (y # xs)" "0 \<le> bq_front q'" "bq_array q' ! nat (bq_front q') = x"
    using ring_take [OF assms] by blast
  have "bq_front q' < n" "length (bq_array q') = nat n" "bq_size q' \<noteq> 0" using q'(2) by (auto simp: ring_def)
  then have "bq_first q' = Some (True, Some x)" using q'(3,4) by (simp add: bq_first_def bq_get_def)
  moreover have "bq_size q \<noteq> 0" using assms by (auto simp: ring_def)
  ultimately show ?thesis using q'(1) by (simp add: bq_first_def bq_get_def)
qed

theorem front_is_gone_witness:
  "\<exists>q q'. bq_run \<lparr>tv_sec = 7, tv_usec = 0\<rparr> [B_push 1, B_push (2 :: nat)] (the (bq_new 2 (\<lambda>_. 9))) = Some ([Says True, Says True], q) \<and>
     bq_first q = None \<and> bq_take q = Some (1, q') \<and> bq_first q' = Some (True, Some 1)"
proof -
  have "ring (the (bq_new 2 (\<lambda>_. 9 :: nat))) 2 []" by (rule ring_new [of _ "\<lambda>_. 9"]) (simp add: bq_new_def)
  from bq_run_ok [OF this, of "\<lparr>tv_sec = 7, tv_usec = 0\<rparr>" "[B_push 1, B_push (2 :: nat)]"] obtain q where
    q: "bq_run \<lparr>tv_sec = 7, tv_usec = 0\<rparr> [B_push 1, B_push (2 :: nat)] (the (bq_new 2 (\<lambda>_. 9))) = Some ([Says True, Says True], q)" "ring q 2 [1, 2]"
    by auto
  have "bq_front q = - 1" using q(1) by (auto simp: bq_new_def bq_push_def bq_put_def Let_def split: if_splits)
  then show ?thesis using q front_is_gone [OF q(2)] by auto
qed

text \<open>
  A \<^verbatim>\<open>pop\<close> that may wait less than a second waits until a time that is over when the
  microseconds of the clock are not fewer than its milliseconds: the timeout is added to the whole seconds
  only, in units of a microsecond instead of a millisecond.
\<close>

theorem timed_pop_deadline_over:
  assumes "0 \<le> ms" "ms < 1000" "ms \<le> tv_usec now"
  shows "fst (bq_deadline now ms) = tv_sec now \<and> snd (bq_deadline now ms) \<le> tv_usec now * 1000"
proof -
  have "ms sdiv 1000 = 0" "ms smod 1000 = ms"
    using assms(1,2) by (simp_all add: signed_divide_int_def signed_modulo_int_def sgn_if)
  then show ?thesis using assms(3) by (simp add: bq_deadline_def)
qed

theorem timed_pop_deadline_over_witness:
  "fst (bq_deadline \<lparr>tv_sec = 7, tv_usec = 900\<rparr> 900) = 7 \<and> snd (bq_deadline \<lparr>tv_sec = 7, tv_usec = 900\<rparr> 900) \<le> 900 * 1000"
  using timed_pop_deadline_over [of 900 "\<lparr>tv_sec = 7, tv_usec = 900\<rparr>"] by simp

end
