(* ===== verification/SdsSplit.thy ===== *)
theory SdsSplit
  imports Printf Format "HOL-Library.Sublist"
begin

text \<open>
  Splitting, joining, quoting and translating strings: the rest of sds.c. Pointers to strings
  are options, NULL is \<open>None\<close>; the outer \<open>None\<close> of a result is a fault.
\<close>

section \<open>Splitting at a separator\<close>

text \<open>\<^verbatim>\<open>memcmp(s + j, sep, n) == 0\<close>, inside the two blocks.\<close>

definition same_at :: "char list \<Rightarrow> nat \<Rightarrow> char list \<Rightarrow> nat \<Rightarrow> bool option" where
  "same_at s j sep n =
     (if j + n \<le> length s \<and> n \<le> length sep then Some (take n (drop j s) = take n sep) else None)"

text \<open>
  The loop and the final element: the tokens, or NULL after freeing what was made, and \<^verbatim>\<open>*count\<close>.
\<close>

definition split_last :: "allocator \<Rightarrow> char list \<Rightarrow> int \<Rightarrow> int \<Rightarrow> sds list \<Rightarrow> sds list option \<times> int" where
  "split_last A s len start tokens =
     (case sdsnewlen A (Some (drop (nat start) s)) (nat (len - start)) of
        None \<Rightarrow> (None, 0)
      | Some t \<Rightarrow> (Some (tokens @ [t]), int (length tokens) + 1))"

function split_loop ::
    "allocator \<Rightarrow> char list \<Rightarrow> int \<Rightarrow> char list \<Rightarrow> int \<Rightarrow> int \<Rightarrow> int \<Rightarrow> nat \<Rightarrow> sds list \<Rightarrow> (sds list option \<times> int) option" where
  "split_loop A s len sep seplen j start slots tokens =
     (if j < len - (seplen - 1)
      then (let grow = (slots < length tokens + 2); slots = (if grow then slots * 2 else slots)
            in if grow \<and> \<not> serves A (8 * slots) then Some (None, 0)
               else do {
                 hit \<leftarrow> same_at s (nat j) sep (nat seplen);
                 if hit
                 then case sdsnewlen A (Some (drop (nat start) s)) (nat (j - start)) of
                        None \<Rightarrow> Some (None, 0)
                      | Some t \<Rightarrow>
                          if seplen < 1 then None
                          else split_loop A s len sep seplen (j + seplen - 1 + 1) (j + seplen) slots (tokens @ [t])
                 else split_loop A s len sep seplen (j + 1) start slots tokens
               })
      else Some (split_last A s len start tokens))"
  by pat_completeness auto
termination
  by (relation "measure (\<lambda>(A, s, len, sep, seplen, j, start, slots, tokens). nat (len - (seplen - 1) - j))") auto

declare split_loop.simps [simp del]

text \<open>\<open>count\<close> is the value of \<^verbatim>\<open>*count\<close> before the call, which two of the returns leave alone.\<close>

definition sdssplitlen :: "allocator \<Rightarrow> char list \<Rightarrow> int \<Rightarrow> char list \<Rightarrow> int \<Rightarrow> int \<Rightarrow> (sds list option \<times> int) option" where
  "sdssplitlen A s len sep seplen count =
     (if seplen < 1 \<or> len < 0 then Some (None, count)
      else if \<not> serves A (8 * 5) then Some (None, count)
      else if len = 0 then Some (Some [], 0)
      else split_loop A s len sep seplen 0 0 5 [])"

section \<open>Joining\<close>

text \<open>\<open>j\<close> counts up to \<^verbatim>\<open>argc\<close>; a refused append makes the next one a fault, and the last one NULL.\<close>

definition cat_to :: "(sds \<Rightarrow> sds option) \<Rightarrow> sds option \<Rightarrow> sds option option" where
  "cat_to f s = (case s of None \<Rightarrow> None | Some s \<Rightarrow> Some (f s))"

fun join_loop :: "('a \<Rightarrow> sds \<Rightarrow> sds option) \<Rightarrow> (sds \<Rightarrow> sds option) \<Rightarrow> 'a list \<Rightarrow> sds option \<Rightarrow> sds option option" where
  "join_loop add add_sep [] join = Some join"
| "join_loop add add_sep (a # as) join =
     do {
       join \<leftarrow> cat_to (add a) join;
       join \<leftarrow> (if as \<noteq> [] then cat_to add_sep join else Some join);
       join_loop add add_sep as join
     }"

definition sdsjoin :: "allocator \<Rightarrow> char list list \<Rightarrow> nat \<Rightarrow> char list \<Rightarrow> sds option option" where
  "sdsjoin A argv argc sep =
     join_loop (\<lambda>a s. sdscat A s a) (\<lambda>s. sdscat A s sep) (take argc argv) (sdsempty A)"

definition sdsjoinsds :: "allocator \<Rightarrow> sds list \<Rightarrow> nat \<Rightarrow> char list \<Rightarrow> nat \<Rightarrow> sds option option" where
  "sdsjoinsds A argv argc sep seplen =
     join_loop (\<lambda>a s. sdscatsds A s a) (\<lambda>s. sdscatlen A s sep seplen) (take argc argv) (sdsempty A)"

section \<open>Translating characters\<close>

text \<open>The inner loop: the first \<open>i\<close> with \<^verbatim>\<open>from[i]\<close> equal to the byte.\<close>

fun map_char :: "char list \<Rightarrow> char list \<Rightarrow> nat \<Rightarrow> char \<Rightarrow> char" where
  "map_char (f # from) (t # to) (Suc n) c = (if c = f then t else map_char from to n c)"
| "map_char _ _ _ c = c"

fun map_loop :: "char list \<Rightarrow> char list \<Rightarrow> nat \<Rightarrow> nat \<Rightarrow> nat \<Rightarrow> char list \<Rightarrow> char list" where
  "map_loop from to setlen j 0 s = s"
| "map_loop from to setlen j (Suc n) s =
     map_loop from to setlen (j + 1) n (mem_set1 j (map_char from to setlen (s ! j)) s)"

definition sdsmapchars :: "sds \<Rightarrow> char list \<Rightarrow> char list \<Rightarrow> nat \<Rightarrow> sds" where
  "sdsmapchars s from to setlen = s\<lparr>buf := map_loop from to setlen 0 (sdslen s) (buf s)\<rparr>"

section \<open>Quoting\<close>

definition BEL :: char where "BEL = CHR 0x07"
definition BS :: char where "BS = CHR 0x08"
definition TAB :: char where "TAB = CHR 0x09"
definition QUOTE :: char where "QUOTE = CHR 0x22"
definition APOS :: char where "APOS = CHR 0x27"
definition BACKSLASH :: char where "BACKSLASH = CHR 0x5C"

lemmas quote_chars = BEL_def BS_def TAB_def QUOTE_def APOS_def BACKSLASH_def CR_def LF_def NUL_def

text \<open>\<^verbatim>\<open>sdscatprintf\<close> with one byte; no conversion of it prints a floating point number.\<close>

definition cat_fmt :: "allocator \<Rightarrow> string \<Rightarrow> int \<Rightarrow> sds option \<Rightarrow> sds option option" where
  "cat_fmt A fmt v s = (case s of None \<Rightarrow> None | Some s \<Rightarrow> sdscatprintf A (\<lambda>_ (_ :: unit). []) s fmt [VInt v])"

definition cat_bytes :: "allocator \<Rightarrow> string \<Rightarrow> sds option \<Rightarrow> sds option option" where
  "cat_bytes A t = cat_to (\<lambda>s. sdscatlen A s (t @ [NUL]) (length t))"

definition repr_char :: "allocator \<Rightarrow> char \<Rightarrow> sds option \<Rightarrow> sds option option" where
  "repr_char A c s =
     (if c = BACKSLASH \<or> c = QUOTE then cat_fmt A (BACKSLASH # ''%c'') (of_char c) s
      else if c = LF then cat_bytes A [BACKSLASH, CHR ''n''] s
      else if c = CR then cat_bytes A [BACKSLASH, CHR ''r''] s
      else if c = TAB then cat_bytes A [BACKSLASH, CHR ''t''] s
      else if c = BEL then cat_bytes A [BACKSLASH, CHR ''a''] s
      else if c = BS then cat_bytes A [BACKSLASH, CHR ''b''] s
      else if isprint c then cat_fmt A ''%c'' (of_char c) s
      else cat_fmt A (BACKSLASH # ''x%02x'') (of_char c) s)"

fun repr_loop :: "allocator \<Rightarrow> char list \<Rightarrow> sds option \<Rightarrow> sds option option" where
  "repr_loop A [] s = Some s"
| "repr_loop A (c # p) s = do { s \<leftarrow> repr_char A c s; repr_loop A p s }"

definition sdscatrepr :: "allocator \<Rightarrow> sds \<Rightarrow> char list \<Rightarrow> nat \<Rightarrow> sds option option" where
  "sdscatrepr A s p len =
     do {
       s \<leftarrow> cat_bytes A [QUOTE] (Some s);
       s \<leftarrow> repr_loop A (take len p) s;
       cat_bytes A [QUOTE] s
     }"

section \<open>Splitting a line into arguments\<close>

definition is_hex_digit :: "char \<Rightarrow> bool" where
  "is_hex_digit c = (48 \<le> chr_val c \<and> chr_val c \<le> 57 \<or> 97 \<le> chr_val c \<and> chr_val c \<le> 102 \<or> 65 \<le> chr_val c \<and> chr_val c \<le> 70)"

definition hex_digit_to_int :: "char \<Rightarrow> int" where
  "hex_digit_to_int c =
     (if c \<in> set ''0123456789'' then of_char c - 48
      else if c \<in> set ''abcdef'' then of_char c - 87
      else if c \<in> set ''ABCDEF'' then of_char c - 55 else 0)"

text \<open>\<open>at p i\<close> is \<^verbatim>\<open>p[i]\<close>, with the terminator at the end of the line.\<close>

definition at :: "string \<Rightarrow> nat \<Rightarrow> char" where
  "at p i = byte_at p i"

text \<open>The escape of a byte behind a backslash.\<close>

definition unescape :: "char \<Rightarrow> char" where
  "unescape c =
     (if c = CHR ''n'' then LF else if c = CHR ''r'' then CR else if c = CHR ''t'' then TAB
      else if c = CHR ''b'' then BS else if c = CHR ''a'' then BEL else c)"

datatype quotes = Bare | In_double | In_single

text \<open>
  One round of the loop over a token: \<open>Inl\<close> when it jumps to the label \<^verbatim>\<open>err\<close>, else what is appended to
  the token, the quotes after it, whether the token is done and how far \<open>p\<close> moves, without the last
  \<^verbatim>\<open>if (*p) p++\<close>.
\<close>

definition closes :: "string \<Rightarrow> bool" where
  "closes p \<longleftrightarrow> at p 1 = NUL \<or> isspace (at p 1)"

definition arg_round :: "quotes \<Rightarrow> string \<Rightarrow> unit + (char option \<times> quotes \<times> bool \<times> nat)" where
  "arg_round q p =
     (case q of
        In_double \<Rightarrow>
          if at p 0 = BACKSLASH \<and> at p 1 = CHR ''x'' \<and> is_hex_digit (at p 2) \<and> is_hex_digit (at p 3)
          then Inr (Some (char_of (hex_digit_to_int (at p 2) * 16 + hex_digit_to_int (at p 3))), q, False, 3)
          else if at p 0 = BACKSLASH \<and> at p 1 \<noteq> NUL then Inr (Some (unescape (at p 1)), q, False, 1)
          else if at p 0 = QUOTE then (if closes p then Inr (None, q, True, 0) else Inl ())
          else if at p 0 = NUL then Inl ()
          else Inr (Some (at p 0), q, False, 0)
      | In_single \<Rightarrow>
          if at p 0 = BACKSLASH \<and> at p 1 = APOS then Inr (Some APOS, q, False, 1)
          else if at p 0 = APOS then (if closes p then Inr (None, q, True, 0) else Inl ())
          else if at p 0 = NUL then Inl ()
          else Inr (Some (at p 0), q, False, 0)
      | Bare \<Rightarrow>
          if at p 0 \<in> {CHR '' '', LF, CR, TAB, NUL} then Inr (None, q, True, 0)
          else if at p 0 = QUOTE then Inr (None, In_double, False, 0)
          else if at p 0 = APOS then Inr (None, In_single, False, 0)
          else Inr (Some (at p 0), q, False, 0))"

definition cat_char :: "allocator \<Rightarrow> char option \<Rightarrow> sds option \<Rightarrow> sds option option" where
  "cat_char A c s = (case c of None \<Rightarrow> Some s | Some c \<Rightarrow> cat_bytes A [c] s)"

function arg_loop :: "allocator \<Rightarrow> quotes \<Rightarrow> string \<Rightarrow> sds option \<Rightarrow> (unit + (sds option \<times> string)) option" where
  "arg_loop A q p current =
     (case arg_round q p of
        Inl _ \<Rightarrow> Some (Inl ())
      | Inr (c, q', fin, k) \<Rightarrow>
          do {
            current \<leftarrow> cat_char A c current;
            let p' = drop 1 (drop k p);
            if fin then Some (Inr (current, p'))
            else if p = [] then None
            else arg_loop A q' p' current
          })"
  by pat_completeness auto
termination
  by (relation "measure (\<lambda>(A, q, p, current). length p)") auto

declare arg_loop.simps [simp del]

text \<open>The vector grows by one pointer for every token; a refused \<^verbatim>\<open>realloc\<close> is a write through NULL.\<close>

lemma arg_loop_shorter: "arg_loop A q p current = Some (Inr (cur, p')) \<Longrightarrow> length p' \<le> length p - 1"
proof (induction A q p current rule: arg_loop.induct)
  case (1 A q p current)
  obtain c q' fin k where r: "arg_round q p = Inr (c, q', fin, k)"
    using 1(2) by (subst (asm) arg_loop.simps) (auto split: sum.splits)
  obtain s where s: "cat_char A c current = Some s" using 1(2) r by (subst (asm) arg_loop.simps) (auto split: bind_split_asm)
  show ?case
  proof (cases "fin \<or> p = []")
    case True
    then show ?thesis using 1(2) r s by (subst (asm) arg_loop.simps) (auto simp: Let_def split: if_splits)
  next
    case False
    then have "arg_loop A q' (drop 1 (drop k p)) s = Some (Inr (cur, p'))"
      using 1(2) r s by (subst (asm) arg_loop.simps) (simp add: Let_def)
    then have "length p' \<le> length (drop 1 (drop k p)) - 1" using 1(1) [OF r refl refl refl s refl] False by simp
    then show ?thesis by simp
  qed
qed

function args_loop :: "allocator \<Rightarrow> string \<Rightarrow> sds option list \<Rightarrow> (sds option list option \<times> nat) option" where
  "args_loop A p vector =
     (let p = dropWhile isspace p
      in if p = [] then Some (if vector = [] \<and> \<not> serves A 8 then None else Some vector, length vector)
         else case arg_loop A Bare p (sdsempty A) of
                None \<Rightarrow> None
              | Some (Inl _) \<Rightarrow> Some (None, 0)
              | Some (Inr (current, p)) \<Rightarrow>
                  if \<not> serves A (8 * (length vector + 1)) then None
                  else args_loop A p (vector @ [current]))"
  by pat_completeness auto
termination
proof (relation "measure (\<lambda>(A, p, vector). length p)")
  fix A :: allocator and p :: string and vector x a b y cur p'
  assume "x = dropWhile isspace p" "x \<noteq> []" "arg_loop A Bare x (sdsempty A) = Some a" "a = Inr b" "(cur, p') = b"
  then have "length p' \<le> length x - 1" "0 < length x" using arg_loop_shorter by blast+
  moreover have "length x \<le> length p" using \<open>x = dropWhile isspace p\<close> length_dropWhile_le by blast
  ultimately have "length p' < length p" by linarith
  then show "((A, p', vector @ [cur]), A, p, vector) \<in> measure (\<lambda>(A, p, vector). length p)" by simp
qed simp

declare args_loop.simps [simp del]

definition sdssplitargs :: "allocator \<Rightarrow> char list \<Rightarrow> (sds option list option \<times> nat) option" where
  "sdssplitargs A line = args_loop A (cstring line) []"

section \<open>The tokens and the text between the separators\<close>

text \<open>The texts with the separator between them.\<close>

fun between :: "string \<Rightarrow> string list \<Rightarrow> string" where
  "between sep [] = []"
| "between sep [t] = t"
| "between sep (t # u # ts) = t @ sep @ between sep (u # ts)"

lemma between_snoc: "between sep (ts @ [t]) = concat (map (\<lambda>u. u @ sep) ts) @ t"
  by (induction ts rule: induct_list012) auto

lemma sdsnewlen_roomy:
  assumes "roomy A" "n < 2 ^ 31" "n \<le> length m"
  shows "\<exists>t. sdsnewlen A (Some m) n = Some t \<and> sds_ok t \<and> sdsstr t = take n m"
proof -
  have "sdsHdrSize (if n = 0 then SDS_TYPE_8 else sdsReqType n) + n + 1 < 2 ^ 33"
    using sdsHdrSize_le [of "if n = 0 then SDS_TYPE_8 else sdsReqType n"] assms(2) by simp
  then have "sdsnewlen A (Some m) n \<noteq> None" using sdsnewlen_NULL [of A "Some m" n] assms(1) by (simp add: roomy_def u64_id)
  then obtain t where t: "sdsnewlen A (Some m) n = Some t" by blast
  then show ?thesis using sdsnewlen_ok [OF t] assms(2,3) by simp
qed

text \<open>The separator does not begin between the start of the token and \<open>j\<close>.\<close>

definition unsplit :: "string \<Rightarrow> string \<Rightarrow> nat \<Rightarrow> nat \<Rightarrow> bool" where
  "unsplit sep t start j \<longleftrightarrow> (\<forall>i. start \<le> i \<longrightarrow> i < j \<longrightarrow> take (length sep) (drop i t) \<noteq> sep)"

lemma unsplit_token:
  assumes "unsplit sep t start j" "e + 1 \<le> j + length sep" "e \<le> length t"
  shows "\<not> sublist sep (take (e - start) (drop start t)) \<or> sep = []"
proof (rule disjCI, rule notI)
  assume "sep \<noteq> []" "sublist sep (take (e - start) (drop start t))"
  then obtain a b where ab: "take (e - start) (drop start t) = a @ sep @ b" by (auto simp: sublist_def)
  have n: "0 < length sep" using \<open>sep \<noteq> []\<close> by simp
  from arg_cong [OF ab, of length] have l: "length a + length sep + length b = e - start" using assms(3) by simp
  have "take (length sep) (drop (length a) (take (e - start) (drop start t))) = sep" unfolding ab by simp
  then have "take (length sep) (drop (start + length a) t) = sep" using l by (simp add: drop_take min_def add.commute split: if_splits)
  moreover have "start + length a < j" using l n assms(2) by linarith
  ultimately show False using assms(1) by (simp add: unsplit_def)
qed

lemma split_loop_ok:
  assumes A: "roomy A" "length t < 2 ^ 28" "t = take (length t) s" "0 < length sep" "length t \<le> length s"
  shows "start \<le> j \<Longrightarrow> start \<le> length t \<Longrightarrow> length tokens \<le> start \<Longrightarrow>
    concat (map (\<lambda>u. sdsstr u @ sep) tokens) @ drop start t = t \<Longrightarrow> unsplit sep t start j \<Longrightarrow>
    \<forall>u \<in> set tokens. sds_ok u \<and> \<not> sublist sep (sdsstr u) \<Longrightarrow>
    \<exists>toks. split_loop A s (int (length t)) sep (int (length sep)) (int j) (int start) slots tokens = Some (Some toks, int (length toks)) \<and>
      between sep (map sdsstr toks) = t \<and> (\<forall>u \<in> set toks. sds_ok u \<and> \<not> sublist sep (sdsstr u))"
proof (induction "length t - j" arbitrary: j start slots tokens rule: less_induct)
  case less
  let ?n = "length sep"
  have nd: "nat (int a - int b) = a - b" for a b by arith
  have small: "k < 2 ^ 31" if "k \<le> length t" for k using that A(2) by simp
  show ?case
  proof (cases "j + ?n \<le> length t")
    case False
    then have ge: "\<not> int j < int (length t) - (int ?n - 1)" by simp
    have le: "length t - start \<le> length (drop start s)" using A(5) by simp
    obtain u where u: "sdsnewlen A (Some (drop start s)) (length t - start) = Some u" "sds_ok u" "sdsstr u = take (length t - start) (drop start s)"
      using sdsnewlen_roomy [OF A(1) small le] by auto
    have ut: "sdsstr u = drop start t" using u(3) A(3) by (metis drop_take)
    have "\<not> sublist sep (take (length t - start) (drop start t)) \<or> sep = []"
      by (rule unsplit_token [OF less.prems(5)]) (use False A(4) in simp_all)
    then have ns: "\<not> sublist sep (sdsstr u)" using A(4) ut by simp
    have "split_loop A s (int (length t)) sep (int ?n) (int j) (int start) slots tokens = Some (Some (tokens @ [u]), int (length (tokens @ [u])))"
      using ge u(1) by (subst split_loop.simps) (simp add: split_last_def nd)
    moreover have "between sep (map sdsstr (tokens @ [u])) = t" using less.prems(4) by (simp add: between_snoc ut comp_def)
    ultimately show ?thesis using less.prems(6) u(2) ns by (intro exI [of _ "tokens @ [u]"]) auto
  next
    case True
    then have lt: "int j < int (length t) - (int ?n - 1)" by simp
    define slots1 where "slots1 = (if slots < length tokens + 2 then slots * 2 else slots)"
    have sv: "\<not> (slots < length tokens + 2 \<and> \<not> serves A (8 * slots1))"
    proof -
      have "8 * slots1 < 2 ^ 33" if "slots < length tokens + 2" using that less.prems(2,3) A(2) by (simp add: slots1_def)
      then show ?thesis using A(1) by (auto simp: roomy_def)
    qed
    have hit: "same_at s (nat (int j)) sep (nat (int ?n)) = Some (take ?n (drop j t) = sep)"
    proof -
      have "take ?n (drop j s) = take ?n (drop j t)" using True A(3) by (metis add.commute le_add_diff_inverse2 min.absorb1 take_drop take_take)
      then show ?thesis using True A(5) by (simp add: same_at_def)
    qed
    show ?thesis
    proof (cases "take ?n (drop j t) = sep")
      case H: True
      have jt: "j - start \<le> length t" using True by simp
      have le: "j - start \<le> length (drop start s)" using True A(5) by simp
      obtain u where u: "sdsnewlen A (Some (drop start s)) (j - start) = Some u" "sds_ok u" "sdsstr u = take (j - start) (drop start s)"
        using sdsnewlen_roomy [OF A(1) small [OF jt] le] by blast
      have ut: "sdsstr u = take (j - start) (drop start t)"
      proof -
        have "j \<le> length t" using True by simp
        then show ?thesis using u(3) A(3) less.prems(1) by (metis drop_take min.absorb1 take_take)
      qed
      have "\<not> sublist sep (take (j - start) (drop start t)) \<or> sep = []"
        by (rule unsplit_token [OF less.prems(5)]) (use True A(4) in \<open>simp_all add: Suc_le_eq\<close>)
      then have ns: "\<not> sublist sep (sdsstr u)" using A(4) ut by simp
      have "drop start t = sdsstr u @ sep @ drop (j + ?n) t"
      proof -
        have "drop start t = take (j - start) (drop start t) @ drop j t"
          using less.prems(1) by (metis append_take_drop_id drop_drop le_add_diff_inverse2)
        moreover have "drop j t = sep @ drop (j + ?n) t" using H by (metis add.commute append_take_drop_id drop_drop)
        ultimately show ?thesis using ut by simp
      qed
      then have c: "concat (map (\<lambda>u. sdsstr u @ sep) (tokens @ [u])) @ drop (j + ?n) t = t" using less.prems(4) by simp
      have len: "length t - (j + ?n) < length t - j" using True A(4) by arith
      have "split_loop A s (int (length t)) sep (int ?n) (int j) (int start) slots tokens =
          split_loop A s (int (length t)) sep (int ?n) (int (j + ?n)) (int (j + ?n)) slots1 (tokens @ [u])"
        using lt sv [unfolded slots1_def] hit H u(1) A(4) less.prems(1)
        by (subst split_loop.simps) (auto simp: Let_def slots1_def mult.commute [of _ slots] nd add.commute)
      moreover have "Suc (length tokens) \<le> j + ?n" using less.prems(1,3) A(4) by linarith
      ultimately show ?thesis using less.hyps [OF len, of "j + ?n" "tokens @ [u]" slots1] c less.prems True u(2) ns
        by (auto simp: unsplit_def)
    next
      case H: False
      have len: "length t - (j + 1) < length t - j" using True A(4) by arith
      have "unsplit sep t start (j + 1)" using less.prems(5) H by (auto simp: unsplit_def less_Suc_eq)
      moreover have "split_loop A s (int (length t)) sep (int ?n) (int j) (int start) slots tokens =
          split_loop A s (int (length t)) sep (int ?n) (int (j + 1)) (int start) slots1 tokens"
        using lt sv [unfolded slots1_def] hit H by (subst split_loop.simps) (auto simp: Let_def slots1_def mult.commute [of _ slots] add.commute)
      ultimately show ?thesis using less.hyps [OF len, of start tokens slots1] less.prems by auto
    qed
  qed
qed

lemma sdssplitlen_ok:
  assumes "roomy A" "length t < 2 ^ 28" "t = take (length t) s" "t \<noteq> []" "sep \<noteq> []"
  shows "\<exists>toks. sdssplitlen A s (int (length t)) sep (int (length sep)) count = Some (Some toks, int (length toks)) \<and>
    between sep (map sdsstr toks) = t \<and> (\<forall>u \<in> set toks. sds_ok u \<and> \<not> sublist sep (sdsstr u))"
proof -
  have "length t \<le> length s" using assms(3) by (metis length_take min.cobounded1)
  moreover have "serves A 40" using assms(1) by (simp add: roomy_def)
  ultimately show ?thesis
    using split_loop_ok [OF assms(1-3), of sep 0 0 "[]" 5] assms(4,5) by (auto simp: sdssplitlen_def unsplit_def Suc_le_eq)
qed

text \<open>Joining.\<close>

lemma cat_sds_ok:
  assumes "roomy A" "sds_ok s" "sdslen s + length t < 2 ^ 31" "take (length t) b = t"
  shows "\<exists>s'. sdscatlen A s b (length t) = Some s' \<and> sds_ok s' \<and> sdsstr s' = sdsstr s @ t \<and> sdslen s' = sdslen s + length t"
proof -
  have "length t \<le> length b" using assms(4) by (metis length_take min.cobounded1)
  then show ?thesis using sdscatlen_grows [OF assms(2,1), of "length t" b] assms(3,4) by auto
qed

lemma join_loop_ok:
  assumes add: "\<And>a s. a \<in> set as \<Longrightarrow> sds_ok s \<Longrightarrow> sdslen s + length (txt a) < 2 ^ 31 \<Longrightarrow>
      \<exists>s'. add a s = Some s' \<and> sds_ok s' \<and> sdsstr s' = sdsstr s @ txt a \<and> sdslen s' = sdslen s + length (txt a)"
    and sep: "\<And>s. sds_ok s \<Longrightarrow> sdslen s + length sep < 2 ^ 31 \<Longrightarrow>
      \<exists>s'. add_sep s = Some s' \<and> sds_ok s' \<and> sdsstr s' = sdsstr s @ sep \<and> sdslen s' = sdslen s + length sep"
  shows "sds_ok s \<Longrightarrow> sdslen s + length (between sep (map txt as)) < 2 ^ 31 \<Longrightarrow>
    \<exists>s'. join_loop add add_sep as (Some s) = Some (Some s') \<and> sds_ok s' \<and> sdsstr s' = sdsstr s @ between sep (map txt as)"
  using add
proof (induction as arbitrary: s)
  case (Cons a as)
  show ?case
  proof (cases as)
    case Nil
    then show ?thesis using Cons.prems by (fastforce simp: cat_to_def)
  next
    case (Cons b bs)
    then have l: "between sep (map txt (a # as)) = txt a @ sep @ between sep (map txt as)" by simp
    obtain s1 where s1: "add a s = Some s1" "sds_ok s1" "sdsstr s1 = sdsstr s @ txt a" "sdslen s1 = sdslen s + length (txt a)"
      using Cons.prems(3) [of a s] Cons.prems(1,2) l by fastforce
    obtain s2 where s2: "add_sep s1 = Some s2" "sds_ok s2" "sdsstr s2 = sdsstr s1 @ sep" "sdslen s2 = sdslen s1 + length sep"
      using sep [OF s1(2)] s1(4) Cons.prems(2) l by fastforce
    have "sdslen s2 + length (between sep (map txt as)) < 2 ^ 31" using Cons.prems(2) l s1(4) s2(4) by simp
    then obtain s3 where "join_loop add add_sep as (Some s2) = Some (Some s3)" "sds_ok s3" "sdsstr s3 = sdsstr s2 @ between sep (map txt as)"
      using Cons.IH [OF s2(2)] Cons.prems(3) by auto
    then show ?thesis using s1 s2 l Cons by (simp add: cat_to_def)
  qed
qed simp

lemma sdsjoinsds_ok:
  assumes A: "roomy A" and t: "\<forall>u \<in> set toks. sds_ok u" "take n sepb = sep" "length sep = n"
    and len: "length (between sep (map sdsstr toks)) < 2 ^ 31"
  shows "\<exists>j. sdsjoinsds A toks (length toks) sepb n = Some (Some j) \<and> sds_ok j \<and> sdsstr j = between sep (map sdsstr toks)"
proof -
  obtain e where e: "sdsempty A = Some e" "sds_ok e" "sdsstr e = []" using sdsempty_total [OF A] sdsempty_ok by blast
  have el: "sdslen e = 0" using sdsb.len_str [OF e(2)] e(3) by simp
  have "\<exists>s'. sdscatsds A s a = Some s' \<and> sds_ok s' \<and> sdsstr s' = sdsstr s @ sdsstr a \<and> sdslen s' = sdslen s + length (sdsstr a)"
    if "a \<in> set toks" "sds_ok s" "sdslen s + length (sdsstr a) < 2 ^ 31" for a s
  proof -
    have a: "length (sdsstr a) = sdslen a" using t(1) that(1) by simp
    then have "take (length (sdsstr a)) (buf a) = sdsstr a" by (simp add: sdsstr_def)
    from cat_sds_ok [OF A that(2,3) this] show ?thesis unfolding a sdscatsds_def .
  qed
  moreover have "\<exists>s'. sdscatlen A s sepb n = Some s' \<and> sds_ok s' \<and> sdsstr s' = sdsstr s @ sep \<and> sdslen s' = sdslen s + length sep"
    if "sds_ok s" "sdslen s + length sep < 2 ^ 31" for s
    using cat_sds_ok [OF A that, of sepb] t(2,3) by simp
  ultimately show ?thesis
    using join_loop_ok [of toks sdsstr "\<lambda>a s. sdscatsds A s a" sep "\<lambda>s. sdscatlen A s sepb n" e] e el len by (simp add: sdsjoinsds_def)
qed

text \<open>
  C37. Splitting at a separator gives tokens without the separator, and joining them
  with the separator gives the text back.
\<close>

theorem split_join:
  assumes "roomy A" "length t < 2 ^ 28" "t = take (length t) s" "t \<noteq> []" "sep \<noteq> []"
  shows "\<exists>toks j. sdssplitlen A s (int (length t)) sep (int (length sep)) count = Some (Some toks, int (length toks)) \<and>
    (\<forall>u \<in> set toks. \<not> sublist sep (sdsstr u)) \<and>
    sdsjoinsds A toks (length toks) sep (length sep) = Some (Some j) \<and> sdsstr j = t"
proof -
  obtain toks where T: "sdssplitlen A s (int (length t)) sep (int (length sep)) count = Some (Some toks, int (length toks))"
    "between sep (map sdsstr toks) = t" "\<forall>u \<in> set toks. sds_ok u \<and> \<not> sublist sep (sdsstr u)"
    using sdssplitlen_ok [OF assms] by blast
  obtain j where "sdsjoinsds A toks (length toks) sep (length sep) = Some (Some j)" "sdsstr j = t"
    using sdsjoinsds_ok [OF assms(1), of toks "length sep" sep sep] T(2,3) assms(2) by auto
  then show ?thesis using T by blast
qed

theorem split_join_witness:
  "\<exists>toks j. sdssplitlen heap0 ''foo_-_bar!'' 9 ''_-_'' 3 7 = Some (Some toks, int (length toks)) \<and>
     sdsjoinsds heap0 toks (length toks) ''_-_'' 3 = Some (Some j) \<and> sdsstr j = ''foo_-_bar''"
  using split_join [OF roomy_heap0, of "''foo_-_bar''" "''foo_-_bar!''" "''_-_''" 7] by (auto simp: numeral_3_eq_3)

section \<open>Quoting and reading back\<close>

text \<open>What stands for a byte between the quotes.\<close>

definition esc :: "char \<Rightarrow> string" where
  "esc c =
     (if c = BACKSLASH \<or> c = QUOTE then [BACKSLASH, c]
      else if c = LF then [BACKSLASH, CHR ''n'']
      else if c = CR then [BACKSLASH, CHR ''r'']
      else if c = TAB then [BACKSLASH, CHR ''t'']
      else if c = BEL then [BACKSLASH, CHR ''a'']
      else if c = BS then [BACKSLASH, CHR ''b'']
      else if isprint c then [c]
      else [BACKSLASH, CHR ''x'', hex_char False (nat (chr_val c) div 16), hex_char False (nat (chr_val c) mod 16)])"

definition quoted :: "string \<Rightarrow> string" where
  "quoted t = QUOTE # concat (map esc t) @ [QUOTE]"

lemma esc_length: "length (esc c) \<le> 4"
  by (simp add: esc_def)

lemma quoted_length: "length (quoted t) \<le> 4 * length t + 2"
proof -
  have "length (concat (map esc t)) \<le> 4 * length t" by (induction t) (use esc_length in \<open>auto intro: add_le_mono\<close>)
  then show ?thesis by (simp add: quoted_def)
qed

lemma chr_val_range: "0 \<le> chr_val c" "chr_val c < 256"
  by (cases c; simp add: of_char_Char)+

text \<open>The texts of the formats.\<close>

lemma fmt_texts:
  "vsnprintf_text fd (BACKSLASH # ''%c'') [VInt (of_char c)] = Some [BACKSLASH, c]"
  "vsnprintf_text fd ''%c'' [VInt (of_char c)] = Some [c]"
  by (simp_all add: vsnprintf_text_def printf_one_def BACKSLASH_def isflag_def isdigit_def size_mod_def isintfmt_def isdoublefmt_def)

lemma radix16_small: "v < 256 \<Longrightarrow> pad_left (CHR ''0'') 2 (radix 16 False v) = [hex_char False (v div 16), hex_char False (v mod 16)]"
proof -
  assume v: "v < 256"
  show ?thesis
  proof (cases "v < 16")
    case True
    then show ?thesis by (subst radix.simps) (simp add: pad_left_def hex_char_def digit_char_def, simp add: char_of_def)
  next
    case False
    have "v div 16 < 16" using v by (simp add: less_mult_imp_div_less)
    then have "radix 16 False (v div 16) = [hex_char False (v div 16)]" by (subst radix.simps) simp
    then have "radix 16 False v = [hex_char False (v div 16), hex_char False (v mod 16)]" using False by (subst radix.simps) simp
    then show ?thesis by (simp add: pad_left_def)
  qed
qed

lemma fmt_hex:
  "vsnprintf_text fd (BACKSLASH # ''x%02x'') [VInt (of_char c)] =
    Some [BACKSLASH, CHR ''x'', hex_char False (nat (chr_val c) div 16), hex_char False (nat (chr_val c) mod 16)]"
proof -
  have v: "take_bit 32 (chr_val c) = chr_val c" by (rule take_bit_int_eq_self) (use chr_val_range [of c] in simp_all)
  have "nat (chr_val c) < 256" using chr_val_range [of c] by simp
  from radix16_small [OF this] v show ?thesis
    by (simp add: vsnprintf_text_def printf_one_def BACKSLASH_def isflag_def isdigit_def size_mod_def isintfmt_def
      fetch_int_def int_value_def isize_bits_def int_text_def int_digits_def int_prefix_def pad_left_def)
qed

text \<open>The digits of a hexadecimal escape.\<close>

lemma hex_chars:
  assumes "d < 16"
  shows "is_hex_digit (hex_char False d) \<and> hex_digit_to_int (hex_char False d) = int d \<and> hex_char False d \<noteq> NUL"
proof -
  have "\<forall>d \<in> set [0..<16]. is_hex_digit (hex_char False d) \<and> hex_digit_to_int (hex_char False d) = int d \<and> hex_char False d \<noteq> NUL"
    by code_simp
  then show ?thesis using assms by simp
qed

lemma hex_value: "char_of (int (nat (chr_val c) div 16) * 16 + int (nat (chr_val c) mod 16)) = c"
proof -
  have "int (nat (chr_val c) div 16) * 16 + int (nat (chr_val c) mod 16) = chr_val c"
    using chr_val_range [of c] by (metis div_mult_mod_eq int_nat_eq of_nat_add of_nat_mult of_nat_numeral)
  then show ?thesis by simp
qed

lemma hex_parts: "nat (chr_val c) div 16 < 16" "nat (chr_val c) mod 16 < 16"
  using chr_val_range [of c] by (auto intro: less_mult_imp_div_less)

text \<open>Appending to a string that is there.\<close>

definition appends :: "(sds option \<Rightarrow> sds option option) \<Rightarrow> string \<Rightarrow> bool" where
  "appends f t \<longleftrightarrow> (\<forall>s. sds_ok s \<longrightarrow> sdslen s + length t < 2 ^ 31 \<longrightarrow>
     (\<exists>s'. f (Some s) = Some (Some s') \<and> sds_ok s' \<and> sdsstr s' = sdsstr s @ t \<and> sdslen s' = sdslen s + length t))"

lemma appendsD:
  assumes "appends f t" "sds_ok s" "sdslen s + length t < 2 ^ 31"
  obtains s' where "f (Some s) = Some (Some s')" "sds_ok s'" "sdsstr s' = sdsstr s @ t" "sdslen s' = sdslen s + length t"
  using assms unfolding appends_def by blast

lemma cat_bytes_appends: "roomy A \<Longrightarrow> appends (cat_bytes A t) t"
  using cat_sds_ok [of A _ t "t @ [NUL]"] by (auto simp: appends_def cat_bytes_def cat_to_def)

lemma cat_fmt_appends:
  assumes "roomy A" "vsnprintf_text (\<lambda>_ (_ :: unit). []) fmt [VInt v] = Some t" "NUL \<notin> set t" "length fmt < 9"
  shows "appends (cat_fmt A fmt v) t"
  unfolding appends_def
proof (intro allI impI)
  fix s assume s: "sds_ok s" "sdslen s + length t < 2 ^ 31"
  obtain s' where s': "sdscatvprintf A (\<lambda>_ (_ :: unit). []) s fmt [VInt v] = Some (Some s')" "sds_ok s'" "sdsstr s' = sdsstr s @ t"
    using sdscatvprintf_ok [OF assms(1) s(1) assms(2,3) _ s(2)] assms(4) by auto
  then have "sdslen s' = sdslen s + length t" using sdsb.len_str [OF s'(2)] sdsb.len_str [OF s(1)] by simp
  then show "\<exists>s'. cat_fmt A fmt v (Some s) = Some (Some s') \<and> sds_ok s' \<and> sdsstr s' = sdsstr s @ t \<and> sdslen s' = sdslen s + length t"
    using s' by (simp add: cat_fmt_def sdscatprintf_def)
qed

lemma repr_char_appends:
  assumes "roomy A"
  shows "appends (repr_char A c) (esc c)"
proof -
  note hp = hex_chars [OF hex_parts(1) [of c]] hex_chars [OF hex_parts(2) [of c]]
  have nb: "BACKSLASH \<noteq> NUL" "CHR ''x'' \<noteq> NUL" "isprint c \<Longrightarrow> c \<noteq> NUL" "QUOTE \<noteq> NUL" by (auto simp: quote_chars isprint_def)
  have 1: "appends (cat_fmt A (BACKSLASH # ''%c'') (of_char c)) [BACKSLASH, c]" if "c \<noteq> NUL"
    using that nb by (intro cat_fmt_appends [OF assms fmt_texts(1)]) auto
  have 2: "appends (cat_fmt A ''%c'' (of_char c)) [c]" if "c \<noteq> NUL" using that by (intro cat_fmt_appends [OF assms fmt_texts(2)]) auto
  have 3: "appends (cat_fmt A (BACKSLASH # ''x%02x'') (of_char c))
      [BACKSLASH, CHR ''x'', hex_char False (nat (chr_val c) div 16), hex_char False (nat (chr_val c) mod 16)]"
    using hp nb by (intro cat_fmt_appends [OF assms fmt_hex]) auto
  note b = cat_bytes_appends [OF assms]
  show ?thesis using 1 2 3 b nb unfolding repr_char_def [abs_def] esc_def by auto
qed

lemma repr_loop_ok:
  assumes "roomy A"
  shows "sds_ok s \<Longrightarrow> sdslen s + length (concat (map esc t)) < 2 ^ 31 \<Longrightarrow>
    \<exists>s'. repr_loop A t (Some s) = Some (Some s') \<and> sds_ok s' \<and> sdsstr s' = sdsstr s @ concat (map esc t) \<and>
      sdslen s' = sdslen s + length (concat (map esc t))"
proof (induction t arbitrary: s)
  case (Cons c t)
  have "sdslen s + length (esc c) < 2 ^ 31" using Cons.prems(2) by simp
  from appendsD [OF repr_char_appends [OF assms, of c] Cons.prems(1) this] obtain s1 where s1:
    "repr_char A c (Some s) = Some (Some s1)" "sds_ok s1" "sdsstr s1 = sdsstr s @ esc c" "sdslen s1 = sdslen s + length (esc c)" by blast
  then show ?case using Cons.IH [OF s1(2)] Cons.prems(2) by auto
qed simp

lemma sdscatrepr_ok:
  assumes A: "roomy A" and s: "sds_ok s" "sdslen s + length (quoted t) < 2 ^ 31" and p: "take n p = t"
  shows "\<exists>s'. sdscatrepr A s p n = Some (Some s') \<and> sds_ok s' \<and> sdsstr s' = sdsstr s @ quoted t"
proof -
  note b = cat_bytes_appends [OF A, of "[QUOTE]"]
  have "sdslen s + length [QUOTE] < 2 ^ 31" using s(2) by (simp add: quoted_def)
  from appendsD [OF b s(1) this] obtain s1 where s1: "cat_bytes A [QUOTE] (Some s) = Some (Some s1)" "sds_ok s1" "sdsstr s1 = sdsstr s @ [QUOTE]"
    "sdslen s1 = sdslen s + 1" by auto
  have "sdslen s1 + length (concat (map esc t)) < 2 ^ 31" using s(2) s1(4) by (simp add: quoted_def)
  from repr_loop_ok [OF A s1(2) this] obtain s2 where s2: "repr_loop A t (Some s1) = Some (Some s2)" "sds_ok s2"
    "sdsstr s2 = sdsstr s1 @ concat (map esc t)" "sdslen s2 = sdslen s1 + length (concat (map esc t))" by blast
  have "sdslen s2 + length [QUOTE] < 2 ^ 31" using s(2) s1(4) s2(4) by (simp add: quoted_def)
  from appendsD [OF b s2(2) this] obtain s3 where "cat_bytes A [QUOTE] (Some s2) = Some (Some s3)" "sds_ok s3" "sdsstr s3 = sdsstr s2 @ [QUOTE]"
    by blast
  then show ?thesis using s1 s2 p by (simp add: sdscatrepr_def quoted_def)
qed

section \<open>A quoted string is one argument\<close>

lemma at_simps: "at (c # p) 0 = c" "at (c # p) (Suc i) = at p i" "at [] i = NUL"
  by (simp_all add: at_def byte_at_def)

lemma esc_round: "\<exists>k. arg_round In_double (esc c @ rest) = Inr (Some c, In_double, False, k) \<and> drop 1 (drop k (esc c @ rest)) = rest"
proof -
  note hp = hex_chars [OF hex_parts(1) [of c]] hex_chars [OF hex_parts(2) [of c]]
  note A = arg_round_def at_simps numeral_2_eq_2 numeral_3_eq_3
  consider "c = BACKSLASH \<or> c = QUOTE" | "c \<in> {LF, CR, TAB, BEL, BS}" | "isprint c" "c \<notin> {BACKSLASH, QUOTE}"
    | "\<not> isprint c" "c \<notin> {BACKSLASH, QUOTE, LF, CR, TAB, BEL, BS}" by auto
  then show ?thesis
  proof cases
    case 1
    then show ?thesis by (intro exI [of _ 1]) (elim disjE; simp add: A esc_def unescape_def quote_chars)
  next
    case 2
    then show ?thesis by (intro exI [of _ 1]) (elim insertE emptyE; simp add: A esc_def unescape_def quote_chars)
  next
    case 3
    then have "c \<notin> {LF, CR, TAB, BEL, BS, NUL}" by (auto simp: quote_chars isprint_def)
    then show ?thesis using 3 by (intro exI [of _ 0]) (simp add: A esc_def)
  next
    case 4
    then show ?thesis using hp hex_value [of c] by (intro exI [of _ 3]) (simp add: A esc_def)
  qed
qed

lemma arg_loop_quoted:
  assumes A: "roomy A" and r: "at rest 0 = NUL \<or> isspace (at rest 0)"
  shows "sds_ok s \<Longrightarrow> sdslen s + length t < 2 ^ 31 \<Longrightarrow>
    \<exists>s'. arg_loop A In_double (concat (map esc t) @ QUOTE # rest) (Some s) = Some (Inr (Some s', rest)) \<and> sdsstr s' = sdsstr s @ t"
proof (induction t arbitrary: s)
  case Nil
  have "arg_round In_double (QUOTE # rest) = Inr (None, In_double, True, 0)"
    using r by (auto simp: arg_round_def closes_def at_simps quote_chars)
  then show ?case by (subst arg_loop.simps) (simp add: cat_char_def)
next
  case (Cons c t)
  let ?r = "concat (map esc t) @ QUOTE # rest"
  obtain k where k: "arg_round In_double (esc c @ ?r) = Inr (Some c, In_double, False, k)" "drop 1 (drop k (esc c @ ?r)) = ?r"
    using esc_round [of c ?r] by blast
  have "sdslen s + length [c] < 2 ^ 31" using Cons.prems(2) by simp
  from appendsD [OF cat_bytes_appends [OF A, of "[c]"] Cons.prems(1) this] obtain s1 where
    s1: "cat_bytes A [c] (Some s) = Some (Some s1)" "sds_ok s1" "sdsstr s1 = sdsstr s @ [c]" "sdslen s1 = sdslen s + 1" by auto
  have "arg_loop A In_double (esc c @ ?r) (Some s) = arg_loop A In_double ?r (Some s1)"
    using k s1(1) by (subst arg_loop.simps) (simp add: cat_char_def del: drop_drop)
  then show ?case using Cons.IH [OF s1(2)] Cons.prems(2) s1(3,4) by auto
qed

lemma arg_loop_word:
  assumes A: "roomy A" and r: "at rest 0 = NUL \<or> isspace (at rest 0)" and t: "length t < 2 ^ 31"
  shows "\<exists>s'. arg_loop A Bare (quoted t @ rest) (sdsempty A) = Some (Inr (Some s', rest)) \<and> sdsstr s' = t"
proof -
  obtain e where e: "sdsempty A = Some e" "sds_ok e" "sdsstr e = []" using sdsempty_total [OF A] sdsempty_ok by blast
  have "sdslen e = 0" using sdsb.len_str [OF e(2)] e(3) by simp
  then obtain s' where s': "arg_loop A In_double (concat (map esc t) @ QUOTE # rest) (Some e) = Some (Inr (Some s', rest))" "sdsstr s' = t"
    using arg_loop_quoted [OF A r e(2), of t] t e(3) by auto
  have "arg_round Bare (quoted t @ rest) = Inr (None, In_double, False, 0)"
    by (simp add: arg_round_def quoted_def at_simps quote_chars)
  then have "arg_loop A Bare (quoted t @ rest) (sdsempty A) = arg_loop A In_double (concat (map esc t) @ QUOTE # rest) (Some e)"
    using e(1) by (subst arg_loop.simps) (simp add: cat_char_def quoted_def)
  then show ?thesis using s' by simp
qed

lemma between_Cons: "between sep (t # ts) = t @ (if ts = [] then [] else sep @ between sep ts)"
  by (cases ts) simp_all

lemma skip_to_quote: "dropWhile isspace (between sep (map quoted ws)) = between sep (map quoted ws)"
  by (cases ws) (simp_all add: between_Cons quoted_def isspace_def QUOTE_def)

lemma args_loop_ok:
  assumes A: "roomy A" and w: "\<forall>w \<in> set ws. length w < 2 ^ 31"
  shows "dropWhile isspace p = between '' '' (map quoted ws) \<Longrightarrow> length vec + length ws < 2 ^ 29 \<Longrightarrow>
    \<exists>toks. args_loop A p vec = Some (Some (vec @ toks), length vec + length ws) \<and> map (map_option sdsstr) toks = map Some ws"
  using w
proof (induction ws arbitrary: p vec)
  case Nil
  have "serves A 8" using A by (simp add: roomy_def)
  then show ?case using Nil.prems by (subst args_loop.simps) simp
next
  case (Cons w ws)
  define rest where "rest = (if ws = [] then [] else '' '' @ between '' '' (map quoted ws))"
  have p: "dropWhile isspace p = quoted w @ rest" using Cons.prems(1) by (simp add: between_Cons rest_def)
  have r: "at rest 0 = NUL \<or> isspace (at rest 0)" by (simp add: rest_def at_simps isspace_def)
  obtain t where t: "arg_loop A Bare (quoted w @ rest) (sdsempty A) = Some (Inr (Some t, rest))" "sdsstr t = w"
    using arg_loop_word [OF A r] Cons.prems(3) by auto
  have "serves A (8 * (length vec + 1))" using A Cons.prems(2) by (simp add: roomy_def)
  then have "args_loop A p vec = args_loop A rest (vec @ [Some t])"
    using p t(1) by (subst args_loop.simps) (simp add: quoted_def)
  moreover have "dropWhile isspace rest = between '' '' (map quoted ws)"
    using skip_to_quote [of "'' ''" ws] by (simp add: rest_def isspace_def)
  ultimately show ?case using Cons.IH [of rest "vec @ [Some t]"] Cons.prems(2,3) t(2) by auto
qed

text \<open>No byte of a quoted string is a terminator.\<close>

lemma esc_no_NUL: "NUL \<notin> set (esc c)"
proof -
  note hp = hex_chars [OF hex_parts(1) [of c]] hex_chars [OF hex_parts(2) [of c]]
  have nb: "BACKSLASH \<noteq> NUL" "QUOTE \<noteq> NUL" "CHR ''x'' \<noteq> NUL" "CHR ''n'' \<noteq> NUL" "CHR ''r'' \<noteq> NUL" "CHR ''t'' \<noteq> NUL"
    "CHR ''a'' \<noteq> NUL" "CHR ''b'' \<noteq> NUL" "isprint c \<Longrightarrow> c \<noteq> NUL" by (auto simp: isprint_def quote_chars)
  show ?thesis using hp nb unfolding esc_def by auto
qed

lemma between_no_NUL: "\<forall>t \<in> set ts. NUL \<notin> set t \<Longrightarrow> NUL \<notin> set sep \<Longrightarrow> NUL \<notin> set (between sep ts)"
  by (induction ts rule: induct_list012) auto

lemma between_length: "\<forall>t \<in> set ts. 0 < length t \<Longrightarrow> length ts \<le> length (between sep ts)"
proof (induction ts)
  case (Cons t ts)
  then have "length ts \<le> length (between sep ts)" "1 \<le> length t" by (auto simp: Suc_le_eq)
  then show ?case by (auto simp: between_Cons)
qed simp

lemma in_between_length: "t \<in> set ts \<Longrightarrow> length t \<le> length (between sep ts)"
  by (induction ts rule: induct_list012) auto

lemma quoted_longer: "length t \<le> length (quoted t)"
proof -
  have "length t \<le> length (concat (map esc t))"
  proof (induction t)
    case (Cons c t)
    have "1 \<le> length (esc c)" by (simp add: esc_def)
    then show ?case using Cons by simp
  qed simp
  then show ?thesis by (simp add: quoted_def)
qed

text \<open>
  C38. What \<^verbatim>\<open>sdscatrepr\<close> quotes is what \<^verbatim>\<open>sdssplitargs\<close> reads: any strings, quoted
  and joined with blanks to a line, are read back as the arguments of the line.
\<close>

theorem quoted_read_back:
  assumes A: "roomy A" and len: "length (between '' '' (map quoted ws)) < 2 ^ 29"
  shows "\<exists>e qs line toks. sdsempty A = Some e \<and> map (\<lambda>w. sdscatrepr A e w (length w)) ws = map (\<lambda>q. Some (Some q)) qs \<and>
    sdsjoinsds A qs (length qs) '' '' 1 = Some (Some line) \<and> sdssplitargs A (buf line) = Some (Some toks, length ws) \<and>
    map (map_option sdsstr) toks = map Some ws"
proof -
  obtain e where e: "sdsempty A = Some e" "sds_ok e" "sdsstr e = []" using sdsempty_total [OF A] sdsempty_ok by blast
  have el: "sdslen e = 0" using sdsb.len_str [OF e(2)] e(3) by simp
  define f where "f w = the (the (sdscatrepr A e w (length w)))" for w
  have q: "sdscatrepr A e w (length w) = Some (Some (f w)) \<and> sds_ok (f w) \<and> sdsstr (f w) = quoted w" if "w \<in> set ws" for w
  proof -
    have "length (quoted w) < 2 ^ 31" using in_between_length [of "quoted w" "map quoted ws" "'' ''"] that len by simp
    then obtain s where "sdscatrepr A e w (length w) = Some (Some s)" "sds_ok s" "sdsstr s = quoted w"
      using sdscatrepr_ok [OF A e(2), of w "length w" w] e(3) el by auto
    then show ?thesis by (simp add: f_def)
  qed
  have qs: "map (\<lambda>w. sdscatrepr A e w (length w)) ws = map (\<lambda>q. Some (Some q)) (map f ws)" "map sdsstr (map f ws) = map quoted ws"
    "\<forall>u \<in> set (map f ws). sds_ok u" using q by simp_all
  have "length (between '' '' (map sdsstr (map f ws))) < 2 ^ 31" using len unfolding qs(2) by simp
  from sdsjoinsds_ok [OF A qs(3), of 1 "'' ''" "'' ''", OF _ _ this] obtain line where
    l: "sdsjoinsds A (map f ws) (length (map f ws)) '' '' 1 = Some (Some line)" "sds_ok line" "sdsstr line = between '' '' (map quoted ws)"
    unfolding qs(2) by auto
  have "cstring (buf line) = sdsstr line"
  proof -
    have n: "NUL \<notin> set (sdsstr line)" unfolding l(3) using esc_no_NUL
      by (intro between_no_NUL) (auto simp: quoted_def quote_chars)
    have "buf line = sdsstr line @ NUL # drop (Suc (sdslen line)) (buf line)"
      using sds_okD [OF l(2)] unfolding sdsstr_def by (metis Cons_nth_drop_Suc append_take_drop_id le_less_trans)
    then show ?thesis using cstring_append_NUL [OF n] by metis
  qed
  then have sp: "sdssplitargs A (buf line) = args_loop A (between '' '' (map quoted ws)) []" using l(3) by (simp add: sdssplitargs_def)
  have w31: "\<forall>w \<in> set ws. length w < 2 ^ 31"
  proof
    fix w assume "w \<in> set ws"
    then have "length (quoted w) \<le> length (between '' '' (map quoted ws))" by (intro in_between_length) simp
    then show "length w < 2 ^ 31" using quoted_longer [of w] len by simp
  qed
  have "length ws \<le> length (between '' '' (map quoted ws))" using between_length [of "map quoted ws" "'' ''"] by (simp add: quoted_def)
  then have "length ([] :: sds option list) + length ws < 2 ^ 29" using len by simp
  from args_loop_ok [OF A w31 skip_to_quote this] obtain toks where
    "args_loop A (between '' '' (map quoted ws)) [] = Some (Some toks, length ws)" "map (map_option sdsstr) toks = map Some ws" by auto
  then show ?thesis using e(1) qs(1) l(1) sp by (intro exI [of _ e] exI [of _ "map f ws"] exI [of _ line] exI [of _ toks]) simp
qed

theorem quoted_read_back_witness:
  "\<exists>qs line toks. sdsjoinsds heap0 qs (length qs) '' '' 1 = Some (Some line) \<and> sdssplitargs heap0 (buf line) = Some (Some toks, 2) \<and>
     map (map_option sdsstr) toks = [Some (''a'' @ [NUL, LF] @ '' b''), Some []]"
proof -
  let ?ws = "[''a'' @ [NUL, LF] @ '' b'', []]"
  have "length (between '' '' (map quoted ?ws)) < 2 ^ 29"
    using quoted_length [of "''a'' @ [NUL, LF] @ '' b''"] quoted_length [of "[]"] by simp
  from quoted_read_back [OF roomy_heap0 this] obtain qs line toks where
    "sdsjoinsds heap0 qs (length qs) '' '' 1 = Some (Some line)" "sdssplitargs heap0 (buf line) = Some (Some toks, length ?ws)"
    "map (map_option sdsstr) toks = map Some ?ws" by (elim exE conjE)
  moreover have "length ?ws = 2" by simp
  ultimately show ?thesis by (intro exI [of _ qs] exI [of _ line] exI [of _ toks]) simp
qed

section \<open>Translating in place\<close>

lemma map_loop_eq:
  "length a = j \<Longrightarrow> n \<le> length s \<Longrightarrow> map_loop from to setlen j n (a @ s) = a @ map (map_char from to setlen) (take n s) @ drop n s"
proof (induction n arbitrary: a s j)
  case (Suc n)
  then obtain c r where s: "s = c # r" by (cases s) auto
  have "mem_set1 j (map_char from to setlen c) (a @ c # r) = (a @ [map_char from to setlen c]) @ r" using Suc.prems(1) by (simp add: mem_write_def)
  moreover have "(a @ s) ! j = c" using Suc.prems(1) s by (simp add: nth_append)
  ultimately show ?case using Suc.IH [of "a @ [map_char from to setlen c]" "Suc j" r] Suc.prems s by simp
qed simp

lemma sdsmapchars_ok:
  assumes "sds_ok s"
  shows "sds_ok (sdsmapchars s from to setlen)" "sdsstr (sdsmapchars s from to setlen) = map (map_char from to setlen) (sdsstr s)"
proof -
  have l: "sdslen s \<le> length (buf s)" using sds_okD [OF assms] by simp
  have b: "buf (sdsmapchars s from to setlen) = map (map_char from to setlen) (take (sdslen s) (buf s)) @ drop (sdslen s) (buf s)"
    using map_loop_eq [of "[]" 0 "sdslen s" "buf s"] l by (simp add: sdsmapchars_def)
  have m: "sdslen (sdsmapchars s from to setlen) = sdslen s" "sdsalloc (sdsmapchars s from to setlen) = sdsalloc s"
    "sds_type (sdsmapchars s from to setlen) = sds_type s"
    by (simp_all add: sdsmapchars_def)
  show "sdsstr (sdsmapchars s from to setlen) = map (map_char from to setlen) (sdsstr s)"
    using l unfolding sdsstr_def m b by simp
  have "length (buf (sdsmapchars s from to setlen)) = length (buf s)" "buf (sdsmapchars s from to setlen) ! sdslen s = buf s ! sdslen s"
    using l sds_okD [OF assms] by (simp_all add: b nth_append)
  then show "sds_ok (sdsmapchars s from to setlen)" using assms unfolding sds_ok_def m by simp
qed

end
