(* ===== verification/Zmalloc.thy ===== *)
theory Zmalloc
  imports Commands
begin

text \<open>
  zmalloc.c: the allocator that keeps count of the memory in use, as it is built for Linux with the
  C library's allocator. Each block starts with its size; the caller gets the address behind it.
  \<open>None\<close> is undefined behaviour or the end of the program by \<^verbatim>\<open>abort\<close>. The atomic and the plain
  update of the counter are the same here.
\<close>

section \<open>The blocks of the C library\<close>

text \<open>
  The counter, the switch, the handler (0 for the default one), the blocks by their real addresses, the next
  address, which are not reused, and the number of requests so far.
\<close>

record zm =
  zm_used :: "64 word"
  zm_thread_safe :: bool
  zm_oom :: ptr
  zm_blocks :: "ptr \<rightharpoonup> char list"
  zm_fresh :: ptr
  zm_requests :: nat

text \<open>Which requests are granted, the bytes of a fresh block, the users' handlers.\<close>

record zenv =
  ze_grants :: "nat \<Rightarrow> nat \<Rightarrow> bool"
  ze_junk :: "nat \<Rightarrow> char"
  ze_handler :: "ptr \<Rightarrow> 64 word \<Rightarrow> zm \<Rightarrow> zm option"

definition new_block :: "char list \<Rightarrow> zm \<Rightarrow> zm" where
  "new_block b st =
     st\<lparr>zm_blocks := (zm_blocks st)(zm_fresh st \<mapsto> b), zm_fresh := zm_fresh st + length b + 1\<rparr>"

definition drop_block :: "ptr \<Rightarrow> zm \<Rightarrow> zm" where
  "drop_block p st = st\<lparr>zm_blocks := (zm_blocks st)(p := None)\<rparr>"

definition asked :: "zm \<Rightarrow> zm" where
  "asked st = st\<lparr>zm_requests := zm_requests st + 1\<rparr>"

text \<open>\<^verbatim>\<open>malloc\<close>, \<^verbatim>\<open>calloc\<close>, \<^verbatim>\<open>realloc\<close> and \<^verbatim>\<open>free\<close> of the C library.\<close>

definition libc_alloc :: "zenv \<Rightarrow> (nat \<Rightarrow> char) \<Rightarrow> nat \<Rightarrow> zm \<Rightarrow> ptr \<times> zm" where
  "libc_alloc E fill n st =
     (if ze_grants E (zm_requests st) n then (zm_fresh st, new_block (map fill [0..<n]) (asked st)) else (NULL, asked st))"

definition libc_realloc :: "zenv \<Rightarrow> ptr \<Rightarrow> nat \<Rightarrow> zm \<Rightarrow> (ptr \<times> zm) option" where
  "libc_realloc E p n st =
     do {
       b \<leftarrow> zm_blocks st p;
       if n = 0 then Some (NULL, drop_block p (asked st))
       else if ze_grants E (zm_requests st) n
       then Some (zm_fresh st, new_block (take n b @ map (ze_junk E) [length b..<n]) (drop_block p (asked st)))
       else Some (NULL, asked st)
     }"

definition libc_free :: "ptr \<Rightarrow> zm \<Rightarrow> zm option" where
  "libc_free p st = (if p = NULL then Some st else do { _ \<leftarrow> zm_blocks st p; Some (drop_block p st) })"

text \<open>A \<^verbatim>\<open>size_t\<close> in memory, least byte first.\<close>

fun le_bytes :: "nat \<Rightarrow> nat \<Rightarrow> char list" where
  "le_bytes 0 n = []"
| "le_bytes (Suc k) n = char_of (n mod 256) # le_bytes k (n div 256)"

fun le_value :: "char list \<Rightarrow> nat" where
  "le_value [] = 0"
| "le_value (c # cs) = of_char c + 256 * le_value cs"

definition put_size :: "ptr \<Rightarrow> 64 word \<Rightarrow> zm \<Rightarrow> zm option" where
  "put_size p v st =
     do {
       b \<leftarrow> zm_blocks st p;
       if 8 \<le> length b then Some (st\<lparr>zm_blocks := (zm_blocks st)(p \<mapsto> mem_write 0 (le_bytes 8 (unat v)) b)\<rparr>) else None
     }"

definition get_size :: "ptr \<Rightarrow> zm \<Rightarrow> 64 word option" where
  "get_size p st =
     do { b \<leftarrow> zm_blocks st p; if 8 \<le> length b then Some (word_of_nat (le_value (take 8 b))) else None }"

section \<open>Allocating\<close>

definition PREFIX_SIZE :: "64 word" where "PREFIX_SIZE = 8"

definition padded :: "64 word \<Rightarrow> 64 word" where
  "padded n = (if n AND 7 \<noteq> 0 then n + (8 - (n AND 7)) else n)"

definition update_zmalloc_stat_alloc :: "64 word \<Rightarrow> zm \<Rightarrow> zm" where
  "update_zmalloc_stat_alloc n st = st\<lparr>zm_used := zm_used st + padded n\<rparr>"

definition update_zmalloc_stat_free :: "64 word \<Rightarrow> zm \<Rightarrow> zm" where
  "update_zmalloc_stat_free n st = st\<lparr>zm_used := zm_used st - padded n\<rparr>"

text \<open>The default handler aborts.\<close>

definition zmalloc_oom :: "zenv \<Rightarrow> 64 word \<Rightarrow> zm \<Rightarrow> zm option" where
  "zmalloc_oom E sz st = (if zm_oom st = NULL then None else ze_handler E (zm_oom st) sz st)"

definition zmalloc :: "zenv \<Rightarrow> 64 word \<Rightarrow> zm \<Rightarrow> (ptr \<times> zm) option" where
  "zmalloc E sz st =
     do {
       let (p, st) = libc_alloc E (ze_junk E) (unat (sz + PREFIX_SIZE)) st;
       st \<leftarrow> (if p = NULL then zmalloc_oom E sz st else Some st);
       st \<leftarrow> put_size p sz st;
       Some (p + 8, update_zmalloc_stat_alloc (sz + PREFIX_SIZE) st)
     }"

definition zcalloc :: "zenv \<Rightarrow> 64 word \<Rightarrow> zm \<Rightarrow> (ptr \<times> zm) option" where
  "zcalloc E sz st =
     do {
       let (p, st) = libc_alloc E (\<lambda>_. NUL) (unat (sz + PREFIX_SIZE)) st;
       st \<leftarrow> (if p = NULL then zmalloc_oom E sz st else Some st);
       st \<leftarrow> put_size p sz st;
       Some (p + 8, update_zmalloc_stat_alloc (sz + PREFIX_SIZE) st)
     }"

definition zrealloc :: "zenv \<Rightarrow> ptr \<Rightarrow> 64 word \<Rightarrow> zm \<Rightarrow> (ptr \<times> zm) option" where
  "zrealloc E p sz st =
     (if p = NULL then zmalloc E sz st
      else do {
        oldsize \<leftarrow> get_size (p - 8) st;
        (q, st) \<leftarrow> libc_realloc E (p - 8) (unat (sz + PREFIX_SIZE)) st;
        st \<leftarrow> (if q = NULL then zmalloc_oom E sz st else Some st);
        st \<leftarrow> put_size q sz st;
        Some (q + 8, update_zmalloc_stat_alloc sz (update_zmalloc_stat_free oldsize st))
      })"

definition zmalloc_size :: "ptr \<Rightarrow> zm \<Rightarrow> 64 word option" where
  "zmalloc_size p st = do { sz \<leftarrow> get_size (p - 8) st; Some (padded sz + PREFIX_SIZE) }"

definition zfree :: "ptr \<Rightarrow> zm \<Rightarrow> zm option" where
  "zfree p st =
     (if p = NULL then Some st
      else do {
        oldsize \<leftarrow> get_size (p - 8) st;
        libc_free (p - 8) (update_zmalloc_stat_free (oldsize + PREFIX_SIZE) st)
      })"

text \<open>Bytes written by the owner of a block, at an offset behind the address it was given.\<close>

definition zstore :: "ptr \<Rightarrow> nat \<Rightarrow> char list \<Rightarrow> zm \<Rightarrow> zm option" where
  "zstore p i cs st =
     do {
       b \<leftarrow> zm_blocks st (p - 8);
       if 8 + i + length cs \<le> length b
       then Some (st\<lparr>zm_blocks := (zm_blocks st)(p - 8 \<mapsto> mem_write (8 + i) cs b)\<rparr>) else None
     }"

definition zstrdup :: "zenv \<Rightarrow> char list \<Rightarrow> zm \<Rightarrow> (ptr \<times> zm) option" where
  "zstrdup E s st =
     do {
       let l = strlen s + 1;
       (p, st) \<leftarrow> zmalloc E (word_of_nat l) st;
       st \<leftarrow> (if l \<le> length s then zstore p 0 (take l s) st else None);
       Some (p, st)
     }"

definition zlibc_free :: "ptr \<Rightarrow> zm \<Rightarrow> zm option" where
  "zlibc_free = libc_free"

definition zmalloc_used_memory :: "zm \<Rightarrow> 64 word" where
  "zmalloc_used_memory st = zm_used st"

definition zmalloc_enable_thread_safeness :: "zm \<Rightarrow> zm" where
  "zmalloc_enable_thread_safeness st = st\<lparr>zm_thread_safe := True\<rparr>"

definition zmalloc_set_oom_handler :: "ptr \<Rightarrow> zm \<Rightarrow> zm" where
  "zmalloc_set_oom_handler f st = st\<lparr>zm_oom := f\<rparr>"

section \<open>What the system says\<close>

text \<open>
  Behind \<open>k\<close> blanks of a string in a block; \<open>None\<close> inside is NULL. Without a terminator the search
  leaves the block.
\<close>

fun skip_fields :: "nat \<Rightarrow> char list \<Rightarrow> char list option option" where
  "skip_fields 0 p = Some (Some p)"
| "skip_fields (Suc k) p =
     do { r \<leftarrow> strchr_at p CHR '' ''; case r of None \<Rightarrow> Some None | Some i \<Rightarrow> skip_fields k (drop (i + 1) p) }"

text \<open>
  The size of the pages, the contents of the file for the process when it can be opened, and what
  the 4096 bytes on the stack hold before.
\<close>

definition zmalloc_get_rss :: "int \<Rightarrow> char list option \<Rightarrow> char list \<Rightarrow> 64 word option" where
  "zmalloc_get_rss page stat junk =
     (case stat of
        None \<Rightarrow> Some 0
      | Some content \<Rightarrow>
          if content = [] then Some 0
          else do {
            let buf = take 4096 content @ drop (length (take 4096 content)) junk;
            p \<leftarrow> skip_fields 23 buf;
            case p of
              None \<Rightarrow> Some 0
            | Some p \<Rightarrow>
                do {
                  x \<leftarrow> strchr_at p CHR '' '';
                  case x of
                    None \<Rightarrow> Some 0
                  | Some i \<Rightarrow> do { v \<leftarrow> strtol (p[i := NUL]); Some (word_of_int v * word_of_int page) }
                }
          })"

text \<open>The ratio of two \<^verbatim>\<open>float\<close> numbers, with their conversion and division as arguments.\<close>

definition zmalloc_get_fragmentation_ratio :: "(64 word \<Rightarrow> 'f) \<Rightarrow> ('f \<Rightarrow> 'f \<Rightarrow> 'f) \<Rightarrow> 64 word \<Rightarrow> zm \<Rightarrow> 'f" where
  "zmalloc_get_fragmentation_ratio to_float fdiv rss st = fdiv (to_float rss) (to_float (zmalloc_used_memory st))"

text \<open>\<^verbatim>\<open>fgets\<close> with room for 1024 bytes: the line it reads.\<close>

definition fgets_line :: "char list \<Rightarrow> char list" where
  "fgets_line f =
     (let l = take 1023 f in if LF \<in> set l then takeWhile (\<lambda>c. c \<noteq> LF) l @ [LF] else l)"

text \<open>What one line adds to the sum.\<close>

definition smap_line :: "char list \<Rightarrow> char list \<Rightarrow> 64 word \<Rightarrow> 64 word option" where
  "smap_line field line bytes =
     (let flen = strlen field; buf = line @ [NUL]
      in if take flen (cstring buf) = cstring field
         then do {
           r \<leftarrow> strchr_at buf CHR ''k'';
           case r of
             None \<Rightarrow> Some bytes
           | Some i \<Rightarrow> do { v \<leftarrow> strtol (drop flen (buf[i := NUL])); Some (bytes + word_of_int (s64 (v * 1024))) }
         }
         else Some bytes)"

function smap_loop :: "char list \<Rightarrow> char list \<Rightarrow> 64 word \<Rightarrow> 64 word option" where
  "smap_loop field f bytes =
     (if f = [] then Some bytes
      else do {
        bytes \<leftarrow> smap_line field (fgets_line f) bytes;
        smap_loop field (drop (length (fgets_line f)) f) bytes
      })"
  by pat_completeness auto

lemma fgets_line_progress: "f \<noteq> [] \<Longrightarrow> fgets_line f \<noteq> []"
  by (simp add: fgets_line_def Let_def)

termination smap_loop
proof (relation "measure (\<lambda>(field, f, bytes). length f)")
  show "((field, drop (length (fgets_line f)) f, b), field, f, bytes) \<in> measure (\<lambda>(field, f, bytes). length f)"
    if "f \<noteq> []" for field f bytes b
    using fgets_line_progress [OF that] that by (cases "fgets_line f") auto
qed simp

declare smap_loop.simps [simp del]

definition zmalloc_get_smap_bytes_by_field :: "char list option \<Rightarrow> char list \<Rightarrow> 64 word option" where
  "zmalloc_get_smap_bytes_by_field smaps field =
     (case smaps of None \<Rightarrow> Some 0 | Some f \<Rightarrow> smap_loop field f 0)"

definition zmalloc_get_private_dirty :: "char list option \<Rightarrow> 64 word option" where
  "zmalloc_get_private_dirty smaps = zmalloc_get_smap_bytes_by_field smaps (''Private_Dirty:'' @ [NUL])"

text \<open>The two answers of \<^verbatim>\<open>sysconf\<close>: the number of pages and their size.\<close>

definition zmalloc_get_memory_size :: "int \<Rightarrow> int \<Rightarrow> 64 word" where
  "zmalloc_get_memory_size pages page = word_of_int pages * word_of_int page"

section \<open>The counter is exact\<close>

text \<open>The size is read back.\<close>

lemma length_le_bytes [simp]: "length (le_bytes k n) = k"
  by (induction k arbitrary: n) simp_all

lemma le_value_bytes: "n < 256 ^ k \<Longrightarrow> le_value (le_bytes k n) = n"
proof (induction k arbitrary: n)
  case (Suc k)
  then have "n div 256 < 256 ^ k" by (simp add: less_mult_imp_div_less mult.commute)
  then have "le_value (le_bytes k (n div 256)) = n div 256" by (rule Suc.IH)
  moreover have "of_char (char_of (n mod 256) :: char) = n mod 256" by simp
  ultimately show ?case by (simp add: mult.commute div_mult_mod_eq add.commute)
qed simp

lemma le_value_word [simp]: "le_value (le_bytes 8 (unat (v :: 64 word))) = unat v"
  using unsigned_less [of v] by (intro le_value_bytes) simp

text \<open>A block with its size, and what the caller sees of it.\<close>

definition zblock :: "64 word \<Rightarrow> char list \<Rightarrow> char list" where
  "zblock v bs = le_bytes 8 (unat v) @ bs"

definition contents :: "zm \<Rightarrow> ptr \<rightharpoonup> char list" where
  "contents st p = (if p < 8 then None else map_option (drop 8) (zm_blocks st (p - 8)))"

text \<open>
  Every block holds its size and that many bytes, and the counter is the sum of what the blocks
  take, the size rounded up and the size in front.
\<close>

definition block_cost :: "char list \<Rightarrow> 64 word" where
  "block_cost b = padded (word_of_nat (length b - 8)) + 8"

definition accounted :: "zm \<Rightarrow> bool" where
  "accounted st \<longleftrightarrow>
     finite (dom (zm_blocks st)) \<and> 0 < zm_fresh st \<and> (\<forall>p \<in> dom (zm_blocks st). 0 < p \<and> p < zm_fresh st) \<and>
     (\<forall>p b. zm_blocks st p = Some b \<longrightarrow> (\<exists>v bs. b = zblock v bs \<and> unat v = length bs)) \<and>
     zm_used st = (\<Sum>p \<in> dom (zm_blocks st). block_cost (the (zm_blocks st p)))"

lemma accountedD:
  assumes "accounted st"
  shows "finite (dom (zm_blocks st))" "0 < zm_fresh st" "zm_blocks st p = Some b \<Longrightarrow> 0 < p \<and> p < zm_fresh st"
    "zm_blocks st p = Some b \<Longrightarrow> \<exists>v bs. b = zblock v bs \<and> unat v = length bs"
    "zm_used st = (\<Sum>p \<in> dom (zm_blocks st). block_cost (the (zm_blocks st p)))"
  using assms unfolding accounted_def by blast+

lemma accounted_fresh: "accounted st \<Longrightarrow> zm_blocks st (zm_fresh st) = None"
  using accountedD(3) by fastforce

lemma padded_prefix: "padded (v + PREFIX_SIZE) = padded v + 8"
proof -
  have m: "x AND 7 = take_bit 3 x" for x :: "64 word" by (simp add: take_bit_eq_mask mask_numeral)
  have "(v + 8) AND 7 = v AND 7" unfolding m by transfer (simp add: take_bit_eq_mod)
  then show ?thesis by (simp add: padded_def PREFIX_SIZE_def)
qed

lemma block_cost_zblock:
  assumes "unat v = length bs"
  shows "block_cost (zblock v bs) = padded v + 8"
proof -
  have "word_of_nat (length bs) = v" using assms [symmetric] by simp
  then show ?thesis by (simp add: block_cost_def zblock_def)
qed

lemma get_size_zblock: "zm_blocks st p = Some (zblock v bs) \<Longrightarrow> get_size p st = Some v"
  by (simp add: get_size_def zblock_def)

lemma sum_upd:
  fixes f :: "'b \<Rightarrow> 'a::comm_monoid_add"
  assumes "finite (dom m)" "m p = None"
  shows "(\<Sum>q \<in> dom (m(p \<mapsto> b)). f (the ((m(p \<mapsto> b)) q))) = f b + (\<Sum>q \<in> dom m. f (the (m q)))"
proof -
  have "p \<notin> dom m" using assms(2) by auto
  then have "(\<Sum>q \<in> dom m. f (the ((m(p \<mapsto> b)) q))) = (\<Sum>q \<in> dom m. f (the (m q)))" by (intro sum.cong) auto
  then show ?thesis using assms by (simp add: domIff)
qed

lemma sum_del:
  fixes f :: "'b \<Rightarrow> 'a::ab_group_add"
  assumes "finite (dom m)" "m p = Some b"
  shows "(\<Sum>q \<in> dom (m(p := None)). f (the ((m(p := None)) q))) = (\<Sum>q \<in> dom m. f (the (m q))) - f b"
proof -
  have "(m(p := None))(p \<mapsto> b) = m" using assms(2) by auto
  then show ?thesis using sum_upd [of "m(p := None)" p f b] assms(1) by simp
qed

text \<open>A block that comes, one that goes and one whose bytes change.\<close>

lemma accounted_new:
  assumes "accounted st" "unat v = length bs"
    and "zm_blocks st' = (zm_blocks st)(zm_fresh st \<mapsto> zblock v bs)" "zm_fresh st < zm_fresh st'"
    and "zm_used st' = zm_used st + (padded v + 8)"
  shows "accounted st'"
proof -
  have "zm_used st' = (\<Sum>p \<in> dom (zm_blocks st'). block_cost (the (zm_blocks st' p)))"
    unfolding assms(3) using sum_upd [OF accountedD(1) [OF assms(1)] accounted_fresh [OF assms(1)], of block_cost "zblock v bs"]
      accountedD(5) [OF assms(1)] assms(5) block_cost_zblock [OF assms(2)] by simp
  then show ?thesis using accountedD(1-4) [OF assms(1)] assms(2-4) unfolding accounted_def
    by (auto split: if_splits) (metis order_less_trans)+
qed

lemma accounted_gone:
  assumes "accounted st" "zm_blocks st p = Some (zblock v bs)" "unat v = length bs"
    and "zm_blocks st' = (zm_blocks st)(p := None)" "zm_fresh st' = zm_fresh st"
    and "zm_used st' = zm_used st - (padded v + 8)"
  shows "accounted st'"
proof -
  have "zm_used st' = (\<Sum>p \<in> dom (zm_blocks st'). block_cost (the (zm_blocks st' p)))"
    unfolding assms(4) using sum_del [OF accountedD(1) [OF assms(1)] assms(2), of block_cost]
      accountedD(5) [OF assms(1)] assms(6) block_cost_zblock [OF assms(3)] by simp
  then show ?thesis using accountedD(1-4) [OF assms(1)] assms(4,5) unfolding accounted_def
    by (auto split: if_splits)
qed

lemma accounted_store:
  assumes "accounted st" "zm_blocks st p = Some (zblock v bs)" "unat v = length bs" "length cs = length bs"
    and "zm_blocks st' = (zm_blocks st)(p \<mapsto> zblock v cs)" "zm_fresh st' = zm_fresh st" "zm_used st' = zm_used st"
  shows "accounted st'"
proof -
  have d: "dom (zm_blocks st') = dom (zm_blocks st)" using assms(2,5) by auto
  have "block_cost (the (zm_blocks st' q)) = block_cost (the (zm_blocks st q))" for q
    using assms(2,4,5) by (simp add: block_cost_def zblock_def)
  then have "zm_used st' = (\<Sum>p \<in> dom (zm_blocks st'). block_cost (the (zm_blocks st' p)))"
    using accountedD(5) [OF assms(1)] assms(7) d by simp
  moreover have "\<exists>w ds. b = zblock w ds \<and> unat w = length ds" if "zm_blocks st' q = Some b" for q b
    using that accountedD(4) [OF assms(1)] assms(3,4,5) by (cases "q = p") force+
  ultimately show ?thesis using accountedD(1-3) [OF assms(1)] assms(6) d unfolding accounted_def by auto
qed

section \<open>Sequences of operations\<close>

datatype zop =
    Malloc "64 word"
  | Calloc "64 word"
  | Realloc ptr "64 word"
  | Free ptr
  | Store ptr nat "char list"
  | Strdup "char list"

fun zstep :: "zenv \<Rightarrow> zop \<Rightarrow> zm \<Rightarrow> (ptr \<times> zm) option" where
  "zstep E (Malloc n) st = zmalloc E n st"
| "zstep E (Calloc n) st = zcalloc E n st"
| "zstep E (Realloc p n) st = zrealloc E p n st"
| "zstep E (Free p) st = do { st \<leftarrow> zfree p st; Some (NULL, st) }"
| "zstep E (Store p i cs) st = do { st \<leftarrow> zstore p i cs st; Some (NULL, st) }"
| "zstep E (Strdup s) st = zstrdup E s st"

text \<open>
  What an operation does to the blocks as their owners see them, when it returns the pointer \<open>p\<close>.
\<close>

definition gets :: "ptr \<Rightarrow> char list \<Rightarrow> (ptr \<rightharpoonup> char list) \<Rightarrow> (ptr \<rightharpoonup> char list) \<Rightarrow> bool" where
  "gets p bs m m' \<longleftrightarrow> p \<noteq> NULL \<and> m p = None \<and> m' = m(p \<mapsto> bs)"

fun effect :: "zop \<Rightarrow> ptr \<Rightarrow> (ptr \<rightharpoonup> char list) \<Rightarrow> (ptr \<rightharpoonup> char list) \<Rightarrow> bool" where
  "effect (Malloc n) p m m' = (\<exists>bs. length bs = unat n \<and> gets p bs m m')"
| "effect (Calloc n) p m m' = gets p (replicate (unat n) NUL) m m'"
| "effect (Realloc q n) p m m' =
     (\<exists>bs. length bs = unat n \<and> gets p bs (m(q := None)) m' \<and>
        (case m q of None \<Rightarrow> True | Some old \<Rightarrow> take (length old) bs = take (unat n) old))"
| "effect (Free q) p m m' = (m' = m(q := None))"
| "effect (Store q i cs) p m m' = (m' = m(q \<mapsto> mem_write i cs (the (m q))))"
| "effect (Strdup s) p m m' = gets p (cstring s @ [NUL]) m m'"

text \<open>A request that the C library grants and whose size with the prefix is no overflow.\<close>

definition grantable :: "zenv \<Rightarrow> nat \<Rightarrow> zm \<Rightarrow> bool" where
  "grantable E n st \<longleftrightarrow> n + 8 < 2 ^ 64 \<and> ze_grants E (zm_requests st) (n + 8)"

fun fits :: "zenv \<Rightarrow> zop \<Rightarrow> zm \<Rightarrow> bool" where
  "fits E (Malloc n) st = grantable E (unat n) st"
| "fits E (Calloc n) st = grantable E (unat n) st"
| "fits E (Realloc q n) st = (grantable E (unat n) st \<and> (q = NULL \<or> contents st q \<noteq> None))"
| "fits E (Free q) st = (q = NULL \<or> contents st q \<noteq> None)"
| "fits E (Store q i cs) st = (case contents st q of None \<Rightarrow> False | Some b \<Rightarrow> i + length cs \<le> length b)"
| "fits E (Strdup s) st = (NUL \<in> set s \<and> grantable E (strlen s + 1) st)"

lemma contents_new:
  assumes "accounted st" "zm_blocks st' = (zm_blocks st)(zm_fresh st \<mapsto> zblock v bs)"
  shows "gets (zm_fresh st + 8) bs (contents st) (contents st')"
  using accountedD(2) [OF assms(1)] accounted_fresh [OF assms(1)] assms(2)
  by (auto simp: gets_def contents_def zblock_def fun_eq_iff)

lemma contents_live:
  assumes "accounted st" "contents st q = Some b"
  shows "8 < q" "\<exists>v. zm_blocks st (q - 8) = Some (zblock v b) \<and> unat v = length b"
proof -
  have q: "8 \<le> q" "map_option (drop 8) (zm_blocks st (q - 8)) = Some b"
    using assms(2) by (auto simp: contents_def split: if_splits)
  then obtain c where c: "zm_blocks st (q - 8) = Some c" "b = drop 8 c" by auto
  then obtain v bs where v: "c = zblock v bs" "unat v = length bs" using accountedD(4) [OF assms(1)] by blast
  then show "\<exists>v. zm_blocks st (q - 8) = Some (zblock v b) \<and> unat v = length b" using c 
    by (intro exI [of _ v]) (simp add: zblock_def)
  show "8 < q" using accountedD(3) [OF assms(1) c(1)] by simp
qed

lemma unat_prefix: "unat v + 8 < 2 ^ 64 \<Longrightarrow> unat (v + PREFIX_SIZE) = unat v + 8"
  by (simp add: PREFIX_SIZE_def unat_word_ariths)

text \<open>A fresh block with its size written.\<close>

definition with_block :: "64 word \<Rightarrow> char list \<Rightarrow> zm \<Rightarrow> zm" where
  "with_block v bs st =
     update_zmalloc_stat_alloc (v + PREFIX_SIZE)
       (st\<lparr>zm_blocks := (zm_blocks st)(zm_fresh st \<mapsto> zblock v bs), zm_fresh := zm_fresh st + length bs + 9\<rparr>)"

lemma put_new:
  assumes "length b = length bs + 8" "drop 8 b = bs"
  shows "put_size (zm_fresh st) v (new_block b st) =
    Some (st\<lparr>zm_blocks := (zm_blocks st)(zm_fresh st \<mapsto> zblock v bs), zm_fresh := zm_fresh st + length bs + 9\<rparr>)"
  using assms by (simp add: put_size_def new_block_def mem_write_def zblock_def)

lemma accounted_asked [simp]: "accounted (asked st) = accounted st"
  by (simp add: accounted_def asked_def)

lemma asked_parts [simp]:
  "zm_blocks (asked st) = zm_blocks st" "zm_fresh (asked st) = zm_fresh st" "contents (asked st) = contents st"
  "zm_used (asked st) = zm_used st"
  by (simp_all add: asked_def contents_def fun_eq_iff)

lemma with_block_ok:
  assumes "accounted st" "unat v = length bs"
  shows "accounted (with_block v bs st)" "gets (zm_fresh st + 8) bs (contents st) (contents (with_block v bs st))"
proof -
  show "accounted (with_block v bs st)"
    by (rule accounted_new [OF assms]) (simp_all add: with_block_def update_zmalloc_stat_alloc_def padded_prefix)
  show "gets (zm_fresh st + 8) bs (contents st) (contents (with_block v bs st))"
    by (rule contents_new [OF assms(1)]) (simp add: with_block_def update_zmalloc_stat_alloc_def)
qed

lemma alloc_ok:
  assumes "accounted st" "grantable E (unat v) st"
  shows "libc_alloc E fill (unat (v + PREFIX_SIZE)) st = (zm_fresh st, new_block (map fill [0..<unat v + 8]) (asked st))"
    and "zm_fresh st \<noteq> NULL"
  using assms accountedD(2) [OF assms(1)] by (simp_all add: libc_alloc_def grantable_def unat_prefix)

lemma zmalloc_ok:
  assumes "accounted st" "grantable E (unat v) st"
  shows "\<exists>bs. length bs = unat v \<and> zmalloc E v st = Some (zm_fresh st + 8, with_block v bs (asked st))"
proof (intro exI conjI)
  let ?bs = "map (ze_junk E) [8..<unat v + 8]"
  show "length ?bs = unat v" by simp
  have "drop 8 (map (ze_junk E) [0..<unat v + 8]) = ?bs" by (simp add: drop_map)
  then show "zmalloc E v st = Some (zm_fresh st + 8, with_block v ?bs (asked st))"
    using alloc_ok(1) [OF assms, of "ze_junk E"] alloc_ok(2) [OF assms] put_new [of "map (ze_junk E) [0..<unat v + 8]" ?bs "asked st" v]
    by (simp add: zmalloc_def with_block_def)
qed

lemma zcalloc_ok:
  assumes "accounted st" "grantable E (unat v) st"
  shows "zcalloc E v st = Some (zm_fresh st + 8, with_block v (replicate (unat v) NUL) (asked st))"
proof -
  have "drop 8 (map (\<lambda>_. NUL) [0..<unat v + 8]) = replicate (unat v) NUL" by (simp add: drop_map map_replicate_const)
  then show ?thesis
    using alloc_ok(1) [OF assms, of "\<lambda>_. NUL"] alloc_ok(2) [OF assms] put_new [of "map (\<lambda>_. NUL) [0..<unat v + 8]" "replicate (unat v) NUL" "asked st" v]
    by (simp add: zcalloc_def with_block_def)
qed

text \<open>Growing or shrinking a block is dropping it and getting another one.\<close>

definition without_block :: "ptr \<Rightarrow> 64 word \<Rightarrow> zm \<Rightarrow> zm" where
  "without_block p v st = drop_block p (update_zmalloc_stat_free (v + PREFIX_SIZE) st)"

lemma without_block_ok:
  assumes "accounted st" "zm_blocks st (q - 8) = Some (zblock v bs)" "unat v = length bs" "8 < q"
  shows "accounted (without_block (q - 8) v st)" "contents (without_block (q - 8) v st) = (contents st)(q := None)"
proof -
  show "accounted (without_block (q - 8) v st)"
    by (rule accounted_gone [OF assms(1-3)])
      (simp_all add: without_block_def drop_block_def update_zmalloc_stat_free_def padded_prefix)
  show "contents (without_block (q - 8) v st) = (contents st)(q := None)"
    using assms(4) by (auto simp: without_block_def drop_block_def update_zmalloc_stat_free_def contents_def fun_eq_iff)
qed

lemma zrealloc_ok:
  assumes "accounted st" "contents st q = Some b" "grantable E (unat v) st"
  shows "\<exists>bs old. length bs = unat v \<and> take (length b) bs = take (unat v) b \<and>
    zm_blocks st (q - 8) = Some (zblock old b) \<and> unat old = length b \<and>
    zrealloc E q v st = Some (zm_fresh st + 8, with_block v bs (without_block (q - 8) old (asked st)))"
proof -
  obtain old where o: "zm_blocks st (q - 8) = Some (zblock old b)" "unat old = length b" and q: "8 < q"
    using contents_live [OF assms(1,2)] by blast
  let ?n = "unat v + 8" and ?c = "zblock old b"
  let ?d = "take ?n ?c @ map (ze_junk E) [length ?c..<?n]"
  let ?st = "drop_block (q - 8) (asked st)"
  have c: "length ?c = length b + 8" by (simp add: zblock_def)
  have d: "length ?d = length (drop 8 ?d) + 8" using c by (simp add: zblock_def)
  have r: "libc_realloc E (q - 8) (unat (v + PREFIX_SIZE)) st = Some (zm_fresh st, new_block ?d ?st)"
    using o(1) assms(3) by (simp add: libc_realloc_def grantable_def unat_prefix)
  have f: "zm_fresh ?st = zm_fresh st" "zm_fresh st \<noteq> 0" using accountedD(2) [OF assms(1)] by (simp_all add: drop_block_def)
  have "zrealloc E q v st = Some (zm_fresh st + 8, with_block v (drop 8 ?d) (without_block (q - 8) old (asked st)))"
    using q get_size_zblock [OF o(1)] r f put_new [OF d refl, of ?st v]
    by (simp add: zrealloc_def with_block_def without_block_def drop_block_def update_zmalloc_stat_alloc_def
        update_zmalloc_stat_free_def padded_prefix)
  moreover have "length (drop 8 ?d) = unat v" using c by simp
  moreover have "take (length b) (drop 8 ?d) = take (unat v) b" using c
    by (cases "length b \<le> unat v") (simp_all add: zblock_def take_map)
  ultimately show ?thesis using o by blast
qed

lemma zfree_ok:
  assumes "accounted st" "contents st q = Some b"
  shows "\<exists>st'. zfree q st = Some st' \<and> accounted st' \<and> contents st' = (contents st)(q := None)"
proof -
  obtain v where o: "zm_blocks st (q - 8) = Some (zblock v b)" "unat v = length b" and q: "8 < q"
    using contents_live [OF assms] by blast
  have "zfree q st = Some (without_block (q - 8) v st)"
    using q get_size_zblock [OF o(1)] o(1)
    by (simp add: zfree_def libc_free_def without_block_def update_zmalloc_stat_free_def)
  then show ?thesis using without_block_ok [OF assms(1) o q] by simp
qed

lemma zstore_ok:
  assumes "accounted st" "contents st q = Some b" "i + length cs \<le> length b"
  shows "\<exists>st'. zstore q i cs st = Some st' \<and> accounted st' \<and> contents st' = (contents st)(q \<mapsto> mem_write i cs b)"
proof -
  obtain v where o: "zm_blocks st (q - 8) = Some (zblock v b)" "unat v = length b" and q: "8 < q"
    using contents_live [OF assms(1,2)] by blast
  let ?st = "st\<lparr>zm_blocks := (zm_blocks st)(q - 8 \<mapsto> zblock v (mem_write i cs b))\<rparr>"
  have "mem_write (8 + i) cs (zblock v b) = zblock v (mem_write i cs b)" by (simp add: mem_write_def zblock_def)
  then have "zstore q i cs st = Some ?st" using o(1) assms(3) by (simp add: zstore_def zblock_def)
  moreover have "accounted ?st"
    using assms(3) by (intro accounted_store [OF assms(1) o]) (simp_all add: mem_simps)
  moreover have "contents ?st = (contents st)(q \<mapsto> mem_write i cs b)"
    using q by (auto simp: contents_def zblock_def fun_eq_iff)
  ultimately show ?thesis by blast
qed

lemma zalloc_step:
  assumes "accounted st" "grantable E (unat v) st"
  shows "\<exists>p bs st'. zmalloc E v st = Some (p, st') \<and> accounted st' \<and> length bs = unat v \<and> gets p bs (contents st) (contents st')"
  using zmalloc_ok [OF assms] with_block_ok [of "asked st"] assms(1) by (metis accounted_asked asked_parts(2,3))

lemma zstrdup_step:
  assumes "accounted st" "NUL \<in> set s" "grantable E (strlen s + 1) st"
  shows "\<exists>p st'. zstrdup E s st = Some (p, st') \<and> accounted st' \<and> gets p (cstring s @ [NUL]) (contents st) (contents st')"
proof -
  let ?l = "strlen s + 1" and ?v = "word_of_nat (strlen s + 1) :: 64 word"
  have "unat (word_of_nat n :: 64 word) = n" if "n < 2 ^ 64" for n
    using that by (simp add: unsigned_of_nat take_bit_nat_eq_self)
  then have u: "unat ?v = ?l" using assms(3) unfolding grantable_def by (metis add_lessD1)
  obtain p bs st1 where m: "zmalloc E ?v st = Some (p, st1)" "accounted st1" "length bs = ?l" "gets p bs (contents st) (contents st1)"
    using zalloc_step [OF assms(1)] assms(3) u by metis
  have t: "take ?l s = cstring s @ [NUL] \<and> ?l \<le> length s"
    using assms(2) by (induction s) (auto simp: strlen_def cstring_def)
  then obtain st2 where w: "zstore p 0 (take ?l s) st1 = Some st2" "accounted st2"
      "contents st2 = (contents st1)(p \<mapsto> mem_write 0 (take ?l s) bs)"
    using zstore_ok [OF m(2), of p bs 0 "take ?l s"] m(3,4) by (auto simp: gets_def strlen_def)
  have "zstrdup E s st = Some (p, st2)" using m(1) w(1) t by (simp add: zstrdup_def Let_def)
  moreover have "mem_write 0 (take ?l s) bs = cstring s @ [NUL]" using t m(3) by (simp add: mem_write_def strlen_def)
  ultimately show ?thesis using w(2,3) m(4) by (auto simp: gets_def)
qed

lemma zrealloc_step:
  assumes "accounted st" "contents st q = Some b" "grantable E (unat v) st"
  shows "\<exists>p bs st'. zrealloc E q v st = Some (p, st') \<and> accounted st' \<and> length bs = unat v \<and>
    gets p bs ((contents st)(q := None)) (contents st') \<and> take (length b) bs = take (unat v) b"
proof -
  obtain bs old where r: "length bs = unat v" "take (length b) bs = take (unat v) b" "zm_blocks st (q - 8) = Some (zblock old b)"
    "unat old = length b" "zrealloc E q v st = Some (zm_fresh st + 8, with_block v bs (without_block (q - 8) old (asked st)))"
    using zrealloc_ok [OF assms] by blast
  have q: "8 < q" using contents_live [OF assms(1,2)] by blast
  have W: "accounted (without_block (q - 8) old (asked st))"
    "contents (without_block (q - 8) old (asked st)) = (contents st)(q := None)"
    using without_block_ok [of "asked st" q old b] assms(1) r(3,4) q by simp_all
  have f: "zm_fresh (without_block (q - 8) old (asked st)) = zm_fresh st"
    by (simp add: without_block_def drop_block_def update_zmalloc_stat_free_def)
  show ?thesis using r(1,2,5) with_block_ok [OF W(1) r(1) [symmetric]] unfolding W(2) f by blast
qed

lemma zstep_ok:
  assumes "accounted st" "fits E op st"
  shows "\<exists>p st'. zstep E op st = Some (p, st') \<and> accounted st' \<and> effect op p (contents st) (contents st')"
proof (cases op)
  case (Malloc n)
  then show ?thesis using zalloc_step [OF assms(1), of E n] assms(2) by auto
next
  case (Calloc n)
  then show ?thesis using zcalloc_ok [OF assms(1), of E n] with_block_ok [of "asked st" n "replicate (unat n) NUL"] assms by simp
next
  case (Realloc q n)
  show ?thesis
  proof (cases "q = NULL")
    case True
    then have "contents st q = None" by (simp add: contents_def)
    then show ?thesis using True Realloc zalloc_step [OF assms(1), of E n] assms(2) by (auto simp: zrealloc_def fun_upd_idem)
  next
    case False
    then show ?thesis using Realloc zrealloc_step [OF assms(1), of q _ E n] assms(2) by fastforce
  qed
next
  case (Free q)
  show ?thesis
  proof (cases "q = NULL")
    case True
    then show ?thesis using Free assms(1) by (simp add: zfree_def contents_def fun_eq_iff)
  next
    case False
    then show ?thesis using Free zfree_ok [OF assms(1), of q] assms(2) by auto
  qed
next
  case (Store q i cs)
  then show ?thesis using zstore_ok [OF assms(1), of q _ i cs] assms(2) by (auto split: option.splits)
next
  case (Strdup s)
  then show ?thesis using zstrdup_step [OF assms(1), of s E] assms(2) by auto
qed

fun zrun :: "zenv \<Rightarrow> zop list \<Rightarrow> zm \<Rightarrow> (ptr list \<times> zm) option" where
  "zrun E [] st = Some ([], st)"
| "zrun E (op # ops) st = do { (p, st) \<leftarrow> zstep E op st; (ps, st) \<leftarrow> zrun E ops st; Some (p # ps, st) }"

text \<open>Every operation fits when its turn comes; the bytes of the blocks change operation by operation.\<close>

fun all_fit :: "zenv \<Rightarrow> zop list \<Rightarrow> zm \<Rightarrow> bool" where
  "all_fit E [] st = True"
| "all_fit E (op # ops) st =
     (fits E op st \<and> (case zstep E op st of None \<Rightarrow> True | Some (_, st') \<Rightarrow> all_fit E ops st'))"

fun effects :: "zop list \<Rightarrow> ptr list \<Rightarrow> (ptr \<rightharpoonup> char list) \<Rightarrow> (ptr \<rightharpoonup> char list) \<Rightarrow> bool" where
  "effects [] [] m m' = (m' = m)"
| "effects (op # ops) (p # ps) m m' = (\<exists>m1. effect op p m m1 \<and> effects ops ps m1 m')"
| "effects _ _ m m' = False"

lemma zrun_ok:
  "accounted st \<Longrightarrow> all_fit E ops st \<Longrightarrow>
    \<exists>ps st'. zrun E ops st = Some (ps, st') \<and> accounted st' \<and> effects ops ps (contents st) (contents st')"
proof (induction ops arbitrary: st)
  case (Cons op ops)
  obtain p st1 where 1: "zstep E op st = Some (p, st1)" "accounted st1" "effect op p (contents st) (contents st1)"
    using zstep_ok [OF Cons.prems(1)] Cons.prems(2) by fastforce
  then have "all_fit E ops st1" using Cons.prems(2) by simp
  from Cons.IH [OF 1(2) this] obtain ps st' where
    "zrun E ops st1 = Some (ps, st')" "accounted st'" "effects ops ps (contents st1) (contents st')" by blast
  then show ?case using 1 by (intro exI [of _ "p # ps"] exI [of _ st']) auto
qed simp

text \<open>The sum over the blocks, as their owners see it.\<close>

definition cost_of :: "char list \<Rightarrow> 64 word" where
  "cost_of bs = padded (word_of_nat (length bs)) + PREFIX_SIZE"

lemma accounted_sum:
  assumes "accounted st"
  shows "finite (dom (contents st))" "zmalloc_used_memory st = (\<Sum>p \<in> dom (contents st). cost_of (the (contents st p)))"
proof -
  have d: "dom (contents st) = (\<lambda>p. p + 8) ` dom (zm_blocks st)"
  proof (rule set_eqI)
    show "p \<in> dom (contents st) \<longleftrightarrow> p \<in> (\<lambda>p. p + 8) ` dom (zm_blocks st)" for p
      by (cases "p < 8") (auto simp: contents_def dom_def image_iff intro!: exI [of _ "p - 8"])
  qed
  show "finite (dom (contents st))" unfolding d using accountedD(1) [OF assms] by simp
  have "(\<Sum>p \<in> dom (contents st). cost_of (the (contents st p))) =
      (\<Sum>p \<in> dom (zm_blocks st). cost_of (the (contents st (p + 8))))"
    unfolding d by (subst sum.reindex) (simp_all add: inj_on_def)
  also have "\<dots> = (\<Sum>p \<in> dom (zm_blocks st). block_cost (the (zm_blocks st p)))"
    by (rule sum.cong) (auto simp: contents_def cost_of_def block_cost_def PREFIX_SIZE_def)
  finally show "zmalloc_used_memory st = (\<Sum>p \<in> dom (contents st). cost_of (the (contents st p)))"
    using accountedD(5) [OF assms] by (simp add: zmalloc_used_memory_def)
qed

lemma accounted_size:
  assumes "accounted st" "contents st q = Some b"
  shows "zmalloc_size q st = Some (cost_of b)"
proof -
  obtain v where o: "zm_blocks st (q - 8) = Some (zblock v b)" "unat v = length b"
    using contents_live [OF assms] by blast
  then show ?thesis using get_size_zblock [OF o(1)] by (simp add: zmalloc_size_def cost_of_def flip: o(2))
qed

text \<open>
  C39. The counter of the memory in use is exact: whatever sequence of allocations, reallocations, releases and
  writes inside the blocks runs from a start without blocks, it returns without a fault, every
  operation has its effect on the bytes of the blocks and no other, and \<^verbatim>\<open>zmalloc_used_memory\<close> is
  the sum of \<^verbatim>\<open>zmalloc_size\<close> over the blocks that are left.
\<close>

theorem used_memory_exact:
  assumes "zm_blocks st = Map.empty" "zm_used st = 0" "0 < zm_fresh st" and fit: "all_fit E ops st"
  shows "\<exists>ps st'. zrun E ops st = Some (ps, st') \<and> effects ops ps Map.empty (contents st') \<and> finite (dom (contents st')) \<and>
    (\<forall>p bs. contents st' p = Some bs \<longrightarrow> zmalloc_size p st' = Some (cost_of bs)) \<and>
    zmalloc_used_memory st' = (\<Sum>p \<in> dom (contents st'). the (zmalloc_size p st'))"
proof -
  have 0: "accounted st" using assms(1-3) by (simp add: accounted_def)
  have c: "contents st = Map.empty" using assms(1) by (simp add: contents_def fun_eq_iff)
  obtain ps st' where r: "zrun E ops st = Some (ps, st')" "accounted st'" "effects ops ps (contents st) (contents st')"
    using zrun_ok [OF 0 fit] by blast
  have "zmalloc_used_memory st' = (\<Sum>p \<in> dom (contents st'). the (zmalloc_size p st'))"
    unfolding accounted_sum(2) [OF r(2)] by (rule sum.cong) (auto simp: accounted_size [OF r(2)])
  then show ?thesis using r accounted_sum(1) [OF r(2)] accounted_size [OF r(2)] c by auto
qed

text \<open>
  A size that overflows with the prefix: the C library hands out a block that is too small for its own
  header, which is then written past its end.
\<close>

theorem zmalloc_wraps:
  assumes "2 ^ 64 - 8 \<le> unat n" "ze_grants E (zm_requests st) (unat (n + PREFIX_SIZE))" "0 < zm_fresh st"
  shows "fst (libc_alloc E (ze_junk E) (unat (n + PREFIX_SIZE)) st) \<noteq> NULL" "unat (n + PREFIX_SIZE) < 8" "zmalloc E n st = None"
proof -
  have "unat n < 2 ^ 64" using unsigned_less [of n] by simp
  then have "(unat n + 8) mod 2 ^ 64 = unat n + 8 - 2 ^ 64" using assms(1) by (simp add: le_mod_geq)
  then show s: "unat (n + PREFIX_SIZE) < 8" using \<open>unat n < 2 ^ 64\<close> by (simp add: PREFIX_SIZE_def unat_word_ariths)
  show "fst (libc_alloc E (ze_junk E) (unat (n + PREFIX_SIZE)) st) \<noteq> NULL" using assms(2,3) by (simp add: libc_alloc_def)
  show "zmalloc E n st = None" using s assms(2,3) by (simp add: zmalloc_def libc_alloc_def put_size_def new_block_def asked_def)
qed

section \<open>Concrete runs\<close>

definition zenv0 :: zenv where
  "zenv0 = \<lparr>ze_grants = \<lambda>_ n. n \<le> 100, ze_junk = \<lambda>_. CHR ''?'', ze_handler = \<lambda>_ _ _. None\<rparr>"

definition zm0 :: zm where
  "zm0 = \<lparr>zm_used = 0, zm_thread_safe = False, zm_oom = 0, zm_blocks = Map.empty, zm_fresh = 1, zm_requests = 0\<rparr>"

definition zops0 :: "zop list" where
  "zops0 = [Strdup (''ab'' @ [NUL]), Malloc 5, Store 21 1 ''xy'', Realloc 9 10, Free 21, Calloc 0]"


theorem used_memory_exact_witness:
  "\<exists>ps st'. zrun zenv0 zops0 zm0 = Some (ps, st') \<and> effects zops0 ps Map.empty (contents st') \<and> finite (dom (contents st')) \<and>
    (\<forall>p bs. contents st' p = Some bs \<longrightarrow> zmalloc_size p st' = Some (cost_of bs)) \<and>
    zmalloc_used_memory st' = (\<Sum>p \<in> dom (contents st'). the (zmalloc_size p st'))"
proof (rule used_memory_exact)
  show "all_fit zenv0 zops0 zm0"
    by (simp add: zops0_def zmalloc_def zcalloc_def zrealloc_def zfree_def zstrdup_def zstore_def libc_alloc_def libc_realloc_def
        libc_free_def new_block_def drop_block_def asked_def put_size_def get_size_def mem_write_def PREFIX_SIZE_def
        update_zmalloc_stat_alloc_def update_zmalloc_stat_free_def padded_def contents_def grantable_def strlen_def cstring_def
        NUL_def zenv0_def zm0_def)
qed (simp_all add: zm0_def)

section \<open>The size of the process\<close>

text \<open>
  \<^verbatim>\<open>zmalloc_get_rss\<close> reads the 24th field of the file, when none of the fields in front contains
  a blank. The name of the program, the second field, may contain one: then another field is read.
\<close>

lemma skip_fields_ok:
  assumes "\<forall>f \<in> set fs. CHR '' '' \<notin> set f \<and> NUL \<notin> set f"
  shows "skip_fields (length fs) (concat (map (\<lambda>f. f @ '' '') fs) @ p) = Some (Some p)"
  using assms by (induction fs) (simp_all add: strchr_at_found)

lemma zmalloc_get_rss_field:
  assumes "\<forall>f \<in> set fs. CHR '' '' \<notin> set f \<and> NUL \<notin> set f" "length fs = 23" "n < 2 ^ 63"
    and c: "content = concat (map (\<lambda>f. f @ '' '') fs) @ decimal n @ '' '' @ rest" "length content \<le> 4096"
  shows "zmalloc_get_rss page (Some content) junk = Some (word_of_nat n * word_of_int page)"
proof -
  let ?p = "decimal n @ CHR '' '' # rest @ drop (length content) junk"
  have t: "take 4096 content = content" "content \<noteq> []" using c by simp_all
  have b: "content @ drop (length content) junk = concat (map (\<lambda>f. f @ '' '') fs) @ ?p"
    by (subst (1) c(1)) simp
  have "CHR '' '' \<notin> set (decimal n)" "NUL \<notin> set (decimal n)"
    using digit_of_decimal(2) [of "CHR '' ''" n] by (auto simp: isspace_def)
  then have "strchr_at ?p CHR '' '' = Some (Some (length (decimal n)))" by (rule strchr_at_found)
  moreover have "strtol (?p[length (decimal n) := NUL]) = Some (int n)"
    using assms(3) by (simp add: strtol_decimal isdigit_def NUL_def)
  ultimately show ?thesis
    using skip_fields_ok [OF assms(1), of ?p] unfolding assms(2)
    by (simp add: zmalloc_get_rss_def t b)
qed

end
