(* ===== verification/Spec2Isabelle.thy ===== *)
theory Spec2Isabelle
  imports Release ReaderLimits Timers Calls BlockQueue SdsSplit Zmalloc
begin

text \<open>
  A verification development for the multiplexing hiredis client: a Redis client library in C
  (\<^verbatim>\<open>src/\<close>) in which many threads share one connection. A caller formats a command, puts it on
  the list of a connection and waits; a loop thread takes the commands from the list, writes
  them out, reads the replies and hands each one to the caller that waits for it.

  \<^bold>\<open>How the code is modelled.\<close> A struct is a record, an enum a datatype, a C function a HOL
  function on the explicit state it touches; \<open>None\<close> stands for undefined behaviour (a NULL or
  freed pointer, a double free, a read past a block) or for a wait that never ends, so that
  \<open>f x = Some y\<close> says that the code returns and is free of such faults. Loops are
  recursive functions, or \<open>partial_function (option)\<close> where they need not end, so
  no result rests on fuel; the theorems prove that they end. Integers are \<^typ>\<open>int\<close> or \<^typ>\<open>nat\<close> cut to
  their width where they are stored, flags are machine words. Blocks of bytes are
  lists, other objects live in heaps with addresses that are not reused, each with a pattern of the
  requests the allocator grants. The kernel, the C library and the user's callbacks are
  parameters, and what a theorem needs of them is a named hypothesis.

  \<^bold>\<open>The theories.\<close>
  \<^item> Prelude: C types, allocator, bytes, characters, decimal numerals.
  \<^item> Sds, SdsText (\<^verbatim>\<open>sds.h\<close>, \<^verbatim>\<open>sds.c\<close>): dynamic strings with their five header
    types; growth, appending, trimming, ranges, numbers, \<^verbatim>\<open>sdscatfmt\<close>. The operations are shown to
    refine operations on plain strings, for every header type.
  \<^item> ReadTask, Reader, ReaderSpec, Reply, ReaderRefine, ReaderLimits (\<^verbatim>\<open>read.h\<close>, \<^verbatim>\<open>read.c\<close> and the reply
    objects of \<^verbatim>\<open>hiredis.c\<close>): the protocol reader over a table of object functions, a recursive reference
    parser, the heap of reply objects, the proof that reader and parser agree on
    every input, however it is cut, and the inputs that the reader refuses or that crash it.
  \<^item> Printf, Format, VFormat (\<^verbatim>\<open>hiredis.c\<close>): the conversions left to the C library, formatting
    commands from argument vectors and from formats with variable arguments; both give the wire format.
  \<^item> SdsSplit (\<^verbatim>\<open>sds.c\<close>): splitting, joining, quoting and translating strings. Joining undoes splitting, and
    \<^verbatim>\<open>sdssplitargs\<close> reads back what \<^verbatim>\<open>sdscatrepr\<close> quotes.
  \<^item> Zmalloc (\<^verbatim>\<open>zmalloc.c\<close>): the allocator that counts the memory in use; the count is exact.
  \<^item> BlockQueue (\<^verbatim>\<open>block_queue.h\<close>): the bounded queue between threads, a ring buffer refining a
    bounded sequence.
  \<^item> Context, Sync, Net (\<^verbatim>\<open>hiredis.h\<close>, \<^verbatim>\<open>hiredis.c\<close>, \<^verbatim>\<open>net.c\<close>): the context, the blocking interface and the
    connect functions, with descriptors and \<^verbatim>\<open>errno\<close>.
  \<^item> Fifo, Adlist (\<^verbatim>\<open>list.h\<close>, \<^verbatim>\<open>list.c\<close>) and Dict (\<^verbatim>\<open>dict.h\<close>, \<^verbatim>\<open>dict.c\<close>): linked lists and hash tables on
    explicit heaps, refining sequences and finite maps; Fifo and Dict hold the interfaces as locales.
  \<^item> Callbacks, Async, Dispatch, Commands, Release (\<^verbatim>\<open>async.h\<close>, \<^verbatim>\<open>async.c\<close>): the asynchronous context.
    Dispatch defines the abstract client, which picks a callback for each reply; the lemmas show that the code does
    what the client does when replies arrive (Dispatch), commands are issued (Commands) and the
    context is freed (Release).
  \<^item> Ae, Events, Timers, Adapter (\<^verbatim>\<open>ae.h\<close>, \<^verbatim>\<open>ae.c\<close>, \<^verbatim>\<open>ae_epoll.c\<close>, \<^verbatim>\<open>adapters/ae.h\<close>): the event loop over \<^verbatim>\<open>epoll\<close>, its
    file events and timers, and the hooks that tie a context to it.
  \<^item> Mux, MuxClient, Request (\<^verbatim>\<open>hiredis.c\<close> from \<^verbatim>\<open>EVENT_SIZE\<close> to the callbacks and from
    \<^verbatim>\<open>freeXredisContext\<close> to the end): the global client, the multiplexing contexts, requests, the
    callbacks the loop thread runs, connecting, reconnecting and freeing.
  \<^item> Shared: the list of commands and the list of contexts to reconnect, in one heap.
  \<^item> Handoff: the hand-over of requests between callers and loop thread as an abstract machine, its
    invariant \<open>good\<close>: who holds references to a request, and whose reply it will get.
  \<^item> Threads: the machine whose steps (\<open>cstep\<close>) are the functions that model the code, any number of callers
    and the loop thread interleaved in any order, and the relation \<open>matched\<close> to the machine of Handoff; every
    step that can happen is carried out without a fault and matches a step there.
  \<^item> Woken: two more invariants of the abstract machine, the owner of a request and its signal.
  \<^item> Calls: what follows for the code. No step goes wrong, each caller gets the reply to its own
    command, requests go out in the order of the calls, and a caller whose request was answered has been
    signalled once. When the connection is lost, requests still on the list are dropped without a signal, and a
    caller that gives up then may free its request a second time. The mutex of the client is locked twice
    when the client is cleared.

  \<^bold>\<open>Steps of the threads.\<close> What a thread does between two waits is one step of the machine in Threads. That covers
  what the code does with the mutex of the list held, and three things it does without one: reading a
  request and giving up a reference (\<^verbatim>\<open>__sync_sub_and_fetch\<close>), storing a reply and signalling, and
  the search of a caller that gives up. The machine covers one connection from the time it is
  connected until its loss is reported; no commands are issued between the two, because the loop thread
  notices the loss, calls the pending callbacks and reports it without returning to the loop. Connecting,
  reconnecting and freeing (Mux, MuxClient) are modelled function by function, with what the other threads do
  meanwhile as an argument.

  \<^bold>\<open>Bounds.\<close> Where a proof needs that nothing overflows, the bound is a hypothesis: output
  buffers and commands below two gigabytes (\<^verbatim>\<open>int\<close> lengths), also in sum over the commands not
  yet written (\<open>cf_bytes\<close>), lists below \<open>2 ^ 62\<close> nodes, strings to split or join below \<open>2 ^ 28\<close> and to quote below
  \<open>2 ^ 29\<close> bytes, an allocator that serves every request below \<open>2 ^ 33\<close> bytes (\<open>roomy\<close>).

  \<^bold>\<open>Not modelled.\<close> The polling interfaces of other systems (\<^verbatim>\<open>ae_select.c\<close>, \<^verbatim>\<open>ae_kqueue.c\<close>), which the
  build for Linux leaves out; the adapters to other event libraries, which are calls of code that is not in the
  repository (the interface they implement is the parameter of Async, and Adapter is one instance);
  configuration and type names (\<^verbatim>\<open>config.h\<close>, \<^verbatim>\<open>type.h\<close>, \<^verbatim>\<open>fmacros.h\<close>, \<^verbatim>\<open>win32.h\<close>, \<^verbatim>\<open>autolock.h\<close>,
  \<^verbatim>\<open>sdsalloc.h\<close>); \<^verbatim>\<open>main.c\<close>, the tests and the examples. Strings of sds.c are values, so
  \<^verbatim>\<open>sdsfree\<close> and \<^verbatim>\<open>sdsfreesplitres\<close> have no definition: a string that is freed is one that no state
  holds any more. Of \<^verbatim>\<open>block_queue.h\<close> the destructor is left out, which is undefined for
  an array made with \<^verbatim>\<open>new[]\<close>. The arithmetic of \<^verbatim>\<open>float\<close> and \<^verbatim>\<open>double\<close> is a parameter.
\<close>

section \<open>Properties that span components\<close>

text \<open>Only the first \<open>len\<close> bytes are fed.\<close>

lemma redisReaderFeed_prefix:
  assumes "n \<le> length d"
  shows "redisReaderFeed A r h (Some (d @ e)) n = redisReaderFeed A r h (Some d) n"
proof -
  have t: "take n (d @ e) = take n d" using assms by simp
  have "sdscatlen A b (d @ e) n = sdscatlen A b d n" for b
    unfolding sdscatlen_def t ..
  then show ?thesis by (simp add: redisReaderFeed_def)
qed

lemma wf_command:
  assumes "length (wire args) + 1 < 2 ^ 31"
  shows "wf_reply 8 (RArray (map RString args))"
proof -
  have l: "length (concat (map bulk args)) < 2 ^ 31" using assms by (simp add: wire_eq)
  have "length args \<le> length (concat (map bulk args))" by (induction args) (simp_all add: bulk_eq)
  moreover have "length s \<le> length (concat (map bulk args))" if "s \<in> set args" for s
    using that by (induction args) (auto simp: bulk_eq)
  then have "length s < 2 ^ 63" if "s \<in> set args" for s using l that by fastforce
  ultimately show ?thesis using l by auto
qed

text \<open>
  C12. A formatted command is a well-formed array of bulk strings: fed to a fresh reader it is
  read back as the array of exactly the given arguments, whatever bytes they contain, with
  nothing left over.
\<close>

theorem command_round_trip:
  assumes "args_are argv argvlen args" "length (wire args) + 1 < 2 ^ 31" "roomy A"
    and "redisReaderCreate A = Some r" "heap_ok h" "has_memory h"
  shows "\<exists>n cmd r1 p r2 h2 t. redisFormatCommandArgv A True (int (length args)) argv argvlen = Some (int n, Some cmd) \<and>
    redisReaderFeed A r h (Some cmd) n = Some (REDIS_OK, r1, h) \<and>
    redisReaderGetReply r1 h = Some (REDIS_OK, p, r2, h2) \<and>
    represents (RArray (map RString args)) t \<and> aroot t = p \<and> heap_is (objs h) h2 t \<and> r_input r2 = []"
proof -
  let ?w = "wire args" and ?v = "RArray (map RString args)"
  have "serves A (length ?w + 1)" using assms(2,3) by (simp add: roomy_def)
  then have f: "redisFormatCommandArgv A True (int (length args)) argv argvlen = Some (int (length ?w), Some (?w @ [NUL]))"
    using assms(1,2) by (intro redisFormatCommandArgv_ok) simp_all
  obtain r1 p r2 h2 t where R: "redisReaderFeed A r h (Some (encode ?v @ [])) (length (encode ?v @ [])) = Some (REDIS_OK, r1, h)"
    "redisReaderGetReply r1 h = Some (REDIS_OK, p, r2, h2)" "represents ?v t" "aroot t = p" "heap_is (objs h) h2 t" "r_input r2 = []"
    using reader_roundtrip [OF assms(4,3,5,6) wf_command [OF assms(2)], of "[]"] assms(2) by (auto simp: wire_def)
  have "redisReaderFeed A r h (Some (?w @ [NUL])) (length ?w) = redisReaderFeed A r h (Some ?w) (length ?w)"
    by (rule redisReaderFeed_prefix) simp
  then show ?thesis using f R unfolding wire_def append_Nil2 by metis
qed

theorem command_round_trip_witness:
  "\<exists>r n cmd r1 p r2 h2 t. redisFormatCommandArgv heap0 True (int (length args_ab)) argv_ab (Some [3, 3]) = Some (int n, Some cmd) \<and>
    redisReaderFeed heap0 r empty_heap (Some cmd) n = Some (REDIS_OK, r1, empty_heap) \<and>
    redisReaderGetReply r1 empty_heap = Some (REDIS_OK, p, r2, h2) \<and>
    represents (RArray (map RString args_ab)) t \<and> aroot t = p \<and> heap_is (objs empty_heap) h2 t \<and> r_input r2 = []"
proof -
  obtain r where r: "redisReaderCreate heap0 = Some r" using redisReaderCreate_total [OF roomy_heap0] by blast
  have "length (wire args_ab) + 1 < 2 ^ 31" by (simp add: wire_ab)
  from command_round_trip [OF args_ab_are this roomy_heap0 r empty_heap_ok(1,2)] show ?thesis by (rule exI)
qed

end
